(* ===== verification/Glish_Prelude.thy ===== *)
theory Glish_Prelude
  imports Main "HOL-Library.Word" "HOL-Library.Monad_Syntax" "HOL-Library.Multiset"
begin

text \<open>
  Shared vocabulary of the development: the machine types the C sources use, the C string and
  character primitives several components call, an explicit reading of an out-of-range memory
  access as \<open>None\<close>, and the list, option and word lemmas the component proofs share.
\<close>

unbundle bit_operations_syntax

section \<open>Machine types\<close>

type_synonym u8 = "8 word"
type_synonym u16 = "16 word"
type_synonym u32 = "32 word"

text \<open>
  \<open>c_rules\<close> collects the equations that evaluate the C primitives below; \<open>mem_rules\<close> the
  facts about block copies inside an array.
\<close>

named_theorems c_rules
named_theorems mem_rules

section \<open>Characters and C strings\<close>

text \<open>
  A \<open>char*\<close> argument that the source treats as a string is the list of its characters before
  the terminating NUL. \<open>cbyte\<close> and \<open>bchar\<close> convert between a character and the byte that
  stores it.
\<close>

definition cbyte :: "char \<Rightarrow> u8" where
  "cbyte c = of_nat (of_char c)"

definition bchar :: "u8 \<Rightarrow> char" where
  "bchar b = char_of (unat b)"

lemma bchar_cbyte [simp]: "bchar (cbyte c) = c"
  by (simp add: bchar_def cbyte_def unat_of_nat)

lemma cbyte_bchar [simp]: "cbyte (bchar b) = b"
proof -
  have "unat b < 256" using unsigned_less [of b] by simp
  then show ?thesis by (simp add: bchar_def cbyte_def)
qed

lemma inj_bchar: "inj bchar"
  by (rule inj_on_inverseI [of _ cbyte]) simp

definition NUL :: char where
  "NUL = CHR 0x00"

definition cstring :: "string \<Rightarrow> bool" where
  "cstring s \<longleftrightarrow> NUL \<notin> set s"

text \<open>\<open>isspace\<close> and \<open>isdigit\<close> of \<open>ctype.h\<close> in the C locale.\<close>

definition isspace :: "char \<Rightarrow> bool" where
  "isspace c \<longleftrightarrow> (let n = of_char c :: nat in n = 32 \<or> 9 \<le> n \<and> n \<le> 13)"

definition isdigit :: "char \<Rightarrow> bool" where
  "isdigit c \<longleftrightarrow> (let n = of_char c :: nat in 48 \<le> n \<and> n \<le> 57)"

definition newline :: char where
  "newline = CHR 0x0A"

lemma isspace_newline [simp]: "isspace newline"
  by (simp add: isspace_def newline_def)

section \<open>Words as numbers\<close>

lemma unat_add_bounded:
  fixes i k n :: "'a::len word"
  assumes "unat i + unat k \<le> unat n"
  shows "unat (i + k) = unat i + unat k"
proof -
  have "unat i + unat k < 2 ^ LENGTH('a)"
    using assms unsigned_less [of n] by (rule le_less_trans)
  then show ?thesis by (simp add: unat_word_ariths)
qed

lemma of_nat_unat: "of_nat (unat w) = (w::'a::len word)"
  by simp

lemma unat_drop_bit: "unat (drop_bit n (w::'a::len word)) = unat w div 2 ^ n"
  by (simp only: unat_drop_bit_eq drop_bit_eq_div [where 'a = nat])

lemma unat_and_mask: "unat ((w::'a::len word) AND mask n) = unat w mod 2 ^ n"
  by (simp only: unsigned_take_bit_eq take_bit_eq_mod [where 'a = nat] flip: take_bit_eq_mask)

lemma unat_push_bit: "unat (push_bit n (w::'a::len word)) = (unat w * 2 ^ n) mod 2 ^ LENGTH('a)"
  by (simp only: unsigned_push_bit_eq take_bit_eq_mod [where 'a = nat]
      push_bit_eq_mult [where 'a = nat])

lemma unat_and_ff: "unat ((w::u32) AND 0xff) = unat w mod 256"
  using unat_and_mask [of w 8] by (simp add: mask_eq_exp_minus_1)

lemma byte_of_word: "ucast (drop_bit n (w::u32) AND 0xff) = (of_nat (unat w div 2 ^ n) :: u8)"
proof (rule unsigned_word_eqI [where 'a = nat])
  show "unat (ucast (drop_bit n w AND 255) :: u8) = unat (of_nat (unat w div 2 ^ n) :: u8)"
    by (simp add: unsigned_ucast_eq unat_of_nat unat_and_ff unat_drop_bit take_bit_eq_mod)
qed

lemma unat_u8_less: "unat (b::u8) < 256"
  using unsigned_less [of b] by simp

section \<open>Block copies\<close>

text \<open>\<open>memcpy\<close> of \<open>src\<close> to offset \<open>i\<close> of an array.\<close>

definition copy_at :: "'a list \<Rightarrow> nat \<Rightarrow> 'a list \<Rightarrow> 'a list" where
  "copy_at dst i src = take i dst @ src @ drop (i + length src) dst"

lemma length_copy_at [simp, mem_rules]:
  "i + length src \<le> length dst \<Longrightarrow> length (copy_at dst i src) = length dst"
  by (simp add: copy_at_def)

lemma take_copy_at [mem_rules]:
  "i \<le> length dst \<Longrightarrow> take (i + length src) (copy_at dst i src) = take i dst @ src"
  by (simp add: copy_at_def)

lemma take_copy_at_before [mem_rules]:
  "n \<le> i \<Longrightarrow> i \<le> length dst \<Longrightarrow> take n (copy_at dst i src) = take n dst"
  by (simp add: copy_at_def min_def)

lemma copy_at_0_full [mem_rules]:
  "length src = length dst \<Longrightarrow> copy_at dst 0 src = src"
  by (simp add: copy_at_def)

section \<open>Decimal and hexadecimal numerals\<close>

text \<open>\<open>%d\<close> of a non-negative number, and \<open>atoi\<close>.\<close>

fun dec :: "nat \<Rightarrow> string" where
  "dec n = (if n < 10 then [char_of (48 + n)] else dec (n div 10) @ [char_of (48 + n mod 10)])"

declare dec.simps [simp del]

definition digit_val :: "char \<Rightarrow> nat" where
  "digit_val c = of_char c - 48"

fun digits_val :: "nat \<Rightarrow> string \<Rightarrow> nat" where
  "digits_val acc [] = acc"
| "digits_val acc (c # s) = (if isdigit c then digits_val (10 * acc + digit_val c) s else acc)"

definition atoi :: "string \<Rightarrow> int" where
  "atoi s = (case dropWhile isspace s of
     [] \<Rightarrow> 0
   | c # t \<Rightarrow> if c = CHR ''-'' then - int (digits_val 0 t)
              else if c = CHR ''+'' then int (digits_val 0 t)
              else int (digits_val 0 (c # t)))"

lemma digit_char:
  assumes "n < 10"
  shows "isdigit (char_of (48 + n))" and "digit_val (char_of (48 + n)) = n"
    and "\<not> isspace (char_of (48 + n))"
  using assms by (simp_all add: isdigit_def digit_val_def isspace_def)

lemma dec_nonempty [simp]: "dec n \<noteq> []"
  by (subst dec.simps) simp

lemma set_dec: "c \<in> set (dec n) \<Longrightarrow> isdigit c \<and> \<not> isspace c"
proof (induction n rule: dec.induct)
  case (1 n)
  show ?case
  proof (cases "n < 10")
    case True
    with 1 digit_char show ?thesis by (simp add: dec.simps [of n])
  next
    case False
    with 1 digit_char [of "n mod 10"] show ?thesis by (auto simp: dec.simps [of n])
  qed
qed

lemma digits_val_append:
  "\<forall>c \<in> set s. isdigit c \<Longrightarrow> digits_val acc (s @ t) = digits_val (digits_val acc s) t"
  by (induction s arbitrary: acc) auto

lemma digits_val_dec: "digits_val 0 (dec n) = n"
proof (induction n rule: dec.induct)
  case (1 n)
  show ?case
  proof (cases "n < 10")
    case True
    with digit_char show ?thesis by (simp add: dec.simps [of n])
  next
    case False
    have "\<forall>c \<in> set (dec (n div 10)). isdigit c" using set_dec by blast
    with False 1 digit_char [of "n mod 10"] show ?thesis
      by (simp add: dec.simps [of n] digits_val_append)
  qed
qed

lemma atoi_dec: "atoi (dec n) = int n"
proof -
  obtain c t where d: "dec n = c # t" by (cases "dec n") simp_all
  then have "isdigit c" "\<not> isspace c" using set_dec [of c n] by simp_all
  then have "dropWhile isspace (dec n) = c # t" "c \<noteq> CHR ''-''" "c \<noteq> CHR ''+''"
    by (auto simp: d isdigit_def)
  then show ?thesis using digits_val_dec [of n] by (simp add: atoi_def d)
qed

text \<open>The two digits \<open>%02x\<close> prints for a byte, and the value of a hexadecimal digit.\<close>

definition hex_digit :: "nat \<Rightarrow> char" where
  "hex_digit n = char_of (if n < 10 then 48 + n else 87 + n)"

definition hex_val :: "char \<Rightarrow> nat option" where
  "hex_val c =
     (let n = of_char c :: nat in
      if 48 \<le> n \<and> n \<le> 57 then Some (n - 48)
      else if 97 \<le> n \<and> n \<le> 102 then Some (n - 87)
      else if 65 \<le> n \<and> n \<le> 70 then Some (n - 55)
      else None)"

lemma of_char_hex_digit:
  "n < 16 \<Longrightarrow> of_char (hex_digit n) = (if n < 10 then 48 + n else 87 + n)"
  by (simp add: hex_digit_def)

lemma hex_val_hex_digit [simp]: "n < 16 \<Longrightarrow> hex_val (hex_digit n) = Some n"
  by (simp add: hex_val_def of_char_hex_digit)

lemma not_isspace_hex_digit [simp]: "n < 16 \<Longrightarrow> \<not> isspace (hex_digit n)"
  by (simp add: isspace_def of_char_hex_digit)

lemma hex_digit_neq:
  "n < 16 \<Longrightarrow> hex_val c = None \<Longrightarrow> hex_digit n \<noteq> c"
  using hex_val_hex_digit by fastforce

text \<open>Replacing one of the chains of a table of chains.\<close>

lemma mset_concat_update:
  assumes "i < length bs"
  shows "mset (concat (bs[i := c])) + mset (bs ! i) = mset (concat bs) + mset c"
proof -
  have "bs = take i bs @ bs ! i # drop (Suc i) bs" using assms by (simp add: id_take_nth_drop)
  then have "mset (concat bs) = mset (concat (take i bs)) + mset (bs ! i) + mset (concat (drop (Suc i) bs))"
    by (metis concat.simps(2) concat_append mset_append add.assoc)
  moreover have "mset (concat (bs[i := c]))
      = mset (concat (take i bs)) + mset c + mset (concat (drop (Suc i) bs))"
    using assms by (simp add: upd_conv_take_nth_drop)
  ultimately show ?thesis by (simp add: ac_simps)
qed

end
