(* ===== verification/Npd_MD5.thy ===== *)
theory Npd_MD5
  imports Glish_Prelude
begin

text \<open>
  The message digest of the npd authentication library (\<open>npd/md5c.c\<close>): the context record of
  \<open>md5.h\<close>, the block transformation, the streaming update and the finalisation, on 32-bit
  words with C's wrap-around. The main result is that the streaming interface computes the
  padded one-shot digest of the concatenation of everything it was fed.
\<close>

unbundle bit_operations_syntax

section \<open>Constants, round functions and byte order\<close>

abbreviation (input) S11 :: nat where "S11 \<equiv> 7"
abbreviation (input) S12 :: nat where "S12 \<equiv> 12"
abbreviation (input) S13 :: nat where "S13 \<equiv> 17"
abbreviation (input) S14 :: nat where "S14 \<equiv> 22"
abbreviation (input) S21 :: nat where "S21 \<equiv> 5"
abbreviation (input) S22 :: nat where "S22 \<equiv> 9"
abbreviation (input) S23 :: nat where "S23 \<equiv> 14"
abbreviation (input) S24 :: nat where "S24 \<equiv> 20"
abbreviation (input) S31 :: nat where "S31 \<equiv> 4"
abbreviation (input) S32 :: nat where "S32 \<equiv> 11"
abbreviation (input) S33 :: nat where "S33 \<equiv> 16"
abbreviation (input) S34 :: nat where "S34 \<equiv> 23"
abbreviation (input) S41 :: nat where "S41 \<equiv> 6"
abbreviation (input) S42 :: nat where "S42 \<equiv> 10"
abbreviation (input) S43 :: nat where "S43 \<equiv> 15"
abbreviation (input) S44 :: nat where "S44 \<equiv> 21"

definition MD5_F :: "u32 \<Rightarrow> u32 \<Rightarrow> u32 \<Rightarrow> u32" where
  "MD5_F x y z = (x AND y) OR (NOT x AND z)"

definition MD5_G :: "u32 \<Rightarrow> u32 \<Rightarrow> u32 \<Rightarrow> u32" where
  "MD5_G x y z = (x AND z) OR (y AND NOT z)"

definition MD5_H :: "u32 \<Rightarrow> u32 \<Rightarrow> u32 \<Rightarrow> u32" where
  "MD5_H x y z = x XOR y XOR z"

definition MD5_I :: "u32 \<Rightarrow> u32 \<Rightarrow> u32 \<Rightarrow> u32" where
  "MD5_I x y z = y XOR (x OR NOT z)"

definition ROTATE_LEFT :: "u32 \<Rightarrow> nat \<Rightarrow> u32" where
  "ROTATE_LEFT x n = push_bit n x OR drop_bit (32 - n) x"

text \<open>Each macro assigns its first argument; the definition returns the value assigned.\<close>

definition FF :: "u32 \<Rightarrow> u32 \<Rightarrow> u32 \<Rightarrow> u32 \<Rightarrow> u32 \<Rightarrow> nat \<Rightarrow> u32 \<Rightarrow> u32" where
  "FF a b c d x s ac = ROTATE_LEFT (a + (MD5_F b c d + x + ac)) s + b"

definition GG :: "u32 \<Rightarrow> u32 \<Rightarrow> u32 \<Rightarrow> u32 \<Rightarrow> u32 \<Rightarrow> nat \<Rightarrow> u32 \<Rightarrow> u32" where
  "GG a b c d x s ac = ROTATE_LEFT (a + (MD5_G b c d + x + ac)) s + b"

definition HH :: "u32 \<Rightarrow> u32 \<Rightarrow> u32 \<Rightarrow> u32 \<Rightarrow> u32 \<Rightarrow> nat \<Rightarrow> u32 \<Rightarrow> u32" where
  "HH a b c d x s ac = ROTATE_LEFT (a + (MD5_H b c d + x + ac)) s + b"

definition II :: "u32 \<Rightarrow> u32 \<Rightarrow> u32 \<Rightarrow> u32 \<Rightarrow> u32 \<Rightarrow> nat \<Rightarrow> u32 \<Rightarrow> u32" where
  "II a b c d x s ac = ROTATE_LEFT (a + (MD5_I b c d + x + ac)) s + b"

definition PADDING :: "u8 list" where
  "PADDING = 0x80 # replicate 63 0"

text \<open>
  \<open>Encode\<close> writes the words of its input to bytes, \<open>Decode\<close> reads words back, both in
  little-endian order. The C loops run \<open>i\<close> over the words while \<open>j = 4 * i\<close> is below
  \<open>len\<close>.
\<close>

definition Encode :: "u32 list \<Rightarrow> nat \<Rightarrow> u8 list" where
  "Encode input len =
     concat (map (\<lambda>i. [ucast (input ! i AND 0xff),
                       ucast (drop_bit 8 (input ! i) AND 0xff),
                       ucast (drop_bit 16 (input ! i) AND 0xff),
                       ucast (drop_bit 24 (input ! i) AND 0xff)])
             [0..<(len + 3) div 4])"

definition Decode :: "u8 list \<Rightarrow> nat \<Rightarrow> u32 list" where
  "Decode input len =
     map (\<lambda>i. let j = 4 * i in
            ucast (input ! j) OR push_bit 8 (ucast (input ! (j + 1)))
              OR push_bit 16 (ucast (input ! (j + 2))) OR push_bit 24 (ucast (input ! (j + 3))))
       [0..<(len + 3) div 4]"

section \<open>The block transformation\<close>

definition MD5Transform :: "u32 list \<Rightarrow> u8 list \<Rightarrow> u32 list" where
  "MD5Transform state block =
     (let a = state ! 0; b = state ! 1; c = state ! 2; d = state ! 3;
       x = Decode block 64;
       a = FF a b c d (x ! 0) S11 0xd76aa478;
       d = FF d a b c (x ! 1) S12 0xe8c7b756;
       c = FF c d a b (x ! 2) S13 0x242070db;
       b = FF b c d a (x ! 3) S14 0xc1bdceee;
       a = FF a b c d (x ! 4) S11 0xf57c0faf;
       d = FF d a b c (x ! 5) S12 0x4787c62a;
       c = FF c d a b (x ! 6) S13 0xa8304613;
       b = FF b c d a (x ! 7) S14 0xfd469501;
       a = FF a b c d (x ! 8) S11 0x698098d8;
       d = FF d a b c (x ! 9) S12 0x8b44f7af;
       c = FF c d a b (x ! 10) S13 0xffff5bb1;
       b = FF b c d a (x ! 11) S14 0x895cd7be;
       a = FF a b c d (x ! 12) S11 0x6b901122;
       d = FF d a b c (x ! 13) S12 0xfd987193;
       c = FF c d a b (x ! 14) S13 0xa679438e;
       b = FF b c d a (x ! 15) S14 0x49b40821;
       a = GG a b c d (x ! 1) S21 0xf61e2562;
       d = GG d a b c (x ! 6) S22 0xc040b340;
       c = GG c d a b (x ! 11) S23 0x265e5a51;
       b = GG b c d a (x ! 0) S24 0xe9b6c7aa;
       a = GG a b c d (x ! 5) S21 0xd62f105d;
       d = GG d a b c (x ! 10) S22 0x2441453;
       c = GG c d a b (x ! 15) S23 0xd8a1e681;
       b = GG b c d a (x ! 4) S24 0xe7d3fbc8;
       a = GG a b c d (x ! 9) S21 0x21e1cde6;
       d = GG d a b c (x ! 14) S22 0xc33707d6;
       c = GG c d a b (x ! 3) S23 0xf4d50d87;
       b = GG b c d a (x ! 8) S24 0x455a14ed;
       a = GG a b c d (x ! 13) S21 0xa9e3e905;
       d = GG d a b c (x ! 2) S22 0xfcefa3f8;
       c = GG c d a b (x ! 7) S23 0x676f02d9;
       b = GG b c d a (x ! 12) S24 0x8d2a4c8a;
       a = HH a b c d (x ! 5) S31 0xfffa3942;
       d = HH d a b c (x ! 8) S32 0x8771f681;
       c = HH c d a b (x ! 11) S33 0x6d9d6122;
       b = HH b c d a (x ! 14) S34 0xfde5380c;
       a = HH a b c d (x ! 1) S31 0xa4beea44;
       d = HH d a b c (x ! 4) S32 0x4bdecfa9;
       c = HH c d a b (x ! 7) S33 0xf6bb4b60;
       b = HH b c d a (x ! 10) S34 0xbebfbc70;
       a = HH a b c d (x ! 13) S31 0x289b7ec6;
       d = HH d a b c (x ! 0) S32 0xeaa127fa;
       c = HH c d a b (x ! 3) S33 0xd4ef3085;
       b = HH b c d a (x ! 6) S34 0x4881d05;
       a = HH a b c d (x ! 9) S31 0xd9d4d039;
       d = HH d a b c (x ! 12) S32 0xe6db99e5;
       c = HH c d a b (x ! 15) S33 0x1fa27cf8;
       b = HH b c d a (x ! 2) S34 0xc4ac5665;
       a = II a b c d (x ! 0) S41 0xf4292244;
       d = II d a b c (x ! 7) S42 0x432aff97;
       c = II c d a b (x ! 14) S43 0xab9423a7;
       b = II b c d a (x ! 5) S44 0xfc93a039;
       a = II a b c d (x ! 12) S41 0x655b59c3;
       d = II d a b c (x ! 3) S42 0x8f0ccc92;
       c = II c d a b (x ! 10) S43 0xffeff47d;
       b = II b c d a (x ! 1) S44 0x85845dd1;
       a = II a b c d (x ! 8) S41 0x6fa87e4f;
       d = II d a b c (x ! 15) S42 0xfe2ce6e0;
       c = II c d a b (x ! 6) S43 0xa3014314;
       b = II b c d a (x ! 13) S44 0x4e0811a1;
       a = II a b c d (x ! 4) S41 0xf7537e82;
       d = II d a b c (x ! 11) S42 0xbd3af235;
       c = II c d a b (x ! 2) S43 0x2ad7d2bb;
       b = II b c d a (x ! 9) S44 0xeb86d391
      in [state ! 0 + a, state ! 1 + b, state ! 2 + c, state ! 3 + d])"

section \<open>The streaming interface\<close>

record MD5_CTX =
  state :: "u32 list"
  count :: "u32 list"
  buffer :: "u8 list"

text \<open>\<open>nMD5Init\<close> leaves the bytes of \<open>buffer\<close> as it finds them.\<close>

definition nMD5Init :: "MD5_CTX \<Rightarrow> MD5_CTX" where
  "nMD5Init context = context\<lparr>count := [0, 0],
     state := [0x67452301, 0xefcdab89, 0x98badcfe, 0x10325476]\<rparr>"

text \<open>
  The block loop of \<open>nMD5Update\<close>: \<open>i + 63 < inputLen\<close> is evaluated on unsigned 32-bit
  values. When the sum wraps, the next block reads past the input, which is \<open>None\<close>.
\<close>

function md5_blocks :: "u32 list \<Rightarrow> u8 list \<Rightarrow> u32 \<Rightarrow> u32 \<Rightarrow> (u32 list \<times> u32) option" where
  "md5_blocks st input i inputLen =
     (if i + 63 < inputLen then
        (if unat i + 64 \<le> unat inputLen
         then md5_blocks (MD5Transform st (take 64 (drop (unat i) input))) input (i + 64) inputLen
         else None)
      else Some (st, i))"
  by pat_completeness auto
termination
proof (relation "measure (\<lambda>(st, input, i, inputLen). unat inputLen - unat i)", goal_cases)
  case (2 st input i inputLen)
  then have "unat (i + 64) = unat i + 64"
    using unat_add_bounded [of i 64 inputLen] by simp
  with 2 show ?case by simp
qed simp

declare md5_blocks.simps [simp del]

definition nMD5Update :: "MD5_CTX \<Rightarrow> u8 list \<Rightarrow> u32 \<Rightarrow> MD5_CTX option" where
  "nMD5Update context input inputLen =
     (if length input < unat inputLen then None
      else
        let index = drop_bit 3 (count context ! 0) AND 0x3F;
            bits = push_bit 3 inputLen;
            c0 = count context ! 0 + bits;
            c1 = (if c0 < bits then count context ! 1 + 1 else count context ! 1);
            c1 = c1 + drop_bit 29 inputLen;
            context = context\<lparr>count := [c0, c1]\<rparr>;
            partLen = 64 - index
        in if partLen \<le> inputLen then
             let buf = copy_at (buffer context) (unat index) (take (unat partLen) input) in
             do {
               (st, i) \<leftarrow> md5_blocks (MD5Transform (state context) buf) input partLen inputLen;
               Some (context\<lparr>state := st,
                 buffer := copy_at buf 0 (take (unat (inputLen - i)) (drop (unat i) input))\<rparr>)
             }
           else
             Some (context\<lparr>buffer :=
               copy_at (buffer context) (unat index) (take (unat inputLen) input)\<rparr>))"

definition nMD5Final :: "MD5_CTX \<Rightarrow> (u8 list \<times> MD5_CTX) option" where
  "nMD5Final context =
     (let bits = Encode (count context) 8;
          index = drop_bit 3 (count context ! 0) AND 0x3f;
          padLen = (if index < 56 then 56 - index else 120 - index)
      in do {
        context \<leftarrow> nMD5Update context PADDING padLen;
        context \<leftarrow> nMD5Update context bits 8;
        Some (Encode (state context) 16,
          \<lparr>state = replicate 4 0, count = replicate 2 0, buffer = replicate 64 0\<rparr>)
      })"

section \<open>The one-shot reference\<close>

text \<open>
  \<open>absorb\<close> runs the transformation over the complete 64-byte blocks of a message, \<open>residue\<close>
  is what remains. \<open>md5_ref\<close> is the digest of a whole message: the message, a \<open>0x80\<close> byte,
  zeros up to 56 modulo 64 and the 64-bit bit length, little end first.
\<close>

function absorb :: "u32 list \<Rightarrow> u8 list \<Rightarrow> u32 list" where
  "absorb st msg = (if length msg < 64 then st
     else absorb (MD5Transform st (take 64 msg)) (drop 64 msg))"
  by pat_completeness auto
termination
  by (relation "measure (\<lambda>(st, msg). length msg)") auto

declare absorb.simps [simp del]

definition residue :: "u8 list \<Rightarrow> u8 list" where
  "residue msg = drop (length msg div 64 * 64) msg"

definition md5_iv :: "u32 list" where
  "md5_iv = [0x67452301, 0xefcdab89, 0x98badcfe, 0x10325476]"

definition le_bytes :: "nat \<Rightarrow> nat \<Rightarrow> u8 list" where
  "le_bytes k m = map (\<lambda>i. of_nat (m div 256 ^ i)) [0..<k]"

definition md5_pad :: "nat \<Rightarrow> u8 list" where
  "md5_pad n = take (if n mod 64 < 56 then 56 - n mod 64 else 120 - n mod 64) PADDING
     @ le_bytes 8 (8 * n)"

definition md5_ref :: "u8 list \<Rightarrow> u8 list" where
  "md5_ref msg = Encode (absorb md5_iv (msg @ md5_pad (length msg))) 16"

lemma absorb_short: "length msg < 64 \<Longrightarrow> absorb st msg = st"
  by (simp add: absorb.simps [of st msg])

lemma absorb_block: "length blk = 64 \<Longrightarrow> absorb st (blk @ msg) = absorb (MD5Transform st blk) msg"
  by (simp add: absorb.simps [of st "blk @ msg"])

lemma absorb_append:
  "length a mod 64 = 0 \<Longrightarrow> absorb st (a @ b) = absorb (absorb st a) b"
proof (induction st a rule: absorb.induct)
  case (1 st a)
  show ?case
  proof (cases "length a < 64")
    case True
    with 1 have "a = []" by simp
    then show ?thesis by (simp add: absorb_short)
  next
    case False
    then have a: "a = take 64 a @ drop 64 a" and l: "length (take 64 a) = 64" by simp_all
    from 1 False have IH: "absorb (MD5Transform st (take 64 a)) (drop 64 a @ b)
        = absorb (absorb (MD5Transform st (take 64 a)) (drop 64 a)) b"
      by (simp add: le_mod_geq)
    have "absorb st (a @ b) = absorb (MD5Transform st (take 64 a)) (drop 64 a @ b)"
      by (subst a) (simp only: append_assoc absorb_block [OF l])
    also have "\<dots> = absorb (absorb st a) b"
      by (subst (3) a) (simp only: absorb_block [OF l] IH)
    finally show ?thesis .
  qed
qed

lemma length_residue [simp]: "length (residue msg) = length msg mod 64"
  by (simp add: residue_def minus_div_mult_eq_mod)

lemma residue_split: "msg = take (length msg div 64 * 64) msg @ residue msg"
  by (simp add: residue_def)

lemma absorb_residue: "absorb st (msg @ b) = absorb (absorb st msg) (residue msg @ b)"
proof -
  let ?a = "take (length msg div 64 * 64) msg"
  have a: "length ?a mod 64 = 0" by (simp add: min_absorb2 div_times_less_eq_dividend)
  have "absorb st msg = absorb (absorb st ?a) (residue msg)"
    using absorb_append [OF a, of st "residue msg"] residue_split [of msg] by simp
  then have "absorb st msg = absorb st ?a" by (simp add: absorb_short)
  then show ?thesis
    using absorb_append [OF a, of st "residue msg @ b"] residue_split [of msg]
    by (metis append_assoc)
qed

lemma residue_append: "residue (msg @ b) = residue (residue msg @ b)"
proof -
  let ?n = "length msg" and ?m = "length b"
  have "?n + ?m = (?n mod 64 + ?m) + 64 * (?n div 64)" by simp
  then have "(?n + ?m) div 64 = ?n div 64 + (?n mod 64 + ?m) div 64"
    by (metis add.commute div_mult_self2 zero_neq_numeral)
  then have *: "(?n + ?m) div 64 * 64 = ?n div 64 * 64 + (?n mod 64 + ?m) div 64 * 64"
    by (simp add: algebra_simps)
  have "drop (?n div 64 * 64) (msg @ b) = residue msg @ b"
    by (simp add: residue_def div_times_less_eq_dividend)
  then have "drop (?n div 64 * 64 + k) (msg @ b) = drop k (residue msg @ b)" for k
    by (metis add.commute drop_drop)
  then show ?thesis
    unfolding residue_def [of "msg @ b"] residue_def [of "residue msg @ b"]
    by (simp only: length_append length_residue *)
qed

lemma residue_short: "length msg < 64 \<Longrightarrow> residue msg = msg"
  by (simp add: residue_def)

lemma residue_block: "length blk = 64 \<Longrightarrow> residue (blk @ msg) = residue msg"
  using residue_append [of blk msg] by (simp add: residue_def [of blk])

section \<open>The streaming interface computes the reference digest\<close>

lemma md5_blocks_absorb:
  assumes "unat i \<le> unat n" and "unat n \<le> length input" and "unat n + 64 \<le> 2 ^ 32"
  shows "\<exists>i'. md5_blocks st input i n = Some (absorb st (drop (unat i) (take (unat n) input)), i')
    \<and> drop (unat i') (take (unat n) input) = residue (drop (unat i) (take (unat n) input))
    \<and> unat i' \<le> unat n"
  using assms
proof (induction st input i n rule: md5_blocks.induct)
  case (1 st input i n)
  let ?m = "drop (unat i) (take (unat n) input)"
  have lm: "length ?m = unat n - unat i" using "1.prems" by simp
  have i63: "unat (i + 63) = unat i + 63"
    using "1.prems" by (simp add: unat_word_ariths)
  show ?case
  proof (cases "i + 63 < n")
    case True
    then have b: "unat i + 64 \<le> unat n" using i63 by (simp add: word_less_nat_alt)
    then have i64: "unat (i + 64) = unat i + 64"
      using unat_add_bounded [of i 64 n] by simp
    have blk: "take 64 (drop (unat i) input) = take 64 ?m"
      using b by (simp add: drop_take min_def)
    have m: "?m = take 64 ?m @ drop 64 ?m" by (rule append_take_drop_id [symmetric])
    have d: "drop 64 ?m = drop (unat (i + 64)) (take (unat n) input)"
      by (simp add: i64 add.commute)
    have l: "length (take 64 ?m) = 64" using b lm by simp
    have "\<exists>i'. md5_blocks (MD5Transform st (take 64 ?m)) input (i + 64) n =
        Some (absorb (MD5Transform st (take 64 ?m)) (drop 64 ?m), i')
      \<and> drop (unat i') (take (unat n) input) = residue (drop 64 ?m) \<and> unat i' \<le> unat n"
      using "1.IH" [OF True b] "1.prems" b i64 unfolding blk d by simp
    moreover have "absorb st ?m = absorb (MD5Transform st (take 64 ?m)) (drop 64 ?m)"
      by (subst m) (rule absorb_block [OF l])
    moreover have "residue ?m = residue (drop 64 ?m)"
      by (subst m) (rule residue_block [OF l])
    ultimately show ?thesis
      using True b by (simp add: md5_blocks.simps [of st input i n] blk)
  next
    case False
    then have "length ?m < 64" using i63 lm by (simp add: word_less_nat_alt)
    then show ?thesis
      using False "1.prems" lm
      by (simp add: md5_blocks.simps [of st input i n] absorb_short residue_short)
  qed
qed

text \<open>What the context records after the bytes \<open>msg\<close> have been fed to it.\<close>

definition md5_fed :: "MD5_CTX \<Rightarrow> u8 list \<Rightarrow> bool" where
  "md5_fed ctx msg \<longleftrightarrow>
     state ctx = absorb md5_iv msg \<and> length (buffer ctx) = 64 \<and>
     take (length msg mod 64) (buffer ctx) = residue msg \<and>
     (\<exists>c0 c1. count ctx = [c0, c1] \<and> (unat c0 + 2 ^ 32 * unat c1) = (8 * length msg) mod 2 ^ 64)"

lemma nMD5Init_fed: "length (buffer ctx) = 64 \<Longrightarrow> md5_fed (nMD5Init ctx) []"
  by (simp add: md5_fed_def nMD5Init_def md5_iv_def absorb_short residue_short)

lemma carry_out:
  fixes a b M :: nat
  assumes "a < M" and "b < M"
  shows "(a + b) mod M < b \<longleftrightarrow> (a + b) div M = 1" and "(a + b) div M \<le> 1"
proof -
  have "((a + b) mod M < b \<longleftrightarrow> (a + b) div M = 1) \<and> (a + b) div M \<le> 1"
  proof (cases "a + b < M")
    case True
    then show ?thesis by simp
  next
    case False
    then have "(a + b) div M = 1" using assms by (intro div_nat_eqI) auto
    moreover from this have "(a + b) mod M = a + b - M"
      using div_mult_mod_eq [of "a + b" M] by simp
    ultimately show ?thesis using assms False by simp
  qed
  then show "(a + b) mod M < b \<longleftrightarrow> (a + b) div M = 1" and "(a + b) div M \<le> 1" by simp_all
qed

lemma two_word_sum: "(x::nat) < M \<Longrightarrow> (x + M * k) mod (M * M) = x + M * (k mod M)"
  by (simp add: mod_mult2_eq)

text \<open>The two-word bit counter is a 64-bit sum: carry out of the low word included.\<close>

lemma count_add:
  fixes c0 c1 n :: u32
  defines "b \<equiv> push_bit 3 n"
  defines "c0' \<equiv> c0 + b"
  defines "c1' \<equiv> (if c0' < b then c1 + 1 else c1) + drop_bit 29 n"
  shows "unat c0' + 2 ^ 32 * unat c1' = (unat c0 + 2 ^ 32 * unat c1 + 8 * unat n) mod 2 ^ 64"
proof -
  let ?M = "2 ^ 32 :: nat"
  let ?s = "unat c0 + unat b"
  let ?k = "unat c1 + ?s div ?M + unat n div 2 ^ 29"
  have b: "unat b = 8 * unat n mod ?M"
    by (simp add: b_def unat_push_bit mult.commute)
  have c0': "unat c0' = ?s mod ?M"
    by (simp add: c0'_def unat_word_ariths)
  have lt: "unat c0 < ?M" "unat b < ?M"
    using unsigned_less [of c0] unsigned_less [of b] by simp_all
  have carry: "c0' < b \<longleftrightarrow> ?s div ?M = 1" and le1: "?s div ?M \<le> 1"
    using carry_out [OF lt] unfolding word_less_nat_alt c0' by simp_all
  have "(if c0' < b then c1 + 1 else c1) = c1 + of_nat (?s div ?M)"
    using carry le1 by (cases "?s div ?M = 1") simp_all
  moreover have "drop_bit 29 n = of_nat (unat n div 2 ^ 29)"
    using of_nat_unat [of "drop_bit 29 n"] by (simp only: unat_drop_bit)
  ultimately have "c1' = of_nat ?k" unfolding c1'_def by simp
  moreover have "unat (of_nat k :: u32) = k mod ?M" for k by (simp add: unat_of_nat)
  ultimately have c1': "unat c1' = ?k mod ?M" by (simp only:)
  have n8: "8 * unat n = unat b + ?M * (unat n div 2 ^ 29)"
  proof -
    have "8 * unat n div ?M = unat n div 2 ^ 29" by simp
    then show ?thesis unfolding b by (metis mod_mult_div_eq)
  qed
  have s: "?s = unat c0' + ?M * (?s div ?M)" unfolding c0' by (rule mod_mult_div_eq [symmetric])
  have "unat c0 + ?M * unat c1 + 8 * unat n = ?s + ?M * unat c1 + ?M * (unat n div 2 ^ 29)"
    unfolding n8 by (simp only: ac_simps)
  also have "\<dots> = unat c0' + ?M * ?k"
    by (subst s) (simp only: distrib_left ac_simps)
  finally have sum: "unat c0 + ?M * unat c1 + 8 * unat n = unat c0' + ?M * ?k" .
  have "unat c0' < ?M" using unsigned_less [of c0'] by simp
  then have "(unat c0 + ?M * unat c1 + 8 * unat n) mod (?M * ?M) = unat c0' + ?M * (?k mod ?M)"
    unfolding sum by (rule two_word_sum)
  then show ?thesis by (simp only: c1' flip: power_add) simp
qed

lemma index_of_count:
  assumes "unat c0 + 2 ^ 32 * unat c1 = (8 * n) mod 2 ^ 64"
  shows "unat (drop_bit 3 (c0::u32) AND 0x3F) = n mod 64"
proof -
  have "(0x3F::u32) = mask 6" by (simp add: mask_eq_exp_minus_1)
  then have "unat (drop_bit 3 c0 AND 0x3F) = unat c0 div 8 mod 64"
    by (simp only: unat_and_mask unat_drop_bit) simp
  also have "\<dots> = (unat c0 + 8 * (64 * (2 ^ 23 * unat c1))) div 8 mod 64"
    by (subst div_mult_self2) (simp_all only: mod_mult_self2 mod_mult_self3 add.commute numeral_neq_zero not_False_eq_True)
  also have "\<dots> = (8 * n) mod 2 ^ 64 div 8 mod 64"
    using assms by simp
  also have "\<dots> = n mod 2 ^ 61 mod 64"
  proof -
    have "8 * n mod 2 ^ 64 = 8 * (n mod 2 ^ 61)" by (simp add: mult_mod_right)
    then show ?thesis by simp
  qed
  also have "\<dots> = n mod 64"
    by (simp add: mod_mod_cancel)
  finally show ?thesis .
qed

text \<open>
  One update: the context has been fed the bytes before and the bytes of this call. Inputs of
  more than \<open>2 ^ 32 - 64\<close> bytes in one call are excluded, where the loop condition wraps.
\<close>

lemma nMD5Update_fed:
  assumes fed: "md5_fed ctx msg" and n: "unat n \<le> length input" "unat n + 64 \<le> 2 ^ 32"
  shows "\<exists>ctx'. nMD5Update ctx input n = Some ctx' \<and> md5_fed ctx' (msg @ take (unat n) input)"
proof -
  obtain c0 c1 where cnt: "count ctx = [c0, c1]"
    and bits: "unat c0 + 2 ^ 32 * unat c1 = (8 * length msg) mod 2 ^ 64"
    using fed by (auto simp: md5_fed_def)
  define index where "index = drop_bit 3 c0 AND (0x3F::u32)"
  have index: "unat index = length msg mod 64"
    unfolding index_def by (rule index_of_count [OF bits])
  then have index64: "unat index < 64" by simp
  have part: "unat (64 - index) = 64 - unat index"
    using index64 by (subst unat_sub) (simp_all add: word_le_nat_alt)
  let ?in = "take (unat n) input"
  let ?msg = "msg @ ?in"
  have li: "length ?in = unat n" using n by simp
  have cnt': "\<exists>d0 d1. [c0 + push_bit 3 n, (if c0 + push_bit 3 n < push_bit 3 n then c1 + 1 else c1)
      + drop_bit 29 n] = [d0, d1] \<and> unat d0 + 2 ^ 32 * unat d1 = (8 * length ?msg) mod 2 ^ 64"
  proof -
    have "8 * length ?msg = 8 * length msg + 8 * unat n" by (simp only: length_append li distrib_left)
    then have "(unat c0 + 2 ^ 32 * unat c1 + 8 * unat n) mod 2 ^ 64 = (8 * length ?msg) mod 2 ^ 64"
      unfolding bits by (simp only: mod_add_left_eq)
    then show ?thesis using count_add [of c0 n c1] by (simp only:) blast
  qed
  have res: "take (unat index) (buffer ctx) = residue msg" and lb: "length (buffer ctx) = 64"
    and st: "state ctx = absorb md5_iv msg"
    using fed index by (simp_all add: md5_fed_def)
  show ?thesis
  proof (cases "64 - index \<le> n")
    case True
    then have ge: "64 - unat index \<le> unat n" using part by (simp add: word_le_nat_alt)
    let ?k = "64 - unat index"
    let ?r = "drop ?k ?in"
    let ?buf = "copy_at (buffer ctx) (unat index) (take ?k input)"
    have buf: "?buf = residue msg @ take ?k ?in"
      using index64 lb ge n by (simp add: copy_at_def res min_def) linarith
    have lbuf: "length ?buf = 64" using buf ge index li by simp
    have split: "residue msg @ ?in = ?buf @ ?r"
      by (simp only: buf append_assoc append_take_drop_id)
    have abs: "absorb md5_iv ?msg = absorb (MD5Transform (state ctx) ?buf) ?r"
      using absorb_residue [of md5_iv msg ?in] unfolding split absorb_block [OF lbuf] st .
    have rsd: "residue ?msg = residue ?r"
      using residue_append [of msg ?in] by (simp only: split residue_block [OF lbuf])
    obtain i' where blocks: "md5_blocks (MD5Transform (state ctx) ?buf) input (64 - index) n =
          Some (absorb md5_iv ?msg, i')"
      and i': "drop (unat i') ?in = residue ?msg" "unat i' \<le> unat n"
      using md5_blocks_absorb [of "64 - index" n input "MD5Transform (state ctx) ?buf"] n ge part
      by (auto simp: abs rsd)
    have "unat (n - i') = unat n - unat i'" using i' by (simp add: unat_sub word_le_nat_alt)
    then have tail: "take (unat (n - i')) (drop (unat i') input) = residue ?msg"
      using i' by (simp add: drop_take)
    have "take (length ?msg mod 64) (copy_at ?buf 0 (residue ?msg)) = residue ?msg"
      using take_copy_at [of 0 ?buf "residue ?msg"] by simp
    moreover have "length (copy_at ?buf 0 (residue ?msg)) = 64"
      using lbuf by simp
    ultimately show ?thesis
      using True n cnt' by (simp add: nMD5Update_def Let_def cnt part blocks tail md5_fed_def
          flip: index_def split: if_splits)
  next
    case False
    then have lt: "unat n + unat index < 64"
      using part index64 by (simp add: word_le_nat_alt)
    have rsd: "residue ?msg = residue msg @ ?in"
      using lt index li by (subst residue_append) (simp add: residue_short)
    have abs: "absorb md5_iv ?msg = absorb md5_iv msg"
      using lt index li by (subst absorb_residue) (simp add: absorb_short)
    let ?buf = "copy_at (buffer ctx) (unat index) ?in"
    have "length ?msg mod 64 = unat index + length ?in"
    proof -
      have "length ?msg mod 64 = (unat index + length ?in) mod 64"
        unfolding index by (simp only: length_append mod_add_left_eq)
      then show ?thesis using lt li by simp
    qed
    then have "take (length ?msg mod 64) ?buf = residue ?msg"
      using take_copy_at [of "unat index" "buffer ctx" ?in] index64 lb
      by (simp add: rsd res)
    moreover have "length ?buf = 64" using lt lb li by simp
    ultimately show ?thesis
      using False n cnt' by (simp add: nMD5Update_def Let_def cnt part md5_fed_def abs st
          flip: index_def split: if_splits)
  qed
qed

section \<open>Byte order\<close>

lemma of_nat_mod_u8:
  assumes "i < k"
  shows "(of_nat (m mod 256 ^ k div 256 ^ i) :: u8) = of_nat (m div 256 ^ i)"
proof -
  obtain j where k: "k = i + Suc j" using assms less_imp_Suc_add by auto
  have "m mod 256 ^ k div 256 ^ i = m div 256 ^ i mod (256 * 256 ^ j)"
    by (simp add: k power_add mod_mult2_eq [of m "256 ^ i" "256 * 256 ^ j", simplified mult.left_commute])
  then have "(m mod 256 ^ k div 256 ^ i) mod 256 = m div 256 ^ i mod 256"
    by (simp add: mod_mod_cancel)
  then show ?thesis
    by (simp add: word_unat_eq_iff unat_of_nat)
qed

lemma le_bytes_mod: "le_bytes k (m mod 256 ^ k) = le_bytes k m"
  by (simp add: le_bytes_def of_nat_mod_u8)

lemma le_bytes_append:
  assumes "x < 256 ^ j"
  shows "le_bytes (j + k) (x + 256 ^ j * y) = le_bytes j x @ le_bytes k y"
proof -
  have low: "(of_nat ((x + 256 ^ j * y) div 256 ^ i) :: u8) = of_nat (x div 256 ^ i)"
    if "i < j" for i
    using of_nat_mod_u8 [OF that, of "x + 256 ^ j * y"] assms by simp
  have high: "(x + 256 ^ j * y) div 256 ^ (j + i) = y div 256 ^ i" for i
    using assms by (simp add: power_add div_mult2_eq)
  have upt: "[0..<j + k] = [0..<j] @ map (\<lambda>i. j + i) [0..<k]"
    using upt_add_eq_append [of 0 j k] map_add_upt [of j k] by (simp add: add.commute)
  show ?thesis
    by (simp add: le_bytes_def upt low high comp_def)
qed

text \<open>\<open>Encode\<close> writes each word as four little-endian bytes.\<close>

lemma Encode_le_bytes:
  "n \<le> length ws \<Longrightarrow> Encode ws (4 * n) = concat (map (\<lambda>w. le_bytes 4 (unat w)) (take n ws))"
proof -
  assume n: "n \<le> length ws"
  have word: "[ucast (w AND 0xff), ucast (drop_bit 8 w AND 0xff), ucast (drop_bit 16 w AND 0xff),
      ucast (drop_bit 24 w AND 0xff)] = le_bytes 4 (unat w)" for w :: u32
    using byte_of_word [of 0 w]
    by (simp add: byte_of_word le_bytes_def upt_rec [of 0] upt_rec [of "Suc _"])
  have "(4 * n + 3) div 4 = n" by simp
  then have "Encode ws (4 * n) = concat (map (\<lambda>i. le_bytes 4 (unat (ws ! i))) [0..<n])"
    by (simp add: Encode_def word)
  also have "map (\<lambda>i. le_bytes 4 (unat (ws ! i))) [0..<n] = map (\<lambda>w. le_bytes 4 (unat w)) (take n ws)"
    using n by (simp add: list_eq_iff_nth_eq)
  finally show ?thesis .
qed

lemma Encode_count:
  assumes "unat c0 + 2 ^ 32 * unat (c1::u32) = m mod 2 ^ 64"
  shows "Encode [c0, c1] 8 = le_bytes 8 m"
proof -
  have "Encode [c0, c1] 8 = le_bytes 4 (unat c0) @ le_bytes 4 (unat c1)"
    using Encode_le_bytes [of 2 "[c0, c1]"] by simp
  also have "\<dots> = le_bytes (4 + 4) (unat c0 + 256 ^ 4 * unat c1)"
    using unsigned_less [of c0] by (intro le_bytes_append [symmetric]) simp
  also have "unat c0 + 256 ^ 4 * unat c1 = m mod 256 ^ 8" using assms by simp
  finally show ?thesis using le_bytes_mod [of 8 m] by simp
qed

section \<open>Finalisation\<close>

definition md5_zero :: MD5_CTX where
  "md5_zero = \<lparr>state = replicate 4 0, count = replicate 2 0, buffer = replicate 64 0\<rparr>"

lemma length_le_bytes [simp]: "length (le_bytes k m) = k"
  by (simp add: le_bytes_def)

lemma nMD5Final_fed:
  assumes fed: "md5_fed ctx msg"
  shows "nMD5Final ctx = Some (md5_ref msg, md5_zero)"
proof -
  obtain c0 c1 where cnt: "count ctx = [c0, c1]"
    and bits: "unat c0 + 2 ^ 32 * unat c1 = (8 * length msg) mod 2 ^ 64"
    using fed by (auto simp: md5_fed_def)
  define index where "index = drop_bit 3 c0 AND (0x3F::u32)"
  have index: "unat index = length msg mod 64"
    unfolding index_def by (rule index_of_count [OF bits])
  define pad where "pad = (if index < 56 then 56 - index else 120 - index)"
  have pad: "unat pad = (if length msg mod 64 < 56 then 56 - length msg mod 64
      else 120 - length msg mod 64)"
    using index mod_less_divisor [of 64 "length msg"]
    by (auto simp: pad_def word_less_nat_alt word_le_nat_alt unat_sub)
  have len: "unat pad \<le> length PADDING" "unat pad + 64 \<le> 2 ^ 32"
    unfolding pad PADDING_def by auto
  obtain ctx1 where u1: "nMD5Update ctx PADDING pad = Some ctx1"
    and f1: "md5_fed ctx1 (msg @ take (unat pad) PADDING)"
    using nMD5Update_fed [OF fed len] by blast
  have enc: "Encode [c0, c1] 8 = le_bytes 8 (8 * length msg)"
    using Encode_count [OF bits] .
  obtain ctx2 where u2: "nMD5Update ctx1 (le_bytes 8 (8 * length msg)) 8 = Some ctx2"
    and f2: "md5_fed ctx2 ((msg @ take (unat pad) PADDING) @ le_bytes 8 (8 * length msg))"
    using nMD5Update_fed [OF f1, of 8 "le_bytes 8 (8 * length msg)"] by auto
  have "(msg @ take (unat pad) PADDING) @ le_bytes 8 (8 * length msg) = msg @ md5_pad (length msg)"
    by (simp add: md5_pad_def pad)
  with f2 have "state ctx2 = absorb md5_iv (msg @ md5_pad (length msg))"
    by (simp add: md5_fed_def)
  then show ?thesis
    by (simp add: nMD5Final_def Let_def cnt enc u1 u2 md5_ref_def md5_zero_def
        flip: index_def pad_def)
qed

text \<open>Feeding the context one chunk after another.\<close>

fun md5_feed :: "MD5_CTX \<Rightarrow> u8 list list \<Rightarrow> MD5_CTX option" where
  "md5_feed ctx [] = Some ctx"
| "md5_feed ctx (c # cs) = do { ctx \<leftarrow> nMD5Update ctx c (of_nat (length c)); md5_feed ctx cs }"

lemma md5_feed_fed:
  "md5_fed ctx msg \<Longrightarrow> \<forall>c \<in> set cs. length c + 64 \<le> 2 ^ 32 \<Longrightarrow>
     \<exists>ctx'. md5_feed ctx cs = Some ctx' \<and> md5_fed ctx' (msg @ concat cs)"
proof (induction cs arbitrary: ctx msg)
  case Nil
  then show ?case by simp
next
  case (Cons c cs)
  then have len: "unat (of_nat (length c) :: u32) = length c"
    by (simp add: unat_of_nat)
  then obtain ctx1 where u: "nMD5Update ctx c (of_nat (length c)) = Some ctx1"
    and f: "md5_fed ctx1 (msg @ c)"
    using nMD5Update_fed [of ctx msg "of_nat (length c)" c] Cons.prems by auto
  from Cons.IH [OF f] Cons.prems show ?case by (simp add: u)
qed

section \<open>The digest of a stream\<close>

text \<open>
  C11: however a message is cut into chunks, initialising the context, feeding it the chunks one
  call at a time and finalising it succeeds without an access outside a buffer, returns the
  digest of the whole message and clears the context.
\<close>

theorem md5_chunked:
  assumes "length (buffer ctx) = 64" and "\<forall>c \<in> set cs. length c + 64 \<le> 2 ^ 32"
  shows "\<exists>ctx'. md5_feed (nMD5Init ctx) cs = Some ctx'
    \<and> nMD5Final ctx' = Some (md5_ref (concat cs), md5_zero)"
  using md5_feed_fed [OF nMD5Init_fed [OF assms(1)] assms(2)] nMD5Final_fed by fastforce

theorem md5_chunked_witness:
  "\<exists>ctx'. md5_feed (nMD5Init md5_zero) [[97], [98, 99]] = Some ctx'
    \<and> nMD5Final ctx' = Some (md5_ref [97, 98, 99], md5_zero)"
  using md5_chunked [of md5_zero "[[97], [98, 99]]"] by (simp add: md5_zero_def)

end
