(* ===== verification/Npd_Util.thy ===== *)
theory Npd_Util
  imports Glish_Prelude
begin

text \<open>
  The utility routines of the npd library (\<open>npd/util.c\<close>): the readable encoding of binary
  keys and challenges, the word reader of the wire protocol, file transfer, random bytes, and
  the account and file-permission queries. A \<open>FILE*\<close> open for reading is the list of the
  characters still to come, with \<open>EOF\<close> at its end; what a routine writes is the list of
  characters it appends. The operating system's answers are a record of the environment.
\<close>

unbundle bit_operations_syntax

section \<open>Errors\<close>

text \<open>One constructor for each message the library stores in \<open>errmsg\<close>.\<close>

datatype npd_error =
    BadFormat
  | BadEncodedChar "char option"
  | EncodedTooLarge
  | EncodedEmpty
  | HostFileNameTooLarge
  | CannotOpenHostKey string
  | HostKeyTooSmall nat
  | UserFileNameTooLarge
  | CannotOpenUserKey string
  | KeyLengthMismatch nat nat
  | CannotGetOwner string
  | CannotGetUsername int
  | KeyFileNotOwned string
  | KeyFileNotProtected
  | UserKeyTooSmall nat
  | ChallengeIncorrectSize

section \<open>Encoding binary data as text\<close>

definition MAX_ENCODED_BINARY :: nat where
  "MAX_ENCODED_BINARY = 1024"

definition MAX_WORD :: nat where
  "MAX_WORD = 512"

definition SLOP :: nat where
  "SLOP = 10"

definition backslash :: char where
  "backslash = CHR 0x5C"

definition encode_binary_to_string :: "u8 list \<Rightarrow> string" where
  "encode_binary_to_string b =
     concat (map (\<lambda>x. [hex_digit (unat x div 16), hex_digit (unat x mod 16)]) b)"

text \<open>
  \<open>sscanf (str, "%2x", \<dots>)\<close>: skip white space, then at most two characters of an optionally
  signed hexadecimal number; the prefix \<open>0x\<close> alone is no number. \<open>None\<close> is a result
  other than 1.
\<close>

definition sscanf_2x :: "string \<Rightarrow> int option" where
  "sscanf_2x str =
     (case dropWhile isspace str of
        [] \<Rightarrow> None
      | c # t \<Rightarrow>
          if c = CHR ''+'' \<or> c = CHR ''-'' then
            (case t of
               [] \<Rightarrow> None
             | d # _ \<Rightarrow> map_option (\<lambda>v. if c = CHR ''-'' then - int v else int v) (hex_val d))
          else
            (case hex_val c of
               None \<Rightarrow> None
             | Some v \<Rightarrow>
                 (case t of
                    [] \<Rightarrow> Some (int v)
                  | d # _ \<Rightarrow>
                      if c = CHR ''0'' \<and> (d = CHR ''x'' \<or> d = CHR ''X'') then None
                      else (case hex_val d of
                              None \<Rightarrow> Some (int v)
                            | Some w \<Rightarrow> Some (int (16 * v + w))))))"

fun decode_string_to_binary :: "string \<Rightarrow> npd_error + u8 list" where
  "decode_string_to_binary [] = Inr []"
| "decode_string_to_binary (c # str) =
     (case sscanf_2x (c # str) of
        None \<Rightarrow> Inl BadFormat
      | Some next_byte \<Rightarrow>
          (case decode_string_to_binary (drop 1 str) of
             Inl e \<Rightarrow> Inl e
           | Inr b \<Rightarrow> Inr (of_int next_byte # b)))"

text \<open>
  The reading loop of \<open>read_encoded_binary\<close>: \<open>s\<close> is what \<open>encoded_str\<close> holds so far, the
  second argument the rest of the file.
\<close>

fun read_encoded_chars :: "string \<Rightarrow> string \<Rightarrow> (npd_error + string) \<times> string" where
  "read_encoded_chars s [] = (Inr s, [])"
| "read_encoded_chars s (c # f) =
     (if c = newline then
        (if s = [] then read_encoded_chars s f else (Inr s, f))
      else if isspace c then read_encoded_chars s f
      else if c = backslash then
        (case f of
           [] \<Rightarrow> (Inl (BadEncodedChar None), [])
         | d # f' \<Rightarrow> if d = newline then read_encoded_chars s f'
                     else (Inl (BadEncodedChar (Some d)), f'))
      else if length s < MAX_ENCODED_BINARY * 2 then read_encoded_chars (s @ [c]) f
      else (Inl EncodedTooLarge, f))"

text \<open>The buffer is then read as a C string, up to its first NUL.\<close>

definition read_encoded_binary :: "string \<Rightarrow> (npd_error + u8 list) \<times> string" where
  "read_encoded_binary f =
     (case read_encoded_chars [] f of
        (Inl e, f') \<Rightarrow> (Inl e, f')
      | (Inr s, f') \<Rightarrow>
          if s = [] then (Inl EncodedEmpty, f')
          else (decode_string_to_binary (takeWhile (\<lambda>c. c \<noteq> NUL) s), f'))"

fun put_wrapped :: "nat \<Rightarrow> string \<Rightarrow> string" where
  "put_wrapped n [] = []"
| "put_wrapped n (c # s) =
     c # (if Suc n mod 64 = 0 \<and> s \<noteq> [] then [CHR '' '', backslash, newline] else [])
       @ put_wrapped (Suc n) s"

definition write_encoded_binary :: "u8 list \<Rightarrow> string" where
  "write_encoded_binary b = put_wrapped 0 (encode_binary_to_string b) @ [newline]"

section \<open>Byte arrays\<close>

fun xor_loop :: "nat \<Rightarrow> nat \<Rightarrow> u8 list \<Rightarrow> u8 list \<Rightarrow> u8 list" where
  "xor_loop 0 n b1 b2 = b1"
| "xor_loop (Suc k) n b1 b2 = xor_loop k (Suc n) (b1[n := b1 ! n XOR b2 ! n]) b2"

definition xor_together :: "u8 list \<Rightarrow> u8 list \<Rightarrow> nat \<Rightarrow> u8 list" where
  "xor_together b1 b2 len = xor_loop len 0 b1 b2"

fun bytes_equal_from :: "nat \<Rightarrow> nat \<Rightarrow> u8 list \<Rightarrow> u8 list \<Rightarrow> bool" where
  "bytes_equal_from 0 n b1 b2 = True"
| "bytes_equal_from (Suc k) n b1 b2 =
     (if b1 ! n \<noteq> b2 ! n then False else bytes_equal_from k (Suc n) b1 b2)"

definition byte_arrays_equal :: "u8 list \<Rightarrow> u8 list \<Rightarrow> nat \<Rightarrow> bool" where
  "byte_arrays_equal b1 b2 len = bytes_equal_from len 0 b1 b2"

text \<open>
  The random number generator is the stream of the values \<open>random_long\<close> will return;
  \<open>random_bytes\<close> takes bits 8 to 15 of each.
\<close>

fun random_bytes :: "nat \<Rightarrow> (nat \<Rightarrow> 64 word) \<Rightarrow> u8 list \<times> (nat \<Rightarrow> 64 word)" where
  "random_bytes 0 rng = ([], rng)"
| "random_bytes (Suc len) rng =
     (let l = rng 0; (b, rng') = random_bytes len (\<lambda>i. rng (Suc i))
      in (ucast (drop_bit 8 (l AND 0xff00)) # b, rng'))"

section \<open>The wire protocol's words\<close>

text \<open>
  \<open>word_loop k w f\<close>: \<open>k\<close> iterations remain, \<open>w\<close> has been stored, and the character
  \<open>c\<close> of the source is the first of \<open>f\<close>. When the loop runs out, that character has
  already been read.
\<close>

fun word_loop :: "nat \<Rightarrow> string \<Rightarrow> string \<Rightarrow> string option \<times> string" where
  "word_loop 0 w f = (None, drop 1 f)"
| "word_loop (Suc k) w [] = (None, [])"
| "word_loop (Suc k) w (c # f) =
     (if isspace c then (Some (takeWhile (\<lambda>c. c \<noteq> NUL) w), f) else word_loop k (w @ [c]) f)"

definition get_word_from_peer :: "string \<Rightarrow> string option \<times> string" where
  "get_word_from_peer peer = word_loop MAX_WORD [] (dropWhile isspace peer)"

definition send_file_to_peer :: "string \<Rightarrow> string" where
  "send_file_to_peer file = [newline] @ dec (length file) @ [newline] @ file"

text \<open>
  \<open>receive_file_from_peer\<close> hands the word it read to \<open>atoi\<close> without a test: \<open>None\<close> is the
  null pointer dereference when there was no word. The result is the success flag, what was
  copied to the file and the rest of the stream.
\<close>

definition receive_file_from_peer :: "string \<Rightarrow> (bool \<times> string \<times> string) option" where
  "receive_file_from_peer peer =
     (case get_word_from_peer peer of
        (None, _) \<Rightarrow> None
      | (Some w, f) \<Rightarrow>
          let size = nat (atoi w) in
          Some (size \<le> length f, take size f, drop size f))"

section \<open>Accounts, files and the log\<close>

record passwd =
  pw_name :: string
  pw_uid :: int
  pw_gid :: int
  pw_shell :: string

record fs_file =
  st_uid :: int
  st_mode :: u32
  f_data :: string

text \<open>
  What the library asks of the operating system: the identities of the process, the account
  and group databases, the file system and which accesses it grants to which user.
\<close>

record sys =
  getuid :: int
  geteuid :: int
  getpwuid :: "int \<Rightarrow> passwd option"
  getpwnam :: "string \<Rightarrow> passwd option"
  getgrgid :: "int \<Rightarrow> string option"
  files :: "string \<Rightarrow> fs_file option"
  may_read :: "int \<Rightarrow> fs_file \<Rightarrow> bool"
  may_write :: "int \<Rightarrow> string \<Rightarrow> bool"

definition get_our_userid :: "sys \<Rightarrow> int" where
  "get_our_userid os = geteuid os"

definition get_our_username :: "sys \<Rightarrow> string option" where
  "get_our_username os = map_option pw_name (getpwuid os (get_our_userid os))"

definition get_username :: "sys \<Rightarrow> int \<Rightarrow> string option" where
  "get_username os uid =
     (case getpwuid os uid of
        None \<Rightarrow> None
      | Some pw \<Rightarrow> if 1024 < length (pw_name pw) + 1 then None else Some (pw_name pw))"

definition get_userid :: "sys \<Rightarrow> string \<Rightarrow> int" where
  "get_userid os name = (case getpwnam os name of None \<Rightarrow> 0 | Some pw \<Rightarrow> pw_uid pw)"

definition get_user_group :: "sys \<Rightarrow> string \<Rightarrow> int" where
  "get_user_group os name = (case getpwnam os name of None \<Rightarrow> 0 | Some pw \<Rightarrow> pw_gid pw)"

definition get_group_name :: "sys \<Rightarrow> int \<Rightarrow> string option" where
  "get_group_name os gid = getgrgid os gid"

definition get_user_shell :: "sys \<Rightarrow> string \<Rightarrow> string option" where
  "get_user_shell os name =
     (case getpwnam os name of
        None \<Rightarrow> None
      | Some pw \<Rightarrow> if pw_shell pw = [] then None else Some (pw_shell pw))"

definition get_file_owner :: "sys \<Rightarrow> string \<Rightarrow> int" where
  "get_file_owner os filename = (case files os filename of None \<Rightarrow> 0 | Some f \<Rightarrow> st_uid f)"

text \<open>
  \<open>S_ISREG\<close> and the six group and other permission bits. When \<open>stat\<close> fails the source
  tests an uninitialised record: \<open>None\<close>.
\<close>

definition S_ISREG :: "u32 \<Rightarrow> bool" where
  "S_ISREG m \<longleftrightarrow> m AND 0xF000 = 0x8000"

definition is_regfile_protected :: "sys \<Rightarrow> string \<Rightarrow> bool option" where
  "is_regfile_protected os filename =
     map_option (\<lambda>f. S_ISREG (st_mode f) \<and> st_mode f AND 0x3F = 0) (files os filename)"

datatype errno = EPERM | EACCES | ENOENT | ESRCH | ENOEXEC | EINVAL | EADDRINUSE | ECONNREFUSED
  | OtherErrno nat

fun sys_error_desc :: "errno \<Rightarrow> string" where
  "sys_error_desc EPERM = ''Permission denied''"
| "sys_error_desc EACCES = ''Permission denied''"
| "sys_error_desc ENOENT = ''No such file or directory''"
| "sys_error_desc ESRCH = ''No such process''"
| "sys_error_desc ENOEXEC = ''Exec format error''"
| "sys_error_desc EINVAL = ''Invalid argument''"
| "sys_error_desc EADDRINUSE = ''Address already in use''"
| "sys_error_desc ECONNREFUSED = ''Connection refused''"
| "sys_error_desc (OtherErrno n) = ''errno '' @ dec n"

text \<open>
  The scan of \<open>init_log\<close> for the last slash of the program's path: \<open>len\<close> is the index of
  \<open>ptr\<close>, and the scan stops at index 0 without testing the character there.
\<close>

fun prog_scan :: "string \<Rightarrow> nat \<Rightarrow> nat" where
  "prog_scan p 0 = 0"
| "prog_scan p (Suc len) = (if p ! Suc len = CHR ''/'' then Suc len else prog_scan p len)"

definition init_log_name :: "string \<Rightarrow> string" where
  "init_log_name program_name =
     (if program_name = [] then []
      else let len = prog_scan program_name (length program_name - 1)
           in drop (if len = 0 then 0 else Suc len) program_name)"

section \<open>The encodings are inverse\<close>

lemma sscanf_2x_pair:
  assumes "h < 16" and "l < 16"
  shows "sscanf_2x (hex_digit h # hex_digit l # rest) = Some (int (16 * h + l))"
proof -
  have "hex_val CHR ''+'' = None" "hex_val CHR ''-'' = None" "hex_val CHR ''x'' = None"
    "hex_val CHR ''X'' = None"
    by (simp_all add: hex_val_def)
  then show ?thesis
    using assms hex_digit_neq by (simp add: sscanf_2x_def)
qed

lemma decode_encode: "decode_string_to_binary (encode_binary_to_string b) = Inr b"
proof (induction b)
  case Nil
  then show ?case by (simp add: encode_binary_to_string_def)
next
  case (Cons x b)
  have "unat x div 16 < 16" "unat x mod 16 < 16" using unat_u8_less [of x] by auto
  then have "sscanf_2x (hex_digit (unat x div 16) # hex_digit (unat x mod 16)
      # encode_binary_to_string b) = Some (int (unat x))"
    by (simp add: sscanf_2x_pair)
  with Cons show ?case
    by (simp add: encode_binary_to_string_def)
qed

text \<open>Characters the reader stores as they are.\<close>

definition plain :: "char \<Rightarrow> bool" where
  "plain c \<longleftrightarrow> \<not> isspace c \<and> c \<noteq> backslash \<and> c \<noteq> NUL"

lemma plain_not_newline: "plain c \<Longrightarrow> c \<noteq> newline"
  by (auto simp: plain_def)

lemma plain_encode: "c \<in> set (encode_binary_to_string b) \<Longrightarrow> plain c"
proof -
  assume "c \<in> set (encode_binary_to_string b)"
  then obtain x :: u8 where "c = hex_digit (unat x div 16) \<or> c = hex_digit (unat x mod 16)"
    by (auto simp: encode_binary_to_string_def)
  moreover have "unat x div 16 < 16" "unat x mod 16 < 16" using unat_u8_less [of x] by auto
  ultimately obtain n where n: "n < 16" "c = hex_digit n" by blast
  have "hex_val backslash = None" "hex_val NUL = None"
    by (simp_all add: hex_val_def backslash_def NUL_def)
  with n hex_digit_neq show "plain c" by (simp add: plain_def)
qed

lemma length_encode [simp]: "length (encode_binary_to_string b) = 2 * length b"
  by (induction b) (simp_all add: encode_binary_to_string_def)

lemma read_put_wrapped:
  assumes "\<forall>c \<in> set t. plain c" and "length s + length t \<le> MAX_ENCODED_BINARY * 2"
    and "s @ t \<noteq> []"
  shows "read_encoded_chars s (put_wrapped n t @ newline # rest) = (Inr (s @ t), rest)"
  using assms
proof (induction t arbitrary: s n)
  case Nil
  then show ?case by simp
next
  case (Cons c t)
  then have IH: "read_encoded_chars (s @ [c]) (put_wrapped (Suc n) t @ newline # rest)
      = (Inr ((s @ [c]) @ t), rest)"
    by simp
  have c: "c \<noteq> newline" "\<not> isspace c" "c \<noteq> backslash"
    using Cons.prems plain_not_newline by (auto simp: plain_def)
  have sp: "CHR '' '' \<noteq> newline" "isspace CHR '' ''" "backslash \<noteq> newline" "\<not> isspace backslash"
    by (simp_all add: newline_def isspace_def backslash_def)
  from IH c sp Cons.prems(2) show ?case by simp
qed

lemma takeWhile_plain: "\<forall>c \<in> set s. plain c \<Longrightarrow> takeWhile (\<lambda>c. c \<noteq> NUL) s = s"
  by (simp add: plain_def takeWhile_eq_all_conv)

lemma encode_nonempty: "encode_binary_to_string b = [] \<longleftrightarrow> b = []"
  by (cases b) (simp_all add: encode_binary_to_string_def)

text \<open>
  What \<open>write_encoded_binary\<close> writes, \<open>read_encoded_binary\<close> reads back, leaving the rest of
  the file in place.
\<close>

lemma read_write_encoded:
  assumes "b \<noteq> []" and "length b \<le> MAX_ENCODED_BINARY"
  shows "read_encoded_binary (write_encoded_binary b @ rest) = (Inr b, rest)"
proof -
  let ?s = "encode_binary_to_string b"
  have plain: "\<forall>c \<in> set ?s. plain c" using plain_encode by blast
  have "read_encoded_chars [] (put_wrapped 0 ?s @ newline # rest) = (Inr ?s, rest)"
    using read_put_wrapped [OF plain, of "[]" 0 rest] assms encode_nonempty by simp
  then show ?thesis
    using assms by (simp add: read_encoded_binary_def write_encoded_binary_def encode_nonempty
        takeWhile_plain [OF plain] decode_encode)
qed

section \<open>Byte arrays\<close>

lemma xor_loop_spec:
  "n + k \<le> length b1 \<Longrightarrow> n + k \<le> length b2 \<Longrightarrow>
     xor_loop k n b1 b2 = take n b1 @ map2 (XOR) (take k (drop n b1)) (take k (drop n b2))
       @ drop (n + k) b1"
proof (induction k arbitrary: n b1)
  case 0
  then show ?case by simp
next
  case (Suc k)
  let ?b = "b1[n := b1 ! n XOR b2 ! n]"
  have n: "n < length b1" "n < length b2" using Suc.prems by simp_all
  have "xor_loop (Suc k) n b1 b2 = take (Suc n) ?b
      @ map2 (XOR) (take k (drop (Suc n) ?b)) (take k (drop (Suc n) b2)) @ drop (Suc n + k) ?b"
    using Suc.IH [of "Suc n" ?b] Suc.prems by simp
  also have "take (Suc n) ?b = take n b1 @ [b1 ! n XOR b2 ! n]"
    using n by (simp add: take_Suc_conv_app_nth)
  finally show ?case
    using n by (simp add: Cons_nth_drop_Suc [of n b1, symmetric] Cons_nth_drop_Suc [of n b2, symmetric])
qed

lemma xor_together_map2:
  assumes "length b1 = n" and "length b2 = n"
  shows "xor_together b1 b2 n = map2 (XOR) b1 b2"
  using assms xor_loop_spec [of 0 n b1 b2] by (simp add: xor_together_def)

lemma bytes_equal_from_iff:
  "n + k \<le> length b1 \<Longrightarrow> n + k \<le> length b2 \<Longrightarrow>
     bytes_equal_from k n b1 b2 \<longleftrightarrow> take k (drop n b1) = take k (drop n b2)"
proof (induction k arbitrary: n)
  case 0
  then show ?case by simp
next
  case (Suc k)
  then have "drop n b1 = b1 ! n # drop (Suc n) b1" "drop n b2 = b2 ! n # drop (Suc n) b2"
    by (simp_all add: Cons_nth_drop_Suc)
  with Suc show ?case by simp
qed

lemma byte_arrays_equal_iff:
  "length b1 = n \<Longrightarrow> length b2 = n \<Longrightarrow> byte_arrays_equal b1 b2 n \<longleftrightarrow> b1 = b2"
  using bytes_equal_from_iff [of 0 n b1 b2] by (simp add: byte_arrays_equal_def)

lemma length_random_bytes: "length (fst (random_bytes n rng)) = n"
  by (induction n arbitrary: rng) (auto simp: Let_def split_beta)

section \<open>Words and files over the wire\<close>

text \<open>A word the reader returns whole: not empty, shorter than the buffer, no white space, no NUL.\<close>

definition wire_word :: "string \<Rightarrow> bool" where
  "wire_word w \<longleftrightarrow> w \<noteq> [] \<and> length w < MAX_WORD \<and> (\<forall>c \<in> set w. \<not> isspace c \<and> c \<noteq> NUL)"

lemma word_loop_word:
  assumes "\<forall>c \<in> set w. \<not> isspace c" and "length w < k" and "isspace s"
  shows "word_loop k v (w @ s # rest) = (Some (takeWhile (\<lambda>c. c \<noteq> NUL) (v @ w)), rest)"
  using assms
proof (induction w arbitrary: k v)
  case Nil
  then obtain k' where "k = Suc k'" by (cases k) simp_all
  with Nil show ?case by simp
next
  case (Cons c w)
  then obtain k' where "k = Suc k'" by (cases k) simp_all
  with Cons show ?case by simp
qed

lemma dropWhile_spaces:
  "\<forall>c \<in> set sp. isspace c \<Longrightarrow> w \<noteq> [] \<Longrightarrow> \<not> isspace (hd w) \<Longrightarrow>
     dropWhile isspace (sp @ w) = w"
  by (induction sp) (auto simp: neq_Nil_conv)

lemma get_word_from_peer_word:
  assumes w: "wire_word w" and sp: "\<forall>c \<in> set sp. isspace c" and s: "isspace s"
  shows "get_word_from_peer (sp @ w @ s # rest) = (Some w, rest)"
proof -
  have "dropWhile isspace (sp @ w @ s # rest) = w @ s # rest"
    using w sp by (intro dropWhile_spaces) (auto simp: wire_word_def)
  moreover have "takeWhile (\<lambda>c. c \<noteq> NUL) w = w"
    using w by (simp add: wire_word_def takeWhile_eq_all_conv)
  ultimately show ?thesis
    using w s word_loop_word [of w MAX_WORD s "[]" rest]
    by (simp add: get_word_from_peer_def wire_word_def)
qed

lemmas get_word_simple = get_word_from_peer_word [where sp = "[]", simplified]

lemma length_dec: "length (dec n) \<le> Suc n"
proof (induction n rule: dec.induct)
  case (1 n)
  show ?case
  proof (cases "n < 10")
    case True
    then show ?thesis by (simp add: dec.simps [of n])
  next
    case False
    with 1 have "length (dec (n div 10)) \<le> Suc (n div 10)" by simp
    with False show ?thesis by (simp add: dec.simps [of n])
  qed
qed

lemma not_NUL_digit: "isdigit c \<Longrightarrow> c \<noteq> NUL"
  by (auto simp: isdigit_def NUL_def)

lemma wire_word_dec: "length (dec n) < MAX_WORD \<Longrightarrow> wire_word (dec n)"
  using set_dec [of _ n] not_NUL_digit by (auto simp: wire_word_def)

lemma receive_send:
  assumes "length (dec (length file)) < MAX_WORD"
  shows "receive_file_from_peer (send_file_to_peer file @ rest) = Some (True, file, rest)"
proof -
  have "get_word_from_peer ([newline] @ dec (length file) @ newline # (file @ rest))
      = (Some (dec (length file)), file @ rest)"
    using wire_word_dec [OF assms] by (intro get_word_from_peer_word) simp_all
  then show ?thesis
    by (simp add: receive_file_from_peer_def send_file_to_peer_def atoi_dec)
qed

section \<open>Properties\<close>

lemma word_loop_bounds:
  "word_loop k w f = (Some v, g) \<Longrightarrow> \<forall>c \<in> set w. \<not> isspace c \<Longrightarrow>
     length v < length w + k \<and> (\<forall>c \<in> set v. \<not> isspace c \<and> c \<noteq> NUL)"
proof (induction k w f rule: word_loop.induct)
  case (3 k w c f)
  then show ?case
    using length_takeWhile_le [of "\<lambda>c. c \<noteq> NUL" w]
    by (auto dest: set_takeWhileD split: if_splits)
qed auto



text \<open>
  a word read from a peer fits the static buffer with its terminator and contains no white
  space and no NUL, whatever the peer sends.
\<close>

theorem peer_word_bounded:
  assumes "get_word_from_peer peer = (Some w, rest)"
  shows "length w < MAX_WORD \<and> (\<forall>c \<in> set w. \<not> isspace c \<and> c \<noteq> NUL)"
  using word_loop_bounds [of MAX_WORD "[]" "dropWhile isspace peer" w rest] assms
  by (simp add: get_word_from_peer_def)

theorem peer_word_bounded_witness:
  "length ''hello'' < MAX_WORD \<and> list_all (\<lambda>c. \<not> isspace c \<and> c \<noteq> NUL) ''hello''"
  using peer_word_bounded [of "'' hello there''" "''hello''" "''there''"]
  by (simp add: get_word_from_peer_def isspace_def MAX_WORD_def numeral_eq_Suc NUL_def)

text \<open>
  a file sent to a peer arrives whole, and what follows it on the connection is untouched.
\<close>

theorem file_transfer_roundtrip:
  assumes "length (dec (length file)) < MAX_WORD"
  shows "receive_file_from_peer (send_file_to_peer file @ rest) = Some (True, file, rest)"
  by (rule receive_send [OF assms])

theorem file_transfer_roundtrip_witness:
  "receive_file_from_peer (send_file_to_peer '' two words '' @ ''next'')
     = Some (True, '' two words '', ''next'')"
  by (rule file_transfer_roundtrip) (simp add: dec.simps MAX_WORD_def)

end
