(* ===== verification/Npd_Auth.thy ===== *)
theory Npd_Auth
  imports Npd_MD5 Npd_Util
begin

text \<open>
  Keys, challenges and answers (\<open>npd/auth.c\<close>). A key is the exclusive or of a host key and a
  user key read from the key directory; the user's key file has to belong to the user and to be
  closed to everyone else. The answer to a challenge is the digest of the challenge and the key.
\<close>

unbundle bit_operations_syntax

type_synonym rng = "nat \<Rightarrow> 64 word"

definition MD5_DIGEST_SIZE :: nat where
  "MD5_DIGEST_SIZE = 16"

definition DEFAULT_KEY_SIZE :: nat where
  "DEFAULT_KEY_SIZE = 64"

text \<open>Expansions of the formats \<open>%s/users/%s\<close> and \<open>%s/hosts/%s\<close>, of 11 characters each.\<close>

definition user_fmt :: "string \<Rightarrow> string \<Rightarrow> string" where
  "user_fmt dir user = dir @ ''/users/'' @ user"

definition host_fmt :: "string \<Rightarrow> string \<Rightarrow> string" where
  "host_fmt dir host = dir @ ''/hosts/'' @ host"

definition key_file_fits :: "string \<Rightarrow> string \<Rightarrow> bool" where
  "key_file_fits dir name \<longleftrightarrow> 11 + length dir + length name + SLOP < 512"

definition fopen_r :: "sys \<Rightarrow> int \<Rightarrow> string \<Rightarrow> string option" where
  "fopen_r os euid path =
     (case files os path of
        None \<Rightarrow> None
      | Some f \<Rightarrow> if may_read os euid f then Some (f_data f) else None)"

text \<open>A failed read leaves the length at zero.\<close>

definition key_bytes :: "string \<Rightarrow> u8 list" where
  "key_bytes data = (case fst (read_encoded_binary data) of Inl _ \<Rightarrow> [] | Inr b \<Rightarrow> b)"

text \<open>A file created under the mask 077; an existing file keeps its owner and mode.\<close>

definition fopen_w :: "sys \<Rightarrow> string \<Rightarrow> string \<Rightarrow> sys" where
  "fopen_w os path text =
     os\<lparr>files := (files os)(path \<mapsto>
       (case files os path of
          None \<Rightarrow> \<lparr>st_uid = geteuid os, st_mode = 0x8180, f_data = text\<rparr>
        | Some f \<Rightarrow> f\<lparr>f_data := text\<rparr>))\<rparr>"

definition create_userkeyfile :: "sys \<Rightarrow> rng \<Rightarrow> string \<Rightarrow> bool \<times> sys \<times> rng" where
  "create_userkeyfile os rng dir =
     (case get_our_username os of
        None \<Rightarrow> (False, os, rng)
      | Some user \<Rightarrow>
          if \<not> key_file_fits dir user then (False, os, rng)
          else let key_file = user_fmt dir user; owner = get_file_owner os key_file in
            if owner \<noteq> 0 then (owner = get_our_userid os, os, rng)
            else if \<not> may_write os (geteuid os) key_file then (False, os, rng)
            else let (user_key, rng') = random_bytes DEFAULT_KEY_SIZE rng in
              (True, fopen_w os key_file (write_encoded_binary user_key), rng'))"

definition get_key :: "sys \<Rightarrow> string \<Rightarrow> string \<Rightarrow> string \<Rightarrow> npd_error + u8 list" where
  "get_key os dir host user =
     (if \<not> key_file_fits dir host then Inl HostFileNameTooLarge
      else case fopen_r os (geteuid os) (host_fmt dir host) of
        None \<Rightarrow> Inl (CannotOpenHostKey (host_fmt dir host))
      | Some data \<Rightarrow>
        let host_key = key_bytes data in
        if length host_key < MD5_DIGEST_SIZE then Inl (HostKeyTooSmall (length host_key))
        else if \<not> key_file_fits dir user then Inl UserFileNameTooLarge
        else
          let key_file = user_fmt dir user;
              running_as_root = (getuid os = 0);
              euid = (if running_as_root then get_userid os user else geteuid os)
          in case fopen_r os euid key_file of
            None \<Rightarrow> Inl (CannotOpenUserKey key_file)
          | Some data \<Rightarrow>
            let user_key = key_bytes data; id = get_file_owner os key_file in
            if length host_key \<noteq> length user_key
              then Inl (KeyLengthMismatch (length host_key) (length user_key))
            else if id = 0 then Inl (CannotGetOwner key_file)
            else case get_username os id of
              None \<Rightarrow> Inl (CannotGetUsername id)
            | Some nme \<Rightarrow>
              if nme \<noteq> user then Inl (KeyFileNotOwned user)
              else if is_regfile_protected os key_file \<noteq> Some True then Inl KeyFileNotProtected
              else if length user_key < MD5_DIGEST_SIZE then Inl (UserKeyTooSmall (length user_key))
              else Inr (xor_together host_key user_key (length host_key)))"

text \<open>The digest context is an uninitialised local: its old contents are an argument.\<close>

definition compute_MD5 :: "MD5_CTX \<Rightarrow> u8 list \<Rightarrow> u8 list option" where
  "compute_MD5 context b = do {
     context \<leftarrow> nMD5Update (nMD5Init context) b (of_nat (length b));
     (digest, _) \<leftarrow> nMD5Final context;
     Some digest }"

text \<open>
  The result is the expected answer, the text written to the peer and the generator's state;
  \<open>None\<close> would be an access outside the digest's input.
\<close>

definition compose_challenge ::
  "sys \<Rightarrow> rng \<Rightarrow> MD5_CTX \<Rightarrow> string \<Rightarrow> string \<Rightarrow> string
     \<Rightarrow> ((npd_error + u8 list) \<times> string \<times> rng) option" where
  "compose_challenge os rng ctx dir host user =
     (case get_key os dir host user of
        Inl e \<Rightarrow> Some (Inl e, [], rng)
      | Inr key \<Rightarrow>
          let n = length key; (challenge, rng') = random_bytes n rng in do {
            answer \<leftarrow> compute_MD5 ctx (xor_together challenge key n);
            Some (Inr answer, write_encoded_binary challenge, rng') })"

definition answer_challenge ::
  "sys \<Rightarrow> MD5_CTX \<Rightarrow> string \<Rightarrow> string \<Rightarrow> string \<Rightarrow> u8 list
     \<Rightarrow> ((npd_error + unit) \<times> string) option" where
  "answer_challenge os ctx dir host user challenge =
     (case get_key os dir host user of
        Inl e \<Rightarrow> Some (Inl e, [])
      | Inr key \<Rightarrow>
          let n = length key in
          if n \<noteq> length challenge then Some (Inl ChallengeIncorrectSize, [])
          else do {
            answer \<leftarrow> compute_MD5 ctx (xor_together key challenge n);
            Some (Inr (), write_encoded_binary answer) })"

section \<open>Reading a key\<close>

lemma read_encoded_chars_length:
  "length s \<le> MAX_ENCODED_BINARY * 2 \<Longrightarrow> read_encoded_chars s f = (Inr t, f') \<Longrightarrow>
     length t \<le> MAX_ENCODED_BINARY * 2"
  by (induction s f rule: read_encoded_chars.induct) (auto split: if_splits list.splits)

lemma decode_length: "decode_string_to_binary s = Inr b \<Longrightarrow> length b \<le> (length s + 1) div 2"
proof (induction s arbitrary: b rule: decode_string_to_binary.induct)
  case 1
  then show ?case by simp
next
  case (2 c s)
  from "2.prems" obtain v b' where b: "b = of_int v # b'"
    and d: "decode_string_to_binary (drop 1 s) = Inr b'" and v: "sscanf_2x (c # s) = Some v"
    by (auto split: option.splits sum.splits)
  from "2.IH" [OF v d] have "length b' \<le> (length s - 1 + 1) div 2" by simp
  with b show ?case by (cases s) auto
qed

lemma key_bytes_length: "length (key_bytes data) \<le> MAX_ENCODED_BINARY"
proof (cases "fst (read_encoded_binary data)")
  case (Inl e)
  then show ?thesis by (simp add: key_bytes_def)
next
  case (Inr b)
  then obtain t f where r: "read_encoded_chars [] data = (Inr t, f)"
    and d: "decode_string_to_binary (takeWhile (\<lambda>c. c \<noteq> NUL) t) = Inr b"
    by (auto simp: read_encoded_binary_def split: prod.splits sum.splits if_splits)
  from r have "length t \<le> MAX_ENCODED_BINARY * 2"
    using read_encoded_chars_length [of "[]" data t f] by simp
  moreover have "length (takeWhile (\<lambda>c. c \<noteq> NUL) t) \<le> length t" by (rule length_takeWhile_le)
  ultimately have "length b \<le> MAX_ENCODED_BINARY" using decode_length [OF d] by simp
  with Inr show ?thesis by (simp add: key_bytes_def)
qed

text \<open>What a successful \<open>get_key\<close> has established.\<close>

lemma get_key_Inr:
  assumes "get_key os dir host user = Inr key"
  obtains hdata f where
    "fopen_r os (geteuid os) (host_fmt dir host) = Some hdata"
    and "files os (user_fmt dir user) = Some f"
    and "key = map2 (XOR) (key_bytes hdata) (key_bytes (f_data f))"
    and "length (key_bytes hdata) = length (key_bytes (f_data f))"
    and "MD5_DIGEST_SIZE \<le> length key" and "length key \<le> MAX_ENCODED_BINARY"
    and "S_ISREG (st_mode f)" and "st_mode f AND 0x3F = 0"
    and "get_username os (st_uid f) = Some user" and "st_uid f \<noteq> 0"
proof -
  from assms obtain hdata f where h: "fopen_r os (geteuid os) (host_fmt dir host) = Some hdata"
    and f: "files os (user_fmt dir user) = Some f"
    and key: "key = xor_together (key_bytes hdata) (key_bytes (f_data f)) (length (key_bytes hdata))"
    and len: "length (key_bytes hdata) = length (key_bytes (f_data f))"
      "MD5_DIGEST_SIZE \<le> length (key_bytes hdata)"
    and prot: "S_ISREG (st_mode f)" "st_mode f AND 0x3F = 0"
    and own: "get_username os (st_uid f) = Some user" "st_uid f \<noteq> 0"
    by (auto simp: get_key_def Let_def fopen_r_def [of os _ "user_fmt dir user"]
        get_file_owner_def is_regfile_protected_def split: if_splits option.splits)
  have "key = map2 (XOR) (key_bytes hdata) (key_bytes (f_data f))"
    unfolding key using len by (simp add: xor_together_map2)
  moreover from this have "length key = length (key_bytes hdata)" using len by simp
  ultimately show ?thesis
    using that [OF h f] len prot own key_bytes_length [of hdata] by simp
qed

section \<open>The digest as an interface\<close>

text \<open>
  What the challenge protocol needs of its digest: on an input of bounded size the computation
  succeeds whatever was in the context before, its value depends on the input alone, and it has
  a fixed size.
\<close>

locale message_digest =
  fixes compute :: "'ctx \<Rightarrow> u8 list \<Rightarrow> u8 list option"
    and digest :: "u8 list \<Rightarrow> u8 list"
    and usable :: "'ctx \<Rightarrow> bool"
    and limit :: nat
    and size :: nat
  assumes compute_digest: "usable ctx \<Longrightarrow> length b \<le> limit \<Longrightarrow> compute ctx b = Some (digest b)"
    and digest_size: "length (digest b) = size"
begin

lemma same_answer:
  assumes "usable ctx" and "usable ctx'" and "length key = n" and "length challenge = n"
    and "n \<le> limit"
  shows "compute ctx (xor_together challenge key n) = Some (digest (map2 (XOR) key challenge))"
    and "compute ctx' (xor_together key challenge n) = Some (digest (map2 (XOR) key challenge))"
proof -
  have "map2 (XOR) challenge key = map2 (XOR) key challenge"
    using assms by (intro nth_equalityI) (simp_all add: xor.commute)
  then show "compute ctx (xor_together challenge key n) = Some (digest (map2 (XOR) key challenge))"
    and "compute ctx' (xor_together key challenge n) = Some (digest (map2 (XOR) key challenge))"
    using assms by (simp_all add: xor_together_map2 compute_digest)
qed

lemma answer_checks_out:
  "length a = size \<Longrightarrow> byte_arrays_equal a (digest b) size \<longleftrightarrow> a = digest b"
  by (simp add: byte_arrays_equal_iff digest_size)

end

lemma length_Encode: "length (Encode ws (4 * n)) = 4 * n"
proof -
  have "(4 * n + 3) div 4 = n" by simp
  then show ?thesis by (simp add: Encode_def length_concat comp_def sum_list_triv)
qed

lemma length_md5_ref: "length (md5_ref b) = MD5_DIGEST_SIZE"
  using length_Encode [of _ 4] by (simp add: md5_ref_def MD5_DIGEST_SIZE_def)

lemma compute_MD5_ref:
  assumes "length (buffer ctx) = 64" and "length b + 64 \<le> 2 ^ 32"
  shows "compute_MD5 ctx b = Some (md5_ref b)"
proof -
  have "unat (of_nat (length b) :: u32) = length b"
    using assms by (simp add: unat_of_nat)
  then obtain ctx' where "nMD5Update (nMD5Init ctx) b (of_nat (length b)) = Some ctx'"
    and "md5_fed ctx' b"
    using nMD5Update_fed [OF nMD5Init_fed, of ctx "of_nat (length b)" b] assms by auto
  then show ?thesis by (simp add: compute_MD5_def nMD5Final_fed)
qed

interpretation npd_md5: message_digest compute_MD5 md5_ref "\<lambda>ctx. length (buffer ctx) = 64"
  MAX_ENCODED_BINARY MD5_DIGEST_SIZE
  by unfold_locales (simp_all add: compute_MD5_ref length_md5_ref MAX_ENCODED_BINARY_def)

section \<open>Challenge and answer\<close>

lemma length_key:
  assumes "get_key os dir host user = Inr key"
  shows "MD5_DIGEST_SIZE \<le> length key" and "length key \<le> MAX_ENCODED_BINARY"
  using get_key_Inr [OF assms] by metis+

lemma compose_challenge_Inr:
  fixes rng :: rng
  assumes "get_key os dir host user = Inr key" and "length (buffer ctx) = 64"
  defines "challenge \<equiv> fst (random_bytes (length key) rng)"
  shows "compose_challenge os rng ctx dir host user =
    Some (Inr (md5_ref (map2 (XOR) key challenge)), write_encoded_binary challenge,
      snd (random_bytes (length key) rng))"
  using assms npd_md5.same_answer(1) [of ctx ctx key "length key" challenge]
    length_key [OF assms(1)] length_random_bytes [of "length key" rng]
  by (simp add: compose_challenge_def Let_def split_beta)

lemma answer_challenge_Inr:
  assumes "get_key os dir host user = Inr key" and "length (buffer ctx) = 64"
    and "length challenge = length key"
  shows "answer_challenge os ctx dir host user challenge =
    Some (Inr (), write_encoded_binary (md5_ref (map2 (XOR) key challenge)))"
  using assms npd_md5.same_answer(2) [of ctx ctx key "length key" challenge]
    length_key [OF assms(1)]
  by (simp add: answer_challenge_def Let_def)

text \<open>
  A key file that \<open>create_userkeyfile\<close> has just made is one that \<open>get_key\<close> accepts: owned by
  the user, regular, closed to group and others, and its contents decode to the random key.
\<close>

lemma create_userkeyfile_fresh:
  fixes rng :: rng
  assumes "get_our_username os = Some user" and "key_file_fits dir user"
    and "files os (user_fmt dir user) = None" and "may_write os (geteuid os) (user_fmt dir user)"
  defines "key \<equiv> fst (random_bytes DEFAULT_KEY_SIZE rng)"
  shows "\<exists>os' rng' f. create_userkeyfile os rng dir = (True, os', rng')
    \<and> files os' (user_fmt dir user) = Some f \<and> st_uid f = get_our_userid os
    \<and> is_regfile_protected os' (user_fmt dir user) = Some True \<and> key_bytes (f_data f) = key
    \<and> length key = DEFAULT_KEY_SIZE"
proof -
  have len: "length key = DEFAULT_KEY_SIZE" unfolding key_def by (rule length_random_bytes)
  then have "key \<noteq> []" "length key \<le> MAX_ENCODED_BINARY"
    by (auto simp: DEFAULT_KEY_SIZE_def MAX_ENCODED_BINARY_def)
  then have "key_bytes (write_encoded_binary key) = key"
    using read_write_encoded [of key "[]"] by (simp add: key_bytes_def)
  then show ?thesis
    using assms len by (simp add: create_userkeyfile_def Let_def split_beta get_file_owner_def
        fopen_w_def is_regfile_protected_def S_ISREG_def get_our_userid_def)
qed

section \<open>Properties\<close>

lemma user_host_differ: "host_fmt dir host \<noteq> user_fmt dir user"
  by (simp add: host_fmt_def user_fmt_def)


text \<open>A small installation: one user, one host, keys of 64 and of 16 bytes.\<close>

definition demo_key :: "u8 list" where
  "demo_key = replicate 16 0x5A"

definition demo_user :: passwd where
  "demo_user = \<lparr>pw_name = ''ann'', pw_uid = 7, pw_gid = 1, pw_shell = ''/bin/sh''\<rparr>"

definition demo_os :: sys where
  "demo_os = \<lparr>getuid = 7, geteuid = 7,
     getpwuid = [7 \<mapsto> demo_user], getpwnam = [''ann'' \<mapsto> demo_user], getgrgid = Map.empty,
     files = [''/keys/hosts/alpha'' \<mapsto>
                \<lparr>st_uid = 0, st_mode = 0x81A4, f_data = write_encoded_binary demo_key\<rparr>,
              ''/keys/users/ann'' \<mapsto>
                \<lparr>st_uid = 7, st_mode = 0x8180, f_data = write_encoded_binary demo_key\<rparr>],
     may_read = \<lambda>uid f. st_uid f = uid \<or> st_mode f AND 4 \<noteq> 0, may_write = \<lambda>_ _. True\<rparr>"

lemma demo_key_bytes: "key_bytes (write_encoded_binary demo_key) = demo_key"
  using read_write_encoded [of demo_key "[]"]
  by (simp add: key_bytes_def demo_key_def MAX_ENCODED_BINARY_def)

lemma demo_get_key: "get_key demo_os ''/keys'' ''alpha'' ''ann'' = Inr (map2 (XOR) demo_key demo_key)"
proof -
  have "length demo_key = 16" by (simp add: demo_key_def)
  then show ?thesis
    by (simp add: get_key_def demo_os_def demo_user_def key_file_fits_def SLOP_def fopen_r_def
        host_fmt_def user_fmt_def demo_key_bytes MD5_DIGEST_SIZE_def get_file_owner_def
        get_username_def is_regfile_protected_def S_ISREG_def xor_together_map2)
qed


text \<open>
  the key file \<open>create_userkeyfile\<close> makes is one \<open>get_key\<close> accepts, with the random bytes
  as the user's part: creating the file and then asking for the key of any host whose key has
  the default size gives the exclusive or of the host's bytes and the fresh ones.
\<close>

theorem fresh_key_usable:
  fixes rng :: rng
  assumes us: "get_our_username os = Some user" "get_username os (geteuid os) = Some user"
      "getuid os \<noteq> 0" "geteuid os \<noteq> 0"
    and fits: "key_file_fits dir user" "key_file_fits dir host"
    and new: "files os (user_fmt dir user) = None" "may_write os (geteuid os) (user_fmt dir user)"
    and own: "\<forall>f. st_uid f = geteuid os \<longrightarrow> may_read os (geteuid os) f"
    and hkey: "fopen_r os (geteuid os) (host_fmt dir host) = Some hdata"
      "length (key_bytes hdata) = DEFAULT_KEY_SIZE"
  shows "\<exists>os' rng'. create_userkeyfile os rng dir = (True, os', rng')
    \<and> get_key os' dir host user =
        Inr (map2 (XOR) (key_bytes hdata) (fst (random_bytes DEFAULT_KEY_SIZE rng)))"
proof -
  let ?k = "fst (random_bytes DEFAULT_KEY_SIZE rng)"
  let ?os = "fopen_w os (user_fmt dir user) (write_encoded_binary ?k)"
  have len: "length ?k = 64" using length_random_bytes by (simp add: DEFAULT_KEY_SIZE_def)
  then have "?k \<noteq> []" by auto
  then have kb: "key_bytes (write_encoded_binary ?k) = ?k"
    using read_write_encoded [of ?k "[]"] len by (simp add: key_bytes_def MAX_ENCODED_BINARY_def)
  have "create_userkeyfile os rng dir = (True, ?os, snd (random_bytes DEFAULT_KEY_SIZE rng))"
    using assms by (simp add: create_userkeyfile_def get_file_owner_def Let_def split_beta)
  moreover have "fopen_r ?os (geteuid os) (host_fmt dir host) = Some hdata"
    using hkey user_host_differ [of dir host user] 
    by (auto simp: fopen_r_def fopen_w_def split: option.splits if_splits)
  then have "get_key ?os dir host user = Inr (map2 (XOR) (key_bytes hdata) ?k)"
    using assms len kb
    by (simp add: get_key_def fopen_w_def fopen_r_def [of _ _ "user_fmt dir user"]
        get_file_owner_def get_username_def is_regfile_protected_def S_ISREG_def
        xor_together_map2 MD5_DIGEST_SIZE_def DEFAULT_KEY_SIZE_def)
  ultimately show ?thesis by blast
qed

text \<open>The installation before the user has a key.\<close>

definition bare_os :: sys where
  "bare_os = demo_os\<lparr>files := [''/keys/hosts/alpha'' \<mapsto>
     \<lparr>st_uid = 0, st_mode = 0x81A4, f_data = write_encoded_binary (replicate 64 1)\<rparr>]\<rparr>"

theorem fresh_key_usable_witness:
  "\<exists>os' rng'. create_userkeyfile bare_os (\<lambda>_. 0x1200) ''/keys'' = (True, os', rng')
    \<and> get_key os' ''/keys'' ''alpha'' ''ann'' =
        Inr (map2 (XOR) (key_bytes (write_encoded_binary (replicate 64 1)))
          (fst (random_bytes DEFAULT_KEY_SIZE (\<lambda>_. 0x1200))))"
proof -
  have "key_bytes (write_encoded_binary (replicate 64 1)) = replicate 64 1"
    using read_write_encoded [of "replicate 64 1" "[]"]
    by (simp add: key_bytes_def MAX_ENCODED_BINARY_def)
  then show ?thesis
    by (intro fresh_key_usable)
      (simp_all add: bare_os_def demo_os_def demo_user_def get_our_username_def get_our_userid_def
        get_username_def key_file_fits_def SLOP_def user_fmt_def host_fmt_def fopen_r_def
        DEFAULT_KEY_SIZE_def)
qed

end
