(* ===== verification/Npd_Protocol.thy ===== *)
theory Npd_Protocol
  imports Npd_Auth "HOL-Library.Sublist"
begin

text \<open>
  The two sides of the npd handshake (\<open>npd/npd.c\<close>) and the key generator (\<open>npd/genkey.c\<close>).
  The side that connects introduces itself, receives a challenge and answers it; the side that
  was connected to checks the peer's address, host and account before it composes the challenge.
  A connection is the list of the characters that will arrive on it; a routine returns its
  result, what it wrote and what it left unread. \<open>None\<close> is undefined behaviour: an overrun
  buffer or an access outside an array.
\<close>

unbundle bit_operations_syntax

section \<open>State\<close>

text \<open>One constructor for each message of \<open>npd.c\<close>, to \<open>stderr\<close> or to the system log.\<close>

datatype auth_error =
    NoKeyFile | NoUsername | BlewUsOff | LdSoChud | NotHello string
  | BadVersion "string option" | ChallengeExpected "string option"
  | BadChallenge npd_error | AnswerFailed npd_error | NotAccepted
  | CouldNotGetAddress | Spoofing | HelloExpected "string option" | HostnameExpected
  | LongHostname string | UsernameExpected | LongUsername string | CannotLookup string
  | BogusUser | VersionExpected "string option" | CannotCompose npd_error
  | AnswerExpected "string option" | CannotGetAnswer npd_error
  | AnswerWrongLength nat nat | AnswerIncorrect
  | CannotOpenIn | CannotOpenOut | NoPeerInfo | NoHostInfo

text \<open>
  The process: \<open>keys_dir\<close> of \<open>npd.c\<close>, the directory \<open>KEYS_DIR\<close> fixed when the library was
  built, the variable \<open>GLISHROOT\<close> of the environment, the operating system's answers, the random
  number generator, and what the stack holds where \<open>compute_MD5\<close> has its context.
\<close>

record npd =
  keys_dir :: "string option"
  KEYS_DIR :: string
  env_GLISHROOT :: "string option"
  n_os :: sys
  n_rng :: rng
  n_ctx :: MD5_CTX

record hostent =
  h_name :: string
  h_length :: nat
  h_addr_list :: "u8 list list"

record resolver =
  gethostbyaddr :: "u8 list \<Rightarrow> hostent option"
  gethostbyname :: "string \<Rightarrow> hostent option"

text \<open>A socket: what \<open>fdopen\<close>, \<open>getsockname\<close> and \<open>getpeername\<close> give for it.\<close>

record sock =
  sock_in :: "string option"
  sock_out :: bool
  getsockname :: "u8 list option"
  getpeername :: "u8 list option"

type_synonym 'a session = "((auth_error + 'a) \<times> string \<times> string \<times> npd) option"

definition NPP_VERSION :: nat where
  "NPP_VERSION = 1"

definition set_key_directory :: "string option \<Rightarrow> npd \<Rightarrow> npd" where
  "set_key_directory kd s = s\<lparr>keys_dir := kd\<rparr>"

definition get_key_directory :: "npd \<Rightarrow> string" where
  "get_key_directory s = (case keys_dir s of None \<Rightarrow> KEYS_DIR s | Some d \<Rightarrow> d)"

section \<open>The side that authenticates itself\<close>

definition try_create :: "npd \<Rightarrow> string \<Rightarrow> bool \<times> npd" where
  "try_create s dir =
     (let (ok, os, rng) = create_userkeyfile (n_os s) (n_rng s) dir
      in (ok, s\<lparr>n_os := os, n_rng := rng\<rparr>))"

definition create_keyfile :: "npd \<Rightarrow> (bool \<times> npd) option" where
  "create_keyfile s =
     (case try_create s (get_key_directory s) of
        (True, s) \<Rightarrow> Some (True, s)
      | (False, s) \<Rightarrow>
          (case env_GLISHROOT s of
             None \<Rightarrow> Some (False, s)
           | Some root \<Rightarrow>
               if 1024 < length root + length ''/keys'' + 1 then None
               else Some (try_create s (root @ ''/keys''))))"

text \<open>The words of an unexpected greeting are read, and printed, to the end.\<close>

lemma word_loop_shorter: "word_loop k w f = (Some v, g) \<Longrightarrow> length g < length f"
  by (induction k w f rule: word_loop.induct) (auto split: if_splits)

lemma get_word_shorter: "get_word_from_peer f = (Some w, g) \<Longrightarrow> length g < length f"
  using word_loop_shorter [of MAX_WORD "[]" "dropWhile isspace f" w g]
    length_dropWhile_le [of isspace f]
  by (simp add: get_word_from_peer_def)

function drain_words :: "string \<Rightarrow> string" where
  "drain_words f =
     (case get_word_from_peer f of (None, g) \<Rightarrow> g | (Some w, g) \<Rightarrow> drain_words g)"
  by pat_completeness auto
termination
  by (relation "measure length") (auto dest: get_word_shorter [OF sym])

text \<open>The eight words that follow \<open>ld.so:\<close> in a loader's warning.\<close>

fun eat_words :: "nat \<Rightarrow> string \<Rightarrow> bool \<times> string" where
  "eat_words 0 f = (True, f)"
| "eat_words (Suc n) f =
     (case get_word_from_peer f of (None, g) \<Rightarrow> (False, g) | (Some _, g) \<Rightarrow> eat_words n g)"

text \<open>The first word of the peer, past a loader's warning.\<close>

definition first_word :: "string \<Rightarrow> (auth_error + string) \<times> string" where
  "first_word f =
     (case get_word_from_peer f of
        (None, f) \<Rightarrow> (Inl BlewUsOff, f)
      | (Some s, f) \<Rightarrow>
          if s \<noteq> ''ld.so:'' then (Inr s, f)
          else case eat_words 8 f of
            (False, f) \<Rightarrow> (Inl LdSoChud, f)
          | (True, f) \<Rightarrow>
              (case get_word_from_peer f of
                 (None, f) \<Rightarrow> (Inl BlewUsOff, f)
               | (Some s, f) \<Rightarrow> (Inr s, f)))"

text \<open>Lines 140 to 171: the greeting up to the challenge's bytes.\<close>

definition read_challenge :: "string \<Rightarrow> (auth_error + u8 list) \<times> string" where
  "read_challenge f =
     (case first_word f of
        (Inl e, f) \<Rightarrow> (Inl e, f)
      | (Inr s, f) \<Rightarrow>
          if s \<noteq> ''hello'' then (Inl (NotHello s), drain_words f)
          else case get_word_from_peer f of
            (None, f) \<Rightarrow> (Inl (BadVersion None), f)
          | (Some s, f) \<Rightarrow>
              if atoi s \<le> 0 then (Inl (BadVersion (Some s)), f)
              else case get_word_from_peer f of
                (None, f) \<Rightarrow> (Inl (ChallengeExpected None), f)
              | (Some s, f) \<Rightarrow>
                  if s \<noteq> ''challenge'' then (Inl (ChallengeExpected (Some s)), f)
                  else case read_encoded_binary f of
                    (Inl e, f) \<Rightarrow> (Inl (BadChallenge e), f)
                  | (Inr challenge, f) \<Rightarrow> (Inr challenge, f))"

definition hello_line :: "string \<Rightarrow> string \<Rightarrow> string" where
  "hello_line host user =
     ''hello '' @ host @ '' '' @ user @ '' '' @ dec NPP_VERSION @ [newline]"

definition authenticate_to_peer :: "npd \<Rightarrow> string \<Rightarrow> string \<Rightarrow> unit session" where
  "authenticate_to_peer s inp local_host = do {
     (made, s) \<leftarrow> create_keyfile s;
     if \<not> made then Some (Inl NoKeyFile, [], inp, s)
     else case get_our_username (n_os s) of
       None \<Rightarrow> Some (Inl NoUsername, [], inp, s)
     | Some our_username \<Rightarrow>
         let out = hello_line local_host our_username in
         case read_challenge inp of
           (Inl e, f) \<Rightarrow> Some (Inl e, out, f, s)
         | (Inr challenge, f) \<Rightarrow>
             let out = out @ ''answer '' in do {
               (r, answer) \<leftarrow> answer_challenge (n_os s) (n_ctx s) (get_key_directory s)
                 local_host our_username challenge;
               case r of
                 Inl e \<Rightarrow> Some (Inl (AnswerFailed e), out, f, s)
               | Inr _ \<Rightarrow>
                   (case get_word_from_peer f of
                      (Some w, f) \<Rightarrow>
                        Some (if w = ''accepted'' then Inr () else Inl NotAccepted,
                          out @ answer, f, s)
                    | (None, f) \<Rightarrow> Some (Inl NotAccepted, out @ answer, f, s)) } }"

section \<open>The side that authenticates its peer\<close>

text \<open>
  The search of a host's addresses: \<open>memcmp\<close> over \<open>h_length\<close> bytes, undefined when either
  address is shorter.
\<close>

fun find_addr :: "u8 list \<Rightarrow> nat \<Rightarrow> u8 list list \<Rightarrow> bool option" where
  "find_addr peer_addr len [] = Some False"
| "find_addr peer_addr len (a # h_addrs) =
     (if length peer_addr < len \<or> length a < len then None
      else if take len peer_addr = take len a then Some True
      else find_addr peer_addr len h_addrs)"

definition peer_hostname_size :: nat where
  "peer_hostname_size = 256"

definition peer_username_size :: nat where
  "peer_username_size = 9"

text \<open>Lines 251 to 282: the peer introduces itself. The result is its host and user name.\<close>

definition read_hello :: "string \<Rightarrow> (auth_error + string \<times> string) \<times> string" where
  "read_hello f =
     (case get_word_from_peer f of
        (None, f) \<Rightarrow> (Inl (HelloExpected None), f)
      | (Some s, f) \<Rightarrow>
          if s \<noteq> ''hello'' then (Inl (HelloExpected (Some s)), f)
          else case get_word_from_peer f of
            (None, f) \<Rightarrow> (Inl HostnameExpected, f)
          | (Some hostname, f) \<Rightarrow>
              if peer_hostname_size \<le> length hostname then (Inl (LongHostname hostname), f)
              else case get_word_from_peer f of
                (None, f) \<Rightarrow> (Inl UsernameExpected, f)
              | (Some username, f) \<Rightarrow>
                  if peer_username_size \<le> length username then (Inl (LongUsername username), f)
                  else (Inr (hostname, username), f))"

text \<open>Lines 284 to 315: the alleged host and user.\<close>

definition verify_names ::
  "sys \<Rightarrow> resolver \<Rightarrow> u8 list \<Rightarrow> string \<Rightarrow> string \<Rightarrow> (auth_error + unit) option" where
  "verify_names os net peer_addr hostname username =
     (case gethostbyname net hostname of
        None \<Rightarrow> Some (Inl (CannotLookup hostname))
      | Some h \<Rightarrow> do {
          found \<leftarrow> find_addr peer_addr (h_length h) (h_addr_list h);
          Some (if \<not> found then Inl Spoofing
                else if get_userid os username = 0 then Inl BogusUser
                else if get_user_shell os username = None then Inl BogusUser
                else Inr ()) })"

text \<open>Lines 334 to 358: the peer's answer, compared with the expected one.\<close>

definition check_answer :: "u8 list \<Rightarrow> string \<Rightarrow> (auth_error + unit) \<times> string" where
  "check_answer answer f =
     (case get_word_from_peer f of
        (None, f) \<Rightarrow> (Inl (AnswerExpected None), f)
      | (Some s, f) \<Rightarrow>
          if s \<noteq> ''answer'' then (Inl (AnswerExpected (Some s)), f)
          else case read_encoded_binary f of
            (Inl e, f) \<Rightarrow> (Inl (CannotGetAnswer e), f)
          | (Inr peer_answer, f) \<Rightarrow>
              if length peer_answer \<noteq> length answer
                then (Inl (AnswerWrongLength (length peer_answer) (length answer)), f)
              else if \<not> byte_arrays_equal peer_answer answer (length answer)
                then (Inl AnswerIncorrect, f)
              else (Inr (), f))"

definition greeting :: string where
  "greeting = ''hello '' @ dec NPP_VERSION @ '' challenge'' @ [newline]"

definition challenge_peer :: "npd \<Rightarrow> string \<Rightarrow> string \<Rightarrow> string \<Rightarrow> (string \<times> string) session" where
  "challenge_peer s f hostname username = do {
     (r, challenge, rng) \<leftarrow> compose_challenge (n_os s) (n_rng s) (n_ctx s)
       (get_key_directory s) hostname username;
     let s = s\<lparr>n_rng := rng\<rparr>; out = greeting @ challenge in
     case r of
       Inl e \<Rightarrow> Some (Inl (CannotCompose e), out, f, s)
     | Inr answer \<Rightarrow>
         (case check_answer answer f of
            (Inl e, f) \<Rightarrow> Some (Inl e, out, f, s)
          | (Inr _, f) \<Rightarrow>
              Some (Inr (username, hostname), out @ ''accepted'' @ [newline], f, s)) }"

definition authenticate_peer ::
  "npd \<Rightarrow> resolver \<Rightarrow> string \<Rightarrow> u8 list \<Rightarrow> (string \<times> string) session" where
  "authenticate_peer s net npd_in peer_addr =
     (case gethostbyaddr net peer_addr of
        None \<Rightarrow> Some (Inl CouldNotGetAddress, [], npd_in, s)
      | Some h \<Rightarrow> do {
          found \<leftarrow> find_addr peer_addr (h_length h) (h_addr_list h);
          if \<not> found then Some (Inl Spoofing, [], npd_in, s)
          else case read_hello npd_in of
            (Inl e, f) \<Rightarrow> Some (Inl e, [], f, s)
          | (Inr (hostname, username), f) \<Rightarrow> do {
              r \<leftarrow> verify_names (n_os s) net peer_addr hostname username;
              case r of
                Inl e \<Rightarrow> Some (Inl e, [], f, s)
              | Inr _ \<Rightarrow>
                  (case get_word_from_peer f of
                     (None, f) \<Rightarrow> Some (Inl (VersionExpected None), [], f, s)
                   | (Some v, f) \<Rightarrow>
                       if atoi v < 1 then Some (Inl (VersionExpected (Some v)), [], f, s)
                       else challenge_peer s f hostname username) } })"

section \<open>Entry points\<close>

definition authenticate_client :: "npd \<Rightarrow> resolver \<Rightarrow> sock \<Rightarrow> (string \<times> string) session" where
  "authenticate_client s net sk =
     (case sock_in sk of
        None \<Rightarrow> Some (Inl CannotOpenIn, [], [], s)
      | Some inp \<Rightarrow>
          if \<not> sock_out sk then Some (Inl CannotOpenOut, [], inp, s)
          else case getpeername sk of
            None \<Rightarrow> Some (Inl NoPeerInfo, [], inp, s)
          | Some addr \<Rightarrow> authenticate_peer s net inp addr)"

text \<open>
  \<open>copy_host\<close> is the test and the \<open>strcpy\<close> into a buffer of 256 characters that
  \<open>authenticate_to_server\<close> makes for each host: a name of exactly 256 characters passes
  the test and its terminator lands outside.
\<close>

definition copy_host :: "string \<Rightarrow> (auth_error + string) option" where
  "copy_host name =
     (if 256 < length name then Some (Inl (LongHostname name))
      else if 256 < length name + 1 then None
      else Some (Inr name))"

definition host_of :: "resolver \<Rightarrow> u8 list option \<Rightarrow> auth_error \<Rightarrow> (auth_error + string) option" where
  "host_of net addr e =
     (case addr of
        None \<Rightarrow> Some (Inl e)
      | Some a \<Rightarrow>
          (case gethostbyaddr net a of
             None \<Rightarrow> Some (Inl CouldNotGetAddress)
           | Some h \<Rightarrow> copy_host (h_name h)))"

definition authenticate_to_server :: "npd \<Rightarrow> resolver \<Rightarrow> sock \<Rightarrow> unit session" where
  "authenticate_to_server s net sk =
     (case sock_in sk of
        None \<Rightarrow> Some (Inl CannotOpenIn, [], [], s)
      | Some inp \<Rightarrow>
          if \<not> sock_out sk then Some (Inl CannotOpenOut, [], inp, s)
          else do {
            lcl \<leftarrow> host_of net (getsockname sk) NoHostInfo;
            case lcl of
              Inl e \<Rightarrow> Some (Inl e, [], inp, s)
            | Inr local_host \<Rightarrow> do {
                rem \<leftarrow> host_of net (getpeername sk) NoPeerInfo;
                case rem of
                  Inl e \<Rightarrow> Some (Inl e, [], inp, s)
                | Inr remote_host \<Rightarrow> authenticate_to_peer s inp local_host } })"

text \<open>\<open>main\<close> of \<open>genkey\<close>: the exit status and what is written to standard output.\<close>

definition genkey_main :: "string list \<Rightarrow> rng \<Rightarrow> nat \<times> string" where
  "genkey_main args rng =
     (if 1 < length args then (1, [])
      else let n = (case args of [] \<Rightarrow> 64 | a # _ \<Rightarrow> atoi a) in
        if n \<le> 0 then (1, [])
        else (0, write_encoded_binary (fst (random_bytes (nat n) rng))))"

section \<open>An honest run\<close>

lemma wire_words [simp]:
  "wire_word ''hello''" "wire_word ''challenge''" "wire_word ''answer''" "wire_word ''accepted''"
  by (simp_all add: wire_word_def MAX_WORD_def isspace_def NUL_def)

lemma isspace_blank [simp]: "isspace CHR '' ''"
  by (simp add: isspace_def)

lemma wire_version [simp]: "wire_word (dec NPP_VERSION)"
  using wire_word_dec [of NPP_VERSION] by (simp add: NPP_VERSION_def dec.simps MAX_WORD_def)

lemma atoi_version [simp]: "atoi (dec NPP_VERSION) = 1"
  by (simp add: atoi_dec NPP_VERSION_def)

text \<open>A host and a user name that the greeting carries whole.\<close>

definition names_ok :: "string \<Rightarrow> string \<Rightarrow> bool" where
  "names_ok host user \<longleftrightarrow> wire_word host \<and> wire_word user
     \<and> length host < peer_hostname_size \<and> length user < peer_username_size"

lemma read_hello_line:
  assumes "names_ok host user"
  shows "read_hello (hello_line host user @ rest) =
    (Inr (host, user), dec NPP_VERSION @ newline # rest)"
  using assms get_word_simple [of "''hello''" "CHR '' ''"
      "host @ '' '' @ user @ '' '' @ dec NPP_VERSION @ newline # rest"]
    get_word_simple [of host "CHR '' ''" "user @ '' '' @ dec NPP_VERSION @ newline # rest"]
    get_word_simple [of user "CHR '' ''" "dec NPP_VERSION @ newline # rest"]
  by (simp add: names_ok_def hello_line_def read_hello_def)

lemma read_challenge_greeting:
  assumes "challenge \<noteq> []" and "length challenge \<le> MAX_ENCODED_BINARY"
  shows "read_challenge (greeting @ write_encoded_binary challenge @ rest) = (Inr challenge, rest)"
  using get_word_simple [of "''hello''" "CHR '' ''"
      "dec NPP_VERSION @ '' challenge'' @ newline # write_encoded_binary challenge @ rest"]
    get_word_simple [of "dec NPP_VERSION" "CHR '' ''"
      "''challenge'' @ newline # write_encoded_binary challenge @ rest"]
    get_word_simple [of "''challenge''" newline "write_encoded_binary challenge @ rest"]
    read_write_encoded [OF assms, of rest]
  by (simp add: greeting_def read_challenge_def first_word_def)

lemma check_answer_correct:
  assumes "answer \<noteq> []" and "length answer \<le> MAX_ENCODED_BINARY"
  shows "check_answer answer (''answer '' @ write_encoded_binary answer @ rest) = (Inr (), rest)"
  using get_word_simple [of "''answer''" "CHR '' ''" "write_encoded_binary answer @ rest"]
    read_write_encoded [OF assms, of rest]
  by (simp add: check_answer_def byte_arrays_equal_iff)

lemma md5_ref_bounds: "md5_ref b \<noteq> []" "length (md5_ref b) \<le> MAX_ENCODED_BINARY"
  using length_md5_ref [of b] by (auto simp: MD5_DIGEST_SIZE_def MAX_ENCODED_BINARY_def)

text \<open>What the environment has to grant an honest peer.\<close>

definition peer_known :: "npd \<Rightarrow> resolver \<Rightarrow> u8 list \<Rightarrow> string \<Rightarrow> string \<Rightarrow> bool" where
  "peer_known s net addr host user \<longleftrightarrow>
     (\<exists>h. gethostbyaddr net addr = Some h \<and> find_addr addr (h_length h) (h_addr_list h) = Some True)
     \<and> (\<exists>h. gethostbyname net host = Some h \<and> find_addr addr (h_length h) (h_addr_list h) = Some True)
     \<and> get_userid (n_os s) user \<noteq> 0 \<and> get_user_shell (n_os s) user \<noteq> None"

lemma verify_names_iff:
  "verify_names (n_os s) net addr host user = Some (Inr ()) \<and>
     (\<exists>h. gethostbyaddr net addr = Some h \<and> find_addr addr (h_length h) (h_addr_list h) = Some True)
   \<longleftrightarrow> peer_known s net addr host user"
  by (auto simp: verify_names_def peer_known_def bind_eq_Some_conv split: option.splits if_splits)

text \<open>What the two sides write when the run succeeds.\<close>

definition server_text :: "u8 list \<Rightarrow> string" where
  "server_text challenge = greeting @ write_encoded_binary challenge @ ''accepted'' @ [newline]"

definition client_text :: "string \<Rightarrow> string \<Rightarrow> u8 list \<Rightarrow> string" where
  "client_text host user answer = hello_line host user @ ''answer '' @ write_encoded_binary answer"

lemma challenge_peer_honest:
  assumes key: "get_key (n_os s) (get_key_directory s) host user = Inr key"
    and ctx: "length (buffer (n_ctx s)) = 64"
  defines "challenge \<equiv> fst (random_bytes (length key) (n_rng s))"
  shows "challenge_peer s (''answer '' @ write_encoded_binary (md5_ref (map2 (XOR) key challenge)))
      host user = Some (Inr (user, host), server_text challenge, [],
        s\<lparr>n_rng := snd (random_bytes (length key) (n_rng s))\<rparr>)"
  using compose_challenge_Inr [OF key ctx, of "n_rng s"]
    check_answer_correct [OF md5_ref_bounds, of "map2 (XOR) key challenge" "[]"]
  by (simp add: challenge_peer_def challenge_def server_text_def)

lemma server_honest:
  assumes known: "peer_known s net addr host user" and names: "names_ok host user"
    and key: "get_key (n_os s) (get_key_directory s) host user = Inr key"
    and ctx: "length (buffer (n_ctx s)) = 64"
  defines "challenge \<equiv> fst (random_bytes (length key) (n_rng s))"
  shows "authenticate_peer s net (client_text host user (md5_ref (map2 (XOR) key challenge))) addr =
    Some (Inr (user, host), server_text challenge, [],
      s\<lparr>n_rng := snd (random_bytes (length key) (n_rng s))\<rparr>)"
proof -
  let ?tail = "''answer '' @ write_encoded_binary (md5_ref (map2 (XOR) key challenge))"
  have "get_word_from_peer (dec NPP_VERSION @ newline # ?tail) = (Some (dec NPP_VERSION), ?tail)"
    by (rule get_word_simple) simp_all
  then show ?thesis
    using challenge_peer_honest [OF key ctx] known read_hello_line [OF names, of ?tail]
    by (auto simp: authenticate_peer_def client_text_def challenge_def
        verify_names_iff [symmetric])
qed

lemma client_honest:
  assumes made: "create_keyfile s = Some (True, s')" and user: "get_our_username (n_os s') = Some user"
    and key: "get_key (n_os s') (get_key_directory s') host user = Inr key"
    and ctx: "length (buffer (n_ctx s')) = 64" and len: "length challenge = length key"
  shows "authenticate_to_peer s (server_text challenge) host =
    Some (Inr (), client_text host user (md5_ref (map2 (XOR) key challenge)), [], s')"
proof -
  have "challenge \<noteq> []" "length challenge \<le> MAX_ENCODED_BINARY"
    using length_key [OF key] len by (auto simp: MD5_DIGEST_SIZE_def)
  then show ?thesis
    using made user answer_challenge_Inr [OF key ctx len]
      read_challenge_greeting [of challenge "''accepted'' @ [newline]"]
      get_word_simple [of "''accepted''" newline "[]"]
    by (simp add: authenticate_to_peer_def server_text_def client_text_def)
qed

section \<open>What an acceptance proves\<close>

lemma not_Inl_unit: "(\<forall>x. y \<noteq> Inl x) \<longleftrightarrow> y = Inr ()" for y :: "'e + unit"
  by (cases y) auto

lemma suffix_drop1: "suffix (drop (Suc 0) f) f"
  by (cases f) (auto simp: suffix_ConsI)

lemma word_loop_suffix: "word_loop k w f = (r, g) \<Longrightarrow> suffix g f"
  by (induction k w f rule: word_loop.induct)
    (auto split: if_splits intro: suffix_ConsI suffix_drop1)

lemma get_word_suffix: "get_word_from_peer f = (r, g) \<Longrightarrow> suffix g f"
  using word_loop_suffix [of MAX_WORD "[]" "dropWhile isspace f" r g] suffix_dropWhile [of isspace f]
  by (auto simp: get_word_from_peer_def intro: suffix_order.trans)

lemma read_hello_suffix: "read_hello f = (r, g) \<Longrightarrow> suffix g f"
  by (auto simp: read_hello_def split: prod.splits option.splits if_splits
      intro: suffix_order.trans dest!: get_word_suffix)

lemma check_answer_Inr:
  assumes "check_answer answer f = (Inr (), g)"
  obtains f' where "get_word_from_peer f = (Some ''answer'', f')"
    and "read_encoded_binary f' = (Inr answer, g)"
  using assms that
  by (auto simp: check_answer_def byte_arrays_equal_iff split: prod.splits option.splits
      sum.splits if_splits)

lemma challenge_peer_Inr:
  assumes "challenge_peer s f host user = Some (Inr r, out, g, s')"
    and ctx: "length (buffer (n_ctx s)) = 64"
  obtains key challenge f' where "r = (user, host)"
    and "get_key (n_os s) (get_key_directory s) host user = Inr key"
    and "challenge = fst (random_bytes (length key) (n_rng s))"
    and "out = server_text challenge"
    and "get_word_from_peer f = (Some ''answer'', f')"
    and "read_encoded_binary f' = (Inr (md5_ref (map2 (XOR) key challenge)), g)"
proof (cases "get_key (n_os s) (get_key_directory s) host user")
  case (Inl e)
  with assms show ?thesis by (simp add: challenge_peer_def compose_challenge_def)
next
  case (Inr key)
  let ?c = "fst (random_bytes (length key) (n_rng s))"
  from assms(1) have "r = (user, host)" and "out = server_text ?c"
    and ok: "check_answer (md5_ref (map2 (XOR) key ?c)) f = (Inr (), g)"
    by (auto simp: challenge_peer_def compose_challenge_Inr [OF Inr ctx] server_text_def Let_def
        split: prod.splits sum.splits)
  from check_answer_Inr [OF ok] that [OF this(1) Inr refl this(2)] show ?thesis by blast
qed

text \<open>
  An accepted peer connected from an address that both its own reverse entry and the name it
  gave lead to, named an account other than root's that has a shell, and sent the digest of
  the challenge under the shared key.
\<close>

lemma authenticate_peer_Inr:
  assumes "authenticate_peer s net inp addr = Some (Inr (user, host), out, rest, s')"
    and ctx: "length (buffer (n_ctx s)) = 64"
  obtains key challenge f f' where "peer_known s net addr host user"
    and "length user < peer_username_size" and "length host < peer_hostname_size"
    and "get_key (n_os s) (get_key_directory s) host user = Inr key"
    and "challenge = fst (random_bytes (length key) (n_rng s))"
    and "out = server_text challenge"
    and "suffix f inp" and "get_word_from_peer f = (Some ''answer'', f')"
    and "read_encoded_binary f' = (Inr (md5_ref (map2 (XOR) key challenge)), rest)"
proof -
  from assms(1) obtain h u f v g where hello: "read_hello inp = (Inr (h, u), f)"
    and known: "peer_known s net addr h u"
    and v: "get_word_from_peer f = (Some v, g)" and ch: "challenge_peer s g h u = Some (Inr (user, host), out, rest, s')"
    by (auto simp: authenticate_peer_def bind_eq_Some_conv verify_names_iff [symmetric]
        not_Inl_unit split: option.splits prod.splits sum.splits if_splits)
  from hello have "length u < peer_username_size" "length h < peer_hostname_size"
    by (auto simp: read_hello_def split: prod.splits option.splits if_splits)
  moreover have "suffix g inp"
    using read_hello_suffix [OF hello] get_word_suffix [OF v] by (rule suffix_order.trans [rotated])
  ultimately show ?thesis using challenge_peer_Inr [OF ch ctx] known that by (metis prod.inject)
qed

lemma genkey_readable:
  assumes "genkey_main args rng = (0, out)" and "length args \<le> 1"
    and "\<forall>a \<in> set args. atoi a \<le> int MAX_ENCODED_BINARY"
  shows "\<exists>key. key_bytes out = key \<and> key \<noteq> [] \<and>
    (args = [] \<longrightarrow> length key = DEFAULT_KEY_SIZE) \<and> (\<forall>a \<in> set args. int (length key) = atoi a)"
proof -
  let ?n = "case args of [] \<Rightarrow> 64 | a # _ \<Rightarrow> atoi a"
  let ?k = "fst (random_bytes (nat ?n) rng)"
  have n: "0 < ?n" "?n \<le> int MAX_ENCODED_BINARY" and out: "out = write_encoded_binary ?k"
    using assms by (auto simp: genkey_main_def Let_def MAX_ENCODED_BINARY_def
        split: if_splits list.splits)
  then have len: "length ?k = nat ?n" "?k \<noteq> []"
    using length_random_bytes [of "nat ?n" rng] by auto
  then have "key_bytes out = ?k"
    using n read_write_encoded [of ?k "[]"] out by (simp add: key_bytes_def)
  with len n assms(2) show ?thesis
    by (cases args) (auto simp: DEFAULT_KEY_SIZE_def)
qed

text \<open>The 1024 characters of \<open>create_keyfile\<close> are the only limit that can be overrun there.\<close>

lemma create_keyfile_total:
  "(\<forall>root. env_GLISHROOT s = Some root \<longrightarrow> length root \<le> 1018) \<Longrightarrow> create_keyfile s \<noteq> None"
  by (auto simp: create_keyfile_def try_create_def split: bool.splits prod.splits option.splits)

section \<open>Properties\<close>

text \<open>A connection between the two sides on the installation of the previous theory.\<close>

definition demo_npd :: npd where
  "demo_npd = \<lparr>keys_dir = Some ''/keys'', KEYS_DIR = ''/usr/keys'', env_GLISHROOT = None,
     n_os = demo_os, n_rng = (\<lambda>_. 0x4200), n_ctx = md5_zero\<rparr>"

definition demo_host :: hostent where
  "demo_host = \<lparr>h_name = ''alpha'', h_length = 4, h_addr_list = [[10, 0, 0, 1], [10, 0, 0, 2]]\<rparr>"

definition demo_net :: resolver where
  "demo_net = \<lparr>gethostbyaddr = [[10, 0, 0, 2] \<mapsto> demo_host], gethostbyname = [''alpha'' \<mapsto> demo_host]\<rparr>"

lemma demo_directory: "get_key_directory demo_npd = ''/keys''"
  by (simp add: get_key_directory_def demo_npd_def)

lemma demo_create: "create_keyfile demo_npd = Some (True, demo_npd)"
  by (simp add: create_keyfile_def try_create_def demo_directory create_userkeyfile_def)
    (simp add: demo_npd_def demo_os_def get_our_username_def get_our_userid_def demo_user_def
      key_file_fits_def SLOP_def user_fmt_def get_file_owner_def)

lemma demo_known: "peer_known demo_npd demo_net [10, 0, 0, 2] ''alpha'' ''ann''"
  by (simp add: peer_known_def demo_net_def demo_host_def demo_npd_def demo_os_def demo_user_def
      get_userid_def get_user_shell_def)

lemma demo_names: "names_ok ''alpha'' ''ann''"
  by (simp add: names_ok_def wire_word_def MAX_WORD_def isspace_def NUL_def
      peer_hostname_size_def peer_username_size_def)

lemma demo_key_of:
  "get_key (n_os demo_npd) (get_key_directory demo_npd) ''alpha'' ''ann''
     = Inr (map2 (XOR) demo_key demo_key)"
  using demo_get_key by (simp add: demo_directory) (simp add: demo_npd_def)

lemma demo_ctx: "length (buffer (n_ctx demo_npd)) = 64"
  by (simp add: demo_npd_def md5_zero_def)



text \<open>
  C9: a peer is accepted only when the address it connected from is listed both for its reverse
  name and for the name it claims, the account it claims exists with a shell and is not root's,
  a key exists for the pair, and the connection carried, after the word \<open>answer\<close>, exactly the
  digest of that key and the challenge the server had just drawn and written.
\<close>

theorem acceptance_sound:
  assumes "authenticate_peer s net inp addr = Some (Inr (user, host), out, rest, s')"
    and "length (buffer (n_ctx s)) = 64"
  shows "peer_known s net addr host user
    \<and> length user < peer_username_size \<and> length host < peer_hostname_size
    \<and> (\<exists>key challenge f f'.
        get_key (n_os s) (get_key_directory s) host user = Inr key
        \<and> challenge = fst (random_bytes (length key) (n_rng s))
        \<and> out = server_text challenge \<and> suffix f inp
        \<and> get_word_from_peer f = (Some ''answer'', f')
        \<and> read_encoded_binary f' = (Inr (md5_ref (map2 (XOR) key challenge)), rest))"
  using authenticate_peer_Inr [OF assms] by metis

theorem acceptance_sound_witness:
  "peer_known demo_npd demo_net [10, 0, 0, 2] ''alpha'' ''ann''
    \<and> length ''ann'' < peer_username_size \<and> length ''alpha'' < peer_hostname_size
    \<and> (\<exists>inp out key challenge f f'.
        get_key (n_os demo_npd) (get_key_directory demo_npd) ''alpha'' ''ann'' = Inr key
        \<and> challenge = fst (random_bytes (length key) (n_rng demo_npd))
        \<and> out = server_text challenge \<and> suffix f inp
        \<and> get_word_from_peer f = (Some ''answer'', f')
        \<and> read_encoded_binary f' = (Inr (md5_ref (map2 (XOR) key challenge)), []))"
  using acceptance_sound [OF server_honest [OF demo_known demo_names demo_key_of demo_ctx] demo_ctx]
  by blast

text \<open>
  the check \<open>authenticate_to_server\<close> makes on a host name before it copies it into a
  buffer of 256 characters is off by one: the copy overruns exactly for names of 256 characters.
\<close>

theorem copy_host_overrun: "copy_host name = None \<longleftrightarrow> length name = 256"
  by (auto simp: copy_host_def)

text \<open>
  \<open>genkey\<close> writes a key that the key reader reads back, of the size asked for, or of 64
  bytes by default, up to the size the reader accepts.
\<close>

theorem genkey_roundtrip:
  assumes "genkey_main args rng = (0, out)" and "length args \<le> 1"
    and "\<forall>a \<in> set args. atoi a \<le> int MAX_ENCODED_BINARY"
  shows "\<exists>key. key_bytes out = key \<and> key \<noteq> [] \<and>
    (args = [] \<longrightarrow> length key = DEFAULT_KEY_SIZE) \<and> (\<forall>a \<in> set args. int (length key) = atoi a)"
  by (rule genkey_readable [OF assms])

theorem genkey_roundtrip_witness:
  "\<exists>key. key_bytes (snd (genkey_main [''32''] (\<lambda>_. 0x4200))) = key \<and> key \<noteq> []
    \<and> int (length key) = 32"
proof -
  have "atoi ''32'' = 32" by (simp add: atoi_def isspace_def isdigit_def digit_val_def)
  then show ?thesis
    using genkey_roundtrip [of "[''32'']" "\<lambda>_. 0x4200"
        "snd (genkey_main [''32''] (\<lambda>_. 0x4200))"]
    by (simp add: genkey_main_def MAX_ENCODED_BINARY_def)
qed

end
