(* ===== verification/Make_Lst.thy ===== *)
theory Make_Lst
  imports Glish_Prelude
begin

text \<open>
  The doubly linked lists of the make client (\<open>glish/clients/make/lst.lib\<close>). Nodes and list
  heads live in an explicit heap, so that freed memory, shared nodes and the dangling pointers
  the library can leave behind are visible. A pointer to a node or a list is an address or
  \<open>None\<close>, the library's \<open>NIL\<close>; address 0 is the null pointer and never allocated. An operation
  returns \<open>None\<close> where the C code would follow \<open>NIL\<close>, null or a freed address, or loop for
  ever.
\<close>

unbundle bit_operations_syntax

section \<open>The heap\<close>

record 'a ListNode =
  prevPtr :: "nat option"
  nextPtr :: "nat option"
  useCount :: u8
  flags :: u8
  datum :: 'a

definition LN_DELETED :: u8 where
  "LN_DELETED = 1"

datatype Where = Head | Middle | Tail | Unknown

record List =
  firstPtr :: "nat option"
  lastPtr :: "nat option"
  isCirc :: bool
  atEnd :: Where
  isOpen :: bool
  curPtr :: "nat option"
  l_prevPtr :: "nat option"

datatype ReturnStatus = SUCCESS | FAILURE

text \<open>
  \<open>brk\<close> is the next address \<open>malloc\<close> returns and \<open>junk\<close> what a pointer holds before it is
  initialised. Clients extend the record with their own state.
\<close>

record 'a heap =
  nodes :: "nat \<Rightarrow> 'a ListNode option"
  lists :: "nat \<Rightarrow> List option"
  brk :: nat
  junk :: "nat option"

type_synonym Lst = "nat option"
type_synonym LstNode = "nat option"

definition LST_CONCNEW :: int where
  "LST_CONCNEW = 0"

definition LST_CONCLINK :: int where
  "LST_CONCLINK = 1"

text \<open>Reading, writing, allocating and freeing a node or a list head.\<close>

definition node_at :: "('a, 'm) heap_scheme \<Rightarrow> nat option \<Rightarrow> 'a ListNode option" where
  "node_at h p = Option.bind p (nodes h)"

definition list_at :: "('a, 'm) heap_scheme \<Rightarrow> nat option \<Rightarrow> List option" where
  "list_at h p = Option.bind p (lists h)"

definition node_set ::
  "nat option \<Rightarrow> ('a ListNode \<Rightarrow> 'a ListNode) \<Rightarrow> ('a, 'm) heap_scheme \<Rightarrow> ('a, 'm) heap_scheme option" where
  "node_set p f h = do {
     a \<leftarrow> p;
     n \<leftarrow> nodes h a;
     Some (h\<lparr>nodes := (nodes h)(a \<mapsto> f n)\<rparr>) }"

definition list_set ::
  "nat option \<Rightarrow> (List \<Rightarrow> List) \<Rightarrow> ('a, 'm) heap_scheme \<Rightarrow> ('a, 'm) heap_scheme option" where
  "list_set p f h = do {
     a \<leftarrow> p;
     l \<leftarrow> lists h a;
     Some (h\<lparr>lists := (lists h)(a \<mapsto> f l)\<rparr>) }"

definition new_node :: "'a ListNode \<Rightarrow> ('a, 'm) heap_scheme \<Rightarrow> ('a, 'm) heap_scheme" where
  "new_node n h = h\<lparr>nodes := (nodes h)(brk h \<mapsto> n), brk := Suc (brk h)\<rparr>"

definition free_node :: "nat option \<Rightarrow> ('a, 'm) heap_scheme \<Rightarrow> ('a, 'm) heap_scheme option" where
  "free_node p h = do {
     a \<leftarrow> p;
     _ \<leftarrow> nodes h a;
     Some (h\<lparr>nodes := (nodes h)(a := None)\<rparr>) }"

definition free_list :: "nat option \<Rightarrow> ('a, 'm) heap_scheme \<Rightarrow> ('a, 'm) heap_scheme option" where
  "free_list p h = do {
     a \<leftarrow> p;
     _ \<leftarrow> lists h a;
     Some (h\<lparr>lists := (lists h)(a := None)\<rparr>) }"

section \<open>Construction\<close>

definition Lst_Init :: "bool \<Rightarrow> ('a, 'm) heap_scheme \<Rightarrow> Lst \<times> ('a, 'm) heap_scheme" where
  "Lst_Init circ h =
     (Some (brk h),
      h\<lparr>lists := (lists h)(brk h \<mapsto>
          \<lparr>firstPtr = None, lastPtr = None, isCirc = circ, atEnd = Unknown, isOpen = False,
           curPtr = junk h, l_prevPtr = junk h\<rparr>),
        brk := Suc (brk h)\<rparr>)"

definition Lst_First :: "Lst \<Rightarrow> ('a, 'm) heap_scheme \<Rightarrow> LstNode option" where
  "Lst_First l h = (if l = None then Some None else map_option firstPtr (list_at h l))"

definition Lst_Last :: "Lst \<Rightarrow> ('a, 'm) heap_scheme \<Rightarrow> LstNode option" where
  "Lst_Last l h =
     (if l = None then Some None
      else map_option (\<lambda>list. if firstPtr list = None then None else lastPtr list) (list_at h l))"

definition Lst_IsEmpty :: "Lst \<Rightarrow> ('a, 'm) heap_scheme \<Rightarrow> bool option" where
  "Lst_IsEmpty l h = (if l = None then Some True
     else map_option (\<lambda>list. firstPtr list = None) (list_at h l))"

definition Lst_Append ::
  "Lst \<Rightarrow> LstNode \<Rightarrow> 'a \<Rightarrow> ('a, 'm) heap_scheme \<Rightarrow> (ReturnStatus \<times> ('a, 'm) heap_scheme) option" where
  "Lst_Append l ln d h =
     (if l = None then Some (FAILURE, h)
      else do {
        list \<leftarrow> list_at h l;
        if \<not> (ln = None \<and> firstPtr list = None) \<and> (firstPtr list = None \<or> ln = None)
        then Some (FAILURE, h)
        else let nLNode = Some (brk h) in
          if ln = None then do {
            let self = (if isCirc list then nLNode else None);
            let h = new_node \<lparr>prevPtr = self, nextPtr = self, useCount = 0, flags = 0, datum = d\<rparr> h;
            h \<leftarrow> list_set l (\<lambda>x. x\<lparr>firstPtr := nLNode, lastPtr := nLNode\<rparr>) h;
            Some (SUCCESS, h) }
          else do {
            lNode \<leftarrow> node_at h ln;
            let h = new_node \<lparr>prevPtr = ln, nextPtr = nextPtr lNode, useCount = 0, flags = 0,
                              datum = d\<rparr> h;
            h \<leftarrow> node_set ln (\<lambda>x. x\<lparr>nextPtr := nLNode\<rparr>) h;
            h \<leftarrow> (if nextPtr lNode \<noteq> None
                  then node_set (nextPtr lNode) (\<lambda>x. x\<lparr>prevPtr := nLNode\<rparr>) h else Some h);
            h \<leftarrow> (if ln = lastPtr list then list_set l (\<lambda>x. x\<lparr>lastPtr := nLNode\<rparr>) h else Some h);
            Some (SUCCESS, h) } })"

definition Lst_Insert ::
  "Lst \<Rightarrow> LstNode \<Rightarrow> 'a \<Rightarrow> ('a, 'm) heap_scheme \<Rightarrow> (ReturnStatus \<times> ('a, 'm) heap_scheme) option" where
  "Lst_Insert l ln d h =
     (if l = None then Some (FAILURE, h)
      else do {
        list \<leftarrow> list_at h l;
        if \<not> (firstPtr list = None \<and> ln = None) \<and> (firstPtr list = None \<or> ln = None)
        then Some (FAILURE, h)
        else let nLNode = Some (brk h) in
          if ln = None then do {
            let self = (if isCirc list then nLNode else None);
            let h = new_node \<lparr>prevPtr = self, nextPtr = self, useCount = 0, flags = 0, datum = d\<rparr> h;
            h \<leftarrow> list_set l (\<lambda>x. x\<lparr>firstPtr := nLNode, lastPtr := nLNode\<rparr>) h;
            Some (SUCCESS, h) }
          else do {
            lNode \<leftarrow> node_at h ln;
            let h = new_node \<lparr>prevPtr = prevPtr lNode, nextPtr = ln, useCount = 0, flags = 0,
                              datum = d\<rparr> h;
            h \<leftarrow> (if prevPtr lNode \<noteq> None
                  then node_set (prevPtr lNode) (\<lambda>x. x\<lparr>nextPtr := nLNode\<rparr>) h else Some h);
            h \<leftarrow> node_set ln (\<lambda>x. x\<lparr>prevPtr := nLNode\<rparr>) h;
            h \<leftarrow> (if ln = firstPtr list then list_set l (\<lambda>x. x\<lparr>firstPtr := nLNode\<rparr>) h else Some h);
            Some (SUCCESS, h) } })"

definition Lst_AtEnd ::
  "Lst \<Rightarrow> 'a \<Rightarrow> ('a, 'm) heap_scheme \<Rightarrow> (ReturnStatus \<times> ('a, 'm) heap_scheme) option" where
  "Lst_AtEnd l d h = do { end_ln \<leftarrow> Lst_Last l h; Lst_Append l end_ln d h }"

definition Lst_AtFront ::
  "Lst \<Rightarrow> 'a \<Rightarrow> ('a, 'm) heap_scheme \<Rightarrow> (ReturnStatus \<times> ('a, 'm) heap_scheme) option" where
  "Lst_AtFront l d h = do { front \<leftarrow> Lst_First l h; Lst_Insert l front d h }"

definition Lst_EnQueue ::
  "Lst \<Rightarrow> 'a \<Rightarrow> ('a, 'm) heap_scheme \<Rightarrow> (ReturnStatus \<times> ('a, 'm) heap_scheme) option" where
  "Lst_EnQueue l d h =
     (if l = None then Some (FAILURE, h) else do { end_ln \<leftarrow> Lst_Last l h; Lst_Append l end_ln d h })"

section \<open>Removal\<close>

definition Lst_Remove ::
  "Lst \<Rightarrow> LstNode \<Rightarrow> ('a, 'm) heap_scheme \<Rightarrow> (ReturnStatus \<times> ('a, 'm) heap_scheme) option" where
  "Lst_Remove l ln h =
     (if l = None \<or> ln = None then Some (FAILURE, h)
      else do {
        lNode \<leftarrow> node_at h ln;
        h \<leftarrow> (if nextPtr lNode \<noteq> None
              then node_set (nextPtr lNode) (\<lambda>x. x\<lparr>prevPtr := prevPtr lNode\<rparr>) h else Some h);
        lNode \<leftarrow> node_at h ln;
        h \<leftarrow> (if prevPtr lNode \<noteq> None
              then node_set (prevPtr lNode) (\<lambda>x. x\<lparr>nextPtr := nextPtr lNode\<rparr>) h else Some h);
        lNode \<leftarrow> node_at h ln;
        h \<leftarrow> list_set l (\<lambda>x. if firstPtr x = ln then x\<lparr>firstPtr := nextPtr lNode\<rparr> else x) h;
        h \<leftarrow> list_set l (\<lambda>x. if lastPtr x = ln then x\<lparr>lastPtr := prevPtr lNode\<rparr> else x) h;
        h \<leftarrow> list_set l (\<lambda>x. if isOpen x \<and> curPtr x = ln
               then x\<lparr>curPtr := l_prevPtr x,
                      atEnd := (if l_prevPtr x = None then Unknown else atEnd x)\<rparr> else x) h;
        h \<leftarrow> list_set l (\<lambda>x. if firstPtr x = ln then x\<lparr>firstPtr := None\<rparr> else x) h;
        h \<leftarrow> (if useCount lNode = 0 then free_node ln h
              else node_set ln (\<lambda>x. x\<lparr>flags := flags x OR LN_DELETED\<rparr>) h);
        Some (SUCCESS, h) })"

definition Lst_DeQueue :: "Lst \<Rightarrow> ('a, 'm) heap_scheme \<Rightarrow> ('a option \<times> ('a, 'm) heap_scheme) option" where
  "Lst_DeQueue l h = do {
     tln \<leftarrow> Lst_First l h;
     if tln = None then Some (None, h)
     else do {
       nd \<leftarrow> node_at h tln;
       (st, h) \<leftarrow> Lst_Remove l tln h;
       Some (if st = FAILURE then None else Some (datum nd), h) } }"

partial_function (option) destroy_loop ::
  "('a \<Rightarrow> ('a, 'm) heap_scheme \<Rightarrow> ('a, 'm) heap_scheme) option \<Rightarrow> nat option \<Rightarrow> ('a, 'm) heap_scheme
     \<Rightarrow> ('a, 'm) heap_scheme option" where
  "destroy_loop freeProc ln h =
     (if ln = None then Some h
      else do {
        nd \<leftarrow> node_at h ln;
        let h = (case freeProc of None \<Rightarrow> h | Some f \<Rightarrow> f (datum nd) h);
        h \<leftarrow> free_node ln h;
        destroy_loop freeProc (nextPtr nd) h })"

definition Lst_Destroy ::
  "Lst \<Rightarrow> ('a \<Rightarrow> ('a, 'm) heap_scheme \<Rightarrow> ('a, 'm) heap_scheme) option \<Rightarrow> ('a, 'm) heap_scheme
     \<Rightarrow> ('a, 'm) heap_scheme option" where
  "Lst_Destroy l freeProc h =
     (if l = None \<or> l = Some 0 then Some h
      else do {
        list \<leftarrow> list_at h l;
        if lastPtr list = None then free_list l h
        else do {
          h \<leftarrow> node_set (lastPtr list) (\<lambda>x. x\<lparr>nextPtr := None\<rparr>) h;
          h \<leftarrow> destroy_loop freeProc (firstPtr list) h;
          free_list l h } })"

section \<open>Concatenation and duplication\<close>

partial_function (option) concat_loop ::
  "Lst \<Rightarrow> nat option \<Rightarrow> nat option \<Rightarrow> ('a, 'm) heap_scheme
     \<Rightarrow> (nat option \<times> ('a, 'm) heap_scheme) option" where
  "concat_loop l1 last_ln ln h =
     (if ln = None then Some (last_ln, h)
      else do {
        nd \<leftarrow> node_at h ln;
        let nln = Some (brk h);
        let h = new_node \<lparr>prevPtr = last_ln, nextPtr = junk h, useCount = 0, flags = 0,
                          datum = datum nd\<rparr> h;
        h \<leftarrow> (if last_ln \<noteq> None then node_set last_ln (\<lambda>x. x\<lparr>nextPtr := nln\<rparr>) h
              else list_set l1 (\<lambda>x. x\<lparr>firstPtr := nln\<rparr>) h);
        nd \<leftarrow> node_at h ln;
        concat_loop l1 nln (nextPtr nd) h })"

definition concat_link :: "Lst \<Rightarrow> Lst \<Rightarrow> ('a, 'm) heap_scheme \<Rightarrow> ('a, 'm) heap_scheme option" where
  "concat_link l1 l2 h = do {
     list2 \<leftarrow> list_at h l2;
     h \<leftarrow> (if firstPtr list2 \<noteq> None then do {
             h \<leftarrow> node_set (lastPtr list2) (\<lambda>x. x\<lparr>nextPtr := None\<rparr>) h;
             list1 \<leftarrow> list_at h l1;
             h \<leftarrow> node_set (firstPtr list2) (\<lambda>x. x\<lparr>prevPtr := lastPtr list1\<rparr>) h;
             h \<leftarrow> (if lastPtr list1 \<noteq> None
                   then node_set (lastPtr list1) (\<lambda>x. x\<lparr>nextPtr := firstPtr list2\<rparr>) h
                   else list_set l1 (\<lambda>x. x\<lparr>firstPtr := firstPtr list2\<rparr>) h);
             list_set l1 (\<lambda>x. x\<lparr>lastPtr := lastPtr list2\<rparr>) h }
           else Some h);
     list1 \<leftarrow> list_at h l1;
     h \<leftarrow> (if isCirc list1 \<and> firstPtr list1 \<noteq> None then do {
             h \<leftarrow> node_set (firstPtr list1) (\<lambda>x. x\<lparr>prevPtr := lastPtr list1\<rparr>) h;
             node_set (lastPtr list1) (\<lambda>x. x\<lparr>nextPtr := firstPtr list1\<rparr>) h }
           else Some h);
     free_list l2 h }"

definition concat_new :: "Lst \<Rightarrow> Lst \<Rightarrow> ('a, 'm) heap_scheme \<Rightarrow> ('a, 'm) heap_scheme option" where
  "concat_new l1 l2 h = do {
     list2 \<leftarrow> list_at h l2;
     if firstPtr list2 = None then Some h
     else do {
       h \<leftarrow> node_set (lastPtr list2) (\<lambda>x. x\<lparr>nextPtr := None\<rparr>) h;
       list1 \<leftarrow> list_at h l1;
       (last_ln, h) \<leftarrow> concat_loop l1 (lastPtr list1) (firstPtr list2) h;
       h \<leftarrow> list_set l1 (\<lambda>x. x\<lparr>lastPtr := last_ln\<rparr>) h;
       list1 \<leftarrow> list_at h l1;
       h \<leftarrow> (if isCirc list1 then do {
               h \<leftarrow> node_set (lastPtr list1) (\<lambda>x. x\<lparr>nextPtr := firstPtr list1\<rparr>) h;
               node_set (firstPtr list1) (\<lambda>x. x\<lparr>prevPtr := lastPtr list1\<rparr>) h }
             else node_set last_ln (\<lambda>x. x\<lparr>nextPtr := None\<rparr>) h);
       list2 \<leftarrow> list_at h l2;
       if isCirc list2 then node_set (lastPtr list2) (\<lambda>x. x\<lparr>nextPtr := firstPtr list2\<rparr>) h
       else Some h } }"

definition Lst_Concat ::
  "Lst \<Rightarrow> Lst \<Rightarrow> int \<Rightarrow> ('a, 'm) heap_scheme \<Rightarrow> (ReturnStatus \<times> ('a, 'm) heap_scheme) option" where
  "Lst_Concat l1 l2 cflags h =
     (if l1 = None \<or> l2 = None then Some (FAILURE, h)
      else do {
        h \<leftarrow> (if cflags = LST_CONCLINK then concat_link l1 l2 h else concat_new l1 l2 h);
        Some (SUCCESS, h) })"

partial_function (option) dupl_loop ::
  "('a \<Rightarrow> ('a, 'm) heap_scheme \<Rightarrow> 'a \<times> ('a, 'm) heap_scheme) option \<Rightarrow> Lst \<Rightarrow> Lst \<Rightarrow> nat option
     \<Rightarrow> ('a, 'm) heap_scheme \<Rightarrow> (ReturnStatus \<times> ('a, 'm) heap_scheme) option" where
  "dupl_loop copyProc l nl ln h =
     (if ln = None then Some (SUCCESS, h)
      else do {
        nd \<leftarrow> node_at h ln;
        let (d, h) = (case copyProc of None \<Rightarrow> (datum nd, h) | Some f \<Rightarrow> f (datum nd) h);
        (st, h) \<leftarrow> Lst_AtEnd nl d h;
        if st = FAILURE then Some (FAILURE, h)
        else do {
          list \<leftarrow> list_at h l;
          nd \<leftarrow> node_at h ln;
          dupl_loop copyProc l nl
            (if isCirc list \<and> ln = lastPtr list then None else nextPtr nd) h } })"

definition Lst_Duplicate ::
  "Lst \<Rightarrow> ('a \<Rightarrow> ('a, 'm) heap_scheme \<Rightarrow> 'a \<times> ('a, 'm) heap_scheme) option
     \<Rightarrow> ('a, 'm) heap_scheme \<Rightarrow> (Lst \<times> ('a, 'm) heap_scheme) option" where
  "Lst_Duplicate l copyProc h =
     (if l = None then Some (None, h)
      else do {
        list \<leftarrow> list_at h l;
        let (nl, h) = Lst_Init (isCirc list) h;
        (st, h) \<leftarrow> dupl_loop copyProc l nl (firstPtr list) h;
        Some (if st = FAILURE then None else nl, h) })"

section \<open>Nodes\<close>

text \<open>\<open>None\<close> inside is the \<open>NIL\<close> datum of an invalid node.\<close>

definition Lst_Datum :: "LstNode \<Rightarrow> ('a, 'm) heap_scheme \<Rightarrow> 'a option option" where
  "Lst_Datum ln h = (if ln = None then Some None else map_option (\<lambda>n. Some (datum n)) (node_at h ln))"

definition Lst_Succ :: "LstNode \<Rightarrow> ('a, 'm) heap_scheme \<Rightarrow> LstNode option" where
  "Lst_Succ ln h = (if ln = None then Some None else map_option nextPtr (node_at h ln))"

definition Lst_Replace ::
  "LstNode \<Rightarrow> 'a \<Rightarrow> ('a, 'm) heap_scheme \<Rightarrow> (ReturnStatus \<times> ('a, 'm) heap_scheme) option" where
  "Lst_Replace ln d h =
     (if ln = None then Some (FAILURE, h)
      else map_option (\<lambda>h. (SUCCESS, h)) (node_set ln (\<lambda>x. x\<lparr>datum := d\<rparr>) h))"

section \<open>Searching and iterating\<close>

partial_function (option) find_loop ::
  "('a \<Rightarrow> 'd \<Rightarrow> int) \<Rightarrow> 'd \<Rightarrow> LstNode \<Rightarrow> nat option \<Rightarrow> ('a, 'm) heap_scheme \<Rightarrow> LstNode option" where
  "find_loop cProc d ln tln h = do {
     nd \<leftarrow> node_at h tln;
     if cProc (datum nd) d = 0 then Some tln
     else if nextPtr nd \<noteq> ln \<and> nextPtr nd \<noteq> None then find_loop cProc d ln (nextPtr nd) h
     else Some None }"

definition Lst_FindFrom ::
  "Lst \<Rightarrow> LstNode \<Rightarrow> 'd \<Rightarrow> ('a \<Rightarrow> 'd \<Rightarrow> int) \<Rightarrow> ('a, 'm) heap_scheme \<Rightarrow> LstNode option" where
  "Lst_FindFrom l ln d cProc h =
     (if l = None then Some None
      else do {
        list \<leftarrow> list_at h l;
        if firstPtr list = None \<or> ln = None then Some None else find_loop cProc d ln ln h })"

definition Lst_Find ::
  "Lst \<Rightarrow> 'd \<Rightarrow> ('a \<Rightarrow> 'd \<Rightarrow> int) \<Rightarrow> ('a, 'm) heap_scheme \<Rightarrow> LstNode option" where
  "Lst_Find l d cProc h = do { ln \<leftarrow> Lst_First l h; Lst_FindFrom l ln d cProc h }"

definition Lst_Member :: "Lst \<Rightarrow> 'a \<Rightarrow> ('a, 'm) heap_scheme \<Rightarrow> LstNode option" where
  "Lst_Member l d h = do {
     list \<leftarrow> list_at h l;
     if firstPtr list = None then Some None
     else find_loop (\<lambda>x y. if x = y then 0 else 1) d (firstPtr list) (firstPtr list) h }"

partial_function (option) foreach_loop ::
  "Lst \<Rightarrow> ('a \<Rightarrow> 'd \<Rightarrow> ('a, 'm) heap_scheme \<Rightarrow> (int \<times> ('a, 'm) heap_scheme) option) \<Rightarrow> 'd \<Rightarrow> nat option
     \<Rightarrow> ('a, 'm) heap_scheme \<Rightarrow> ('a, 'm) heap_scheme option" where
  "foreach_loop l proc d tln h = do {
     nd \<leftarrow> node_at h tln;
     let nxt = nextPtr nd;
     h \<leftarrow> node_set tln (\<lambda>x. x\<lparr>useCount := useCount x + 1\<rparr>) h;
     (res, h) \<leftarrow> proc (datum nd) d h;
     h \<leftarrow> node_set tln (\<lambda>x. x\<lparr>useCount := useCount x - 1\<rparr>) h;
     nd \<leftarrow> node_at h tln;
     list \<leftarrow> list_at h l;
     let stop = (nxt = nextPtr nd \<and> (nxt = None \<or> nxt = firstPtr list));
     h \<leftarrow> (if flags nd AND LN_DELETED \<noteq> 0 then free_node tln h else Some h);
     if res = 0 \<and> firstPtr list \<noteq> None \<and> \<not> stop then foreach_loop l proc d (nextPtr nd) h
     else Some h }"

definition Lst_ForEachFrom ::
  "Lst \<Rightarrow> LstNode \<Rightarrow> ('a \<Rightarrow> 'd \<Rightarrow> ('a, 'm) heap_scheme \<Rightarrow> (int \<times> ('a, 'm) heap_scheme) option) \<Rightarrow> 'd
     \<Rightarrow> ('a, 'm) heap_scheme \<Rightarrow> ('a, 'm) heap_scheme option" where
  "Lst_ForEachFrom l ln proc d h =
     (if l = None then Some h
      else do {
        list \<leftarrow> list_at h l;
        if firstPtr list = None then Some h else foreach_loop l proc d ln h })"

definition Lst_ForEach ::
  "Lst \<Rightarrow> ('a \<Rightarrow> 'd \<Rightarrow> ('a, 'm) heap_scheme \<Rightarrow> (int \<times> ('a, 'm) heap_scheme) option) \<Rightarrow> 'd
     \<Rightarrow> ('a, 'm) heap_scheme \<Rightarrow> ('a, 'm) heap_scheme option" where
  "Lst_ForEach l proc d h = do { ln \<leftarrow> Lst_First l h; Lst_ForEachFrom l ln proc d h }"

section \<open>Sequential access\<close>

definition Lst_Open :: "Lst \<Rightarrow> ('a, 'm) heap_scheme \<Rightarrow> (ReturnStatus \<times> ('a, 'm) heap_scheme) option" where
  "Lst_Open l h =
     (if l = None then Some (FAILURE, h)
      else map_option (\<lambda>h. (SUCCESS, h))
        (list_set l (\<lambda>x. x\<lparr>isOpen := True, atEnd := (if firstPtr x = None then Head else Unknown),
            curPtr := None\<rparr>) h))"

definition Lst_Next :: "Lst \<Rightarrow> ('a, 'm) heap_scheme \<Rightarrow> (LstNode \<times> ('a, 'm) heap_scheme) option" where
  "Lst_Next l h =
     (if l = None then Some (None, h)
      else do {
        list \<leftarrow> list_at h l;
        if \<not> isOpen list then Some (None, h)
        else let list = list\<lparr>l_prevPtr := curPtr list\<rparr> in
          if curPtr list = None then
            if atEnd list = Unknown then do {
              h \<leftarrow> list_set l (\<lambda>_. list\<lparr>curPtr := firstPtr list, atEnd := Middle\<rparr>) h;
              Some (firstPtr list, h) }
            else do {
              h \<leftarrow> list_set l (\<lambda>_. list\<lparr>atEnd := Tail\<rparr>) h;
              Some (None, h) }
          else do {
            nd \<leftarrow> node_at h (curPtr list);
            let tln = nextPtr nd;
            h \<leftarrow> list_set l (\<lambda>_. list\<lparr>curPtr := tln,
                   atEnd := (if tln = firstPtr list \<or> tln = None then Tail else Middle)\<rparr>) h;
            Some (tln, h) } })"

definition Lst_IsAtEnd :: "Lst \<Rightarrow> ('a, 'm) heap_scheme \<Rightarrow> bool option" where
  "Lst_IsAtEnd l h =
     (if l = None then Some True
      else map_option (\<lambda>list. \<not> isOpen list \<or> atEnd list = Head \<or> atEnd list = Tail) (list_at h l))"

definition Lst_Close :: "Lst \<Rightarrow> ('a, 'm) heap_scheme \<Rightarrow> ('a, 'm) heap_scheme option" where
  "Lst_Close l h =
     (if l = None then Some h else list_set l (\<lambda>x. x\<lparr>isOpen := False, atEnd := Unknown\<rparr>) h)"

section \<open>Chains of nodes\<close>

text \<open>
  \<open>linked N p ps q\<close>: the nodes at the addresses \<open>ps\<close> are chained in that order, the first one
  pointing back to \<open>p\<close> and the last one forward to \<open>q\<close>.
\<close>

definition headp :: "nat list \<Rightarrow> nat option \<Rightarrow> nat option" where
  "headp ps q = (case ps of [] \<Rightarrow> q | x # _ \<Rightarrow> Some x)"

definition lastp :: "nat list \<Rightarrow> nat option \<Rightarrow> nat option" where
  "lastp ps p = (if ps = [] then p else Some (last ps))"

lemma headp_simps [simp]: "headp [] q = q" "headp (x # xs) q = Some x"
  by (simp_all add: headp_def)

lemma lastp_simps [simp]: "lastp [] p = p" "lastp (x # xs) p = lastp xs (Some x)"
  "lastp (xs @ [y]) p = Some y"
  by (simp_all add: lastp_def)

lemma headp_append [simp]: "headp (xs @ ys) q = headp xs (headp ys q)"
  by (cases xs) simp_all

lemma lastp_append [simp]: "lastp (xs @ ys) p = lastp ys (lastp xs p)"
  by (simp add: lastp_def)

lemma headp_eq_None [simp]: "headp ps None = None \<longleftrightarrow> ps = []"
  by (cases ps) simp_all

lemma lastp_eq_None [simp]: "lastp ps None = None \<longleftrightarrow> ps = []"
  by (simp add: lastp_def)

lemma lastp_Some: "\<exists>y. lastp ps (Some x) = Some y"
  by (simp add: lastp_def)

fun linked :: "(nat \<Rightarrow> 'a ListNode option) \<Rightarrow> nat option \<Rightarrow> nat list \<Rightarrow> nat option \<Rightarrow> bool" where
  "linked N p [] q \<longleftrightarrow> True"
| "linked N p (x # xs) q \<longleftrightarrow>
     (\<exists>nd. N x = Some nd \<and> prevPtr nd = p \<and> nextPtr nd = headp xs q) \<and> linked N (Some x) xs q"

lemma linked_append [simp]:
  "linked N p (xs @ ys) q \<longleftrightarrow> linked N p xs (headp ys q) \<and> linked N (lastp xs p) ys q"
  by (induction xs arbitrary: p) auto

lemma linked_upd [simp]: "x \<notin> set ps \<Longrightarrow> linked (N(x := v)) p ps q = linked N p ps q"
  by (induction ps arbitrary: p) auto

lemma linked_cong: "\<forall>x \<in> set ps. N x = N' x \<Longrightarrow> linked N p ps q = linked N' p ps q"
  by (induction ps arbitrary: p) auto

lemma linked_alloc: "linked N p ps q \<Longrightarrow> x \<in> set ps \<Longrightarrow> \<exists>nd. N x = Some nd"
  by (induction ps arbitrary: p) auto

text \<open>Changing what the two ends of a chain point to.\<close>

lemma linked_set_prev:
  "linked N p (x # xs) q \<Longrightarrow> x \<notin> set xs \<Longrightarrow> N x = Some nd \<Longrightarrow>
     linked (N(x \<mapsto> nd\<lparr>prevPtr := p'\<rparr>)) p' (x # xs) q"
  by auto

lemma linked_set_next:
  "linked N p (xs @ [x]) q \<Longrightarrow> x \<notin> set xs \<Longrightarrow> N x = Some nd \<Longrightarrow>
     linked (N(x \<mapsto> nd\<lparr>nextPtr := q'\<rparr>)) p (xs @ [x]) q'"
  by auto

section \<open>Representation\<close>

text \<open>
  The list at address \<open>a\<close> of the heap has the nodes \<open>ps\<close>, in this order. An empty list has both
  end pointers \<open>NIL\<close>; a circular one closes its chain.
\<close>

definition closing :: "bool \<Rightarrow> nat option \<Rightarrow> nat option" where
  "closing circ p = (if circ then p else None)"

lemma closing_simps [simp]: "closing True p = p" "closing False p = None" "closing circ None = None"
  by (simp_all add: closing_def)

definition ends :: "List \<Rightarrow> bool \<Rightarrow> nat list \<Rightarrow> bool" where
  "ends l circ ps \<longleftrightarrow> isCirc l = circ \<and> firstPtr l = headp ps None \<and> lastPtr l = lastp ps None"

definition chain :: "('a, 'm) heap_scheme \<Rightarrow> bool \<Rightarrow> nat list \<Rightarrow> bool" where
  "chain h circ ps \<longleftrightarrow> distinct ps
     \<and> linked (nodes h) (closing circ (lastp ps None)) ps (closing circ (headp ps None))"

definition lst_rep :: "('a, 'm) heap_scheme \<Rightarrow> nat \<Rightarrow> bool \<Rightarrow> nat list \<Rightarrow> bool" where
  "lst_rep h a circ ps \<longleftrightarrow> 0 < a \<and> (\<exists>l. lists h a = Some l \<and> ends l circ ps) \<and> chain h circ ps"

definition heap_ok :: "('a, 'm) heap_scheme \<Rightarrow> bool" where
  "heap_ok h \<longleftrightarrow> 0 < brk h \<and> (\<forall>x \<ge> brk h. nodes h x = None \<and> lists h x = None)"

text \<open>The data of a list.\<close>

definition data :: "('a, 'm) heap_scheme \<Rightarrow> nat list \<Rightarrow> 'a list" where
  "data h ps = map (\<lambda>x. datum (the (nodes h x))) ps"

text \<open>What an operation on the list at \<open>a\<close> with the nodes \<open>X\<close> leaves alone.\<close>

definition frame :: "nat \<Rightarrow> nat set \<Rightarrow> ('a, 'm) heap_scheme \<Rightarrow> ('a, 'm) heap_scheme \<Rightarrow> bool" where
  "frame a X h h' \<longleftrightarrow> (\<forall>b. b \<noteq> a \<longrightarrow> lists h' b = lists h b)
     \<and> (\<forall>x. x \<notin> X \<longrightarrow> nodes h' x = nodes h x) \<and> junk h' = junk h \<and> brk h \<le> brk h'"

lemma lst_rep_frame:
  assumes "lst_rep h b circ ps" and "frame a X h h'" and "b \<noteq> a" and "set ps \<inter> X = {}"
  shows "lst_rep h' b circ ps" and "data h' ps = data h ps"
proof -
  have eq: "\<forall>x \<in> set ps. nodes h x = nodes h' x" using assms by (auto simp: frame_def)
  then show "data h' ps = data h ps" by (simp add: data_def)
  from eq assms show "lst_rep h' b circ ps"
    by (auto simp: lst_rep_def chain_def frame_def linked_cong [OF eq])
qed

lemma lst_rep_below:
  assumes "heap_ok h" and "lst_rep h a circ ps"
  shows "a < brk h" and "x \<in> set ps \<Longrightarrow> x < brk h"
proof -
  from assms obtain l where "lists h a = Some l" and link: "chain h circ ps"
    by (auto simp: lst_rep_def)
  then show "a < brk h" using assms(1) by (metis heap_ok_def not_le option.distinct(1))
  assume "x \<in> set ps"
  with link obtain nd where "nodes h x = Some nd" using linked_alloc by (metis chain_def)
  then show "x < brk h" using assms(1) by (metis heap_ok_def not_le option.distinct(1))
qed

lemma lst_rep_fresh:
  assumes "heap_ok h" and "lst_rep h a circ ps"
  shows "brk h \<noteq> a" and "brk h \<notin> set ps"
  using lst_rep_below [OF assms] by auto

text \<open>Evaluation of the heap operations.\<close>

lemma node_at_Some [simp]: "node_at h (Some a) = nodes h a"
  by (simp add: node_at_def)

lemma list_at_Some [simp]: "list_at h (Some a) = lists h a"
  by (simp add: list_at_def)

lemma node_set_Some [simp]:
  "nodes h a = Some n \<Longrightarrow> node_set (Some a) f h = Some (h\<lparr>nodes := (nodes h)(a \<mapsto> f n)\<rparr>)"
  by (simp add: node_set_def)

lemma list_set_Some [simp]:
  "lists h a = Some l \<Longrightarrow> list_set (Some a) f h = Some (h\<lparr>lists := (lists h)(a \<mapsto> f l)\<rparr>)"
  by (simp add: list_set_def)

lemma free_node_Some [simp]:
  "nodes h a = Some n \<Longrightarrow> free_node (Some a) h = Some (h\<lparr>nodes := (nodes h)(a := None)\<rparr>)"
  by (simp add: free_node_def)

lemma free_list_Some [simp]:
  "lists h a = Some l \<Longrightarrow> free_list (Some a) h = Some (h\<lparr>lists := (lists h)(a := None)\<rparr>)"
  by (simp add: free_list_def)

text \<open>Nodes and list heads keep to themselves.\<close>

lemma chain_lists [simp]: "chain (h\<lparr>lists := L\<rparr>) circ ps = chain h circ ps"
  by (simp add: chain_def)

lemma data_lists [simp]: "data (h\<lparr>lists := L\<rparr>) ps = data h ps"
  by (simp add: data_def)

lemma heap_ok_nodes:
  "heap_ok h \<Longrightarrow> (\<forall>x \<ge> brk h. N x = None) \<Longrightarrow> heap_ok (h\<lparr>nodes := N\<rparr>)"
  by (simp add: heap_ok_def)

lemma heap_ok_lists:
  "heap_ok h \<Longrightarrow> a < brk h \<Longrightarrow> heap_ok (h\<lparr>lists := (lists h)(a := v)\<rparr>)"
  by (simp add: heap_ok_def)

lemma heap_ok_node:
  "heap_ok h \<Longrightarrow> a < brk h \<Longrightarrow> heap_ok (h\<lparr>nodes := (nodes h)(a := v)\<rparr>)"
  by (simp add: heap_ok_def)

lemma heap_ok_new: "heap_ok h \<Longrightarrow> heap_ok (new_node n h)"
  by (simp add: heap_ok_def new_node_def)

section \<open>Growing a list\<close>

lemma Lst_Init_rep:
  assumes "heap_ok h" and "Lst_Init circ h = (l, h')"
  shows "l = Some (brk h) \<and> lst_rep h' (brk h) circ [] \<and> heap_ok h' \<and> frame (brk h) {} h h'"
  using assms
  by (auto simp: Lst_Init_def lst_rep_def ends_def chain_def heap_ok_def frame_def)

lemma Lst_First_rep: "lst_rep h a circ ps \<Longrightarrow> Lst_First (Some a) h = Some (headp ps None)"
  by (auto simp: Lst_First_def lst_rep_def ends_def)

lemma Lst_Last_rep: "lst_rep h a circ ps \<Longrightarrow> Lst_Last (Some a) h = Some (lastp ps None)"
  by (cases ps) (auto simp: Lst_Last_def lst_rep_def ends_def)

text \<open>
  The outcome of adding a node to the list \<open>xs @ ys\<close> between the two parts: the new heap
  represents the longer list, with the new datum in its place, and nothing else has changed.
\<close>

definition grown ::
  "nat \<Rightarrow> bool \<Rightarrow> nat list \<Rightarrow> nat list \<Rightarrow> 'a \<Rightarrow> ('a, 'm) heap_scheme \<Rightarrow> ('a, 'm) heap_scheme \<Rightarrow> bool" where
  "grown a circ xs ys d h h' \<longleftrightarrow>
     lst_rep h' a circ (xs @ brk h # ys)
     \<and> data h' (xs @ brk h # ys) = data h xs @ d # data h ys
     \<and> heap_ok h' \<and> frame a (insert (brk h) (set (xs @ ys))) h h' \<and> more h' = more h"

text \<open>A chain with its closing pointers.\<close>

definition ring :: "(nat \<Rightarrow> 'a ListNode option) \<Rightarrow> bool \<Rightarrow> nat list \<Rightarrow> bool" where
  "ring N circ ps \<longleftrightarrow> linked N (closing circ (lastp ps None)) ps (closing circ (headp ps None))"

lemma chain_ring: "chain h circ ps \<longleftrightarrow> distinct ps \<and> ring (nodes h) circ ps"
  by (simp add: chain_def ring_def)

abbreviation fresh_node :: "nat option \<Rightarrow> nat option \<Rightarrow> 'a \<Rightarrow> 'a ListNode" where
  "fresh_node p q d \<equiv> \<lparr>prevPtr = p, nextPtr = q, useCount = 0, flags = 0, datum = d\<rparr>"

lemma ring_after:
  assumes ring: "ring N circ (zs @ x # ys)" and dist: "distinct (zs @ x # ys)"
    and n: "n \<notin> set (zs @ x # ys)" and nx: "N x = Some nx"
  shows "nextPtr nx = None \<Longrightarrow>
      ring (N(n \<mapsto> fresh_node (Some x) None d, x \<mapsto> nx\<lparr>nextPtr := Some n\<rparr>)) circ (zs @ x # n # ys)"
    and "nextPtr nx = Some y \<Longrightarrow> \<exists>ny. (N(x \<mapsto> nx\<lparr>nextPtr := Some n\<rparr>)) y = Some ny \<and> y \<in> set (zs @ x # ys)
      \<and> ring (N(n \<mapsto> fresh_node (Some x) (Some y) d, x \<mapsto> nx\<lparr>nextPtr := Some n\<rparr>,
          y \<mapsto> ny\<lparr>prevPtr := Some n\<rparr>)) circ (zs @ x # n # ys)"
proof -
  have q: "nextPtr nx = headp ys (closing circ (headp (zs @ [x]) None))"
    using ring nx by (simp add: ring_def)
  show "ring (N(n \<mapsto> fresh_node (Some x) None d, x \<mapsto> nx\<lparr>nextPtr := Some n\<rparr>)) circ (zs @ x # n # ys)"
    if "nextPtr nx = None"
  proof -
    from that q have "ys = []" "circ = False" by (cases ys; cases zs; auto simp: closing_def split: if_splits)+
    with ring dist n nx show ?thesis by (auto simp: ring_def)
  qed
  show "\<exists>ny. (N(x \<mapsto> nx\<lparr>nextPtr := Some n\<rparr>)) y = Some ny \<and> y \<in> set (zs @ x # ys)
      \<and> ring (N(n \<mapsto> fresh_node (Some x) (Some y) d, x \<mapsto> nx\<lparr>nextPtr := Some n\<rparr>,
          y \<mapsto> ny\<lparr>prevPtr := Some n\<rparr>)) circ (zs @ x # n # ys)" if y: "nextPtr nx = Some y"
  proof (cases ys)
    case Nil
    with y q have c: circ by (simp add: closing_def split: if_splits)
    show ?thesis
      using Nil c y q ring dist n nx by (cases zs) (auto simp: ring_def)
  next
    case (Cons y' ys')
    with y q ring dist n nx show ?thesis by (auto simp: ring_def)
  qed
qed

lemma data_cong:
  assumes "\<forall>x \<in> set ps. map_option datum (N' x) = map_option datum (nodes h x)"
    and "\<forall>x \<in> set ps. nodes h x \<noteq> None" and "nodes h' = N'"
  shows "data h' ps = data h ps"
proof -
  have "datum (the (nodes h' x)) = datum (the (nodes h x))" if "x \<in> set ps" for x
    using assms that by (cases "nodes h x"; cases "N' x") fastforce+
  then show ?thesis by (simp add: data_def)
qed

lemma ring_alloc: "ring N circ ps \<Longrightarrow> x \<in> set ps \<Longrightarrow> N x \<noteq> None"
  using linked_alloc by (fastforce simp: ring_def)

lemma grownI:
  assumes ok: "heap_ok h" and rep: "lst_rep h a circ (xs @ ys)"
    and h': "nodes h' = N'" "lists h' = (lists h)(a \<mapsto> l')" "brk h' = Suc (brk h)"
      "junk h' = junk h" "more h' = more h"
    and l': "ends l' circ (xs @ brk h # ys)" and ring: "ring N' circ (xs @ brk h # ys)"
    and old: "\<forall>x \<in> set (xs @ ys). map_option datum (N' x) = map_option datum (nodes h x)"
    and new: "map_option datum (N' (brk h)) = Some d"
    and out: "\<forall>x. x \<notin> set (xs @ ys) \<longrightarrow> x \<noteq> brk h \<longrightarrow> N' x = nodes h x"
  shows "grown a circ xs ys d h h'"
proof -
  note below = lst_rep_below [OF ok rep] and fresh = lst_rep_fresh [OF ok rep]
  have alloc: "\<forall>x \<in> set (xs @ ys). nodes h x \<noteq> None"
    using rep ring_alloc [of "nodes h" circ "xs @ ys"] by (auto simp: lst_rep_def chain_ring)
  have "distinct (xs @ brk h # ys)" using rep fresh by (auto simp: lst_rep_def chain_def)
  then have "lst_rep h' a circ (xs @ brk h # ys)"
    using rep h' l' ring by (auto simp: lst_rep_def chain_ring)
  moreover have "data h' (xs @ brk h # ys) = data h xs @ d # data h ys"
    using data_cong [OF _ _ h'(1), of xs h] data_cong [OF _ _ h'(1), of ys h] old alloc new
    by (auto simp: data_def h'(1))
  moreover have "heap_ok h'"
  proof -
    have "nodes h' x = None \<and> lists h' x = None" if "Suc (brk h) \<le> x" for x
    proof -
      have "x \<notin> set (xs @ ys)" "x \<noteq> a" "x \<noteq> brk h" using below that by fastforce+
      with out ok that show ?thesis by (simp add: h'(1,2) heap_ok_def)
    qed
    then show ?thesis by (simp add: heap_ok_def h'(3))
  qed
  moreover have "frame a (insert (brk h) (set (xs @ ys))) h h'"
    using h' out by (auto simp: frame_def)
  ultimately show ?thesis using h' by (simp add: grown_def)
qed

lemma Lst_Append_grown:
  assumes ok: "heap_ok h" and rep: "lst_rep h a circ (xs @ ys)"
    and at: "ln = lastp xs None" and gap: "xs = [] \<Longrightarrow> ys = []"
  shows "\<exists>h'. Lst_Append (Some a) ln d h = Some (SUCCESS, h') \<and> grown a circ xs ys d h h'"
proof -
  from rep obtain l where l: "lists h a = Some l" "ends l circ (xs @ ys)"
    by (auto simp: lst_rep_def)
  note fresh = lst_rep_fresh [OF ok rep]
  show ?thesis
  proof (cases "xs = []")
    case True
    let ?n = "Some (brk h)"
    let ?h = "h\<lparr>nodes := (nodes h)(brk h \<mapsto> fresh_node (closing circ ?n) (closing circ ?n) d),
      brk := Suc (brk h), lists := (lists h)(a \<mapsto> l\<lparr>firstPtr := ?n, lastPtr := ?n\<rparr>)\<rparr>"
    have "Lst_Append (Some a) ln d h = Some (SUCCESS, ?h)"
      using True gap at l by (simp add: Lst_Append_def ends_def new_node_def closing_def Let_def)
    moreover have "grown a circ xs ys d h ?h"
      by (rule grownI [OF ok rep refl, where l' = "l\<lparr>firstPtr := ?n, lastPtr := ?n\<rparr>"]) (use True gap l in \<open>simp_all add: ends_def ring_def\<close>)
    ultimately show ?thesis by blast
  next
    case False
    then obtain zs x where xs: "xs = zs @ [x]" by (metis rev_exhaust)
    from rep have dist: "distinct (zs @ x # ys)" and ring: "ring (nodes h) circ (zs @ x # ys)"
      by (auto simp: lst_rep_def chain_ring xs)
    obtain nx where nx: "nodes h x = Some nx"
      using ring by (auto simp: ring_def)
    have n: "brk h \<notin> set (zs @ x # ys)" using fresh by (simp add: xs)
    let ?l = "if ys = [] then l\<lparr>lastPtr := Some (brk h)\<rparr> else l"
    have first: "firstPtr l \<noteq> None" and last: "ys = [] \<Longrightarrow> lastPtr l = Some x" "ys \<noteq> [] \<Longrightarrow> Some x \<noteq> lastPtr l"
      using l(2) dist by (cases zs; auto simp: ends_def xs lastp_def)+
    have l': "ends ?l circ (xs @ brk h # ys)"
      using l(2) by (cases zs) (auto simp: ends_def xs lastp_def)
    show ?thesis
    proof (cases "nextPtr nx")
      case None
      let ?N = "(nodes h)(brk h \<mapsto> fresh_node (Some x) None d, x \<mapsto> nx\<lparr>nextPtr := Some (brk h)\<rparr>)"
      let ?h = "h\<lparr>nodes := ?N, brk := Suc (brk h), lists := (lists h)(a \<mapsto> ?l)\<rparr>"
      have "Lst_Append (Some a) ln d h = Some (SUCCESS, ?h)"
        using at l(1) first last nx None n
        by (cases "ys = []") (auto simp: Lst_Append_def xs new_node_def fun_upd_idem Let_def)
      moreover have "grown a circ xs ys d h ?h"
        by (rule grownI [OF ok rep refl, where l' = ?l])
          (use ring_after(1) [OF ring dist n nx None] l' nx n in \<open>simp_all add: xs\<close>)
      ultimately show ?thesis by blast
    next
      case (Some y)
      from ring_after(2) [OF ring dist n nx Some, of d] obtain ny where
        y: "((nodes h)(x \<mapsto> nx\<lparr>nextPtr := Some (brk h)\<rparr>)) y = Some ny" "y \<in> set (zs @ x # ys)"
        and ring': "ring ((nodes h)(brk h \<mapsto> fresh_node (Some x) (Some y) d,
          x \<mapsto> nx\<lparr>nextPtr := Some (brk h)\<rparr>, y \<mapsto> ny\<lparr>prevPtr := Some (brk h)\<rparr>)) circ (zs @ x # brk h # ys)"
        by blast
      let ?N = "(nodes h)(brk h \<mapsto> fresh_node (Some x) (Some y) d,
          x \<mapsto> nx\<lparr>nextPtr := Some (brk h)\<rparr>, y \<mapsto> ny\<lparr>prevPtr := Some (brk h)\<rparr>)"
      let ?h = "h\<lparr>nodes := ?N, brk := Suc (brk h), lists := (lists h)(a \<mapsto> ?l)\<rparr>"
      have "y \<noteq> brk h" using y(2) n by auto
      then have "Lst_Append (Some a) ln d h = Some (SUCCESS, ?h)"
        using at l(1) first last nx Some n y(1)
        by (cases "y = x"; cases "ys = []") (auto simp: Lst_Append_def xs new_node_def fun_upd_idem Let_def)
      moreover have "grown a circ xs ys d h ?h"
        by (rule grownI [OF ok rep refl, where l' = ?l])
          (use ring' l' nx n y in \<open>auto simp: xs\<close>)
      ultimately show ?thesis by blast
    qed
  qed
qed

text \<open>Adding before a node mirrors adding behind one.\<close>

lemma ring_before:
  assumes ring: "ring N circ (xs @ x # zs)" and dist: "distinct (xs @ x # zs)"
    and n: "n \<notin> set (xs @ x # zs)" and nx: "N x = Some nx"
  shows "prevPtr nx = None \<Longrightarrow>
      ring (N(n \<mapsto> fresh_node None (Some x) d, x \<mapsto> nx\<lparr>prevPtr := Some n\<rparr>)) circ (xs @ n # x # zs)"
    and "prevPtr nx = Some y \<Longrightarrow> \<exists>ny nx'. N y = Some ny \<and> y \<in> set (xs @ x # zs)
      \<and> (N(y \<mapsto> ny\<lparr>nextPtr := Some n\<rparr>)) x = Some nx' \<and> datum nx' = datum nx
      \<and> ring (N(n \<mapsto> fresh_node (Some y) (Some x) d, y \<mapsto> ny\<lparr>nextPtr := Some n\<rparr>,
          x \<mapsto> nx'\<lparr>prevPtr := Some n\<rparr>)) circ (xs @ n # x # zs)"
proof -
  have q: "prevPtr nx = lastp xs (closing circ (lastp (x # zs) None))"
    using ring nx by (simp add: ring_def lastp_def)
  show "ring (N(n \<mapsto> fresh_node None (Some x) d, x \<mapsto> nx\<lparr>prevPtr := Some n\<rparr>)) circ (xs @ n # x # zs)"
    if "prevPtr nx = None"
  proof -
    from that q have "xs = []" "circ = False"
      by (cases zs rule: rev_cases; auto simp: lastp_def closing_def split: if_splits)+
    with ring dist n nx show ?thesis by (auto simp: ring_def)
  qed
  show "\<exists>ny nx'. N y = Some ny \<and> y \<in> set (xs @ x # zs)
      \<and> (N(y \<mapsto> ny\<lparr>nextPtr := Some n\<rparr>)) x = Some nx' \<and> datum nx' = datum nx
      \<and> ring (N(n \<mapsto> fresh_node (Some y) (Some x) d, y \<mapsto> ny\<lparr>nextPtr := Some n\<rparr>,
          x \<mapsto> nx'\<lparr>prevPtr := Some n\<rparr>)) circ (xs @ n # x # zs)" if y: "prevPtr nx = Some y"
  proof (cases xs rule: rev_cases)
    case Nil
    with y q have c: circ by (simp add: closing_def split: if_splits)
    show ?thesis
      using Nil c y q ring dist n nx by (cases zs rule: rev_cases) (auto simp: ring_def)
  next
    case (snoc xs' y')
    with y q ring dist n nx show ?thesis by (auto simp: ring_def)
  qed
qed

lemma Lst_Insert_grown:
  assumes ok: "heap_ok h" and rep: "lst_rep h a circ (xs @ ys)"
    and at: "ln = headp ys None" and gap: "ys = [] \<Longrightarrow> xs = []"
  shows "\<exists>h'. Lst_Insert (Some a) ln d h = Some (SUCCESS, h') \<and> grown a circ xs ys d h h'"
proof (cases ys)
  case Nil
  then have "Lst_Insert (Some a) ln d h = Lst_Append (Some a) ln d h"
    using rep at gap by (auto simp: Lst_Insert_def Lst_Append_def lst_rep_def ends_def)
  with Lst_Append_grown [OF ok rep, of ln d] at gap Nil show ?thesis by simp
next
  case (Cons x zs)
  from rep obtain l where l: "lists h a = Some l" "ends l circ (xs @ ys)"
    by (auto simp: lst_rep_def)
  from rep have dist: "distinct (xs @ x # zs)" and ring: "ring (nodes h) circ (xs @ x # zs)"
    by (auto simp: lst_rep_def chain_ring Cons)
  obtain nx where nx: "nodes h x = Some nx"
    using ring by (auto simp: ring_def)
  have n: "brk h \<notin> set (xs @ x # zs)" using lst_rep_fresh [OF ok rep] by (simp add: Cons)
  let ?l = "if xs = [] then l\<lparr>firstPtr := Some (brk h)\<rparr> else l"
  have first: "Some x = firstPtr l \<longleftrightarrow> xs = []" "firstPtr l \<noteq> None"
    using l(2) dist by (cases xs; auto simp: ends_def Cons)+
  have l': "ends ?l circ (xs @ brk h # ys)"
    using l(2) by (cases xs) (auto simp: ends_def Cons lastp_def)
  show ?thesis
  proof (cases "prevPtr nx")
    case None
    let ?N = "(nodes h)(brk h \<mapsto> fresh_node None (Some x) d, x \<mapsto> nx\<lparr>prevPtr := Some (brk h)\<rparr>)"
    let ?h = "h\<lparr>nodes := ?N, brk := Suc (brk h), lists := (lists h)(a \<mapsto> ?l)\<rparr>"
    have "Lst_Insert (Some a) ln d h = Some (SUCCESS, ?h)"
      using at l(1) first nx None n by (auto simp: Lst_Insert_def Cons new_node_def fun_upd_idem Let_def)
    moreover have "grown a circ xs ys d h ?h"
      by (rule grownI [OF ok rep refl, where l' = ?l])
        (use ring_before(1) [OF ring dist n nx None] l' nx n in \<open>simp_all add: Cons\<close>)
    ultimately show ?thesis by blast
  next
    case (Some y)
    from ring_before(2) [OF ring dist n nx Some, of d] obtain ny nx' where
      y: "nodes h y = Some ny" "y \<in> set (xs @ x # zs)"
        "((nodes h)(y \<mapsto> ny\<lparr>nextPtr := Some (brk h)\<rparr>)) x = Some nx'" "datum nx' = datum nx"
      and ring': "ring ((nodes h)(brk h \<mapsto> fresh_node (Some y) (Some x) d,
        y \<mapsto> ny\<lparr>nextPtr := Some (brk h)\<rparr>, x \<mapsto> nx'\<lparr>prevPtr := Some (brk h)\<rparr>)) circ (xs @ brk h # x # zs)"
      by blast
    let ?N = "(nodes h)(brk h \<mapsto> fresh_node (Some y) (Some x) d,
        y \<mapsto> ny\<lparr>nextPtr := Some (brk h)\<rparr>, x \<mapsto> nx'\<lparr>prevPtr := Some (brk h)\<rparr>)"
    let ?h = "h\<lparr>nodes := ?N, brk := Suc (brk h), lists := (lists h)(a \<mapsto> ?l)\<rparr>"
    have "y \<noteq> brk h" using y(2) n by auto
    then have "Lst_Insert (Some a) ln d h = Some (SUCCESS, ?h)"
      using at l(1) first nx Some n y
      by (auto simp: Lst_Insert_def Cons new_node_def fun_upd_idem Let_def split: if_splits)
    moreover have "grown a circ xs ys d h ?h"
      by (rule grownI [OF ok rep refl, where l' = ?l])
        (use ring' l' nx n y in \<open>auto simp: Cons\<close>)
    ultimately show ?thesis by blast
  qed
qed

section \<open>Shrinking a list\<close>

text \<open>What \<open>Lst_Remove\<close> does to the neighbours of the node it takes out.\<close>

definition bypass_next :: "'a ListNode \<Rightarrow> (nat \<Rightarrow> 'a ListNode option) \<Rightarrow> nat \<Rightarrow> 'a ListNode option" where
  "bypass_next nx N = (case nextPtr nx of None \<Rightarrow> N
     | Some y \<Rightarrow> N(y \<mapsto> (the (N y))\<lparr>prevPtr := prevPtr nx\<rparr>))"

definition bypass_prev :: "'a ListNode \<Rightarrow> (nat \<Rightarrow> 'a ListNode option) \<Rightarrow> nat \<Rightarrow> 'a ListNode option" where
  "bypass_prev nx N = (case prevPtr nx of None \<Rightarrow> N
     | Some z \<Rightarrow> N(z \<mapsto> (the (N z))\<lparr>nextPtr := nextPtr nx\<rparr>))"

lemma ring_neighbours:
  assumes "ring N circ (xs @ x # ys)" and "distinct (xs @ x # ys)" and "N x = Some nx"
    and "\<not> (circ \<and> xs @ ys = [])"
  shows "nextPtr nx = Some y \<Longrightarrow> y \<in> set (xs @ ys) \<and> N y \<noteq> None \<and> y \<noteq> x"
    and "prevPtr nx = Some z \<Longrightarrow> z \<in> set (xs @ ys) \<and> N z \<noteq> None \<and> z \<noteq> x"
proof -
  have alloc: "\<And>w. w \<in> set (xs @ ys) \<Longrightarrow> N w \<noteq> None"
    using ring_alloc [OF assms(1)] by auto
  have next_in: "y \<in> set (xs @ ys)" if "nextPtr nx = Some y" for y
    using assms that by (cases ys; cases xs) (auto simp: ring_def closing_def split: if_splits)
  have prev_in: "z \<in> set (xs @ ys)" if "prevPtr nx = Some z" for z
    using assms that
    by (cases xs rule: rev_cases; cases ys rule: rev_cases)
      (auto simp: ring_def closing_def split: if_splits)
  show "y \<in> set (xs @ ys) \<and> N y \<noteq> None \<and> y \<noteq> x" if "nextPtr nx = Some y"
    using next_in [OF that] alloc assms(2) by auto
  show "z \<in> set (xs @ ys) \<and> N z \<noteq> None \<and> z \<noteq> x" if "prevPtr nx = Some z"
    using prev_in [OF that] alloc assms(2) by auto
qed

lemma ring_bypass:
  assumes "ring N circ (xs @ x # ys)" and "distinct (xs @ x # ys)" and "N x = Some nx"
    and "\<not> (circ \<and> xs @ ys = [])"
  shows "ring (bypass_prev nx (bypass_next nx N)) circ (xs @ ys)"
proof (cases ys)
  case ys: Nil
  show ?thesis
  proof (cases xs rule: rev_cases)
    case Nil
    with assms ys show ?thesis by (simp add: ring_def)
  next
    case (snoc ws w)
    with assms ys show ?thesis
      by (cases ws) (auto simp: ring_def bypass_prev_def bypass_next_def closing_def split: if_splits)
  qed
next
  case (Cons y ys')
  with assms show ?thesis
    by (cases xs rule: rev_cases; cases ys' rule: rev_cases)
      (auto simp: ring_def bypass_prev_def bypass_next_def closing_def split: if_splits)
qed

lemma bypass_same:
  assumes "ring N circ (xs @ x # ys)" and "distinct (xs @ x # ys)" and "N x = Some nx"
    and "\<not> (circ \<and> xs @ ys = [])"
  defines "N' \<equiv> bypass_prev nx (bypass_next nx N)"
  shows "w \<notin> set (xs @ ys) \<Longrightarrow> N' w = N w" and "map_option datum (N' w) = map_option datum (N w)"
    and "map_option useCount (N' w) = map_option useCount (N w)"
  using ring_neighbours [OF assms(1-4)]
  by (auto simp: N'_def bypass_prev_def bypass_next_def split: option.splits)

text \<open>The list head after the removal of node \<open>x\<close> with contents \<open>nx\<close>.\<close>

definition head_without :: "nat \<Rightarrow> 'a ListNode \<Rightarrow> List \<Rightarrow> List" where
  "head_without x nx l =
     (let l = (if firstPtr l = Some x then l\<lparr>firstPtr := nextPtr nx\<rparr> else l);
          l = (if lastPtr l = Some x then l\<lparr>lastPtr := prevPtr nx\<rparr> else l)
      in if isOpen l \<and> curPtr l = Some x
         then l\<lparr>curPtr := l_prevPtr l, atEnd := (if l_prevPtr l = None then Unknown else atEnd l)\<rparr>
         else l)"

lemma ends_head_without:
  assumes "ends l circ (xs @ x # ys)" and "ring N circ (xs @ x # ys)" and "distinct (xs @ x # ys)"
    and "N x = Some nx" and "\<not> (circ \<and> xs @ ys = [])"
  shows "ends (head_without x nx l) circ (xs @ ys)" and "firstPtr (head_without x nx l) \<noteq> Some x"
proof -
  have f: "firstPtr l = headp xs (Some x)" and la: "lastPtr l = lastp ys (Some x)"
    and n: "nextPtr nx = headp ys (closing circ (headp xs (Some x)))"
    and p: "prevPtr nx = lastp xs (closing circ (lastp ys (Some x)))"
    and c: "isCirc l = circ"
    using assms by (auto simp: ends_def ring_def lastp_def)
  have F: "firstPtr (head_without x nx l) = headp xs (headp ys None)"
    using f n assms(3,5) by (cases xs; cases ys) (auto simp: head_without_def Let_def closing_def)
  have L: "lastPtr (head_without x nx l) = lastp ys (lastp xs None)"
    using la p assms(3,5)
    by (cases xs rule: rev_cases; cases ys rule: rev_cases)
      (auto simp: head_without_def Let_def closing_def)
  from F L c show "ends (head_without x nx l) circ (xs @ ys)"
    by (auto simp: ends_def head_without_def Let_def)
  from F assms(3) show "firstPtr (head_without x nx l) \<noteq> Some x"
    by (cases xs; cases ys) auto
qed

definition shrunk ::
  "nat \<Rightarrow> bool \<Rightarrow> nat list \<Rightarrow> nat \<Rightarrow> nat list \<Rightarrow> ('a, 'm) heap_scheme \<Rightarrow> ('a, 'm) heap_scheme \<Rightarrow> bool" where
  "shrunk a circ xs x ys h h' \<longleftrightarrow>
     lst_rep h' a circ (xs @ ys) \<and> data h' (xs @ ys) = data h xs @ data h ys
     \<and> heap_ok h' \<and> frame a (set (xs @ x # ys)) h h' \<and> more h' = more h \<and> brk h' = brk h
     \<and> lists h' a = map_option (head_without x (the (nodes h x))) (lists h a)
     \<and> (\<forall>w. w \<noteq> x \<longrightarrow> map_option useCount (nodes h' w) = map_option useCount (nodes h w))"

lemma Lst_Remove_eval:
  assumes l: "lists h a = Some l" and nx: "nodes h x = Some nx"
    and nb: "\<And>y. nextPtr nx = Some y \<Longrightarrow> nodes h y \<noteq> None \<and> y \<noteq> x"
      "\<And>z. prevPtr nx = Some z \<Longrightarrow> nodes h z \<noteq> None \<and> z \<noteq> x"
    and first: "firstPtr (head_without x nx l) \<noteq> Some x"
  defines "N \<equiv> bypass_prev nx (bypass_next nx (nodes h))"
  shows "Lst_Remove (Some a) (Some x) h = Some (SUCCESS,
    h\<lparr>nodes := N(x := (if useCount nx = 0 then None else Some (nx\<lparr>flags := flags nx OR LN_DELETED\<rparr>))),
      lists := (lists h)(a \<mapsto> head_without x nx l)\<rparr>)"
proof -
  let ?h1 = "h\<lparr>nodes := bypass_next nx (nodes h)\<rparr>"
  have s1: "(if nextPtr nx \<noteq> None
      then node_set (nextPtr nx) (\<lambda>x. x\<lparr>prevPtr := prevPtr nx\<rparr>) h else Some h) = Some ?h1"
    using nb(1) by (cases "nextPtr nx") (auto simp: bypass_next_def)
  have x1: "bypass_next nx (nodes h) x = Some nx"
    using nb(1) nx by (auto simp: bypass_next_def split: option.splits)
  have s2: "(if prevPtr nx \<noteq> None
      then node_set (prevPtr nx) (\<lambda>x. x\<lparr>nextPtr := nextPtr nx\<rparr>) ?h1 else Some ?h1)
      = Some (h\<lparr>nodes := N\<rparr>)"
    using nb by (cases "prevPtr nx"; cases "nextPtr nx") (auto simp: N_def bypass_next_def bypass_prev_def)
  have x2: "N x = Some nx"
    using nb(2) x1 by (auto simp: N_def bypass_prev_def split: option.splits)
  show ?thesis
    using first nx l s1 x1 s2 x2
    by (simp add: Lst_Remove_def head_without_def Let_def)
qed

lemma Lst_Remove_shrunk:
  assumes ok: "heap_ok h" and rep: "lst_rep h a circ (xs @ x # ys)"
    and sole: "\<not> (circ \<and> xs @ ys = [])" and nx: "nodes h x = Some nx"
  shows "\<exists>h'. Lst_Remove (Some a) (Some x) h = Some (SUCCESS, h') \<and> shrunk a circ xs x ys h h'
    \<and> nodes h' x = (if useCount nx = 0 then None else Some (nx\<lparr>flags := flags nx OR LN_DELETED\<rparr>))"
proof -
  from rep obtain l where l: "lists h a = Some l" "ends l circ (xs @ x # ys)" "0 < a"
    and dist: "distinct (xs @ x # ys)" and ring: "ring (nodes h) circ (xs @ x # ys)"
    by (auto simp: lst_rep_def chain_ring)
  note E = ends_head_without [OF l(2) ring dist nx sole]
  define N where "N = bypass_prev nx (bypass_next nx (nodes h))"
  note same = bypass_same [OF ring dist nx sole, folded N_def]
  define v where "v = (if useCount nx = 0 then None else Some (nx\<lparr>flags := flags nx OR LN_DELETED\<rparr>))"
  let ?h = "h\<lparr>nodes := N(x := v), lists := (lists h)(a \<mapsto> head_without x nx l)\<rparr>"
  have ev: "Lst_Remove (Some a) (Some x) h = Some (SUCCESS, ?h)"
    using Lst_Remove_eval [OF l(1) nx _ _ E(2)] ring_neighbours [OF ring dist nx sole]
    by (simp add: N_def v_def)
  have rep': "lst_rep ?h a circ (xs @ ys)"
    using l E(1) dist ring_bypass [OF ring dist nx sole] by (auto simp: lst_rep_def chain_ring N_def ring_def)
  have "data ?h (xs @ ys) = data h (xs @ ys)"
    using dist ring_alloc [OF ring] same(2) by (intro data_cong [of _ "N(x := v)"]) auto
  then have dat: "data ?h (xs @ ys) = data h xs @ data h ys" by (simp add: data_def)
  have "heap_ok ?h"
  proof -
    have "x < brk h" "a < brk h" using lst_rep_below [OF ok rep] by simp_all
    moreover have "N w = None" if "brk h \<le> w" for w
      using same(1) [of w] lst_rep_below(2) [OF ok rep, of w] that ok by (fastforce simp: heap_ok_def)
    ultimately show ?thesis using ok by (simp add: heap_ok_def)
  qed
  moreover have "frame a (set (xs @ x # ys)) h ?h"
    using same(1) by (auto simp: frame_def)
  ultimately have "shrunk a circ xs x ys h ?h"
    using rep' dat l nx same(3) by (simp add: shrunk_def)
  with ev show ?thesis by (auto simp: v_def)
qed

lemma Lst_DeQueue_rep:
  assumes ok: "heap_ok h" and rep: "lst_rep h a circ (x # ys)" and sole: "\<not> (circ \<and> ys = [])"
  shows "\<exists>h'. Lst_DeQueue (Some a) h = Some (Some (hd (data h (x # ys))), h')
    \<and> shrunk a circ [] x ys h h'"
proof -
  obtain nx where nx: "nodes h x = Some nx" using rep by (auto simp: lst_rep_def chain_def)
  show ?thesis
    using Lst_Remove_shrunk [OF ok, of a circ "[]" x ys nx] rep sole nx
    by (auto simp: Lst_DeQueue_def Lst_First_rep [OF rep] data_def)
qed

lemma Lst_DeQueue_empty: "lst_rep h a circ [] \<Longrightarrow> Lst_DeQueue (Some a) h = Some (None, h)"
  using Lst_First_rep [of h a circ "[]"] by (simp add: Lst_DeQueue_def)

lemma Lst_EnQueue_rep:
  assumes ok: "heap_ok h" and rep: "lst_rep h a circ ps"
  shows "\<exists>h'. Lst_EnQueue (Some a) d h = Some (SUCCESS, h') \<and> grown a circ ps [] d h h'"
  using Lst_Append_grown [OF ok, of a circ ps "[]" _ d] rep
  by (auto simp: Lst_EnQueue_def Lst_Last_rep [OF rep])

lemma Lst_AtEnd_rep:
  assumes ok: "heap_ok h" and rep: "lst_rep h a circ ps"
  shows "\<exists>h'. Lst_AtEnd (Some a) d h = Some (SUCCESS, h') \<and> grown a circ ps [] d h h'"
  using Lst_EnQueue_rep [OF assms] by (simp add: Lst_AtEnd_def Lst_EnQueue_def)

lemma Lst_AtFront_rep:
  assumes ok: "heap_ok h" and rep: "lst_rep h a circ ps"
  shows "\<exists>h'. Lst_AtFront (Some a) d h = Some (SUCCESS, h') \<and> grown a circ [] ps d h h'"
  using Lst_Insert_grown [OF ok, of a circ "[]" ps _ d] rep
  by (auto simp: Lst_AtFront_def Lst_First_rep [OF rep])

text \<open>
  The one removal that does not restore the representation: the last node of a circular list
  is freed while \<open>lastPtr\<close> still points to it.
\<close>

lemma Lst_Remove_sole:
  assumes ok: "heap_ok h" and rep: "lst_rep h a True [x]" and use0: "map_option useCount (nodes h x) = Some 0"
  shows "\<exists>h' l'. Lst_Remove (Some a) (Some x) h = Some (SUCCESS, h') \<and> lists h' a = Some l'
    \<and> firstPtr l' = None \<and> lastPtr l' = Some x \<and> nodes h' x = None \<and> Lst_Destroy (Some a) f h' = None"
  using rep use0
  by (auto simp: Lst_Remove_def Lst_Destroy_def lst_rep_def ends_def chain_def node_set_def)

end
