(* ===== verification/Glish_Interfaces.thy ===== *)
theory Glish_Interfaces
  imports Glish_Prelude
begin

text \<open>
  The contracts several components promise, as locales over an abstraction relation: a first-in
  first-out queue, and a table of values under string keys. Operations return \<open>None\<close> where the C
  code behind them would touch invalid memory, so every law also says that this does not happen.
\<close>

section \<open>Queues\<close>

locale fifo =
  fixes rep :: "'s \<Rightarrow> 'a list \<Rightarrow> bool"
    and enq :: "'a \<Rightarrow> 's \<Rightarrow> 's option"
    and deq :: "'s \<Rightarrow> ('a option \<times> 's) option"
  assumes enq_rep: "rep s xs \<Longrightarrow> \<exists>s'. enq x s = Some s' \<and> rep s' (xs @ [x])"
    and deq_rep: "rep s (x # xs) \<Longrightarrow> \<exists>s'. deq s = Some (Some x, s') \<and> rep s' xs"
    and deq_empty: "rep s [] \<Longrightarrow> \<exists>s'. deq s = Some (None, s') \<and> rep s' []"
begin

fun enq_all :: "'a list \<Rightarrow> 's \<Rightarrow> 's option" where
  "enq_all [] s = Some s"
| "enq_all (x # xs) s = do { s \<leftarrow> enq x s; enq_all xs s }"

fun deq_all :: "nat \<Rightarrow> 's \<Rightarrow> ('a option list \<times> 's) option" where
  "deq_all 0 s = Some ([], s)"
| "deq_all (Suc n) s = do { (x, s) \<leftarrow> deq s; (xs, s) \<leftarrow> deq_all n s; Some (x # xs, s) }"

lemma enq_all_rep: "rep s ys \<Longrightarrow> \<exists>s'. enq_all xs s = Some s' \<and> rep s' (ys @ xs)"
proof (induction xs arbitrary: s ys)
  case Nil
  then show ?case by simp
next
  case (Cons x xs)
  from enq_rep [OF Cons.prems] obtain s1 where "enq x s = Some s1" "rep s1 (ys @ [x])" by blast
  with Cons.IH [of s1 "ys @ [x]"] show ?case by simp
qed

lemma deq_all_rep: "rep s (xs @ ys) \<Longrightarrow> \<exists>s'. deq_all (length xs) s = Some (map Some xs, s') \<and> rep s' ys"
proof (induction xs arbitrary: s)
  case Nil
  then show ?case by simp
next
  case (Cons x xs)
  then obtain s1 where "deq s = Some (Some x, s1)" "rep s1 (xs @ ys)" using deq_rep by fastforce
  with Cons.IH [of s1] show ?case by auto
qed

text \<open>What goes in comes out, in the same order, and the queue is then empty.\<close>

lemma in_order:
  assumes "rep s []"
  shows "\<exists>s1 s2 s3. enq_all xs s = Some s1 \<and> deq_all (length xs) s1 = Some (map Some xs, s2)
    \<and> deq s2 = Some (None, s3)"
proof -
  obtain s1 where "enq_all xs s = Some s1" "rep s1 xs" using enq_all_rep [OF assms] by auto
  moreover obtain s2 where "deq_all (length xs) s1 = Some (map Some xs, s2)" "rep s2 []"
    using deq_all_rep [of s1 xs "[]"] \<open>rep s1 xs\<close> by auto
  ultimately show ?thesis using deq_empty by blast
qed

end

section \<open>Tables\<close>

locale string_table =
  fixes inv :: "'t \<Rightarrow> bool"
    and lookup :: "'t \<Rightarrow> string \<Rightarrow> 'v option"
    and store :: "string \<Rightarrow> 'v \<Rightarrow> 't \<Rightarrow> 't option"
    and erase :: "string \<Rightarrow> 't \<Rightarrow> 't option"
  assumes store_law: "inv t \<Longrightarrow> \<exists>t'. store k v t = Some t' \<and> inv t' \<and> lookup t' = (lookup t)(k \<mapsto> v)"
    and erase_law: "inv t \<Longrightarrow> \<exists>t'. erase k t = Some t' \<and> inv t' \<and> lookup t' = (lookup t)(k := None)"
begin

fun store_all :: "(string \<times> 'v) list \<Rightarrow> 't \<Rightarrow> 't option" where
  "store_all [] t = Some t"
| "store_all ((k, v) # kvs) t = do { t \<leftarrow> store k v t; store_all kvs t }"

lemma store_all_lookup:
  "inv t \<Longrightarrow> \<exists>t'. store_all kvs t = Some t' \<and> inv t' \<and> lookup t' = lookup t ++ map_of (rev kvs)"
proof (induction kvs arbitrary: t)
  case Nil
  then show ?case by simp
next
  case (Cons kv kvs)
  obtain k v where kv: "kv = (k, v)" by fastforce
  from store_law [OF Cons.prems, of k v] obtain t1 where
    t1: "store k v t = Some t1" "inv t1" "lookup t1 = (lookup t)(k \<mapsto> v)" by blast
  from Cons.IH [OF t1(2)] obtain t' where
    t': "store_all kvs t1 = Some t'" "inv t'" "lookup t' = lookup t1 ++ map_of (rev kvs)" by blast
  have "lookup t' x = (lookup t ++ map_of (rev (kv # kvs))) x" for x
    using t'(3) t1(3) kv by (cases "map_of (rev kvs) x") (simp_all add: map_add_def)
  then have "lookup t' = lookup t ++ map_of (rev (kv # kvs))" by (rule ext)
  with t1(1) t' kv show ?case by simp
qed

text \<open>Storing under distinct keys and erasing one of them leaves the others as they were stored.\<close>

lemma store_all_erase:
  assumes "inv t" and "lookup t = (\<lambda>_. None)" and "distinct (map fst kvs)"
  shows "\<exists>t1 t2. store_all kvs t = Some t1 \<and> erase k t1 = Some t2 \<and> inv t2
    \<and> lookup t2 = (map_of kvs)(k := None)"
proof -
  obtain t1 where t1: "store_all kvs t = Some t1" "inv t1" "lookup t1 = lookup t ++ map_of (rev kvs)"
    using store_all_lookup [OF assms(1)] by blast
  moreover have "map_of (rev kvs) = map_of kvs"
    using assms(3) by (simp add: map_of_inject_set rev_map [symmetric])
  ultimately show ?thesis
    using erase_law [OF t1(2), of k] assms(2) by (auto simp: map_add_def)
qed

end

end
