(* ===== verification/Make_Lst_Ops.thy ===== *)
theory Make_Lst_Ops
  imports Make_Lst Glish_Interfaces
begin

text \<open>
  The operations of the make client's list library that walk over a list: destroying,
  searching, concatenating, duplicating, sequential access and \<open>Lst_ForEach\<close>; the library's
  queue operations as an instance of the queue contract; and the properties of the library.
\<close>

section \<open>Destroying a list\<close>

text \<open>
  A client procedure that only touches the client's own part of the state, by \<open>g\<close>; no
  procedure at all changes nothing.
\<close>

definition frees ::
  "('a \<Rightarrow> ('a, 'm) heap_scheme \<Rightarrow> ('a, 'm) heap_scheme) option \<Rightarrow> ('a \<Rightarrow> 'm \<Rightarrow> 'm) \<Rightarrow> bool" where
  "frees fp g \<longleftrightarrow> (case fp of None \<Rightarrow> \<forall>d. g d = id | Some f \<Rightarrow> \<forall>d h. f d h = heap.more_update (g d) h)"

lemma more_update_heap [simp]:
  "heap.more_update id h = h"
  "(heap.more_update f h)\<lparr>nodes := N\<rparr> = heap.more_update f (h\<lparr>nodes := N\<rparr>)"
  "(heap.more_update f h)\<lparr>lists := L\<rparr> = heap.more_update f (h\<lparr>lists := L\<rparr>)"
  "heap.more_update f (heap.more_update g h) = heap.more_update (f \<circ> g) h"
  by (cases h; simp)+

definition without :: "nat list \<Rightarrow> ('a, 'm) heap_scheme \<Rightarrow> ('a, 'm) heap_scheme" where
  "without ps h = h\<lparr>nodes := (\<lambda>x. if x \<in> set ps then None else nodes h x)\<rparr>"

lemma destroy_loop_chain:
  assumes "linked (nodes h) p ps None" and "distinct ps" and "frees fp g"
  shows "destroy_loop fp (headp ps None) h
    = Some (heap.more_update (fold g (data h ps)) (without ps h))"
  using assms(1,2)
proof (induction ps arbitrary: p h)
  case Nil
  then show ?case by (simp add: destroy_loop.simps [of _ None] without_def data_def)
next
  case (Cons x ps)
  then obtain nd where nd: "nodes h x = Some nd" "nextPtr nd = headp ps None"
    and link: "linked (nodes h) (Some x) ps None" "x \<notin> set ps" "distinct ps" by auto
  define h' where "h' = heap.more_update (g (datum nd)) (h\<lparr>nodes := (nodes h)(x := None)\<rparr>)"
  have N: "nodes h' = (nodes h)(x := None)" by (simp add: h'_def fun_eq_iff)
  have L: "linked (nodes h') (Some x) ps None"
    unfolding N linked_upd [OF link(2)] by (rule link(1))
  have "destroy_loop fp (Some x) h = destroy_loop fp (headp ps None) h'"
    using nd assms(3)
    by (cases fp) (simp_all add: destroy_loop.simps [of _ "Some x"] frees_def h'_def)
  also have "\<dots> = Some (heap.more_update (fold g (data h' ps)) (without ps h'))"
    using L link(3) by (rule Cons.IH)
  also have "data h' ps = data h ps" using link by (auto simp: data_def N)
  also have "without ps h' = heap.more_update (g (datum nd)) (without (x # ps) h)"
    by (simp add: without_def N) (auto simp: h'_def intro!: arg_cong [where f = "\<lambda>N. heap.more_update (g (datum nd)) (h\<lparr>nodes := N\<rparr>)"])
  finally show ?case using nd by (simp add: data_def)
qed

lemma ring_open_end:
  assumes "ring N circ (xs @ [x])" and "distinct (xs @ [x])" and "N x = Some nx"
  shows "linked (N(x \<mapsto> nx\<lparr>nextPtr := None\<rparr>)) (closing circ (Some x)) (xs @ [x]) None"
  using assms by (auto simp: ring_def)

lemma Lst_Destroy_rep:
  assumes rep: "lst_rep h a circ ps" and fp: "frees fp g"
  shows "Lst_Destroy (Some a) fp h = Some (heap.more_update (fold g (data h ps))
      (without ps h\<lparr>lists := (lists h)(a := None)\<rparr>))"
proof -
  from rep obtain l where l: "lists h a = Some l" "ends l circ ps" "0 < a"
    and dist: "distinct ps" and ring: "ring (nodes h) circ ps"
    by (auto simp: lst_rep_def chain_ring)
  show ?thesis
  proof (cases ps rule: rev_cases)
    case Nil
    with l show ?thesis by (simp add: Lst_Destroy_def ends_def without_def data_def)
  next
    case (snoc xs x)
    obtain nx where nx: "nodes h x = Some nx" using ring by (auto simp: snoc ring_def)
    let ?h = "h\<lparr>nodes := (nodes h)(x \<mapsto> nx\<lparr>nextPtr := None\<rparr>)\<rparr>"
    have "linked (nodes ?h) (closing circ (Some x)) ps None"
      using ring_open_end [of "nodes h" circ xs x nx] ring dist nx by (simp add: snoc)
    then have "destroy_loop fp (headp ps None) ?h
        = Some (heap.more_update (fold g (data ?h ps)) (without ps ?h))"
      using dist fp by (rule destroy_loop_chain)
    moreover have "data ?h ps = data h ps" using nx by (simp add: data_def)
    moreover have "without ps ?h = without ps h" by (auto simp: without_def snoc intro!: arg_cong [where f = "\<lambda>N. h\<lparr>nodes := N\<rparr>"])
    moreover have "lists (heap.more_update (fold g (data h ps)) (without ps h)) a = Some l"
      using l by (simp add: without_def)
    ultimately show ?thesis
      using l nx by (simp add: Lst_Destroy_def ends_def snoc without_def)
  qed
qed

section \<open>Searching\<close>

text \<open>
  The first node, from a given one to the end, whose datum the comparison accepts.
\<close>

fun first_match :: "('a \<Rightarrow> bool) \<Rightarrow> ('a, 'm) heap_scheme \<Rightarrow> nat list \<Rightarrow> nat option" where
  "first_match P h [] = None"
| "first_match P h (x # xs) = (if P (datum (the (nodes h x))) then Some x else first_match P h xs)"

lemma first_match_find:
  "first_match P h ps = find (\<lambda>x. P (datum (the (nodes h x)))) ps"
  by (induction ps) simp_all

lemma find_loop_chain:
  assumes "linked (nodes h) p ps q" and "q = None \<or> q = ln" and "\<forall>x \<in> set (tl ps). Some x \<noteq> ln" and "ps \<noteq> []"
  shows "find_loop cProc d ln (headp ps None) h = Some (first_match (\<lambda>v. cProc v d = 0) h ps)"
  using assms
proof (induction ps arbitrary: p)
  case Nil
  then show ?case by simp
next
  case (Cons x ps)
  then obtain nd where nd: "nodes h x = Some nd" "nextPtr nd = headp ps q"
    and link: "linked (nodes h) (Some x) ps q" by auto
  show ?case
  proof (cases ps)
    case Nil
    with nd Cons.prems show ?thesis by (auto simp: find_loop.simps [of _ _ _ "Some x"])
  next
    case (Cons y zs)
    then have "find_loop cProc d ln (Some y) h = Some (first_match (\<lambda>v. cProc v d = 0) h ps)"
      using Cons.IH [OF link] Cons.prems by auto
    with nd Cons Cons.prems show ?thesis by (auto simp: find_loop.simps [of _ _ _ "Some x"])
  qed
qed

lemma Lst_Find_rep:
  assumes rep: "lst_rep h a circ ps"
  shows "Lst_Find (Some a) d cProc h = Some (first_match (\<lambda>v. cProc v d = 0) h ps)"
proof (cases ps)
  case Nil
  with rep show ?thesis
    by (auto simp: Lst_Find_def Lst_First_rep [OF rep] Lst_FindFrom_def lst_rep_def ends_def)
next
  case (Cons x xs)
  with rep have "find_loop cProc d (Some x) (headp ps None) h = Some (first_match (\<lambda>v. cProc v d = 0) h ps)"
    by (intro find_loop_chain [of _ "closing circ (lastp ps None)" _ "closing circ (Some x)"])
      (auto simp: lst_rep_def chain_def closing_def)
  with Cons rep show ?thesis
    by (auto simp: Lst_Find_def Lst_First_rep [OF rep] Lst_FindFrom_def lst_rep_def ends_def)
qed

lemma Lst_Member_rep:
  assumes rep: "lst_rep h a circ ps"
  shows "Lst_Member (Some a) d h = Some (first_match (\<lambda>v. v = d) h ps)"
proof (cases ps)
  case Nil
  with rep show ?thesis by (auto simp: Lst_Member_def lst_rep_def ends_def)
next
  case (Cons x xs)
  have "find_loop (\<lambda>x y. if x = y then 0 else 1) d (Some x) (headp ps None) h
      = Some (first_match (\<lambda>v. (if v = d then 0 else 1) = (0::int)) h ps)"
    using rep Cons by (intro find_loop_chain [of _ "closing circ (lastp ps None)" _ "closing circ (Some x)"])
      (auto simp: lst_rep_def chain_def closing_def)
  moreover have "(\<lambda>v. (if v = d then 0 else 1) = (0::int)) = (\<lambda>v. v = d)" by auto
  ultimately show ?thesis
    using Cons rep by (auto simp: Lst_Member_def lst_rep_def ends_def)
qed

section \<open>Concatenation\<close>

text \<open>Single pointer updates and their effect on a chain.\<close>

definition set_next :: "nat \<Rightarrow> nat option \<Rightarrow> (nat \<Rightarrow> 'a ListNode option) \<Rightarrow> nat \<Rightarrow> 'a ListNode option" where
  "set_next x q N = N(x \<mapsto> (the (N x))\<lparr>nextPtr := q\<rparr>)"

definition set_prev :: "nat \<Rightarrow> nat option \<Rightarrow> (nat \<Rightarrow> 'a ListNode option) \<Rightarrow> nat \<Rightarrow> 'a ListNode option" where
  "set_prev x p N = N(x \<mapsto> (the (N x))\<lparr>prevPtr := p\<rparr>)"

lemma node_set_next:
  "nodes h x \<noteq> None \<Longrightarrow>
     node_set (Some x) (\<lambda>n. n\<lparr>nextPtr := q\<rparr>) h = Some (h\<lparr>nodes := set_next x q (nodes h)\<rparr>)"
  by (auto simp: set_next_def)

lemma node_set_prev:
  "nodes h x \<noteq> None \<Longrightarrow>
     node_set (Some x) (\<lambda>n. n\<lparr>prevPtr := q\<rparr>) h = Some (h\<lparr>nodes := set_prev x q (nodes h)\<rparr>)"
  by (auto simp: set_prev_def)

lemma set_ptr_other [simp]:
  "y \<noteq> x \<Longrightarrow> set_next x q N y = N y" "y \<noteq> x \<Longrightarrow> set_prev x q N y = N y"
  by (simp_all add: set_next_def set_prev_def)

lemma set_ptr_alloc [simp]:
  "N x \<noteq> None \<Longrightarrow> set_next x q N y = None \<longleftrightarrow> N y = None"
  "N x \<noteq> None \<Longrightarrow> set_prev x q N y = None \<longleftrightarrow> N y = None"
  by (auto simp: set_next_def set_prev_def)

lemma set_ptr_some [simp]:
  "(\<exists>v. set_next x q N y = Some v) \<longleftrightarrow> y = x \<or> (\<exists>v. N y = Some v)"
  "(\<exists>v. set_prev x q N y = Some v) \<longleftrightarrow> y = x \<or> (\<exists>v. N y = Some v)"
  by (auto simp: set_next_def set_prev_def)

lemma set_ptr_datum [simp]:
  "N x \<noteq> None \<Longrightarrow> map_option datum (set_next x q N y) = map_option datum (N y)"
  "N x \<noteq> None \<Longrightarrow> map_option datum (set_prev x q N y) = map_option datum (N y)"
  by (auto simp: set_next_def set_prev_def)

lemma linked_set_out [simp]:
  "x \<notin> set ps \<Longrightarrow> linked (set_next x r N) p ps q = linked N p ps q"
  "x \<notin> set ps \<Longrightarrow> linked (set_prev x r N) p ps q = linked N p ps q"
  by (simp_all add: set_next_def set_prev_def)

lemma linked_redirect_end:
  assumes "linked N p ps q" and "distinct ps" and "ps \<noteq> []"
  shows "linked (set_next (last ps) q' N) p ps q'"
proof -
  obtain xs x where "ps = xs @ [x]" using assms(3) by (metis rev_exhaust)
  with assms show ?thesis by (auto simp: set_next_def)
qed

lemma linked_redirect_start:
  assumes "linked N p ps q" and "distinct ps" and "ps \<noteq> []"
  shows "linked (set_prev (hd ps) p' N) p' ps q"
  using assms by (cases ps) (auto simp: set_prev_def)

lemma linked_start_irrelevant:
  "linked N p ps q \<Longrightarrow> ps = [] \<Longrightarrow> linked N p' ps q"
  by simp

lemma lastp_nonempty [simp]: "ps \<noteq> [] \<Longrightarrow> lastp ps p = Some (last ps)"
  by (simp add: lastp_def)

lemma headp_nonempty [simp]: "ps \<noteq> [] \<Longrightarrow> headp ps q = Some (hd ps)"
  by (cases ps) simp_all

text \<open>Closing a chain into a ring; on a ring this changes nothing that matters.\<close>

lemma ring_close:
  assumes "linked N p ps q" and "ps \<noteq> []" and "distinct ps"
  shows "ring (set_next (last ps) (Some (hd ps)) (set_prev (hd ps) (Some (last ps)) N)) True ps"
    and "ring (set_prev (hd ps) (Some (last ps)) (set_next (last ps) (Some (hd ps)) N)) True ps"
proof -
  show "ring (set_next (last ps) (Some (hd ps)) (set_prev (hd ps) (Some (last ps)) N)) True ps"
    using linked_redirect_end [OF linked_redirect_start [OF assms(1,3,2)] assms(3,2)] assms(2)
    by (simp add: ring_def)
  show "ring (set_prev (hd ps) (Some (last ps)) (set_next (last ps) (Some (hd ps)) N)) True ps"
    using linked_redirect_start [OF linked_redirect_end [OF assms(1,3,2)] assms(3,2)] assms(2)
    by (simp add: ring_def)
qed

text \<open>Joining two chains at their ends.\<close>

lemma linked_join:
  assumes xs: "linked N p xs q" and ys: "linked N r ys s" and "ys \<noteq> []"
    and d: "distinct (xs @ ys)"
  defines "N3 \<equiv> set_prev (hd ys) (lastp xs None) (set_next (last ys) None N)"
  shows "xs \<noteq> [] \<Longrightarrow> linked (set_next (last xs) (Some (hd ys)) N3) p (xs @ ys) None"
    and "xs = [] \<Longrightarrow> linked N3 None ys None"
proof -
  have out: "hd ys \<notin> set xs" "last ys \<notin> set xs" using d \<open>ys \<noteq> []\<close> by auto
  have N3y: "linked N3 (lastp xs None) ys None"
    using ys d \<open>ys \<noteq> []\<close> unfolding N3_def
    by (intro linked_redirect_start linked_redirect_end) simp_all
  then show "xs = [] \<Longrightarrow> linked N3 None ys None" by simp
  assume ne: "xs \<noteq> []"
  have "linked N3 p xs q" using xs out by (simp add: N3_def)
  then have "linked (set_next (last xs) (Some (hd ys)) N3) p xs (Some (hd ys))"
    using d ne by (intro linked_redirect_end) simp_all
  moreover have "last xs \<notin> set ys"
    using d ne by (metis last_in_set disjoint_iff distinct_append)
  ultimately show "linked (set_next (last xs) (Some (hd ys)) N3) p (xs @ ys) None"
    using N3y ne \<open>ys \<noteq> []\<close> by simp
qed

text \<open>An update of pointers only, among the nodes \<open>X\<close>.\<close>

definition ptrs_only :: "nat set \<Rightarrow> (nat \<Rightarrow> 'a ListNode option) \<Rightarrow> (nat \<Rightarrow> 'a ListNode option) \<Rightarrow> bool" where
  "ptrs_only X N N' \<longleftrightarrow> (\<forall>x. map_option datum (N' x) = map_option datum (N x)) \<and> (\<forall>x. x \<notin> X \<longrightarrow> N' x = N x)"

lemma ptrs_only_refl [simp]: "ptrs_only X N N"
  by (simp add: ptrs_only_def)

lemma ptrs_only_set:
  assumes "ptrs_only X N N'" and "x \<in> X" and "N' x \<noteq> None"
  shows "ptrs_only X N (set_next x q N')" and "ptrs_only X N (set_prev x q N')"
proof -
  have "y \<noteq> x" if "y \<notin> X" for y using assms(2) that by auto
  with assms show "ptrs_only X N (set_next x q N')" and "ptrs_only X N (set_prev x q N')"
    by (auto simp: ptrs_only_def)
qed

lemma ptrs_only_alloc: "ptrs_only X N N' \<Longrightarrow> N' x = None \<longleftrightarrow> N x = None"
  unfolding ptrs_only_def by (metis map_option_is_None)

lemma ptrs_only_close:
  assumes "ptrs_only (set ps) N N'" and "ps \<noteq> []" and "\<And>x. x \<in> set ps \<Longrightarrow> N x \<noteq> None"
  shows "ptrs_only (set ps) N (set_next (last ps) q (set_prev (hd ps) p N'))"
    and "ptrs_only (set ps) N (set_prev (hd ps) p (set_next (last ps) q N'))"
proof -
  have "N' (hd ps) \<noteq> None" "N' (last ps) \<noteq> None"
    using assms ptrs_only_alloc [OF assms(1)] by (metis hd_in_set last_in_set)+
  with assms show "ptrs_only (set ps) N (set_next (last ps) q (set_prev (hd ps) p N'))"
    and "ptrs_only (set ps) N (set_prev (hd ps) p (set_next (last ps) q N'))"
    by (auto intro!: ptrs_only_set)
qed

lemma ptrs_only_data: "ptrs_only X (nodes h) (nodes h') \<Longrightarrow> data h' ps = data h ps"
proof -
  assume "ptrs_only X (nodes h) (nodes h')"
  then have eq: "map_option datum (nodes h' x) = map_option datum (nodes h x)" for x
    by (simp add: ptrs_only_def)
  have "datum (the (nodes h' x)) = datum (the (nodes h x))" for x
    using eq [of x] by (cases "nodes h x"; cases "nodes h' x") simp_all
  then show ?thesis by (simp add: data_def)
qed

lemma heap_brk_nodes: "h\<lparr>brk := b, nodes := N\<rparr> = h\<lparr>nodes := N, brk := b\<rparr>" for h :: "('a, 'm) heap_scheme"
  by (cases h) simp

lemma List_triv:
  "firstPtr l = p \<Longrightarrow> l\<lparr>firstPtr := p\<rparr> = l" "lastPtr l = p \<Longrightarrow> l\<lparr>lastPtr := p\<rparr> = l" for l :: List
  by (cases l; simp)+

text \<open>The outcome of a concatenation that reuses the nodes of the second list.\<close>

lemma concat_link_rep:
  assumes rep1: "lst_rep h a1 c1 xs" and rep2: "lst_rep h a2 c2 ys" and "a1 \<noteq> a2"
    and d: "set xs \<inter> set ys = {}"
  shows "\<exists>N l1. concat_link (Some a1) (Some a2) h
      = Some (h\<lparr>nodes := N, lists := (lists h)(a1 \<mapsto> l1, a2 := None)\<rparr>)
    \<and> ring N c1 (xs @ ys) \<and> ends l1 c1 (xs @ ys) \<and> ptrs_only (set (xs @ ys)) (nodes h) N"
proof -
  from rep1 obtain l1 where l1: "lists h a1 = Some l1" "ends l1 c1 xs" and d1: "distinct xs"
    and r1: "ring (nodes h) c1 xs" by (auto simp: lst_rep_def chain_ring)
  from rep2 obtain l2 where l2: "lists h a2 = Some l2" "ends l2 c2 ys" and d2: "distinct ys"
    and r2: "ring (nodes h) c2 ys" by (auto simp: lst_rep_def chain_ring)
  have dist: "distinct (xs @ ys)" using d d1 d2 by simp
  have alloc: "\<And>x. x \<in> set (xs @ ys) \<Longrightarrow> nodes h x \<noteq> None"
    using ring_alloc [OF r1] ring_alloc [OF r2] by auto
  define joined where "joined = (if ys = [] then nodes h
    else let N3 = set_prev (hd ys) (lastp xs None) (set_next (last ys) None (nodes h))
         in if xs = [] then N3 else set_next (last xs) (Some (hd ys)) N3)"
  define l1' where "l1' = l1\<lparr>firstPtr := headp (xs @ ys) None, lastPtr := lastp (xs @ ys) None\<rparr>"
  have link: "\<exists>q. linked joined (closing c1 (lastp xs None)) (xs @ ys) q \<and> (ys = [] \<or> q = None)"
    using linked_join [OF r1 [unfolded ring_def] r2 [unfolded ring_def] _ dist] r1
    by (auto simp: joined_def ring_def Let_def)
  have same: "ptrs_only (set (xs @ ys)) (nodes h) joined"
    using alloc by (auto simp: joined_def Let_def intro!: ptrs_only_set)
  define final where "final = (if c1 \<and> xs @ ys \<noteq> []
    then set_next (last (xs @ ys)) (Some (hd (xs @ ys))) (set_prev (hd (xs @ ys)) (Some (last (xs @ ys))) joined)
    else joined)"
  have "ring final c1 (xs @ ys)"
  proof (cases "c1 \<and> xs @ ys \<noteq> []")
    case True
    then show ?thesis
      using link ring_close(1) [OF _ _ dist] by (simp only: final_def if_True simp_thms) blast
  next
    case False
    then show ?thesis
      using link r1 by (cases "xs @ ys = []"; cases "ys = []") (auto simp: final_def ring_def joined_def)
  qed
  moreover have "ptrs_only (set (xs @ ys)) (nodes h) final"
    using same ptrs_only_close(1) [OF same _ alloc] by (simp only: final_def split: if_split) blast
  moreover have "concat_link (Some a1) (Some a2) h
      = Some (h\<lparr>nodes := final, lists := (lists h)(a1 \<mapsto> l1', a2 := None)\<rparr>)"
    using l1 l2 alloc \<open>a1 \<noteq> a2\<close>
    by (cases "ys = []"; cases "xs = []"; cases c1)
      (simp_all add: concat_link_def ends_def final_def joined_def l1'_def
        node_set_next node_set_prev List_triv fun_upd_idem)
  moreover have "ends l1' c1 (xs @ ys)" using l1 by (simp add: ends_def l1'_def)
  ultimately show ?thesis by blast
qed

lemma concat_loop_rep:
  assumes "heap_ok h" and "linked (nodes h) p ys None" and "distinct ys"
    and "linked (nodes h) r xs q" and "distinct xs" and "set xs \<inter> set ys = {}"
    and "xs = [] \<Longrightarrow> r = None" and "lists h a = Some l" and "firstPtr l = headp xs None"
  shows "\<exists>h'. concat_loop (Some a) (lastp xs None) (headp ys None) h
        = Some (lastp (xs @ [brk h..<brk h + length ys]) None, h')
    \<and> (\<exists>q. linked (nodes h') r (xs @ [brk h..<brk h + length ys]) q)
    \<and> data h' [brk h..<brk h + length ys] = data h ys \<and> data h' xs = data h xs
    \<and> lists h' = (lists h)(a \<mapsto> l\<lparr>firstPtr := headp (xs @ [brk h..<brk h + length ys]) None\<rparr>)
    \<and> brk h' = brk h + length ys \<and> junk h' = junk h \<and> more h' = more h
    \<and> (\<forall>x. x \<notin> set xs \<longrightarrow> x \<notin> {brk h..<brk h + length ys} \<longrightarrow> nodes h' x = nodes h x)
    \<and> (\<forall>x \<ge> brk h'. nodes h' x = None)"
  using assms
proof (induction ys arbitrary: h p r xs q l)
  case Nil
  then show ?case
    by (auto simp: concat_loop.simps [of _ _ None] List_triv fun_upd_idem data_def heap_ok_def)
next
  case (Cons y ys)
  then obtain ny where ny: "nodes h y = Some ny" "nextPtr ny = headp ys None"
    and ys: "linked (nodes h) (Some y) ys None" "y \<notin> set ys" "distinct ys" by auto
  have below: "\<And>x. nodes h x \<noteq> None \<Longrightarrow> x < brk h" using \<open>heap_ok h\<close>
    by (metis heap_ok_def not_le)
  have a: "a < brk h" using \<open>heap_ok h\<close> \<open>lists h a = Some l\<close>
    by (metis heap_ok_def not_le option.distinct(1))
  have fresh: "brk h \<notin> set xs" "brk h \<notin> set ys" "brk h \<noteq> y"
    using linked_alloc [OF ys(1)] linked_alloc [OF Cons.prems(4)] ny below by fastforce+
  let ?n = "\<lparr>prevPtr = lastp xs None, nextPtr = junk h, useCount = 0, flags = 0, datum = datum ny\<rparr>"
  define N where "N = (if xs = [] then nodes h else set_next (last xs) (Some (brk h)) (nodes h))(brk h \<mapsto> ?n)"
  define l' where "l' = l\<lparr>firstPtr := headp (xs @ [brk h]) None\<rparr>"
  define h1 where "h1 = h\<lparr>nodes := N, brk := Suc (brk h), lists := (lists h)(a \<mapsto> l')\<rparr>"
  have N: "\<And>x. x \<notin> set xs \<Longrightarrow> x \<noteq> brk h \<Longrightarrow> N x = nodes h x"
    by (auto simp: N_def set_next_def)
  have Nys: "\<forall>x \<in> set ys. N x = nodes h x"
    using N fresh Cons.prems(6) by (metis IntI emptyE list.set_intros(2))
  have last: "xs \<noteq> [] \<Longrightarrow> \<exists>nd. nodes h (last xs) = Some nd"
    using linked_alloc [OF Cons.prems(4)] by simp
  have step: "concat_loop (Some a) (lastp xs None) (Some y) h
      = concat_loop (Some a) (Some (brk h)) (headp ys None) h1"
  proof (cases "xs = []")
    case True
    then show ?thesis
      using ny fresh Cons.prems(8)
      by (simp add: concat_loop.simps [of _ _ "Some y"] new_node_def h1_def N_def l'_def Let_def)
  next
    case False
    have ne: "last xs \<noteq> brk h" "y \<noteq> last xs"
      using fresh Cons.prems(6) last_in_set [OF False] by (metis, metis IntI emptyE list.set_intros(1))
    then have "(set_next (last xs) (Some (brk h)) ((nodes h)(brk h \<mapsto> ?n))) = N"
      using fresh False by (auto simp: N_def set_next_def fun_eq_iff)
    moreover have "l' = l" using False Cons.prems(9) by (simp add: l'_def List_triv)
    ultimately show ?thesis
      using ny fresh False last ne Cons.prems(8)
      by (simp add: concat_loop.simps [of _ _ "Some y"] new_node_def h1_def node_set_next fun_upd_idem Let_def)
        (auto simp: node_set_next heap_brk_nodes)
  qed
  have ok1: "heap_ok h1"
  proof -
    have "N x = None" if "Suc (brk h) \<le> x" for x
      using N [of x] that below linked_alloc [OF Cons.prems(4), of x] by fastforce
    then show ?thesis using \<open>heap_ok h\<close> a by (simp add: heap_ok_def h1_def)
  qed
  have ys1: "linked (nodes h1) (Some y) ys None"
    using ys(1) linked_cong [of ys "nodes h1" "nodes h"] Nys by (simp add: h1_def)
  have xs1: "linked (nodes h1) r (xs @ [brk h]) (junk h)"
  proof (cases "xs = []")
    case True
    then show ?thesis using Cons.prems(7) by (simp add: h1_def N_def)
  next
    case False
    then show ?thesis
      using linked_redirect_end [OF Cons.prems(4,5), of "Some (brk h)"] fresh
      by (simp add: h1_def N_def)
  qed
  have dxs: "data h1 (xs @ [brk h]) = data h xs @ [datum ny]"
    using last fresh last_in_set [of xs] by (cases "xs = []") (auto simp: data_def h1_def N_def set_next_def)
  have dys: "data h1 ys = data h ys"
    using Nys by (simp add: data_def h1_def)
  have upt: "[brk h..<brk h + length (y # ys)] = brk h # [brk h1..<brk h1 + length ys]"
    by (simp add: h1_def upt_conv_Cons del: upt_Suc)
  have P: "distinct (xs @ [brk h])" "set (xs @ [brk h]) \<inter> set ys = {}" "xs @ [brk h] = [] \<Longrightarrow> r = None"
      "lists h1 a = Some l'" "firstPtr l' = headp (xs @ [brk h]) None"
    using Cons.prems(5,6) fresh by (auto simp: h1_def l'_def)
  from Cons.IH [OF ok1 ys1 ys(3) xs1 P] obtain h' where
    "concat_loop (Some a) (lastp (xs @ [brk h]) None) (headp ys None) h1
        = Some (lastp ((xs @ [brk h]) @ [brk h1..<brk h1 + length ys]) None, h')"
    and "\<exists>q. linked (nodes h') r ((xs @ [brk h]) @ [brk h1..<brk h1 + length ys]) q"
    and "data h' [brk h1..<brk h1 + length ys] = data h1 ys"
    and "data h' (xs @ [brk h]) = data h1 (xs @ [brk h])"
    and "lists h' = (lists h1)(a \<mapsto> l'\<lparr>firstPtr := headp ((xs @ [brk h]) @ [brk h1..<brk h1 + length ys]) None\<rparr>)"
    and "brk h' = brk h1 + length ys" "junk h' = junk h1" "more h' = more h1"
    and "\<forall>x. x \<notin> set (xs @ [brk h]) \<longrightarrow> x \<notin> {brk h1..<brk h1 + length ys} \<longrightarrow> nodes h' x = nodes h1 x"
    and "\<forall>x \<ge> brk h'. nodes h' x = None"
    by blast
  note IH = this
  show ?case
  proof (intro exI [of _ h'] conjI)
    show "concat_loop (Some a) (lastp xs None) (headp (y # ys) None) h
        = Some (lastp (xs @ [brk h..<brk h + length (y # ys)]) None, h')"
      using IH(1) unfolding upt by (simp add: step)
    show "\<exists>q. linked (nodes h') r (xs @ [brk h..<brk h + length (y # ys)]) q"
      using IH(2) unfolding upt by simp
    show "data h' [brk h..<brk h + length (y # ys)] = data h (y # ys)"
      and "data h' xs = data h xs"
      using IH(3,4) dxs dys ny unfolding upt by (simp_all add: data_def)
    show "lists h' = (lists h)(a \<mapsto> l\<lparr>firstPtr := headp (xs @ [brk h..<brk h + length (y # ys)]) None\<rparr>)"
      using IH(5) unfolding upt by (simp add: h1_def l'_def)
    show "brk h' = brk h + length (y # ys)" "junk h' = junk h" "more h' = more h"
      using IH(6-8) by (simp_all add: h1_def)
    show "\<forall>x. x \<notin> set xs \<longrightarrow> x \<notin> {brk h..<brk h + length (y # ys)} \<longrightarrow> nodes h' x = nodes h x"
      using IH(9) N by (auto simp: h1_def)
    show "\<forall>x \<ge> brk h'. nodes h' x = None" by (rule IH(10))
  qed
qed

text \<open>The bookkeeping at the end of a concatenation by new nodes.\<close>

definition closed :: "bool \<Rightarrow> nat list \<Rightarrow> (nat \<Rightarrow> 'a ListNode option) \<Rightarrow> nat \<Rightarrow> 'a ListNode option" where
  "closed c zs N = (if c then set_prev (hd zs) (Some (last zs)) (set_next (last zs) (Some (hd zs)) N)
     else set_next (last zs) None N)"

lemma ring_closed:
  assumes "linked N (closing c p) zs q" and "zs \<noteq> []" and "distinct zs"
  shows "ring (closed c zs N) c zs"
  using ring_close(2) [OF assms] linked_redirect_end [OF assms(1,3,2)] assms(2)
  by (cases c) (simp_all add: closed_def ring_def)

lemma closed_ptrs:
  assumes "linked N p zs q" and "zs \<noteq> []"
  shows "ptrs_only (set zs) N (closed c zs N)"
proof -
  have alloc: "\<And>x. x \<in> set zs \<Longrightarrow> N x \<noteq> None" using linked_alloc [OF assms(1)] by auto
  then have "N (last zs) \<noteq> None" using assms(2) by auto
  then show ?thesis
    using assms(2) ptrs_only_close(2) [OF ptrs_only_refl assms(2) alloc]
    by (auto simp: closed_def intro!: ptrs_only_set)
qed

lemma concat_new_eval:
  assumes l1: "lists h a1 = Some l1" "lastPtr l1 = lastp xs None" "isCirc l1 = c1"
    and l2: "lists h a2 = Some l2" "ends l2 c2 ys" and ne: "a1 \<noteq> a2" "ys \<noteq> []" "zs \<noteq> []"
    and ly: "nodes h (last ys) \<noteq> None"
    and loop: "concat_loop (Some a1) (lastp xs None) (headp ys None)
        (h\<lparr>nodes := set_next (last ys) None (nodes h)\<rparr>) = Some (Some (last zs), h2)"
    and h2: "lists h2 = (lists h)(a1 \<mapsto> l1\<lparr>firstPtr := Some (hd zs)\<rparr>)"
      "nodes h2 (last zs) \<noteq> None" "nodes h2 (hd zs) \<noteq> None" "nodes h2 (last ys) \<noteq> None"
  shows "concat_new (Some a1) (Some a2) h = Some (h2\<lparr>lists := (lists h)(a1 \<mapsto>
        l1\<lparr>firstPtr := Some (hd zs), lastPtr := Some (last zs)\<rparr>),
      nodes := (if c2 then set_next (last ys) (Some (hd ys)) else id) (closed c1 zs (nodes h2))\<rparr>)"
  using assms
  by (cases c1; cases c2) (simp_all add: concat_new_def ends_def closed_def node_set_next node_set_prev)

lemma data_append: "data h (xs @ ys) = data h xs @ data h ys"
  by (simp add: data_def)

lemma concat_new_rep:
  assumes ok: "heap_ok h" and rep1: "lst_rep h a1 c1 xs" and rep2: "lst_rep h a2 c2 ys"
    and ne: "a1 \<noteq> a2" and d: "set xs \<inter> set ys = {}"
  defines "zs \<equiv> xs @ [brk h..<brk h + length ys]"
  shows "\<exists>h'. concat_new (Some a1) (Some a2) h = Some h'
    \<and> lst_rep h' a1 c1 zs \<and> lst_rep h' a2 c2 ys
    \<and> data h' zs = data h xs @ data h ys \<and> data h' ys = data h ys \<and> heap_ok h' \<and> more h' = more h"
proof (cases "ys = []")
  case True
  with assms show ?thesis by (auto simp: concat_new_def lst_rep_def ends_def data_def)
next
  case False
  from rep1 obtain l1 where l1: "lists h a1 = Some l1" "ends l1 c1 xs" "0 < a1" and d1: "distinct xs"
    and r1: "ring (nodes h) c1 xs" by (auto simp: lst_rep_def chain_ring)
  from rep2 obtain l2 where l2: "lists h a2 = Some l2" "ends l2 c2 ys" "0 < a2" and d2: "distinct ys"
    and r2: "ring (nodes h) c2 ys" by (auto simp: lst_rep_def chain_ring)
  have below: "\<forall>x \<in> set xs. x < brk h" "\<forall>x \<in> set ys. x < brk h" "a1 < brk h" "a2 < brk h"
    using lst_rep_below [OF ok rep1] lst_rep_below [OF ok rep2] by auto
  have zs: "zs \<noteq> []" "distinct zs" "set zs \<inter> set ys = {}" "last ys \<notin> set xs"
    using False d1 d below last_in_set [OF False] by (auto simp: zs_def)
  have ly: "nodes h (last ys) \<noteq> None" using False ring_alloc [OF r2] by simp
  define h1 where "h1 = h\<lparr>nodes := set_next (last ys) None (nodes h)\<rparr>"
  have ok1: "heap_ok h1" using ok ly by (simp add: h1_def heap_ok_def)
  have ys1: "linked (nodes h1) (closing c2 (Some (last ys))) ys None"
    using r2 d2 False linked_redirect_end by (simp add: h1_def ring_def)
  have xs1: "linked (nodes h1) (closing c1 (lastp xs None)) xs (closing c1 (headp xs None))"
    using r1 zs(4) by (simp add: h1_def ring_def)
  obtain h2 q where loop: "concat_loop (Some a1) (lastp xs None) (headp ys None) h1
        = Some (lastp zs None, h2)"
    and zs2: "linked (nodes h2) (closing c1 (lastp xs None)) zs q"
    and data2: "data h2 [brk h..<brk h + length ys] = data h1 ys" "data h2 xs = data h1 xs"
    and lists2: "lists h2 = (lists h)(a1 \<mapsto> l1\<lparr>firstPtr := headp zs None\<rparr>)"
    and h2: "brk h2 = brk h + length ys" "more h2 = more h"
      "\<forall>x. x \<notin> set xs \<longrightarrow> x \<notin> {brk h..<brk h + length ys} \<longrightarrow> nodes h2 x = nodes h1 x"
      "\<forall>x \<ge> brk h2. nodes h2 x = None"
    using concat_loop_rep [OF ok1 ys1 d2 xs1 d1 d, of a1 l1] l1
    by (auto simp: zs_def h1_def ends_def)
  have same: "\<forall>x \<in> set ys. nodes h2 x = nodes h1 x"
    using h2(3) d below(2) by (metis IntI atLeastLessThan_iff emptyE not_le)
  define N4 where "N4 = closed c1 zs (nodes h2)"
  define N5 where "N5 = (if c2 then set_next (last ys) (Some (hd ys)) else id) N4"
  let ?h = "h2\<lparr>lists := (lists h)(a1 \<mapsto> l1\<lparr>firstPtr := Some (hd zs), lastPtr := Some (last zs)\<rparr>),
    nodes := N5\<rparr>"
  have alloc: "nodes h2 (last zs) \<noteq> None" "nodes h2 (hd zs) \<noteq> None" "nodes h2 (last ys) \<noteq> None"
    using linked_alloc [OF zs2] linked_alloc [OF ys1] same zs(1) False by auto
  have N4: "ptrs_only (set zs) (nodes h2) N4"
    unfolding N4_def using zs2 zs(1) by (rule closed_ptrs)
  then have "ptrs_only (set (ys @ zs)) (nodes h2) N4" by (auto simp: ptrs_only_def)
  then have N5: "ptrs_only (set (ys @ zs)) (nodes h2) N5"
    using alloc(3) False ptrs_only_alloc [OF N4, of "last ys"]
    by (auto simp: N5_def intro!: ptrs_only_set)
  have lz: "last ys \<notin> set zs" using zs(3) last_in_set [OF False] by blast
  have "ring N4 c1 zs" unfolding N4_def using zs2 zs(1,2) by (rule ring_closed)
  then have ringz: "ring N5 c1 zs" using lz by (simp add: N5_def ring_def)
  have "\<forall>x \<in> set ys. N4 x = nodes h1 x" using N4 same zs(3) by (auto simp: ptrs_only_def)
  then have ys4: "linked N4 (closing c2 (Some (last ys))) ys None"
    using ys1 linked_cong [of ys N4 "nodes h1"] by simp
  have ringy: "ring N5 c2 ys"
    using ys4 linked_redirect_end [OF ys4 d2 False, of "Some (hd ys)"] False
    by (cases c2) (simp_all add: N5_def ring_def)
  have "concat_new (Some a1) (Some a2) h = Some ?h"
    unfolding N5_def N4_def
    using l1 l2 ne False zs(1) ly loop lists2 alloc
    by (intro concat_new_eval [where xs = xs]) (simp_all add: ends_def h1_def)
  moreover have "lst_rep ?h a1 c1 zs" "lst_rep ?h a2 c2 ys"
    using l1 l2 zs(1,2) d2 ne ringz ringy by (simp_all add: lst_rep_def chain_ring ends_def)
  moreover have "data ?h ps = data h2 ps" for ps
    using N5 by (intro ptrs_only_data) simp
  moreover have "data h1 ps = data h ps" for ps
    using ly by (intro ptrs_only_data [of UNIV]) (simp add: h1_def ptrs_only_set)
  moreover have "data h2 ys = data h1 ys" using same by (simp add: data_def)
  moreover have "heap_ok ?h"
    using h2(1,4) ok below ptrs_only_alloc [OF N5] by (auto simp: heap_ok_def)
  ultimately show ?thesis
    using data2 h2(2) by (intro exI [of _ ?h]) (simp add: zs_def data_append)
qed

section \<open>Duplication\<close>

text \<open>A copy function that leaves the state alone.\<close>

definition copies ::
  "('a \<Rightarrow> ('a, 'm) heap_scheme \<Rightarrow> 'a \<times> ('a, 'm) heap_scheme) option \<Rightarrow> ('a \<Rightarrow> 'a) \<Rightarrow> bool" where
  "copies cp c \<longleftrightarrow> (case cp of None \<Rightarrow> \<forall>d. c d = d | Some f \<Rightarrow> \<forall>d h. f d h = (c d, h))"

lemma frame_trans: "frame a X h h' \<Longrightarrow> frame a Y h' h'' \<Longrightarrow> frame a (X \<union> Y) h h''"
  by (auto simp: frame_def)

lemma dupl_loop_rep:
  assumes cp: "copies cp c" and ne: "a \<noteq> n"
  shows "heap_ok h \<Longrightarrow> lst_rep h a circ (xs @ ys) \<Longrightarrow> lst_rep h n circ ps \<Longrightarrow>
    set (xs @ ys) \<inter> set ps = {} \<Longrightarrow>
    \<exists>h' qs. dupl_loop cp (Some a) (Some n) (headp ys None) h = Some (SUCCESS, h')
      \<and> lst_rep h' n circ (ps @ qs) \<and> data h' (ps @ qs) = data h ps @ map c (data h ys)
      \<and> lst_rep h' a circ (xs @ ys) \<and> data h' (xs @ ys) = data h (xs @ ys)
      \<and> heap_ok h' \<and> more h' = more h \<and> set qs \<inter> {0..<brk h} = {}
      \<and> frame n (set ps \<union> {brk h..}) h h'"
proof (induction ys arbitrary: h xs ps)
  case Nil
  then show ?case
    by (intro exI [of _ h] exI [of _ "[]"])
      (auto simp: dupl_loop.simps [of _ _ _ None] data_def frame_def)
next
  case (Cons y ys)
  obtain ny l where ny: "nodes h y = Some ny"
      "nextPtr ny = headp ys (closing circ (headp (xs @ y # ys) None))"
    and l: "lists h a = Some l" "ends l circ (xs @ y # ys)"
    using Cons.prems(2) by (auto simp: lst_rep_def chain_def)
  have dist: "distinct (xs @ y # ys)" using Cons.prems(2) by (auto simp: lst_rep_def chain_def)
  from Lst_AtEnd_rep [OF Cons.prems(1,3), of "c (datum ny)"] obtain h1 where
    h1: "Lst_AtEnd (Some n) (c (datum ny)) h = Some (SUCCESS, h1)" "grown n circ ps [] (c (datum ny)) h h1"
    by blast
  then have g: "lst_rep h1 n circ (ps @ [brk h])" "data h1 (ps @ [brk h]) = data h ps @ [c (datum ny)]"
    "heap_ok h1" "frame n (insert (brk h) (set ps)) h h1" "more h1 = more h"
    by (simp_all add: grown_def data_def)
  have below: "\<forall>x \<in> set (xs @ y # ys). x < brk h" "a < brk h"
    using lst_rep_below [OF Cons.prems(1,2)] by blast+
  have disj: "set (xs @ y # ys) \<inter> insert (brk h) (set ps) = {}"
    using Cons.prems(4) below by auto
  note R = lst_rep_frame [OF Cons.prems(2) g(4) ne disj]
  have y1: "nodes h1 y = Some ny" "lists h1 a = Some l"
    using g(4) ny disj l ne by (auto simp: frame_def)
  define nxt where "nxt = (if isCirc l \<and> Some y = lastPtr l then None else nextPtr ny)"
  have "nxt = headp ys None"
    using ny l dist by (cases ys) (auto simp: nxt_def ends_def closing_def lastp_def)
  then have step: "dupl_loop cp (Some a) (Some n) (Some y) h = dupl_loop cp (Some a) (Some n) (headp ys None) h1"
    using cp ny h1(1) y1 by (cases cp) (simp_all add: dupl_loop.simps [of _ _ _ "Some y"] copies_def nxt_def)
  have "set ((xs @ [y]) @ ys) \<inter> set (ps @ [brk h]) = {}" using disj by auto
  with Cons.IH [OF g(3), of "xs @ [y]" "ps @ [brk h]"] R g(1) obtain h' qs where
    "dupl_loop cp (Some a) (Some n) (headp ys None) h1 = Some (SUCCESS, h')"
    "lst_rep h' n circ ((ps @ [brk h]) @ qs)"
    "data h' ((ps @ [brk h]) @ qs) = data h1 (ps @ [brk h]) @ map c (data h1 ys)"
    "lst_rep h' a circ (xs @ y # ys)" "data h' (xs @ y # ys) = data h1 (xs @ y # ys)"
    "heap_ok h'" "more h' = more h1" "set qs \<inter> {0..<brk h1} = {}"
    "frame n (set (ps @ [brk h]) \<union> {brk h1..}) h1 h'"
    by auto
  note IH = this
  have brk: "brk h \<le> brk h1" using g(4) by (simp add: frame_def)
  have dys: "data h1 ys = data h ys" "datum ny = datum (the (nodes h y))"
    using R(2) ny by (auto simp: data_def)
  show ?case
  proof (intro exI [of _ h'] exI [of _ "brk h # qs"] conjI)
    show "dupl_loop cp (Some a) (Some n) (headp (y # ys) None) h = Some (SUCCESS, h')"
      using step IH(1) by simp
    show "data h' (ps @ brk h # qs) = data h ps @ map c (data h (y # ys))"
      using IH(3) g(2) dys by (simp add: data_def)
    show "set (brk h # qs) \<inter> {0..<brk h} = {}" using IH(8) brk by auto
    show "frame n (set ps \<union> {brk h..}) h h'"
      using frame_trans [OF g(4) IH(9)] brk by (auto simp: frame_def)
  qed (use IH R(2) g(5) in auto)
qed

section \<open>Sequential access\<close>

text \<open>
  An open list of which the nodes \<open>xs\<close> have been visited and the nodes \<open>ys\<close> have not; \<open>pred\<close>
  is what the library remembers as the node before the current one.
\<close>

definition visiting :: "('a, 'm) heap_scheme \<Rightarrow> nat \<Rightarrow> bool \<Rightarrow> nat list \<Rightarrow> nat list \<Rightarrow> nat option \<Rightarrow> bool" where
  "visiting h a circ xs ys pred \<longleftrightarrow> heap_ok h \<and> lst_rep h a circ (xs @ ys)
     \<and> (\<exists>l. lists h a = Some l \<and> isOpen l \<and> curPtr l = lastp xs None \<and> l_prevPtr l = pred
          \<and> (xs = [] \<longrightarrow> ys \<noteq> [] \<longrightarrow> atEnd l = Unknown) \<and> (xs \<noteq> [] \<longrightarrow> atEnd l = Middle))"

lemma Lst_Open_visiting:
  assumes "heap_ok h" and "lst_rep h a circ ps"
  shows "\<exists>h' pred. Lst_Open (Some a) h = Some (SUCCESS, h') \<and> visiting h' a circ [] ps pred
    \<and> nodes h' = nodes h \<and> more h' = more h \<and> Lst_IsAtEnd (Some a) h' = Some (ps = [])"
proof -
  note below = lst_rep_below(1) [OF assms]
  from assms show ?thesis using below
    by (auto simp: Lst_Open_def visiting_def lst_rep_def ends_def chain_def heap_ok_def Lst_IsAtEnd_def)
qed

lemma Lst_Next_visiting:
  assumes "visiting h a circ xs (y # ys) pred"
  shows "\<exists>h'. Lst_Next (Some a) h = Some (Some y, h') \<and> visiting h' a circ (xs @ [y]) ys (lastp xs None)
    \<and> nodes h' = nodes h \<and> more h' = more h \<and> Lst_IsAtEnd (Some a) h' = Some False"
proof -
  from assms obtain l where ok: "heap_ok h" and rep: "lst_rep h a circ (xs @ y # ys)"
    and l: "lists h a = Some l" "isOpen l" "curPtr l = lastp xs None"
      "xs = [] \<Longrightarrow> atEnd l = Unknown" "xs \<noteq> [] \<Longrightarrow> atEnd l = Middle"
    by (auto simp: visiting_def)
  have e: "ends l circ (xs @ y # ys)" and c: "chain h circ (xs @ y # ys)"
    using rep l(1) by (auto simp: lst_rep_def)
  note below = lst_rep_below(1) [OF ok rep]
  define l' where "l' = l\<lparr>l_prevPtr := lastp xs None, curPtr := Some y, atEnd := Middle\<rparr>"
  have "Lst_Next (Some a) h = Some (Some y, h\<lparr>lists := (lists h)(a \<mapsto> l')\<rparr>)"
  proof (cases xs rule: rev_cases)
    case Nil
    with l e show ?thesis by (auto simp: Lst_Next_def ends_def l'_def)
  next
    case (snoc zs z)
    have "\<exists>nz. nodes h z = Some nz \<and> nextPtr nz = Some y" using c by (auto simp: chain_def snoc)
    moreover have "Some y \<noteq> firstPtr l"
      using e c by (cases zs) (auto simp: ends_def chain_def snoc)
    ultimately show ?thesis
      using l by (auto simp: Lst_Next_def snoc l'_def Let_def)
  qed
  moreover have "visiting (h\<lparr>lists := (lists h)(a \<mapsto> l')\<rparr>) a circ (xs @ [y]) ys (lastp xs None)"
    using rep e c l ok below by (auto simp: visiting_def lst_rep_def ends_def l'_def heap_ok_def)
  ultimately show ?thesis
    using l by (auto simp: Lst_IsAtEnd_def l'_def)
qed

lemma Lst_Next_end:
  assumes "visiting h a circ ps [] pred" and "ps \<noteq> []"
  shows "\<exists>h'. Lst_Next (Some a) h = Some (closing circ (headp ps None), h')
    \<and> Lst_IsAtEnd (Some a) h' = Some True"
proof -
  from assms obtain zs z where ps: "ps = zs @ [z]" by (metis rev_exhaust)
  from assms obtain l where rep: "lst_rep h a circ ps"
    and l: "lists h a = Some l" "isOpen l" "curPtr l = Some z"
    by (auto simp: visiting_def ps)
  have "ends l circ ps" "\<exists>nz. nodes h z = Some nz \<and> nextPtr nz = closing circ (headp ps None)"
    using rep l(1) by (auto simp: lst_rep_def chain_def ps)
  with l show ?thesis by (cases circ) (auto simp: Lst_Next_def Lst_IsAtEnd_def ends_def Let_def)
qed


text \<open>Removing the current node steps back, so that the next step reaches its successor.\<close>

lemma Lst_Remove_visiting:
  assumes vis: "visiting h a False (xs @ [x]) ys (lastp xs None)"
  shows "\<exists>h'. Lst_Remove (Some a) (Some x) h = Some (SUCCESS, h')
    \<and> visiting h' a False xs ys (lastp xs None) \<and> shrunk a False xs x ys h h'"
proof -
  from vis obtain l where ok: "heap_ok h" and rep: "lst_rep h a False (xs @ x # ys)"
    and l: "lists h a = Some l" "isOpen l" "curPtr l = Some x" "l_prevPtr l = lastp xs None" "atEnd l = Middle"
    by (auto simp: visiting_def)
  obtain nx where nx: "nodes h x = Some nx" using rep by (auto simp: lst_rep_def chain_def)
  obtain h' where h': "Lst_Remove (Some a) (Some x) h = Some (SUCCESS, h')" "shrunk a False xs x ys h h'"
    using Lst_Remove_shrunk [OF ok rep _ nx] by auto
  then have "lists h' a = Some (head_without x nx l)" using l(1) nx by (simp add: shrunk_def)
  moreover have "isOpen (head_without x nx l)" "curPtr (head_without x nx l) = lastp xs None"
    "l_prevPtr (head_without x nx l) = lastp xs None"
    "atEnd (head_without x nx l) = (if xs = [] then Unknown else Middle)"
    using l by (auto simp: head_without_def Let_def)
  moreover have "heap_ok h'" "lst_rep h' a False (xs @ ys)" using h'(2) by (simp_all add: shrunk_def)
  ultimately have "visiting h' a False xs ys (lastp xs None)" by (simp add: visiting_def)
  with h' show ?thesis by blast
qed

text \<open>A client that walks over an open list and removes what a test selects.\<close>

fun sweep :: "('a \<Rightarrow> bool) \<Rightarrow> nat \<Rightarrow> Lst \<Rightarrow> ('a, 'm) heap_scheme \<Rightarrow> ('a, 'm) heap_scheme option" where
  "sweep P 0 l h = Some h"
| "sweep P (Suc n) l h = do {
     (ln, h) \<leftarrow> Lst_Next l h;
     nd \<leftarrow> node_at h ln;
     h \<leftarrow> (if P (datum nd) then map_option snd (Lst_Remove l ln h) else Some h);
     sweep P n l h }"

lemma sweep_visiting:
  "visiting h a False xs ys pred \<Longrightarrow>
     \<exists>h' ps. sweep P (length ys) (Some a) h = Some h' \<and> lst_rep h' a False ps \<and> heap_ok h'
       \<and> data h' ps = data h xs @ filter (\<lambda>d. \<not> P d) (data h ys)"
proof (induction ys arbitrary: h xs pred)
  case Nil
  then show ?case by (auto simp: visiting_def data_def)
next
  case (Cons y ys)
  obtain h1 where h1: "Lst_Next (Some a) h = Some (Some y, h1)"
    "visiting h1 a False (xs @ [y]) ys (lastp xs None)" "nodes h1 = nodes h"
    using Lst_Next_visiting [OF Cons.prems] by blast
  obtain ny where ny: "nodes h1 y = Some ny"
    using h1(2) by (auto simp: visiting_def lst_rep_def chain_def)
  have d1: "data h1 ps = data h ps" for ps using h1(3) by (simp add: data_def)
  have dy: "data h (y # ys) = datum ny # data h ys" using ny h1(3) by (simp add: data_def)
  show ?case
  proof (cases "P (datum ny)")
    case True
    obtain h2 where h2: "Lst_Remove (Some a) (Some y) h1 = Some (SUCCESS, h2)"
      "visiting h2 a False xs ys (lastp xs None)" "shrunk a False xs y ys h1 h2"
      using Lst_Remove_visiting [OF h1(2)] by blast
    have "data h2 xs = data h xs \<and> data h2 ys = data h ys"
      using h2(3) d1 by (auto simp: shrunk_def data_def)
    then show ?thesis
      using Cons.IH [OF h2(2)] True ny dy h1(1) h2(1) by auto
  next
    case False
    then show ?thesis
      using Cons.IH [OF h1(2)] ny dy h1(1,3) d1 by (auto simp: data_append data_def)
  qed
qed

section \<open>Applying a procedure to every element\<close>

text \<open>
  A procedure that works on the client's part of the state only: \<open>r\<close> is what it returns and
  \<open>g\<close> what it does, both of the datum and the client's state.
\<close>

definition acts ::
  "('a \<Rightarrow> 'd \<Rightarrow> ('a, 'm) heap_scheme \<Rightarrow> (int \<times> ('a, 'm) heap_scheme) option) \<Rightarrow> 'd
     \<Rightarrow> ('a \<Rightarrow> 'm \<Rightarrow> int) \<Rightarrow> ('a \<Rightarrow> 'm \<Rightarrow> 'm) \<Rightarrow> bool" where
  "acts proc d r g \<longleftrightarrow> (\<forall>v h. proc v d h = Some (r v (more h), heap.more_update (g v) h))"

fun run_until :: "('a \<Rightarrow> 'm \<Rightarrow> int) \<Rightarrow> ('a \<Rightarrow> 'm \<Rightarrow> 'm) \<Rightarrow> 'a list \<Rightarrow> 'm \<Rightarrow> 'm" where
  "run_until r g [] m = m"
| "run_until r g (v # vs) m = (if r v m = 0 then run_until r g vs (g v m) else g v m)"

lemma foreach_step:
  assumes acts: "acts proc d r g" and nd: "nodes h x = Some nd" and l: "lists h a = Some l"
    and live: "flags nd = 0"
  shows "foreach_loop (Some a) proc d (Some x) h =
    (let h' = heap.more_update (g (datum nd)) h in
     if r (datum nd) (more h) = 0 \<and> firstPtr l \<noteq> None \<and> \<not> (nextPtr nd = None \<or> nextPtr nd = firstPtr l)
     then foreach_loop (Some a) proc d (nextPtr nd) h' else Some h')"
proof -
  have idem: "heap.more_update (g (datum nd)) (h\<lparr>nodes := (nodes h)(x \<mapsto> nd)\<rparr>)
      = heap.more_update (g (datum nd)) h"
    using nd by (simp add: fun_upd_idem)
  show ?thesis
    using acts nd l live idem
    by (auto simp: foreach_loop.simps [of _ _ _ "Some x"] acts_def Let_def)
qed

lemma foreach_chain:
  assumes acts: "acts proc d r g" and l: "lists h a = Some l" "firstPtr l = Some f"
    and q: "q = None \<or> q = Some f"
  shows "linked (nodes h) p ys q \<Longrightarrow> ys \<noteq> [] \<Longrightarrow> f \<notin> set (tl ys) \<Longrightarrow>
    \<forall>y \<in> set ys. map_option flags (nodes h y) = Some 0 \<Longrightarrow>
    foreach_loop (Some a) proc d (headp ys None) h = Some (heap.more_update (run_until r g (data h ys)) h)"
  using l
proof (induction ys arbitrary: h p)
  case Nil
  then show ?case by simp
next
  case (Cons y ys)
  then obtain nd where nd: "nodes h y = Some nd" "nextPtr nd = headp ys q" "flags nd = 0"
    and link: "linked (nodes h) (Some y) ys q" by auto
  define h' where "h' = heap.more_update (g (datum nd)) h"
  have h': "nodes h' = nodes h" "lists h' = lists h" "data h' ys = data h ys"
    by (simp_all add: h'_def data_def)
  have dy: "data h (y # ys) = datum nd # data h ys" using nd by (simp add: data_def)
  have step: "foreach_loop (Some a) proc d (Some y) h =
    (if r (datum nd) (more h) = 0 \<and> ys \<noteq> [] then foreach_loop (Some a) proc d (nextPtr nd) h' else Some h')"
    using foreach_step [OF acts nd(1) Cons.prems(5) nd(3)] nd(2) Cons.prems(3,6) q
    by (cases ys) (auto simp: h'_def Let_def)
  show ?case
  proof (cases "r (datum nd) (more h) = 0 \<and> ys \<noteq> []")
    case True
    have f: "f \<notin> set (tl ys)" using Cons.prems(3) by (cases ys) auto
    have "foreach_loop (Some a) proc d (headp ys None) h' = Some (heap.more_update (run_until r g (data h ys)) h')"
      using Cons.IH [of h' "Some y"] True f link Cons.prems(4-6) h' by simp
    with True step nd(2) dy show ?thesis
      by (cases h) (simp add: h'_def)
  next
    case False
    with step dy show ?thesis by (cases h) (auto simp: h'_def data_def)
  qed
qed

lemma Lst_ForEach_rep:
  assumes "lst_rep h a circ ps" and "acts proc d r g"
    and "\<forall>x \<in> set ps. map_option flags (nodes h x) = Some 0"
  shows "Lst_ForEach (Some a) proc d h = Some (heap.more_update (run_until r g (data h ps)) h)"
proof -
  from assms(1) obtain l where l: "lists h a = Some l" "ends l circ ps" and c: "chain h circ ps"
    by (auto simp: lst_rep_def)
  show ?thesis
  proof (cases ps)
    case Nil
    with l show ?thesis
      by (cases h) (simp add: Lst_ForEach_def Lst_First_def Lst_ForEachFrom_def ends_def data_def)
  next
    case (Cons x xs)
    then have "firstPtr l = Some x" "x \<notin> set (tl ps)" using l c by (auto simp: ends_def chain_def)
    with foreach_chain [OF assms(2) l(1), of x "closing circ (headp ps None)" "closing circ (lastp ps None)" ps]
      c assms(3) Cons l
    show ?thesis
      by (cases circ)
        (auto simp: Lst_ForEach_def Lst_First_rep [OF assms(1)] Lst_ForEachFrom_def chain_def)
  qed
qed

text \<open>
  A procedure that takes the element it is called on out of the list: \<open>x\<close> is the list's only
  node, and the procedure is the removal of that node.
\<close>

definition remove_proc :: "nat \<Rightarrow> nat \<Rightarrow> 'a \<Rightarrow> 'd \<Rightarrow> ('a, 'm) heap_scheme \<Rightarrow> (int \<times> ('a, 'm) heap_scheme) option" where
  "remove_proc a x v d h = map_option (\<lambda>(_, h). (0, h)) (Lst_Remove (Some a) (Some x) h)"

definition nested_proc :: "nat \<Rightarrow> nat \<Rightarrow> 'a \<Rightarrow> 'd \<Rightarrow> ('a, 'm) heap_scheme \<Rightarrow> (int \<times> ('a, 'm) heap_scheme) option" where
  "nested_proc a x v d h = map_option (\<lambda>h. (0, h)) (Lst_ForEach (Some a) (remove_proc a x) d h)"

lemma remove_while_applying:
  assumes "lst_rep h a False [x]" and "nodes h x = Some nx" and "useCount nx = 0" and "flags nx = 0"
  shows "\<exists>h'. Lst_ForEach (Some a) (remove_proc a x) d h = Some h'
    \<and> lst_rep h' a False [] \<and> nodes h' x = None"
proof -
  have "prevPtr nx = None" "nextPtr nx = None" using assms by (auto simp: lst_rep_def chain_def)
  with assms show ?thesis
    by (auto simp: Lst_ForEach_def Lst_First_def Lst_ForEachFrom_def lst_rep_def ends_def chain_def
        foreach_loop.simps [of _ _ _ "Some x"] remove_proc_def Lst_Remove_def LN_DELETED_def)
qed

lemma nested_removal_dangles:
  assumes "lst_rep h a False [x]" and "nodes h x = Some nx" and "useCount nx = 0" and "flags nx = 0"
  shows "Lst_ForEach (Some a) (nested_proc a x) d h = None"
proof -
  have "prevPtr nx = None" "nextPtr nx = None" using assms by (auto simp: lst_rep_def chain_def)
  with assms show ?thesis
    by (auto simp: Lst_ForEach_def Lst_First_def Lst_ForEachFrom_def lst_rep_def ends_def chain_def
        foreach_loop.simps [of _ _ _ "Some x"] nested_proc_def remove_proc_def Lst_Remove_def LN_DELETED_def
        node_set_def)
qed


section \<open>The queue operations\<close>

text \<open>
  \<open>Lst_EnQueue\<close> and \<open>Lst_DeQueue\<close> on the list at address \<open>a\<close>, as the queue contract has them: a
  failure status of the first would be an undefined result.
\<close>

definition lst_queue_rep :: "nat \<Rightarrow> ('a, 'm) heap_scheme \<Rightarrow> 'a list \<Rightarrow> bool" where
  "lst_queue_rep a h xs \<longleftrightarrow> heap_ok h \<and> (\<exists>ps. lst_rep h a False ps \<and> data h ps = xs)"

definition lst_enq :: "nat \<Rightarrow> 'a \<Rightarrow> ('a, 'm) heap_scheme \<Rightarrow> ('a, 'm) heap_scheme option" where
  "lst_enq a d h = (case Lst_EnQueue (Some a) d h of Some (SUCCESS, h') \<Rightarrow> Some h' | _ \<Rightarrow> None)"

interpretation lst_queue: fifo "lst_queue_rep a" "lst_enq a" "Lst_DeQueue (Some a)" for a
proof
  fix h :: "('a, 'm) heap_scheme" and xs x
  assume "lst_queue_rep a h xs"
  then obtain ps where ok: "heap_ok h" and rep: "lst_rep h a False ps" and xs: "data h ps = xs"
    by (auto simp: lst_queue_rep_def)
  from Lst_EnQueue_rep [OF ok rep, of x] obtain h' where
    "Lst_EnQueue (Some a) x h = Some (SUCCESS, h')" "grown a False ps [] x h h'" by blast
  then show "\<exists>h'. lst_enq a x h = Some h' \<and> lst_queue_rep a h' (xs @ [x])"
    using xs by (auto simp: lst_enq_def lst_queue_rep_def grown_def data_def)
next
  fix h :: "('a, 'm) heap_scheme" and x xs
  assume "lst_queue_rep a h (x # xs)"
  then obtain p ps where ok: "heap_ok h" and rep: "lst_rep h a False (p # ps)"
    and d: "data h (p # ps) = x # xs"
    by (auto simp: lst_queue_rep_def data_def)
  from Lst_DeQueue_rep [OF ok rep] d obtain h' where
    "Lst_DeQueue (Some a) h = Some (Some x, h')" "shrunk a False [] p ps h h'" by auto
  then show "\<exists>h'. Lst_DeQueue (Some a) h = Some (Some x, h') \<and> lst_queue_rep a h' xs"
    using d by (auto simp: lst_queue_rep_def shrunk_def data_def)
next
  fix h :: "('a, 'm) heap_scheme"
  assume "lst_queue_rep a h []"
  then show "\<exists>h'. Lst_DeQueue (Some a) h = Some (None, h') \<and> lst_queue_rep a h' []"
    using Lst_DeQueue_empty by (auto simp: lst_queue_rep_def data_def)
qed

section \<open>Properties\<close>

text \<open>Two small lists in a heap: the first has the data 10 and 20, the second 30.\<close>

definition demo_heap :: "nat heap" where
  "demo_heap = \<lparr>nodes = [2 \<mapsto> fresh_node None (Some 3) 10, 3 \<mapsto> fresh_node (Some 2) None 20,
       5 \<mapsto> fresh_node None None 30],
     lists = [1 \<mapsto> \<lparr>firstPtr = Some 2, lastPtr = Some 3, isCirc = False, atEnd = Unknown,
                    isOpen = False, curPtr = None, l_prevPtr = None\<rparr>,
              4 \<mapsto> \<lparr>firstPtr = Some 5, lastPtr = Some 5, isCirc = False, atEnd = Unknown,
                    isOpen = False, curPtr = None, l_prevPtr = None\<rparr>],
     brk = 6, junk = Some 99\<rparr>"

lemma demo_ok: "heap_ok demo_heap"
  by (auto simp: heap_ok_def demo_heap_def)

lemma demo_rep: "lst_rep demo_heap 1 False [2, 3]" "lst_rep demo_heap 4 False [5]"
  by (auto simp: lst_rep_def demo_heap_def ends_def chain_def)

text \<open>
  appending a datum behind the last of the nodes \<open>xs\<close> of a well-formed list \<open>xs @ ys\<close>, or to
  an empty list, succeeds and gives a well-formed list with a new node in exactly that place;
  its data are the old ones with the new one between, and no other node or list of the heap
  has changed.
\<close>

theorem lst_append_correct:
  assumes "heap_ok h" and "lst_rep h a circ (xs @ ys)" and "xs = [] \<Longrightarrow> ys = []"
  shows "\<exists>h'. Lst_Append (Some a) (lastp xs None) d h = Some (SUCCESS, h')
    \<and> lst_rep h' a circ (xs @ brk h # ys)
    \<and> data h' (xs @ brk h # ys) = data h xs @ d # data h ys
    \<and> heap_ok h' \<and> frame a (insert (brk h) (set (xs @ ys))) h h'"
  using Lst_Append_grown [OF assms(1,2) refl assms(3), of d] by (auto simp: grown_def)

theorem lst_append_correct_witness:
  "\<exists>h'. Lst_Append (Some 1) (Some 2) 15 demo_heap = Some (SUCCESS, h')
    \<and> lst_rep h' 1 False [2, 6, 3] \<and> data h' [2, 6, 3] = [10, 15, 20]
    \<and> heap_ok h' \<and> frame 1 {6, 2, 3} demo_heap h'"
proof -
  have "brk demo_heap = 6" "data demo_heap [2] = [10]" "data demo_heap [3] = [20]"
    by (simp_all add: demo_heap_def data_def)
  then show ?thesis
    using lst_append_correct [OF demo_ok, of 1 False "[2]" "[3]" 15] demo_rep by simp
qed

text \<open>
  inserting a datum before the first of the nodes \<open>ys\<close> of a well-formed list \<open>xs @ ys\<close>, or
  into an empty list, likewise.
\<close>

theorem lst_insert_correct:
  assumes "heap_ok h" and "lst_rep h a circ (xs @ ys)" and "ys = [] \<Longrightarrow> xs = []"
  shows "\<exists>h'. Lst_Insert (Some a) (headp ys None) d h = Some (SUCCESS, h')
    \<and> lst_rep h' a circ (xs @ brk h # ys)
    \<and> data h' (xs @ brk h # ys) = data h xs @ d # data h ys
    \<and> heap_ok h' \<and> frame a (insert (brk h) (set (xs @ ys))) h h'"
  using Lst_Insert_grown [OF assms(1,2) refl assms(3), of d] by (auto simp: grown_def)

theorem lst_insert_correct_witness:
  "\<exists>h'. Lst_Insert (Some 1) (Some 2) 5 demo_heap = Some (SUCCESS, h')
    \<and> lst_rep h' 1 False [6, 2, 3] \<and> data h' [6, 2, 3] = [5, 10, 20]
    \<and> heap_ok h' \<and> frame 1 {6, 2, 3} demo_heap h'"
proof -
  have "brk demo_heap = 6" "data demo_heap [2, 3] = [10, 20]" "data demo_heap [] = []"
    by (simp_all add: demo_heap_def data_def)
  then show ?thesis
    using lst_insert_correct [OF demo_ok, of 1 False "[]" "[2, 3]" 5] demo_rep by simp
qed

text \<open>
  removing a node of a well-formed list, unless it is the only node of a circular one,
  leaves a well-formed list of the remaining nodes with their data; the node is freed, or, when
  a traversal is using it, kept and marked for deletion.
\<close>

theorem lst_remove_correct:
  assumes "heap_ok h" and "lst_rep h a circ (xs @ x # ys)" and "circ \<Longrightarrow> xs @ ys \<noteq> []"
    and "nodes h x = Some nx"
  shows "\<exists>h'. Lst_Remove (Some a) (Some x) h = Some (SUCCESS, h')
    \<and> lst_rep h' a circ (xs @ ys) \<and> data h' (xs @ ys) = data h xs @ data h ys
    \<and> heap_ok h' \<and> frame a (set (xs @ x # ys)) h h'
    \<and> nodes h' x = (if useCount nx = 0 then None else Some (nx\<lparr>flags := flags nx OR LN_DELETED\<rparr>))"
  using Lst_Remove_shrunk [OF assms(1,2) _ assms(4)] assms(3) by (auto simp: shrunk_def)

theorem lst_remove_correct_witness:
  "\<exists>h'. Lst_Remove (Some 1) (Some 2) demo_heap = Some (SUCCESS, h')
    \<and> lst_rep h' 1 False [3] \<and> data h' [3] = [20]
    \<and> heap_ok h' \<and> frame 1 {2, 3} demo_heap h' \<and> nodes h' 2 = None"
proof -
  have "nodes demo_heap 2 = Some (fresh_node None (Some 3) 10)" "data demo_heap [3] = [20]"
    "data demo_heap [] = []"
    by (simp_all add: demo_heap_def data_def)
  then show ?thesis
    using lst_remove_correct [OF demo_ok, of 1 False "[]" 2 "[3]"] demo_rep by simp
qed

text \<open>
  the library's queue operations are a queue: from an empty list, what is enqueued comes out
  in the same order, and then the list is empty again.
\<close>

theorem lst_queue_in_order:
  assumes "lst_queue_rep a h []"
  shows "\<exists>h1 h2 h3. fifo.enq_all (lst_enq a) xs h = Some h1
    \<and> fifo.deq_all (Lst_DeQueue (Some a)) (length xs) h1 = Some (map Some xs, h2)
    \<and> Lst_DeQueue (Some a) h2 = Some (None, h3)"
  by (rule lst_queue.in_order [OF assms])

theorem lst_queue_in_order_witness:
  "\<exists>h1 h2 h3. fifo.enq_all (lst_enq 6) [1, 2, 3] (snd (Lst_Init False demo_heap)) = Some h1
    \<and> fifo.deq_all (Lst_DeQueue (Some 6)) 3 h1 = Some ([Some 1, Some 2, Some 3], h2)
    \<and> Lst_DeQueue (Some 6) h2 = Some (None, h3)"
proof -
  have "lst_queue_rep 6 (snd (Lst_Init False demo_heap)) []"
    using Lst_Init_rep [OF demo_ok surjective_pairing]
    by (auto simp: lst_queue_rep_def data_def Lst_Init_def demo_heap_def)
  then show ?thesis
    using lst_queue_in_order [of 6 "snd (Lst_Init False demo_heap)" "[1, 2, 3]"]
    by (simp add: numeral_3_eq_3)
qed

text \<open>
  concatenating two well-formed, disjoint lists succeeds in both modes. Relinking makes the
  second list's nodes the tail of the first and frees the second head; copying appends one new
  node for each node of the second list, which stays as it was. Either way the data of the
  first list are followed by those of the second, and a circular first list is closed again.
\<close>

theorem lst_concat_correct:
  assumes "heap_ok h" and "lst_rep h a1 c1 xs" and "lst_rep h a2 c2 ys" and "a1 \<noteq> a2"
    and "set xs \<inter> set ys = {}"
  shows "(\<exists>h'. Lst_Concat (Some a1) (Some a2) LST_CONCLINK h = Some (SUCCESS, h')
      \<and> lst_rep h' a1 c1 (xs @ ys) \<and> data h' (xs @ ys) = data h xs @ data h ys
      \<and> lists h' a2 = None)
    \<and> (\<exists>h' ns. Lst_Concat (Some a1) (Some a2) LST_CONCNEW h = Some (SUCCESS, h')
      \<and> ns = [brk h..<brk h + length ys]
      \<and> lst_rep h' a1 c1 (xs @ ns) \<and> data h' (xs @ ns) = data h xs @ data h ys
      \<and> lst_rep h' a2 c2 ys \<and> data h' ys = data h ys \<and> heap_ok h')"
proof
  from concat_link_rep [OF assms(2-5)] obtain N l1 where
    link: "concat_link (Some a1) (Some a2) h
        = Some (h\<lparr>nodes := N, lists := (lists h)(a1 \<mapsto> l1, a2 := None)\<rparr>)"
    and N: "ring N c1 (xs @ ys)" "ends l1 c1 (xs @ ys)" "ptrs_only (set (xs @ ys)) (nodes h) N"
    by blast
  let ?h = "h\<lparr>nodes := N, lists := (lists h)(a1 \<mapsto> l1, a2 := None)\<rparr>"
  have "data ?h ps = data h ps" for ps using N(3) by (intro ptrs_only_data) simp
  moreover have "lst_rep ?h a1 c1 (xs @ ys)"
    using N assms by (auto simp: lst_rep_def chain_ring)
  ultimately show "\<exists>h'. Lst_Concat (Some a1) (Some a2) LST_CONCLINK h = Some (SUCCESS, h')
      \<and> lst_rep h' a1 c1 (xs @ ys) \<and> data h' (xs @ ys) = data h xs @ data h ys
      \<and> lists h' a2 = None"
    using link by (intro exI [of _ ?h]) (simp add: Lst_Concat_def data_append)
  show "\<exists>h' ns. Lst_Concat (Some a1) (Some a2) LST_CONCNEW h = Some (SUCCESS, h')
      \<and> ns = [brk h..<brk h + length ys]
      \<and> lst_rep h' a1 c1 (xs @ ns) \<and> data h' (xs @ ns) = data h xs @ data h ys
      \<and> lst_rep h' a2 c2 ys \<and> data h' ys = data h ys \<and> heap_ok h'"
    using concat_new_rep [OF assms] by (auto simp: Lst_Concat_def LST_CONCNEW_def LST_CONCLINK_def)
qed

theorem lst_concat_correct_witness:
  "(\<exists>h'. Lst_Concat (Some 1) (Some 4) LST_CONCLINK demo_heap = Some (SUCCESS, h')
      \<and> lst_rep h' 1 False [2, 3, 5] \<and> data h' [2, 3, 5] = [10, 20, 30] \<and> lists h' 4 = None)
    \<and> (\<exists>h' ns. Lst_Concat (Some 1) (Some 4) LST_CONCNEW demo_heap = Some (SUCCESS, h')
      \<and> lst_rep h' 1 False ([2, 3] @ ns) \<and> data h' ([2, 3] @ ns) = [10, 20, 30]
      \<and> lst_rep h' 4 False [5] \<and> data h' [5] = [30] \<and> heap_ok h')"
proof -
  have "data demo_heap [2, 3] = [10, 20]" "data demo_heap [5] = [30]"
    by (simp_all add: demo_heap_def data_def)
  then show ?thesis
    using lst_concat_correct [OF demo_ok demo_rep] by auto
qed

text \<open>
  duplicating a well-formed list makes a new, separate list of the same shape whose data are
  the copies of the original's, in order, and leaves the original alone.
\<close>

theorem lst_duplicate_correct:
  assumes ok: "heap_ok h" and rep: "lst_rep h a circ ps" and cp: "copies cp c"
  shows "\<exists>h' n qs. Lst_Duplicate (Some a) cp h = Some (Some n, h') \<and> n \<noteq> a
    \<and> lst_rep h' n circ qs \<and> data h' qs = map c (data h ps)
    \<and> lst_rep h' a circ ps \<and> data h' ps = data h ps \<and> set ps \<inter> set qs = {} \<and> heap_ok h'"
proof -
  obtain nl h1 where init: "Lst_Init circ h = (nl, h1)" by fastforce
  from Lst_Init_rep [OF ok init] have h1: "nl = Some (brk h)" "lst_rep h1 (brk h) circ []"
    "heap_ok h1" "frame (brk h) {} h h1" by auto
  note fresh = lst_rep_fresh [OF ok rep] and below = lst_rep_below [OF ok rep]
  have rep1: "lst_rep h1 a circ ps" "data h1 ps = data h ps"
    using lst_rep_frame [OF rep h1(4)] fresh by auto
  obtain l where l: "lists h a = Some l" "isCirc l = circ" "firstPtr l = headp ps None"
    using rep by (auto simp: lst_rep_def ends_def)
  from dupl_loop_rep [OF cp fresh(1) [symmetric] h1(3), of circ "[]" ps "[]"] rep1 h1(2)
  obtain h' qs where
    loop: "dupl_loop cp (Some a) (Some (brk h)) (headp ps None) h1 = Some (SUCCESS, h')"
    and res: "lst_rep h' (brk h) circ qs" "data h' qs = map c (data h ps)" "lst_rep h' a circ ps"
      "data h' ps = data h ps" "heap_ok h'" "set qs \<inter> {0..<brk h1} = {}"
    by (auto simp: data_def)
  have "Lst_Duplicate (Some a) cp h = Some (Some (brk h), h')"
    using l init loop h1(1) by (simp add: Lst_Duplicate_def)
  moreover have "x \<notin> set qs" if "x \<in> set ps" for x
    using res(6) below(2) [OF that] h1(4) by (auto simp: frame_def)
  ultimately show ?thesis using res fresh(1) by blast
qed

theorem lst_duplicate_correct_witness:
  "\<exists>h' n qs. Lst_Duplicate (Some 1) (Some (\<lambda>d h. (d + 1, h))) demo_heap = Some (Some n, h') \<and> n \<noteq> 1
    \<and> lst_rep h' n False qs \<and> data h' qs = [11, 21]
    \<and> lst_rep h' 1 False [2, 3] \<and> data h' [2, 3] = [10, 20] \<and> set [2, 3] \<inter> set qs = {} \<and> heap_ok h'"
proof -
  have "data demo_heap [2, 3] = [10, 20]" by (simp add: demo_heap_def data_def)
  moreover have "copies (Some (\<lambda>d h. (d + 1, h))) (\<lambda>d. d + 1 :: nat)" by (simp add: copies_def)
  ultimately show ?thesis
    using lst_duplicate_correct [OF demo_ok demo_rep(1)] by fastforce
qed

text \<open>
  destroying a well-formed list calls the given procedure on every datum in order, frees
  every node and the list head exactly once, and touches nothing else.
\<close>

theorem lst_destroy_correct:
  assumes "lst_rep h a circ ps" and "frees fp g"
  shows "\<exists>h'. Lst_Destroy (Some a) fp h = Some h' \<and> more h' = fold g (data h ps) (more h)
    \<and> lists h' = (lists h)(a := None)
    \<and> nodes h' = (\<lambda>x. if x \<in> set ps then None else nodes h x)"
  using Lst_Destroy_rep [OF assms] by (auto simp: without_def)

theorem lst_destroy_correct_witness:
  "\<exists>h'. Lst_Destroy (Some 1) None demo_heap = Some h' \<and> more h' = ()
    \<and> lists h' = (lists demo_heap)(1 := None)
    \<and> nodes h' = (\<lambda>x. if x \<in> {2, 3} then None else nodes demo_heap x)"
  using lst_destroy_correct [OF demo_rep(1), of None "\<lambda>_. id"] by (simp add: frees_def)

text \<open>
  searching a well-formed list, circular or not, ends and returns the first node whose datum
  the comparison accepts, and \<open>NIL\<close> when there is none.
\<close>

theorem lst_find_correct:
  assumes "lst_rep h a circ ps"
  shows "Lst_Find (Some a) d cProc h = Some (find (\<lambda>x. cProc (datum (the (nodes h x))) d = 0) ps)
    \<and> Lst_Member (Some a) v h = Some (find (\<lambda>x. datum (the (nodes h x)) = v) ps)"
  using Lst_Find_rep [OF assms] Lst_Member_rep [OF assms] by (simp add: first_match_find)

theorem lst_find_correct_witness:
  "Lst_Find (Some 1) (20::nat) (\<lambda>x y. int x - int y) demo_heap = Some (Some 3)
    \<and> Lst_Member (Some 1) 7 demo_heap = Some None"
  using lst_find_correct [OF demo_rep(1), of 20 "\<lambda>x y. int x - int y" 7]
  by (simp add: demo_heap_def)

text \<open>
  opening a list and stepping through it visits every node once; removing the current node
  on the way does not lose or repeat a node, so that a walk that removes what a test selects
  leaves exactly the other data, in order.
\<close>

theorem lst_sweep_correct:
  assumes "heap_ok h" and "lst_rep h a False ps"
  shows "\<exists>h1 h2 qs. Lst_Open (Some a) h = Some (SUCCESS, h1)
    \<and> sweep P (length ps) (Some a) h1 = Some h2
    \<and> lst_rep h2 a False qs \<and> heap_ok h2 \<and> data h2 qs = filter (\<lambda>d. \<not> P d) (data h ps)"
proof -
  from Lst_Open_visiting [OF assms] obtain h1 pred where
    h1: "Lst_Open (Some a) h = Some (SUCCESS, h1)" "visiting h1 a False [] ps pred" "nodes h1 = nodes h"
    by blast
  from sweep_visiting [OF h1(2), of P] h1(1,3) show ?thesis by (auto simp: data_def)
qed

theorem lst_sweep_correct_witness:
  "\<exists>h1 h2 qs. Lst_Open (Some 1) demo_heap = Some (SUCCESS, h1)
    \<and> sweep (\<lambda>d. d < 15) 2 (Some 1) h1 = Some h2
    \<and> lst_rep h2 1 False qs \<and> heap_ok h2 \<and> data h2 qs = [20]"
proof -
  have "data demo_heap [2, 3] = [10, 20]" by (simp add: demo_heap_def data_def)
  then show ?thesis
    using lst_sweep_correct [OF demo_ok demo_rep(1), of "\<lambda>d. d < 15"] by (simp add: numeral_2_eq_2)
qed


definition demo_sum :: "nat \<Rightarrow> unit \<Rightarrow> (nat, nat) heap_scheme \<Rightarrow> (int \<times> (nat, nat) heap_scheme) option" where
  "demo_sum v d h = Some (if v = 20 then 1 else 0, heap.more_update (\<lambda>s. s + v) h)"


text \<open>
  a procedure run by \<open>Lst_ForEach\<close> may remove the element it is called on: the node's
  deletion waits for the traversal to leave it. The use count does not protect two nested
  traversals, though: when the inner one removes the element both are on, it also frees it, and
  the outer one goes on with a freed node.
\<close>

theorem lst_foreach_removal:
  assumes "lst_rep h a False [x]" and "nodes h x = Some nx" and "useCount nx = 0" and "flags nx = 0"
  shows "(\<exists>h'. Lst_ForEach (Some a) (remove_proc a x) d h = Some h'
      \<and> lst_rep h' a False [] \<and> nodes h' x = None)
    \<and> Lst_ForEach (Some a) (nested_proc a x) d h = None"
  using remove_while_applying [OF assms, of d] nested_removal_dangles [OF assms, of d] by blast

theorem lst_foreach_removal_witness:
  "(\<exists>h'. Lst_ForEach (Some 4) (remove_proc 4 5) () demo_heap = Some h'
      \<and> lst_rep h' 4 False [] \<and> nodes h' 5 = None)
    \<and> Lst_ForEach (Some 4) (nested_proc 4 5) () demo_heap = None"
  by (rule lst_foreach_removal [OF demo_rep(2), where nx = "fresh_node None None 30"]) (simp_all add: demo_heap_def)

text \<open>
  removing the only node of a circular list frees the node but leaves the list's \<open>lastPtr\<close>
  pointing to it, and destroying the now empty list writes through that pointer.
\<close>

theorem lst_remove_sole_dangles:
  assumes "heap_ok h" and "lst_rep h a True [x]" and "map_option useCount (nodes h x) = Some 0"
  shows "\<exists>h' l'. Lst_Remove (Some a) (Some x) h = Some (SUCCESS, h') \<and> lists h' a = Some l'
    \<and> firstPtr l' = None \<and> lastPtr l' = Some x \<and> nodes h' x = None \<and> Lst_Destroy (Some a) f h' = None"
  by (rule Lst_Remove_sole [OF assms])

definition demo_ring :: "nat heap" where
  "demo_ring = \<lparr>nodes = [2 \<mapsto> fresh_node (Some 2) (Some 2) 10],
     lists = [1 \<mapsto> \<lparr>firstPtr = Some 2, lastPtr = Some 2, isCirc = True, atEnd = Unknown,
                    isOpen = False, curPtr = None, l_prevPtr = None\<rparr>], brk = 3, junk = None\<rparr>"

theorem lst_remove_sole_dangles_witness:
  "\<exists>h' l'. Lst_Remove (Some 1) (Some 2) demo_ring = Some (SUCCESS, h') \<and> lists h' 1 = Some l'
    \<and> firstPtr l' = None \<and> lastPtr l' = Some 2 \<and> nodes h' 2 = None
    \<and> Lst_Destroy (Some 1) None h' = None"
  by (rule lst_remove_sole_dangles)
    (auto simp: demo_ring_def heap_ok_def lst_rep_def ends_def chain_def)

end
