(* ===== verification/Make_Hash.thy ===== *)
theory Make_Hash
  imports Glish_Interfaces "HOL-Library.Multiset"
begin

text \<open>
  The hash tables of the make client (\<open>glish/clients/make/hash.c\<close>): chained buckets, a table
  that doubles when its chains get long, and enumeration. An entry is identified by its address,
  which clients hold on to; a bucket is the list of the addresses on its chain. \<open>None\<close> is an
  access to a deleted table or a freed entry. The table's \<open>int\<close> counters are natural numbers.
\<close>

unbundle bit_operations_syntax

section \<open>Tables\<close>

text \<open>\<open>clientData\<close> is \<open>None\<close> for the null pointer of a new entry.\<close>

record 'v Hash_Entry =
  clientData :: "'v option"
  namehash :: u32
  name :: string

text \<open>The table with the memory its entries live in; \<open>bucketPtr\<close> is \<open>None\<close> when it is null.\<close>

record 'v Hash_Table =
  bucketPtr :: "nat list list option"
  t_size :: nat
  numEntries :: nat
  t_mask :: u32
  entries :: "nat \<Rightarrow> 'v Hash_Entry option"
  fresh :: nat

record Hash_Search =
  nextIndex :: nat
  hashEntryPtr :: "nat option"

datatype hash_abort = BadDeleteEntry

definition rebuildLimit :: nat where
  "rebuildLimit = 8"

text \<open>The hash of a key: \<open>h = (h << 5) - h + *p\<close>, with \<open>char\<close> signed.\<close>

definition hash_step :: "u32 \<Rightarrow> char \<Rightarrow> u32" where
  "hash_step h c = push_bit 5 h - h + scast (cbyte c)"

definition hash_key :: "string \<Rightarrow> u32" where
  "hash_key key = foldl hash_step 0 key"

text \<open>The bucket of a hash value.\<close>

definition bucket :: "'v Hash_Table \<Rightarrow> u32 \<Rightarrow> nat" where
  "bucket t h = unat (h AND t_mask t)"

definition chain_of :: "'v Hash_Table \<Rightarrow> nat \<Rightarrow> nat list option" where
  "chain_of t i = do {
     bs \<leftarrow> bucketPtr t;
     if i < length bs then Some (bs ! i) else None }"

section \<open>Operations\<close>

text \<open>The loop \<open>for (i = 2; i < numBuckets; i <<= 1)\<close>.\<close>

function round_up :: "nat \<Rightarrow> int \<Rightarrow> nat" where
  "round_up i n = (if 0 < i \<and> int i < n then round_up (2 * i) n else i)"
  by pat_completeness auto
termination
  by (relation "measure (\<lambda>(i, n). nat n - i)") auto

declare round_up.simps [simp del]

definition Hash_InitTable :: "'v Hash_Table \<Rightarrow> int \<Rightarrow> 'v Hash_Table" where
  "Hash_InitTable t numBuckets =
     (let i = (if numBuckets \<le> 0 then 16 else round_up 2 numBuckets)
      in t\<lparr>numEntries := 0, t_size := i, t_mask := of_nat (i - 1),
           bucketPtr := Some (replicate i [])\<rparr>)"

fun free_all :: "nat list \<Rightarrow> 'v Hash_Table \<Rightarrow> 'v Hash_Table option" where
  "free_all [] t = Some t"
| "free_all (a # as) t = do {
     _ \<leftarrow> entries t a;
     free_all as (t\<lparr>entries := (entries t)(a := None)\<rparr>) }"

definition Hash_DeleteTable :: "'v Hash_Table \<Rightarrow> 'v Hash_Table option" where
  "Hash_DeleteTable t = do {
     bs \<leftarrow> bucketPtr t;
     t \<leftarrow> free_all (concat (take (t_size t) bs)) t;
     Some (t\<lparr>bucketPtr := None\<rparr>) }"

fun find_chain :: "(nat \<Rightarrow> 'v Hash_Entry option) \<Rightarrow> u32 \<Rightarrow> string \<Rightarrow> nat list \<Rightarrow> nat option option" where
  "find_chain E h key [] = Some None"
| "find_chain E h key (a # as) = do {
     e \<leftarrow> E a;
     if namehash e = h \<and> name e = key then Some (Some a) else find_chain E h key as }"

definition Hash_FindEntry :: "'v Hash_Table \<Rightarrow> string \<Rightarrow> nat option option" where
  "Hash_FindEntry t key = do {
     chain \<leftarrow> chain_of t (bucket t (hash_key key));
     find_chain (entries t) (hash_key key) key chain }"

text \<open>Moving one entry to the front of its new bucket.\<close>

definition rehash :: "(nat \<Rightarrow> 'v Hash_Entry option) \<Rightarrow> u32 \<Rightarrow> nat \<Rightarrow> nat list list \<Rightarrow> nat list list option" where
  "rehash E msk a bs = do {
     e \<leftarrow> E a;
     let i = unat (namehash e AND msk);
     if i < length bs then Some (bs[i := a # bs ! i]) else None }"

fun rehash_all ::
  "(nat \<Rightarrow> 'v Hash_Entry option) \<Rightarrow> u32 \<Rightarrow> nat list \<Rightarrow> nat list list \<Rightarrow> nat list list option" where
  "rehash_all E msk [] bs = Some bs"
| "rehash_all E msk (a # as) bs = do { bs \<leftarrow> rehash E msk a bs; rehash_all E msk as bs }"

definition RebuildTable :: "'v Hash_Table \<Rightarrow> 'v Hash_Table option" where
  "RebuildTable t = do {
     oldhp \<leftarrow> bucketPtr t;
     let i = 2 * t_size t;
     let msk = of_nat (i - 1);
     bs \<leftarrow> rehash_all (entries t) msk (concat (take (t_size t) oldhp)) (replicate i []);
     Some (t\<lparr>t_size := i, t_mask := msk, bucketPtr := Some bs\<rparr>) }"

text \<open>The result is the entry, whether it is new, and the table.\<close>

definition Hash_CreateEntry :: "'v Hash_Table \<Rightarrow> string \<Rightarrow> (nat \<times> bool \<times> 'v Hash_Table) option" where
  "Hash_CreateEntry t key = do {
     let h = hash_key key;
     chain \<leftarrow> chain_of t (bucket t h);
     found \<leftarrow> find_chain (entries t) h key chain;
     case found of
       Some e \<Rightarrow> Some (e, False, t)
     | None \<Rightarrow> do {
         t \<leftarrow> (if rebuildLimit * t_size t \<le> numEntries t then RebuildTable t else Some t);
         let e = fresh t;
         bs \<leftarrow> bucketPtr t;
         chain \<leftarrow> chain_of t (bucket t h);
         Some (e, True, t\<lparr>bucketPtr := Some (bs[bucket t h := e # chain]),
           entries := (entries t)(e \<mapsto> \<lparr>clientData = None, namehash = h, name = key\<rparr>),
           fresh := Suc e, numEntries := Suc (numEntries t)\<rparr>) } }"

definition Hash_GetValue :: "'v Hash_Table \<Rightarrow> nat \<Rightarrow> 'v option option" where
  "Hash_GetValue t e = map_option clientData (entries t e)"

definition Hash_SetValue :: "'v Hash_Table \<Rightarrow> nat \<Rightarrow> 'v option \<Rightarrow> 'v Hash_Table option" where
  "Hash_SetValue t e val = do {
     x \<leftarrow> entries t e;
     Some (t\<lparr>entries := (entries t)(e \<mapsto> x\<lparr>clientData := val\<rparr>)\<rparr>) }"

text \<open>The chain without an entry, or \<open>None\<close> when the entry is not on it.\<close>

fun unlink :: "nat \<Rightarrow> nat list \<Rightarrow> nat list option" where
  "unlink e [] = None"
| "unlink e (p # ps) = (if p = e then Some ps else map_option (Cons p) (unlink e ps))"

definition Hash_DeleteEntry :: "'v Hash_Table \<Rightarrow> nat option \<Rightarrow> (hash_abort + 'v Hash_Table) option" where
  "Hash_DeleteEntry t e =
     (case e of
        None \<Rightarrow> Some (Inr t)
      | Some a \<Rightarrow> do {
          x \<leftarrow> entries t a;
          bs \<leftarrow> bucketPtr t;
          let i = bucket t (namehash x);
          chain \<leftarrow> chain_of t i;
          case unlink a chain of
            None \<Rightarrow> Some (Inl BadDeleteEntry)
          | Some chain' \<Rightarrow> Some (Inr (t\<lparr>bucketPtr := Some (bs[i := chain']),
              entries := (entries t)(a := None), numEntries := numEntries t - 1\<rparr>)) })"

text \<open>The successor of an entry on its chain, as \<open>e->next\<close> gives it.\<close>

definition next_of :: "'v Hash_Table \<Rightarrow> nat \<Rightarrow> nat option option" where
  "next_of t a = do {
     e \<leftarrow> entries t a;
     chain \<leftarrow> chain_of t (bucket t (namehash e));
     case dropWhile (\<lambda>x. x \<noteq> a) chain of
       [] \<Rightarrow> None
     | _ # rest \<Rightarrow> Some (case rest of [] \<Rightarrow> None | b # _ \<Rightarrow> Some b) }"

text \<open>The search for the next non-empty chain, from \<open>nextIndex\<close> on.\<close>

fun enum_scan :: "nat list list \<Rightarrow> nat \<Rightarrow> nat option \<times> nat" where
  "enum_scan [] i = (None, i)"
| "enum_scan ([] # bs) i = enum_scan bs (Suc i)"
| "enum_scan ((a # as) # bs) i = (Some a, Suc i)"

definition Hash_EnumNext :: "'v Hash_Table \<Rightarrow> Hash_Search \<Rightarrow> (nat option \<times> Hash_Search) option" where
  "Hash_EnumNext t s = do {
     e \<leftarrow> (case hashEntryPtr s of None \<Rightarrow> Some None | Some a \<Rightarrow> next_of t a);
     case e of
       Some b \<Rightarrow> Some (Some b, s\<lparr>hashEntryPtr := Some b\<rparr>)
     | None \<Rightarrow> do {
         bs \<leftarrow> bucketPtr t;
         case enum_scan (drop (nextIndex s) (take (t_size t) bs)) (nextIndex s) of
           (None, i) \<Rightarrow> Some (None, s\<lparr>nextIndex := i\<rparr>)
         | (Some b, i) \<Rightarrow> Some (Some b, s\<lparr>nextIndex := i, hashEntryPtr := Some b\<rparr>) } }"

definition Hash_EnumFirst :: "'v Hash_Table \<Rightarrow> (nat option \<times> Hash_Search) option" where
  "Hash_EnumFirst t = Hash_EnumNext t \<lparr>nextIndex = 0, hashEntryPtr = None\<rparr>"

section \<open>The invariant\<close>

text \<open>
  Every entry is on the chain its hash selects, no two entries have the same name, and the
  counters are right.
\<close>

definition hash_ok :: "'v Hash_Table \<Rightarrow> bool" where
  "hash_ok t \<longleftrightarrow> (\<exists>bs k. bucketPtr t = Some bs \<and> t_size t = 2 ^ k \<and> length bs = 2 ^ k
     \<and> t_mask t = of_nat (2 ^ k - 1)
     \<and> (\<forall>i < 2 ^ k. \<forall>a \<in> set (bs ! i). \<exists>e. entries t a = Some e
          \<and> namehash e = hash_key (name e) \<and> unat (namehash e) mod 2 ^ k = i)
     \<and> distinct (concat bs) \<and> inj_on (\<lambda>a. map_option name (entries t a)) (set (concat bs))
     \<and> numEntries t = length (concat bs))
     \<and> (\<forall>a \<ge> fresh t. entries t a = None)"

text \<open>The address of the entry of a key, and the addresses of all entries.\<close>

definition addrs :: "'v Hash_Table \<Rightarrow> nat set" where
  "addrs t = (case bucketPtr t of None \<Rightarrow> {} | Some bs \<Rightarrow> set (concat bs))"

lemma of_nat_mask: "(of_nat (2 ^ k - 1) :: u32) = mask k"
  by (simp add: of_nat_diff mask_eq_exp_minus_1)

lemma bucket_mod: "t_mask t = of_nat (2 ^ k - 1) \<Longrightarrow> bucket t h = unat h mod 2 ^ k"
  unfolding bucket_def of_nat_mask by (simp add: unat_and_mask)

lemma mset_concat_push:
  "i < length bs \<Longrightarrow> mset (concat (bs[i := a # bs ! i])) = add_mset a (mset (concat bs))"
  using mset_concat_update [of i bs "a # bs ! i"] by simp

lemma in_chain: "i < length bs \<Longrightarrow> a \<in> set (bs ! i) \<Longrightarrow> a \<in> set (concat bs)"
  by auto

lemma hash_okE:
  assumes "hash_ok t"
  obtains bs k where "bucketPtr t = Some bs" and "t_size t = 2 ^ k" and "length bs = 2 ^ k"
    and "t_mask t = of_nat (2 ^ k - 1)"
    and "\<And>i a. i < 2 ^ k \<Longrightarrow> a \<in> set (bs ! i) \<Longrightarrow> \<exists>e. entries t a = Some e
      \<and> namehash e = hash_key (name e) \<and> unat (namehash e) mod 2 ^ k = i"
    and "distinct (concat bs)" and "inj_on (\<lambda>a. map_option name (entries t a)) (set (concat bs))"
    and "numEntries t = length (concat bs)" and "\<And>a. fresh t \<le> a \<Longrightarrow> entries t a = None"
  using assms by (auto simp: hash_ok_def)

text \<open>An entry of the table, by its address.\<close>

lemma hash_ok_entry:
  assumes ok: "hash_ok t" and a: "a \<in> addrs t"
  obtains e chain where "entries t a = Some e" and "namehash e = hash_key (name e)"
    and "chain_of t (bucket t (namehash e)) = Some chain" and "a \<in> set chain" and "a < fresh t"
proof -
  obtain bs k where T: "bucketPtr t = Some bs" "length bs = 2 ^ k" "t_mask t = of_nat (2 ^ k - 1)"
    and E: "\<And>i a. i < 2 ^ k \<Longrightarrow> a \<in> set (bs ! i) \<Longrightarrow> \<exists>e. entries t a = Some e
      \<and> namehash e = hash_key (name e) \<and> unat (namehash e) mod 2 ^ k = i"
    and F: "\<And>a. fresh t \<le> a \<Longrightarrow> entries t a = None"
    using ok by (rule hash_okE) blast
  from a T(1) obtain c where "c \<in> set bs" "a \<in> set c" by (auto simp: addrs_def)
  then obtain i where i: "i < 2 ^ k" "a \<in> set (bs ! i)" by (metis T(2) in_set_conv_nth)
  from E [OF i] obtain e where e: "entries t a = Some e" "namehash e = hash_key (name e)"
    "unat (namehash e) mod 2 ^ k = i" by blast
  moreover have "chain_of t (bucket t (namehash e)) = Some (bs ! i)"
    using T e(3) i(1) by (simp add: chain_of_def bucket_mod)
  moreover have "a < fresh t" using F e(1) by (metis not_le option.distinct(1))
  ultimately show ?thesis using that i by blast
qed

section \<open>Finding\<close>

lemma find_chain_found:
  assumes "\<forall>a \<in> set chain. \<exists>e. E a = Some e \<and> namehash e = hash_key (name e)"
  shows "\<exists>r. find_chain E (hash_key key) key chain = Some r
    \<and> (\<forall>a. r = Some a \<longrightarrow> a \<in> set chain \<and> map_option name (E a) = Some key)
    \<and> (r = None \<longrightarrow> (\<forall>a \<in> set chain. map_option name (E a) \<noteq> Some key))"
  using assms by (induction chain) auto

text \<open>
  The meaning of a table: the address of the entry of a key.
\<close>

definition addr_of :: "'v Hash_Table \<Rightarrow> string \<Rightarrow> nat option" where
  "addr_of t key = (if \<exists>a \<in> addrs t. map_option name (entries t a) = Some key
     then Some (THE a. a \<in> addrs t \<and> map_option name (entries t a) = Some key) else None)"

lemma addr_of_eq:
  assumes "hash_ok t" and "a \<in> addrs t" and "map_option name (entries t a) = Some key"
  shows "addr_of t key = Some a"
proof -
  from assms(1) have inj: "inj_on (\<lambda>a. map_option name (entries t a)) (addrs t)"
    by (auto simp: hash_ok_def addrs_def)
  let ?P = "\<lambda>b. b \<in> addrs t \<and> map_option name (entries t b) = Some key"
  have "b = a" if "?P b" for b
    using inj_onD [OF inj, of b a] that assms(2,3) by simp
  then have "(THE b. ?P b) = a"
    using assms(2,3) by (intro the_equality conjI)
  moreover have "\<exists>a \<in> addrs t. map_option name (entries t a) = Some key" using assms(2,3) by blast
  ultimately show ?thesis unfolding addr_of_def by (simp only: if_True)
qed

lemma addr_of_None: "(\<And>a. a \<in> addrs t \<Longrightarrow> map_option name (entries t a) \<noteq> Some key) \<Longrightarrow> addr_of t key = None"
  by (auto simp: addr_of_def)

lemma addr_of_Some:
  assumes "hash_ok t" and "addr_of t key = Some a"
  shows "a \<in> addrs t" and "map_option name (entries t a) = Some key"
proof -
  from assms(2) obtain b where b: "b \<in> addrs t" "map_option name (entries t b) = Some key"
    by (auto simp: addr_of_def split: if_splits)
  with addr_of_eq [OF assms(1) b] assms(2) have "b = a" by simp
  with b show "a \<in> addrs t" and "map_option name (entries t a) = Some key" by auto
qed

lemma chain_members:
  assumes ok: "hash_ok t" and c: "chain_of t (bucket t h) = Some chain" and a: "a \<in> set chain"
  shows "a \<in> addrs t" and "\<exists>e. entries t a = Some e \<and> namehash e = hash_key (name e)"
proof -
  show "a \<in> addrs t" using c a
    by (auto simp: chain_of_def addrs_def bind_eq_Some_conv split: if_splits)
  then show "\<exists>e. entries t a = Some e \<and> namehash e = hash_key (name e)"
    using hash_ok_entry [OF ok] by metis
qed

lemma chain_exists: "hash_ok t \<Longrightarrow> \<exists>chain. chain_of t (bucket t h) = Some chain"
  by (auto simp: hash_ok_def chain_of_def bucket_mod)

lemma Hash_FindEntry_addr:
  assumes ok: "hash_ok t"
  shows "Hash_FindEntry t key = Some (addr_of t key)"
proof -
  let ?h = "hash_key key"
  obtain chain where c: "chain_of t (bucket t ?h) = Some chain" using chain_exists [OF ok] by blast
  obtain r where r: "find_chain (entries t) ?h key chain = Some r"
    and some: "\<And>a. r = Some a \<Longrightarrow> a \<in> set chain \<and> map_option name (entries t a) = Some key"
    and none: "r = None \<Longrightarrow> \<forall>a \<in> set chain. map_option name (entries t a) \<noteq> Some key"
    using find_chain_found [of chain "entries t" key] chain_members [OF ok c] by blast
  have "r = addr_of t key"
  proof (cases r)
    case None
    have "map_option name (entries t a) \<noteq> Some key" if "a \<in> addrs t" for a
    proof
      assume n: "map_option name (entries t a) = Some key"
      from hash_ok_entry [OF ok that] obtain e chain' where "entries t a = Some e"
        "namehash e = hash_key (name e)" "chain_of t (bucket t (namehash e)) = Some chain'" "a \<in> set chain'"
        by metis
      with n c have "a \<in> set chain" by simp
      with none None n show False by blast
    qed
    with None addr_of_None show ?thesis by metis
  next
    case (Some a)
    then show ?thesis
      using some [OF Some] chain_members(1) [OF ok c, of a] addr_of_eq [OF ok, of a key] by metis
  qed
  with c r show ?thesis by (simp add: Hash_FindEntry_def)
qed

section \<open>Growing the table\<close>

definition placed :: "(nat \<Rightarrow> 'v Hash_Entry option) \<Rightarrow> nat \<Rightarrow> nat list list \<Rightarrow> bool" where
  "placed E k bs \<longleftrightarrow> length bs = 2 ^ k \<and> (\<forall>i < 2 ^ k. \<forall>a \<in> set (bs ! i). \<exists>e. E a = Some e
     \<and> namehash e = hash_key (name e) \<and> unat (namehash e) mod 2 ^ k = i)"

lemma hash_ok_placed:
  "hash_ok t \<longleftrightarrow> (\<exists>bs k. bucketPtr t = Some bs \<and> t_size t = 2 ^ k \<and> t_mask t = of_nat (2 ^ k - 1)
     \<and> placed (entries t) k bs \<and> distinct (concat bs)
     \<and> inj_on (\<lambda>a. map_option name (entries t a)) (set (concat bs))
     \<and> numEntries t = length (concat bs)) \<and> (\<forall>a \<ge> fresh t. entries t a = None)"
  unfolding hash_ok_def placed_def by (rule iffI) blast+

lemma placed_push:
  assumes "placed E k bs" and "E a = Some e" and "namehash e = hash_key (name e)"
    and "i = unat (namehash e) mod 2 ^ k"
  shows "placed E k (bs[i := a # bs ! i])" and "i < length bs"
  using assms by (auto simp: placed_def nth_list_update)

lemma rehash_all_placed:
  assumes "\<forall>a \<in> set as. \<exists>e. E a = Some e \<and> namehash e = hash_key (name e)"
    and "placed E k bs"
  shows "\<exists>bs'. rehash_all E (of_nat (2 ^ k - 1)) as bs = Some bs' \<and> placed E k bs'
    \<and> mset (concat bs') = mset as + mset (concat bs)"
  using assms
proof (induction as arbitrary: bs)
  case Nil
  then show ?case by simp
next
  case (Cons a as)
  then obtain e where e: "E a = Some e" "namehash e = hash_key (name e)" by auto
  define i where "i = unat (namehash e) mod 2 ^ k"
  note P = placed_push [OF Cons.prems(2) e i_def]
  have "unat (namehash e AND of_nat (2 ^ k - 1)) = i"
    unfolding of_nat_mask i_def by (rule unat_and_mask)
  then have step: "rehash E (of_nat (2 ^ k - 1)) a bs = Some (bs[i := a # bs ! i])"
    using e P(2) by (simp add: rehash_def)
  from Cons.IH [OF _ P(1)] Cons.prems(1) obtain bs' where
    "rehash_all E (of_nat (2 ^ k - 1)) as (bs[i := a # bs ! i]) = Some bs'" "placed E k bs'"
    "mset (concat bs') = mset as + mset (concat (bs[i := a # bs ! i]))" by auto
  with step show ?case by (simp add: mset_concat_push [OF P(2)])
qed

lemma RebuildTable_ok:
  assumes "hash_ok t"
  shows "\<exists>t'. RebuildTable t = Some t' \<and> hash_ok t' \<and> entries t' = entries t \<and> fresh t' = fresh t
    \<and> numEntries t' = numEntries t \<and> addrs t' = addrs t \<and> t_size t' = 2 * t_size t"
proof -
  obtain bs k where T: "bucketPtr t = Some bs" "t_size t = 2 ^ k" "placed (entries t) k bs"
    "distinct (concat bs)" "inj_on (\<lambda>a. map_option name (entries t a)) (set (concat bs))"
    "numEntries t = length (concat bs)" and F: "\<forall>a \<ge> fresh t. entries t a = None"
    using assms by (auto simp: hash_ok_placed)
  have all: "\<forall>a \<in> set (concat bs). \<exists>e. entries t a = Some e \<and> namehash e = hash_key (name e)"
  proof
    fix a assume "a \<in> set (concat bs)"
    then have "a \<in> addrs t" using T(1) by (simp add: addrs_def)
    then show "\<exists>e. entries t a = Some e \<and> namehash e = hash_key (name e)"
      using hash_ok_entry [OF assms] by metis
  qed
  have "placed (entries t) (Suc k) (replicate (2 ^ Suc k) [])" by (simp add: placed_def)
  from rehash_all_placed [OF all this] obtain bs' where
    bs': "rehash_all (entries t) (of_nat (2 ^ Suc k - 1)) (concat bs) (replicate (2 ^ Suc k) []) = Some bs'"
    "placed (entries t) (Suc k) bs'" "mset (concat bs') = mset (concat bs)"
    by auto
  have "take (t_size t) bs = bs" using T(2,3) by (simp add: placed_def)
  then have "RebuildTable t = Some (t\<lparr>t_size := 2 ^ Suc k, t_mask := of_nat (2 ^ Suc k - 1), bucketPtr := Some bs'\<rparr>)"
    using T(1,2) bs'(1) unfolding RebuildTable_def power_Suc by simp
  moreover have "distinct (concat bs')" "set (concat bs') = set (concat bs)" "length (concat bs') = length (concat bs)"
    using T(4) bs'(3) by (metis mset_eq_imp_distinct_iff, metis set_mset_mset, metis size_mset)
  moreover have "hash_ok (t\<lparr>t_size := 2 ^ Suc k, t_mask := of_nat (2 ^ Suc k - 1), bucketPtr := Some bs'\<rparr>)"
    using T bs'(2) F calculation(2-4) unfolding hash_ok_placed
    by (intro conjI exI [of _ bs'] exI [of _ "Suc k"]) (simp_all del: power_Suc)
  ultimately show ?thesis using T(1,2) by (auto simp: addrs_def)
qed

section \<open>Creating and deleting entries\<close>

lemma hash_ok_push:
  assumes ok: "hash_ok t" and new: "addr_of t key = None" and bs: "bucketPtr t = Some bs"
  defines "i \<equiv> bucket t (hash_key key)"
  defines "t' \<equiv> t\<lparr>bucketPtr := Some (bs[i := fresh t # bs ! i]),
     entries := (entries t)(fresh t \<mapsto> \<lparr>clientData = None, namehash = hash_key key, name = key\<rparr>),
     fresh := Suc (fresh t), numEntries := Suc (numEntries t)\<rparr>"
  shows "hash_ok t'" and "addrs t' = insert (fresh t) (addrs t)" and "i < length bs"
proof -
  obtain k where T: "t_size t = 2 ^ k" "t_mask t = of_nat (2 ^ k - 1)" "placed (entries t) k bs"
    "distinct (concat bs)" "inj_on (\<lambda>a. map_option name (entries t a)) (set (concat bs))"
    "numEntries t = length (concat bs)" and F: "\<forall>a \<ge> fresh t. entries t a = None"
    using ok bs by (auto simp: hash_ok_placed)
  have A: "addrs t = set (concat bs)" using bs by (simp add: addrs_def)
  have out: "fresh t \<notin> set (concat bs)"
    using hash_ok_entry [OF ok, of "fresh t"] A by blast
  have i: "i = unat (hash_key key) mod 2 ^ k" using T(2) by (simp add: i_def bucket_mod)
  define E' where "E' = (entries t)(fresh t \<mapsto> \<lparr>clientData = None, namehash = hash_key key, name = key\<rparr>)"
  have "a \<in> set (concat bs)" if "j < 2 ^ k" "a \<in> set (bs ! j)" for j a
    using that T(3) by (intro in_chain) (simp_all add: placed_def)
  then have "placed E' k bs"
    using T(3) out unfolding placed_def E'_def by (metis fun_upd_other)
  then have P: "placed E' k (bs[i := fresh t # bs ! i])" "i < length bs"
    using placed_push [of E' k bs "fresh t" _ i] i by (simp_all add: E'_def)
  have m: "mset (concat (bs[i := fresh t # bs ! i])) = add_mset (fresh t) (mset (concat bs))"
    by (rule mset_concat_push [OF P(2)])
  then have s: "set (concat (bs[i := fresh t # bs ! i])) = insert (fresh t) (set (concat bs))"
    by (metis set_mset_add_mset_insert set_mset_mset)
  have d: "distinct (concat (bs[i := fresh t # bs ! i]))"
    using m out T(4) by (metis distinct.simps(2) mset.simps(2) mset_eq_imp_distinct_iff)
  have l: "length (concat (bs[i := fresh t # bs ! i])) = Suc (length (concat bs))"
    using m by (metis size_add_mset size_mset)
  have inj: "inj_on (\<lambda>a. map_option name (E' a)) (insert (fresh t) (set (concat bs)))"
  proof -
    have eq: "map_option name (E' a) = map_option name (entries t a)" if "a \<in> set (concat bs)" for a
      using that out by (auto simp: E'_def)
    have "map_option name (E' a) \<noteq> Some key" if "a \<in> set (concat bs)" for a
      using addr_of_eq [OF ok, of a key] that new A eq [OF that] by auto
    then have "Some key \<notin> (\<lambda>a. map_option name (E' a)) ` set (concat bs)"
      unfolding image_iff by (metis (no_types))
    moreover have "map_option name (E' (fresh t)) = Some key" by (simp add: E'_def)
    moreover have "inj_on (\<lambda>a. map_option name (E' a)) (set (concat bs))"
      by (rule inj_on_cong [THEN iffD2, OF eq T(5)])
    moreover have "set (concat bs) - {fresh t} = set (concat bs)" using out by blast
    ultimately show ?thesis by (simp only: inj_on_insert not_False_eq_True simp_thms)
  qed
  show "i < length bs" by (rule P(2))
  show "addrs t' = insert (fresh t) (addrs t)" using s by (simp add: addrs_def t'_def bs)
  show "hash_ok t'"
    using T(1,2,6) P(1) d s l inj F unfolding hash_ok_placed t'_def
    by (intro conjI exI [of _ "bs[i := fresh t # bs ! i]"] exI [of _ k]) (simp_all add: E'_def)
qed

text \<open>
  What creating an entry does: an existing entry is returned and nothing changes; a new one gets
  a fresh address, and every other entry keeps its address and its contents, even when the
  table is rebuilt.
\<close>

lemma Hash_CreateEntry_ok:
  assumes ok: "hash_ok t"
  shows "addr_of t key = Some a \<Longrightarrow> Hash_CreateEntry t key = Some (a, False, t)"
    and "addr_of t key = None \<Longrightarrow> \<exists>t'. Hash_CreateEntry t key = Some (fresh t, True, t')
      \<and> hash_ok t' \<and> addr_of t' = (addr_of t)(key \<mapsto> fresh t)
      \<and> entries t' = (entries t)(fresh t \<mapsto> \<lparr>clientData = None, namehash = hash_key key, name = key\<rparr>)
      \<and> fresh t' = Suc (fresh t) \<and> addrs t' = insert (fresh t) (addrs t)"
proof -
  let ?h = "hash_key key"
  obtain chain where c: "chain_of t (bucket t ?h) = Some chain" using chain_exists [OF ok] by blast
  have f: "find_chain (entries t) ?h key chain = Some (addr_of t key)"
    using Hash_FindEntry_addr [OF ok, of key] c by (simp add: Hash_FindEntry_def)
  show "Hash_CreateEntry t key = Some (a, False, t)" if "addr_of t key = Some a"
    using c f that by (simp add: Hash_CreateEntry_def)
  assume new: "addr_of t key = None"
  obtain t1 where t1: "(if rebuildLimit * t_size t \<le> numEntries t then RebuildTable t else Some t) = Some t1"
    "hash_ok t1" "entries t1 = entries t" "fresh t1 = fresh t" "addrs t1 = addrs t"
    using RebuildTable_ok [OF ok] ok by (cases "rebuildLimit * t_size t \<le> numEntries t") auto
  have same: "addr_of t1 = addr_of t" unfolding addr_of_def t1(3,5) ..
  obtain bs where bs: "bucketPtr t1 = Some bs" using t1(2) by (auto simp: hash_ok_def)
  define i where "i = bucket t1 ?h"
  define t2 where "t2 = t1\<lparr>bucketPtr := Some (bs[i := fresh t1 # bs ! i]),
     entries := (entries t1)(fresh t1 \<mapsto> \<lparr>clientData = None, namehash = ?h, name = key\<rparr>),
     fresh := Suc (fresh t1), numEntries := Suc (numEntries t1)\<rparr>"
  have P: "hash_ok t2" "addrs t2 = insert (fresh t1) (addrs t1)" "i < length bs"
    using hash_ok_push [OF t1(2) _ bs, of key] new same by (simp_all add: t2_def i_def)
  have "Hash_CreateEntry t key = Some (fresh t, True, t2)"
    using c f new t1(1,4) bs P(3)
    by (simp add: Hash_CreateEntry_def chain_of_def [of t1] t2_def i_def Let_def)
  moreover have "addr_of t2 = (addr_of t)(key \<mapsto> fresh t)"
  proof
    fix k
    have fr: "fresh t \<notin> addrs t" using hash_ok_entry [OF ok, of "fresh t"] by blast
    show "addr_of t2 k = ((addr_of t)(key \<mapsto> fresh t)) k"
    proof (cases "k = key")
      case True
      then show ?thesis using addr_of_eq [OF P(1), of "fresh t" key] P(2) t1(4) by (simp add: t2_def)
    next
      case False
      show ?thesis
      proof (cases "addr_of t k")
        case None
        have "map_option name (entries t2 a) \<noteq> Some k" if "a \<in> addrs t2" for a
          using that P(2) False t1(3-5) addr_of_eq [OF ok, of a k] None by (auto simp: t2_def)
        with None False addr_of_None [of t2 k] show ?thesis by simp
      next
        case (Some b)
        note S = addr_of_Some [OF ok Some]
        then have "b \<noteq> fresh t" using fr by blast
        then have "addr_of t2 k = Some b"
          using addr_of_eq [OF P(1), of b k] P(2) S t1(3-5) by (simp add: t2_def)
        with False Some show ?thesis by simp
      qed
    qed
  qed
  ultimately show "\<exists>t'. Hash_CreateEntry t key = Some (fresh t, True, t')
      \<and> hash_ok t' \<and> addr_of t' = (addr_of t)(key \<mapsto> fresh t)
      \<and> entries t' = (entries t)(fresh t \<mapsto> \<lparr>clientData = None, namehash = hash_key key, name = key\<rparr>)
      \<and> fresh t' = Suc (fresh t) \<and> addrs t' = insert (fresh t) (addrs t)"
    using P t1(3-5) by (intro exI [of _ t2]) (simp add: t2_def)
qed

lemma entries_same_keys:
  assumes "hash_ok t" and "\<forall>a. map_option name (E' a) = map_option name (entries t a)
      \<and> map_option namehash (E' a) = map_option namehash (entries t a)"
  shows "hash_ok (t\<lparr>entries := E'\<rparr>)" and "addr_of (t\<lparr>entries := E'\<rparr>) = addr_of t"
    and "addrs (t\<lparr>entries := E'\<rparr>) = addrs t"
proof -
  have n: "\<And>a. map_option name (E' a) = map_option name (entries t a)"
    and h: "\<And>a. map_option namehash (E' a) = map_option namehash (entries t a)" using assms(2) by auto
  show A: "addrs (t\<lparr>entries := E'\<rparr>) = addrs t" by (simp add: addrs_def)
  show "addr_of (t\<lparr>entries := E'\<rparr>) = addr_of t" unfolding addr_of_def A by (simp add: n fun_eq_iff)
  have "\<exists>e'. E' a = Some e' \<and> name e' = name e \<and> namehash e' = namehash e" if "entries t a = Some e" for a e
    using n [of a] h [of a] that by (cases "E' a") auto
  then have "placed E' k bs" if "placed (entries t) k bs" for k bs
    using that unfolding placed_def by metis
  moreover have "E' a = None" if "entries t a = None" for a
    using n [of a] that by simp
  ultimately show "hash_ok (t\<lparr>entries := E'\<rparr>)"
    using assms(1) unfolding hash_ok_placed by (simp add: n) blast
qed

lemma unlink_remove1: "unlink a chain = (if a \<in> set chain then Some (remove1 a chain) else None)"
  by (induction chain) auto

lemma hash_ok_pull:
  assumes ok: "hash_ok t" and bs: "bucketPtr t = Some bs" and i: "i < length bs" "a \<in> set (bs ! i)"
  defines "t' \<equiv> t\<lparr>bucketPtr := Some (bs[i := remove1 a (bs ! i)]), entries := (entries t)(a := None),
    numEntries := numEntries t - 1\<rparr>"
  shows "hash_ok t'" and "addrs t' = addrs t - {a}"
proof -
  obtain k where T: "t_size t = 2 ^ k" "t_mask t = of_nat (2 ^ k - 1)"
    "placed (entries t) k bs" "distinct (concat bs)"
    "inj_on (\<lambda>a. map_option name (entries t a)) (set (concat bs))"
    "numEntries t = length (concat bs)" and F: "\<forall>a \<ge> fresh t. entries t a = None"
    using ok bs by (auto simp: hash_ok_placed)
  define E' where "E' = (entries t)(a := None)"
  define bs' where "bs' = bs[i := remove1 a (bs ! i)]"
  have m: "add_mset a (mset (concat bs')) = mset (concat bs)"
  proof -
    have "mset (bs ! i) = add_mset a (mset (remove1 a (bs ! i)))" using i(2) by simp
    then have "mset (concat bs') + add_mset a (mset (remove1 a (bs ! i)))
        = mset (concat bs) + mset (remove1 a (bs ! i))"
      using mset_concat_update [OF i(1), of "remove1 a (bs ! i)"] by (simp only: bs'_def)
    then show ?thesis by simp
  qed
  then have d: "distinct (a # concat bs')" using T(4)
    by (metis mset.simps(2) mset_eq_imp_distinct_iff)
  have s: "set (concat bs) = insert a (set (concat bs'))"
    using m by (metis set_mset_add_mset_insert set_mset_mset)
  have l: "length (concat bs) = Suc (length (concat bs'))" using m by (metis size_add_mset size_mset)
  have len: "length bs' = 2 ^ k" using T(3) by (simp add: bs'_def placed_def)
  have old: "x \<in> set (bs ! j) \<and> x \<noteq> a" if "j < 2 ^ k" "x \<in> set (bs' ! j)" for j x
  proof
    show "x \<in> set (bs ! j)"
      using that i set_remove1_subset [of a "bs ! i"] by (cases "j = i") (auto simp: bs'_def)
    have "x \<in> set (concat bs')" using that len by (intro in_chain) simp_all
    then show "x \<noteq> a" using d by auto
  qed
  have "placed E' k bs'"
    unfolding placed_def
  proof (intro conjI allI impI ballI)
    fix j x assume j: "j < 2 ^ k" "x \<in> set (bs' ! j)"
    then show "\<exists>e. E' x = Some e \<and> namehash e = hash_key (name e) \<and> unat (namehash e) mod 2 ^ k = j"
      using T(3) old [OF j] by (simp add: placed_def E'_def)
  qed (rule len)
  moreover have "inj_on (\<lambda>x. map_option name (E' x)) (set (concat bs'))"
  proof (rule inj_on_cong [THEN iffD2])
    show "inj_on (\<lambda>x. map_option name (entries t x)) (set (concat bs'))"
      using T(5) s by (metis inj_on_subset subset_insertI)
    show "map_option name (E' x) = map_option name (entries t x)" if "x \<in> set (concat bs')" for x
      using that d by (auto simp: E'_def)
  qed
  ultimately show "hash_ok t'"
    using T(1,2,6) d l F unfolding hash_ok_placed t'_def
    by (intro conjI exI [of _ bs'] exI [of _ k]) (simp_all add: bs'_def E'_def)
  have "set (concat bs') = set (concat bs) - {a}" using s d by (auto simp del: set_concat)
  then show "addrs t' = addrs t - {a}" by (simp add: addrs_def t'_def bs bs'_def)
qed

lemma addr_of_remove:
  assumes ok: "hash_ok t" "hash_ok t'" and a: "a \<in> addrs t" and n: "map_option name (entries t a) = Some key"
    and t': "addrs t' = addrs t - {a}" "entries t' = (entries t)(a := None)"
  shows "addr_of t' = (addr_of t)(key := None)"
proof
  fix x
  have other: "map_option name (entries t' b) = map_option name (entries t b)" if "b \<noteq> a" for b
    using that t'(2) by simp
  show "addr_of t' x = ((addr_of t)(key := None)) x"
  proof (cases "addr_of t' x")
    case None
    have False if S: "addr_of t x = Some b" "x \<noteq> key" for b
    proof -
      note B = addr_of_Some [OF ok(1) S(1)]
      have "b \<noteq> a" using B(2) n S(2) by auto
      then have "addr_of t' x = Some b"
        using addr_of_eq [OF ok(2)] B t'(1) other by simp
      with None show False by simp
    qed
    with None show ?thesis by (cases "addr_of t x") auto
  next
    case (Some b)
    note B = addr_of_Some [OF ok(2) Some]
    have "b \<in> addrs t" "b \<noteq> a" using B(1) t'(1) by auto
    then have b: "addr_of t x = Some b" using addr_of_eq [OF ok(1)] B(2) other by simp
    have "x \<noteq> key" using b \<open>b \<noteq> a\<close> addr_of_eq [OF ok(1) a n] by auto
    with Some b show ?thesis by simp
  qed
qed

lemma Hash_DeleteEntry_ok:
  assumes ok: "hash_ok t" and a: "a \<in> addrs t" and n: "map_option name (entries t a) = Some key"
  shows "\<exists>t'. Hash_DeleteEntry t (Some a) = Some (Inr t') \<and> hash_ok t'
    \<and> addr_of t' = (addr_of t)(key := None) \<and> entries t' = (entries t)(a := None)
    \<and> addrs t' = addrs t - {a}"
proof -
  obtain e chain where e: "entries t a = Some e"
    and c: "chain_of t (bucket t (namehash e)) = Some chain" "a \<in> set chain"
    by (rule hash_ok_entry [OF ok a])
  obtain bs where bs: "bucketPtr t = Some bs" using ok by (auto simp: hash_ok_def)
  define i where "i = bucket t (namehash e)"
  have i: "i < length bs" "bs ! i = chain"
    using c(1) bs by (auto simp: chain_of_def i_def split: if_splits)
  define t' where "t' = t\<lparr>bucketPtr := Some (bs[i := remove1 a (bs ! i)]),
    entries := (entries t)(a := None), numEntries := numEntries t - 1\<rparr>"
  have P: "hash_ok t'" "addrs t' = addrs t - {a}"
    using hash_ok_pull [OF ok bs i(1)] c(2) i(2) by (simp_all add: t'_def)
  have "Hash_DeleteEntry t (Some a) = Some (Inr t')"
    using e bs c i(2) by (simp add: Hash_DeleteEntry_def unlink_remove1 t'_def i_def Let_def)
  moreover have "entries t' = (entries t)(a := None)" by (simp add: t'_def)
  ultimately show ?thesis using P addr_of_remove [OF ok P(1) a n P(2)] by blast
qed

text \<open>Deleting an entry that is not in the table ends the program.\<close>

lemma Hash_DeleteEntry_foreign:
  assumes "hash_ok t" and "a \<notin> addrs t" and "entries t a = Some e"
  shows "Hash_DeleteEntry t (Some a) = Some (Inl BadDeleteEntry)"
proof -
  obtain chain where c: "chain_of t (bucket t (namehash e)) = Some chain"
    using chain_exists [OF assms(1)] by blast
  then have "a \<notin> set chain" using chain_members(1) [OF assms(1) c] assms(2) by blast
  moreover obtain bs where "bucketPtr t = Some bs" using assms(1) by (auto simp: hash_ok_def)
  ultimately show ?thesis
    using assms(3) c by (simp add: Hash_DeleteEntry_def unlink_remove1)
qed

section \<open>Initialisation\<close>

lemma round_up_power: "\<exists>j. round_up (2 ^ k) n = 2 ^ j \<and> k \<le> j"
proof (induction "2 ^ k :: nat" n arbitrary: k rule: round_up.induct)
  case (1 n)
  show ?case
  proof (cases "int (2 ^ k) < n")
    case True
    with 1 [of "Suc k"] show ?thesis
      by (simp add: round_up.simps [of "2 ^ k"]) (metis Suc_leD)
  next
    case False
    then show ?thesis by (auto simp: round_up.simps [of "2 ^ k"])
  qed
qed

lemma round_up_enough: "0 < i \<Longrightarrow> n \<le> int (round_up i n)"
  by (induction i n rule: round_up.induct) (subst round_up.simps, auto)

lemma Hash_InitTable_ok:
  assumes "\<forall>a \<ge> fresh t. entries t a = None"
  shows "hash_ok (Hash_InitTable t n)" and "addr_of (Hash_InitTable t n) = (\<lambda>_. None)"
    and "n \<le> int (t_size (Hash_InitTable t n))"
proof -
  define i where "i = (if n \<le> 0 then 16 else round_up 2 n)"
  obtain k where k: "i = 2 ^ k"
  proof (cases "n \<le> 0")
    case True
    then show ?thesis using that [of 4] by (simp add: i_def)
  next
    case False
    then show ?thesis using that round_up_power [of 1 n] by (auto simp: i_def)
  qed
  have t: "Hash_InitTable t n = t\<lparr>numEntries := 0, t_size := i, t_mask := of_nat (i - 1),
      bucketPtr := Some (replicate i [])\<rparr>"
    by (simp add: Hash_InitTable_def i_def Let_def)
  have "placed (entries t) k (replicate i [])" by (simp add: placed_def k)
  then show "hash_ok (Hash_InitTable t n)"
    unfolding hash_ok_placed t using assms
    by (intro conjI exI [of _ "replicate i []"] exI [of _ k]) (simp_all add: k)
  show "addr_of (Hash_InitTable t n) = (\<lambda>_. None)"
    by (auto simp: t addr_of_def addrs_def)
  show "n \<le> int (t_size (Hash_InitTable t n))"
    using round_up_enough [of 2 n] by (simp add: t i_def)
qed

section \<open>The table contract\<close>

definition hash_lookup :: "'v Hash_Table \<Rightarrow> string \<Rightarrow> 'v option" where
  "hash_lookup t key = (case Hash_FindEntry t key of
     Some (Some e) \<Rightarrow> Option.bind (Hash_GetValue t e) id
   | _ \<Rightarrow> None)"

definition hash_store :: "string \<Rightarrow> 'v \<Rightarrow> 'v Hash_Table \<Rightarrow> 'v Hash_Table option" where
  "hash_store key v t = do { (e, _, t) \<leftarrow> Hash_CreateEntry t key; Hash_SetValue t e (Some v) }"

definition hash_erase :: "string \<Rightarrow> 'v Hash_Table \<Rightarrow> 'v Hash_Table option" where
  "hash_erase key t = do {
     e \<leftarrow> Hash_FindEntry t key;
     r \<leftarrow> Hash_DeleteEntry t e;
     case r of Inl _ \<Rightarrow> None | Inr t \<Rightarrow> Some t }"

lemma hash_lookup_addr:
  "hash_ok t \<Longrightarrow> hash_lookup t key =
     Option.bind (addr_of t key) (\<lambda>a. Option.bind (entries t a) clientData)"
  by (cases "addr_of t key"; cases "entries t (the (addr_of t key))")
    (auto simp: hash_lookup_def Hash_FindEntry_addr Hash_GetValue_def)

lemma Hash_SetValue_ok:
  assumes ok: "hash_ok t" and a: "addr_of t key = Some a"
  shows "\<exists>t'. Hash_SetValue t a (Some v) = Some t' \<and> hash_ok t'
    \<and> hash_lookup t' = (hash_lookup t)(key \<mapsto> v)"
proof -
  obtain e where e: "entries t a = Some e" using addr_of_Some(2) [OF ok a] by auto
  let ?E = "(entries t)(a \<mapsto> e\<lparr>clientData := Some v\<rparr>)"
  have K: "hash_ok (t\<lparr>entries := ?E\<rparr>)" "addr_of (t\<lparr>entries := ?E\<rparr>) = addr_of t"
    using entries_same_keys [OF ok, of ?E] e by auto
  have other: "b \<noteq> a" if "addr_of t k = Some b" "k \<noteq> key" for k b
    using addr_of_Some(2) [OF ok that(1)] addr_of_Some(2) [OF ok a] that(2) by auto
  have "hash_lookup (t\<lparr>entries := ?E\<rparr>) k = ((hash_lookup t)(key \<mapsto> v)) k" for k
    using a other [of k] e
    by (cases "addr_of t k") (auto simp: hash_lookup_addr [OF K(1)] hash_lookup_addr [OF ok] K(2))
  then show ?thesis
    using e K(1) by (auto simp: Hash_SetValue_def fun_eq_iff)
qed

interpretation make_hash: string_table hash_ok hash_lookup hash_store hash_erase
proof
  fix t :: "'v Hash_Table" and key v
  assume ok: "hash_ok t"
  show "\<exists>t'. hash_store key v t = Some t' \<and> hash_ok t' \<and> hash_lookup t' = (hash_lookup t)(key \<mapsto> v)"
  proof (cases "addr_of t key")
    case (Some a)
    with Hash_CreateEntry_ok(1) [OF ok Some] Hash_SetValue_ok [OF ok Some, of v] show ?thesis
      by (simp add: hash_store_def)
  next
    case None
    then obtain t1 where t1: "Hash_CreateEntry t key = Some (fresh t, True, t1)" "hash_ok t1"
      "addr_of t1 = (addr_of t)(key \<mapsto> fresh t)"
      "entries t1 = (entries t)(fresh t \<mapsto> \<lparr>clientData = None, namehash = hash_key key, name = key\<rparr>)"
      using Hash_CreateEntry_ok(2) [OF ok None] by blast
    have a: "addr_of t1 key = Some (fresh t)" using t1(3) by simp
    have other: "b \<noteq> fresh t" if "addr_of t k = Some b" for k b
      using addr_of_Some(2) [OF ok that] ok by (auto simp: hash_ok_def)
    have "hash_lookup t1 k = hash_lookup t k" for k
      using None other [of k]
      by (cases "addr_of t k") (auto simp: hash_lookup_addr [OF t1(2)] hash_lookup_addr [OF ok] t1(3,4))
    then have "hash_lookup t1 = hash_lookup t" by (simp add: fun_eq_iff)
    with Hash_SetValue_ok [OF t1(2) a, of v] t1(1) show ?thesis by (simp add: hash_store_def)
  qed
  show "\<exists>t'. hash_erase key t = Some t' \<and> hash_ok t' \<and> hash_lookup t' = (hash_lookup t)(key := None)"
  proof (cases "addr_of t key")
    case None
    then have "hash_lookup t key = None" by (simp add: hash_lookup_addr [OF ok])
    then have "hash_lookup t = (hash_lookup t)(key := None)" by (simp add: fun_eq_iff)
    with None ok show ?thesis
      by (simp add: hash_erase_def Hash_FindEntry_addr Hash_DeleteEntry_def)
  next
    case (Some a)
    note A = addr_of_Some [OF ok Some]
    from Hash_DeleteEntry_ok [OF ok A] obtain t1 where t1: "Hash_DeleteEntry t (Some a) = Some (Inr t1)"
      "hash_ok t1" "addr_of t1 = (addr_of t)(key := None)" "entries t1 = (entries t)(a := None)" by blast
    have other: "b \<noteq> a" if "addr_of t k = Some b" "k \<noteq> key" for k b
      using addr_of_Some(2) [OF ok that(1)] A(2) that(2) by auto
    have "hash_lookup t1 k = ((hash_lookup t)(key := None)) k" for k
      using other [of k]
      by (cases "addr_of t k") (auto simp: hash_lookup_addr [OF t1(2)] hash_lookup_addr [OF ok] t1(3,4))
    with Some t1(1,2) ok show ?thesis
      by (simp add: hash_erase_def Hash_FindEntry_addr fun_eq_iff)
  qed
qed

section \<open>Enumeration\<close>

text \<open>What an enumeration still has to return.\<close>

definition remaining :: "'v Hash_Table \<Rightarrow> nat list list \<Rightarrow> Hash_Search \<Rightarrow> nat list \<Rightarrow> bool" where
  "remaining t bs s rs \<longleftrightarrow>
     (case hashEntryPtr s of
        None \<Rightarrow> rs = concat (drop (nextIndex s) bs)
      | Some a \<Rightarrow> \<exists>xs ys. 0 < nextIndex s \<and> nextIndex s \<le> length bs
          \<and> bs ! (nextIndex s - 1) = xs @ a # ys \<and> rs = ys @ concat (drop (nextIndex s) bs))"

lemma enum_scan_none: "concat bs = [] \<Longrightarrow> enum_scan bs i = (None, i + length bs)"
  by (induction bs i rule: enum_scan.induct) auto

lemma enum_scan_some:
  "concat bs = b # rs \<Longrightarrow> \<exists>j ys. enum_scan bs i = (Some b, Suc (i + j)) \<and> j < length bs
     \<and> bs ! j = b # ys \<and> rs = ys @ concat (drop (Suc j) bs)"
proof (induction bs i rule: enum_scan.induct)
  case (2 bs i)
  then obtain j ys where "enum_scan bs (Suc i) = (Some b, Suc (Suc i + j))" "j < length bs"
    "bs ! j = b # ys" "rs = ys @ concat (drop (Suc j) bs)" by auto
  then show ?case by (intro exI [of _ "Suc j"] exI [of _ ys]) simp
qed auto

lemma dropWhile_to: "a \<notin> set xs \<Longrightarrow> dropWhile (\<lambda>x. x \<noteq> a) (xs @ a # ys) = a # ys"
  by (induction xs) auto

lemma next_of_chain:
  assumes ok: "hash_ok t" and bs: "bucketPtr t = Some bs" and j: "j < length bs" "bs ! j = xs @ a # ys"
  shows "next_of t a = Some (case ys of [] \<Rightarrow> None | b # _ \<Rightarrow> Some b)"
proof -
  obtain k where k: "length bs = 2 ^ k" "t_mask t = of_nat (2 ^ k - 1)" "placed (entries t) k bs" "distinct (concat bs)"
    using ok bs by (auto simp: hash_ok_placed placed_def)
  obtain e where e: "entries t a = Some e" "unat (namehash e) mod 2 ^ k = j"
    using k(1,3) j unfolding placed_def by (metis in_set_conv_decomp)
  have "distinct (xs @ a # ys)"
    using k(4) j by (metis distinct_concat_iff nth_mem)
  then have "dropWhile (\<lambda>x. x \<noteq> a) (xs @ a # ys) = a # ys"
    by (intro dropWhile_to) simp
  then show ?thesis
    using e bs j k(2) by (simp add: next_of_def chain_of_def bucket_mod)
qed

lemma Hash_EnumNext_remaining:
  assumes ok: "hash_ok t" and bs: "bucketPtr t = Some bs" and rem: "remaining t bs s rs"
  shows "\<exists>s'. Hash_EnumNext t s = Some (case rs of [] \<Rightarrow> None | b # _ \<Rightarrow> Some b, s')
    \<and> (rs \<noteq> [] \<longrightarrow> remaining t bs s' (tl rs))"
proof -
  have len: "take (t_size t) bs = bs" using ok bs by (auto simp: hash_ok_placed placed_def)
  have scan: "\<exists>s'. (case enum_scan (drop (nextIndex s) bs) (nextIndex s) of
        (None, i) \<Rightarrow> Some (None, s\<lparr>nextIndex := i\<rparr>)
      | (Some b, i) \<Rightarrow> Some (Some b, s\<lparr>nextIndex := i, hashEntryPtr := Some b\<rparr>))
      = Some (case qs of [] \<Rightarrow> None | b # _ \<Rightarrow> Some b, s') \<and> (qs \<noteq> [] \<longrightarrow> remaining t bs s' (tl qs))"
    if qs: "qs = concat (drop (nextIndex s) bs)" for qs
  proof (cases qs)
    case Nil
    with qs have c: "concat (drop (nextIndex s) bs) = []" by metis
    show ?thesis unfolding Nil enum_scan_none [OF c] by simp
  next
    case (Cons b us)
    then obtain j ys where j: "enum_scan (drop (nextIndex s) bs) (nextIndex s) = (Some b, Suc (nextIndex s + j))"
      "j < length (drop (nextIndex s) bs)" "drop (nextIndex s) bs ! j = b # ys"
      "us = ys @ concat (drop (Suc j) (drop (nextIndex s) bs))"
      using enum_scan_some [of "drop (nextIndex s) bs" b us "nextIndex s"] qs by auto
    then have "remaining t bs (s\<lparr>nextIndex := Suc (nextIndex s + j), hashEntryPtr := Some b\<rparr>) us"
      by (auto simp: remaining_def add.commute)
    with j(1) Cons show ?thesis by simp
  qed
  show ?thesis
  proof (cases "hashEntryPtr s")
    case None
    then have "rs = concat (drop (nextIndex s) bs)" using rem by (simp add: remaining_def)
    from scan [OF this] None bs len show ?thesis by (simp add: Hash_EnumNext_def)
  next
    case (Some a)
    then obtain xs ys where R: "0 < nextIndex s" "nextIndex s \<le> length bs"
      "bs ! (nextIndex s - 1) = xs @ a # ys" "rs = ys @ concat (drop (nextIndex s) bs)"
      using rem by (auto simp: remaining_def)
    then have nx: "next_of t a = Some (case ys of [] \<Rightarrow> None | b # _ \<Rightarrow> Some b)"
      by (intro next_of_chain [OF ok bs, of "nextIndex s - 1" xs]) auto
    show ?thesis
    proof (cases ys)
      case Nil
      with R(4) have "rs = concat (drop (nextIndex s) bs)" by simp
      from scan [OF this] Some nx Nil bs len show ?thesis by (simp add: Hash_EnumNext_def)
    next
      case (Cons b zs)
      have "remaining t bs (s\<lparr>hashEntryPtr := Some b\<rparr>) (zs @ concat (drop (nextIndex s) bs))"
        using R Cons by (auto simp: remaining_def intro: exI [of _ "xs @ [a]"])
      with Some nx Cons R(4) show ?thesis by (simp add: Hash_EnumNext_def)
    qed
  qed
qed

text \<open>The results of \<open>n\<close> further calls.\<close>

fun enum_collect :: "nat \<Rightarrow> 'v Hash_Table \<Rightarrow> Hash_Search \<Rightarrow> nat option list option" where
  "enum_collect 0 t s = Some []"
| "enum_collect (Suc n) t s = do { (e, s) \<leftarrow> Hash_EnumNext t s; es \<leftarrow> enum_collect n t s; Some (e # es) }"

lemma enum_collect_remaining:
  assumes ok: "hash_ok t" and bs: "bucketPtr t = Some bs"
  shows "remaining t bs s rs \<Longrightarrow> enum_collect (Suc (length rs)) t s = Some (map Some rs @ [None])"
proof (induction rs arbitrary: s)
  case Nil
  then show ?case using Hash_EnumNext_remaining [OF ok bs Nil] by auto
next
  case (Cons r rs)
  from Hash_EnumNext_remaining [OF ok bs Cons.prems] obtain s' where
    "Hash_EnumNext t s = Some (Some r, s')" "remaining t bs s' rs" by auto
  with Cons.IH [of s'] show ?case
    unfolding length_Cons enum_collect.simps(2) [of "Suc (length rs)"] by (simp del: enum_collect.simps)
qed

section \<open>Properties\<close>

text \<open>A table with two entries.\<close>

definition demo_table0 :: "nat Hash_Table" where
  "demo_table0 = Hash_InitTable \<lparr>bucketPtr = None, t_size = 0, numEntries = 0, t_mask = 0,
     entries = Map.empty, fresh = 1\<rparr> 1"

lemma demo_table0_ok: "hash_ok demo_table0" "hash_lookup demo_table0 = (\<lambda>_. None)" "addr_of demo_table0 = (\<lambda>_. None)"
proof -
  show ok: "hash_ok demo_table0" unfolding demo_table0_def by (rule Hash_InitTable_ok) simp
  show "addr_of demo_table0 = (\<lambda>_. None)" unfolding demo_table0_def by (rule Hash_InitTable_ok) simp
  then show "hash_lookup demo_table0 = (\<lambda>_. None)" by (simp add: fun_eq_iff hash_lookup_addr [OF ok])
qed

text \<open>
  C14: a table behaves as a finite map under every operation: storing a value (creating the entry
  if it is new, growing the table if it is full) changes that key's value only, and so does
  erasing; whatever sequence of distinct keys is stored and whichever of them is then erased,
  exactly the others are found, with their values.
\<close>

theorem hash_table_is_map:
  assumes "hash_ok t" and "hash_lookup t = (\<lambda>_. None)" and "distinct (map fst kvs)"
  shows "\<exists>t1 t2. string_table.store_all hash_store kvs t = Some t1 \<and> hash_erase k t1 = Some t2
    \<and> hash_ok t2 \<and> hash_lookup t2 = (map_of kvs)(k := None)"
  by (rule make_hash.store_all_erase [OF assms])

theorem hash_table_is_map_witness:
  "\<exists>t1 t2. string_table.store_all hash_store [(''a'', 1), (''b'', 2), (''c'', 3)] demo_table0 = Some t1
    \<and> hash_erase ''b'' t1 = Some t2 \<and> hash_ok t2
    \<and> hash_lookup t2 = [''a'' \<mapsto> 1, ''c'' \<mapsto> 3]"
  using hash_table_is_map [OF demo_table0_ok(1,2), of "[(''a'', 1), (''b'', 2), (''c'', 3)]" "''b''"]
  by (auto simp: fun_upd_twist)

text \<open>
  creating an entry for a key that has one returns that entry and changes nothing; for a new
  key it makes exactly one entry, at a fresh address. In both cases every entry that clients
  hold a pointer to keeps its address and contents, even when the table is rebuilt on the way.
\<close>

theorem hash_create_correct:
  assumes "hash_ok t"
  shows "\<exists>a isnew t'. Hash_CreateEntry t key = Some (a, isnew, t') \<and> hash_ok t'
    \<and> isnew = (addr_of t key = None) \<and> addr_of t' = (addr_of t)(key \<mapsto> a)
    \<and> (\<forall>b. b \<noteq> a \<or> \<not> isnew \<longrightarrow> entries t' b = entries t b)
    \<and> Hash_FindEntry t' key = Some (Some a)"
proof (cases "addr_of t key")
  case (Some a)
  then show ?thesis
    using Hash_CreateEntry_ok(1) [OF assms Some] Hash_FindEntry_addr [OF assms, of key] assms
    by (auto simp: fun_upd_idem)
next
  case None
  then obtain t' where t': "Hash_CreateEntry t key = Some (fresh t, True, t')" "hash_ok t'"
    "addr_of t' = (addr_of t)(key \<mapsto> fresh t)"
    "entries t' = (entries t)(fresh t \<mapsto> \<lparr>clientData = None, namehash = hash_key key, name = key\<rparr>)"
    using Hash_CreateEntry_ok(2) [OF assms None] by blast
  then show ?thesis using None Hash_FindEntry_addr [OF t'(2), of key] by auto
qed

theorem hash_create_correct_witness:
  "\<exists>a isnew t'. Hash_CreateEntry demo_table0 ''a'' = Some (a, isnew, t') \<and> hash_ok t'
    \<and> isnew = True \<and> Hash_FindEntry t' ''a'' = Some (Some a)"
  using hash_create_correct [OF demo_table0_ok(1), of "''a''"] demo_table0_ok(3) by auto

text \<open>
  deleting an entry of the table removes its key and frees the entry; the other keys keep
  their entries. Deleting an entry that is in memory but not in the table is detected and
  ends the program.
\<close>

theorem hash_delete_correct:
  assumes "hash_ok t" and "entries t a = Some e"
  shows "(a \<in> addrs t \<longrightarrow> (\<exists>t'. Hash_DeleteEntry t (Some a) = Some (Inr t') \<and> hash_ok t'
        \<and> addr_of t' = (addr_of t)(name e := None) \<and> entries t' = (entries t)(a := None)))
    \<and> (a \<notin> addrs t \<longrightarrow> Hash_DeleteEntry t (Some a) = Some (Inl BadDeleteEntry))"
  using Hash_DeleteEntry_ok [OF assms(1), of a "name e"] Hash_DeleteEntry_foreign [OF assms(1) _ assms(2)]
    assms(2) by auto

theorem hash_delete_correct_witness:
  "\<exists>t1 t2. Hash_CreateEntry demo_table0 ''a'' = Some (1, True, t1)
    \<and> Hash_DeleteEntry t1 (Some 1) = Some (Inr t2) \<and> hash_ok t2 \<and> addr_of t2 = (\<lambda>_. None)"
proof -
  have "fresh demo_table0 = 1" by (simp add: demo_table0_def Hash_InitTable_def Let_def)
  with Hash_CreateEntry_ok(2) [OF demo_table0_ok(1), of "''a''"] demo_table0_ok(3) obtain t1 where
    t1: "Hash_CreateEntry demo_table0 ''a'' = Some (1, True, t1)" "hash_ok t1"
      "addr_of t1 = (\<lambda>_. None)(''a'' \<mapsto> 1)" "1 \<in> addrs t1"
      "entries t1 1 = Some \<lparr>clientData = None, namehash = hash_key ''a'', name = ''a''\<rparr>"
    by auto
  from hash_delete_correct [OF t1(2,5)] t1(4) obtain t2 where
    "Hash_DeleteEntry t1 (Some 1) = Some (Inr t2)" "hash_ok t2" "addr_of t2 = (addr_of t1)(''a'' := None)"
    by auto
  with t1(1,3) show ?thesis by (intro exI [of _ t1] exI [of _ t2]) (simp add: fun_eq_iff)
qed

text \<open>
  an enumeration returns every entry of the table exactly once and then ends.
\<close>

theorem hash_enum_complete:
  assumes "hash_ok t"
  shows "\<exists>es. distinct es \<and> set es = addrs t
    \<and> enum_collect (Suc (length es)) t \<lparr>nextIndex = 0, hashEntryPtr = None\<rparr> = Some (map Some es @ [None])
    \<and> map_option fst (Hash_EnumFirst t) = Some (case es of [] \<Rightarrow> None | e # _ \<Rightarrow> Some e)"
proof -
  obtain bs where bs: "bucketPtr t = Some bs" "distinct (concat bs)" using assms by (auto simp: hash_ok_def)
  let ?s = "\<lparr>nextIndex = 0, hashEntryPtr = None\<rparr>"
  have rem: "remaining t bs ?s (concat bs)" by (simp add: remaining_def)
  from enum_collect_remaining [OF assms bs(1) rem] Hash_EnumNext_remaining [OF assms bs(1) rem] bs
  show ?thesis by (intro exI [of _ "concat bs"]) (auto simp: addrs_def Hash_EnumFirst_def)
qed

theorem hash_enum_complete_witness:
  "\<exists>es. distinct es \<and> set es = addrs demo_table0
    \<and> enum_collect (Suc (length es)) demo_table0 \<lparr>nextIndex = 0, hashEntryPtr = None\<rparr>
        = Some (map Some es @ [None])"
  using hash_enum_complete [OF demo_table0_ok(1)] by blast

end
