(* ===== verification/Make_Buf.thy ===== *)
theory Make_Buf
  imports Glish_Interfaces
begin

text \<open>
  The automatically expanded byte buffers of the make client (\<open>glish/clients/make/buf.c\<close>,
  \<open>buf.h\<close>). The two pointers into the allocated block are offsets; a cell of the block holds a
  byte or, as fresh memory does, nothing. \<open>None\<close> as a result is an access outside the block or
  the use of a byte that was never written.
\<close>

section \<open>Buffers\<close>

record Buffer =
  b_size :: nat
  left :: int
  buffer :: "char option list"
  inPtr :: nat
  outPtr :: nat

definition BUF_DEF_SIZE :: nat where
  "BUF_DEF_SIZE = 256"

definition BUF_ADD_INC :: nat where
  "BUF_ADD_INC = 256"

definition BUF_UNGET_INC :: nat where
  "BUF_UNGET_INC = 16"

text \<open>Storing a run of bytes at an offset, as \<open>memcpy\<close> or an assignment through a pointer does.\<close>

definition put :: "nat \<Rightarrow> char option list \<Rightarrow> Buffer \<Rightarrow> Buffer option" where
  "put i bytes bp =
     (if i + length bytes \<le> length (buffer bp) then Some (bp\<lparr>buffer := copy_at (buffer bp) i bytes\<rparr>)
      else None)"

definition BufExpand :: "Buffer \<Rightarrow> nat \<Rightarrow> Buffer" where
  "BufExpand bp nb =
     (if left bp < int nb + 1 then
        let newSize = b_size bp + max (nb + 1) BUF_ADD_INC
        in bp\<lparr>buffer := take newSize (buffer bp) @ replicate (newSize - length (buffer bp)) None,
              b_size := newSize, left := int newSize - int (inPtr bp)\<rparr>
      else bp)"

definition Buf_OvAddByte :: "Buffer \<Rightarrow> char \<Rightarrow> Buffer option" where
  "Buf_OvAddByte bp byte = do {
     let bp = BufExpand (bp\<lparr>left := 0\<rparr>) 1;
     bp \<leftarrow> put (inPtr bp) [Some byte] bp;
     let bp = bp\<lparr>inPtr := inPtr bp + 1, left := left bp - 1\<rparr>;
     put (inPtr bp) [Some NUL] bp }"

text \<open>The macro of \<open>buf.h\<close>.\<close>

definition Buf_AddByte :: "Buffer \<Rightarrow> char \<Rightarrow> Buffer option" where
  "Buf_AddByte bp byte =
     (let bp = bp\<lparr>left := left bp - 1\<rparr> in
      if left bp \<le> 0 then Buf_OvAddByte bp byte
      else do {
        bp \<leftarrow> put (inPtr bp) [Some byte] bp;
        let bp = bp\<lparr>inPtr := inPtr bp + 1\<rparr>;
        put (inPtr bp) [Some NUL] bp })"

definition Buf_AddBytes :: "Buffer \<Rightarrow> string \<Rightarrow> Buffer option" where
  "Buf_AddBytes bp bytes = do {
     let bp = BufExpand bp (length bytes);
     bp \<leftarrow> put (inPtr bp) (map Some bytes) bp;
     let bp = bp\<lparr>inPtr := inPtr bp + length bytes, left := left bp - int (length bytes)\<rparr>;
     put (inPtr bp) [Some NUL] bp }"

text \<open>
  The new block of the two routines that push bytes back: \<open>n\<close> cells of room, then what was
  left to read with its terminator.
\<close>

definition make_room :: "Buffer \<Rightarrow> nat \<Rightarrow> Buffer option" where
  "make_room bp n = do {
     let numBytes = inPtr bp - outPtr bp;
     if inPtr bp < outPtr bp \<or> length (buffer bp) < inPtr bp + 1
        \<or> b_size bp + n < n + numBytes + 1 then None
     else let newBuf = copy_at (replicate (b_size bp + n) None) n
                         (take (numBytes + 1) (drop (outPtr bp) (buffer bp)))
          in Some (bp\<lparr>buffer := newBuf, outPtr := n, inPtr := n + numBytes, b_size := b_size bp + n,
                     left := int (b_size bp + n) - int (n + numBytes)\<rparr>) }"

definition Buf_UngetByte :: "Buffer \<Rightarrow> char \<Rightarrow> Buffer option" where
  "Buf_UngetByte bp byte =
     (if outPtr bp \<noteq> 0 then
        put (outPtr bp - 1) [Some byte] (bp\<lparr>outPtr := outPtr bp - 1\<rparr>)
      else if outPtr bp = inPtr bp then do {
        bp \<leftarrow> put (inPtr bp) [Some byte] bp;
        let bp = bp\<lparr>inPtr := inPtr bp + 1, left := left bp - 1\<rparr>;
        put (inPtr bp) [Some NUL] bp }
      else do {
        bp \<leftarrow> make_room bp BUF_UNGET_INC;
        put (outPtr bp - 1) [Some byte] (bp\<lparr>outPtr := outPtr bp - 1\<rparr>) })"

definition Buf_UngetBytes :: "Buffer \<Rightarrow> string \<Rightarrow> Buffer option" where
  "Buf_UngetBytes bp bytes =
     (let numBytes = length bytes in
      if numBytes \<le> outPtr bp then
        put (outPtr bp - numBytes) (map Some bytes) (bp\<lparr>outPtr := outPtr bp - numBytes\<rparr>)
      else if outPtr bp = inPtr bp then Buf_AddBytes bp bytes
      else do {
        bp \<leftarrow> make_room bp (max numBytes BUF_UNGET_INC);
        put (outPtr bp - numBytes) (map Some bytes) (bp\<lparr>outPtr := outPtr bp - numBytes\<rparr>) })"

text \<open>Resetting an emptied buffer.\<close>

definition reset :: "Buffer \<Rightarrow> Buffer option" where
  "reset bp = put 0 [Some NUL] (bp\<lparr>outPtr := 0, inPtr := 0, left := int (b_size bp)\<rparr>)"

text \<open>\<open>None\<close> in the first component is \<open>BUF_ERROR\<close>.\<close>

definition Buf_GetByte :: "Buffer \<Rightarrow> (char option \<times> Buffer) option" where
  "Buf_GetByte bp =
     (if inPtr bp = outPtr bp then Some (None, bp)
      else if length (buffer bp) \<le> outPtr bp then None
      else do {
        res \<leftarrow> buffer bp ! outPtr bp;
        let bp = bp\<lparr>outPtr := outPtr bp + 1\<rparr>;
        bp \<leftarrow> (if outPtr bp = inPtr bp then reset bp else Some bp);
        Some (Some res, bp) })"

text \<open>The bytes stored in the caller's array; their number is the result.\<close>

definition Buf_GetBytes :: "Buffer \<Rightarrow> nat \<Rightarrow> (char option list \<times> Buffer) option" where
  "Buf_GetBytes bp numBytes =
     (let numBytes = (if inPtr bp - outPtr bp < numBytes then inPtr bp - outPtr bp else numBytes) in
      if length (buffer bp) < outPtr bp + numBytes then None
      else do {
        let bytes = take numBytes (drop (outPtr bp) (buffer bp));
        let bp = bp\<lparr>outPtr := outPtr bp + numBytes\<rparr>;
        bp \<leftarrow> (if outPtr bp = inPtr bp then reset bp else Some bp);
        Some (bytes, bp) })"

text \<open>The bytes the returned pointer and count describe.\<close>

definition Buf_GetAll :: "Buffer \<Rightarrow> char option list \<times> nat" where
  "Buf_GetAll bp = (take (inPtr bp - outPtr bp) (drop (outPtr bp) (buffer bp)), inPtr bp - outPtr bp)"

definition Buf_Discard :: "Buffer \<Rightarrow> nat \<Rightarrow> Buffer option" where
  "Buf_Discard bp numBytes =
     (if inPtr bp - outPtr bp \<le> numBytes then reset bp
      else Some (bp\<lparr>outPtr := outPtr bp + numBytes\<rparr>))"

definition Buf_Size :: "Buffer \<Rightarrow> nat" where
  "Buf_Size bp = inPtr bp - outPtr bp"

definition Buf_Init :: "int \<Rightarrow> Buffer option" where
  "Buf_Init sz =
     (let n = (if sz \<le> 0 then BUF_DEF_SIZE else nat sz)
      in put 0 [Some NUL] \<lparr>b_size = n, left = int n, buffer = replicate n None, inPtr = 0, outPtr = 0\<rparr>)"

section \<open>The invariant\<close>

text \<open>
  The block has the recorded size, the bytes between the pointers have been written and are
  followed by a terminator inside the block, and \<open>left\<close> is what the header says it is.
\<close>

definition buf_rep :: "Buffer \<Rightarrow> string \<Rightarrow> bool" where
  "buf_rep bp s \<longleftrightarrow> length (buffer bp) = b_size bp \<and> outPtr bp + length s = inPtr bp
     \<and> inPtr bp < b_size bp \<and> left bp = int (b_size bp) - int (inPtr bp)
     \<and> take (length s + 1) (drop (outPtr bp) (buffer bp)) = map Some s @ [Some NUL]"

lemma buf_rep_split:
  "buf_rep bp s \<longleftrightarrow> (\<exists>pre post. buffer bp = pre @ map Some s @ Some NUL # post
     \<and> length pre = outPtr bp \<and> inPtr bp = length pre + length s
     \<and> b_size bp = length pre + length s + 1 + length post
     \<and> left bp = int (b_size bp) - int (inPtr bp))"
proof
  assume r: "buf_rep bp s"
  let ?pre = "take (outPtr bp) (buffer bp)" and ?post = "drop (outPtr bp + length s + 1) (buffer bp)"
  have "buffer bp = ?pre @ take (length s + 1) (drop (outPtr bp) (buffer bp)) @ ?post"
    by (metis append_take_drop_id drop_drop add.commute add.left_commute)
  with r show "\<exists>pre post. buffer bp = pre @ map Some s @ Some NUL # post
     \<and> length pre = outPtr bp \<and> inPtr bp = length pre + length s
     \<and> b_size bp = length pre + length s + 1 + length post
     \<and> left bp = int (b_size bp) - int (inPtr bp)"
    by (intro exI [of _ ?pre] exI [of _ ?post]) (auto simp: buf_rep_def)
qed (auto simp: buf_rep_def)


lemma put_split:
  assumes "buffer bp = P @ T" and "i = length P" and "length bytes \<le> length T"
  shows "put i bytes bp = Some (bp\<lparr>buffer := P @ bytes @ drop (length bytes) T\<rparr>)"
  using assms by (simp add: put_def copy_at_def)

text \<open>Writing bytes and a terminator where there is room for both.\<close>

lemma put_terminated:
  assumes "buffer bp = P @ T" and "inPtr bp = length P" and "length bytes < length T"
  defines "bp' \<equiv> bp\<lparr>buffer := P @ map Some bytes @ Some NUL # drop (length bytes + 1) T\<rparr>"
  shows "put (inPtr bp) (map Some bytes) bp = Some (bp\<lparr>buffer := P @ map Some bytes @ drop (length bytes) T\<rparr>)"
    and "put (length P + length bytes) [Some NUL]
      (bp\<lparr>buffer := P @ map Some bytes @ drop (length bytes) T, inPtr := i, left := l\<rparr>)
      = Some (bp'\<lparr>inPtr := i, left := l\<rparr>)"
    and "put (length P + length bytes) [Some NUL]
      (bp\<lparr>buffer := P @ map Some bytes @ drop (length bytes) T, inPtr := i\<rparr>)
      = Some (bp'\<lparr>inPtr := i\<rparr>)"
proof -
  show "put (inPtr bp) (map Some bytes) bp = Some (bp\<lparr>buffer := P @ map Some bytes @ drop (length bytes) T\<rparr>)"
    using put_split [OF assms(1,2), of "map Some bytes"] assms(3) by simp
  have t: "drop 1 (drop (length bytes) T) = drop (length bytes + 1) T" by simp
  have "1 \<le> length (drop (length bytes) T)" using assms(3) by simp
  note S = put_split [of _ "P @ map Some bytes" "drop (length bytes) T" "length P + length bytes" "[Some NUL]"]
  show "put (length P + length bytes) [Some NUL]
      (bp\<lparr>buffer := P @ map Some bytes @ drop (length bytes) T, inPtr := i, left := l\<rparr>)
      = Some (bp'\<lparr>inPtr := i, left := l\<rparr>)"
    using assms(3) t by (subst S) (simp_all add: bp'_def)
  show "put (length P + length bytes) [Some NUL]
      (bp\<lparr>buffer := P @ map Some bytes @ drop (length bytes) T, inPtr := i\<rparr>)
      = Some (bp'\<lparr>inPtr := i\<rparr>)"
    using assms(3) t by (subst S) (simp_all add: bp'_def)
qed

text \<open>\<open>BufExpand\<close> keeps the contents and leaves room for the bytes and a terminator.\<close>

lemma BufExpand_room:
  assumes buf: "buffer bp = pre @ map Some s @ Some NUL # post" and out: "length pre = outPtr bp"
    and inp: "inPtr bp = length pre + length s" and sz: "b_size bp = length (buffer bp)"
    and lft: "left bp \<le> int (b_size bp) - int (inPtr bp)"
  shows "\<exists>T. buffer (BufExpand bp n) = (pre @ map Some s) @ T \<and> n < length T
    \<and> inPtr (BufExpand bp n) = inPtr bp \<and> outPtr (BufExpand bp n) = outPtr bp
    \<and> b_size (BufExpand bp n) = length (buffer (BufExpand bp n))
    \<and> (left bp < int n + 1 \<or> left bp = int (b_size bp) - int (inPtr bp) \<longrightarrow> left (BufExpand bp n) = int (b_size (BufExpand bp n)) - int (inPtr bp))"
proof (cases "left bp < int n + 1")
  case True
  let ?m = "max (n + 1) BUF_ADD_INC"
  have "BufExpand bp n = bp\<lparr>buffer := buffer bp @ replicate ?m None, b_size := b_size bp + ?m,
      left := int (b_size bp + ?m) - int (inPtr bp)\<rparr>"
    using True sz by (simp add: BufExpand_def Let_def)
  then show ?thesis
    using buf inp sz by (intro exI [of _ "Some NUL # post @ replicate ?m None"]) (simp add: max_def)
next
  case False
  then have "n < length (Some NUL # post)" using lft sz buf inp by simp
  with False buf sz show ?thesis
    by (intro exI [of _ "Some NUL # post"]) (simp add: BufExpand_def)
qed

lemma Buf_AddBytes_rep:
  assumes "buf_rep bp s"
  shows "\<exists>bp'. Buf_AddBytes bp bytes = Some bp' \<and> buf_rep bp' (s @ bytes)"
proof -
  from assms obtain pre post where B: "buffer bp = pre @ map Some s @ Some NUL # post"
    "length pre = outPtr bp" "inPtr bp = length pre + length s"
    "b_size bp = length (buffer bp)" "left bp = int (b_size bp) - int (inPtr bp)"
    by (auto simp: buf_rep_split)
  define b where "b = BufExpand bp (length bytes)"
  obtain T where T: "buffer b = (pre @ map Some s) @ T" "length bytes < length T" "inPtr b = inPtr bp"
    "outPtr b = outPtr bp" "b_size b = length (buffer b)" "left b = int (b_size b) - int (inPtr bp)"
    using BufExpand_room [OF B(1-4), of "length bytes"] B(5) by (auto simp: b_def)
  have ib: "inPtr b = length (pre @ map Some s)" using T(3) B(3) by simp
  let ?bp = "b\<lparr>buffer := (pre @ map Some s) @ map Some bytes @ Some NUL # drop (length bytes + 1) T,
    inPtr := inPtr bp + length bytes, left := left b - int (length bytes)\<rparr>"
  note P = put_terminated [OF T(1) ib T(2)]
  have "Buf_AddBytes bp bytes = Some ?bp"
    using P(1) P(2) [where i = "inPtr bp + length bytes" and l = "left b - int (length bytes)"] T(3) B(3)
    by (simp add: Buf_AddBytes_def flip: b_def)
  moreover have "buf_rep ?bp (s @ bytes)"
    unfolding buf_rep_split using T B
    by (intro exI [of _ pre] exI [of _ "drop (length bytes + 1) T"]) simp
  ultimately show ?thesis by blast
qed

lemma Buf_AddByte_rep:
  assumes "buf_rep bp s"
  shows "\<exists>bp'. Buf_AddByte bp c = Some bp' \<and> buf_rep bp' (s @ [c])"
proof -
  from assms obtain pre post where B: "buffer bp = pre @ map Some s @ Some NUL # post"
    "length pre = outPtr bp" "inPtr bp = length pre + length s"
    "b_size bp = length (buffer bp)" "left bp = int (b_size bp) - int (inPtr bp)"
    by (auto simp: buf_rep_split)
  show ?thesis
  proof (cases "left bp - 1 \<le> 0")
    case True
    define b0 where "b0 = bp\<lparr>left := 0\<rparr>"
    define b where "b = BufExpand b0 1"
    have be: "BufExpand b0 (Suc 0) = b" by (simp add: b_def)
    obtain T where T: "buffer b = (pre @ map Some s) @ T" "1 < length T" "inPtr b = inPtr bp"
      "outPtr b = outPtr bp" "b_size b = length (buffer b)" "left b = int (b_size b) - int (inPtr bp)"
      using BufExpand_room [of b0 pre s post 1] B by (auto simp: b_def b0_def)
    have ib: "inPtr b = length (pre @ map Some s)" using T(3) B(3) by simp
    have l1: "length [c] < length T" using T(2) by simp
    note P = put_terminated [OF T(1) ib l1]
    let ?bp = "b\<lparr>buffer := (pre @ map Some s) @ map Some [c] @ Some NUL # drop 2 T,
      inPtr := inPtr bp + 1, left := left b - 1\<rparr>"
    have "Buf_AddByte bp c = Some ?bp"
      using True P(1) P(2) [where i = "inPtr bp + 1" and l = "left b - 1"] T(3) B(3)
        be by (simp add: Buf_AddByte_def Buf_OvAddByte_def Let_def numeral_2_eq_2 flip: b0_def)
    moreover have "buf_rep ?bp (s @ [c])"
      unfolding buf_rep_split using T B
      by (intro exI [of _ pre] exI [of _ "drop 2 T"]) simp
    ultimately show ?thesis by blast
  next
    case False
    define b where "b = bp\<lparr>left := left bp - 1\<rparr>"
    obtain x post' where post: "post = x # post'" using False B by (cases post) auto
    have T: "buffer b = (pre @ map Some s) @ (Some NUL # post)" using B by (simp add: b_def)
    have ib: "inPtr b = length (pre @ map Some s)" using B(3) by (simp add: b_def)
    have l1: "length [c] < length (Some NUL # post)" by (simp add: post)
    note P = put_terminated [OF T ib l1]
    let ?bp = "b\<lparr>buffer := (pre @ map Some s) @ map Some [c] @ Some NUL # post', inPtr := inPtr bp + 1\<rparr>"
    have "Buf_AddByte bp c = Some ?bp"
      using False P(1) P(3) [where i = "inPtr bp + 1"] B(3) ib post
      by (simp add: Buf_AddByte_def Let_def flip: b_def) (simp add: b_def)
    moreover have "buf_rep ?bp (s @ [c])"
      unfolding buf_rep_split using B post
      by (intro exI [of _ pre] exI [of _ post']) (simp add: b_def)
    ultimately show ?thesis by blast
  qed
qed

section \<open>Reading and pushing back\<close>

lemma reset_rep:
  assumes "length (buffer bp) = b_size bp" and "0 < b_size bp"
  shows "\<exists>bp'. reset bp = Some bp' \<and> buf_rep bp' []"
proof -
  let ?b = "bp\<lparr>outPtr := 0, inPtr := 0, left := int (b_size bp)\<rparr>"
  have "put 0 [Some NUL] ?b = Some (?b\<lparr>buffer := [] @ [Some NUL] @ drop 1 (buffer bp)\<rparr>)"
    using assms put_split [of ?b "[]" "buffer bp" 0 "[Some NUL]"] by simp
  then show ?thesis
    using assms unfolding reset_def by (simp add: buf_rep_def)
qed

lemma Buf_GetByte_rep:
  assumes "buf_rep bp (c # s)"
  shows "\<exists>bp'. Buf_GetByte bp = Some (Some c, bp') \<and> buf_rep bp' s"
proof -
  from assms obtain pre post where B: "buffer bp = pre @ Some c # map Some s @ Some NUL # post"
    "length pre = outPtr bp" "inPtr bp = length pre + length s + 1"
    "b_size bp = length (buffer bp)" "left bp = int (b_size bp) - int (inPtr bp)"
    by (auto simp: buf_rep_split)
  have c: "buffer bp ! outPtr bp = Some c" "outPtr bp < length (buffer bp)" "inPtr bp \<noteq> outPtr bp"
    using B by (auto simp: nth_append)
  let ?b = "bp\<lparr>outPtr := outPtr bp + 1\<rparr>"
  show ?thesis
  proof (cases "s = []")
    case True
    obtain bp' where "reset ?b = Some bp'" "buf_rep bp' []"
      using reset_rep [of ?b] B(1,4) by auto
    with True c B show ?thesis by (simp add: Buf_GetByte_def)
  next
    case False
    then have "buf_rep ?b s"
      using B unfolding buf_rep_split by (intro exI [of _ "pre @ [Some c]"] exI [of _ post]) simp
    with False c B show ?thesis by (simp add: Buf_GetByte_def)
  qed
qed

lemma Buf_GetByte_empty: "buf_rep bp [] \<Longrightarrow> Buf_GetByte bp = Some (None, bp)"
  by (simp add: buf_rep_def Buf_GetByte_def)

lemma Buf_GetBytes_rep:
  assumes "buf_rep bp s"
  shows "\<exists>bp'. Buf_GetBytes bp n = Some (map Some (take n s), bp') \<and> buf_rep bp' (drop n s)"
proof -
  from assms obtain pre post where B: "buffer bp = pre @ map Some s @ Some NUL # post"
    "length pre = outPtr bp" "inPtr bp = length pre + length s"
    "b_size bp = length (buffer bp)" "left bp = int (b_size bp) - int (inPtr bp)"
    by (auto simp: buf_rep_split)
  define k where "k = min n (length s)"
  have k: "(if inPtr bp - outPtr bp < n then inPtr bp - outPtr bp else n) = k"
    using B(2,3) by (auto simp: k_def)
  have s: "take n s = take k s" "drop n s = drop k s" "k \<le> length s" by (auto simp: k_def min_def)
  have t: "take k (drop (outPtr bp) (buffer bp)) = map Some (take k s)"
    using B(1,2) s(3) by (simp add: take_map)
  let ?b = "bp\<lparr>outPtr := outPtr bp + k\<rparr>"
  have len: "outPtr bp + k \<le> length (buffer bp)" using B(1,2) s(3) by simp
  show ?thesis
  proof (cases "k = length s")
    case True
    obtain bp' where "reset ?b = Some bp'" "buf_rep bp' []"
      using reset_rep [of ?b] B(1,4) by auto
    with True k t s B(2,3) len show ?thesis by (simp add: Buf_GetBytes_def Let_def)
  next
    case False
    then have "buf_rep ?b (drop k s)"
      using B s(3) unfolding buf_rep_split
      by (intro exI [of _ "pre @ map Some (take k s)"] exI [of _ post])
        (simp add: map_append [symmetric] del: map_append)
    with False k t s B(2,3) len show ?thesis by (simp add: Buf_GetBytes_def Let_def)
  qed
qed

lemma Buf_Discard_rep:
  assumes "buf_rep bp s"
  shows "\<exists>bp'. Buf_Discard bp n = Some bp' \<and> buf_rep bp' (drop n s)"
proof -
  from assms obtain pre post where B: "buffer bp = pre @ map Some s @ Some NUL # post"
    "length pre = outPtr bp" "inPtr bp = length pre + length s"
    "b_size bp = length (buffer bp)" "left bp = int (b_size bp) - int (inPtr bp)"
    by (auto simp: buf_rep_split)
  show ?thesis
  proof (cases "length s \<le> n")
    case True
    obtain bp' where "reset bp = Some bp'" "buf_rep bp' []"
      using reset_rep [of bp] B(1,4) by auto
    with True B(2,3) show ?thesis by (simp add: Buf_Discard_def)
  next
    case False
    then have "buf_rep (bp\<lparr>outPtr := outPtr bp + n\<rparr>) (drop n s)"
      using B unfolding buf_rep_split
      by (intro exI [of _ "pre @ map Some (take n s)"] exI [of _ post])
        (simp add: map_append [symmetric] del: map_append)
    with False B(2,3) show ?thesis by (simp add: Buf_Discard_def)
  qed
qed

text \<open>The room made in front of what is left to read.\<close>

lemma make_room_rep:
  assumes "buf_rep bp s" and "k \<le> n"
  shows "\<exists>bp'. make_room bp n = Some bp' \<and> outPtr bp' = n
    \<and> (\<forall>bytes. length bytes = k \<longrightarrow> (\<exists>bp''. put (n - k) (map Some bytes) (bp'\<lparr>outPtr := n - k\<rparr>) = Some bp''
        \<and> buf_rep bp'' (bytes @ s)))"
proof -
  from assms obtain pre post where B: "buffer bp = pre @ map Some s @ Some NUL # post"
    "length pre = outPtr bp" "inPtr bp = length pre + length s"
    "b_size bp = length (buffer bp)" "left bp = int (b_size bp) - int (inPtr bp)"
    by (auto simp: buf_rep_split)
  define rest where "rest = replicate (length pre + length post) (None :: char option)"
  let ?buf = "replicate n None @ map Some s @ Some NUL # rest"
  let ?bp = "bp\<lparr>buffer := ?buf, outPtr := n, inPtr := n + length s, b_size := b_size bp + n,
    left := int (b_size bp + n) - int (n + length s)\<rparr>"
  have t: "take (length s + 1) (drop (outPtr bp) (buffer bp)) = map Some s @ [Some NUL]"
    using B(1,2) by simp
  have "copy_at (replicate (b_size bp + n) None) n (map Some s @ [Some NUL]) = ?buf"
  proof -
    have "b_size bp = length s + 1 + (length pre + length post)" using B(1,4) by simp
    then have "take n (replicate (b_size bp + n) None) = replicate n None"
      "drop (n + (length s + 1)) (replicate (b_size bp + n) None) = rest"
      by (simp_all only: rest_def take_replicate drop_replicate) simp_all
    then show ?thesis by (simp add: copy_at_def)
  qed
  then have room: "make_room bp n = Some ?bp"
    using B t by (simp add: make_room_def Let_def)
  have "\<exists>bp''. put (n - k) (map Some bytes) (?bp\<lparr>outPtr := n - k\<rparr>) = Some bp'' \<and> buf_rep bp'' (bytes @ s)"
    if "length bytes = k" for bytes
  proof -
    let ?b = "?bp\<lparr>outPtr := n - k\<rparr>"
    have buf: "buffer ?b = replicate (n - k) None @ (replicate k None @ map Some s @ Some NUL # rest)"
      using assms(2) by (simp add: replicate_add [symmetric])
    have "put (n - k) (map Some bytes) ?b
        = Some (?b\<lparr>buffer := replicate (n - k) None @ map Some bytes @ map Some s @ Some NUL # rest\<rparr>)"
      using put_split [OF buf, of "n - k" "map Some bytes"] that by simp
    moreover have "buf_rep (?b\<lparr>buffer := replicate (n - k) None @ map Some bytes @ map Some s @ Some NUL # rest\<rparr>) (bytes @ s)"
      unfolding buf_rep_split using that assms(2) B
      by (intro exI [of _ "replicate (n - k) None"] exI [of _ rest]) (simp add: rest_def)
    ultimately show ?thesis by blast
  qed
  with room show ?thesis by (intro exI [of _ ?bp]) simp
qed

lemma put_back_rep:
  assumes "buf_rep bp s" and "length bytes \<le> outPtr bp"
  shows "\<exists>bp'. put (outPtr bp - length bytes) (map Some bytes) (bp\<lparr>outPtr := outPtr bp - length bytes\<rparr>) = Some bp'
    \<and> buf_rep bp' (bytes @ s)"
proof -
  from assms obtain pre post where B: "buffer bp = pre @ map Some s @ Some NUL # post"
    "length pre = outPtr bp" "inPtr bp = length pre + length s"
    "b_size bp = length (buffer bp)" "left bp = int (b_size bp) - int (inPtr bp)"
    by (auto simp: buf_rep_split)
  let ?i = "outPtr bp - length bytes"
  let ?b = "bp\<lparr>outPtr := ?i\<rparr>"
  have buf: "buffer ?b = take ?i pre @ (drop ?i pre @ map Some s @ Some NUL # post)"
    using B(1) by (simp add: append_assoc [symmetric] del: append_assoc)
  have len: "length (drop ?i pre) = length bytes" using B(2) assms(2) by simp
  have "put ?i (map Some bytes) ?b
      = Some (?b\<lparr>buffer := take ?i pre @ map Some bytes @ map Some s @ Some NUL # post\<rparr>)"
    using put_split [OF buf, of ?i "map Some bytes"] len B(2) by simp
  moreover have "buf_rep (?b\<lparr>buffer := take ?i pre @ map Some bytes @ map Some s @ Some NUL # post\<rparr>) (bytes @ s)"
    unfolding buf_rep_split using assms(2) B
    by (intro exI [of _ "take ?i pre"] exI [of _ post]) simp
  ultimately show ?thesis by blast
qed

lemma Buf_UngetBytes_rep:
  assumes "buf_rep bp s"
  shows "\<exists>bp'. Buf_UngetBytes bp bytes = Some bp' \<and> buf_rep bp' (bytes @ s)"
proof (cases "length bytes \<le> outPtr bp")
  case True
  then show ?thesis using put_back_rep [OF assms True] by (simp add: Buf_UngetBytes_def Let_def)
next
  case False
  show ?thesis
  proof (cases "outPtr bp = inPtr bp")
    case True
    then have "s = []" using assms by (simp add: buf_rep_def)
    with True False Buf_AddBytes_rep [OF assms, of bytes] show ?thesis
      by (simp add: Buf_UngetBytes_def Let_def)
  next
    case ne: False
    have "length bytes \<le> max (length bytes) BUF_UNGET_INC" by simp
    from make_room_rep [OF assms this] False ne show ?thesis
      by (auto simp: Buf_UngetBytes_def Let_def)
  qed
qed

lemma Buf_UngetByte_rep:
  assumes "buf_rep bp s" and "2 \<le> b_size bp"
  shows "\<exists>bp'. Buf_UngetByte bp c = Some bp' \<and> buf_rep bp' (c # s)"
proof (cases "outPtr bp = 0")
  case False
  then show ?thesis using put_back_rep [OF assms(1), of "[c]"] by (simp add: Buf_UngetByte_def)
next
  case out: True
  show ?thesis
  proof (cases "inPtr bp = 0")
    case False
    have "1 \<le> BUF_UNGET_INC" by (simp add: BUF_UNGET_INC_def)
    from make_room_rep [OF assms(1) this] obtain bp' where bp': "make_room bp BUF_UNGET_INC = Some bp'"
      "outPtr bp' = BUF_UNGET_INC" and
      "\<And>bytes. length bytes = 1 \<Longrightarrow> \<exists>bp''. put (BUF_UNGET_INC - 1) (map Some bytes)
        (bp'\<lparr>outPtr := BUF_UNGET_INC - 1\<rparr>) = Some bp'' \<and> buf_rep bp'' (bytes @ s)" by blast
    from this(3) [of "[c]"] bp' out False show ?thesis by (auto simp: Buf_UngetByte_def)
  next
    case True
    then have s: "s = []" using assms(1) by (simp add: buf_rep_def)
    with assms out obtain x post where B: "buffer bp = Some NUL # x # post" "b_size bp = length post + 2"
      "left bp = int (b_size bp)"
      by (auto simp: buf_rep_split True) (metis Suc_le_length_iff numeral_2_eq_2 Suc_le_mono add_2_eq_Suc')
    note P = put_terminated [of bp "[]" "Some NUL # x # post" "[c]"]
    have "Buf_UngetByte bp c = Some (bp\<lparr>buffer := Some c # Some NUL # post, inPtr := 1, left := left bp - 1\<rparr>)"
      using P(1) P(2) [where i = 1 and l = "left bp - 1"] B out True by (simp add: Buf_UngetByte_def)
    moreover have "buf_rep (bp\<lparr>buffer := Some c # Some NUL # post, inPtr := 1, left := left bp - 1\<rparr>) [c]"
      using B out by (simp add: buf_rep_def)
    ultimately show ?thesis using s by blast
  qed
qed

lemma Buf_Init_rep: "\<exists>bp. Buf_Init n = Some bp \<and> buf_rep bp [] \<and> (n \<noteq> 1 \<longrightarrow> 2 \<le> b_size bp)"
proof -
  define k where "k = (if n \<le> 0 then BUF_DEF_SIZE else nat n)"
  have k: "0 < k" "n \<noteq> 1 \<Longrightarrow> 2 \<le> k" by (auto simp: k_def BUF_DEF_SIZE_def)
  let ?b = "\<lparr>b_size = k, left = int k, buffer = replicate k None, inPtr = 0, outPtr = 0\<rparr>"
  have "put 0 [Some NUL] ?b = Some (?b\<lparr>buffer := [] @ [Some NUL] @ drop 1 (replicate k None)\<rparr>)"
    using put_split [of ?b "[]" "replicate k None" 0 "[Some NUL]"] k by simp
  then show ?thesis
    using k by (simp add: Buf_Init_def Let_def flip: k_def) (simp add: buf_rep_def)
qed

section \<open>A queue of bytes\<close>

interpretation byte_queue: fifo buf_rep "\<lambda>c bp. Buf_AddByte bp c" Buf_GetByte
  using Buf_AddByte_rep Buf_GetByte_rep Buf_GetByte_empty by unfold_locales blast+

text \<open>The operations of \<open>buf.h\<close> on one buffer, and running a sequence of them.\<close>

datatype buf_op =
    AddByte char | AddBytes string | UngetByte char | UngetBytes string
  | GetByte | GetBytes nat | Discard nat

fun run_op :: "buf_op \<Rightarrow> Buffer \<Rightarrow> Buffer option" where
  "run_op (AddByte c) bp = Buf_AddByte bp c"
| "run_op (AddBytes bs) bp = Buf_AddBytes bp bs"
| "run_op (UngetByte c) bp = Buf_UngetByte bp c"
| "run_op (UngetBytes bs) bp = Buf_UngetBytes bp bs"
| "run_op GetByte bp = map_option snd (Buf_GetByte bp)"
| "run_op (GetBytes n) bp = map_option snd (Buf_GetBytes bp n)"
| "run_op (Discard n) bp = Buf_Discard bp n"

fun run_ops :: "buf_op list \<Rightarrow> Buffer \<Rightarrow> Buffer option" where
  "run_ops [] bp = Some bp"
| "run_ops (x # xs) bp = do { bp \<leftarrow> run_op x bp; run_ops xs bp }"

text \<open>What each of them does to the bytes that are left to read.\<close>

fun spec_op :: "buf_op \<Rightarrow> string \<Rightarrow> string" where
  "spec_op (AddByte c) s = s @ [c]"
| "spec_op (AddBytes bs) s = s @ bs"
| "spec_op (UngetByte c) s = c # s"
| "spec_op (UngetBytes bs) s = bs @ s"
| "spec_op GetByte s = drop 1 s"
| "spec_op (GetBytes n) s = drop n s"
| "spec_op (Discard n) s = drop n s"

text \<open>The size of a block never shrinks.\<close>

lemma put_size: "put i bs bp = Some bp' \<Longrightarrow> b_size bp' = b_size bp"
  by (auto simp: put_def split: if_splits)

lemma reset_size: "reset bp = Some bp' \<Longrightarrow> b_size bp' = b_size bp"
  by (auto simp: reset_def dest: put_size)

lemma BufExpand_size: "b_size bp \<le> b_size (BufExpand bp n)"
  by (simp add: BufExpand_def Let_def)

lemma Buf_AddBytes_size: "Buf_AddBytes bp bs = Some bp' \<Longrightarrow> b_size bp \<le> b_size bp'"
  using BufExpand_size [of bp "length bs"]
  by (auto simp: Buf_AddBytes_def Let_def split: Option.bind_splits dest!: put_size)

lemma Buf_OvAddByte_size: "Buf_OvAddByte bp c = Some bp' \<Longrightarrow> b_size bp \<le> b_size bp'"
  using BufExpand_size [of "bp\<lparr>left := 0\<rparr>" 1]
  by (auto simp: Buf_OvAddByte_def Let_def split: Option.bind_splits dest!: put_size)

lemma Buf_AddByte_size: "Buf_AddByte bp c = Some bp' \<Longrightarrow> b_size bp \<le> b_size bp'"
  by (auto simp: Buf_AddByte_def Let_def split: Option.bind_splits if_splits
      dest!: put_size Buf_OvAddByte_size)

lemma make_room_size: "make_room bp n = Some bp' \<Longrightarrow> b_size bp \<le> b_size bp'"
  by (auto simp: make_room_def Let_def split: if_splits)

lemma Buf_Unget_size:
  "Buf_UngetByte bp c = Some bp' \<Longrightarrow> b_size bp \<le> b_size bp'"
  "Buf_UngetBytes bp bs = Some bp' \<Longrightarrow> b_size bp \<le> b_size bp'"
  by (auto simp: Buf_UngetByte_def Buf_UngetBytes_def Let_def split: Option.bind_splits if_splits
      dest!: put_size make_room_size Buf_AddBytes_size)

lemma Buf_Get_size:
  "Buf_GetByte bp = Some (c, bp') \<Longrightarrow> b_size bp' = b_size bp"
  "Buf_GetBytes bp n = Some (cs, bp') \<Longrightarrow> b_size bp' = b_size bp"
  "Buf_Discard bp n = Some bp' \<Longrightarrow> b_size bp' = b_size bp"
  by (auto simp: Buf_GetByte_def Buf_GetBytes_def Buf_Discard_def Let_def
      split: Option.bind_splits if_splits dest!: reset_size)

lemma run_op_size: "run_op x bp = Some bp' \<Longrightarrow> b_size bp \<le> b_size bp'"
  by (cases x) (auto dest: Buf_AddByte_size Buf_AddBytes_size Buf_Unget_size Buf_Get_size)

lemma run_op_rep:
  assumes "buf_rep bp s" and "2 \<le> b_size bp"
  shows "\<exists>bp'. run_op x bp = Some bp' \<and> buf_rep bp' (spec_op x s)"
proof (cases x)
  case GetByte
  show ?thesis
  proof (cases s)
    case Nil
    with assms GetByte show ?thesis by (simp add: Buf_GetByte_empty)
  next
    case (Cons c s')
    with assms(1) Buf_GetByte_rep [of bp c s'] GetByte show ?thesis by auto
  qed
next
  case (GetBytes n)
  with Buf_GetBytes_rep [OF assms(1), of n] show ?thesis by auto
next
  case (UngetByte c)
  with Buf_UngetByte_rep [OF assms, of c] show ?thesis by simp
qed (use Buf_AddByte_rep Buf_AddBytes_rep Buf_UngetBytes_rep Buf_Discard_rep assms(1) in auto)

lemma run_ops_rep:
  "buf_rep bp s \<Longrightarrow> 2 \<le> b_size bp \<Longrightarrow>
   \<exists>bp'. run_ops xs bp = Some bp' \<and> buf_rep bp' (fold spec_op xs s)"
proof (induction xs arbitrary: bp s)
  case Nil
  then show ?case by simp
next
  case (Cons x xs)
  from run_op_rep [OF Cons.prems] obtain bp1 where
    b: "run_op x bp = Some bp1" "buf_rep bp1 (spec_op x s)" by blast
  with Cons.IH [of bp1 "spec_op x s"] run_op_size [OF b(1)] Cons.prems(2) show ?case by simp
qed

section \<open>Properties\<close>



text \<open>
  the bytes added to an empty buffer one at a time are read back in the order in which they
  were added, and the buffer then reports its end.
\<close>

theorem buf_bytes_in_order:
  assumes "buf_rep bp []"
  shows "\<exists>b1 b2 b3. byte_queue.enq_all cs bp = Some b1
    \<and> byte_queue.deq_all (length cs) b1 = Some (map Some cs, b2) \<and> Buf_GetByte b2 = Some (None, b3)"
  using assms by (rule byte_queue.in_order)

theorem buf_bytes_in_order_witness:
  "\<exists>b1 b2 b3. byte_queue.enq_all ''ab'' \<lparr>b_size = 1, left = 1, buffer = [Some NUL], inPtr = 0, outPtr = 0\<rparr> = Some b1
    \<and> byte_queue.deq_all 2 b1 = Some ([Some CHR ''a'', Some CHR ''b''], b2) \<and> Buf_GetByte b2 = Some (None, b3)"
  using buf_bytes_in_order [of "\<lparr>b_size = 1, left = 1, buffer = [Some NUL], inPtr = 0, outPtr = 0\<rparr>" "''ab''"]
  by (simp add: buf_rep_def numeral_2_eq_2)

text \<open>
  pushing one byte back onto a fresh buffer of size one writes its terminator behind the
  block: the branch of \<open>Buf_UngetByte\<close> for an empty buffer does not check for room.
\<close>

theorem buf_unget_overrun: "Buf_Init 1 \<bind> (\<lambda>bp. Buf_UngetByte bp c) = None"
  by (simp add: Buf_Init_def Buf_UngetByte_def put_def copy_at_def Let_def)

end
