(* ===== verification/Make_Str.thy ===== *)
theory Make_Str
  imports Make_Buf
begin

text \<open>
  The string routines of the make client (\<open>glish/clients/make/str.c\<close>): concatenation, breaking a
  line into words, substring search, wild-card matching and System V pattern substitution. A
  \<open>char*\<close> that is only read is the list of its characters before the terminating NUL; memory that
  is written is a list of cells that hold a character or, as fresh memory does, nothing. \<open>None\<close> is
  an access outside the memory a pointer belongs to.
\<close>

section \<open>Concatenation\<close>

definition STR_ADDSPACE :: u32 where
  "STR_ADDSPACE = 0x01"

definition STR_DOFREE :: u32 where
  "STR_DOFREE = 0x02"

definition STR_ADDSLASH :: u32 where
  "STR_ADDSLASH = 0x04"

definition store_at :: "'a list \<Rightarrow> nat \<Rightarrow> 'a list \<Rightarrow> 'a list option" where
  "store_at dst i src = (if i + length src \<le> length dst then Some (copy_at dst i src) else None)"

text \<open>The new block, and whether the two arguments are freed.\<close>

definition str_concat :: "string \<Rightarrow> string \<Rightarrow> u32 \<Rightarrow> (char option list \<times> bool) option" where
  "str_concat s1 s2 flags = do {
     let len1 = length s1;
     let len2 = length s2;
     let result = replicate (len1 + len2 + 2) None;
     result \<leftarrow> store_at result 0 (map Some s1);
     (result, len1) \<leftarrow>
       (if flags AND STR_ADDSPACE \<noteq> 0 then do {
          result \<leftarrow> store_at result len1 [Some CHR '' '']; Some (result, len1 + 1) }
        else if flags AND STR_ADDSLASH \<noteq> 0 then do {
          result \<leftarrow> store_at result len1 [Some CHR ''/'']; Some (result, len1 + 1) }
        else Some (result, len1));
     result \<leftarrow> store_at result len1 (map Some s2 @ [Some NUL]);
     Some (result, flags AND STR_DOFREE \<noteq> 0) }"

section \<open>Breaking a line into words\<close>

text \<open>
  The two static arrays of the file with their sizes. An element of \<open>argv\<close> is the value of
  \<open>.MAKE\<close>, a null pointer, a pointer into \<open>buffer\<close>, or not yet written.
\<close>

datatype arg = MakeValue | NullArg | At nat | Unset

record strs =
  argv :: "arg list"
  argmax :: nat
  words :: "char option list"
  curlen :: nat

definition str_init :: strs where
  "str_init = \<lparr>argv = MakeValue # replicate 49 Unset, argmax = 50, words = [], curlen = 0\<rparr>"

text \<open>\<open>if (!start) start = t; *t++ = ch;\<close>\<close>

definition add_char :: "char \<Rightarrow> nat option \<Rightarrow> nat \<Rightarrow> strs \<Rightarrow> (nat option \<times> nat \<times> strs) option" where
  "add_char ch start t st = do {
     w \<leftarrow> store_at (words st) t [Some ch];
     Some (Some (case start of None \<Rightarrow> t | Some s \<Rightarrow> s), t + 1, st\<lparr>words := w\<rparr>) }"

text \<open>The end of a token: terminate it, make room in \<open>argv\<close> and record its start.\<close>

definition end_token :: "nat \<Rightarrow> nat \<Rightarrow> nat \<Rightarrow> strs \<Rightarrow> (nat \<times> nat \<times> strs) option" where
  "end_token start t argc st = do {
     w \<leftarrow> store_at (words st) t [Some NUL];
     let st = st\<lparr>words := w\<rparr>;
     let st = (if argc = argmax st
               then st\<lparr>argv := argv st @ replicate (argmax st) Unset, argmax := argmax st * 2\<rparr> else st);
     a \<leftarrow> store_at (argv st) argc [At start];
     Some (t + 1, argc + 1, st\<lparr>argv := a\<rparr>) }"

definition backspace :: char where "backspace = CHR 0x08"
definition formfeed :: char where "formfeed = CHR 0x0C"
definition creturn :: char where "creturn = CHR 0x0D"
definition tab :: char where "tab = CHR 0x09"
definition backslash :: char where "backslash = CHR 0x5C"
definition dquote :: char where "dquote = CHR 0x22"
definition squote :: char where "squote = CHR 0x27"

definition unescape :: "char \<Rightarrow> char" where
  "unescape ch =
     (if ch = CHR ''b'' then backspace else if ch = CHR ''f'' then formfeed
      else if ch = CHR ''n'' then newline else if ch = CHR ''r'' then creturn
      else if ch = CHR ''t'' then tab else ch)"

text \<open>
  The copying loop. The argument \<open>p\<close> is what is left of the string, empty at its terminator;
  \<open>inquote\<close> is NUL outside quotes and \<open>start\<close> is \<open>None\<close> between words.
\<close>

fun brk_loop ::
  "bool \<Rightarrow> string \<Rightarrow> char \<Rightarrow> nat option \<Rightarrow> nat \<Rightarrow> nat \<Rightarrow> strs \<Rightarrow> (nat \<times> strs) option" where
  "brk_loop expand [] inquote start t argc st =
     (case start of
        None \<Rightarrow> Some (argc, st)
      | Some s \<Rightarrow> do { (t, argc, st) \<leftarrow> end_token s t argc st; Some (argc, st) })"
| "brk_loop expand (ch # p) inquote start t argc st =
     (if ch = dquote \<or> ch = squote then
        if inquote \<noteq> NUL \<and> inquote \<noteq> ch then do {
          (start, t, st) \<leftarrow> add_char ch start t st;
          brk_loop expand p inquote start t argc st }
        else if inquote = NUL \<and> start = None \<and> p \<noteq> [] \<and> hd p = ch then do {
          (start, t, st) \<leftarrow> add_char ch (Some (t + 1)) t st;
          brk_loop expand p ch start t argc st }
        else let inquote = (if inquote = NUL then ch else NUL) in
          if expand then brk_loop expand p inquote start t argc st
          else do {
            (start, t, st) \<leftarrow> add_char ch start t st;
            brk_loop expand p inquote start t argc st }
      else if (ch = CHR '' '' \<or> ch = tab \<or> ch = newline) \<and> inquote = NUL then
        case start of
          None \<Rightarrow> brk_loop expand p inquote None t argc st
        | Some s \<Rightarrow> do {
            (t, argc, st) \<leftarrow> end_token s t argc st;
            if ch = newline then Some (argc, st) else brk_loop expand p inquote None t argc st }
      else if ch = backslash then
        if \<not> expand then do {
          (start, t, st) \<leftarrow> add_char backslash start t st;
          case p of
            [] \<Rightarrow> None
          | c # p' \<Rightarrow> do {
              (start, t, st) \<leftarrow> add_char c start t st;
              brk_loop expand p' inquote start t argc st } }
        else (case p of
            [] \<Rightarrow> do {
              (start, t, st) \<leftarrow> add_char backslash start t st;
              brk_loop expand [] inquote start t argc st }
          | c # p' \<Rightarrow>
              if c = newline then do {
                (start, t, st) \<leftarrow> add_char backslash start t st;
                brk_loop expand (c # p') inquote start t argc st }
              else do {
                (start, t, st) \<leftarrow> add_char (unescape c) start t st;
                brk_loop expand p' inquote start t argc st })
      else do {
        (start, t, st) \<leftarrow> add_char ch start t st;
        brk_loop expand p inquote start t argc st })"

text \<open>The routine up to its label \<open>done\<close>, and all of it.\<close>

definition brk_words :: "string \<Rightarrow> bool \<Rightarrow> strs \<Rightarrow> (nat \<times> strs) option" where
  "brk_words str expand st =
     (let str = dropWhile (\<lambda>c. c = CHR '' '' \<or> c = tab) str;
          len = length str + 1;
          st = (if len > curlen st then st\<lparr>words := replicate len None, curlen := len\<rparr> else st)
      in brk_loop expand str NUL (Some 0) 0 1 st)"

definition brk_string :: "string \<Rightarrow> bool \<Rightarrow> strs \<Rightarrow> (nat \<times> strs) option" where
  "brk_string str expand st = do {
     (argc, st) \<leftarrow> brk_words str expand st;
     a \<leftarrow> store_at (argv st) argc [NullArg];
     Some (argc, st\<lparr>argv := a\<rparr>) }"

section \<open>Searching and matching\<close>

text \<open>The inner loop compares the substring with the string from the current position.\<close>

fun same_prefix :: "string \<Rightarrow> string \<Rightarrow> bool" where
  "same_prefix a [] = True"
| "same_prefix [] (b # bs) = False"
| "same_prefix (a # as) (b # bs) = (a = b \<and> same_prefix as bs)"

text \<open>The position of the match.\<close>

fun Str_FindSubstring :: "string \<Rightarrow> string \<Rightarrow> nat option" where
  "Str_FindSubstring [] substring = None"
| "Str_FindSubstring (c # string) substring =
     (if (case substring of [] \<Rightarrow> False | b # _ \<Rightarrow> c = b) \<and> same_prefix (c # string) substring then Some 0
      else map_option Suc (Str_FindSubstring string substring))"

text \<open>A \<open>char\<close> as the signed number the comparisons of a range use.\<close>

definition char_val :: "char \<Rightarrow> int" where
  "char_val c = (let n = int (of_char c) in if n < 128 then n else n - 256)"

text \<open>
  The loop over a bracketed list: \<open>None\<close> where it returns 0, otherwise the pattern from the
  bracket (or the terminator) on that ends the list.
\<close>

definition skip_class :: "string \<Rightarrow> string" where
  "skip_class p = dropWhile (\<lambda>c. c \<noteq> CHR '']'') p"

definition in_range :: "char \<Rightarrow> char \<Rightarrow> char \<Rightarrow> bool" where
  "in_range c c2 x \<longleftrightarrow> char_val c \<le> char_val x \<and> char_val c2 \<ge> char_val x
     \<or> char_val c \<ge> char_val x \<and> char_val c2 \<le> char_val x"

fun class_loop :: "string \<Rightarrow> char \<Rightarrow> string option" where
  "class_loop [] x = None"
| "class_loop (c # p) x =
     (if c = CHR '']'' then None
      else if c = x then Some (skip_class p)
      else if p \<noteq> [] \<and> hd p = CHR ''-'' then
        if tl p = [] then None
        else if in_range c (hd (tl p)) x then Some (skip_class p)
        else class_loop (drop 2 p) x
      else class_loop p x)"

lemma skip_class_length: "length (skip_class p) \<le> length p"
  by (simp add: skip_class_def length_dropWhile_le)

lemma class_loop_length: "class_loop p x = Some q \<Longrightarrow> length q < length p"
proof (induction p x rule: class_loop.induct)
  case (2 c p x)
  from 2(3) consider "q = skip_class p"
    | "c \<noteq> CHR '']''" "c \<noteq> x" "p \<noteq> [] \<and> hd p = CHR ''-''" "tl p \<noteq> []" "\<not> in_range c (hd (tl p)) x"
      "class_loop (drop 2 p) x = Some q"
    | "c \<noteq> CHR '']''" "c \<noteq> x" "\<not> (p \<noteq> [] \<and> hd p = CHR ''-'')" "class_loop p x = Some q"
    unfolding class_loop.simps by (metis option.distinct(1) option.inject)
  then show ?case
  proof cases
    case 1
    then show ?thesis using skip_class_length [of p] by simp
  next
    case c: 2
    from 2(1) [OF c(1-6)] show ?thesis by simp
  next
    case c: 3
    from 2(2) [OF c(1-4)] show ?thesis by simp
  qed
qed simp

text \<open>
  The matcher, with the loop for a star. After a bracketed list that was never closed the pattern
  pointer moves past the terminator.
\<close>

function Str_Match :: "string \<Rightarrow> string \<Rightarrow> bool option" and star_loop :: "string \<Rightarrow> string \<Rightarrow> bool option" where
  "Str_Match string [] = Some (string = [])"
| "Str_Match [] (c # pattern) =
     (if c \<noteq> CHR ''*'' then Some False else if pattern = [] then Some True else star_loop [] pattern)"
| "Str_Match (x # string) (c # pattern) =
     (if c = CHR ''*'' then if pattern = [] then Some True else star_loop (x # string) pattern
      else if c = CHR ''?'' then Str_Match string pattern
      else if c = CHR ''['' then
        case class_loop pattern x of
          None \<Rightarrow> Some False
        | Some [] \<Rightarrow> None
        | Some (_ # pattern') \<Rightarrow> Str_Match string pattern'
      else if c = backslash then
        case pattern of
          [] \<Rightarrow> Some False
        | d # pattern' \<Rightarrow> if d \<noteq> x then Some False else Str_Match string pattern'
      else if c \<noteq> x then Some False else Str_Match string pattern)"
| "star_loop [] pattern = Some False"
| "star_loop (x # string) pattern = do {
     found \<leftarrow> Str_Match (x # string) pattern;
     if found then Some True else star_loop string pattern }"
  by pat_completeness auto
termination
  by (relation "measures [\<lambda>a. case a of Inl (s, p) \<Rightarrow> length p | Inr (s, p) \<Rightarrow> length p,
      \<lambda>a. case a of Inl (s, p) \<Rightarrow> length s | Inr (s, p) \<Rightarrow> length s,
      \<lambda>a. case a of Inl _ \<Rightarrow> 0 | Inr _ \<Rightarrow> 1]")
    (auto dest: class_loop_length)

section \<open>System V substitution\<close>

text \<open>The loop that matches the prefix: what is left of the word and of the prefix.\<close>

fun prefix_loop :: "string \<Rightarrow> string \<Rightarrow> string \<times> string" where
  "prefix_loop (w # ws) (p # ps) = (if w = p then prefix_loop ws ps else (w # ws, p # ps))"
| "prefix_loop ws ps = (ws, ps)"

text \<open>The search for a matching tail: how far the word pointer moves.\<close>

fun tail_loop :: "string \<Rightarrow> string \<Rightarrow> nat option" where
  "tail_loop [] p = (if p = [] then Some 0 else None)"
| "tail_loop (w # ws) p = (if p = w # ws then Some 0 else map_option Suc (tail_loop ws p))"

text \<open>The position of the match in the word and its length.\<close>

definition Str_SYSVMatch :: "string \<Rightarrow> string \<Rightarrow> (nat \<times> nat) option" where
  "Str_SYSVMatch word pattern =
     (if pattern = [] then Some (0, length word)
      else if CHR ''%'' \<in> set pattern then
        let m = takeWhile (\<lambda>c. c \<noteq> CHR ''%'') pattern;
            (w, p) = prefix_loop word m
        in if p \<noteq> [] then None
           else let p = tl (dropWhile (\<lambda>c. c \<noteq> CHR ''%'') pattern) in
             if p = [] then Some (length word - length w, length w)
             else map_option (\<lambda>n. (length word - length w, n)) (tail_loop w p)
      else map_option (\<lambda>n. (0, n)) (tail_loop word pattern))"

definition Str_SYSVSubst :: "Buffer \<Rightarrow> string \<Rightarrow> string \<Rightarrow> nat \<Rightarrow> Buffer option" where
  "Str_SYSVSubst buf pat src len = do {
     (buf, pat) \<leftarrow>
       (if CHR ''%'' \<in> set pat then do {
          buf \<leftarrow> Buf_AddBytes buf (takeWhile (\<lambda>c. c \<noteq> CHR ''%'') pat);
          Some (buf, tl (dropWhile (\<lambda>c. c \<noteq> CHR ''%'') pat)) }
        else Some (buf, pat));
     buf \<leftarrow> (if len \<le> length src + 1 then Buf_AddBytes buf (take len (src @ [NUL])) else None);
     Buf_AddBytes buf pat }"


section \<open>Lemmas on searching\<close>

lemma store_at_split:
  assumes "dst = pre @ mid @ post" and "i = length pre" and "length mid = length src"
  shows "store_at dst i src = Some (pre @ src @ post)"
  using assms by (simp add: store_at_def copy_at_def)

lemma same_prefix_iff: "same_prefix a b \<longleftrightarrow> (\<exists>r. a = b @ r)"
  by (induction a b rule: same_prefix.induct) auto

lemma find_step:
  "Str_FindSubstring (c # s) sub =
     (if sub \<noteq> [] \<and> same_prefix (c # s) sub then Some 0 else map_option Suc (Str_FindSubstring s sub))"
  by (cases sub) auto

declare Str_FindSubstring.simps(2) [simp del]

lemma find_Some:
  "Str_FindSubstring s sub = Some i \<Longrightarrow>
   sub \<noteq> [] \<and> (\<exists>r. drop i s = sub @ r) \<and> (\<forall>j < i. \<nexists>r. drop j s = sub @ r)"
proof (induction s arbitrary: i)
  case (Cons c s)
  show ?case
  proof (cases "sub \<noteq> [] \<and> same_prefix (c # s) sub")
    case True
    with Cons.prems show ?thesis by (simp add: find_step same_prefix_iff)
  next
    case False
    with Cons.prems obtain k where k: "Str_FindSubstring s sub = Some k" "i = Suc k"
      by (auto simp: find_step)
    from Cons.IH [OF k(1)] False show ?thesis
      by (auto simp: k(2) same_prefix_iff less_Suc_eq_0_disj)
  qed
qed simp

lemma find_None: "Str_FindSubstring s sub = None \<Longrightarrow> sub \<noteq> [] \<Longrightarrow> \<nexists>l r. s = l @ sub @ r"
proof (induction s)
  case (Cons c s)
  then have n: "\<not> same_prefix (c # s) sub" and "Str_FindSubstring s sub = None"
    by (auto simp: find_step split: if_splits)
  with Cons have ih: "\<nexists>l r. s = l @ sub @ r" by blast
  show ?case
  proof
    assume "\<exists>l r. c # s = l @ sub @ r"
    then obtain l r where "c # s = l @ sub @ r" by blast
    with n ih show False by (cases l) (auto simp: same_prefix_iff)
  qed
qed simp

lemma find_empty: "Str_FindSubstring s [] = None"
  by (induction s) (auto simp: find_step)

section \<open>Lemmas on System V substitution\<close>

lemma prefix_loop_iff: "prefix_loop w m = (r, []) \<longleftrightarrow> w = m @ r"
  by (induction w m rule: prefix_loop.induct) auto

lemma prefix_loop_fst: "prefix_loop w m = (r, q) \<Longrightarrow> q \<noteq> [] \<Longrightarrow> \<nexists>t. w = m @ t"
  by (induction w m rule: prefix_loop.induct) (auto split: if_splits)

lemma tail_loop_iff: "tail_loop w p = Some n \<longleftrightarrow> (\<exists>mid. w = mid @ p \<and> length mid = n)"
proof (induction w p arbitrary: n rule: tail_loop.induct)
  case (2 w ws p)
  show ?case
  proof (cases "p = w # ws")
    case True
    then show ?thesis by auto
  next
    case False
    then have "tail_loop (w # ws) p = Some n \<longleftrightarrow> (\<exists>k. n = Suc k \<and> tail_loop ws p = Some k)" by auto
    also have "\<dots> \<longleftrightarrow> (\<exists>k mid. n = Suc k \<and> ws = mid @ p \<and> length mid = k)" using 2 [OF False] by simp
    also have "\<dots> \<longleftrightarrow> (\<exists>mid. w # ws = mid @ p \<and> length mid = n)"
      using False by (auto simp: Cons_eq_append_conv)
    finally show ?thesis .
  qed
qed auto

lemma split_percent:
  assumes "CHR ''%'' \<in> set pat"
  obtains pre suf where "pat = pre @ CHR ''%'' # suf" "takeWhile (\<lambda>c. c \<noteq> CHR ''%'') pat = pre"
    "tl (dropWhile (\<lambda>c. c \<noteq> CHR ''%'') pat) = suf"
proof -
  from split_list_first [OF assms] obtain pre suf where
    p: "pat = pre @ CHR ''%'' # suf" "CHR ''%'' \<notin> set pre" by blast
  then have "\<forall>c \<in> set pre. c \<noteq> CHR ''%''" by auto
  with p that [of pre suf] show ?thesis by (simp add: takeWhile_append2 dropWhile_append2)
qed

lemma sysv_match_iff:
  assumes "CHR ''%'' \<notin> set pre"
  shows "Str_SYSVMatch word (pre @ CHR ''%'' # suf) = Some (m, n)
    \<longleftrightarrow> (\<exists>mid. word = pre @ mid @ suf \<and> m = length pre \<and> n = length mid)"
proof -
  have tk: "takeWhile (\<lambda>c. c \<noteq> CHR ''%'') (pre @ CHR ''%'' # suf) = pre"
    "tl (dropWhile (\<lambda>c. c \<noteq> CHR ''%'') (pre @ CHR ''%'' # suf)) = suf"
    using assms by (auto simp: takeWhile_append dropWhile_append)
  obtain w p where wp: "prefix_loop word pre = (w, p)" by fastforce
  show ?thesis
  proof (cases "p = []")
    case False
    with prefix_loop_fst [OF wp False] show ?thesis
      by (auto simp: Str_SYSVMatch_def Let_def tk wp)
  next
    case True
    with wp have w: "word = pre @ w" by (simp add: prefix_loop_iff)
    show ?thesis
    proof (cases "suf = []")
      case True
      then show ?thesis using w wp \<open>p = []\<close> tk by (auto simp: Str_SYSVMatch_def Let_def)
    next
      case False
      then have "Str_SYSVMatch word (pre @ CHR ''%'' # suf) = Some (m, n)
          \<longleftrightarrow> m = length pre \<and> tail_loop w suf = Some n"
        using w wp \<open>p = []\<close> tk by (auto simp: Str_SYSVMatch_def Let_def)
      then show ?thesis unfolding tail_loop_iff using w by auto
    qed
  qed
qed

lemma sysv_subst_rep:
  assumes "buf_rep bp s" and "len \<le> length src"
  shows "\<exists>bp'. Str_SYSVSubst bp (pre @ CHR ''%'' # suf) src len = Some bp'
    \<and> buf_rep bp' (s @ takeWhile (\<lambda>c. c \<noteq> CHR ''%'') (pre @ CHR ''%'' # suf) @ take len src
        @ tl (dropWhile (\<lambda>c. c \<noteq> CHR ''%'') (pre @ CHR ''%'' # suf)))"
proof -
  define hd_part where "hd_part = takeWhile (\<lambda>c. c \<noteq> CHR ''%'') (pre @ CHR ''%'' # suf)"
  define tl_part where "tl_part = tl (dropWhile (\<lambda>c. c \<noteq> CHR ''%'') (pre @ CHR ''%'' # suf))"
  obtain b1 where 1: "Buf_AddBytes bp hd_part = Some b1" "buf_rep b1 (s @ hd_part)"
    using Buf_AddBytes_rep [OF assms(1)] by blast
  obtain b2 where 2: "Buf_AddBytes b1 (take len src) = Some b2" "buf_rep b2 ((s @ hd_part) @ take len src)"
    using Buf_AddBytes_rep [OF 1(2)] by blast
  obtain b3 where 3: "Buf_AddBytes b2 tl_part = Some b3" "buf_rep b3 (((s @ hd_part) @ take len src) @ tl_part)"
    using Buf_AddBytes_rep [OF 2(2)] by blast
  have "Str_SYSVSubst bp (pre @ CHR ''%'' # suf) src len = Some b3"
    using 1(1) 2(1) 3(1) assms(2) by (simp add: Str_SYSVSubst_def hd_part_def tl_part_def)
  with 3(2) show ?thesis by (simp add: hd_part_def tl_part_def)
qed

section \<open>Properties of concatenation, search and substitution\<close>

text \<open>
  \<open>str_concat\<close> stays inside the block it allocates and returns the two strings with the
  separator the flags ask for (a space before a slash) and a terminator.
\<close>

theorem str_concat_correct:
  defines "sep flags \<equiv> if flags AND STR_ADDSPACE \<noteq> 0 then '' '' else if flags AND STR_ADDSLASH \<noteq> 0 then ''/'' else ''''"
  shows "\<exists>rest. str_concat s1 s2 flags
    = Some (map Some (s1 @ sep flags @ s2) @ Some NUL # rest, flags AND STR_DOFREE \<noteq> 0)"
proof -
  let ?n = "replicate (length s1 + length s2 + 2) (None :: char option)"
  have blk: "?n = replicate (length s1) None @ replicate (length s2 + 2) None"
    by (simp only: replicate_add [symmetric] add.assoc)
  have 1: "store_at ?n 0 (map Some s1) = Some (map Some s1 @ replicate (length s2 + 2) None)"
    using store_at_split [of ?n "[]" "replicate (length s1) None" "replicate (length s2 + 2) None" 0 "map Some s1"]
      blk by simp
  have 2: "store_at (map Some s1 @ replicate (length s2 + 2) None) (length s1) [Some c]
      = Some (map Some s1 @ Some c # replicate (length s2 + 1) None)" for c
    using store_at_split [of _ "map Some s1" "[None]" "replicate (length s2 + 1) None" "length s1" "[Some c]"] by simp
  have 3: "store_at (map Some s1 @ Some c # replicate (length s2 + 1) None) (length s1 + 1) (map Some s2 @ [Some NUL])
      = Some (map Some s1 @ Some c # map Some s2 @ [Some NUL])" for c
    using store_at_split [of _ "map Some s1 @ [Some c]" "replicate (length s2 + 1) None" "[]" "length s1 + 1"
        "map Some s2 @ [Some NUL]"] by simp
  have 4: "store_at (map Some s1 @ replicate (length s2 + 2) None) (length s1) (map Some s2 @ [Some NUL])
      = Some (map Some s1 @ map Some s2 @ [Some NUL, None])"
    using store_at_split [of _ "map Some s1" "replicate (length s2 + 1) None" "[None]" "length s1"
        "map Some s2 @ [Some NUL]"] by (simp add: replicate_append_same)
  show ?thesis
    using 1 2 3 4 by (simp add: str_concat_def sep_def Let_def)
qed

text \<open>
  \<open>Str_FindSubstring\<close> returns the first position at which the substring occurs, and null
  exactly when it does not occur or is empty.
\<close>

theorem find_substring_first:
  "Str_FindSubstring string sub = Some i
     \<longleftrightarrow> sub \<noteq> [] \<and> (\<exists>r. drop i string = sub @ r) \<and> \<not> (\<exists>j r. j < i \<and> drop j string = sub @ r)"
proof
  assume "Str_FindSubstring string sub = Some i"
  from find_Some [OF this] show "sub \<noteq> [] \<and> (\<exists>r. drop i string = sub @ r) \<and> \<not> (\<exists>j r. j < i \<and> drop j string = sub @ r)"
    by blast
next
  assume *: "sub \<noteq> [] \<and> (\<exists>r. drop i string = sub @ r) \<and> \<not> (\<exists>j r. j < i \<and> drop j string = sub @ r)"
  then obtain r where r: "drop i string = sub @ r" by blast
  show "Str_FindSubstring string sub = Some i"
  proof (cases "Str_FindSubstring string sub")
    case None
    with find_None * r show ?thesis by (metis append_take_drop_id)
  next
    case (Some k)
    from find_Some [OF Some] * r show ?thesis using Some by (metis nat_neq_iff)
  qed
qed

text \<open>
  \<open>Str_SYSVMatch\<close> accepts a word for a pattern with a percent sign exactly when the word is
  the part before the sign, some middle, and the part after it, and returns where the middle is;
  \<open>Str_SYSVSubst\<close> of a second pattern then appends to the buffer that pattern with the middle in
  place of its sign.
\<close>

theorem sysv_match_subst:
  assumes "CHR ''%'' \<notin> set pre" and "CHR ''%'' \<notin> set pre'" and "buf_rep bp s"
  shows "(Str_SYSVMatch word (pre @ CHR ''%'' # suf) = Some (m, n)
      \<longleftrightarrow> (\<exists>mid. word = pre @ mid @ suf \<and> m = length pre \<and> n = length mid))
    \<and> (\<exists>bp'. Str_SYSVSubst bp (pre' @ CHR ''%'' # suf') (drop (length pre) (pre @ mid @ suf)) (length mid) = Some bp'
        \<and> buf_rep bp' (s @ pre' @ mid @ suf'))"
proof
  show "Str_SYSVMatch word (pre @ CHR ''%'' # suf) = Some (m, n)
      \<longleftrightarrow> (\<exists>mid. word = pre @ mid @ suf \<and> m = length pre \<and> n = length mid)"
    by (rule sysv_match_iff [OF assms(1)])
  have "takeWhile (\<lambda>c. c \<noteq> CHR ''%'') (pre' @ CHR ''%'' # suf') = pre'"
    "tl (dropWhile (\<lambda>c. c \<noteq> CHR ''%'') (pre' @ CHR ''%'' # suf')) = suf'"
    using assms(2) by (auto simp: takeWhile_append dropWhile_append)
  with sysv_subst_rep [OF assms(3), of "length mid" "mid @ suf" pre' suf']
  show "\<exists>bp'. Str_SYSVSubst bp (pre' @ CHR ''%'' # suf') (drop (length pre) (pre @ mid @ suf)) (length mid) = Some bp'
        \<and> buf_rep bp' (s @ pre' @ mid @ suf')"
    by auto
qed

theorem sysv_match_subst_witness:
  "(Str_SYSVMatch ''libx.c'' ''lib%.c'' = Some (3, 1)
      \<longleftrightarrow> (\<exists>mid. ''libx.c'' = ''lib'' @ mid @ ''.c'' \<and> 3 = length ''lib'' \<and> 1 = length mid))
    \<and> (\<exists>bp'. Str_SYSVSubst \<lparr>b_size = 1, left = 1, buffer = [Some NUL], inPtr = 0, outPtr = 0\<rparr>
          ''obj/%.o'' (drop 3 ''libx.c'') 1 = Some bp' \<and> buf_rep bp' ''obj/x.o'')"
proof -
  have 1: "CHR ''%'' \<notin> set ''lib''" "CHR ''%'' \<notin> set ''obj/''" by simp_all
  have 2: "buf_rep \<lparr>b_size = 1, left = 1, buffer = [Some NUL], inPtr = 0, outPtr = 0\<rparr> []" by (simp add: buf_rep_def)
  show ?thesis
    using sysv_match_subst [OF 1 2, of "''libx.c''" "''.c''" 3 1 "''.o''" "''x''"] by (simp add: eval_nat_numeral)
qed

section \<open>Wild-card patterns\<close>

text \<open>
  What a pattern means, apart from the matcher: its elements, and the strings they describe. A
  class is a list of ranges; a single character stands for a range with equal ends.
\<close>

datatype pat = PChar char | PAny | PStar | PClass "(char \<times> char) list"

fun parse_class :: "string \<Rightarrow> ((char \<times> char) list \<times> string) option" where
  "parse_class [] = None"
| "parse_class (c # p) =
     (if c = CHR '']'' then Some ([], p)
      else if p \<noteq> [] \<and> hd p = CHR ''-'' then
        if tl p = [] \<or> hd (tl p) = CHR '']'' then None
        else map_option (\<lambda>(rs, q). ((c, hd (tl p)) # rs, q)) (parse_class (drop 2 p))
      else map_option (\<lambda>(rs, q). ((c, c) # rs, q)) (parse_class p))"

lemma parse_class_cases:
  assumes "parse_class (c # p) = Some (rs, q)"
  obtains (close) "c = CHR '']''" "rs = []" "q = p"
  | (range) c2 p3 rs' where "c \<noteq> CHR '']''" "p = CHR ''-'' # c2 # p3" "c2 \<noteq> CHR '']''"
      "parse_class p3 = Some (rs', q)" "rs = (c, c2) # rs'"
  | (single) rs' where "c \<noteq> CHR '']''" "\<not> (p \<noteq> [] \<and> hd p = CHR ''-'')"
      "parse_class p = Some (rs', q)" "rs = (c, c) # rs'"
proof (cases "c = CHR '']''")
  case True
  with assms that(1) show ?thesis by simp
next
  case c: False
  show ?thesis
  proof (cases "p \<noteq> [] \<and> hd p = CHR ''-''")
    case True
    then obtain p1 where "p = CHR ''-'' # p1" by (cases p) auto
    with c assms that(2) show ?thesis by (cases p1) (auto split: if_splits)
  next
    case False
    then have "map_option (\<lambda>(rs, q). ((c, c) # rs, q)) (parse_class p) = Some (rs, q)"
      using c assms by (simp only: parse_class.simps if_False)
    with c False that(3) show ?thesis by auto
  qed
qed

lemma parse_class_length: "parse_class p = Some (rs, q) \<Longrightarrow> length q < length p"
proof (induction p arbitrary: rs rule: length_induct)
  case (1 p)
  then obtain c p' where p: "p = c # p'" by (cases p) auto
  from 1(2) [unfolded p] show ?case
  proof (cases rule: parse_class_cases)
    case (range c2 p3 rs')
    with 1(1) p have "length q < length p3" by simp
    with range p show ?thesis by simp
  next
    case (single rs')
    with 1(1) p have "length q < length p'" by simp
    with p show ?thesis by simp
  qed (simp add: p)
qed

function parse_pat :: "string \<Rightarrow> pat list option" where
  "parse_pat [] = Some []"
| "parse_pat (c # p) =
     (if c = CHR ''*'' then map_option ((#) PStar) (parse_pat p)
      else if c = CHR ''?'' then map_option ((#) PAny) (parse_pat p)
      else if c = CHR ''['' then
        case parse_class p of
          None \<Rightarrow> None
        | Some (rs, q) \<Rightarrow> map_option ((#) (PClass rs)) (parse_pat q)
      else if c = backslash then
        if p = [] then None else map_option ((#) (PChar (hd p))) (parse_pat (tl p))
      else map_option ((#) (PChar c)) (parse_pat p))"
  by pat_completeness auto
termination
  by (relation "measure length") (auto dest: parse_class_length simp: less_Suc_eq)

fun fits :: "pat \<Rightarrow> char \<Rightarrow> bool" where
  "fits (PChar c) x = (x = c)"
| "fits PAny x = True"
| "fits PStar x = False"
| "fits (PClass rs) x = list_ex (\<lambda>(a, b). x = a \<or> in_range a b x) rs"

inductive pmatch :: "pat list \<Rightarrow> string \<Rightarrow> bool" where
  pm_nil: "pmatch [] []"
| pm_star: "pmatch ps s \<Longrightarrow> pmatch (PStar # ps) (u @ s)"
| pm_one: "fits p x \<Longrightarrow> pmatch ps s \<Longrightarrow> pmatch (p # ps) (x # s)"

inductive_simps pmatch_nil [simp]: "pmatch [] s"
inductive_cases pmatch_consE: "pmatch (p # ps) s"

fun no_double_star :: "pat list \<Rightarrow> bool" where
  "no_double_star (p # q # ps) \<longleftrightarrow> \<not> (p = PStar \<and> q = PStar) \<and> no_double_star (q # ps)"
| "no_double_star _ \<longleftrightarrow> True"

lemma no_double_star_tl: "no_double_star (p # ps) \<Longrightarrow> no_double_star ps"
  by (cases ps) auto

lemma pmatch_star_iff: "pmatch (PStar # ps) s \<longleftrightarrow> (\<exists>u v. s = u @ v \<and> pmatch ps v)"
proof
  assume "pmatch (PStar # ps) s"
  then show "\<exists>u v. s = u @ v \<and> pmatch ps v" by (cases rule: pmatch.cases) auto
qed (auto intro: pm_star)

lemma pmatch_one_iff: "p \<noteq> PStar \<Longrightarrow> pmatch (p # ps) (x # s) \<longleftrightarrow> fits p x \<and> pmatch ps s"
  by (auto elim: pmatch_consE intro: pm_one)

lemma pmatch_one_nil: "p \<noteq> PStar \<Longrightarrow> \<not> pmatch (p # ps) []"
  by (auto elim: pmatch_consE)

section \<open>The matcher and the meaning of patterns\<close>

lemma char_val_inj: "char_val a = char_val b \<Longrightarrow> a = b"
proof -
  assume eq: "char_val a = char_val b"
  define m n :: nat where "m = of_char a" and "n = of_char b"
  have "m < 256" "n < 256" by (simp_all add: m_def n_def)
  with eq have "m = n" by (auto simp: char_val_def Let_def simp flip: m_def n_def split: if_splits)
  then have "(of_char a :: nat) = of_char b" by (simp add: m_def n_def)
  then show "a = b" by simp
qed

lemma in_range_same: "in_range c c x \<longleftrightarrow> x = c"
  using char_val_inj by (auto simp: in_range_def)

lemma parse_class_skip: "parse_class p = Some (rs, q) \<Longrightarrow> skip_class p = CHR '']'' # q"
proof (induction p arbitrary: rs rule: length_induct)
  case (1 p)
  then obtain c p' where p: "p = c # p'" by (cases p) auto
  from 1(2) [unfolded p] show ?case
  proof (cases rule: parse_class_cases)
    case close
    then show ?thesis by (simp add: p skip_class_def)
  next
    case (range c2 p3 rs')
    with 1(1) p have "skip_class p3 = CHR '']'' # q" by simp
    with range show ?thesis by (simp add: p skip_class_def)
  next
    case (single rs')
    with 1(1) p have "skip_class p' = CHR '']'' # q" by simp
    with single show ?thesis by (simp add: p skip_class_def)
  qed
qed

lemma class_loop_correct:
  "parse_class p = Some (rs, q) \<Longrightarrow> class_loop p x = (if fits (PClass rs) x then Some (CHR '']'' # q) else None)"
proof (induction p arbitrary: rs rule: length_induct)
  case (1 p)
  then obtain c p' where p: "p = c # p'" by (cases p) auto
  from 1(2) [unfolded p] show ?case
  proof (cases rule: parse_class_cases)
    case close
    then show ?thesis by (simp add: p)
  next
    case (range c2 p3 rs')
    have ih: "class_loop p3 x = (if fits (PClass rs') x then Some (CHR '']'' # q) else None)"
      using 1(1) p range by simp
    have "skip_class p' = CHR '']'' # q"
      using parse_class_skip [OF range(4)] range(2,3) by (simp add: skip_class_def)
    with ih range show ?thesis by (simp add: p)
  next
    case (single rs')
    have ih: "class_loop p' x = (if fits (PClass rs') x then Some (CHR '']'' # q) else None)"
      using 1(1) p single by simp
    have "class_loop (c # p') x = (if c = x then Some (skip_class p') else class_loop p' x)"
      using single(1,2) by (simp only: class_loop.simps if_False)
    with ih single parse_class_skip [OF single(3)] show ?thesis by (simp add: p in_range_same)
  qed
qed

lemma star_suffixes:
  "\<not> pmatch ps [] \<Longrightarrow> (\<exists>u v. x # s = u @ v \<and> pmatch ps v) \<longleftrightarrow> pmatch ps (x # s) \<or> (\<exists>u v. s = u @ v \<and> pmatch ps v)"
  by (auto simp: Cons_eq_append_conv)

lemma parse_pat_nonempty: "parse_pat p = Some ps \<Longrightarrow> p \<noteq> [] \<Longrightarrow> ps \<noteq> []"
  by (cases p) (auto split: if_splits option.splits)

lemma star_tail:
  assumes "no_double_star (PStar # ps)" and "ps \<noteq> []"
  shows "\<not> pmatch ps []"
  using assms by (cases ps) (auto dest: pmatch_one_nil)

lemma match_correct:
  "parse_pat pat = Some ps \<Longrightarrow> no_double_star ps \<Longrightarrow> Str_Match s pat = Some (pmatch ps s)"
  "parse_pat pat = Some ps \<Longrightarrow> no_double_star (PStar # ps) \<Longrightarrow> ps \<noteq> [] \<Longrightarrow>
     star_loop s pat = Some (\<exists>u v. s = u @ v \<and> pmatch ps v)"
proof (induction s pat and s pat arbitrary: ps and ps rule: Str_Match_star_loop.induct)
  case (1 s)
  then show ?case by simp
next
  case (2 c p)
  show ?case
  proof (cases "c = CHR ''*''")
    case True
    with 2(2) obtain ps' where ps: "parse_pat p = Some ps'" "ps = PStar # ps'" by auto
    show ?thesis
    proof (cases "p = []")
      case True
      with ps \<open>c = _\<close> show ?thesis by (simp add: pmatch_star_iff)
    next
      case False
      have "star_loop [] p = Some (\<exists>u v. [] = u @ v \<and> pmatch ps' v)"
        using 2(1) [of ps'] 2(3) True False ps parse_pat_nonempty [OF ps(1) False] by simp
      with True False ps show ?thesis by (simp add: pmatch_star_iff)
    qed
  next
    case False
    then obtain e ps' where "ps = e # ps'" "e \<noteq> PStar" using 2(2) by (auto split: if_splits option.splits)
    with False pmatch_one_nil show ?thesis by simp
  qed
next
  case (3 x s c p)
  consider "c = CHR ''*''" | "c = CHR ''?''" | "c = CHR ''[''" | "c = backslash"
    | "c \<noteq> CHR ''*''" "c \<noteq> CHR ''?''" "c \<noteq> CHR ''[''" "c \<noteq> backslash" by blast
  then show ?case
  proof cases
    case 1
    with 3(6) obtain ps' where ps: "parse_pat p = Some ps'" "ps = PStar # ps'" by auto
    show ?thesis
    proof (cases "p = []")
      case True
      with ps 1 show ?thesis by (simp add: pmatch_star_iff)
    next
      case False
      have "star_loop (x # s) p = Some (\<exists>u v. x # s = u @ v \<and> pmatch ps' v)"
        using 3(1) [of ps'] 3(7) 1 False ps parse_pat_nonempty [OF ps(1) False] by simp
      with 1 False ps show ?thesis by (simp add: pmatch_star_iff)
    qed
  next
    case 2
    with 3(6) obtain ps' where ps: "parse_pat p = Some ps'" "ps = PAny # ps'" by auto
    with 3(2) [of ps'] 3(7) 2 no_double_star_tl show ?thesis by (auto simp: pmatch_one_iff)
  next
    case c: 3
    with 3(6) obtain rs q ps' where ps: "parse_class p = Some (rs, q)" "parse_pat q = Some ps'" "ps = PClass rs # ps'"
      by (auto split: option.splits)
    note cl = class_loop_correct [OF ps(1), of x]
    show ?thesis
    proof (cases "fits (PClass rs) x")
      case True
      then have "Str_Match s q = Some (pmatch ps' s)"
        using 3(3) [of _ "CHR '']''" q ps'] 3(7) c cl ps no_double_star_tl by simp
      with c cl ps True show ?thesis by (simp add: pmatch_one_iff)
    next
      case False
      with c cl ps show ?thesis by (simp add: pmatch_one_iff)
    qed
  next
    case 4
    have b: "backslash \<noteq> CHR ''*''" "backslash \<noteq> CHR ''?''" "backslash \<noteq> CHR ''[''" by (simp_all add: backslash_def)
    with 3(6) 4 obtain d p' ps' where ps: "p = d # p'" "parse_pat p' = Some ps'" "ps = PChar d # ps'"
      by (cases p) auto
    have "Str_Match s p' = Some (pmatch ps' s)" if "d = x"
      using 3(4) [of d p' ps'] that 3(7) b 4 ps no_double_star_tl by simp
    with b 4 ps show ?thesis by (auto simp: pmatch_one_iff)
  next
    case 5
    with 3(6) obtain ps' where ps: "parse_pat p = Some ps'" "ps = PChar c # ps'" by auto
    have "Str_Match s p = Some (pmatch ps' s)" if "c = x"
      using 3(5) [of ps'] that 3(7) 5 ps no_double_star_tl by simp
    with 5 ps show ?thesis by (auto simp: pmatch_one_iff)
  qed
next
  case (4 p)
  with star_tail show ?case by simp
next
  case (5 x s p)
  have m: "Str_Match (x # s) p = Some (pmatch ps (x # s))"
    using 5(1) [of ps] 5(3,4) no_double_star_tl by blast
  show ?case
  proof (cases "pmatch ps (x # s)")
    case True
    with m show ?thesis by (auto simp: star_suffixes [OF star_tail [OF 5(4,5)]])
  next
    case False
    have "star_loop s p = Some (\<exists>u v. s = u @ v \<and> pmatch ps v)"
      using 5(2) [of False ps] m False 5(3-5) by simp
    with m False show ?thesis by (simp add: star_suffixes [OF star_tail [OF 5(4,5)]])
  qed
qed

text \<open>
  C13: for every pattern that is well formed and has no two adjacent stars, \<open>Str_Match\<close> ends, reads
  nothing outside the two strings and returns whether the string is one the pattern describes: a
  star stands for any substring, a question mark for any character, a bracketed list for a
  character in one of its ranges, and every other character, quoted by a backslash or not, for
  itself.
\<close>

theorem str_match_correct:
  assumes "parse_pat pattern = Some ps" and "no_double_star ps"
  shows "Str_Match string pattern = Some (pmatch ps string)"
  using assms by (rule match_correct(1))

theorem str_match_correct_witness:
  "Str_Match ''main.c'' ''*.[a-ch]'' = Some (pmatch [PStar, PChar CHR ''.'', PClass [(CHR ''a'', CHR ''c''), (CHR ''h'', CHR ''h'')]] ''main.c'')"
proof -
  have 1: "parse_pat ''*.[a-ch]'' = Some [PStar, PChar CHR ''.'', PClass [(CHR ''a'', CHR ''c''), (CHR ''h'', CHR ''h'')]]"
    by (simp add: backslash_def)
  show ?thesis by (rule str_match_correct [OF 1]) simp
qed

text \<open>
  the two cases outside that theorem. Two adjacent stars do not match the empty string, which
  they describe; and once a character has matched in a bracketed list that is never closed, the
  matcher reads behind the terminator of the pattern.
\<close>

theorem str_match_edges:
  "parse_pat ''**'' = Some [PStar, PStar] \<and> pmatch [PStar, PStar] [] \<and> Str_Match [] ''**'' = Some False
   \<and> Str_Match ''x'' ''[x'' = None"
proof -
  have "pmatch [PStar, PStar] []" using pm_star [OF pm_star [OF pm_nil, of "[]"], of "[]"] by simp
  then show ?thesis by (simp add: skip_class_def)
qed

section \<open>Words stay inside their memory\<close>

text \<open>The two arrays have the sizes the counters say, and the first word is the value of \<open>.MAKE\<close>.\<close>

definition strs_ok :: "strs \<Rightarrow> bool" where
  "strs_ok st \<longleftrightarrow> length (argv st) = argmax st \<and> length (words st) = curlen st \<and> 1 \<le> argmax st \<and> argv st ! 0 = MakeValue"

text \<open>
  Between iterations everything below \<open>t\<close> has been written, the word in progress starts there, and
  every recorded word is terminated below \<open>t\<close>.
\<close>

definition recorded :: "strs \<Rightarrow> nat \<Rightarrow> nat \<Rightarrow> bool" where
  "recorded st t k \<longleftrightarrow> (\<exists>a j. argv st ! k = At a \<and> a \<le> j \<and> j < t \<and> words st ! j = Some NUL)"

definition brk_inv :: "strs \<Rightarrow> nat option \<Rightarrow> nat \<Rightarrow> nat \<Rightarrow> bool" where
  "brk_inv st start t argc \<longleftrightarrow> strs_ok st \<and> 1 \<le> argc \<and> argc \<le> argmax st \<and> t \<le> length (words st)
     \<and> (\<forall>i < t. words st ! i \<noteq> None) \<and> (\<forall>a. start = Some a \<longrightarrow> a \<le> t)
     \<and> (\<forall>k. 1 \<le> k \<longrightarrow> k < argc \<longrightarrow> recorded st t k)"

lemma store_one: "i < length xs \<Longrightarrow> store_at xs i [v] = Some (xs[i := v])"
  by (simp add: store_at_def copy_at_def upd_conv_take_nth_drop)

lemma recorded_write: "recorded st t k \<Longrightarrow> recorded (st\<lparr>words := (words st)[t := v]\<rparr>) (t + 1) k"
  unfolding recorded_def by (auto intro: exI less_SucI) (metis less_SucI nat_neq_iff nth_list_update_neq)

lemma add_char_inv:
  assumes "brk_inv st None t argc" and "t < length (words st)" and "\<And>a. start = Some a \<Longrightarrow> a \<le> t + 1"
  shows "\<exists>a st'. add_char ch start t st = Some (Some a, t + 1, st') \<and> brk_inv st' (Some a) (t + 1) argc
    \<and> length (words st') = length (words st)"
proof -
  define a where "a = (case start of None \<Rightarrow> t | Some s \<Rightarrow> s)"
  let ?st = "st\<lparr>words := (words st)[t := Some ch]\<rparr>"
  have "a \<le> t + 1" using assms(3) by (auto simp: a_def split: option.splits)
  moreover have "\<forall>i < t + 1. (words st)[t := Some ch] ! i \<noteq> None"
    using assms(1,2) by (auto simp: brk_inv_def nth_list_update)
  moreover have "recorded ?st (t + 1) k" if "1 \<le> k" "k < argc" for k
    using assms(1) that recorded_write [of st t k "Some ch"] by (simp add: brk_inv_def)
  ultimately have "brk_inv ?st (Some a) (t + 1) argc"
    using assms(1,2) by (simp add: brk_inv_def strs_ok_def)
  moreover have "add_char ch start t st = Some (Some a, t + 1, ?st)"
    using store_one [OF assms(2)] by (simp add: add_char_def a_def)
  ultimately show ?thesis by simp
qed

lemma end_token_inv:
  assumes "brk_inv st (Some a) t argc" and "t < length (words st)"
  shows "\<exists>st'. end_token a t argc st = Some (t + 1, argc + 1, st') \<and> brk_inv st' None (t + 1) (argc + 1)
    \<and> length (words st') = length (words st)"
proof -
  let ?w = "(words st)[t := Some NUL]"
  define av where "av = (if argc = argmax st then argv st @ replicate (argmax st) Unset else argv st)"
  define am where "am = (if argc = argmax st then argmax st * 2 else argmax st)"
  have ok: "strs_ok st" "1 \<le> argc" "argc \<le> argmax st" "a \<le> t" using assms(1) by (simp_all add: brk_inv_def)
  then have av: "argc < length av" "length av = am" by (auto simp: av_def am_def strs_ok_def)
  have old: "k < argc \<Longrightarrow> av ! k = argv st ! k" for k
    using ok by (auto simp: av_def nth_append strs_ok_def)
  let ?st = "st\<lparr>words := ?w, argv := av[argc := At a], argmax := am\<rparr>"
  have "end_token a t argc st = Some (t + 1, argc + 1, ?st)"
    using store_one [OF assms(2)] store_one [OF av(1)]
    by (auto simp: end_token_def Let_def av_def am_def)
  moreover have "recorded ?st (t + 1) k" if "1 \<le> k" "k < argc + 1" for k
  proof (cases "k = argc")
    case True
    with av(1) ok(4) assms(2) show ?thesis by (auto simp: recorded_def intro: exI [of _ t])
  next
    case False
    with that have "recorded st t k" "k < argc" using assms(1) by (auto simp: brk_inv_def)
    with recorded_write [of st t k "Some NUL"] old [of k] show ?thesis by (simp add: recorded_def)
  qed
  moreover have "\<forall>i < t + 1. ?w ! i \<noteq> None"
    using assms by (auto simp: brk_inv_def nth_list_update)
  moreover have "strs_ok ?st"
    using ok av old [of 0] by (auto simp: strs_ok_def)
  ultimately show ?thesis using av ok assms(2) by (auto simp: brk_inv_def)
qed

lemma brk_inv_None: "brk_inv st start t argc \<Longrightarrow> brk_inv st None t argc"
  by (simp add: brk_inv_def)

text \<open>Every way on from one iteration leaves room for the rest of the string and its terminator.\<close>

definition safe_end :: "(nat \<times> strs) option \<Rightarrow> bool" where
  "safe_end r \<longleftrightarrow> (\<exists>argc st t. r = Some (argc, st) \<and> brk_inv st None t argc)"

lemma safe_end_if: "safe_end x \<Longrightarrow> safe_end y \<Longrightarrow> safe_end (if b then x else y)"
  by simp

lemma safe_end_add:
  assumes "brk_inv st None t argc" and "t < length (words st)" and "\<And>a. start = Some a \<Longrightarrow> a \<le> t + 1"
    and "\<And>a st'. brk_inv st' (Some a) (t + 1) argc \<Longrightarrow> length (words st') = length (words st) \<Longrightarrow> safe_end (k (Some a) (t + 1) st')"
  shows "safe_end (do { (start, t, st) \<leftarrow> add_char ch start t st; k start t st })"
  using add_char_inv [where start = start and ch = ch, OF assms(1-3)] assms(4) by auto

lemma safe_end_token:
  assumes "brk_inv st (Some a) t argc" and "t < length (words st)"
    and "\<And>st'. brk_inv st' None (t + 1) (argc + 1) \<Longrightarrow> length (words st') = length (words st) \<Longrightarrow> safe_end (k (t + 1) (argc + 1) st')"
  shows "safe_end (do { (t, argc, st) \<leftarrow> end_token a t argc st; k t argc st })"
  using end_token_inv [OF assms(1,2)] assms(3) by auto

lemma brk_loop_inv:
  assumes "brk_inv st start t argc" and "t + length p < length (words st)" and "expand \<or> backslash \<notin> set p"
  shows "safe_end (brk_loop expand p inquote start t argc st)"
  using assms
proof (induction "length p" arbitrary: p inquote start t argc st rule: less_induct)
  case less
  show ?case
  proof (cases p)
    case Nil
    show ?thesis
    proof (cases start)
      case None
      with less Nil show ?thesis by (auto simp: safe_end_def)
    next
      case (Some s)
      with less Nil have "safe_end (do { (t, argc, st) \<leftarrow> end_token s t argc st; Some (argc, st) })"
        by (intro safe_end_token) (auto simp: safe_end_def)
      with Nil Some show ?thesis by simp
    qed
  next
    case (Cons ch q)
    have room: "t < length (words st)" and inv0: "brk_inv st None t argc"
      using less(2,3) brk_inv_None by auto
    have st: "\<And>a. start = Some a \<Longrightarrow> a \<le> t + 1" using less(2) by (auto simp: brk_inv_def)
    have go: "safe_end (brk_loop expand r iq s' t' ac st')"
      if "brk_inv st' s' t' ac" "length (words st') = length (words st)" "t' \<le> t + 1" "length r \<le> length q" "set r \<subseteq> set q"
      for r iq s' t' ac st'
      using less(1) [of r st' s' t' ac iq] that less(3,4) Cons by auto
    have add: "safe_end (do { (start, t, st) \<leftarrow> add_char c s' t st; brk_loop expand r iq start t argc st })"
      if "\<And>a. s' = Some a \<Longrightarrow> a \<le> t + 1" "length r \<le> length q" "set r \<subseteq> set q" for c s' r iq
      by (rule safe_end_add [OF inv0 room that(1)]) (use go that in auto)
    have skip: "safe_end (brk_loop expand q iq start t argc st)" for iq
      using go [of st start t argc q] less(2) by simp
    consider (quote) "ch = dquote \<or> ch = squote"
      | (blank) "\<not> (ch = dquote \<or> ch = squote)" "(ch = CHR '' '' \<or> ch = tab \<or> ch = newline) \<and> inquote = NUL"
      | (bslash) "\<not> (ch = dquote \<or> ch = squote)" "\<not> ((ch = CHR '' '' \<or> ch = tab \<or> ch = newline) \<and> inquote = NUL)" "ch = backslash"
      | (plain) "\<not> (ch = dquote \<or> ch = squote)" "\<not> ((ch = CHR '' '' \<or> ch = tab \<or> ch = newline) \<and> inquote = NUL)" "ch \<noteq> backslash"
      by blast
    then show ?thesis
    proof cases
      case quote
      have q: "safe_end (do { (start, t, st) \<leftarrow> add_char ch (Some (t + 1)) t st; brk_loop expand q ch start t argc st })"
        by (rule add) simp_all
      have "safe_end (if inquote \<noteq> NUL \<and> inquote \<noteq> ch then do {
            (start, t, st) \<leftarrow> add_char ch start t st; brk_loop expand q inquote start t argc st }
          else if inquote = NUL \<and> start = None \<and> q \<noteq> [] \<and> hd q = ch then do {
            (start, t, st) \<leftarrow> add_char ch (Some (t + 1)) t st; brk_loop expand q ch start t argc st }
          else let inquote = (if inquote = NUL then ch else NUL) in
            if expand then brk_loop expand q inquote start t argc st
            else do { (start, t, st) \<leftarrow> add_char ch start t st; brk_loop expand q inquote start t argc st })"
        unfolding Let_def by (intro safe_end_if q skip add [OF st]) simp_all
      then show ?thesis unfolding Cons brk_loop.simps if_P [OF quote] .
    next
      case blank
      show ?thesis
      proof (cases start)
        case None
        with blank skip show ?thesis by (simp add: Cons)
      next
        case (Some s)
        have fin: "safe_end (Some (Suc argc, st'))" if "brk_inv st' None (Suc t) (Suc argc)" for st'
          using that by (auto simp: safe_end_def)
        have "safe_end (do { (t, argc, st) \<leftarrow> end_token s t argc st;
            if ch = newline then Some (argc, st) else brk_loop expand q inquote None t argc st })"
          by (rule safe_end_token [OF _ room]) (use less(2) Some in \<open>auto intro!: safe_end_if go fin\<close>)
        then show ?thesis
          unfolding Cons brk_loop.simps if_not_P [OF blank(1)] if_P [OF blank(2)] Some option.case .
      qed
    next
      case bslash
      then have ex: "expand" using less(4) by (simp add: Cons)
      then have nex: "\<not> \<not> expand" by simp
      have "safe_end (case q of
            [] \<Rightarrow> do {
              (start, t, st) \<leftarrow> add_char backslash start t st;
              brk_loop expand [] inquote start t argc st }
          | c # p' \<Rightarrow>
              if c = newline then do {
                (start, t, st) \<leftarrow> add_char backslash start t st;
                brk_loop expand (c # p') inquote start t argc st }
              else do {
                (start, t, st) \<leftarrow> add_char (unescape c) start t st;
                brk_loop expand p' inquote start t argc st })"
      proof (cases q)
        case Nil
        show ?thesis unfolding Nil list.case by (rule add [OF st]) simp_all
      next
        case q: (Cons c r)
        show ?thesis unfolding q list.case by (intro safe_end_if add [OF st]) (auto simp: q)
      qed
      then show ?thesis
        unfolding Cons by (subst brk_loop.simps(2), subst if_not_P [OF bslash(1)], subst if_not_P [OF bslash(2)],
            subst if_P [OF bslash(3)], subst if_not_P [OF nex])
    next
      case plain
      have "brk_loop expand p inquote start t argc st
          = do { (start, t, st) \<leftarrow> add_char ch start t st; brk_loop expand q inquote start t argc st }"
        using plain by (simp only: Cons brk_loop.simps if_False)
      with add [where s' = start and r = q, OF st] show ?thesis by simp
    qed
  qed
qed

lemma brk_words_inv:
  assumes "strs_ok st" and "expand \<or> backslash \<notin> set str"
  shows "\<exists>argc st' t. brk_words str expand st = Some (argc, st') \<and> brk_inv st' None t argc"
proof -
  define s where "s = dropWhile (\<lambda>c. c = CHR '' '' \<or> c = tab) str"
  define st1 where "st1 = (if length s + 1 > curlen st
    then st\<lparr>words := replicate (length s + 1) None, curlen := length s + 1\<rparr> else st)"
  have "brk_inv st1 (Some 0) 0 1" "0 + length s < length (words st1)"
    using assms(1) by (auto simp: st1_def brk_inv_def strs_ok_def)
  moreover have "expand \<or> backslash \<notin> set s"
    using assms(2) set_dropWhileD unfolding s_def by metis
  ultimately have "safe_end (brk_loop expand s NUL (Some 0) 0 1 st1)" by (rule brk_loop_inv)
  moreover have "brk_words str expand st = brk_loop expand s NUL (Some 0) 0 1 st1"
    by (simp only: brk_words_def Let_def s_def st1_def)
  ultimately show ?thesis by (auto simp: safe_end_def)
qed

section \<open>Quoted words\<close>

text \<open>A word in single quotes, and words so quoted with blanks between them.\<close>

definition quoted :: "string \<Rightarrow> string" where
  "quoted w = squote # w @ [squote]"

fun joined :: "string list \<Rightarrow> string" where
  "joined [] = []"
| "joined [w] = quoted w"
| "joined (w # ws) = quoted w @ CHR '' '' # joined ws"

definition plain_word :: "string \<Rightarrow> bool" where
  "plain_word w \<longleftrightarrow> NUL \<notin> set w \<and> squote \<notin> set w \<and> backslash \<notin> set w"

text \<open>The string an element of \<open>argv\<close> points to.\<close>

fun read_str :: "char option list \<Rightarrow> string option" where
  "read_str (Some c # r) = (if c = NUL then Some [] else map_option ((#) c) (read_str r))"
| "read_str _ = None"

fun word_of :: "strs \<Rightarrow> arg \<Rightarrow> string option" where
  "word_of st (At a) = read_str (drop a (words st))"
| "word_of st _ = None"

definition stored :: "char option list \<Rightarrow> nat \<Rightarrow> string \<Rightarrow> bool" where
  "stored mem a w \<longleftrightarrow> (\<exists>l r. mem = l @ map Some w @ Some NUL # r \<and> length l = a)"

lemma read_str_word: "NUL \<notin> set w \<Longrightarrow> read_str (map Some w @ Some NUL # r) = Some w"
  by (induction w) auto

lemma word_of_stored: "stored (words st) a w \<Longrightarrow> NUL \<notin> set w \<Longrightarrow> word_of st (At a) = Some w"
  by (auto simp: stored_def read_str_word)

lemma stored_append:
  assumes "stored mem a w"
  shows "stored (mem @ gap) a w"
proof -
  obtain l r where "mem = l @ map Some w @ Some NUL # r" "length l = a"
    using assms by (auto simp: stored_def)
  then show ?thesis by (auto simp: stored_def intro: exI [of _ l])
qed

lemma quote_chars: "squote \<noteq> NUL" "squote \<noteq> dquote" "squote \<noteq> CHR '' ''" "squote \<noteq> tab" "squote \<noteq> newline"
  "squote \<noteq> backslash" "CHR '' '' \<noteq> dquote" "CHR '' '' \<noteq> squote" "CHR '' '' \<noteq> newline" "CHR '' '' \<noteq> backslash"
  by (simp_all add: squote_def NUL_def dquote_def tab_def newline_def backslash_def)

lemma add_char_at:
  "words st = pre @ x # rest \<Longrightarrow> t = length pre \<Longrightarrow>
   add_char c start t st = Some (Some (case start of None \<Rightarrow> t | Some s \<Rightarrow> s), t + 1, st\<lparr>words := pre @ Some c # rest\<rparr>)"
  by (auto simp: add_char_def store_at_def copy_at_def split: option.splits)

text \<open>Inside quotes a plain word is copied as it is.\<close>

lemma copy_quoted:
  assumes "plain_word w" and "words st = pre @ rest" and "t = length pre" and "length w \<le> length rest"
  shows "brk_loop True (w @ squote # p) squote start t argc st =
     brk_loop True p NUL (if w = [] then start else Some (case start of None \<Rightarrow> t | Some s \<Rightarrow> s)) (t + length w) argc
       (st\<lparr>words := pre @ map Some w @ drop (length w) rest\<rparr>)"
  using assms
proof (induction w arbitrary: st pre rest t start)
  case Nil
  then have "st\<lparr>words := pre @ rest\<rparr> = st" by (simp flip: Nil(2))
  then show ?case by (simp add: quote_chars)
next
  case (Cons c w)
  then obtain x rest' where rest: "rest = x # rest'" by (cases rest) auto
  have c: "c \<noteq> squote" "c \<noteq> backslash" and w: "plain_word w" using Cons.prems(1) by (auto simp: plain_word_def)
  define a where "a = (case start of None \<Rightarrow> t | Some s \<Rightarrow> s)"
  define st1 where "st1 = st\<lparr>words := pre @ Some c # rest'\<rparr>"
  have "add_char c start t st = Some (Some a, t + 1, st1)"
    using add_char_at [of st pre x rest' t c start] Cons.prems(2,3) rest by (simp add: a_def st1_def)
  then have "brk_loop True ((c # w) @ squote # p) squote start t argc st
      = brk_loop True (w @ squote # p) squote (Some a) (t + 1) argc st1"
    using c by (cases "c = dquote") (simp_all add: quote_chars)
  also have "\<dots> = brk_loop True p NUL (Some a) (t + 1 + length w) argc
      (st1\<lparr>words := (pre @ [Some c]) @ map Some w @ drop (length w) rest'\<rparr>)"
    using Cons.IH [OF w, of st1 "pre @ [Some c]" rest' "t + 1" "Some a"] Cons.prems(3,4) rest by (simp add: st1_def)
  finally show ?case by (simp add: a_def st1_def rest)
qed

text \<open>A quoted word at the start of the line or after a blank.\<close>

lemma scan_quoted:
  assumes "plain_word w" and "words st = pre @ rest" and "t = length pre" and "length (quoted w) \<le> length rest"
    and "start = None \<or> start = Some t"
  shows "\<exists>gap st'. brk_loop True (quoted w @ p) NUL start t argc st
      = brk_loop True p NUL (Some (t + length gap)) (t + length gap + length w) argc st'
    \<and> words st' = pre @ gap @ map Some w @ drop (length gap + length w) rest \<and> length gap \<le> 1
    \<and> argv st' = argv st \<and> argmax st' = argmax st"
proof (cases "start = None \<and> w = []")
  case True
  obtain x rest' where rest: "rest = x # rest'" using assms(4) by (cases rest) (auto simp: quoted_def)
  define st1 where "st1 = st\<lparr>words := pre @ Some squote # rest'\<rparr>"
  have "add_char squote (Some (t + 1)) t st = Some (Some (t + 1), t + 1, st1)"
    using add_char_at [of st pre x rest' t squote "Some (t + 1)"] assms(2,3) rest by (simp add: st1_def)
  with True have "brk_loop True (quoted w @ p) NUL start t argc st = brk_loop True p NUL (Some (t + 1)) (t + 1) argc st1"
    by (simp add: quoted_def quote_chars)
  with True show ?thesis
    by (intro exI [of _ "[Some squote]"] exI [of _ st1]) (simp add: st1_def rest)
next
  case False
  define st1 where "st1 = st\<lparr>words := pre @ map Some w @ drop (length w) rest\<rparr>"
  have w: "hd (w @ squote # p) \<noteq> squote" if "w \<noteq> []"
    using assms(1) that by (cases w) (auto simp: plain_word_def)
  have "brk_loop True (quoted w @ p) NUL start t argc st = brk_loop True (w @ squote # p) squote start t argc st"
  proof (cases "start = None")
    case True
    with False w have "hd (w @ squote # p) \<noteq> squote" by blast
    with True show ?thesis by (simp add: quoted_def quote_chars)
  next
    case False
    then obtain s where "start = Some s" by blast
    then show ?thesis by (simp add: quoted_def quote_chars)
  qed
  also have "\<dots> = brk_loop True p NUL (Some t) (t + length w) argc st1"
    using copy_quoted [OF assms(1-3), of p start argc] assms(4,5) False by (auto simp: quoted_def st1_def)
  finally show ?thesis
    by (intro exI [of _ "[]"] exI [of _ st1]) (simp add: st1_def)
qed

lemma end_token_at:
  assumes "words st = pre @ x # rest" and "t = length pre" and "argc < length (argv st)" and "length (argv st) = argmax st"
  shows "end_token a t argc st = Some (t + 1, argc + 1, st\<lparr>words := pre @ Some NUL # rest, argv := (argv st)[argc := At a]\<rparr>)"
proof -
  have "store_at (words st) t [Some NUL] = Some (pre @ Some NUL # rest)"
    using assms(1,2) by (simp add: store_at_def copy_at_def)
  with assms(3,4) store_one [OF assms(3), of "At a"] show ?thesis by (simp add: end_token_def)
qed

lemma joined_Cons: "ws \<noteq> [] \<Longrightarrow> joined (w # ws) = quoted w @ CHR '' '' # joined ws"
  by (cases ws) auto

text \<open>Scanning the whole line records one terminated word after the other.\<close>

lemma scan_joined:
  assumes "ws \<noteq> []" and "list_all plain_word ws" and "words st = pre @ rest" and "length (joined ws) < length rest"
    and "start = None \<or> start = Some (length pre)" and "length (argv st) = argmax st"
    and "argc + length ws \<le> argmax st" and "take argc (argv st) = MakeValue # map At as" and "list_all2 (stored pre) as ds"
  shows "\<exists>st' as'. brk_loop True (joined ws) NUL start (length pre) argc st = Some (argc + length ws, st')
    \<and> length (argv st') = argmax st' \<and> argmax st' = argmax st
    \<and> take (argc + length ws) (argv st') = MakeValue # map At as' \<and> list_all2 (stored (words st')) as' (ds @ ws)"
  using assms
proof (induction ws arbitrary: st pre rest start argc as ds rule: list_nonempty_induct)
  case (single w)
  have w: "plain_word w" and len: "length (quoted w) \<le> length rest" using single.prems(1,3) by auto
  from scan_quoted [OF w single.prems(2) refl len single.prems(4), of "[]" argc] obtain gap st1 where
    s1: "brk_loop True (quoted w) NUL start (length pre) argc st
      = brk_loop True [] NUL (Some (length pre + length gap)) (length pre + length gap + length w) argc st1"
    and w1: "words st1 = pre @ gap @ map Some w @ drop (length gap + length w) rest" "length gap \<le> 1"
    and a1: "argv st1 = argv st" "argmax st1 = argmax st" by auto
  let ?a = "length pre + length gap"
  obtain x r where r: "drop (length gap + length w) rest = x # r"
    using single.prems(3) w1(2) by (cases "drop (length gap + length w) rest") (auto simp: quoted_def)
  let ?st = "st1\<lparr>words := (pre @ gap @ map Some w) @ Some NUL # r, argv := (argv st)[argc := At ?a]\<rparr>"
  have et: "end_token ?a (?a + length w) argc st1 = Some (?a + length w + 1, argc + 1, ?st)"
    using end_token_at [of st1 "pre @ gap @ map Some w" x r "?a + length w" argc ?a] w1(1) r a1 single.prems(5,6)
    by simp
  have "stored (words ?st) ?a w"
    unfolding stored_def by (intro exI [of _ "pre @ gap"] exI [of _ r]) simp
  moreover have "list_all2 (stored (words ?st)) as ds"
    using single.prems(8) stored_append by (auto elim!: list.rel_mono_strong)
  ultimately have "list_all2 (stored (words ?st)) (as @ [?a]) (ds @ [w])"
    by (intro list_all2_appendI) simp_all
  moreover have "take (argc + 1) ((argv st)[argc := At ?a]) = MakeValue # map At (as @ [?a])"
    using single.prems(5-7) by (simp add: take_Suc_conv_app_nth)
  moreover have "brk_loop True (joined [w]) NUL start (length pre) argc st = Some (argc + 1, ?st)"
    using s1 et by simp
  ultimately show ?case using single.prems(5) a1
    by (intro exI [of _ ?st] exI [of _ "as @ [?a]"]) simp
next
  case (cons w ws)
  have j: "joined (w # ws) = quoted w @ CHR '' '' # joined ws" using cons.hyps joined_Cons by blast
  have w: "plain_word w" and ws: "list_all plain_word ws" and len: "length (quoted w) \<le> length rest"
    using cons.prems(1,3) j by auto
  from scan_quoted [OF w cons.prems(2) refl len cons.prems(4), of "CHR '' '' # joined ws" argc] obtain gap st1 where
    s1: "brk_loop True (joined (w # ws)) NUL start (length pre) argc st
      = brk_loop True (CHR '' '' # joined ws) NUL (Some (length pre + length gap)) (length pre + length gap + length w) argc st1"
    and w1: "words st1 = pre @ gap @ map Some w @ drop (length gap + length w) rest" "length gap \<le> 1"
    and a1: "argv st1 = argv st" "argmax st1 = argmax st" unfolding j by auto
  let ?a = "length pre + length gap"
  have "length gap + length w + 1 + length (joined ws) < length rest"
    using cons.prems(3) w1(2) j by (simp add: quoted_def)
  then obtain x r where r: "drop (length gap + length w) rest = x # r" "length (joined ws) < length r"
    by (cases "drop (length gap + length w) rest") (auto dest: arg_cong [of _ _ length])
  let ?pre = "(pre @ gap @ map Some w) @ [Some NUL]"
  let ?st = "st1\<lparr>words := ?pre @ r, argv := (argv st)[argc := At ?a]\<rparr>"
  have et: "end_token ?a (?a + length w) argc st1 = Some (?a + length w + 1, argc + 1, ?st)"
    using end_token_at [of st1 "pre @ gap @ map Some w" x r "?a + length w" argc ?a] w1(1) r a1 cons.prems(5,6)
    by simp
  have "stored ?pre ?a w"
    unfolding stored_def by (intro exI [of _ "pre @ gap"] exI [of _ "[]"]) simp
  moreover have "list_all2 (stored ?pre) as ds"
    using cons.prems(8) stored_append by (auto elim!: list.rel_mono_strong)
  ultimately have st: "list_all2 (stored ?pre) (as @ [?a]) (ds @ [w])"
    by (intro list_all2_appendI) simp_all
  have tk: "take (argc + 1) ((argv st)[argc := At ?a]) = MakeValue # map At (as @ [?a])"
    using cons.prems(5-7) by (simp add: take_Suc_conv_app_nth)
  have "brk_loop True (CHR '' '' # joined ws) NUL (Some ?a) (?a + length w) argc st1
      = brk_loop True (joined ws) NUL None (length ?pre) (argc + 1) ?st"
    using et by (simp add: quote_chars add.assoc)
  with s1 cons.IH [of ?st ?pre r None "argc + 1" "as @ [?a]" "ds @ [w]"] ws r(2) cons.prems(5,6) tk st a1
  show ?case by simp
qed

section \<open>Properties of breaking a line\<close>

lemma str_init_ok: "strs_ok str_init"
  by (simp add: strs_ok_def str_init_def)



lemma joined_blank: "ws \<noteq> [] \<Longrightarrow> dropWhile (\<lambda>c. c = CHR '' '' \<or> c = tab) (joined ws) = joined ws"
  by (cases ws rule: joined.cases) (simp_all add: quoted_def quote_chars)

lemma stored_words:
  "list_all2 (stored (words st)) as ws \<Longrightarrow> list_all plain_word ws \<Longrightarrow> map (word_of st) (map At as) = map Some ws"
proof (induction as ws rule: list_all2_induct)
  case (Cons x xs y ys)
  then show ?case using word_of_stored [of st x y] by (simp add: plain_word_def)
qed simp

text \<open>
  words in single quotes come back as they were: the elements of \<open>argv\<close> after the first point
  to the words in their order, blanks and empty words included, and a null pointer follows them.
\<close>

theorem brk_string_quoted:
  assumes "ws \<noteq> []" and "list_all plain_word ws" and "length ws < 49"
  shows "\<exists>st'. brk_string (joined ws) True str_init = Some (length ws + 1, st')
    \<and> map (word_of st') (take (length ws) (drop 1 (argv st'))) = map Some ws \<and> argv st' ! (length ws + 1) = NullArg"
proof -
  have dw: "dropWhile (\<lambda>c. c = CHR '' '' \<or> c = tab) (joined ws) = joined ws"
    using joined_blank [OF assms(1)] .
  let ?len = "length (joined ws) + 1"
  define st1 where "st1 = str_init\<lparr>words := replicate ?len None, curlen := ?len\<rparr>"
  have "words st1 = [] @ replicate ?len None" "length (joined ws) < length (replicate ?len (None :: char option))"
    "length (argv st1) = argmax st1" "1 + length ws \<le> argmax st1" "take 1 (argv st1) = MakeValue # map At []"
    using assms(3) by (simp_all add: st1_def str_init_def)
  from scan_joined [OF assms(1,2) this(1,2) _ this(3,4,5), of "Some 0" "[]"] obtain st' as' where
    "brk_loop True (joined ws) NUL (Some 0) (length ([] :: char option list)) 1 st1 = Some (1 + length ws, st')"
    and a: "length (argv st') = argmax st'" "argmax st' = argmax st1" "take (1 + length ws) (argv st') = MakeValue # map At as'"
      "list_all2 (stored (words st')) as' ([] @ ws)" by (metis list.rel_inject(1) list.size(3))
  then have l: "brk_loop True (joined ws) NUL (Some 0) 0 1 st1 = Some (1 + length ws, st')"
    and st: "list_all2 (stored (words st')) as' ws" by simp_all
  have n: "1 + length ws < length (argv st')" using a(1,2) assms(3) by (simp add: st1_def str_init_def)
  have "brk_words (joined ws) True str_init = brk_loop True (joined ws) NUL (Some 0) 0 1 st1"
    unfolding brk_words_def Let_def dw st1_def by (simp add: str_init_def)
  then have "brk_words (joined ws) True str_init = Some (1 + length ws, st')" using l by (rule trans)
  then have b: "brk_string (joined ws) True str_init
      = Some (length ws + 1, st'\<lparr>argv := (argv st')[1 + length ws := NullArg]\<rparr>)"
    using store_one [OF n, of NullArg] by (simp add: brk_string_def)
  let ?st = "st'\<lparr>argv := (argv st')[1 + length ws := NullArg]\<rparr>"
  have "take (length ws) (drop 1 (argv ?st)) = take (length ws) (drop 1 (argv st'))"
    using n by (simp add: drop_update_swap)
  also have "\<dots> = drop 1 (take (1 + length ws) (argv st'))" by (simp add: drop_take)
  finally have t: "take (length ws) (drop 1 (argv ?st)) = map At as'" using a(3) by simp
  have "map (word_of ?st) (map At as') = map (word_of st') (map At as')" by simp
  also have "\<dots> = map Some ws" using stored_words [OF st assms(2)] .
  finally have "map (word_of ?st) (map At as') = map Some ws" .
  with b t n show ?thesis by (intro exI [of _ ?st]) simp
qed

theorem brk_string_quoted_witness:
  "\<exists>st'. brk_string (joined [''a b'', []]) True str_init = Some (3, st')
    \<and> map (word_of st') (take 2 (drop 1 (argv st'))) = [Some ''a b'', Some []] \<and> argv st' ! 3 = NullArg"
  using brk_string_quoted [of "[''a b'', []]"]
  by (simp add: plain_word_def NUL_def squote_def backslash_def eval_nat_numeral)

text \<open>
  two lines \<open>brk_string\<close> does not survive. Forty-nine words fill the array of a fresh
  process exactly, so the final null pointer is stored behind it; and a line that ends in a
  backslash, when backslashes are kept, is read past its terminator.
\<close>

theorem brk_string_overruns:
  "brk_string (concat (replicate 49 ''x '')) True str_init = None \<and> brk_string [CHR ''x'', backslash] False str_init = None"
proof
  show "brk_string (concat (replicate 49 ''x '')) True str_init = None" by code_simp
  show "brk_string [CHR ''x'', backslash] False str_init = None" by code_simp
qed

end
