(* ===== verification/C_Double.thy ===== *)
theory C_Double
  imports Glish_Prelude Complex_Main "HOL-Library.Log_Nat"
begin

text \<open>
  The floating point numbers of C, as far as the sources read and compare them: the conversion of a
  numeral by \<open>strtod\<close> of ANSI C and of an integer by a cast, both rounded to the nearest number with
  53 significant bits (to even on a tie, gradual underflow, overflow to \<open>HUGE_VAL\<close>).
\<close>

datatype double = Finite rat | Huge bool

definition two_pow :: "int \<Rightarrow> rat" where
  "two_pow e = (if 0 \<le> e then 2 ^ nat e else 1 / 2 ^ nat (- e))"

definition round_even :: "rat \<Rightarrow> int" where
  "round_even y = (let f = floor y; d = y - of_int f in
     if d < 1 / 2 then f else if d > 1 / 2 then f + 1 else if even f then f else f + 1)"

text \<open>The exponent of the leading bit of a positive number.\<close>

definition exponent :: "rat \<Rightarrow> int" where
  "exponent a = (let (p, q) = quotient_of a; k = bitlen p - bitlen q in if a < two_pow k then k - 1 else k)"

definition round_double :: "rat \<Rightarrow> double" where
  "round_double x = (if x = 0 then Finite 0
     else let e = max (exponent \<bar>x\<bar> - 52) (- 1074);
              r = of_int (round_even (\<bar>x\<bar> / two_pow e)) * two_pow e
          in if two_pow 1024 \<le> r then Huge (x < 0) else Finite (if x < 0 then - r else r))"

fun double_less :: "double \<Rightarrow> double \<Rightarrow> bool" where
  "double_less (Finite x) (Finite y) = (x < y)"
| "double_less (Finite _) (Huge neg) = (\<not> neg)"
| "double_less (Huge neg) (Finite _) = neg"
| "double_less (Huge neg) (Huge neg') = (neg \<and> \<not> neg')"

definition sign_of :: "string \<Rightarrow> bool \<times> string" where
  "sign_of s = (case s of c # t \<Rightarrow> if c = CHR ''-'' then (True, t) else if c = CHR ''+'' then (False, t) else (False, s)
                        | [] \<Rightarrow> (False, s))"

definition ten_pow :: "int \<Rightarrow> rat" where
  "ten_pow e = (if 0 \<le> e then 10 ^ nat e else 1 / 10 ^ nat (- e))"

text \<open>The exponent part of a numeral, if there is one, and what follows.\<close>

definition exponent_part :: "string \<Rightarrow> int \<times> string" where
  "exponent_part t = (case t of
     c # r \<Rightarrow> if c = CHR ''e'' \<or> c = CHR ''E'' then
         let (neg, r) = sign_of r; es = takeWhile isdigit r
         in if es = [] then (0, t)
            else ((if neg then - int (digits_val 0 es) else int (digits_val 0 es)), dropWhile isdigit r)
       else (0, t)
   | [] \<Rightarrow> (0, t))"

definition strtod :: "string \<Rightarrow> double \<times> string" where
  "strtod s =
    (let (neg, t) = sign_of (dropWhile isspace s);
         ds = takeWhile isdigit t; t = dropWhile isdigit t;
         (fs, t) = (case t of c # r \<Rightarrow> if c = CHR ''.'' then (takeWhile isdigit r, dropWhile isdigit r) else ([], t)
                              | [] \<Rightarrow> ([], t))
     in if ds @ fs = [] then (Finite 0, s)
        else let (ex, t) = exponent_part t;
                 x = of_nat (digits_val 0 (ds @ fs)) * ten_pow (ex - int (length fs))
             in (round_double (if neg then - x else x), t))"

section \<open>Small integers are exact\<close>

lemma two_pow_nonzero [simp]: "two_pow e \<noteq> 0"
  by (simp add: two_pow_def)

lemma two_pow_pos [simp]: "0 < two_pow e"
  by (simp add: two_pow_def)

lemma two_pow_minus: "two_pow (- int k) = 1 / 2 ^ k"
  by (cases k) (simp_all add: two_pow_def nat_add_distrib)

lemma round_even_of_int [simp]: "round_even (of_int n) = n"
  by (simp add: round_even_def)

lemma exponent_of_int:
  assumes "0 < n"
  shows "exponent (of_int n) = bitlen n - 1"
proof -
  have b: "2 ^ nat (bitlen n - 1) \<le> n" "0 < bitlen n" using assms bitlen_bounds [OF assms] by (auto simp: bitlen_eq_zero_iff bitlen_nonneg order.strict_iff_order)
  have "(2 :: rat) ^ nat (bitlen n - 1) \<le> of_int n"
    using b(1) by (metis of_int_le_iff of_int_numeral of_int_power)
  then have "\<not> (of_int n :: rat) < two_pow (bitlen n - 1)" using b(2) by (simp add: two_pow_def)
  then show ?thesis by (simp add: exponent_def quotient_of_int bitlen_def floorlog_def)
qed

lemma round_double_exact:
  assumes "x \<noteq> 0" and e: "e = max (exponent \<bar>x\<bar> - 52) (- 1074)"
    and r: "of_int (round_even (\<bar>x\<bar> / two_pow e)) * two_pow e = \<bar>x\<bar>" and "\<not> two_pow 1024 \<le> \<bar>x\<bar>"
  shows "round_double x = Finite x"
proof -
  have "round_double x = Finite (if x < 0 then - \<bar>x\<bar> else \<bar>x\<bar>)"
    by (simp only: round_double_def Let_def e [symmetric] r assms(1,4) if_False)
  then show ?thesis by simp
qed

lemma round_double_of_int:
  assumes "\<bar>n\<bar> < 2 ^ 53"
  shows "round_double (of_int n) = Finite (of_int n)"
proof (cases "n = 0")
  case False
  then have pos: "0 < \<bar>n\<bar>" by simp
  have "bitlen \<bar>n\<bar> \<le> 53" using assms bitlen_le_iff_power [of "\<bar>n\<bar>" 53] by simp
  define e where "e = max (exponent \<bar>of_int n\<bar> - 52) (- 1074)"
  have "e \<le> 0" using exponent_of_int [OF pos] \<open>bitlen \<bar>n\<bar> \<le> 53\<close> by (simp add: e_def flip: of_int_abs)
  define k where "k = nat (- e)"
  have e: "e = - int k" using \<open>e \<le> 0\<close> by (simp add: k_def)
  have "\<bar>of_int n\<bar> / two_pow e = of_int (\<bar>n\<bar> * 2 ^ k)" by (simp add: e two_pow_minus)
  then have "of_int (round_even (\<bar>of_int n\<bar> / two_pow e)) * two_pow e = of_int \<bar>n\<bar>"
    by (simp only: round_even_of_int) (simp add: e two_pow_minus)
  moreover have "\<not> two_pow 1024 \<le> of_int \<bar>n\<bar>"
  proof -
    have "(of_int \<bar>n\<bar> :: rat) < of_int (2 ^ 53)" using assms by (simp only: of_int_less_iff)
    also have "\<dots> \<le> two_pow 1024" by (simp add: two_pow_def)
    finally show ?thesis by simp
  qed
  ultimately show ?thesis
    using False round_double_exact [of "of_int n" e] by (simp add: e_def)
qed (simp add: round_double_def)

lemma takeWhile_dec [simp]: "takeWhile isdigit (dec n) = dec n" "dropWhile isdigit (dec n) = []"
  using set_dec by (auto simp: takeWhile_eq_all_conv dropWhile_eq_Nil_conv)

lemma strtod_dec:
  assumes "n < 2 ^ 53"
  shows "strtod (dec n) = (Finite (of_nat n), [])"
proof -
  obtain c t where d: "dec n = c # t" by (cases "dec n") simp_all
  then have "isdigit c" "\<not> isspace c" using set_dec [of c n] by simp_all
  then have "sign_of (dropWhile isspace (dec n)) = (False, dec n)"
    by (auto simp: d sign_of_def isdigit_def)
  moreover have "round_double (of_nat n) = Finite (of_nat n)"
    using round_double_of_int [of "int n"] assms by (simp add: nat_less_numeral_power_cancel_iff)
  ultimately show ?thesis by (simp add: strtod_def exponent_part_def digits_val_dec ten_pow_def)
qed

end
