(* ===== verification/Make_Cond.thy ===== *)
theory Make_Cond
  imports Make_Str C_Double
begin

text \<open>
  The conditionals of makefiles (\<open>glish/clients/make/cond.c\<close>): the scanner of conditional expressions,
  the recursive descent parser that evaluates them, and the stack of conditionals. The static variables
  of the file are the record \<open>cond\<close>; a pointer into the line is the rest of the line behind it, and
  reading behind the terminator of the line is \<open>None\<close>. What the file asks of other parts of make is the
  record \<open>cond_env\<close>.
\<close>

section \<open>State\<close>

datatype Token = AndT | OrT | NotT | TrueT | FalseT | LParen | RParen | EndOfFile | NoneT | ErrT

datatype parse_level = PARSE_WARNING | PARSE_FATAL

text \<open>
  The variables, targets and files a condition refers to. \<open>Var_Parse\<close> gives the value of the variable
  specification at the start of a string (\<open>None\<close> for \<open>var_Error\<close>) and the number of its characters;
  \<open>Targ_FindNode\<close> the type of an existing node.
\<close>

record cond_env =
  Var_Parse :: "string \<Rightarrow> bool \<Rightarrow> string option \<times> nat"
  Var_Value :: "string \<Rightarrow> string option"
  create :: "string list"
  Dir_FindFile :: "string \<Rightarrow> string option"
  Targ_FindNode :: "string \<Rightarrow> u32 option"

record cond =
  condInvert :: bool
  condDefProc :: "cond_env \<Rightarrow> string \<Rightarrow> bool option"
  condExpr :: string
  condPushBack :: Token
  condStack :: "bool list"
  condTop :: int
  skipIfLevel :: nat
  skipLine :: bool
  messages :: "(parse_level \<times> string) list"

definition MAXIF :: nat where
  "MAXIF = 30"

definition Parse_Error :: "parse_level \<Rightarrow> string \<Rightarrow> cond \<Rightarrow> cond" where
  "Parse_Error level msg s = s\<lparr>messages := messages s @ [(level, msg)]\<rparr>"

definition CondPushBack :: "Token \<Rightarrow> cond \<Rightarrow> cond" where
  "CondPushBack t s = s\<lparr>condPushBack := t\<rparr>"

section \<open>Functions of conditions\<close>

definition is_blank :: "char \<Rightarrow> bool" where
  "is_blank c \<longleftrightarrow> c = CHR '' '' \<or> c = CHR 0x09"

definition at_char :: "char set \<Rightarrow> string \<Rightarrow> bool" where
  "at_char cs s \<longleftrightarrow> (case s of [] \<Rightarrow> False | c # _ \<Rightarrow> c \<in> cs)"

text \<open>
  The loop of \<open>CondGetArg\<close>. It would not end for a variable specification without characters, and one
  longer than the line takes the pointer behind the terminator.
\<close>

function arg_loop :: "cond_env \<Rightarrow> string \<Rightarrow> string \<Rightarrow> (string \<times> string) option" where
  "arg_loop E [] buf = Some (buf, [])"
| "arg_loop E (c # cp) buf =
    (if is_blank c \<or> c \<in> {CHR '')'', CHR ''&'', CHR ''|''} then Some (buf, c # cp)
     else if c = CHR ''$'' then
       let (cp2, len) = Var_Parse E (c # cp) True
       in if len = 0 \<or> length (c # cp) < len then None
          else arg_loop E (drop len (c # cp)) (buf @ (case cp2 of Some v \<Rightarrow> v | None \<Rightarrow> []))
     else arg_loop E cp (buf @ [c]))"
  by pat_completeness auto
termination
  by (relation "measure (\<lambda>(E, cp, buf). length cp)") auto

text \<open>The length of the argument (zero if there is none, one more than its characters otherwise), the
  argument, the rest of the line and the state.\<close>

definition CondGetArg ::
  "cond_env \<Rightarrow> string \<Rightarrow> string \<Rightarrow> bool \<Rightarrow> cond \<Rightarrow> (nat \<times> string \<times> string \<times> cond) option" where
  "CondGetArg E line func parens s =
    (let cp = (if parens then (let cp = dropWhile (\<lambda>c. c \<noteq> CHR ''('') line in if cp = [] then [] else tl cp) else line)
     in if cp = [] then Some (0, [], line, s)
        else do {
          (buf, cp) \<leftarrow> arg_loop E (dropWhile is_blank cp) [];
          let cp = dropWhile is_blank cp;
          if parens \<and> \<not> at_char {CHR '')''} cp
          then Some (0, buf, line, Parse_Error PARSE_WARNING (''Missing closing parenthesis for '' @ func @ ''()'') s)
          else Some (length buf + 1, buf, if parens then tl cp else cp, s) })"

definition CondDoDefined :: "cond_env \<Rightarrow> string \<Rightarrow> bool option" where
  "CondDoDefined E arg = Some (Var_Value E arg \<noteq> None)"

definition CondStrMatch :: "string \<Rightarrow> string \<Rightarrow> bool option" where
  "CondStrMatch string pattern = map_option Not (Str_Match string pattern)"

fun find_target :: "string list \<Rightarrow> string \<Rightarrow> bool option" where
  "find_target [] arg = Some False"
| "find_target (t # ts) arg = do {
     differs \<leftarrow> CondStrMatch t arg;
     if \<not> differs then Some True else find_target ts arg }"

definition CondDoMake :: "cond_env \<Rightarrow> string \<Rightarrow> bool option" where
  "CondDoMake E arg = find_target (create E) arg"

definition CondDoExists :: "cond_env \<Rightarrow> string \<Rightarrow> bool option" where
  "CondDoExists E arg = Some (Dir_FindFile E arg \<noteq> None)"

definition OP_NOP :: "u32 \<Rightarrow> bool" where
  "OP_NOP t \<longleftrightarrow> t AND 0x7 = 0"

definition CondDoTarget :: "cond_env \<Rightarrow> string \<Rightarrow> bool option" where
  "CondDoTarget E arg = Some (case Targ_FindNode E arg of Some ty \<Rightarrow> \<not> OP_NOP ty | None \<Rightarrow> False)"

section \<open>Comparisons\<close>

text \<open>
  The digits of a hexadecimal number. The conditional expression for a letter compares before it
  selects, so that every letter counts as the code of \<open>A\<close>.
\<close>

definition isupper :: "char \<Rightarrow> bool" where
  "isupper c \<longleftrightarrow> (let n = of_char c :: nat in 65 \<le> n \<and> n \<le> 90)"

fun hex_loop :: "string \<Rightarrow> 64 word \<Rightarrow> 64 word option" where
  "hex_loop [] i = Some i"
| "hex_loop (c # str) i =
    (if isdigit c then hex_loop str (push_bit 4 i + of_nat (of_char c - 48))
     else if hex_val c \<noteq> None then
       hex_loop str (push_bit 4 i + (if 10 + int (of_char c) - (if isupper c then 1 else 0) \<noteq> 0 then 65 else 97))
     else None)"

definition CondCvtArg :: "string \<Rightarrow> double option" where
  "CondCvtArg str =
    (if take 2 str = ''0x'' then map_option (\<lambda>i. round_double (of_int (sint i))) (hex_loop (drop 2 str) 0)
     else let (v, eptr) = strtod str in if eptr = [] then Some v else None)"

text \<open>An operator is its first character and whether an equals sign follows it.\<close>

type_synonym relop = "char \<times> bool"

definition truth :: "bool \<Rightarrow> Token" where
  "truth b = (if b then TrueT else FalseT)"

definition num_compare :: "relop \<Rightarrow> double \<Rightarrow> double \<Rightarrow> cond \<Rightarrow> Token \<times> cond" where
  "num_compare opr lval rval s =
    (if fst opr = CHR ''!'' then
       if \<not> snd opr then (ErrT, Parse_Error PARSE_WARNING ''Unknown operator'' s) else (truth (lval \<noteq> rval), s)
     else if fst opr = CHR ''='' then
       if \<not> snd opr then (ErrT, Parse_Error PARSE_WARNING ''Unknown operator'' s) else (truth (lval = rval), s)
     else if fst opr = CHR ''<'' then
       (truth (if snd opr then double_less lval rval \<or> lval = rval else double_less lval rval), s)
     else (truth (if snd opr then double_less rval lval \<or> lval = rval else double_less rval lval), s))"

function string_loop :: "cond_env \<Rightarrow> bool \<Rightarrow> bool \<Rightarrow> string \<Rightarrow> string \<Rightarrow> (string \<times> string) option" where
  "string_loop E doEval qt [] buf = Some (buf, [])"
| "string_loop E doEval qt (c # cp) buf =
    (if (if qt then c = CHR 0x22 else is_blank c \<or> c = CHR '')'') then Some (buf, c # cp)
     else if c = backslash \<and> cp \<noteq> [] then string_loop E doEval qt (tl cp) (buf @ [hd cp])
     else if c = CHR ''$'' then
       (case Var_Parse E (c # cp) doEval of
          (None, _) \<Rightarrow> string_loop E doEval qt cp (buf @ [c])
        | (Some v, len) \<Rightarrow>
            if len = 0 \<or> length (c # cp) < len then None
            else string_loop E doEval qt (drop len (c # cp)) (buf @ v))
     else string_loop E doEval qt cp (buf @ [c]))"
  by pat_completeness auto
termination
  by (relation "measure (\<lambda>(E, doEval, qt, cp, buf). length cp)") auto

text \<open>
  The comparison of strings. \<open>here\<close> says that the right side is at the pointer \<open>condExpr\<close>, which then
  moves behind the string. At the end of the line that is behind the terminator, where the next token is
  read.
\<close>

definition string_compare ::
  "cond_env \<Rightarrow> bool \<Rightarrow> string \<Rightarrow> relop \<Rightarrow> string \<Rightarrow> bool \<Rightarrow> cond \<Rightarrow> (Token \<times> cond) option" where
  "string_compare E doEval lhs opr rhs here s =
    (if \<not> ((fst opr = CHR ''!'' \<or> fst opr = CHR ''='') \<and> snd opr)
     then Some (ErrT, Parse_Error PARSE_WARNING ''String comparison operator should be either == or !='' s)
     else do {
       let qt = at_char {CHR 0x22} rhs;
       (str, cp) \<leftarrow> string_loop E doEval qt (if qt then tl rhs else rhs) [];
       let t = truth (if fst opr = CHR ''='' then lhs = str else lhs \<noteq> str);
       if \<not> here then Some (t, s)
       else if \<not> qt \<and> at_char {CHR '')''} cp then Some (t, s\<lparr>condExpr := cp\<rparr>)
       else if cp = [] then None
       else Some (t, s\<lparr>condExpr := tl cp\<rparr>) })"

definition compare ::
  "cond_env \<Rightarrow> bool \<Rightarrow> string \<Rightarrow> relop \<Rightarrow> string \<Rightarrow> bool \<Rightarrow> cond \<Rightarrow> (Token \<times> cond) option" where
  "compare E doEval lhs opr rhs here s =
    (if at_char {CHR 0x22} rhs then string_compare E doEval lhs opr rhs here s
     else case CondCvtArg lhs of
       None \<Rightarrow> string_compare E doEval lhs opr rhs here s
     | Some lval \<Rightarrow>
         if at_char {CHR ''$''} rhs then
           (case Var_Parse E rhs doEval of
              (None, _) \<Rightarrow> Some (num_compare opr lval (Finite 0) s)
            | (Some str, len) \<Rightarrow>
                (case CondCvtArg str of
                   None \<Rightarrow> string_compare E doEval lhs opr rhs here s
                 | Some rval \<Rightarrow>
                     if here \<and> length rhs < len then None
                     else Some (num_compare opr lval rval (if here then s\<lparr>condExpr := drop len rhs\<rparr> else s))))
         else
           (case CondCvtArg rhs of
              None \<Rightarrow> string_compare E doEval lhs opr rhs here s
            | Some rval \<Rightarrow>
                Some (num_compare opr lval rval
                  (if here then s\<lparr>condExpr := dropWhile (\<lambda>c. \<not> isspace c) rhs\<rparr> else s))))"

section \<open>The scanner\<close>

text \<open>The token that starts with a dollar sign.\<close>

definition var_token :: "cond_env \<Rightarrow> bool \<Rightarrow> cond \<Rightarrow> (Token \<times> cond) option" where
  "var_token E doEval s =
    (case Var_Parse E (condExpr s) doEval of
       (None, _) \<Rightarrow> Some (ErrT, s)
     | (Some lhs, len) \<Rightarrow>
         if length (condExpr s) < len then None
         else
           let ex = drop len (condExpr s);
               joined = (ex \<noteq> [] \<and> \<not> isspace (hd ex) \<and> hd ex \<notin> {CHR ''!'', CHR ''='', CHR ''>'', CHR ''<''});
               lhs = (if joined then lhs @ takeWhile (\<lambda>c. \<not> isspace c) ex else lhs);
               ex = (if joined then dropWhile (\<lambda>c. \<not> isspace c) ex else ex);
               ex = dropWhile isspace ex
           in if at_char {CHR ''!'', CHR ''='', CHR ''<'', CHR ''>''} ex then
                let opr = (hd ex, at_char {CHR ''=''} (tl ex));
                    ex = dropWhile isspace (drop (if snd opr then 2 else 1) ex);
                    s = s\<lparr>condExpr := ex\<rparr>
                in if ex = [] then Some (ErrT, Parse_Error PARSE_WARNING ''Missing right-hand-side of operator'' s)
                   else compare E doEval lhs opr ex True s
              else compare E doEval lhs (CHR ''!'', True) ''0'' False (s\<lparr>condExpr := ex\<rparr>))"

definition eval_token ::
  "cond_env \<Rightarrow> bool \<Rightarrow> bool \<Rightarrow> (cond_env \<Rightarrow> string \<Rightarrow> bool option) \<Rightarrow> string \<Rightarrow> cond \<Rightarrow> (Token \<times> cond) option" where
  "eval_token E doEval invert evalProc arg s = do {
     r \<leftarrow> (if doEval then evalProc E arg else Some True);
     Some (truth (r \<noteq> invert), s) }"

definition default_token :: "cond_env \<Rightarrow> bool \<Rightarrow> cond \<Rightarrow> (Token \<times> cond) option" where
  "default_token E doEval s = do {
     (arglen, arg, ex, s) \<leftarrow> CondGetArg E (condExpr s) [] False s;
     eval_token E doEval (condInvert s) (condDefProc s) arg (s\<lparr>condExpr := ex\<rparr>) }"

definition call_token ::
  "cond_env \<Rightarrow> bool \<Rightarrow> string \<Rightarrow> (cond_env \<Rightarrow> string \<Rightarrow> bool option) \<Rightarrow> cond \<Rightarrow> (Token \<times> cond) option" where
  "call_token E doEval func evalProc s = do {
     (arglen, arg, ex, s) \<leftarrow> CondGetArg E (drop (length func) (condExpr s)) func True s;
     if arglen = 0 then default_token E doEval s
     else eval_token E doEval False evalProc arg (s\<lparr>condExpr := ex\<rparr>) }"

definition empty_token :: "cond_env \<Rightarrow> bool \<Rightarrow> cond \<Rightarrow> (Token \<times> cond) option" where
  "empty_token E doEval s =
    (let ex = drop 5 (condExpr s);
         arglen = length (takeWhile (\<lambda>c. c \<noteq> CHR ''('') ex)
     in if drop arglen ex = [] then default_token E doEval s
        else
          let (val, len) = Var_Parse E (drop (4 + arglen) (condExpr s)) doEval;
              t = (case val of None \<Rightarrow> ErrT | Some v \<Rightarrow> truth (dropWhile isspace v = []))
          in if length (condExpr s) < 4 + arglen + len then None
             else Some (t, s\<lparr>condExpr := drop (4 + arglen + len) (condExpr s)\<rparr>))"

definition word_token :: "cond_env \<Rightarrow> bool \<Rightarrow> cond \<Rightarrow> (Token \<times> cond) option" where
  "word_token E doEval s =
    (let ex = condExpr s in
     if take 7 ex = ''defined'' then call_token E doEval ''defined'' CondDoDefined s
     else if take 4 ex = ''make'' then call_token E doEval ''make'' CondDoMake s
     else if take 6 ex = ''exists'' then call_token E doEval ''exists'' CondDoExists s
     else if take 5 ex = ''empty'' then empty_token E doEval s
     else if take 6 ex = ''target'' then call_token E doEval ''target'' CondDoTarget s
     else default_token E doEval s)"

definition CondToken :: "cond_env \<Rightarrow> bool \<Rightarrow> cond \<Rightarrow> (Token \<times> cond) option" where
  "CondToken E doEval s =
    (if condPushBack s \<noteq> NoneT then Some (condPushBack s, s\<lparr>condPushBack := NoneT\<rparr>)
     else
       let ex = dropWhile is_blank (condExpr s); s = s\<lparr>condExpr := ex\<rparr>
       in case ex of
            [] \<Rightarrow> Some (EndOfFile, s)
          | c # cp \<Rightarrow>
              if c = CHR ''('' then Some (LParen, s\<lparr>condExpr := cp\<rparr>)
              else if c = CHR '')'' then Some (RParen, s\<lparr>condExpr := cp\<rparr>)
              else if c = CHR ''|'' then Some (OrT, s\<lparr>condExpr := if at_char {CHR ''|''} cp then tl cp else cp\<rparr>)
              else if c = CHR ''&'' then Some (AndT, s\<lparr>condExpr := if at_char {CHR ''&''} cp then tl cp else cp\<rparr>)
              else if c = CHR ''!'' then Some (NotT, s\<lparr>condExpr := cp\<rparr>)
              else if c = newline then Some (EndOfFile, s)
              else if c = CHR ''$'' then var_token E doEval s
              else word_token E doEval s)"

section \<open>The parser\<close>

text \<open>
  The three procedures call each other; \<open>call\<close> stands for the recursive calls. \<open>cond_parse\<close> ties them
  together on fuel.
\<close>

datatype nonterm = T_nt | F_nt | E_nt

type_synonym cond_parser = "nonterm \<Rightarrow> bool \<Rightarrow> cond \<Rightarrow> (Token \<times> cond) option"

definition CondT :: "cond_env \<Rightarrow> cond_parser \<Rightarrow> bool \<Rightarrow> cond \<Rightarrow> (Token \<times> cond) option" where
  "CondT E call doEval s = do {
     (t, s) \<leftarrow> CondToken E doEval s;
     if t = EndOfFile then Some (ErrT, s)
     else if t = LParen then do {
       (t, s) \<leftarrow> call E_nt doEval s;
       if t \<noteq> ErrT then do {
         (c, s) \<leftarrow> CondToken E doEval s;
         Some (if c \<noteq> RParen then ErrT else t, s) }
       else Some (t, s) }
     else if t = NotT then do {
       (t, s) \<leftarrow> call T_nt doEval s;
       Some (if t = TrueT then FalseT else if t = FalseT then TrueT else t, s) }
     else Some (t, s) }"

definition CondF :: "cond_env \<Rightarrow> cond_parser \<Rightarrow> bool \<Rightarrow> cond \<Rightarrow> (Token \<times> cond) option" where
  "CondF E call doEval s = do {
     (l, s) \<leftarrow> call T_nt doEval s;
     if l \<noteq> ErrT then do {
       (c, s) \<leftarrow> CondToken E doEval s;
       if c = AndT then
         if l = TrueT then call F_nt doEval s
         else do { (_, s) \<leftarrow> call F_nt False s; Some (l, s) }
       else Some (l, CondPushBack c s) }
     else Some (l, s) }"

definition CondE :: "cond_env \<Rightarrow> cond_parser \<Rightarrow> bool \<Rightarrow> cond \<Rightarrow> (Token \<times> cond) option" where
  "CondE E call doEval s = do {
     (l, s) \<leftarrow> call F_nt doEval s;
     if l \<noteq> ErrT then do {
       (c, s) \<leftarrow> CondToken E doEval s;
       if c = OrT then
         if l = FalseT then call E_nt doEval s
         else do { (_, s) \<leftarrow> call E_nt False s; Some (l, s) }
       else Some (l, CondPushBack c s) }
     else Some (l, s) }"

fun cond_parse :: "cond_env \<Rightarrow> nat \<Rightarrow> cond_parser" where
  "cond_parse E 0 nt doEval s = None"
| "cond_parse E (Suc n) nt doEval s = (case nt of
     T_nt \<Rightarrow> CondT E (cond_parse E n) doEval s
   | F_nt \<Rightarrow> CondF E (cond_parse E n) doEval s
   | E_nt \<Rightarrow> CondE E (cond_parse E n) doEval s)"

text \<open>Fuel for an expression: each call of the chain from E to T takes one, and each such chain follows
  a character of the expression.\<close>

definition cond_fuel :: "string \<Rightarrow> nat" where
  "cond_fuel ex = 6 * length ex + 8"

section \<open>The stack of conditionals\<close>

datatype cond_result = COND_PARSE | COND_SKIP | COND_INVALID

record If =
  form :: string
  doNot :: bool
  defProc :: "cond_env \<Rightarrow> string \<Rightarrow> bool option"

definition ifs :: "If list" where
  "ifs = [\<lparr>form = ''ifdef'', doNot = False, defProc = CondDoDefined\<rparr>,
          \<lparr>form = ''ifndef'', doNot = True, defProc = CondDoDefined\<rparr>,
          \<lparr>form = ''ifmake'', doNot = False, defProc = CondDoMake\<rparr>,
          \<lparr>form = ''ifnmake'', doNot = True, defProc = CondDoMake\<rparr>,
          \<lparr>form = ''if'', doNot = False, defProc = CondDoDefined\<rparr>]"

definition find_if :: "string \<Rightarrow> If option" where
  "find_if line = List.find (\<lambda>ifp. take (length (form ifp)) line = form ifp) ifs"

definition cond_init :: cond where
  "cond_init = \<lparr>condInvert = False, condDefProc = CondDoDefined, condExpr = [], condPushBack = NoneT,
     condStack = replicate MAXIF False, condTop = int MAXIF, skipIfLevel = 0, skipLine = False, messages = []\<rparr>"

definition stack_top :: "cond \<Rightarrow> bool option" where
  "stack_top s = (if 0 \<le> condTop s \<and> condTop s < int (length (condStack s))
     then Some (condStack s ! nat (condTop s)) else None)"

text \<open>The value of the expression of a conditional; \<open>None\<close> inside if it is malformed.\<close>

definition eval_expr :: "cond_env \<Rightarrow> If \<Rightarrow> string \<Rightarrow> cond \<Rightarrow> (bool option \<times> cond) option" where
  "eval_expr E ifp line s = do {
     let ex = dropWhile is_blank (drop (length (form ifp)) line);
     let s = s\<lparr>condDefProc := defProc ifp, condInvert := doNot ifp, condExpr := ex, condPushBack := NoneT\<rparr>;
     (t, s) \<leftarrow> cond_parse E (cond_fuel ex) E_nt True s;
     let malformed = Parse_Error PARSE_FATAL (''Malformed conditional ('' @ ex @ '')'');
     if t = TrueT \<or> t = FalseT then do {
       (c, s) \<leftarrow> CondToken E True s;
       if c = EndOfFile then Some (Some (t = TrueT), s) else Some (None, malformed s) }
     else if t = ErrT then Some (None, malformed s)
     else Some (Some False, s) }"

text \<open>What follows once the value of the conditional is known.\<close>

definition push_value :: "bool \<Rightarrow> bool \<Rightarrow> cond \<Rightarrow> (cond_result \<times> cond) option" where
  "push_value isElse value s = do {
     taken \<leftarrow> (if isElse then if skipIfLevel s \<noteq> 0 then Some True else stack_top s else Some False);
     if taken then Some (COND_SKIP, s\<lparr>skipLine := True\<rparr>)
     else
       let s = (if isElse then s else s\<lparr>condTop := condTop s - 1\<rparr>)
       in if condTop s < 0
          then Some (COND_INVALID, Parse_Error PARSE_FATAL ''Too many nested if's. 30 max.'' s)
          else Some (if value then COND_PARSE else COND_SKIP,
            s\<lparr>condStack := (condStack s)[nat (condTop s) := value], skipLine := \<not> value\<rparr>) }"

definition Cond_Eval :: "cond_env \<Rightarrow> string \<Rightarrow> cond \<Rightarrow> (cond_result \<times> cond) option" where
  "Cond_Eval E line s =
    (let line = dropWhile is_blank (drop 1 line);
         isElse = (take 2 line = ''el'');
         rest = (if isElse then drop 2 line else line)
     in if \<not> isElse \<and> take 5 line = ''endif'' then
          if skipIfLevel s \<noteq> 0 then Some (COND_SKIP, s\<lparr>skipIfLevel := skipIfLevel s - 1\<rparr>)
          else if condTop s = int MAXIF then Some (COND_INVALID, Parse_Error PARSE_FATAL ''if-less endif'' s)
          else Some (COND_PARSE, s\<lparr>skipLine := False, condTop := condTop s + 1\<rparr>)
        else case find_if rest of
          None \<Rightarrow>
            if isElse \<and> take 2 rest = ''se'' then
              if condTop s = int MAXIF then Some (COND_INVALID, Parse_Error PARSE_FATAL ''if-less else'' s)
              else if skipIfLevel s = 0 then do { v \<leftarrow> stack_top s; push_value True (\<not> v) s }
              else Some (COND_SKIP, s)
            else Some (COND_INVALID, s)
        | Some ifp \<Rightarrow>
            if isElse \<and> condTop s = int MAXIF then Some (COND_INVALID, Parse_Error PARSE_FATAL ''if-less elif'' s)
            else if isElse \<and> skipIfLevel s \<noteq> 0 then Some (COND_SKIP, s)
            else if \<not> isElse \<and> skipLine s then Some (COND_SKIP, s\<lparr>skipIfLevel := skipIfLevel s + 1\<rparr>)
            else do {
              (value, s) \<leftarrow> eval_expr E ifp rest s;
              case value of
                None \<Rightarrow> Some (COND_INVALID, s)
              | Some v \<Rightarrow> push_value isElse v s })"

definition Cond_End :: "cond \<Rightarrow> cond" where
  "Cond_End s =
    (let open_ifs = int MAXIF - condTop s;
         s = (if condTop s \<noteq> int MAXIF
              then Parse_Error PARSE_FATAL (dec (nat open_ifs) @ '' open conditional'' @ (if open_ifs = 1 then '''' else ''s'')) s
              else s)
     in s\<lparr>condTop := int MAXIF\<rparr>)"

section \<open>The grammar of conditions\<close>

text \<open>
  Conditions as the comment at the head of the file gives them: calls of the four functions, symbols for
  the default function, comparisons of a variable with a quoted string, and their combinations.
  \<open>cond_value\<close> is the meaning of a condition and \<open>writes\<close> the grammar, with blanks wherever a token may
  start.
\<close>

datatype atom = Defined string | Make string | Exists string | Target string | Symbol string
  | Same string bool string

datatype bexp = Atom atom | Neg bexp | Conj bexp bexp | Disj bexp bexp

definition var_spec :: "cond_env \<Rightarrow> string \<Rightarrow> string \<Rightarrow> bool" where
  "var_spec E v x \<longleftrightarrow> at_char {CHR ''$''} v \<and> (\<forall>r d. Var_Parse E (v @ r) d = (Some x, length v))"

fun atom_value :: "cond_env \<Rightarrow> (cond_env \<Rightarrow> string \<Rightarrow> bool option) \<Rightarrow> bool \<Rightarrow> atom \<Rightarrow> bool option" where
  "atom_value E p neg (Defined x) = CondDoDefined E x"
| "atom_value E p neg (Make x) = CondDoMake E x"
| "atom_value E p neg (Exists x) = CondDoExists E x"
| "atom_value E p neg (Target x) = CondDoTarget E x"
| "atom_value E p neg (Symbol x) = map_option (\<lambda>r. r \<noteq> neg) (p E x)"
| "atom_value E p neg (Same v eq x) = Some (if eq then fst (Var_Parse E v True) = Some x else fst (Var_Parse E v True) \<noteq> Some x)"

text \<open>The right side of a connective is not evaluated when the left side decides.\<close>

primrec cond_value :: "(atom \<Rightarrow> bool option) \<Rightarrow> bexp \<Rightarrow> bool option" where
  "cond_value V (Atom a) = V a"
| "cond_value V (Neg e) = map_option Not (cond_value V e)"
| "cond_value V (Conj a b) = do { x \<leftarrow> cond_value V a; if x then cond_value V b else Some False }"
| "cond_value V (Disj a b) = do { x \<leftarrow> cond_value V a; if x then Some True else cond_value V b }"

text \<open>Names without white space, quotes and the characters that have a meaning in a condition.\<close>

definition plain_char :: "char \<Rightarrow> bool" where
  "plain_char c \<longleftrightarrow> \<not> isspace c \<and> c \<notin> {CHR ''('', CHR '')'', CHR ''&'', CHR ''|'', CHR ''!'', CHR ''$'', CHR 0x22, backslash}"

definition plain_name :: "string \<Rightarrow> bool" where
  "plain_name x \<longleftrightarrow> x \<noteq> [] \<and> list_all plain_char x"

definition is_function :: "string \<Rightarrow> bool" where
  "is_function x \<longleftrightarrow> take 7 x = ''defined'' \<or> take 4 x = ''make'' \<or> take 6 x = ''exists'' \<or> take 5 x = ''empty'' \<or> take 6 x = ''target''"

inductive atom_text :: "cond_env \<Rightarrow> atom \<Rightarrow> string \<Rightarrow> bool" for E where
  t_defined: "plain_name x \<Longrightarrow> atom_text E (Defined x) (''defined('' @ x @ '')'')"
| t_make: "plain_name x \<Longrightarrow> atom_text E (Make x) (''make('' @ x @ '')'')"
| t_exists: "plain_name x \<Longrightarrow> atom_text E (Exists x) (''exists('' @ x @ '')'')"
| t_target: "plain_name x \<Longrightarrow> atom_text E (Target x) (''target('' @ x @ '')'')"
| t_symbol: "plain_name x \<Longrightarrow> \<not> is_function x \<Longrightarrow> atom_text E (Symbol x) x"
| t_same: "var_spec E v y \<Longrightarrow> CHR 0x22 \<notin> set x \<Longrightarrow> backslash \<notin> set x \<Longrightarrow> CHR ''$'' \<notin> set x \<Longrightarrow>
    atom_text E (Same v eq x) (v @ (if eq then '' == '' else '' != '') @ [CHR 0x22] @ x @ [CHR 0x22])"

inductive writes :: "cond_env \<Rightarrow> nonterm \<Rightarrow> bexp \<Rightarrow> string \<Rightarrow> bool" for E where
  w_atom: "list_all is_blank w \<Longrightarrow> atom_text E a t \<Longrightarrow> writes E T_nt (Atom a) (w @ t)"
| w_not: "list_all is_blank w \<Longrightarrow> writes E T_nt e t \<Longrightarrow> writes E T_nt (Neg e) (w @ ''!'' @ t)"
| w_paren: "list_all is_blank w \<Longrightarrow> writes E E_nt e t \<Longrightarrow> list_all is_blank w' \<Longrightarrow>
    writes E T_nt e (w @ ''('' @ t @ w' @ '')'')"
| w_factor: "writes E T_nt e t \<Longrightarrow> writes E F_nt e t"
| w_and: "writes E T_nt a t \<Longrightarrow> list_all is_blank w \<Longrightarrow> x = ''&'' \<or> x = ''&&'' \<Longrightarrow> writes E F_nt b u \<Longrightarrow>
    writes E F_nt (Conj a b) (t @ w @ x @ u)"
| w_expr: "writes E F_nt e t \<Longrightarrow> writes E E_nt e t"
| w_or: "writes E F_nt a t \<Longrightarrow> list_all is_blank w \<Longrightarrow> x = ''|'' \<or> x = ''||'' \<Longrightarrow> writes E E_nt b u \<Longrightarrow>
    writes E E_nt (Disj a b) (t @ w @ x @ u)"

section \<open>Scanning\<close>

text \<open>What may follow a condition, and the token there.\<close>

definition stops :: "string \<Rightarrow> bool" where
  "stops r \<longleftrightarrow> (case dropWhile is_blank r of [] \<Rightarrow> True | c # _ \<Rightarrow> c \<in> {CHR '')'', CHR ''|'', CHR ''&''})"

definition stop_token :: "string \<Rightarrow> Token \<times> string" where
  "stop_token r = (case dropWhile is_blank r of
     [] \<Rightarrow> (EndOfFile, [])
   | c # cp \<Rightarrow> if c = CHR '')'' then (RParen, cp)
       else if c = CHR ''|'' then (OrT, if at_char {CHR ''|''} cp then tl cp else cp)
       else (AndT, if at_char {CHR ''&''} cp then tl cp else cp))"

lemma is_blank_simps [simp]: "is_blank CHR '' ''" "\<not> is_blank CHR ''$''" "\<not> is_blank CHR ''!''" "\<not> is_blank CHR ''(''"
  "\<not> is_blank CHR '')''" "\<not> is_blank CHR ''|''" "\<not> is_blank CHR ''&''"
  by (simp_all add: is_blank_def)

lemma blank_is_space: "is_blank c \<Longrightarrow> isspace c"
  by (auto simp: is_blank_def isspace_def)

lemma dropWhile_blanks: "list_all is_blank w \<Longrightarrow> dropWhile is_blank (w @ s) = dropWhile is_blank s"
  by (induction w) auto

lemma CondToken_stop:
  assumes "stops r" and "condPushBack s = NoneT"
  shows "CondToken E d (s\<lparr>condExpr := r\<rparr>) = Some (fst (stop_token r), s\<lparr>condExpr := snd (stop_token r)\<rparr>)"
proof (cases "dropWhile is_blank r")
  case Nil
  with assms show ?thesis by (simp add: CondToken_def stop_token_def Let_def del: dropWhile_eq_Nil_conv)
next
  case (Cons c cp)
  then have c: "c = CHR '')'' \<or> c = CHR ''|'' \<or> c = CHR ''&''" using assms by (simp add: stops_def)
  then show ?thesis
  proof (elim disjE)
    assume "c = CHR '')''"
    with Cons show ?thesis using assms by (simp add: CondToken_def stop_token_def Let_def)
  next
    assume "c = CHR ''|''"
    with Cons show ?thesis using assms by (simp add: CondToken_def stop_token_def Let_def)
  next
    assume "c = CHR ''&''"
    with Cons show ?thesis using assms by (simp add: CondToken_def stop_token_def Let_def)
  qed
qed

lemma plain_charD: "plain_char c \<Longrightarrow> \<not> is_blank c \<and> c \<notin> {CHR ''('', CHR '')'', CHR ''&'', CHR ''|'', CHR ''!'', CHR ''$'', CHR 0x22, backslash, newline}"
  unfolding plain_char_def using blank_is_space isspace_newline by auto

lemma arg_loop_plain:
  "list_all plain_char x \<Longrightarrow> stops r \<Longrightarrow> arg_loop E (x @ r) buf = Some (buf @ x, r)"
proof (induction x arbitrary: buf)
  case Nil
  then show ?case by (cases r) (auto simp: stops_def split: if_splits)
next
  case (Cons c x)
  then show ?case using plain_charD [of c] by simp
qed

lemma dropWhile_plain: "plain_name x \<Longrightarrow> dropWhile is_blank (x @ r) = x @ r"
  by (cases x) (auto simp: plain_name_def dest: plain_charD)

lemma stops_paren [simp]: "stops (CHR '')'' # r)"
  by (simp add: stops_def)

lemma CondGetArg_call:
  assumes "plain_name x"
  shows "CondGetArg E (CHR ''('' # x @ CHR '')'' # r) f True s = Some (length x + 1, x, r, s)"
  using assms arg_loop_plain [of x "CHR '')'' # r" E "[]"]
  by (simp add: CondGetArg_def Let_def dropWhile_plain plain_name_def at_char_def)

lemma CondGetArg_symbol:
  assumes "plain_name x" and "stops r"
  shows "CondGetArg E (x @ r) f False s = Some (length x + 1, x, dropWhile is_blank r, s)"
  using assms arg_loop_plain [of x r E "[]"]
  by (simp add: CondGetArg_def Let_def dropWhile_plain plain_name_def)

lemma CondToken_word:
  assumes "list_all is_blank w" and "condPushBack s = NoneT" and "t = c # t'" and "plain_char c"
  shows "CondToken E d (s\<lparr>condExpr := w @ t\<rparr>) = word_token E d (s\<lparr>condExpr := t\<rparr>)"
  using assms plain_charD [of c] by (simp add: CondToken_def dropWhile_blanks Let_def)

lemma CondToken_var:
  assumes "list_all is_blank w" and "condPushBack s = NoneT" and "at_char {CHR ''$''} t"
  shows "CondToken E d (s\<lparr>condExpr := w @ t\<rparr>) = var_token E d (s\<lparr>condExpr := t\<rparr>)"
  using assms by (cases t) (auto simp: CondToken_def dropWhile_blanks Let_def at_char_def newline_def)

lemma eval_token_value:
  assumes "d \<longrightarrow> p E x = Some v"
  shows "eval_token E d neg p x s = Some (truth (if d then v \<noteq> neg else \<not> neg), s)"
  using assms by (simp add: eval_token_def)

lemma call_token_value:
  assumes "plain_name x" and "d \<longrightarrow> p E x = Some v" and "condExpr s = f @ CHR ''('' # x @ CHR '')'' # r"
  shows "call_token E d f p s = Some (truth (d \<longrightarrow> v), s\<lparr>condExpr := r\<rparr>)"
  using assms(3) CondGetArg_call [OF assms(1), of E r f s] eval_token_value [of d p E x v False "s\<lparr>condExpr := r\<rparr>"] assms(2)
  by (auto simp: call_token_def truth_def)

lemma string_loop_quoted:
  assumes "CHR 0x22 \<notin> set x" and "backslash \<notin> set x" and "CHR ''$'' \<notin> set x"
  shows "string_loop E d True (x @ CHR 0x22 # r) buf = Some (buf @ x, CHR 0x22 # r)"
  using assms by (induction x arbitrary: buf) auto

lemma compare_quoted:
  assumes "CHR 0x22 \<notin> set x" and "backslash \<notin> set x" and "CHR ''$'' \<notin> set x" and "c = CHR ''='' \<or> c = CHR ''!''"
  shows "compare E d lhs (c, True) (CHR 0x22 # x @ CHR 0x22 # r) True s
    = Some (truth (if c = CHR ''='' then lhs = x else lhs \<noteq> x), s\<lparr>condExpr := r\<rparr>)"
  using assms string_loop_quoted [OF assms(1-3), of E d r "[]"]
  by (auto simp: compare_def string_compare_def at_char_def Let_def)

lemma isspace_simps [simp]: "isspace CHR '' ''" "\<not> isspace CHR ''=''" "\<not> isspace CHR ''!''" "\<not> isspace CHR 0x22"
  by (simp_all add: isspace_def)

lemma var_token_quoted:
  assumes "var_spec E v y" and "CHR 0x22 \<notin> set x" and "backslash \<notin> set x" and "CHR ''$'' \<notin> set x"
    and "condExpr s = v @ '' '' @ [c] @ ''= '' @ [CHR 0x22] @ x @ [CHR 0x22] @ r" and "c = CHR ''='' \<or> c = CHR ''!''"
  shows "var_token E d s = Some (truth (if c = CHR ''='' then y = x else y \<noteq> x), s\<lparr>condExpr := r\<rparr>)"
proof -
  have "Var_Parse E (condExpr s) d = (Some y, length v)" using assms(1,5) by (simp add: var_spec_def)
  moreover have "\<not> isspace c" "at_char {CHR ''!'', CHR ''='', CHR ''<'', CHR ''>''} (c # u)" for u
    using assms(6) by (auto simp: at_char_def)
  ultimately show ?thesis
    using compare_quoted [OF assms(2-4,6), of E d y r "s\<lparr>condExpr := CHR 0x22 # x @ CHR 0x22 # r\<rparr>"]
    by (simp add: var_token_def assms(5) Let_def at_char_def)
qed

lemma word_token_calls:
  assumes "plain_name x"
  shows "condExpr s = ''defined('' @ x @ CHR '')'' # r \<Longrightarrow> word_token E d s = Some (truth (d \<longrightarrow> Var_Value E x \<noteq> None), s\<lparr>condExpr := r\<rparr>)"
    and "condExpr s = ''make('' @ x @ CHR '')'' # r \<Longrightarrow> (d \<longrightarrow> CondDoMake E x = Some b) \<Longrightarrow> word_token E d s = Some (truth (d \<longrightarrow> b), s\<lparr>condExpr := r\<rparr>)"
    and "condExpr s = ''exists('' @ x @ CHR '')'' # r \<Longrightarrow> (d \<longrightarrow> CondDoExists E x = Some b) \<Longrightarrow> word_token E d s = Some (truth (d \<longrightarrow> b), s\<lparr>condExpr := r\<rparr>)"
    and "condExpr s = ''target('' @ x @ CHR '')'' # r \<Longrightarrow> (d \<longrightarrow> CondDoTarget E x = Some b) \<Longrightarrow> word_token E d s = Some (truth (d \<longrightarrow> b), s\<lparr>condExpr := r\<rparr>)"
  using call_token_value [OF assms, of d CondDoDefined E "Var_Value E x \<noteq> None" s "''defined''" r]
    call_token_value [OF assms, of d CondDoMake E b s "''make''" r]
    call_token_value [OF assms, of d CondDoExists E b s "''exists''" r]
    call_token_value [OF assms, of d CondDoTarget E b s "''target''" r]
  by (simp_all add: word_token_def Let_def CondDoDefined_def)

lemma take_stops:
  assumes "take k (x @ r) = f" and "stops r" and "length f = k" and "list_all plain_char f"
  shows "take k x = f"
proof (cases "k \<le> length x \<or> r = []")
  case False
  then obtain c r' where r: "r = c # r'" by (cases r) auto
  have "c \<in> set (take k (x @ r))" using False by (auto simp: r take_Cons')
  then have "plain_char c" using assms(1,4) by (auto simp: list_all_iff)
  then show ?thesis using assms(2) r plain_charD [of c] by (auto simp: stops_def)
qed (use assms(1) in auto)

lemma plain_function_names:
  "list_all plain_char ''defined''" "list_all plain_char ''make''" "list_all plain_char ''exists''"
  "list_all plain_char ''empty''" "list_all plain_char ''target''"
  by (simp_all add: plain_char_def isspace_def backslash_def)

lemma is_function_stops:
  assumes "is_function (x @ r)" and "stops r"
  shows "is_function x"
proof -
  note take_f = take_stops [OF _ assms(2)]
  have "take 7 (x @ r) = ''defined'' \<Longrightarrow> take 7 x = ''defined''" by (rule take_f) (simp_all only: plain_function_names, simp)
  moreover have "take 4 (x @ r) = ''make'' \<Longrightarrow> take 4 x = ''make''" by (rule take_f) (simp_all only: plain_function_names, simp)
  moreover have "take 6 (x @ r) = ''exists'' \<Longrightarrow> take 6 x = ''exists''" by (rule take_f) (simp_all only: plain_function_names, simp)
  moreover have "take 5 (x @ r) = ''empty'' \<Longrightarrow> take 5 x = ''empty''" by (rule take_f) (simp_all only: plain_function_names, simp)
  moreover have "take 6 (x @ r) = ''target'' \<Longrightarrow> take 6 x = ''target''" by (rule take_f) (simp_all only: plain_function_names, simp)
  ultimately show ?thesis using assms(1) unfolding is_function_def by blast
qed

lemma word_token_symbol:
  assumes "plain_name x" and "\<not> is_function x" and "stops r" and "condExpr s = x @ r" and "d \<longrightarrow> condDefProc s E x = Some b"
  shows "word_token E d s = Some (truth (if d then b \<noteq> condInvert s else \<not> condInvert s), s\<lparr>condExpr := dropWhile is_blank r\<rparr>)"
proof -
  have "\<not> is_function (x @ r)" using is_function_stops assms(2,3) by blast
  then have "word_token E d s = default_token E d s"
    by (simp add: word_token_def is_function_def assms(4) Let_def)
  then show ?thesis
    using CondGetArg_symbol [OF assms(1,3), of E "[]" s]
      eval_token_value [of d "condDefProc s" E x b "condInvert s" "s\<lparr>condExpr := dropWhile is_blank r\<rparr>"] assms(5)
    by (simp add: default_token_def assms(4))
qed

lemma atom_token:
  assumes "atom_text E a t" and "d \<longrightarrow> atom_value E (condDefProc s) (condInvert s) a = Some v" and "stops r"
    and "list_all is_blank w" and "condPushBack s = NoneT"
  shows "\<exists>b r'. CondToken E d (s\<lparr>condExpr := w @ t @ r\<rparr>) = Some (truth b, s\<lparr>condExpr := r'\<rparr>)
    \<and> dropWhile is_blank r' = dropWhile is_blank r \<and> (d \<longrightarrow> b = v)"
  using assms(1)
proof cases
  case (t_defined x)
  then show ?thesis using assms(2) word_token_calls(1) [OF t_defined(3), of "s\<lparr>condExpr := t @ r\<rparr>" r E d]
      CondToken_word [OF assms(4,5), of "t @ r" "CHR ''d''" "''efined('' @ x @ '')'' @ r" E d]
    by (auto simp: CondDoDefined_def plain_char_def isspace_def backslash_def)
next
  case (t_make x)
  then show ?thesis using assms(2) word_token_calls(2) [OF t_make(3), of "s\<lparr>condExpr := t @ r\<rparr>" r d E v]
      CondToken_word [OF assms(4,5), of "t @ r" "CHR ''m''" "''ake('' @ x @ '')'' @ r" E d]
    by (auto simp: plain_char_def isspace_def backslash_def)
next
  case (t_exists x)
  then show ?thesis using assms(2) word_token_calls(3) [OF t_exists(3), of "s\<lparr>condExpr := t @ r\<rparr>" r d E v]
      CondToken_word [OF assms(4,5), of "t @ r" "CHR ''e''" "''xists('' @ x @ '')'' @ r" E d]
    by (auto simp: plain_char_def isspace_def backslash_def)
next
  case (t_target x)
  then show ?thesis using assms(2) word_token_calls(4) [OF t_target(3), of "s\<lparr>condExpr := t @ r\<rparr>" r d E v]
      CondToken_word [OF assms(4,5), of "t @ r" "CHR ''t''" "''arget('' @ x @ '')'' @ r" E d]
    by (auto simp: plain_char_def isspace_def backslash_def)
next
  case t_symbol
  then obtain c x' where x: "t = c # x'" "plain_char c" by (cases t) (auto simp: plain_name_def)
  obtain b where b: "d \<longrightarrow> condDefProc s E t = Some b \<and> v = (b \<noteq> condInvert s)" using assms(2) t_symbol by auto
  have "CondToken E d (s\<lparr>condExpr := w @ t @ r\<rparr>) = word_token E d (s\<lparr>condExpr := t @ r\<rparr>)"
    using CondToken_word [OF assms(4,5), of "t @ r" c "x' @ r" E d] x by simp
  also have "\<dots> = Some (truth (if d then v else \<not> condInvert s), s\<lparr>condExpr := dropWhile is_blank r\<rparr>)"
    using word_token_symbol [OF t_symbol(2,3) assms(3), of "s\<lparr>condExpr := t @ r\<rparr>" d E b] b by auto
  finally show ?thesis
    by (intro exI [of _ "if d then v else \<not> condInvert s"] exI [of _ "dropWhile is_blank r"]) simp
next
  case (t_same u y x eq)
  define c where "c = (if eq then CHR ''='' else CHR ''!'')"
  have t: "t @ r = u @ '' '' @ [c] @ ''= '' @ [CHR 0x22] @ x @ [CHR 0x22] @ r" using t_same(2) by (simp add: c_def)
  have "at_char {CHR ''$''} (t @ r)" using t_same(3) by (cases u) (auto simp: t var_spec_def at_char_def)
  moreover have "fst (Var_Parse E u True) = Some y"
    using t_same(3) unfolding var_spec_def by (metis append_Nil2 fst_conv)
  ultimately show ?thesis
    using var_token_quoted [OF t_same(3-6), of "s\<lparr>condExpr := t @ r\<rparr>" c r d] CondToken_var [OF assms(4,5), of "t @ r" E d] assms(2) t_same(1) t
    by (auto simp: c_def)
qed

section \<open>Parsing\<close>

text \<open>The state behind a part of a condition: behind a term the rest is still to be read, behind a factor
  or an expression the next token has been pushed back.\<close>

definition behind :: "nonterm \<Rightarrow> string \<Rightarrow> cond \<Rightarrow> cond \<Rightarrow> bool" where
  "behind nt r s s' \<longleftrightarrow> (if nt = T_nt then \<exists>r'. s' = s\<lparr>condExpr := r'\<rparr> \<and> dropWhile is_blank r' = dropWhile is_blank r
     else s' = s\<lparr>condExpr := snd (stop_token r), condPushBack := fst (stop_token r)\<rparr>)"

definition can_follow :: "nonterm \<Rightarrow> string \<Rightarrow> bool" where
  "can_follow nt r \<longleftrightarrow> stops r \<and> (nt \<noteq> T_nt \<longrightarrow> fst (stop_token r) \<noteq> AndT) \<and> (nt = E_nt \<longrightarrow> fst (stop_token r) \<noteq> OrT)"

fun nt_rank :: "nonterm \<Rightarrow> nat" where
  "nt_rank T_nt = 1"
| "nt_rank F_nt = 2"
| "nt_rank E_nt = 3"

lemma truth_neq [simp]: "truth b \<noteq> EndOfFile" "truth b \<noteq> LParen" "truth b \<noteq> NotT" "truth b \<noteq> ErrT"
  "truth b = TrueT \<longleftrightarrow> b" "truth b = FalseT \<longleftrightarrow> \<not> b"
  by (simp_all add: truth_def)

lemma stop_token_cong: "dropWhile is_blank r' = dropWhile is_blank r \<Longrightarrow> stop_token r' = stop_token r \<and> stops r' = stops r"
  by (simp add: stop_token_def stops_def)

lemma CondToken_behind:
  assumes "behind T_nt r s s'" and "stops r" and "condPushBack s = NoneT"
  shows "CondToken E d s' = Some (fst (stop_token r), s\<lparr>condExpr := snd (stop_token r)\<rparr>)"
proof -
  obtain r' where r': "s' = s\<lparr>condExpr := r'\<rparr>" "dropWhile is_blank r' = dropWhile is_blank r"
    using assms(1) by (auto simp: behind_def)
  then show ?thesis using CondToken_stop [of r' s E d] stop_token_cong [OF r'(2)] assms(2,3) by simp
qed

lemma CondToken_pushed:
  assumes "behind nt r s s'" and "nt \<noteq> T_nt" and "condPushBack s = NoneT"
  shows "CondToken E d s' = Some (fst (stop_token r), s\<lparr>condExpr := snd (stop_token r)\<rparr>)"
  using assms by (auto simp: behind_def CondToken_def stop_token_def split: list.splits)

lemma stop_token_op:
  assumes "list_all is_blank w"
  shows "stop_token (w @ CHR '')'' # r) = (RParen, r)" and "stops (w @ CHR '')'' # r)"
    and "x = ''&'' \<or> x = ''&&'' \<Longrightarrow> \<not> at_char {CHR ''&''} u \<Longrightarrow> stop_token (w @ x @ u) = (AndT, u)"
    and "x = ''|'' \<or> x = ''||'' \<Longrightarrow> \<not> at_char {CHR ''|''} u \<Longrightarrow> stop_token (w @ x @ u) = (OrT, u)"
    and "x = ''&'' \<or> x = ''&&'' \<or> x = ''|'' \<or> x = ''||'' \<Longrightarrow> stops (w @ x @ u)"
  using assms by (auto simp: stop_token_def stops_def dropWhile_blanks at_char_def)

lemma atom_text_start:
  assumes "atom_text E a t"
  shows "t \<noteq> [] \<and> \<not> at_char {CHR ''&'', CHR ''|''} (t @ r)"
  using assms
proof cases
  case t_symbol
  then show ?thesis using plain_charD [of "hd t"] by (cases t) (auto simp: plain_name_def at_char_def)
next
  case (t_same v y x eq)
  then show ?thesis by (cases v) (auto simp: var_spec_def at_char_def)
qed (simp_all add: at_char_def)

lemma writes_start: "writes E nt e t \<Longrightarrow> t \<noteq> [] \<and> \<not> at_char {CHR ''&'', CHR ''|''} (t @ r)"
proof (induction arbitrary: r rule: writes.induct)
  case (w_atom w a t)
  then show ?case using atom_text_start [of E a t r] by (cases w) (auto simp: at_char_def)
next
  case (w_not w e t)
  then show ?case by (cases w) (auto simp: at_char_def)
next
  case (w_paren w e t w')
  then show ?case by (cases w) (auto simp: at_char_def)
qed auto

lemma at_char_mono: "\<not> at_char B u \<Longrightarrow> A \<subseteq> B \<Longrightarrow> \<not> at_char A u"
  by (auto simp: at_char_def split: list.splits)

lemma CondF_left:
  assumes "call T_nt d s = Some (truth b, s1)" and "behind T_nt r s s1" and "stops r" and "condPushBack s = NoneT"
  shows "CondF E call d s = (if fst (stop_token r) = AndT
      then if b then call F_nt d (s\<lparr>condExpr := snd (stop_token r)\<rparr>)
           else do { (_, s') \<leftarrow> call F_nt False (s\<lparr>condExpr := snd (stop_token r)\<rparr>); Some (FalseT, s') }
      else Some (truth b, s\<lparr>condExpr := snd (stop_token r), condPushBack := fst (stop_token r)\<rparr>))"
  using assms(1) CondToken_behind [OF assms(2-4), of E d] by (simp add: CondF_def CondPushBack_def truth_def)

lemma CondE_left:
  assumes "call F_nt d s = Some (truth b, s1)" and "behind F_nt r s s1" and "condPushBack s = NoneT"
  shows "CondE E call d s = (if fst (stop_token r) = OrT
      then if \<not> b then call E_nt d (s\<lparr>condExpr := snd (stop_token r)\<rparr>)
           else do { (_, s') \<leftarrow> call E_nt False (s\<lparr>condExpr := snd (stop_token r)\<rparr>); Some (TrueT, s') }
      else Some (truth b, s\<lparr>condExpr := snd (stop_token r), condPushBack := fst (stop_token r)\<rparr>))"
  using assms(1) CondToken_pushed [OF assms(2) _ assms(3), of E d] by (simp add: CondE_def CondPushBack_def truth_def)

text \<open>What a call of the parser does on the text of a condition.\<close>

definition reads :: "cond_env \<Rightarrow> nat \<Rightarrow> nonterm \<Rightarrow> bexp \<Rightarrow> string \<Rightarrow> bool" where
  "reads E n nt e t \<longleftrightarrow> (\<forall>r s d v. can_follow nt r \<and> condPushBack s = NoneT \<and> condExpr s = t @ r
     \<and> (d \<longrightarrow> cond_value (atom_value E (condDefProc s) (condInvert s)) e = Some v)
     \<longrightarrow> (\<exists>b s'. cond_parse E n nt d s = Some (truth b, s') \<and> behind nt r s s' \<and> (d \<longrightarrow> b = v)))"

lemma readsD:
  assumes "reads E n nt e t" and "can_follow nt r" and "condPushBack s = NoneT" and "condExpr s = t @ r"
    and "d \<longrightarrow> cond_value (atom_value E (condDefProc s) (condInvert s)) e = Some v"
  shows "\<exists>b s'. cond_parse E n nt d s = Some (truth b, s') \<and> behind nt r s s' \<and> (d \<longrightarrow> b = v)"
  using assms unfolding reads_def by blast

lemma readsI:
  assumes "\<And>r s d v. can_follow nt r \<Longrightarrow> condPushBack s = NoneT \<Longrightarrow> condExpr s = t @ r
    \<Longrightarrow> d \<longrightarrow> cond_value (atom_value E (condDefProc s) (condInvert s)) e = Some v
    \<Longrightarrow> \<exists>b s'. cond_parse E n nt d s = Some (truth b, s') \<and> behind nt r s s' \<and> (d \<longrightarrow> b = v)"
  shows "reads E n nt e t"
  using assms unfolding reads_def by blast

lemma follows_term: "can_follow nt r \<Longrightarrow> can_follow T_nt r"
  by (simp add: can_follow_def)

lemma behind_moved [simp]: "nt \<noteq> T_nt \<Longrightarrow> behind nt r (s\<lparr>condExpr := u\<rparr>) s' = behind nt r s s'"
  by (simp add: behind_def)

lemma reads_atom:
  assumes "list_all is_blank w" and "atom_text E a t"
  shows "reads E (Suc n) T_nt (Atom a) (w @ t)"
proof (rule readsI)
  fix r d v and s :: cond
  assume f: "can_follow T_nt r" and s: "condPushBack s = NoneT" "condExpr s = (w @ t) @ r"
    and v: "d \<longrightarrow> cond_value (atom_value E (condDefProc s) (condInvert s)) (Atom a) = Some v"
  have "stops r" "d \<longrightarrow> atom_value E (condDefProc s) (condInvert s) a = Some v" using f v by (simp_all add: can_follow_def)
  then obtain b r' where "CondToken E d (s\<lparr>condExpr := w @ t @ r\<rparr>) = Some (truth b, s\<lparr>condExpr := r'\<rparr>)"
    and "dropWhile is_blank r' = dropWhile is_blank r" and "d \<longrightarrow> b = v"
    using atom_token [of E a t d s v r w] assms s(1) by blast
  moreover have "s\<lparr>condExpr := w @ t @ r\<rparr> = s" using s(2) by simp
  ultimately show "\<exists>b s'. cond_parse E (Suc n) T_nt d s = Some (truth b, s') \<and> behind T_nt r s s' \<and> (d \<longrightarrow> b = v)"
    by (auto simp: CondT_def behind_def)
qed

lemma CondToken_char:
  assumes "list_all is_blank w" and "condPushBack s = NoneT" and "condExpr s = w @ c # u"
  shows "c = CHR ''!'' \<Longrightarrow> CondToken E d s = Some (NotT, s\<lparr>condExpr := u\<rparr>)"
    and "c = CHR ''('' \<Longrightarrow> CondToken E d s = Some (LParen, s\<lparr>condExpr := u\<rparr>)"
  using assms by (simp_all add: CondToken_def dropWhile_blanks Let_def)

lemma reads_not:
  assumes "list_all is_blank w" and "reads E n T_nt e t"
  shows "reads E (Suc n) T_nt (Neg e) (w @ ''!'' @ t)"
proof (rule readsI)
  fix r d v and s :: cond
  assume f: "can_follow T_nt r" and s: "condPushBack s = NoneT" "condExpr s = (w @ ''!'' @ t) @ r"
    and v: "d \<longrightarrow> cond_value (atom_value E (condDefProc s) (condInvert s)) (Neg e) = Some v"
  have v': "d \<longrightarrow> cond_value (atom_value E (condDefProc s) (condInvert s)) e = Some (\<not> v)" using v by auto
  obtain b s' where "cond_parse E n T_nt d (s\<lparr>condExpr := t @ r\<rparr>) = Some (truth b, s')"
    and "behind T_nt r (s\<lparr>condExpr := t @ r\<rparr>) s'" and "d \<longrightarrow> b = (\<not> v)"
    using readsD [OF assms(2) f, of "s\<lparr>condExpr := t @ r\<rparr>" d "\<not> v"] s(1) v' by auto
  moreover have "CondToken E d s = Some (NotT, s\<lparr>condExpr := t @ r\<rparr>)"
    using CondToken_char(1) [OF assms(1) s(1)] s(2) by simp
  ultimately show "\<exists>b s'. cond_parse E (Suc n) T_nt d s = Some (truth b, s') \<and> behind T_nt r s s' \<and> (d \<longrightarrow> b = v)"
    by (intro exI [of _ "\<not> b"] exI [of _ s']) (auto simp: CondT_def truth_def behind_def)
qed

lemma reads_paren:
  assumes "list_all is_blank w" and "list_all is_blank w'" and "reads E n E_nt e t"
  shows "reads E (Suc n) T_nt e (w @ ''('' @ t @ w' @ '')'')"
proof (rule readsI)
  fix r d v and s :: cond
  assume f: "can_follow T_nt r" and s: "condPushBack s = NoneT" "condExpr s = (w @ ''('' @ t @ w' @ '')'') @ r"
    and v: "d \<longrightarrow> cond_value (atom_value E (condDefProc s) (condInvert s)) e = Some v"
  let ?s = "s\<lparr>condExpr := t @ w' @ CHR '')'' # r\<rparr>"
  have st: "stop_token (w' @ CHR '')'' # r) = (RParen, r)" "stops (w' @ CHR '')'' # r)"
    using stop_token_op(1,2) [OF assms(2)] by simp_all
  obtain b s' where p: "cond_parse E n E_nt d ?s = Some (truth b, s')"
    and b: "behind E_nt (w' @ CHR '')'' # r) s s'" and "d \<longrightarrow> b = v"
    using readsD [OF assms(3), of "w' @ CHR '')'' # r" ?s d v] s(1) v st by (auto simp: can_follow_def)
  moreover have "CondToken E d s' = Some (RParen, s\<lparr>condExpr := r\<rparr>)"
    using CondToken_pushed [OF b _ s(1), of E d] st by simp
  moreover have "CondToken E d s = Some (LParen, ?s)"
    using CondToken_char(2) [OF assms(1) s(1)] s(2) by simp
  ultimately show "\<exists>b s'. cond_parse E (Suc n) T_nt d s = Some (truth b, s') \<and> behind T_nt r s s' \<and> (d \<longrightarrow> b = v)"
    by (auto simp: CondT_def behind_def)
qed

lemma reads_factor:
  assumes "reads E n T_nt e t"
  shows "reads E (Suc n) F_nt e t"
proof (rule readsI)
  fix r d v and s :: cond
  assume f: "can_follow F_nt r" and s: "condPushBack s = NoneT" "condExpr s = t @ r"
    and v: "d \<longrightarrow> cond_value (atom_value E (condDefProc s) (condInvert s)) e = Some v"
  obtain b s' where p: "cond_parse E n T_nt d s = Some (truth b, s')" "behind T_nt r s s'" and "d \<longrightarrow> b = v"
    using readsD [OF assms follows_term [OF f] s v] by blast
  then show "\<exists>b s'. cond_parse E (Suc n) F_nt d s = Some (truth b, s') \<and> behind F_nt r s s' \<and> (d \<longrightarrow> b = v)"
    using CondF_left [of "cond_parse E n" d s b s' r E] p s(1) f by (auto simp: can_follow_def behind_def)
qed

lemma reads_and:
  assumes a: "reads E n T_nt a t" and b: "reads E n F_nt b u"
    and w: "list_all is_blank w" and x: "x = ''&'' \<or> x = ''&&''" and u: "\<And>r. \<not> at_char {CHR ''&''} (u @ r)"
  shows "reads E (Suc n) F_nt (Conj a b) (t @ w @ x @ u)"
proof (rule readsI)
  fix r d v and s :: cond
  let ?V = "atom_value E (condDefProc s) (condInvert s)"
  assume f: "can_follow F_nt r" and s: "condPushBack s = NoneT" "condExpr s = (t @ w @ x @ u) @ r"
    and v: "d \<longrightarrow> cond_value ?V (Conj a b) = Some v"
  have st: "stop_token (w @ x @ u @ r) = (AndT, u @ r)" "stops (w @ x @ u @ r)"
    using stop_token_op(3,5) [OF w, of x "u @ r"] x u by auto
  obtain va where va: "d \<longrightarrow> cond_value ?V a = Some va \<and> (if va then cond_value ?V b = Some v else v = False)"
    using v by (cases d; cases "cond_value ?V a") (simp_all split: if_splits)
  have cf: "can_follow T_nt (w @ x @ u @ r)" using st by (simp add: can_follow_def)
  have ce: "condExpr s = t @ w @ x @ u @ r" using s(2) by simp
  obtain l s1 where p: "cond_parse E n T_nt d s = Some (truth l, s1)" "behind T_nt (w @ x @ u @ r) s s1" and l: "d \<longrightarrow> l = va"
    using readsD [OF a cf s(1) ce, of d va] va by blast
  have step: "cond_parse E (Suc n) F_nt d s = (if l then cond_parse E n F_nt d (s\<lparr>condExpr := u @ r\<rparr>)
      else do { (_, s') \<leftarrow> cond_parse E n F_nt False (s\<lparr>condExpr := u @ r\<rparr>); Some (FalseT, s') })"
    using CondF_left [of "cond_parse E n" d s l s1 "w @ x @ u @ r" E] p st s(1) by (simp del: append_assoc)
  show "\<exists>b s'. cond_parse E (Suc n) F_nt d s = Some (truth b, s') \<and> behind F_nt r s s' \<and> (d \<longrightarrow> b = v)"
  proof (cases l)
    case True
    with va l have "d \<longrightarrow> cond_value ?V b = Some v" by auto
    then have "\<exists>b' s'. cond_parse E n F_nt d (s\<lparr>condExpr := u @ r\<rparr>) = Some (truth b', s') \<and> behind F_nt r s s' \<and> (d \<longrightarrow> b' = v)"
      using readsD [OF b f, of "s\<lparr>condExpr := u @ r\<rparr>" d v] s(1) by simp
    with step True show ?thesis by simp
  next
    case False
    obtain b' s' where "cond_parse E n F_nt False (s\<lparr>condExpr := u @ r\<rparr>) = Some (truth b', s')" "behind F_nt r s s'"
      using readsD [OF b f, of "s\<lparr>condExpr := u @ r\<rparr>" False v] s(1) by fastforce
    then show ?thesis using step False va l by (intro exI [of _ False] exI [of _ s']) (auto simp: truth_def)
  qed
qed

lemma reads_expr:
  assumes "reads E n F_nt e t"
  shows "reads E (Suc n) E_nt e t"
proof (rule readsI)
  fix r d v and s :: cond
  assume f: "can_follow E_nt r" and s: "condPushBack s = NoneT" "condExpr s = t @ r"
    and v: "d \<longrightarrow> cond_value (atom_value E (condDefProc s) (condInvert s)) e = Some v"
  obtain b s' where p: "cond_parse E n F_nt d s = Some (truth b, s')" "behind F_nt r s s'" and "d \<longrightarrow> b = v"
    using readsD [OF assms _ s v] f by (auto simp: can_follow_def)
  then show "\<exists>b s'. cond_parse E (Suc n) E_nt d s = Some (truth b, s') \<and> behind E_nt r s s' \<and> (d \<longrightarrow> b = v)"
    using CondE_left [of "cond_parse E n" d s b s' r E] p s(1) f by (auto simp: can_follow_def behind_def)
qed

lemma reads_or:
  assumes a: "reads E n F_nt a t" and b: "reads E n E_nt b u"
    and w: "list_all is_blank w" and x: "x = ''|'' \<or> x = ''||''" and u: "\<And>r. \<not> at_char {CHR ''|''} (u @ r)"
  shows "reads E (Suc n) E_nt (Disj a b) (t @ w @ x @ u)"
proof (rule readsI)
  fix r d v and s :: cond
  let ?V = "atom_value E (condDefProc s) (condInvert s)"
  assume f: "can_follow E_nt r" and s: "condPushBack s = NoneT" "condExpr s = (t @ w @ x @ u) @ r"
    and v: "d \<longrightarrow> cond_value ?V (Disj a b) = Some v"
  have st: "stop_token (w @ x @ u @ r) = (OrT, u @ r)" "stops (w @ x @ u @ r)"
    using stop_token_op(4,5) [OF w, of x "u @ r"] x u by auto
  obtain va where va: "d \<longrightarrow> cond_value ?V a = Some va \<and> (if va then v = True else cond_value ?V b = Some v)"
    using v by (cases d; cases "cond_value ?V a") (simp_all split: if_splits)
  have cf: "can_follow F_nt (w @ x @ u @ r)" using st by (simp add: can_follow_def)
  have ce: "condExpr s = t @ w @ x @ u @ r" using s(2) by simp
  obtain l s1 where p: "cond_parse E n F_nt d s = Some (truth l, s1)" "behind F_nt (w @ x @ u @ r) s s1" and l: "d \<longrightarrow> l = va"
    using readsD [OF a cf s(1) ce, of d va] va by blast
  have step: "cond_parse E (Suc n) E_nt d s = (if \<not> l then cond_parse E n E_nt d (s\<lparr>condExpr := u @ r\<rparr>)
      else do { (_, s') \<leftarrow> cond_parse E n E_nt False (s\<lparr>condExpr := u @ r\<rparr>); Some (TrueT, s') })"
    using CondE_left [of "cond_parse E n" d s l s1 "w @ x @ u @ r" E] p st s(1) by (simp del: append_assoc)
  show "\<exists>b s'. cond_parse E (Suc n) E_nt d s = Some (truth b, s') \<and> behind E_nt r s s' \<and> (d \<longrightarrow> b = v)"
  proof (cases l)
    case False
    with va l have "d \<longrightarrow> cond_value ?V b = Some v" by auto
    then have "\<exists>b' s'. cond_parse E n E_nt d (s\<lparr>condExpr := u @ r\<rparr>) = Some (truth b', s') \<and> behind E_nt r s s' \<and> (d \<longrightarrow> b' = v)"
      using readsD [OF b f, of "s\<lparr>condExpr := u @ r\<rparr>" d v] s(1) by simp
    with step False show ?thesis by simp
  next
    case True
    obtain b' s' where "cond_parse E n E_nt False (s\<lparr>condExpr := u @ r\<rparr>) = Some (truth b', s')" "behind E_nt r s s'"
      using readsD [OF b f, of "s\<lparr>condExpr := u @ r\<rparr>" False v] s(1) by fastforce
    then show ?thesis using step True va l by (intro exI [of _ True] exI [of _ s']) (auto simp: truth_def)
  qed
qed

lemma writes_reads: "writes E nt e t \<Longrightarrow> 3 * length t + nt_rank nt \<le> n \<Longrightarrow> reads E n nt e t"
proof (induction arbitrary: n rule: writes.induct)
  case (w_atom w a t)
  then show ?case using reads_atom [of w E a t "n - 1"] by simp
next
  case (w_not w e t)
  then show ?case using reads_not [of w E "n - 1" e t] by simp
next
  case (w_paren w e t w')
  then show ?case using reads_paren [of w w' E "n - 1" e t] by simp
next
  case (w_factor e t)
  then show ?case using reads_factor [of E "n - 1" e t] by simp
next
  case (w_and a t w x b u)
  have "\<And>r. \<not> at_char {CHR ''&''} (u @ r)" using writes_start [OF w_and.hyps(4)] at_char_mono by blast
  moreover have "reads E (n - 1) T_nt a t" by (rule w_and.IH(1)) (use w_and.prems w_and.hyps(3) in auto)
  moreover have "reads E (n - 1) F_nt b u" by (rule w_and.IH(2)) (use w_and.prems w_and.hyps(3) in auto)
  ultimately show ?case using reads_and [of E "n - 1" a t b u w x] w_and.hyps(2,3) w_and.prems by auto
next
  case (w_expr e t)
  then show ?case using reads_expr [of E "n - 1" e t] by simp
next
  case (w_or a t w x b u)
  have "\<And>r. \<not> at_char {CHR ''|''} (u @ r)" using writes_start [OF w_or.hyps(4)] at_char_mono by blast
  moreover have "reads E (n - 1) F_nt a t" by (rule w_or.IH(1)) (use w_or.prems w_or.hyps(3) in auto)
  moreover have "reads E (n - 1) E_nt b u" by (rule w_or.IH(2)) (use w_or.prems w_or.hyps(3) in auto)
  ultimately show ?case using reads_or [of E "n - 1" a t b u w x] w_or.hyps(2,3) w_or.prems by auto
qed



lemma dropWhile_start: "\<not> list_all P t \<Longrightarrow> dropWhile P (t @ u) = dropWhile P t @ u"
  by (induction t) auto

lemma atom_text_nonblank:
  assumes "atom_text E a t"
  shows "dropWhile is_blank t = t \<and> t \<noteq> []"
  using assms
proof cases
  case t_symbol
  then show ?thesis using dropWhile_plain [of t "[]"] by (simp add: plain_name_def)
next
  case (t_same v y x eq)
  then show ?thesis by (cases v) (auto simp: var_spec_def at_char_def)
qed (simp_all add: is_blank_def)

lemma writes_nonblank: "writes E nt e t \<Longrightarrow> \<not> list_all is_blank t"
proof (induction rule: writes.induct)
  case (w_atom w a t)
  have "dropWhile is_blank t \<noteq> []" using atom_text_nonblank [OF w_atom(2)] by simp
  then show ?case by (auto simp: list_all_iff)
qed auto

lemma writes_trimmed: "writes E nt e t \<Longrightarrow> writes E nt e (dropWhile is_blank t)"
proof (induction rule: writes.induct)
  case (w_atom w a t)
  then show ?case using atom_text_nonblank [OF w_atom(2)] writes.w_atom [of "[]" E a t] by (simp add: dropWhile_blanks)
next
  case (w_not w e t)
  then show ?case using writes.w_not [of "[]" E e t] by (simp add: dropWhile_blanks)
next
  case (w_paren w e t w')
  then show ?case using writes.w_paren [of "[]" E e t w'] by (simp add: dropWhile_blanks)
next
  case (w_and a t w x b u)
  then show ?case using writes_nonblank [OF w_and(1)] by (simp add: dropWhile_start writes.w_and)
next
  case (w_or a t w x b u)
  then show ?case using writes_nonblank [OF w_or(1)] by (simp add: dropWhile_start writes.w_or)
qed (blast intro: writes.intros)+

lemma eval_expr_writes:
  assumes "writes E E_nt e t" and "list_all is_blank w"
    and "cond_value (atom_value E (defProc ifp) (doNot ifp)) e = Some v"
  shows "eval_expr E ifp (form ifp @ t @ w) s
    = Some (Some v, s\<lparr>condDefProc := defProc ifp, condInvert := doNot ifp, condExpr := [], condPushBack := NoneT\<rparr>)"
proof -
  have st: "stop_token w = (EndOfFile, [])" "stops w"
    using dropWhile_blanks [OF assms(2), of "[]"] by (simp_all add: stop_token_def stops_def del: dropWhile_eq_Nil_conv)
  define u where "u = dropWhile is_blank t"
  have ex: "dropWhile is_blank (t @ w) = u @ w"
    using dropWhile_start [OF writes_nonblank [OF assms(1)]] by (simp add: u_def)
  let ?s = "s\<lparr>condDefProc := defProc ifp, condInvert := doNot ifp, condExpr := u @ w, condPushBack := NoneT\<rparr>"
  have "reads E (cond_fuel (u @ w)) E_nt e u"
    using writes_reads [OF writes_trimmed [OF assms(1)]] by (simp add: u_def cond_fuel_def)
  then obtain b s' where p: "cond_parse E (cond_fuel (u @ w)) E_nt True ?s = Some (truth b, s')"
    and b: "behind E_nt w ?s s'" "b = v"
    using readsD [of E "cond_fuel (u @ w)" E_nt e u w ?s True v] st assms(3) by (auto simp: can_follow_def)
  have "CondToken E True s' = Some (EndOfFile, ?s\<lparr>condExpr := []\<rparr>)"
    using CondToken_pushed [OF b(1), of E True] st by simp
  then show ?thesis using p b(2) by (simp add: eval_expr_def ex Let_def truth_def)
qed

section \<open>Fuel\<close>

text \<open>Every token of an expression moves the pointer on, except its end; a token that was pushed back counts
  for less than the character it came from.\<close>

definition connective :: "Token \<Rightarrow> bool" where
  "connective t \<longleftrightarrow> t \<in> {AndT, OrT, NotT, LParen, RParen}"

definition weight :: "cond \<Rightarrow> nat" where
  "weight s = 2 * length (condExpr s) + (if connective (condPushBack s) then 1 else 0)"

lemma Parse_Error_simps [simp]:
  "condExpr (Parse_Error l m s) = condExpr s" "condPushBack (Parse_Error l m s) = condPushBack s"
  "condDefProc (Parse_Error l m s) = condDefProc s"
  by (simp_all add: Parse_Error_def)

lemma length_dropWhile_trans [simp]: "length xs \<le> n \<Longrightarrow> length (dropWhile P xs) \<le> n"
  by (rule order_trans [OF length_dropWhile_le])

lemma arg_loop_shorter: "arg_loop E cp buf = Some (b, r) \<Longrightarrow> length r \<le> length cp"
proof (induction E cp buf rule: arg_loop.induct)
  case (2 E c cp buf)
  show ?case
  proof (cases "is_blank c \<or> c \<in> {CHR '')'', CHR ''&'', CHR ''|''}")
    case False
    show ?thesis
    proof (cases "c = CHR ''$''")
      case True
      obtain cp2 len where v: "Var_Parse E (c # cp) True = (cp2, len)" by (cases "Var_Parse E (c # cp) True")
      with 2(3) True have len: "len \<noteq> 0" "len \<le> length (c # cp)"
        and r: "arg_loop E (drop len (c # cp)) (buf @ (case cp2 of Some v \<Rightarrow> v | None \<Rightarrow> [])) = Some (b, r)"
        by (auto split: if_splits)
      have "length r \<le> length (drop len (c # cp))" using 2(1) [OF False True v [symmetric] refl] len r by fastforce
      then show ?thesis by simp
    next
      case False': False
      with False 2(2) [OF False False'] 2(3) show ?thesis by simp
    qed
  qed (use 2(3) in simp)
qed simp

lemma string_loop_shorter: "string_loop E d qt cp buf = Some (b, r) \<Longrightarrow> length r \<le> length cp"
proof (induction E d qt cp buf rule: string_loop.induct)
  case (2 E d qt c cp buf)
  show ?case
  proof (cases "if qt then c = CHR 0x22 else is_blank c \<or> c = CHR '')''")
    case False
    show ?thesis
    proof (cases "c = backslash \<and> cp \<noteq> []")
      case True
      with False 2(1) [OF False True] 2(5) show ?thesis by (simp split: if_splits)
    next
      case nb: False
      show ?thesis
      proof (cases "c = CHR ''$''")
        case dollar: True
        obtain v len where v: "Var_Parse E (c # cp) d = (v, len)" by (cases "Var_Parse E (c # cp) d")
        show ?thesis
        proof (cases v)
          case None
          have "string_loop E d qt cp (buf @ [c]) = Some (b, r)"
            using 2(5) v None dollar False nb by (simp split: if_splits)
          then show ?thesis using 2(2) [OF False nb dollar v [symmetric] None] by simp
        next
          case (Some x)
          have len: "\<not> (len = 0 \<or> length (c # cp) < len)" and
            l: "string_loop E d qt (drop len (c # cp)) (buf @ x) = Some (b, r)"
            using 2(5) v Some dollar False nb by (auto split: if_splits)
          have "length r \<le> length (drop len (c # cp))"
            by (rule 2(3) [OF False nb dollar v [symmetric] Some len l])
          then show ?thesis by simp
        qed
      next
        case nd: False
        with False nb 2(4) [OF False nb nd] 2(5) show ?thesis by (simp split: if_splits)
      qed
    qed
  qed (use 2(5) in \<open>auto split: if_splits\<close>)
qed simp

lemma CondGetArg_shorter:
  assumes "CondGetArg E line f parens s = Some (n, a, r, s')"
  shows "length r \<le> length line \<and> condPushBack s' = condPushBack s \<and> condExpr s' = condExpr s \<and> condDefProc s' = condDefProc s"
proof -
  define cp where "cp = (if parens then (let cp = dropWhile (\<lambda>c. c \<noteq> CHR ''('') line in if cp = [] then [] else tl cp) else line)"
  have cp: "length cp \<le> length line"
    by (simp add: cp_def Let_def le_diff_conv)
  show ?thesis
  proof (cases "cp = []")
    case True
    then show ?thesis using assms by (simp add: CondGetArg_def cp_def [symmetric])
  next
    case False
    then obtain b q where q: "arg_loop E (dropWhile is_blank cp) [] = Some (b, q)"
      using assms by (auto simp: CondGetArg_def cp_def [symmetric] bind_eq_Some_conv)
    have "length (dropWhile is_blank q) \<le> length line"
      using arg_loop_shorter [OF q] cp length_dropWhile_le [of is_blank cp]
      by (intro length_dropWhile_trans) linarith
    then show ?thesis using assms False q
      by (auto simp: CondGetArg_def cp_def [symmetric] Let_def split: if_splits)
  qed
qed

text \<open>Results of a token that is a value: no connective, and the pointer has not moved back.\<close>

definition value_token :: "cond \<Rightarrow> Token \<Rightarrow> cond \<Rightarrow> bool" where
  "value_token s t s' \<longleftrightarrow> \<not> connective t \<and> condPushBack s' = condPushBack s \<and> condDefProc s' = condDefProc s \<and> length (condExpr s') \<le> length (condExpr s)"

lemma truth_no_connective [simp]: "\<not> connective (truth b)" "\<not> connective ErrT" "\<not> connective EndOfFile" "\<not> connective NoneT"
  by (simp_all add: truth_def connective_def)

lemma num_compare_value:
  assumes "num_compare opr a b s = (t, s')"
  shows "value_token s t s'"
  using assms by (auto simp: num_compare_def value_token_def split: if_splits)

lemma string_compare_value:
  assumes "string_compare E d lhs opr rhs here s = Some (t, s')" and "here \<longrightarrow> rhs = condExpr s"
  shows "value_token s t s'"
proof (cases "(fst opr = CHR ''!'' \<or> fst opr = CHR ''='') \<and> snd opr")
  case True
  let ?qt = "at_char {CHR 0x22} rhs"
  obtain str cp where l: "string_loop E d ?qt (if ?qt then tl rhs else rhs) [] = Some (str, cp)"
    using assms(1) True by (auto simp: string_compare_def Let_def bind_eq_Some_conv)
  have "length cp \<le> length rhs" using string_loop_shorter [OF l] by (simp split: if_splits)
  then show ?thesis using assms True l
    by (auto simp: string_compare_def Let_def value_token_def split: if_splits)
qed (use assms in \<open>auto simp: string_compare_def value_token_def\<close>)

lemma compare_value:
  assumes "compare E d lhs opr rhs here s = Some (t, s')" and "here \<longrightarrow> rhs = condExpr s"
  shows "value_token s t s'"
proof (cases "string_compare E d lhs opr rhs here s = Some (t, s')")
  case False
  then have q: "\<not> at_char {CHR 0x22} rhs" using assms(1) by (auto simp: compare_def)
  obtain l where l: "CondCvtArg lhs = Some l" using assms(1) False q by (cases "CondCvtArg lhs") (auto simp: compare_def)
  show ?thesis
  proof (cases "at_char {CHR ''$''} rhs")
    case True
    obtain v len where v: "Var_Parse E rhs d = (v, len)" by (cases "Var_Parse E rhs d")
    show ?thesis
    proof (cases v)
      case None
      then have "num_compare opr l (Finite 0) s = (t, s')" using assms(1) q l True v by (simp add: compare_def)
      then show ?thesis by (rule num_compare_value)
    next
      case (Some str)
      obtain x where x: "CondCvtArg str = Some x"
        using assms(1) False q l True v Some by (cases "CondCvtArg str") (auto simp: compare_def)
      then have "num_compare opr l x (if here then s\<lparr>condExpr := drop len rhs\<rparr> else s) = (t, s')"
        using assms(1) q l True v Some by (auto simp: compare_def split: if_splits)
      then have "value_token (if here then s\<lparr>condExpr := drop len rhs\<rparr> else s) t s'" by (rule num_compare_value)
      then show ?thesis using assms(2) by (auto simp: value_token_def split: if_splits)
    qed
  next
    case nd: False
    obtain x where x: "CondCvtArg rhs = Some x"
      using assms(1) False q l nd by (cases "CondCvtArg rhs") (auto simp: compare_def)
    then have "num_compare opr l x (if here then s\<lparr>condExpr := dropWhile (\<lambda>c. \<not> isspace c) rhs\<rparr> else s) = (t, s')"
      using assms(1) q l nd by (auto simp: compare_def split: if_splits)
    then have "value_token (if here then s\<lparr>condExpr := dropWhile (\<lambda>c. \<not> isspace c) rhs\<rparr> else s) t s'" by (rule num_compare_value)
    then show ?thesis using assms(2) order_trans [OF _ length_dropWhile_le]
      by (auto simp: value_token_def split: if_splits)
  qed
qed (rule string_compare_value [OF _ assms(2)])

lemma value_token_trans:
  "value_token (s\<lparr>condExpr := u\<rparr>) t s' \<Longrightarrow> length u \<le> length (condExpr s) \<Longrightarrow> value_token s t s'"
  by (simp add: value_token_def)

lemma var_token_value:
  assumes "var_token E d s = Some (t, s')"
  shows "value_token s t s'"
proof -
  obtain v len where v: "Var_Parse E (condExpr s) d = (v, len)" by (cases "Var_Parse E (condExpr s) d")
  show ?thesis
  proof (cases v)
    case None
    then show ?thesis using assms v by (auto simp: var_token_def value_token_def)
  next
    case (Some x)
    define ex where "ex = drop len (condExpr s)"
    define joined where "joined = (ex \<noteq> [] \<and> \<not> isspace (hd ex) \<and> hd ex \<notin> {CHR ''!'', CHR ''='', CHR ''>'', CHR ''<''})"
    define lhs where "lhs = (if joined then x @ takeWhile (\<lambda>c. \<not> isspace c) ex else x)"
    define ex1 where "ex1 = dropWhile isspace (if joined then dropWhile (\<lambda>c. \<not> isspace c) ex else ex)"
    define opr where "opr = (hd ex1, at_char {CHR ''=''} (tl ex1))"
    define ex2 where "ex2 = dropWhile isspace (drop (if snd opr then 2 else 1) ex1)"
    have l1: "length ex1 \<le> length (condExpr s)"
      by (simp add: ex1_def ex_def)
    have l2: "length ex2 \<le> length (condExpr s)"
      using l1 by (simp add: ex2_def)
    have "\<not> length (condExpr s) < len" using assms v Some by (auto simp: var_token_def)
    then have "Some (t, s') = (if at_char {CHR ''!'', CHR ''='', CHR ''<'', CHR ''>''} ex1 then
         if ex2 = [] then Some (ErrT, Parse_Error PARSE_WARNING ''Missing right-hand-side of operator'' (s\<lparr>condExpr := ex2\<rparr>))
         else compare E d lhs opr ex2 True (s\<lparr>condExpr := ex2\<rparr>)
       else compare E d lhs (CHR ''!'', True) ''0'' False (s\<lparr>condExpr := ex1\<rparr>))"
      using assms unfolding var_token_def v Some Let_def ex2_def opr_def ex1_def lhs_def joined_def ex_def by simp
    then consider "t = ErrT" "s' = Parse_Error PARSE_WARNING ''Missing right-hand-side of operator'' (s\<lparr>condExpr := ex2\<rparr>)"
      | "compare E d lhs opr ex2 True (s\<lparr>condExpr := ex2\<rparr>) = Some (t, s')"
      | "compare E d lhs (CHR ''!'', True) ''0'' False (s\<lparr>condExpr := ex1\<rparr>) = Some (t, s')"
      by (auto split: if_splits)
    then show ?thesis
    proof cases
      case 1
      then show ?thesis using l2 by (simp add: value_token_def)
    next
      case 2
      then show ?thesis using compare_value [OF 2] l2 by (auto intro: value_token_trans)
    next
      case 3
      then show ?thesis using compare_value [OF 3] l1 by (auto intro: value_token_trans)
    qed
  qed
qed

lemma eval_token_value_token: "eval_token E d neg p x s = Some (t, s') \<Longrightarrow> value_token s t s'"
  by (auto simp: eval_token_def value_token_def bind_eq_Some_conv)

lemma default_token_value:
  assumes "default_token E d s = Some (t, s')"
  shows "value_token s t s'"
proof -
  obtain n a r s1 where g: "CondGetArg E (condExpr s) [] False s = Some (n, a, r, s1)"
    and e: "eval_token E d (condInvert s1) (condDefProc s1) a (s1\<lparr>condExpr := r\<rparr>) = Some (t, s')"
    using assms by (auto simp: default_token_def bind_eq_Some_conv)
  show ?thesis using CondGetArg_shorter [OF g] eval_token_value_token [OF e] by (simp add: value_token_def)
qed

lemma call_token_value_token:
  assumes "call_token E d f p s = Some (t, s')"
  shows "value_token s t s'"
proof -
  obtain n a r s1 where g: "CondGetArg E (drop (length f) (condExpr s)) f True s = Some (n, a, r, s1)"
    and e: "(if n = 0 then default_token E d s1 else eval_token E d False p a (s1\<lparr>condExpr := r\<rparr>)) = Some (t, s')"
    using assms by (auto simp: call_token_def bind_eq_Some_conv)
  show ?thesis
  proof (cases "n = 0")
    case True
    then show ?thesis using CondGetArg_shorter [OF g] default_token_value [of E d s1 t s'] e by (simp add: value_token_def)
  next
    case False
    then show ?thesis using CondGetArg_shorter [OF g] eval_token_value_token [of E d False p a "s1\<lparr>condExpr := r\<rparr>" t s'] e
      by (auto simp: value_token_def)
  qed
qed

lemma empty_token_value:
  assumes "empty_token E d s = Some (t, s')"
  shows "value_token s t s'"
proof (cases "drop (length (takeWhile (\<lambda>c. c \<noteq> CHR ''('') (drop 5 (condExpr s)))) (drop 5 (condExpr s)) = []")
  case True
  then show ?thesis using assms default_token_value unfolding empty_token_def Let_def if_P [OF True] by blast
next
  case False
  show ?thesis using assms unfolding empty_token_def Let_def if_not_P [OF False]
    by (auto simp: value_token_def split: prod.splits if_splits option.splits)
qed

lemma word_token_value:
  assumes "word_token E d s = Some (t, s')"
  shows "value_token s t s'"
  using assms call_token_value_token [of E d _ _ s t s'] empty_token_value [of E d s t s'] default_token_value [of E d s t s']
  unfolding word_token_def Let_def by (simp only: split: if_splits)

lemma CondToken_fresh:
  assumes "CondToken E d s = Some (t, s')" and "condPushBack s = NoneT"
  shows "condPushBack s' = NoneT \<and> condDefProc s' = condDefProc s \<and> length (condExpr s') \<le> length (condExpr s)
    \<and> (connective t \<longrightarrow> length (condExpr s') < length (condExpr s))"
proof -
  define ex where "ex = dropWhile is_blank (condExpr s)"
  have l: "length ex \<le> length (condExpr s)" by (simp add: ex_def)
  show ?thesis
  proof (cases ex)
    case Nil
    then have "t = EndOfFile" "s' = s\<lparr>condExpr := []\<rparr>"
      using assms unfolding CondToken_def ex_def [symmetric] Let_def by simp_all
    then show ?thesis using assms(2) by simp
  next
    case (Cons c cp)
    have u: "CondToken E d s = (if c = CHR ''('' then Some (LParen, s\<lparr>condExpr := cp\<rparr>)
              else if c = CHR '')'' then Some (RParen, s\<lparr>condExpr := cp\<rparr>)
              else if c = CHR ''|'' then Some (OrT, s\<lparr>condExpr := if at_char {CHR ''|''} cp then tl cp else cp\<rparr>)
              else if c = CHR ''&'' then Some (AndT, s\<lparr>condExpr := if at_char {CHR ''&''} cp then tl cp else cp\<rparr>)
              else if c = CHR ''!'' then Some (NotT, s\<lparr>condExpr := cp\<rparr>)
              else if c = newline then Some (EndOfFile, s\<lparr>condExpr := ex\<rparr>)
              else if c = CHR ''$'' then var_token E d (s\<lparr>condExpr := ex\<rparr>) else word_token E d (s\<lparr>condExpr := ex\<rparr>))"
      using assms(2) Cons unfolding CondToken_def ex_def [symmetric] Let_def by simp
    have moved: "length (tl cp) < length (condExpr s)" "length cp < length (condExpr s)" using l Cons by simp_all
    have val: "value_token (s\<lparr>condExpr := ex\<rparr>) t s' \<Longrightarrow> ?thesis" using l assms(2) by (simp add: value_token_def)
    show ?thesis
    proof (cases "c \<in> {CHR ''('', CHR '')'', CHR ''|'', CHR ''&'', CHR ''!''}")
      case True
      then show ?thesis using assms u moved by (auto split: if_splits)
    next
      case False
      then have "(if c = newline then Some (EndOfFile, s\<lparr>condExpr := ex\<rparr>) else if c = CHR ''$''
          then var_token E d (s\<lparr>condExpr := ex\<rparr>) else word_token E d (s\<lparr>condExpr := ex\<rparr>)) = Some (t, s')"
        using assms(1) u by simp
      then have "value_token (s\<lparr>condExpr := ex\<rparr>) t s'"
        using var_token_value [of E d "s\<lparr>condExpr := ex\<rparr>" t s'] word_token_value [of E d "s\<lparr>condExpr := ex\<rparr>" t s']
        by (auto simp: value_token_def split: if_splits)
      then show ?thesis by (rule val)
    qed
  qed
qed

lemma CondToken_weight:
  assumes "CondToken E d s = Some (t, s')"
  shows "weight s' \<le> weight s" and "connective t \<Longrightarrow> weight s' < weight s" and "weight (CondPushBack t s') \<le> weight s"
proof -
  have "weight s' \<le> weight s \<and> (connective t \<longrightarrow> weight s' < weight s) \<and> weight (CondPushBack t s') \<le> weight s"
  proof (cases "condPushBack s = NoneT")
    case True
    then show ?thesis using CondToken_fresh [OF assms True] by (auto simp: weight_def CondPushBack_def)
  next
    case False
    then have "t = condPushBack s" "s' = s\<lparr>condPushBack := NoneT\<rparr>" using assms by (simp_all add: CondToken_def)
    then show ?thesis by (simp add: weight_def CondPushBack_def)
  qed
  then show "weight s' \<le> weight s" and "connective t \<Longrightarrow> weight s' < weight s" and "weight (CondPushBack t s') \<le> weight s"
    by simp_all
qed

lemma connectives [simp]: "connective AndT" "connective OrT" "connective NotT" "connective LParen"
  by (simp_all add: connective_def)

lemma CondToken_proc: "CondToken E d s = Some (t, s') \<Longrightarrow> condDefProc s' = condDefProc s"
  using CondToken_fresh [of E d s t s'] by (cases "condPushBack s = NoneT") (auto simp: CondToken_def)

lemma CondPushBack_proc [simp]: "condDefProc (CondPushBack t s) = condDefProc s"
  by (simp add: CondPushBack_def)

lemma cond_parse_proc: "cond_parse E n nt d s = Some (t, s') \<Longrightarrow> condDefProc s' = condDefProc s"
proof (induction n arbitrary: nt d s t s')
  case (Suc n)
  note [dest] = Suc.IH CondToken_proc
  show ?case
    using Suc.prems
    by (cases nt) (fastforce simp: CondT_def CondF_def CondE_def bind_eq_Some_conv split: if_splits)+
qed simp

lemma cond_parse_weight: "cond_parse E n nt d s = Some (t, s') \<Longrightarrow> weight s' \<le> weight s"
proof (induction n arbitrary: nt d s t s')
  case (Suc n)
  show ?case
  proof (cases nt)
    case T_nt
    obtain c s1 where c: "CondToken E d s = Some (c, s1)"
      using Suc.prems by (auto simp: T_nt CondT_def bind_eq_Some_conv)
    have w1: "weight s1 \<le> weight s" using CondToken_weight(1) [OF c] .
    consider "s' = s1" | t2 s2 where "cond_parse E n E_nt d s1 = Some (t2, s2)" "s' = s2"
      | t2 s2 t3 where "cond_parse E n E_nt d s1 = Some (t2, s2)" "CondToken E d s2 = Some (t3, s')"
      | t2 where "cond_parse E n T_nt d s1 = Some (t2, s')"
      using Suc.prems c by (auto simp: T_nt CondT_def bind_eq_Some_conv split: if_splits)
    then show ?thesis
    proof cases
      case 3
      then show ?thesis using Suc.IH [OF 3(1)] CondToken_weight(1) [OF 3(2)] w1 by linarith
    qed (use w1 Suc.IH in \<open>force dest: order_trans\<close>)+
  next
    case F_nt
    obtain l s1 where l: "cond_parse E n T_nt d s = Some (l, s1)"
      using Suc.prems by (auto simp: F_nt CondF_def bind_eq_Some_conv)
    consider "s' = s1" | c s2 d' t2 where "CondToken E d s1 = Some (c, s2)" "cond_parse E n F_nt d' s2 = Some (t2, s')"
      | c s2 where "CondToken E d s1 = Some (c, s2)" "s' = CondPushBack c s2"
      using Suc.prems l by (auto simp: F_nt CondF_def bind_eq_Some_conv split: if_splits)
    then show ?thesis
    proof cases
      case 2
      then show ?thesis using Suc.IH [OF l] Suc.IH [OF 2(2)] CondToken_weight(1) [OF 2(1)] by linarith
    next
      case 3
      then show ?thesis using Suc.IH [OF l] CondToken_weight(3) [OF 3(1)] by simp
    qed (use Suc.IH [OF l] in simp)
  next
    case E_nt
    obtain l s1 where l: "cond_parse E n F_nt d s = Some (l, s1)"
      using Suc.prems by (auto simp: E_nt CondE_def bind_eq_Some_conv)
    consider "s' = s1" | c s2 d' t2 where "CondToken E d s1 = Some (c, s2)" "cond_parse E n E_nt d' s2 = Some (t2, s')"
      | c s2 where "CondToken E d s1 = Some (c, s2)" "s' = CondPushBack c s2"
      using Suc.prems l by (auto simp: E_nt CondE_def bind_eq_Some_conv split: if_splits)
    then show ?thesis
    proof cases
      case 2
      then show ?thesis using Suc.IH [OF l] Suc.IH [OF 2(2)] CondToken_weight(1) [OF 2(1)] by linarith
    next
      case 3
      then show ?thesis using Suc.IH [OF l] CondToken_weight(3) [OF 3(1)] by simp
    qed (use Suc.IH [OF l] in simp)
  qed
qed simp

lemma Option_bind_cong: "x = y \<Longrightarrow> (\<And>a. y = Some a \<Longrightarrow> f a = g a) \<Longrightarrow> Option.bind x f = Option.bind y g"
  by (cases y) simp_all

lemma CondF_cong:
  assumes "call T_nt d s = call' T_nt d s" and "\<And>t s1 s2 d'. call' T_nt d s = Some (t, s1) \<Longrightarrow> CondToken E d s1 = Some (AndT, s2) \<Longrightarrow> call F_nt d' s2 = call' F_nt d' s2"
  shows "CondF E call d s = CondF E call' d s"
  unfolding CondF_def assms(1) using assms(2) by (intro Option_bind_cong refl) (auto split: prod.split intro!: Option_bind_cong)

lemma CondE_cong:
  assumes "call F_nt d s = call' F_nt d s" and "\<And>t s1 s2 d'. call' F_nt d s = Some (t, s1) \<Longrightarrow> CondToken E d s1 = Some (OrT, s2) \<Longrightarrow> call E_nt d' s2 = call' E_nt d' s2"
  shows "CondE E call d s = CondE E call' d s"
  unfolding CondE_def assms(1) using assms(2) by (intro Option_bind_cong refl) (auto split: prod.split intro!: Option_bind_cong)

lemma CondT_cong:
  assumes "\<And>s1. CondToken E d s = Some (LParen, s1) \<Longrightarrow> call E_nt d s1 = call' E_nt d s1"
    and "\<And>s1. CondToken E d s = Some (NotT, s1) \<Longrightarrow> call T_nt d s1 = call' T_nt d s1"
  shows "CondT E call d s = CondT E call' d s"
  unfolding CondT_def using assms by (intro Option_bind_cong refl) (auto split: prod.split)

lemma nt_rank_pos [simp]: "nt_rank nt \<noteq> 0"
  by (cases nt) simp_all

lemma cond_parse_fuel:
  "3 * weight s + nt_rank nt \<le> n \<Longrightarrow> 3 * weight s + nt_rank nt \<le> m \<Longrightarrow> cond_parse E n nt d s = cond_parse E m nt d s"
proof (induction n arbitrary: m nt d s)
  case (Suc n)
  obtain k where m: "m = Suc k" using Suc.prems by (cases m) simp_all
  have IH: "3 * weight s' + nt_rank nt' \<le> n \<Longrightarrow> 3 * weight s' + nt_rank nt' \<le> k
      \<Longrightarrow> cond_parse E n nt' d' s' = cond_parse E k nt' d' s'" for nt' d' s'
    by (rule Suc.IH)
  show ?case
  proof (cases nt)
    case T_nt
    have "CondT E (cond_parse E n) d s = CondT E (cond_parse E k) d s"
    proof (rule CondT_cong)
      show "CondToken E d s = Some (LParen, s1) \<Longrightarrow> cond_parse E n E_nt d s1 = cond_parse E k E_nt d s1" for s1
        using CondToken_weight(2) [of E d s LParen s1] Suc.prems by (intro IH) (auto simp: T_nt m)
      show "CondToken E d s = Some (NotT, s1) \<Longrightarrow> cond_parse E n T_nt d s1 = cond_parse E k T_nt d s1" for s1
        using CondToken_weight(2) [of E d s NotT s1] Suc.prems by (intro IH) (auto simp: T_nt m)
    qed
    then show ?thesis by (simp add: T_nt m)
  next
    case F_nt
    have "CondF E (cond_parse E n) d s = CondF E (cond_parse E k) d s"
    proof (rule CondF_cong)
      show "cond_parse E n T_nt d s = cond_parse E k T_nt d s" using Suc.prems by (intro IH) (auto simp: F_nt m)
      fix t s1 s2 d' assume "cond_parse E k T_nt d s = Some (t, s1)" "CondToken E d s1 = Some (AndT, s2)"
      then have "weight s2 < weight s" using cond_parse_weight CondToken_weight(2) by fastforce
      then show "cond_parse E n F_nt d' s2 = cond_parse E k F_nt d' s2" using Suc.prems by (intro IH) (auto simp: F_nt m)
    qed
    then show ?thesis by (simp add: F_nt m)
  next
    case E_nt
    have "CondE E (cond_parse E n) d s = CondE E (cond_parse E k) d s"
    proof (rule CondE_cong)
      show "cond_parse E n F_nt d s = cond_parse E k F_nt d s" using Suc.prems by (intro IH) (auto simp: E_nt m)
      fix t s1 s2 d' assume "cond_parse E k F_nt d s = Some (t, s1)" "CondToken E d s1 = Some (OrT, s2)"
      then have "weight s2 < weight s" using cond_parse_weight CondToken_weight(2) by fastforce
      then show "cond_parse E n E_nt d' s2 = cond_parse E k E_nt d' s2" using Suc.prems by (intro IH) (auto simp: E_nt m)
    qed
    then show ?thesis by (simp add: E_nt m)
  qed
qed simp

lemma nt_rank_le: "nt_rank nt \<le> 3"
  by (cases nt) simp_all

lemma cond_parse_some:
  assumes tok: "\<And>d s. length (condExpr s) \<le> k \<Longrightarrow> condDefProc s = p \<Longrightarrow> CondToken E d s \<noteq> None"
  shows "condDefProc s = p \<Longrightarrow> length (condExpr s) \<le> k \<Longrightarrow> 3 * weight s + nt_rank nt \<le> n \<Longrightarrow> cond_parse E n nt d s \<noteq> None"
proof (induction n arbitrary: nt d s)
  case (Suc n)
  have len: "length (condExpr s') \<le> length (condExpr s)" if "weight s' \<le> weight s" for s'
    using that by (simp add: weight_def split: if_splits)
  define near where "near s' \<longleftrightarrow> weight s' \<le> weight s \<and> condDefProc s' = p" for s' :: cond
  have step: "\<exists>t s2. CondToken E d' s1 = Some (t, s2) \<and> near s2 \<and> (connective t \<longrightarrow> weight s2 < weight s)"
    if w: "near s1" for d' s1
  proof -
    have "CondToken E d' s1 \<noteq> None" by (rule tok) (use len w Suc.prems in \<open>auto simp: near_def intro: order_trans\<close>)
    then obtain t s2 where t: "CondToken E d' s1 = Some (t, s2)" by auto
    show ?thesis using CondToken_weight(1,2) [OF t] CondToken_proc [OF t] w t by (fastforce simp: near_def)
  qed
  have call: "\<exists>t s2. cond_parse E n nt' d' s1 = Some (t, s2) \<and> near s2"
    if w: "near s1" "3 * weight s1 + nt_rank nt' \<le> n" for nt' d' s1
  proof -
    have "length (condExpr s1) \<le> k" using len [of s1] w(1) Suc.prems(2) by (simp add: near_def)
    then obtain t s2 where p: "cond_parse E n nt' d' s1 = Some (t, s2)"
      using Suc.IH [of s1 nt' d'] w by (auto simp: near_def)
    then show ?thesis using cond_parse_weight [OF p] cond_parse_proc [OF p] w(1) by (auto simp: near_def)
  qed
  have near: "near s" using Suc.prems(1) by (simp add: near_def)
  show ?case
  proof (cases nt)
    case T_nt
    obtain t s1 where t: "CondToken E d s = Some (t, s1)" "near s1" "connective t \<longrightarrow> weight s1 < weight s"
      using step [OF near, of d] by auto
    have c: "t = LParen \<or> t = NotT \<Longrightarrow> \<exists>t s2. cond_parse E n nt' d s1 = Some (t, s2) \<and> near s2" for nt'
      using t(2,3) Suc.prems(3) T_nt nt_rank_le [of nt'] by (intro call) (auto simp: near_def)
    show ?thesis
    proof (cases "t = LParen")
      case True
      then obtain t2 s2 where t2: "cond_parse E n E_nt d s1 = Some (t2, s2)" "near s2" using c by blast
      obtain t3 s3 where "CondToken E d s2 = Some (t3, s3)" using step [OF t2(2), of d] by blast
      then show ?thesis using t(1) t2 True by (simp add: T_nt CondT_def)
    next
      case False
      then show ?thesis using t(1) c [of T_nt] by (cases "t = NotT") (auto simp: T_nt CondT_def)
    qed
  next
    case F_nt
    obtain l s1 where l: "cond_parse E n T_nt d s = Some (l, s1)" "near s1"
      using call [OF near, of T_nt d] Suc.prems F_nt by auto
    obtain t s2 where t: "CondToken E d s1 = Some (t, s2)" "near s2" "connective t \<longrightarrow> weight s2 < weight s"
      using step [OF l(2), of d] by blast
    have "\<exists>t s3. cond_parse E n F_nt d s2 = Some (t, s3)" "\<exists>t s3. cond_parse E n F_nt False s2 = Some (t, s3)" if "t = AndT"
      using call [OF t(2), of F_nt d] call [OF t(2), of F_nt False] t(3) that Suc.prems F_nt by auto
    then show ?thesis using l t(1) by (cases "t = AndT") (auto simp: F_nt CondF_def)
  next
    case E_nt
    obtain l s1 where l: "cond_parse E n F_nt d s = Some (l, s1)" "near s1"
      using call [OF near, of F_nt d] Suc.prems E_nt by auto
    obtain t s2 where t: "CondToken E d s1 = Some (t, s2)" "near s2" "connective t \<longrightarrow> weight s2 < weight s"
      using step [OF l(2), of d] by blast
    have "\<exists>t s3. cond_parse E n E_nt d s2 = Some (t, s3)" "\<exists>t s3. cond_parse E n E_nt False s2 = Some (t, s3)" if "t = OrT"
      using call [OF t(2), of E_nt d] call [OF t(2), of E_nt False] t(3) that Suc.prems E_nt by auto
    then show ?thesis using l t(1) by (cases "t = OrT") (auto simp: E_nt CondE_def)
  qed
qed simp

section \<open>Conditionals\<close>

lemma ifs_cases:
  assumes "ifp \<in> set ifs"
  obtains "form ifp = ''ifdef''" | "form ifp = ''ifndef''" | "form ifp = ''ifmake''" | "form ifp = ''ifnmake''" | "form ifp = ''if''"
  using assms by (auto simp: ifs_def)

lemma find_if_form:
  assumes "ifp \<in> set ifs"
  shows "find_if (form ifp @ CHR '' '' # r) = Some ifp"
proof -
  have "ifp = ifs ! 0 \<or> ifp = ifs ! 1 \<or> ifp = ifs ! 2 \<or> ifp = ifs ! 3 \<or> ifp = ifs ! 4"
    using assms by (simp add: ifs_def)
  then show ?thesis by (elim disjE) (simp_all add: ifs_def find_if_def)
qed

lemma if_form_start:
  assumes "ifp \<in> set ifs"
  shows "\<exists>r'. form ifp @ r = ''if'' @ r'"
  using assms by (cases rule: ifs_cases) auto

lemma eval_expr_blank: "eval_expr E ifp (form ifp @ CHR '' '' # u) s = eval_expr E ifp (form ifp @ u) s"
  by (simp add: eval_expr_def)

definition stack_ok :: "cond \<Rightarrow> bool" where
  "stack_ok s \<longleftrightarrow> length (condStack s) = MAXIF \<and> condTop s \<le> int MAXIF"

lemma Cond_Eval_if:
  assumes "writes E E_nt e t" and "list_all is_blank w" and "ifp \<in> set ifs"
    and "cond_value (atom_value E (defProc ifp) (doNot ifp)) e = Some v" and "\<not> skipLine s"
  shows "Cond_Eval E (''.'' @ form ifp @ '' '' @ t @ w) s = push_value False v
    (s\<lparr>condDefProc := defProc ifp, condInvert := doNot ifp, condExpr := [], condPushBack := NoneT\<rparr>)"
proof -
  obtain r where r: "form ifp @ CHR '' '' # t @ w = ''if'' @ r" using if_form_start [OF assms(3)] by blast
  then have "dropWhile is_blank (form ifp @ CHR '' '' # t @ w) = form ifp @ CHR '' '' # t @ w" by (simp add: is_blank_def)
  moreover have "take 2 (form ifp @ CHR '' '' # t @ w) \<noteq> ''el''" "take 5 (form ifp @ CHR '' '' # t @ w) \<noteq> ''endif''"
    by (simp_all add: r)
  ultimately show ?thesis
    using assms(5) eval_expr_writes [OF assms(1,2,4), of s] by (simp add: Cond_Eval_def Let_def find_if_form [OF assms(3)] eval_expr_blank)
qed

lemma push_value_if:
  assumes "0 < condTop s" and "stack_ok s"
  shows "push_value False v s = Some (if v then COND_PARSE else COND_SKIP,
    s\<lparr>condTop := condTop s - 1, condStack := (condStack s)[nat (condTop s - 1) := v], skipLine := \<not> v\<rparr>)"
  using assms by (simp add: push_value_def Let_def)

section \<open>Properties\<close>

definition demo_env :: cond_env where
  "demo_env = \<lparr>Var_Parse = (\<lambda>s d. if take 4 s = ''$(N)'' then (Some ''7'', 4) else if take 4 s = ''$(S)'' then (Some ''abc'', 4) else (None, 1)),
     Var_Value = (\<lambda>x. if x = ''X'' then Some ''1'' else None), create = [''all''],
     Dir_FindFile = (\<lambda>x. None), Targ_FindNode = (\<lambda>x. None)\<rparr>"


lemma demo_writes: "writes demo_env E_nt (Disj (Conj (Neg (Atom (Defined ''Y''))) (Atom (Same ''$(S)'' True ''abc''))) (Atom (Symbol ''Z'')))
   (''! defined(Y) && '' @ ''$(S) == '' @ [CHR 0x22] @ ''abc'' @ [CHR 0x22] @ ''|| Z'')"
proof -
  have b: "list_all is_blank '' ''" by simp
  have name: "plain_name [c]" if "c = CHR ''Y'' \<or> c = CHR ''Z''" for c
    using that by (auto simp: plain_name_def plain_char_def isspace_def backslash_def)
  have 1: "writes demo_env T_nt (Neg (Atom (Defined ''Y''))) (''! '' @ ''defined(Y)'')"
    using w_not [OF _ w_atom [OF b t_defined [OF name [of "CHR ''Y''"]]], of "[]" demo_env] by simp
  have "var_spec demo_env ''$(S)'' ''abc''" by (simp add: var_spec_def demo_env_def at_char_def)
  then have "atom_text demo_env (Same ''$(S)'' True ''abc'') (''$(S)'' @ '' == '' @ [CHR 0x22] @ ''abc'' @ [CHR 0x22])"
    using t_same [of demo_env "''$(S)''" "''abc''" "''abc''" True] by (simp add: backslash_def)
  then have 2: "writes demo_env F_nt (Atom (Same ''$(S)'' True ''abc'')) ('' '' @ ''$(S)'' @ '' == '' @ [CHR 0x22] @ ''abc'' @ [CHR 0x22])"
    by (rule w_factor [OF w_atom [OF b]])
  have 3: "writes demo_env E_nt (Atom (Symbol ''Z'')) ('' '' @ ''Z'')"
    by (rule w_expr [OF w_factor [OF w_atom [OF b t_symbol]]]) (use name in \<open>simp_all add: is_function_def\<close>)
  show ?thesis using w_or [OF w_and [OF 1 b _ 2, of "''&&''"] _ _ 3, of "[]" "''||''"] by simp
qed




definition quiet_env :: cond_env where
  "quiet_env = \<lparr>Var_Parse = (\<lambda>s d. (None, 1)), Var_Value = (\<lambda>x. None), create = [],
     Dir_FindFile = (\<lambda>x. None), Targ_FindNode = (\<lambda>x. None)\<rparr>"

lemma quiet_arg_loop: "arg_loop quiet_env cp buf \<noteq> None"
  by (induction cp arbitrary: buf) (simp_all add: quiet_env_def)

lemma quiet_arg: "CondGetArg quiet_env line f parens s \<noteq> None"
proof -
  define cp where "cp = (if parens then (let cp = dropWhile (\<lambda>c. c \<noteq> CHR ''('') line in if cp = [] then [] else tl cp) else line)"
  obtain b q where "arg_loop quiet_env (dropWhile is_blank cp) [] = Some (b, q)"
    using quiet_arg_loop [of "dropWhile is_blank cp" "[]"] by auto
  then show ?thesis by (simp add: CondGetArg_def cp_def [symmetric] Let_def)
qed

lemma quiet_default:
  assumes "condDefProc s = CondDoDefined"
  shows "default_token quiet_env d s \<noteq> None"
proof -
  obtain n a r s1 where g: "CondGetArg quiet_env (condExpr s) [] False s = Some (n, a, r, s1)"
    using quiet_arg [of "condExpr s" "[]" False s] by auto
  then show ?thesis using CondGetArg_shorter [OF g] assms by (simp add: default_token_def eval_token_def CondDoDefined_def)
qed

lemma quiet_call:
  assumes "condDefProc s = CondDoDefined" and "\<And>x. p quiet_env x \<noteq> None"
  shows "call_token quiet_env d f p s \<noteq> None"
proof -
  obtain n a r s1 where g: "CondGetArg quiet_env (drop (length f) (condExpr s)) f True s = Some (n, a, r, s1)"
    using quiet_arg [of "drop (length f) (condExpr s)" f True s] by auto
  moreover obtain y where "p quiet_env a = Some y" using assms(2) [of a] by auto
  ultimately show ?thesis using CondGetArg_shorter [OF g] assms(1) quiet_default [of s1 d]
    by (auto simp: call_token_def eval_token_def)
qed

lemma quiet_empty:
  assumes "condDefProc s = CondDoDefined"
  shows "empty_token quiet_env d s \<noteq> None"
proof (cases "drop (length (takeWhile (\<lambda>c. c \<noteq> CHR ''('') (drop 5 (condExpr s)))) (drop 5 (condExpr s)) = []")
  case True
  show ?thesis using quiet_default [OF assms] unfolding empty_token_def Let_def if_P [OF True] .
next
  case False
  then have "5 + length (takeWhile (\<lambda>c. c \<noteq> CHR ''('') (drop 5 (condExpr s))) < length (condExpr s)" by simp
  then show ?thesis unfolding empty_token_def Let_def if_not_P [OF False] by (simp add: quiet_env_def)
qed

lemma quiet_procs: "CondDoDefined quiet_env x \<noteq> None" "CondDoMake quiet_env x \<noteq> None"
  "CondDoExists quiet_env x \<noteq> None" "CondDoTarget quiet_env x \<noteq> None"
  by (simp_all add: CondDoDefined_def CondDoMake_def CondDoExists_def CondDoTarget_def quiet_env_def)

lemma quiet_token: "condDefProc s = CondDoDefined \<Longrightarrow> CondToken quiet_env d s \<noteq> None"
proof -
  assume p: "condDefProc s = CondDoDefined"
  have "word_token quiet_env d s' \<noteq> None" if "condDefProc s' = CondDoDefined" for s'
    unfolding word_token_def Let_def
    by (simp only: quiet_call [of s' CondDoDefined, OF that quiet_procs(1)] quiet_call [of s' CondDoMake, OF that quiet_procs(2)] quiet_call [of s' CondDoExists, OF that quiet_procs(3)]
        quiet_call [of s' CondDoTarget, OF that quiet_procs(4)] quiet_default [OF that] quiet_empty [OF that] not_False_eq_True split: if_split) simp
  moreover have "var_token quiet_env d s' \<noteq> None" for s' by (simp add: var_token_def quiet_env_def)
  ultimately show ?thesis using p by (simp add: CondToken_def Let_def split: list.split)
qed


lemma CondCvtArg_dec:
  assumes "n < 2 ^ 53"
  shows "CondCvtArg (dec n) = Some (Finite (of_nat n))"
proof -
  have "CHR ''x'' \<notin> set (dec n)" using set_dec [of "CHR ''x''" n] by (auto simp: isdigit_def)
  moreover have "CHR ''x'' \<in> set (dec n)" if "take 2 (dec n) = ''0x''"
  proof -
    have "CHR ''x'' \<in> set (take 2 (dec n))" by (simp only: that) simp
    then show ?thesis by (rule in_set_takeD)
  qed
  ultimately have "take 2 (dec n) \<noteq> ''0x''" by blast
  then show ?thesis using strtod_dec [OF assms] by (simp add: CondCvtArg_def)
qed

lemma dec_start: "\<not> at_char {CHR 0x22} (dec n)" "\<not> at_char {CHR ''$''} (dec n)" "dropWhile isspace (dec n) = dec n"
  "dropWhile (\<lambda>c. \<not> isspace c) (dec n) = []"
  using set_dec [of _ n] by (cases "dec n"; force simp: at_char_def isdigit_def)+

lemma compare_numbers:
  assumes "m < 2 ^ 53" and "n < 2 ^ 53"
  shows "compare E d (dec m) opr (dec n) True s = Some (num_compare opr (Finite (of_nat m)) (Finite (of_nat n)) (s\<lparr>condExpr := []\<rparr>))"
  using CondCvtArg_dec [OF assms(1)] CondCvtArg_dec [OF assms(2)] by (simp add: compare_def dec_start)

lemma string_loop_plain: "list_all plain_char x \<Longrightarrow> string_loop E d False x buf = Some (buf @ x, [])"
  by (induction x arbitrary: buf) (auto dest: plain_charD)

definition relop_of :: "string \<Rightarrow> relop" where
  "relop_of x = (hd x, tl x = ''='')"

lemma var_token_relop:
  assumes "var_spec E v lhs" and "opr \<in> {''=='', ''!='', ''<'', ''<='', ''>'', ''>=''}" and "condExpr s = v @ '' '' @ opr @ '' '' @ rhs"
    and "dropWhile isspace rhs = rhs" and "rhs \<noteq> []"
  shows "var_token E d s = compare E d lhs (relop_of opr) rhs True (s\<lparr>condExpr := rhs\<rparr>)"
proof -
  have "Var_Parse E (condExpr s) d = (Some lhs, length v)" using assms(1,3) by (simp add: var_spec_def)
  moreover obtain c e where c: "opr = c # e" "c = CHR ''='' \<or> c = CHR ''!'' \<or> c = CHR ''<'' \<or> c = CHR ''>''" "e = [] \<or> e = ''=''"
    using assms(2) by blast
  moreover have "\<not> isspace c" using c(2) by (auto simp: isspace_def)
  ultimately show ?thesis using assms(4,5)
    by (cases "e = []") (auto simp: var_token_def assms(3) Let_def at_char_def relop_of_def simp del: dropWhile_eq_Nil_conv)
qed

text \<open>
  a comparison of a variable with a number at the end of the line compares numbers, not texts: with
  two natural numbers below \<open>2 ^ 53\<close> in decimal every operator gives what it says.
\<close>
theorem cond_compare_numbers:
  assumes "var_spec E v (dec m)" and "m < 2 ^ 53" and "n < 2 ^ 53" and "condPushBack s = NoneT"
    and "condExpr s = v @ '' '' @ opr @ '' '' @ dec n"
    and "map_of [(''=='', m = n), (''!='', m \<noteq> n), (''<'', m < n), (''<='', m \<le> n), (''>'', m > n), (''>='', m \<ge> n)] opr = Some b"
  shows "CondToken E d s = Some (truth b, s\<lparr>condExpr := []\<rparr>)"
proof -
  have opr: "opr \<in> {''=='', ''!='', ''<'', ''<='', ''>'', ''>=''}" using assms(6) by (simp split: if_splits)
  have start: "at_char {CHR ''$''} (condExpr s)" using assms(1,5) by (cases v) (auto simp: var_spec_def at_char_def)
  have "CondToken E d s = var_token E d s" using CondToken_var [of "[]" s "condExpr s" E d] assms(4) start by simp
  also have "\<dots> = compare E d (dec m) (relop_of opr) (dec n) True (s\<lparr>condExpr := dec n\<rparr>)"
    by (rule var_token_relop [OF assms(1) opr assms(5)]) (simp_all add: dec_start)
  also have "\<dots> = Some (truth b, s\<lparr>condExpr := []\<rparr>)"
    unfolding compare_numbers [OF assms(2,3)] using assms(6) by (auto simp: num_compare_def relop_of_def truth_def split: if_splits)
  finally show ?thesis .
qed

theorem cond_compare_numbers_witness:
  "CondToken demo_env True (cond_init\<lparr>condExpr := ''$(N) < '' @ dec 12\<rparr>) = Some (TrueT, cond_init)"
proof -
  have "dec 7 = ''7''" by code_simp
  then have "var_spec demo_env ''$(N)'' (dec 7)" by (simp add: var_spec_def demo_env_def at_char_def)
  then show ?thesis
    using cond_compare_numbers [of demo_env "''$(N)''" 7 12 "cond_init\<lparr>condExpr := ''$(N) < '' @ dec 12\<rparr>" "''<''" True True]
    by (simp add: cond_init_def truth_def)
qed

text \<open>
  a variable that is not a number, compared with an unquoted word at the end of the line, leads the
  scanner behind the end of the line: the pointer is set one behind the terminator.
\<close>
theorem cond_unquoted_overrun:
  assumes "var_spec E v lhs" and "CondCvtArg lhs = None" and "plain_name x" and "condPushBack s = NoneT"
    and "condExpr s = v @ '' '' @ opr @ '' '' @ x" and "opr = ''=='' \<or> opr = ''!=''"
  shows "CondToken E d s = None"
proof -
  have start: "at_char {CHR ''$''} (condExpr s)" using assms(1,5) by (cases v) (auto simp: var_spec_def at_char_def)
  have x: "dropWhile isspace x = x" "x \<noteq> []" "\<not> at_char {CHR 0x22} x"
    using assms(3) by (cases x; auto simp: plain_name_def plain_char_def at_char_def)+
  have "string_loop E d False x [] = Some (x, [])"
    using string_loop_plain [of x E d "[]"] assms(3) by (simp add: plain_name_def)
  then have "compare E d lhs (relop_of opr) x True (s\<lparr>condExpr := x\<rparr>) = None"
    using assms(2,6) x(3) by (auto simp: compare_def string_compare_def relop_of_def at_char_def Let_def)
  moreover have "CondToken E d s = var_token E d s" using CondToken_var [of "[]" s "condExpr s" E d] assms(4) start by simp
  moreover have "opr \<in> {''=='', ''!='', ''<'', ''<='', ''>'', ''>=''}" using assms(6) by auto
  ultimately show ?thesis using var_token_relop [OF assms(1) _ assms(5) x(1,2), of d] by simp
qed

theorem cond_unquoted_overrun_witness:
  "CondToken demo_env True (cond_init\<lparr>condExpr := ''$(S) == abc''\<rparr>) = None"
proof -
  have "var_spec demo_env ''$(S)'' ''abc''" by (simp add: var_spec_def demo_env_def at_char_def)
  moreover have "CondCvtArg ''abc'' = None" by code_simp
  moreover have "plain_name ''abc''" by code_simp
  ultimately show ?thesis
    using cond_unquoted_overrun [of demo_env "''$(S)''" "''abc''" "''abc''" "cond_init\<lparr>condExpr := ''$(S) == abc''\<rparr>" "''==''" True]
    by (simp add: cond_init_def)
qed

text \<open>
  malformed expressions that are accepted without a message: a closing parenthesis alone counts as
  false, and the right side of a connective that is not evaluated may be missing. A hexadecimal number
  with a letter has the wrong value: every letter counts as 65.
\<close>
theorem cond_malformed_accepted:
  "map_option fst (eval_expr quiet_env (ifs ! 4) ''if )'' cond_init) = Some (Some False)
   \<and> map_option fst (eval_expr quiet_env (ifs ! 4) ''if defined(X) &&'' cond_init) = Some (Some False)
   \<and> map_option fst (eval_expr quiet_env (ifs ! 4) ''if !defined(X) && '' cond_init) = Some None
   \<and> CondCvtArg ''0x1f'' = Some (Finite 81)"
proof -
  have "map_option fst (eval_expr quiet_env (ifs ! 4) ''if )'' cond_init) = Some (Some False)" by code_simp
  moreover have "map_option fst (eval_expr quiet_env (ifs ! 4) ''if defined(X) &&'' cond_init) = Some (Some False)" by code_simp
  moreover have "map_option fst (eval_expr quiet_env (ifs ! 4) ''if !defined(X) && '' cond_init) = Some None" by code_simp
  moreover have "CondCvtArg ''0x1f'' = Some (Finite 81)" by code_simp
  ultimately show ?thesis by blast
qed


text \<open>
  inside thirty conditionals another one is refused with a fatal message, but the top of the stack has
  moved below the array by then: an \<open>.else\<close> on this conditional reads outside of it.
\<close>
theorem cond_nesting_limit:
  assumes "writes E E_nt e t" and "ifp \<in> set ifs"
    and "cond_value (atom_value E (defProc ifp) (doNot ifp)) e = Some v"
    and "\<not> skipLine s" and "skipIfLevel s = 0" and "condTop s = 0"
  shows "\<exists>s'. Cond_Eval E (''.'' @ form ifp @ '' '' @ t) s = Some (COND_INVALID, s') \<and> condTop s' = -1
    \<and> messages s' = messages s @ [(PARSE_FATAL, ''Too many nested if's. 30 max.'')]
    \<and> Cond_Eval E ''.else'' s' = None"
proof -
  have e: "Cond_Eval E ''.else'' s' = None" if "condTop s' = -1" "skipIfLevel s' = 0" for s'
    using that by (simp add: Cond_Eval_def find_if_def ifs_def stack_top_def MAXIF_def is_blank_def)
  have "Cond_Eval E (''.'' @ form ifp @ '' '' @ t) s = push_value False v
    (s\<lparr>condDefProc := defProc ifp, condInvert := doNot ifp, condExpr := [], condPushBack := NoneT\<rparr>)"
    using Cond_Eval_if [OF assms(1) _ assms(2-4), of "[]"] by simp
  then show ?thesis using assms(5,6) by (simp add: push_value_def Parse_Error_def e)
qed

theorem cond_nesting_limit_witness:
  "\<exists>s'. Cond_Eval demo_env (''.ifdef X'') (cond_init\<lparr>condTop := 0\<rparr>) = Some (COND_INVALID, s') \<and> Cond_Eval demo_env ''.else'' s' = None"
proof -
  have "plain_name ''X'' \<and> \<not> is_function ''X''" by code_simp
  then have w: "writes demo_env E_nt (Atom (Symbol ''X'')) ([] @ ''X'')"
    by (intro w_expr w_factor w_atom t_symbol) simp_all
  show ?thesis
    using cond_nesting_limit [OF w, of "ifs ! 0" True "cond_init\<lparr>condTop := 0\<rparr>"]
    by (auto simp: ifs_def CondDoDefined_def demo_env_def cond_init_def)
qed

end
