(* ===== verification/Make_Read.thy ===== *)
theory Make_Read
  imports Make_Cond
begin

text \<open>
  Reading makefiles (the line reader of \<open>glish/clients/make/parse.c\<close> and \<open>for.c\<close>): lines are joined,
  comments cut off and conditional sections skipped, and the body of a loop is read once for each word.
  The current input is the list of characters still to be read, whether it is a file or a string; the
  inputs around it are the stack \<open>include_stack\<close> (\<open>includes\<close> in the source). A call that does not return, or reads outside of a line, is
  \<open>None\<close>.
\<close>

section \<open>State\<close>

record IFile =
  if_fname :: string
  if_lineno :: nat
  if_text :: string

record reader =
  fname :: string
  lineno :: nat
  cur :: string
  include_stack :: "IFile list"
  conds :: cond
  forLevel :: nat
  forVar :: "string option"
  forBuf :: "string option"
  forLst :: "string list option"

text \<open>
  What the reader asks of the variables: the conditions, the substitution of all variables in a text, and
  the substitution of one variable by a value.
\<close>

record read_env =
  cenv :: cond_env
  Var_Subst :: "string \<Rightarrow> string"
  For_Subst :: "string \<Rightarrow> string \<Rightarrow> string \<Rightarrow> string"

definition read_error :: "parse_level \<Rightarrow> string \<Rightarrow> reader \<Rightarrow> reader" where
  "read_error level msg r = r\<lparr>conds := Parse_Error level msg (conds r)\<rparr>"

definition ParseReadc :: "reader \<Rightarrow> char option \<times> reader" where
  "ParseReadc r = (case cur r of [] \<Rightarrow> (None, r) | c # s \<Rightarrow> (Some c, r\<lparr>cur := s\<rparr>))"

definition ParseUnreadc :: "char \<Rightarrow> reader \<Rightarrow> reader" where
  "ParseUnreadc c r = r\<lparr>cur := c # cur r\<rparr>"

definition Parse_FromString :: "string \<Rightarrow> reader \<Rightarrow> reader" where
  "Parse_FromString str r =
     r\<lparr>include_stack := \<lparr>if_fname = fname r, if_lineno = lineno r, if_text = cur r\<rparr> # include_stack r, cur := str, lineno := 0\<rparr>"

definition ParseEOF :: "reader \<Rightarrow> bool \<times> reader" where
  "ParseEOF r = (case include_stack r of
     [] \<Rightarrow> (False, r)
   | f # fs \<Rightarrow> (True, r\<lparr>include_stack := fs, fname := if_fname f, lineno := if_lineno f, cur := if_text f\<rparr>))"

section \<open>Skipping lines\<close>

text \<open>To the next newline that no backslash precedes; the count of lines.\<close>

fun skip_newline :: "char \<Rightarrow> string \<Rightarrow> nat \<Rightarrow> string \<times> nat" where
  "skip_newline lastc [] n = ([], n + 1)"
| "skip_newline lastc (c # s) n =
    (if c = newline \<and> lastc \<noteq> backslash then (s, n + 1)
     else skip_newline c s (if c = newline then n + 1 else n))"

lemma skip_newline_length: "length (fst (skip_newline l s n)) \<le> length s"
  by (induction l s n rule: skip_newline.induct) auto

lemma skip_newline_shorter: "s \<noteq> [] \<Longrightarrow> length (fst (skip_newline l s n)) < length s"
  using skip_newline_length by (cases s) (auto simp: less_Suc_eq_le)

function skip_lines :: "string \<Rightarrow> nat \<Rightarrow> string \<times> nat" where
  "skip_lines s n =
    (if s = [] \<or> hd s = CHR ''.'' then (s, n)
     else let (s', n') = skip_newline NUL s n in skip_lines s' n')"
  by pat_completeness auto
termination
proof (relation "measure (\<lambda>(s, n). length s)", goal_cases)
  case (2 s n x s' n')
  then show ?case using skip_newline_shorter [of s NUL n] by (cases "skip_newline NUL s n") auto
qed simp

declare skip_lines.simps [simp del]

definition ParseSkipLine :: "bool \<Rightarrow> reader \<Rightarrow> string option \<times> reader" where
  "ParseSkipLine skip r =
    (let (s, n) = (if skip then skip_lines (cur r) (lineno r) else (cur r, lineno r));
         r = r\<lparr>cur := s, lineno := n\<rparr>
     in if s = [] then (None, read_error PARSE_FATAL ''Unclosed conditional/for loop'' r)
        else (Some (takeWhile (\<lambda>c. c \<noteq> newline) s), r\<lparr>cur := drop 1 (dropWhile (\<lambda>c. c \<noteq> newline) s), lineno := n + 1\<rparr>))"

section \<open>Reading one line\<close>

record line_state =
  ls_buf :: string
  ls_lastc :: char
  ls_semiNL :: bool
  ls_ignDepOp :: bool
  ls_ignComment :: bool

text \<open>The character \<open>c\<close>, which is no newline, is copied: the one before it goes into the buffer.\<close>

definition copy_char :: "char \<Rightarrow> line_state \<Rightarrow> line_state" where
  "copy_char c ls = ls\<lparr>ls_buf := ls_buf ls @ [ls_lastc ls], ls_lastc := c\<rparr>"

definition is_comment :: "char \<Rightarrow> line_state \<Rightarrow> bool" where
  "is_comment c ls \<longleftrightarrow> c = CHR ''#'' \<and> \<not> ls_ignComment ls \<and> ls_lastc ls \<noteq> backslash"

definition mark_char :: "char \<Rightarrow> line_state \<Rightarrow> line_state" where
  "mark_char c ls =
    (if c = CHR ''='' then
       if \<not> ls_semiNL ls then ls\<lparr>ls_ignDepOp := True\<rparr>
       else if ls_lastc ls = CHR '':'' \<or> ls_lastc ls = CHR ''!'' then ls\<lparr>ls_ignDepOp := True, ls_semiNL := False\<rparr>
       else ls
     else if (c = CHR '':'' \<or> c = CHR ''!'') \<and> \<not> ls_ignDepOp ls then ls\<lparr>ls_semiNL := True\<rparr>
     else ls)"

text \<open>The state of the line, the rest of the input and the number of newlines joined.\<close>

function read_loop :: "string \<Rightarrow> line_state \<Rightarrow> nat \<Rightarrow> line_state \<times> string \<times> nat" where
  "read_loop [] ls n = (ls, [], n)"
| "read_loop (c # s) ls n =
    (if c = newline then
       if ls_lastc ls \<noteq> backslash then (ls, s, n)
       else
         let ls = ls\<lparr>ls_lastc := CHR '' ''\<rparr>; s = dropWhile is_blank s
         in if s = [] then (ls, s, n + 1)
            else if hd s = newline then (ls, tl s, n + 1)
            else read_loop s ls (n + 1)
     else if c = CHR '';'' \<and> ls_semiNL ls then (ls, CHR 0x09 # s, n)
     else if is_comment c ls then (ls, drop 1 (dropWhile (\<lambda>c. c \<noteq> newline) s), n)
     else if c = CHR ''#'' \<and> \<not> ls_ignComment ls then read_loop s (ls\<lparr>ls_lastc := c\<rparr>) n
     else read_loop s (copy_char c (mark_char c ls)) n)"
  by pat_completeness auto
termination
  by (relation "measure (\<lambda>(s, ls, n). length s)") (auto simp: less_Suc_eq_le)

text \<open>The characters before the line proper: newlines are dropped, a tab starts a command.\<close>

definition read_chars :: "reader \<Rightarrow> string option \<times> reader" where
  "read_chars r =
    (let s = dropWhile (\<lambda>c. c = newline) (cur r); n = lineno r + (length (cur r) - length s)
     in case s of
          [] \<Rightarrow> (None, r\<lparr>cur := [], lineno := n\<rparr>)
        | c # s' \<Rightarrow>
            let cmd = (c = CHR 0x09);
                (ls, rest, k) = read_loop (if c = CHR ''#'' then s else s')
                  \<lparr>ls_buf = [], ls_lastc = c, ls_semiNL = False, ls_ignDepOp = cmd, ls_ignComment = cmd\<rparr> 0
            in (Some (ls_buf ls @ (if ls_lastc ls \<noteq> NUL then [ls_lastc ls] else [])),
                r\<lparr>cur := rest, lineno := n + k + 1\<rparr>))"

section \<open>Loops\<close>

fun for_words :: "string \<Rightarrow> string \<Rightarrow> string list" where
  "for_words wrd [] = (if wrd \<noteq> [] then [wrd] else [])"
| "for_words wrd (c # s) =
    (if isspace c then wrd # for_words [] (dropWhile isspace s) else for_words (wrd @ [c]) s)"

definition For_Eval :: "read_env \<Rightarrow> string \<Rightarrow> reader \<Rightarrow> bool \<times> reader" where
  "For_Eval E line r =
    (if forLevel r = 0 then
       let ptr = dropWhile isspace (drop 1 line)
       in if take 3 ptr \<noteq> ''for'' \<or> (case drop 3 ptr of [] \<Rightarrow> True | c # _ \<Rightarrow> \<not> isspace c) then (False, r)
          else
            let ptr = dropWhile isspace (drop 3 ptr);
                wrd = takeWhile (\<lambda>c. \<not> isspace c) ptr;
                ptr = dropWhile isspace (dropWhile (\<lambda>c. \<not> isspace c) ptr);
                r = r\<lparr>forVar := Some wrd\<rparr>
            in if wrd = [] then (False, read_error PARSE_FATAL ''missing variable in for'' r)
               else if take 2 ptr \<noteq> ''in'' \<or> (case drop 2 ptr of [] \<Rightarrow> True | c # _ \<Rightarrow> \<not> isspace c)
               then (False, read_error PARSE_FATAL ''missing `in' in for'' r)
               else
                 let sub = Var_Subst E (dropWhile isspace (drop 3 ptr))
                 in (True, r\<lparr>forLst := Some (for_words [] (dropWhile isspace sub)), forBuf := Some [], forLevel := 1\<rparr>)
     else
       let ptr = dropWhile isspace (drop 1 line);
           dot = (take 1 line = ''.'');
           level = (if dot \<and> take 6 ptr = ''endfor'' \<and> (case drop 6 ptr of [] \<Rightarrow> True | c # _ \<Rightarrow> isspace c) then forLevel r - 1
                    else if dot \<and> take 3 ptr = ''for'' \<and> (case drop 3 ptr of [] \<Rightarrow> False | c # _ \<Rightarrow> isspace c) then forLevel r + 1
                    else forLevel r);
           r = r\<lparr>forLevel := level\<rparr>
       in if level \<noteq> 0 then (True, r\<lparr>forBuf := map_option (\<lambda>b. b @ line @ [newline]) (forBuf r)\<rparr>) else (False, r))"

definition ForExec :: "read_env \<Rightarrow> string \<Rightarrow> string \<Rightarrow> string \<Rightarrow> reader \<Rightarrow> reader" where
  "ForExec E var buf name r = Parse_FromString (For_Subst E var name buf) r"

definition For_Run :: "read_env \<Rightarrow> reader \<Rightarrow> reader" where
  "For_Run E r = (case (forVar r, forBuf r, forLst r) of
     (Some var, Some buf, Some lst) \<Rightarrow>
       fold (ForExec E var buf) lst (r\<lparr>forVar := None, forBuf := None, forLst := None\<rparr>)
   | _ \<Rightarrow> r)"

section \<open>Lines, conditionals and loops\<close>

definition cond_line :: "read_env \<Rightarrow> string \<Rightarrow> reader \<Rightarrow> (cond_result \<times> reader) option" where
  "cond_line E line r = map_option (\<lambda>(c, s). (c, r\<lparr>conds := s\<rparr>)) (Cond_Eval (cenv E) line (conds r))"

text \<open>The loop that skips to a conditional which goes on; false at the end of the input.\<close>

partial_function (option) skip_section :: "read_env \<Rightarrow> reader \<Rightarrow> (bool \<times> reader) option" where
  "skip_section E r = (case ParseSkipLine True r of
     (None, r) \<Rightarrow> Some (False, r)
   | (Some line, r) \<Rightarrow> do {
       (c, r) \<leftarrow> cond_line E line r;
       if c = COND_PARSE then Some (True, r) else skip_section E r })"

text \<open>The loop that collects the body of a for loop; false at the end of the input.\<close>

partial_function (option) collect_body :: "read_env \<Rightarrow> reader \<Rightarrow> (bool \<times> reader) option" where
  "collect_body E r = (case ParseSkipLine False r of
     (None, r) \<Rightarrow> Some (False, read_error PARSE_FATAL ''Unexpected end of file in for loop.'' r)
   | (Some line, r) \<Rightarrow>
       (case For_Eval E line r of (goes_on, r) \<Rightarrow> if goes_on then collect_body E r else Some (True, r)))"

partial_function (option) ParseReadLine :: "read_env \<Rightarrow> reader \<Rightarrow> (string option \<times> reader) option" where
  "ParseReadLine E r = (case read_chars r of
     (None, r) \<Rightarrow> Some (None, r)
   | (Some line, r) \<Rightarrow>
       if take 1 line \<noteq> ''.'' then Some (Some line, r)
       else do {
         (c, r) \<leftarrow> cond_line E line r;
         if c = COND_SKIP then do {
           (found, r) \<leftarrow> skip_section E r;
           if found then ParseReadLine E r else Some (None, r) }
         else if c = COND_PARSE then ParseReadLine E r
         else
           (case For_Eval E line r of (is_for, r) \<Rightarrow>
              if is_for then do {
                (whole, r) \<leftarrow> collect_body E r;
                ParseReadLine E (if whole then For_Run E r else r) }
              else Some (Some line, r)) })"

text \<open>The lines \<open>Parse_File\<close> gets, the inputs pushed on the way included.\<close>

partial_function (option) file_lines :: "read_env \<Rightarrow> reader \<Rightarrow> (string list \<times> reader) option" where
  "file_lines E r = do {
     (line, r) \<leftarrow> ParseReadLine E r;
     case line of
       Some l \<Rightarrow> do { (ls, r) \<leftarrow> file_lines E r; Some (l # ls, r) }
     | None \<Rightarrow> (case ParseEOF r of (goes_on, r) \<Rightarrow>
         if goes_on then file_lines E r else Some ([], r\<lparr>conds := Cond_End (conds r)\<rparr>)) }"

section \<open>Clean lines\<close>

text \<open>Lines that are read as they stand: no comments, continuations or second commands.\<close>

definition clean_char :: "char \<Rightarrow> bool" where
  "clean_char c \<longleftrightarrow> c \<notin> {newline, CHR ''#'', CHR '';'', backslash, NUL}"

definition clean_line :: "string \<Rightarrow> bool" where
  "clean_line l \<longleftrightarrow> l \<noteq> [] \<and> list_all clean_char l"

definition text_line :: "string \<Rightarrow> bool" where
  "text_line l \<longleftrightarrow> clean_line l \<and> hd l \<noteq> CHR ''.''"

definition unlines :: "string list \<Rightarrow> string" where
  "unlines ls = concat (map (\<lambda>l. l @ [newline]) ls)"

lemma unlines_simps [simp]: "unlines [] = []" "unlines (l # ls) = l @ newline # unlines ls"
  "unlines (ls @ ms) = unlines ls @ unlines ms"
  by (simp_all add: unlines_def)

lemma read_loop_clean:
  "list_all clean_char s \<Longrightarrow> clean_char (ls_lastc ls) \<Longrightarrow>
    \<exists>ls'. read_loop (s @ newline # rest) ls n = (ls', rest, n) \<and> clean_char (ls_lastc ls')
      \<and> ls_buf ls' @ [ls_lastc ls'] = ls_buf ls @ ls_lastc ls # s"
proof (induction s arbitrary: ls)
  case Nil
  then show ?case by (simp add: clean_char_def)
next
  case (Cons c s)
  let ?ls = "copy_char c (mark_char c ls)"
  have buf: "ls_lastc ?ls = c" "ls_buf ?ls = ls_buf ls @ [ls_lastc ls]"
    by (simp_all add: copy_char_def mark_char_def)
  have "c \<noteq> newline" "c \<noteq> CHR '';''" "c \<noteq> CHR ''#''" using Cons.prems(1) by (simp_all add: clean_char_def)
  then have "read_loop ((c # s) @ newline # rest) ls n = read_loop (s @ newline # rest) ?ls n"
    by (simp add: is_comment_def)
  then show ?case using Cons.IH [of ?ls] Cons.prems(1) buf by simp
qed

lemma read_chars_clean:
  assumes "clean_line l" and "cur r = l @ newline # rest"
  shows "read_chars r = (Some l, r\<lparr>cur := rest, lineno := lineno r + 1\<rparr>)"
proof -
  obtain c s where l: "l = c # s" using assms(1) by (cases l) (auto simp: clean_line_def)
  then have c: "clean_char c" "list_all clean_char s" using assms(1) by (simp_all add: clean_line_def)
  then have n: "c \<noteq> newline" "c \<noteq> CHR ''#''" by (simp_all add: clean_char_def)
  define ls where "ls = \<lparr>ls_buf = [], ls_lastc = c, ls_semiNL = False, ls_ignDepOp = (c = CHR 0x09), ls_ignComment = (c = CHR 0x09)\<rparr>"
  obtain ls' where "read_loop (s @ newline # rest) ls 0 = (ls', rest, 0)" "clean_char (ls_lastc ls')"
    "ls_buf ls' @ [ls_lastc ls'] = c # s"
    using read_loop_clean [OF c(2), of ls rest 0] c(1) by (auto simp: ls_def)
  then show ?thesis using n assms(2) by (simp add: read_chars_def l ls_def [symmetric] clean_char_def)
qed

lemma skip_newline_clean:
  "list_all clean_char l \<Longrightarrow> c \<noteq> backslash \<Longrightarrow> skip_newline c (l @ newline # rest) n = (rest, n + 1)"
  by (induction l arbitrary: c) (auto simp: clean_char_def)

lemma skip_lines_text:
  assumes "text_line l"
  shows "skip_lines (l @ newline # rest) n = skip_lines rest (n + 1)"
  using assms skip_newline_clean [of l NUL rest n]
  by (subst skip_lines.simps) (auto simp: text_line_def clean_line_def NUL_def backslash_def)

lemma skip_section_text:
  assumes "text_line l"
  shows "skip_section E (r\<lparr>cur := l @ newline # rest\<rparr>) = skip_section E (r\<lparr>cur := rest, lineno := lineno r + 1\<rparr>)"
  using skip_lines_text [OF assms, of rest "lineno r"]
  by (subst (1 2) skip_section.simps) (simp add: ParseSkipLine_def)

text \<open>A line of the skipped part that starts with a period.\<close>

lemma skip_section_dot:
  assumes "list_all clean_char l"
  shows "skip_section E (r\<lparr>cur := (CHR ''.'' # l) @ newline # rest\<rparr>) = do {
    (c, r) \<leftarrow> cond_line E (CHR ''.'' # l) (r\<lparr>cur := rest, lineno := lineno r + 1\<rparr>);
    if c = COND_PARSE then Some (True, r) else skip_section E r }"
proof -
  have l: "\<forall>c \<in> set l. c \<noteq> newline" using assms by (auto simp: list_all_iff clean_char_def)
  then have "takeWhile (\<lambda>c. c \<noteq> newline) (l @ newline # rest) = l" "dropWhile (\<lambda>c. c \<noteq> newline) (l @ newline # rest) = newline # rest"
    by simp_all
  then show ?thesis
    by (subst skip_section.simps) (simp add: ParseSkipLine_def skip_lines.simps newline_def)
qed

lemma ParseReadLine_text:
  assumes "text_line l"
  shows "ParseReadLine E (r\<lparr>cur := l @ newline # rest\<rparr>) = Some (Some l, r\<lparr>cur := rest, lineno := lineno r + 1\<rparr>)"
  using assms read_chars_clean [of l "r\<lparr>cur := l @ newline # rest\<rparr>" rest]
  by (subst ParseReadLine.simps) (cases l, auto simp: text_line_def clean_line_def)

lemma ParseReadLine_dot:
  assumes "list_all clean_char l"
  shows "ParseReadLine E (r\<lparr>cur := (CHR ''.'' # l) @ newline # rest\<rparr>) = do {
    (c, r) \<leftarrow> cond_line E (CHR ''.'' # l) (r\<lparr>cur := rest, lineno := lineno r + 1\<rparr>);
    if c = COND_SKIP then do {
      (found, r) \<leftarrow> skip_section E r;
      if found then ParseReadLine E r else Some (None, r) }
    else if c = COND_PARSE then ParseReadLine E r
    else case For_Eval E (CHR ''.'' # l) r of (is_for, r) \<Rightarrow>
      if is_for then do {
        (whole, r) \<leftarrow> collect_body E r;
        ParseReadLine E (if whole then For_Run E r else r) }
      else Some (Some (CHR ''.'' # l), r) }"
proof -
  have "clean_char CHR ''.''" by (simp add: clean_char_def newline_def backslash_def NUL_def)
  then have "read_chars (r\<lparr>cur := (CHR ''.'' # l) @ newline # rest\<rparr>) = (Some (CHR ''.'' # l), r\<lparr>cur := rest, lineno := lineno r + 1\<rparr>)"
    using read_chars_clean [of "CHR ''.'' # l" "r\<lparr>cur := (CHR ''.'' # l) @ newline # rest\<rparr>" rest] assms by (simp add: clean_line_def)
  then show ?thesis by (subst ParseReadLine.simps) simp
qed


section \<open>The lines of conditionals\<close>

type_synonym cnd = "If \<times> bexp \<times> string"

definition if_line :: "cnd \<Rightarrow> string" where
  "if_line c = (case c of (ifp, e, t) \<Rightarrow> ''.'' @ form ifp @ '' '' @ t)"

definition elif_line :: "cnd \<Rightarrow> string" where
  "elif_line c = (case c of (ifp, e, t) \<Rightarrow> ''.el'' @ form ifp @ '' '' @ t)"

definition clean_cond :: "cnd \<Rightarrow> bool" where
  "clean_cond c \<longleftrightarrow> (case c of (ifp, e, t) \<Rightarrow> ifp \<in> set ifs \<and> list_all clean_char t)"

definition cond_val :: "cond_env \<Rightarrow> cnd \<Rightarrow> bool option" where
  "cond_val E c = (case c of (ifp, e, t) \<Rightarrow> cond_value (atom_value E (defProc ifp) (doNot ifp)) e)"

text \<open>A condition that can be evaluated.\<close>

definition good_cond :: "cond_env \<Rightarrow> cnd \<Rightarrow> bool" where
  "good_cond E c \<longleftrightarrow> (case c of (ifp, e, t) \<Rightarrow> writes E E_nt e t) \<and> cond_val E c \<noteq> None"

definition holds :: "cond_env \<Rightarrow> cnd \<Rightarrow> bool" where
  "holds E c \<longleftrightarrow> cond_val E c = Some True"

definition scanned :: "cnd \<Rightarrow> cond \<Rightarrow> cond" where
  "scanned c s = (case c of (ifp, e, t) \<Rightarrow>
     s\<lparr>condDefProc := defProc ifp, condInvert := doNot ifp, condExpr := [], condPushBack := NoneT\<rparr>)"

lemma scanned_simps [simp]: "condStack (scanned c s) = condStack s" "condTop (scanned c s) = condTop s"
  "skipIfLevel (scanned c s) = skipIfLevel s" "skipLine (scanned c s) = skipLine s" "messages (scanned c s) = messages s"
  "stack_top (scanned c s) = stack_top s"
  by (simp_all add: scanned_def stack_top_def split: prod.split)

lemma good_cond_val: "good_cond E c \<Longrightarrow> cond_val E c = Some (holds E c)"
  by (auto simp: good_cond_def holds_def)

lemma eval_if_line:
  assumes "clean_cond c" and "good_cond E c" and "\<not> skipLine s"
  shows "Cond_Eval E (if_line c) s = push_value False (holds E c) (scanned c s)"
proof -
  obtain ifp e t where c: "c = (ifp, e, t)" by (cases c)
  show ?thesis using Cond_Eval_if [of E e t "[]" ifp "holds E c" s] assms good_cond_val [OF assms(2)]
    by (simp add: c if_line_def scanned_def clean_cond_def good_cond_def cond_val_def)
qed

lemma eval_if_line_skipped:
  assumes "clean_cond c" and "skipLine s"
  shows "Cond_Eval E (if_line c) s = Some (COND_SKIP, s\<lparr>skipIfLevel := skipIfLevel s + 1\<rparr>)"
proof -
  obtain ifp e t where c: "c = (ifp, e, t)" by (cases c)
  have i: "ifp \<in> set ifs" using assms(1) by (simp add: c clean_cond_def)
  obtain u where u: "form ifp @ CHR '' '' # t = ''if'' @ u" using if_form_start [OF i] by blast
  then have "dropWhile is_blank (form ifp @ CHR '' '' # t) = form ifp @ CHR '' '' # t" by (simp add: is_blank_def)
  moreover have "take 2 (form ifp @ CHR '' '' # t) \<noteq> ''el''" "take 5 (form ifp @ CHR '' '' # t) \<noteq> ''endif''"
    by (simp_all add: u)
  ultimately show ?thesis using assms(2) by (simp add: Cond_Eval_def c if_line_def find_if_form [OF i])
qed

lemma eval_elif_line:
  assumes "clean_cond c" and "good_cond E c" and "condTop s \<noteq> int MAXIF" and "skipIfLevel s = 0"
  shows "Cond_Eval E (elif_line c) s = push_value True (holds E c) (scanned c s)"
proof -
  obtain ifp e t where c: "c = (ifp, e, t)" by (cases c)
  have i: "ifp \<in> set ifs" and w: "writes E E_nt e t" using assms(1,2) by (simp_all add: c clean_cond_def good_cond_def)
  have "cond_value (atom_value E (defProc ifp) (doNot ifp)) e = Some (holds E c)"
    using good_cond_val [OF assms(2)] by (simp add: c cond_val_def)
  then have "eval_expr E ifp (form ifp @ t) s = Some (Some (holds E c), scanned c s)"
    using eval_expr_writes [OF w, of "[]" ifp "holds E c" s] by (simp add: c scanned_def)
  then show ?thesis using assms(3,4)
    by (simp add: Cond_Eval_def c elif_line_def find_if_form [OF i] eval_expr_blank is_blank_def)
qed

lemma eval_elif_line_skipped:
  assumes "clean_cond c" and "condTop s \<noteq> int MAXIF" and "skipIfLevel s \<noteq> 0"
  shows "Cond_Eval E (elif_line c) s = Some (COND_SKIP, s)"
proof -
  obtain ifp e t where c: "c = (ifp, e, t)" by (cases c)
  have i: "ifp \<in> set ifs" using assms(1) by (simp add: c clean_cond_def)
  show ?thesis using assms(2,3) by (simp add: Cond_Eval_def c elif_line_def find_if_form [OF i] is_blank_def)
qed

lemma eval_else:
  "condTop s \<noteq> int MAXIF \<Longrightarrow> skipIfLevel s = 0 \<Longrightarrow> Cond_Eval E ''.else'' s = do { v \<leftarrow> stack_top s; push_value True (\<not> v) s }"
  "condTop s \<noteq> int MAXIF \<Longrightarrow> skipIfLevel s \<noteq> 0 \<Longrightarrow> Cond_Eval E ''.else'' s = Some (COND_SKIP, s)"
  by (simp_all add: Cond_Eval_def find_if_def ifs_def is_blank_def)

lemma eval_endif:
  "condTop s \<noteq> int MAXIF \<Longrightarrow> skipIfLevel s = 0 \<Longrightarrow>
    Cond_Eval E ''.endif'' s = Some (COND_PARSE, s\<lparr>skipLine := False, condTop := condTop s + 1\<rparr>)"
  "skipIfLevel s \<noteq> 0 \<Longrightarrow> Cond_Eval E ''.endif'' s = Some (COND_SKIP, s\<lparr>skipIfLevel := skipIfLevel s - 1\<rparr>)"
  by (simp_all add: Cond_Eval_def is_blank_def)

lemma push_value_else:
  "skipIfLevel s = 0 \<Longrightarrow> stack_top s = Some True \<Longrightarrow> push_value True v s = Some (COND_SKIP, s\<lparr>skipLine := True\<rparr>)"
  "skipIfLevel s = 0 \<Longrightarrow> stack_top s = Some False \<Longrightarrow> push_value True v s = Some (if v then COND_PARSE else COND_SKIP,
     s\<lparr>condStack := (condStack s)[nat (condTop s) := v], skipLine := \<not> v\<rparr>)"
  by (auto simp: push_value_def stack_top_def split: if_splits)

section \<open>Structured makefiles\<close>

text \<open>
  The lines of a makefile as blocks: a line of text, or a conditional with its first branch, the branches
  that follow and what comes after its end.
\<close>

datatype blocks = Done | Plain string blocks | Cond cnd blocks "tail" blocks
and "tail" = Endif | Else blocks | Elif cnd blocks "tail"

primrec block_lines :: "blocks \<Rightarrow> string list" and tail_lines :: "tail \<Rightarrow> string list" where
  "block_lines Done = []"
| "block_lines (Plain l b) = l # block_lines b"
| "block_lines (Cond c b t k) = if_line c # block_lines b @ tail_lines t @ block_lines k"
| "tail_lines Endif = [''.endif'']"
| "tail_lines (Else b) = ''.else'' # block_lines b @ [''.endif'']"
| "tail_lines (Elif c b t) = elif_line c # block_lines b @ tail_lines t"

text \<open>The lines that are left when the conditions are evaluated: at most one branch of each conditional.\<close>

primrec selected :: "cond_env \<Rightarrow> blocks \<Rightarrow> string list" and tail_selected :: "cond_env \<Rightarrow> tail \<Rightarrow> string list" where
  "selected E Done = []"
| "selected E (Plain l b) = l # selected E b"
| "selected E (Cond c b t k) = (if holds E c then selected E b else tail_selected E t) @ selected E k"
| "tail_selected E Endif = []"
| "tail_selected E (Else b) = selected E b"
| "tail_selected E (Elif c b t) = (if holds E c then selected E b else tail_selected E t)"

primrec block_clean :: "blocks \<Rightarrow> bool" and tail_clean :: "tail \<Rightarrow> bool" where
  "block_clean Done = True"
| "block_clean (Plain l b) = (text_line l \<and> block_clean b)"
| "block_clean (Cond c b t k) = (clean_cond c \<and> block_clean b \<and> tail_clean t \<and> block_clean k)"
| "tail_clean Endif = True"
| "tail_clean (Else b) = block_clean b"
| "tail_clean (Elif c b t) = (clean_cond c \<and> block_clean b \<and> tail_clean t)"

text \<open>
  The conditions that are evaluated are good: not those in skipped branches, but the condition of a branch
  that follows the one taken is evaluated as well.
\<close>

primrec block_good :: "cond_env \<Rightarrow> blocks \<Rightarrow> bool" and tail_good :: "cond_env \<Rightarrow> bool \<Rightarrow> tail \<Rightarrow> bool" where
  "block_good E Done = True"
| "block_good E (Plain l b) = block_good E b"
| "block_good E (Cond c b t k) = (good_cond E c \<and> (holds E c \<longrightarrow> block_good E b) \<and> tail_good E (holds E c) t \<and> block_good E k)"
| "tail_good E taken Endif = True"
| "tail_good E taken (Else b) = (taken \<or> block_good E b)"
| "tail_good E taken (Elif c b t) =
    (good_cond E c \<and> (\<not> taken \<and> holds E c \<longrightarrow> block_good E b) \<and> tail_good E (taken \<or> holds E c) t)"

primrec block_depth :: "blocks \<Rightarrow> nat" and tail_depth :: "tail \<Rightarrow> nat" where
  "block_depth Done = 0"
| "block_depth (Plain l b) = block_depth b"
| "block_depth (Cond c b t k) = max (Suc (max (block_depth b) (tail_depth t))) (block_depth k)"
| "tail_depth Endif = 0"
| "tail_depth (Else b) = block_depth b"
| "tail_depth (Elif c b t) = max (block_depth b) (tail_depth t)"


section \<open>Skipping\<close>

definition at_state :: "string \<Rightarrow> nat \<Rightarrow> cond \<Rightarrow> reader \<Rightarrow> reader" where
  "at_state s n cs r = r\<lparr>cur := s, lineno := n, conds := cs\<rparr>"

lemma at_state_simps [simp]:
  "cur (at_state s n cs r) = s" "lineno (at_state s n cs r) = n" "conds (at_state s n cs r) = cs"
  "(at_state s n cs r)\<lparr>cur := s'\<rparr> = at_state s' n cs r" "(at_state s n cs r)\<lparr>lineno := n'\<rparr> = at_state s n' cs r"
  "(at_state s n cs r)\<lparr>conds := cs'\<rparr> = at_state s n cs' r"
  by (cases r, simp add: at_state_def)+

lemma clean_period_lines:
  assumes "clean_cond c"
  shows "\<exists>l. if_line c = CHR ''.'' # l \<and> list_all clean_char l" and "\<exists>l. elif_line c = CHR ''.'' # l \<and> list_all clean_char l"
proof -
  obtain ifp e t where c: "c = (ifp, e, t)" by (cases c)
  have i: "ifp \<in> set ifs" and t: "list_all clean_char t" using assms by (simp_all add: c clean_cond_def)
  have "list_all clean_char (form ifp)"
    using i by (cases rule: ifs_cases) (simp_all add: clean_char_def newline_def backslash_def NUL_def)
  moreover have "list_all clean_char '' ''" "list_all clean_char ''el''"
    by (simp_all add: clean_char_def newline_def backslash_def NUL_def)
  ultimately show "\<exists>l. if_line c = CHR ''.'' # l \<and> list_all clean_char l" "\<exists>l. elif_line c = CHR ''.'' # l \<and> list_all clean_char l"
    using t by (simp_all add: c if_line_def elif_line_def)
qed

lemma clean_words: "list_all clean_char ''else''" "list_all clean_char ''endif''"
  by (simp_all add: clean_char_def newline_def backslash_def NUL_def)

lemma skip_step:
  assumes "list_all clean_char l" and "Cond_Eval (cenv E) (CHR ''.'' # l) cs = Some (c, cs')"
  shows "skip_section E (at_state ((CHR ''.'' # l) @ newline # rest) n cs r)
    = (if c = COND_PARSE then Some (True, at_state rest (n + 1) cs' r) else skip_section E (at_state rest (n + 1) cs' r))"
  using skip_section_dot [OF assms(1), of E rest "at_state ((CHR ''.'' # l) @ newline # rest) n cs r"] assms(2)
  by (simp add: cond_line_def)

lemma skip_text:
  assumes "text_line l"
  shows "skip_section E (at_state (l @ newline # rest) n cs r) = skip_section E (at_state rest (n + 1) cs r)"
  using skip_section_text [OF assms, of E rest "at_state (l @ newline # rest) n cs r"] by simp

lemma skip_blocks:
  "block_clean b \<Longrightarrow> skipLine cs \<Longrightarrow> condTop cs \<noteq> int MAXIF \<Longrightarrow>
    \<exists>n'. skip_section E (at_state (unlines (block_lines b) @ rest) n cs r) = skip_section E (at_state rest n' cs r)"
  "tail_clean t \<Longrightarrow> skipLine cs \<Longrightarrow> condTop cs \<noteq> int MAXIF \<Longrightarrow>
    \<exists>n'. skip_section E (at_state (unlines (tail_lines t) @ rest) n (cs\<lparr>skipIfLevel := skipIfLevel cs + 1\<rparr>) r)
      = skip_section E (at_state rest n' cs r)"
proof (induction b and t arbitrary: rest n cs and rest n cs)
  case Done
  then show ?case by auto
next
  case (Plain l b)
  then show ?case using skip_text [of l E "unlines (block_lines b) @ rest" n cs r] by simp
next
  case (Cond c b t k)
  obtain l where l: "if_line c = CHR ''.'' # l" "list_all clean_char l" using clean_period_lines(1) [of c] Cond.prems(1) by auto
  let ?cs = "cs\<lparr>skipIfLevel := skipIfLevel cs + 1\<rparr>"
  let ?k = "unlines (block_lines k) @ rest"
  obtain n1 where 1: "skip_section E (at_state (unlines (block_lines b) @ unlines (tail_lines t) @ ?k) (n + 1) ?cs r)
      = skip_section E (at_state (unlines (tail_lines t) @ ?k) n1 ?cs r)"
    using Cond.IH(1) [of ?cs "unlines (tail_lines t) @ ?k" "n + 1"] Cond.prems by auto
  obtain n2 where 2: "skip_section E (at_state (unlines (tail_lines t) @ ?k) n1 ?cs r) = skip_section E (at_state ?k n2 cs r)"
    using Cond.IH(2) [of cs ?k n1] Cond.prems by auto
  obtain n3 where 3: "skip_section E (at_state ?k n2 cs r) = skip_section E (at_state rest n3 cs r)"
    using Cond.IH(3) [of cs rest n2] Cond.prems by auto
  have "skip_section E (at_state (unlines (block_lines (Cond c b t k)) @ rest) n cs r)
    = skip_section E (at_state (unlines (block_lines b) @ unlines (tail_lines t) @ ?k) (n + 1) ?cs r)"
    using skip_step [OF l(2), of E cs COND_SKIP ?cs "unlines (block_lines b) @ unlines (tail_lines t) @ ?k" n r]
      eval_if_line_skipped [of c cs "cenv E"] Cond.prems l(1) by simp
  then show ?case using 1 2 3 by auto
next
  case Endif
  show ?case
    using skip_step [OF clean_words(2), of E "cs\<lparr>skipIfLevel := skipIfLevel cs + 1\<rparr>" COND_SKIP cs rest n r]
      eval_endif(2) [of "cs\<lparr>skipIfLevel := skipIfLevel cs + 1\<rparr>" "cenv E"] by auto
next
  case (Else b)
  let ?cs = "cs\<lparr>skipIfLevel := skipIfLevel cs + 1\<rparr>"
  obtain n1 where 1: "skip_section E (at_state (unlines (block_lines b) @ unlines [''.endif''] @ rest) (n + 1) ?cs r)
      = skip_section E (at_state (unlines [''.endif''] @ rest) n1 ?cs r)"
    using Else.IH [of ?cs "unlines [''.endif''] @ rest" "n + 1"] Else.prems by auto
  have 2: "skip_section E (at_state (unlines [''.endif''] @ rest) n1 ?cs r) = skip_section E (at_state rest (n1 + 1) cs r)"
    using skip_step [OF clean_words(2), of E ?cs COND_SKIP cs rest n1 r] eval_endif(2) [of ?cs "cenv E"] by simp
  have "skip_section E (at_state (unlines (tail_lines (Else b)) @ rest) n ?cs r)
    = skip_section E (at_state (unlines (block_lines b) @ unlines [''.endif''] @ rest) (n + 1) ?cs r)"
    using skip_step [OF clean_words(1), of E ?cs COND_SKIP ?cs "unlines (block_lines b) @ unlines [''.endif''] @ rest" n r]
      eval_else(2) [of ?cs "cenv E"] Else.prems by simp
  then show ?case using 1 2 by auto
next
  case (Elif c b t)
  obtain l where l: "elif_line c = CHR ''.'' # l" "list_all clean_char l" using clean_period_lines(2) [of c] Elif.prems(1) by auto
  let ?cs = "cs\<lparr>skipIfLevel := skipIfLevel cs + 1\<rparr>"
  obtain n1 where 1: "skip_section E (at_state (unlines (block_lines b) @ unlines (tail_lines t) @ rest) (n + 1) ?cs r)
      = skip_section E (at_state (unlines (tail_lines t) @ rest) n1 ?cs r)"
    using Elif.IH(1) [of ?cs "unlines (tail_lines t) @ rest" "n + 1"] Elif.prems by auto
  obtain n2 where 2: "skip_section E (at_state (unlines (tail_lines t) @ rest) n1 ?cs r) = skip_section E (at_state rest n2 cs r)"
    using Elif.IH(2) [of cs rest n1] Elif.prems by auto
  have "skip_section E (at_state (unlines (tail_lines (Elif c b t)) @ rest) n ?cs r)
    = skip_section E (at_state (unlines (block_lines b) @ unlines (tail_lines t) @ rest) (n + 1) ?cs r)"
    using skip_step [OF l(2), of E ?cs COND_SKIP ?cs "unlines (block_lines b) @ unlines (tail_lines t) @ rest" n r]
      eval_elif_line_skipped [of c ?cs "cenv E"] Elif.prems l(1) by simp
  then show ?case using 1 2 by auto
qed


section \<open>Selecting lines\<close>

definition active :: "cond \<Rightarrow> bool" where
  "active cs \<longleftrightarrow> \<not> skipLine cs \<and> skipIfLevel cs = 0 \<and> stack_ok cs"

text \<open>Inside a conditional of which some branch has been taken, or none.\<close>

definition in_cond :: "bool \<Rightarrow> cond \<Rightarrow> bool" where
  "in_cond taken cs \<longleftrightarrow> skipIfLevel cs = 0 \<and> stack_ok cs \<and> condTop cs < int MAXIF \<and> stack_top cs = Some taken"

text \<open>The state behind some lines: the stack above the innermost conditional that was open before is as it was.\<close>

definition back_at :: "int \<Rightarrow> cond \<Rightarrow> cond \<Rightarrow> bool" where
  "back_at p cs cs' \<longleftrightarrow> condTop cs' = p \<and> skipIfLevel cs' = 0 \<and> \<not> skipLine cs' \<and> stack_ok cs' \<and> messages cs' = messages cs
     \<and> (\<forall>k. p \<le> int k \<longrightarrow> condStack cs' ! k = condStack cs ! k)"

lemma in_cond_simps [simp]: "in_cond v (scanned c cs) = in_cond v cs" "in_cond v (cs\<lparr>skipLine := b\<rparr>) = in_cond v cs"
  by (simp_all add: in_cond_def stack_ok_def stack_top_def)

lemma in_cond_open: "in_cond v cs \<Longrightarrow> condTop cs \<noteq> int MAXIF \<and> skipIfLevel cs = 0 \<and> 0 \<le> condTop cs"
  by (auto simp: in_cond_def stack_top_def split: if_splits)

lemma endif_back_at: "in_cond v cs \<Longrightarrow> back_at (condTop cs + 1) cs (cs\<lparr>skipLine := False, condTop := condTop cs + 1\<rparr>)"
  by (simp add: in_cond_def back_at_def stack_ok_def)

lemma skip_endif:
  assumes "in_cond v cs"
  shows "skip_section E (at_state (''.endif'' @ newline # rest) n cs r)
    = Some (True, at_state rest (n + 1) (cs\<lparr>skipLine := False, condTop := condTop cs + 1\<rparr>) r)"
  using skip_step [OF clean_words(2), of E cs COND_PARSE] eval_endif(1) [of cs "cenv E"] in_cond_open [OF assms] by simp

lemma else_taken:
  assumes "in_cond True cs"
  shows "Cond_Eval E ''.else'' cs = Some (COND_SKIP, cs\<lparr>skipLine := True\<rparr>)"
  using assms in_cond_open [OF assms] push_value_else(1) [of cs False] by (simp add: eval_else in_cond_def)

lemma elif_taken:
  assumes "in_cond True cs" and "clean_cond c" and "good_cond E c"
  shows "Cond_Eval E (elif_line c) cs = Some (COND_SKIP, (scanned c cs)\<lparr>skipLine := True\<rparr>)"
  using assms in_cond_open [OF assms(1)] push_value_else(1) [of "scanned c cs" "holds E c"]
  by (simp add: eval_elif_line in_cond_def)

lemma scanned_skip [simp]: "scanned c (cs\<lparr>skipLine := b\<rparr>) = (scanned c cs)\<lparr>skipLine := b\<rparr>"
  by (simp add: scanned_def split: prod.split)

lemma skip_taken:
  "(b :: blocks) = b"
  "tail_clean t \<Longrightarrow> tail_good (cenv E) True t \<Longrightarrow> in_cond True cs \<Longrightarrow> skipLine cs \<Longrightarrow>
    \<exists>n' cs'. skip_section E (at_state (unlines (tail_lines t) @ rest) n cs r) = Some (True, at_state rest n' cs' r)
      \<and> back_at (condTop cs + 1) cs cs'"
proof (induction b and t arbitrary: and n cs)
  case Endif
  then show ?case using skip_endif [of True cs E rest n r] endif_back_at [of True cs] by auto
next
  case (Else b)
  obtain n1 where 1: "skip_section E (at_state (unlines (block_lines b) @ ''.endif'' @ newline # rest) (n + 1) cs r)
      = skip_section E (at_state (''.endif'' @ newline # rest) n1 cs r)"
    using skip_blocks(1) [of b cs E "''.endif'' @ newline # rest" "n + 1" r] Else.prems in_cond_open [of True cs] by auto
  have "cs\<lparr>skipLine := True\<rparr> = cs" using Else.prems(4) by simp
  then have "skip_section E (at_state (unlines (tail_lines (Else b)) @ rest) n cs r)
    = skip_section E (at_state (unlines (block_lines b) @ ''.endif'' @ newline # rest) (n + 1) cs r)"
    using skip_step [OF clean_words(1), of E cs COND_SKIP cs "unlines (block_lines b) @ ''.endif'' @ newline # rest" n r]
      else_taken [OF Else.prems(3), of "cenv E"] by simp
  then show ?case using 1 skip_endif [OF Else.prems(3), of E rest n1 r] endif_back_at [OF Else.prems(3)] by auto
next
  case (Elif c b t)
  obtain l where l: "elif_line c = CHR ''.'' # l" "list_all clean_char l" using clean_period_lines(2) [of c] Elif.prems(1) by auto
  let ?cs = "(scanned c cs)\<lparr>skipLine := True\<rparr>"
  obtain n1 where 1: "skip_section E (at_state (unlines (block_lines b) @ unlines (tail_lines t) @ rest) (n + 1) ?cs r)
      = skip_section E (at_state (unlines (tail_lines t) @ rest) n1 ?cs r)"
    using skip_blocks(1) [of b ?cs E "unlines (tail_lines t) @ rest" "n + 1" r] Elif.prems in_cond_open [of True cs] by auto
  have "skip_section E (at_state (unlines (tail_lines (Elif c b t)) @ rest) n cs r)
    = skip_section E (at_state (unlines (block_lines b) @ unlines (tail_lines t) @ rest) (n + 1) ?cs r)"
    using skip_step [OF l(2), of E cs COND_SKIP ?cs "unlines (block_lines b) @ unlines (tail_lines t) @ rest" n r]
      elif_taken [OF Elif.prems(3), of c "cenv E"] Elif.prems(1,2) l(1) by simp
  moreover obtain n' cs' where "skip_section E (at_state (unlines (tail_lines t) @ rest) n1 ?cs r) = Some (True, at_state rest n' cs' r)"
    "back_at (condTop cs + 1) ?cs cs'"
    using Elif.IH(2) [of ?cs n1] Elif.prems by auto
  ultimately show ?case using 1 by (auto simp: back_at_def)
qed simp_all

lemma read_step:
  assumes "list_all clean_char l" and "Cond_Eval (cenv E) (CHR ''.'' # l) cs = Some (c, cs')"
  shows "c = COND_PARSE \<Longrightarrow> ParseReadLine E (at_state ((CHR ''.'' # l) @ newline # rest) n cs r) = ParseReadLine E (at_state rest (n + 1) cs' r)"
    and "c = COND_SKIP \<Longrightarrow> skip_section E (at_state rest (n + 1) cs' r) = Some (True, r1)
      \<Longrightarrow> ParseReadLine E (at_state ((CHR ''.'' # l) @ newline # rest) n cs r) = ParseReadLine E r1"
  using ParseReadLine_dot [OF assms(1), of E rest "at_state ((CHR ''.'' # l) @ newline # rest) n cs r"] assms(2)
  by (simp_all add: cond_line_def)

lemma read_taken:
  assumes "tail_clean t" and "tail_good (cenv E) True t" and "in_cond True cs"
  shows "\<exists>n' cs'. ParseReadLine E (at_state (unlines (tail_lines t) @ rest) n cs r) = ParseReadLine E (at_state rest n' cs' r)
    \<and> back_at (condTop cs + 1) cs cs'"
proof (cases t)
  case Endif
  then show ?thesis
    using read_step(1) [OF clean_words(2), of E cs COND_PARSE] eval_endif(1) [of cs "cenv E"] in_cond_open [OF assms(3)] endif_back_at [OF assms(3)]
    by fastforce
next
  case (Else b)
  obtain n' cs' where "skip_section E (at_state (unlines (tail_lines t) @ rest) n (cs\<lparr>skipLine := True\<rparr>) r) = Some (True, at_state rest n' cs' r)"
    and u: "back_at (condTop cs + 1) (cs\<lparr>skipLine := True\<rparr>) cs'"
    using skip_taken(2) [OF assms(1,2), of "cs\<lparr>skipLine := True\<rparr>" rest n r] assms(3) by auto
  then have "skip_section E (at_state (unlines (block_lines b) @ ''.endif'' @ newline # rest) (n + 1) (cs\<lparr>skipLine := True\<rparr>) r) = Some (True, at_state rest n' cs' r)"
    using skip_step [OF clean_words(1), of E "cs\<lparr>skipLine := True\<rparr>" COND_SKIP "cs\<lparr>skipLine := True\<rparr>" "unlines (block_lines b) @ ''.endif'' @ newline # rest" n r]
      else_taken [of "cs\<lparr>skipLine := True\<rparr>" "cenv E"] assms(3) by (simp add: Else)
  then show ?thesis
    using read_step(2) [OF clean_words(1), of E cs COND_SKIP "cs\<lparr>skipLine := True\<rparr>" "unlines (block_lines b) @ ''.endif'' @ newline # rest" n r]
      else_taken [OF assms(3), of "cenv E"] u by (auto simp: Else back_at_def)
next
  case (Elif c b t')
  obtain l where l: "elif_line c = CHR ''.'' # l" "list_all clean_char l" using clean_period_lines(2) [of c] assms(1) Elif by auto
  let ?cs = "(scanned c cs)\<lparr>skipLine := True\<rparr>"
  obtain n' cs' where "skip_section E (at_state (unlines (tail_lines t) @ rest) n (cs\<lparr>skipLine := True\<rparr>) r) = Some (True, at_state rest n' cs' r)"
    and u: "back_at (condTop cs + 1) (cs\<lparr>skipLine := True\<rparr>) cs'"
    using skip_taken(2) [OF assms(1,2), of "cs\<lparr>skipLine := True\<rparr>" rest n r] assms(3) by auto
  then have "skip_section E (at_state (unlines (block_lines b) @ unlines (tail_lines t') @ rest) (n + 1) ?cs r) = Some (True, at_state rest n' cs' r)"
    using skip_step [OF l(2), of E "cs\<lparr>skipLine := True\<rparr>" COND_SKIP ?cs "unlines (block_lines b) @ unlines (tail_lines t') @ rest" n r]
      elif_taken [of "cs\<lparr>skipLine := True\<rparr>" c "cenv E"] assms l(1) by (simp add: Elif)
  then show ?thesis
    using read_step(2) [OF l(2), of E cs COND_SKIP ?cs "unlines (block_lines b) @ unlines (tail_lines t') @ rest" n r]
      elif_taken [OF assms(3), of c "cenv E"] assms(1,2) l(1) u by (auto simp: Elif back_at_def)
qed


definition prepend :: "string list \<Rightarrow> (string list \<times> reader) option \<Rightarrow> (string list \<times> reader) option" where
  "prepend xs m = map_option (\<lambda>(ys, r). (xs @ ys, r)) m"

lemma prepend_simps [simp]: "prepend [] m = m" "prepend xs (prepend ys m) = prepend (xs @ ys) m"
  "prepend xs (Some (ys, r)) = Some (xs @ ys, r)"
  by (cases m; simp add: prepend_def split: prod.split)+

lemma file_lines_cong: "ParseReadLine E a = ParseReadLine E b \<Longrightarrow> file_lines E a = file_lines E b"
  by (subst (1 2) file_lines.simps) simp

lemma file_lines_text:
  assumes "text_line l"
  shows "file_lines E (at_state (l @ newline # rest) n cs r) = prepend [l] (file_lines E (at_state rest (n + 1) cs r))"
  using ParseReadLine_text [OF assms, of E rest "at_state (l @ newline # rest) n cs r"]
  by (subst file_lines.simps) (cases "file_lines E (at_state rest (n + 1) cs r)"; auto simp: prepend_def)

definition pushed :: "bool \<Rightarrow> cnd \<Rightarrow> cond \<Rightarrow> cond" where
  "pushed v c cs = (scanned c cs)\<lparr>condTop := condTop cs - 1, condStack := (condStack cs)[nat (condTop cs - 1) := v], skipLine := \<not> v\<rparr>"

lemma pushed_state:
  assumes "active cs" and "0 < condTop cs"
  shows "push_value False v (scanned c cs) = Some (if v then COND_PARSE else COND_SKIP, pushed v c cs)"
    and "in_cond v (pushed v c cs)" and "condTop (pushed v c cs) = condTop cs - 1" and "skipLine (pushed v c cs) = (\<not> v)"
    and "messages (pushed v c cs) = messages cs" and "int k \<ge> condTop cs \<Longrightarrow> condStack (pushed v c cs) ! k = condStack cs ! k"
  using assms by (auto simp: pushed_def push_value_def active_def in_cond_def stack_top_def stack_ok_def)

definition branched :: "bool \<Rightarrow> cond \<Rightarrow> cond" where
  "branched v cs = cs\<lparr>condStack := (condStack cs)[nat (condTop cs) := v], skipLine := \<not> v\<rparr>"

lemma branch_state:
  assumes "in_cond False cs"
  shows "push_value True v cs = Some (if v then COND_PARSE else COND_SKIP, branched v cs)"
    and "in_cond v (branched v cs)" and "condTop (branched v cs) = condTop cs" and "skipLine (branched v cs) = (\<not> v)"
    and "messages (branched v cs) = messages cs" and "int k \<ge> condTop cs + 1 \<Longrightarrow> condStack (branched v cs) ! k = condStack cs ! k"
  using assms in_cond_open [OF assms] push_value_else(2) [of cs v]
  by (auto simp: branched_def in_cond_def stack_top_def stack_ok_def)

lemma active_in_cond: "in_cond True cs \<Longrightarrow> \<not> skipLine cs \<Longrightarrow> active cs"
  by (simp add: in_cond_def active_def)

lemma back_at_active: "back_at p cs cs' \<Longrightarrow> active cs'"
  by (simp add: back_at_def active_def)

lemma back_at_in_cond:
  assumes "back_at (condTop cs) cs cs'" and "in_cond v cs"
  shows "in_cond v cs'"
  using assms by (auto simp: back_at_def in_cond_def stack_top_def stack_ok_def split: if_splits)

lemma back_at_trans:
  assumes "back_at p cs cs'" and "back_at q cs' cs''" and "p \<le> q"
  shows "back_at q cs cs''"
  using assms by (auto simp: back_at_def)

lemma back_at_from:
  assumes "back_at q cs1 cs'" and "messages cs1 = messages cs" and "\<And>k. q \<le> int k \<Longrightarrow> condStack cs1 ! k = condStack cs ! k"
  shows "back_at q cs cs'"
  using assms by (auto simp: back_at_def)

text \<open>The lines that are read from a block, and from the branches that follow when none has been taken.\<close>

definition reads_block :: "read_env \<Rightarrow> blocks \<Rightarrow> string list \<Rightarrow> bool" where
  "reads_block E b ls \<longleftrightarrow> (\<forall>rest n cs r. active cs \<and> int (block_depth b) \<le> condTop cs \<longrightarrow>
     (\<exists>n' cs'. file_lines E (at_state (unlines (block_lines b) @ rest) n cs r) = prepend ls (file_lines E (at_state rest n' cs' r))
       \<and> back_at (condTop cs) cs cs'))"

definition reads_tail :: "read_env \<Rightarrow> tail \<Rightarrow> string list \<Rightarrow> bool" where
  "reads_tail E t ls \<longleftrightarrow> (\<forall>rest n cs r. in_cond False cs \<and> skipLine cs \<and> int (tail_depth t) \<le> condTop cs \<longrightarrow>
     (\<exists>r1 n' cs'. skip_section E (at_state (unlines (tail_lines t) @ rest) n cs r) = Some (True, r1)
       \<and> file_lines E r1 = prepend ls (file_lines E (at_state rest n' cs' r)) \<and> back_at (condTop cs + 1) cs cs'))"

lemma reads_blockD:
  assumes "reads_block E b ls" and "active cs" and "int (block_depth b) \<le> condTop cs"
  obtains n' cs' where "file_lines E (at_state (unlines (block_lines b) @ rest) n cs r) = prepend ls (file_lines E (at_state rest n' cs' r))"
    and "back_at (condTop cs) cs cs'"
  using assms unfolding reads_block_def by blast

lemma reads_tailD:
  assumes "reads_tail E t ls" and "in_cond False cs" and "skipLine cs" and "int (tail_depth t) \<le> condTop cs"
  obtains r1 n' cs' where "skip_section E (at_state (unlines (tail_lines t) @ rest) n cs r) = Some (True, r1)"
    and "file_lines E r1 = prepend ls (file_lines E (at_state rest n' cs' r))" and "back_at (condTop cs + 1) cs cs'"
  using assms unfolding reads_tail_def by blast

lemma branch_taken:
  assumes b: "reads_block E b ls" and t: "tail_clean t" "tail_good (cenv E) True t"
    and cs: "in_cond True cs" "\<not> skipLine cs" "int (block_depth b) \<le> condTop cs"
  obtains n' cs' where "file_lines E (at_state (unlines (block_lines b) @ unlines (tail_lines t) @ rest) n cs r)
      = prepend ls (file_lines E (at_state rest n' cs' r))" and "back_at (condTop cs + 1) cs cs'"
proof -
  let ?N = "unlines (tail_lines t) @ rest"
  obtain n2 cs2 where r2: "file_lines E (at_state (unlines (block_lines b) @ ?N) n cs r) = prepend ls (file_lines E (at_state ?N n2 cs2 r))"
    and b2: "back_at (condTop cs) cs cs2"
    by (rule reads_blockD [OF b active_in_cond [OF cs(1,2)] cs(3)])
  obtain n3 cs3 where r3: "ParseReadLine E (at_state ?N n2 cs2 r) = ParseReadLine E (at_state rest n3 cs3 r)"
    and b3: "back_at (condTop cs2 + 1) cs2 cs3"
    using read_taken [OF t back_at_in_cond [OF b2 cs(1)], of rest n2 r] by blast
  have "condTop cs2 = condTop cs" using b2 by (simp add: back_at_def)
  then have "back_at (condTop cs + 1) cs cs3" using back_at_trans [OF b2 b3] by simp
  then show ?thesis using that r2 file_lines_cong [OF r3] by simp
qed

lemma reads_cond:
  assumes c: "clean_cond c" "good_cond (cenv E) c" and t: "tail_clean t" "tail_good (cenv E) (holds (cenv E) c) t"
    and b: "block_clean b" "holds (cenv E) c \<Longrightarrow> reads_block E b ls" "\<not> holds (cenv E) c \<Longrightarrow> reads_tail E t ls"
    and k: "reads_block E k ks"
  shows "reads_block E (Cond c b t k) (ls @ ks)"
  unfolding reads_block_def
proof (intro allI impI, elim conjE)
  fix rest n cs r
  assume cs: "active cs" and dep: "int (block_depth (Cond c b t k)) \<le> condTop cs"
  obtain l where l: "if_line c = CHR ''.'' # l" "list_all clean_char l" using clean_period_lines(1) [OF c(1)] by blast
  have top: "0 < condTop cs" using dep by simp
  have d: "int (block_depth b) \<le> condTop cs - 1" "int (tail_depth t) \<le> condTop cs - 1" "int (block_depth k) \<le> condTop cs"
    using dep by (auto simp: max_def split: if_splits)
  let ?v = "holds (cenv E) c"
  define cs1 where "cs1 = pushed ?v c cs"
  note cs1 = pushed_state [OF cs top, where v = ?v and c = c, folded cs1_def]
  have ev: "Cond_Eval (cenv E) (CHR ''.'' # l) cs = Some (if ?v then COND_PARSE else COND_SKIP, cs1)"
    using eval_if_line [OF c, of cs] cs cs1(1) l(1) by (simp add: active_def)
  define K where "K = unlines (block_lines k) @ rest"
  define BTK where "BTK = unlines (block_lines b) @ unlines (tail_lines t) @ K"
  obtain n3 cs3 where r3: "file_lines E (at_state ((CHR ''.'' # l) @ newline # BTK) n cs r) = prepend ls (file_lines E (at_state K n3 cs3 r))"
    and b3: "back_at (condTop cs1 + 1) cs1 cs3"
  proof (cases ?v)
    case True
    have in1: "in_cond True cs1" "\<not> skipLine cs1" "int (block_depth b) \<le> condTop cs1" "tail_good (cenv E) True t"
      using cs1 d t(2) True by simp_all
    obtain n3 cs3 where "file_lines E (at_state BTK (n + 1) cs1 r) = prepend ls (file_lines E (at_state K n3 cs3 r))"
      and b3: "back_at (condTop cs1 + 1) cs1 cs3"
      unfolding BTK_def by (rule branch_taken [OF b(2) [OF True] t(1) in1(4,1,2,3)])
    moreover have "file_lines E (at_state ((CHR ''.'' # l) @ newline # BTK) n cs r) = file_lines E (at_state BTK (n + 1) cs1 r)"
      using read_step(1) [OF l(2), of E cs COND_PARSE cs1 BTK n r] ev True by (intro file_lines_cong) simp
    ultimately show ?thesis using that by simp
  next
    case False
    have in1: "in_cond False cs1" "skipLine cs1" "int (tail_depth t) \<le> condTop cs1" using cs1 d False by simp_all
    obtain n1 where s1: "skip_section E (at_state BTK (n + 1) cs1 r) = skip_section E (at_state (unlines (tail_lines t) @ K) n1 cs1 r)"
      using skip_blocks(1) [OF b(1) in1(2)] in_cond_open [OF in1(1)] unfolding BTK_def by blast
    obtain r1 n3 cs3 where s2: "skip_section E (at_state (unlines (tail_lines t) @ K) n1 cs1 r) = Some (True, r1)"
      and f: "file_lines E r1 = prepend ls (file_lines E (at_state K n3 cs3 r))" and b3: "back_at (condTop cs1 + 1) cs1 cs3"
      by (rule reads_tailD [OF b(3) [OF False] in1])
    have "file_lines E (at_state ((CHR ''.'' # l) @ newline # BTK) n cs r) = file_lines E r1"
      using read_step(2) [OF l(2), of E cs COND_SKIP cs1 BTK n r r1] ev False s1 s2 by (intro file_lines_cong) simp
    then show ?thesis using that f b3 by simp
  qed
  have "condTop cs1 + 1 = condTop cs" using cs1(3) by simp
  then have b3: "back_at (condTop cs) cs cs3" using back_at_from [OF b3, of cs] cs1(5,6) by simp
  then have top3: "condTop cs3 = condTop cs" by (simp add: back_at_def)
  then have d3: "int (block_depth k) \<le> condTop cs3" using d(3) by simp
  obtain n4 cs4 where r4: "file_lines E (at_state K n3 cs3 r) = prepend ks (file_lines E (at_state rest n4 cs4 r))"
    and b4: "back_at (condTop cs3) cs3 cs4"
    unfolding K_def by (rule reads_blockD [OF k back_at_active [OF b3] d3])
  have u: "unlines (block_lines (Cond c b t k)) @ rest = (CHR ''.'' # l) @ newline # BTK" by (simp add: l(1) K_def BTK_def)
  have b5: "back_at (condTop cs) cs cs4" using back_at_trans [OF b3 b4] top3 by simp
  show "\<exists>n' cs'. file_lines E (at_state (unlines (block_lines (Cond c b t k)) @ rest) n cs r)
      = prepend (ls @ ks) (file_lines E (at_state rest n' cs' r)) \<and> back_at (condTop cs) cs cs'"
    by (intro exI conjI) (unfold u r3 r4 prepend_simps, rule refl, rule b5)
qed

lemma reads_else:
  assumes b: "reads_block E b ls"
  shows "reads_tail E (Else b) ls"
  unfolding reads_tail_def
proof (intro allI impI, elim conjE)
  fix rest n cs r
  assume cs: "in_cond False cs" and dep: "int (tail_depth (Else b)) \<le> condTop cs"
  define cs1 where "cs1 = branched True cs"
  note cs1 = branch_state [OF cs, where v = True, folded cs1_def]
  have ev: "Cond_Eval (cenv E) ''.else'' cs = Some (COND_PARSE, cs1)"
    using eval_else(1) [of cs "cenv E"] in_cond_open [OF cs] cs cs1(1) by (simp add: in_cond_def)
  let ?BN = "unlines (block_lines b) @ unlines (tail_lines Endif) @ rest"
  have s: "skip_section E (at_state (unlines (tail_lines (Else b)) @ rest) n cs r) = Some (True, at_state ?BN (n + 1) cs1 r)"
    using skip_step [OF clean_words(1), of E cs COND_PARSE cs1 ?BN n r] ev by simp
  have in1: "\<not> skipLine cs1" "int (block_depth b) \<le> condTop cs1" using cs1 dep by simp_all
  obtain n3 cs3 where f: "file_lines E (at_state ?BN (n + 1) cs1 r) = prepend ls (file_lines E (at_state rest n3 cs3 r))"
    and b3: "back_at (condTop cs1 + 1) cs1 cs3"
    by (rule branch_taken [OF b tail_clean.simps(1) [THEN iffD2, OF TrueI] tail_good.simps(1) [THEN iffD2, OF TrueI] cs1(2) in1])
  have b4: "back_at (condTop cs + 1) cs cs3" using back_at_from [OF b3, of cs] cs1(3,5,6) by simp
  show "\<exists>r1 n' cs'. skip_section E (at_state (unlines (tail_lines (Else b)) @ rest) n cs r) = Some (True, r1)
      \<and> file_lines E r1 = prepend ls (file_lines E (at_state rest n' cs' r)) \<and> back_at (condTop cs + 1) cs cs'"
    by (intro exI conjI) (rule s, rule f, rule b4)
qed

lemma reads_elif:
  assumes c: "clean_cond c" "good_cond (cenv E) c" and t: "tail_clean t" "tail_good (cenv E) (holds (cenv E) c) t"
    and b: "block_clean b" "holds (cenv E) c \<Longrightarrow> reads_block E b ls" "\<not> holds (cenv E) c \<Longrightarrow> reads_tail E t ls"
  shows "reads_tail E (Elif c b t) ls"
  unfolding reads_tail_def
proof (intro allI impI, elim conjE)
  fix rest n cs r
  assume cs: "in_cond False cs" and dep: "int (tail_depth (Elif c b t)) \<le> condTop cs"
  have d: "int (block_depth b) \<le> condTop cs" "int (tail_depth t) \<le> condTop cs"
    using dep by (auto simp: max_def split: if_splits)
  obtain l where l: "elif_line c = CHR ''.'' # l" "list_all clean_char l" using clean_period_lines(2) [OF c(1)] by blast
  let ?v = "holds (cenv E) c"
  have in1: "in_cond False (scanned c cs)" using cs by simp
  define cs1 where "cs1 = branched ?v (scanned c cs)"
  note cs1 = branch_state [OF in1, where v = ?v, folded cs1_def]
  have ev: "Cond_Eval (cenv E) (CHR ''.'' # l) cs = Some (if ?v then COND_PARSE else COND_SKIP, cs1)"
    using eval_elif_line [OF c, of cs] in_cond_open [OF cs] cs1(1) l(1) by simp
  let ?BN = "unlines (block_lines b) @ unlines (tail_lines t) @ rest"
  obtain r1 n3 cs3 where s: "skip_section E (at_state ((CHR ''.'' # l) @ newline # ?BN) n cs r) = Some (True, r1)"
    and f: "file_lines E r1 = prepend ls (file_lines E (at_state rest n3 cs3 r))" and b3: "back_at (condTop cs1 + 1) cs1 cs3"
  proof (cases ?v)
    case True
    have in2: "in_cond True cs1" "\<not> skipLine cs1" "int (block_depth b) \<le> condTop cs1" "tail_good (cenv E) True t"
      using cs1 d t(2) True by simp_all
    have "skip_section E (at_state ((CHR ''.'' # l) @ newline # ?BN) n cs r) = Some (True, at_state ?BN (n + 1) cs1 r)"
      using skip_step [OF l(2), of E cs COND_PARSE cs1 ?BN n r] ev True by simp
    moreover obtain n3 cs3 where "file_lines E (at_state ?BN (n + 1) cs1 r) = prepend ls (file_lines E (at_state rest n3 cs3 r))"
      and "back_at (condTop cs1 + 1) cs1 cs3"
      by (rule branch_taken [OF b(2) [OF True] t(1) in2(4,1,2,3)])
    ultimately show ?thesis using that by blast
  next
    case False
    have in2: "in_cond False cs1" "skipLine cs1" "int (tail_depth t) \<le> condTop cs1" using cs1 d False by simp_all
    obtain n1 where s1: "skip_section E (at_state ?BN (n + 1) cs1 r) = skip_section E (at_state (unlines (tail_lines t) @ rest) n1 cs1 r)"
      using skip_blocks(1) [OF b(1) in2(2)] in_cond_open [OF in2(1)] by blast
    have "skip_section E (at_state ((CHR ''.'' # l) @ newline # ?BN) n cs r) = skip_section E (at_state (unlines (tail_lines t) @ rest) n1 cs1 r)"
      using skip_step [OF l(2), of E cs COND_SKIP cs1 ?BN n r] ev False s1 by simp
    moreover obtain r1 n3 cs3 where "skip_section E (at_state (unlines (tail_lines t) @ rest) n1 cs1 r) = Some (True, r1)"
      "file_lines E r1 = prepend ls (file_lines E (at_state rest n3 cs3 r))" "back_at (condTop cs1 + 1) cs1 cs3"
      by (rule reads_tailD [OF b(3) [OF False] in2])
    ultimately show ?thesis using that by simp
  qed
  have b4: "back_at (condTop cs + 1) cs cs3" using back_at_from [OF b3, of cs] cs1(3,5,6) by simp
  have u: "unlines (tail_lines (Elif c b t)) @ rest = (CHR ''.'' # l) @ newline # ?BN" by (simp add: l(1))
  show "\<exists>r1 n' cs'. skip_section E (at_state (unlines (tail_lines (Elif c b t)) @ rest) n cs r) = Some (True, r1)
      \<and> file_lines E r1 = prepend ls (file_lines E (at_state rest n' cs' r)) \<and> back_at (condTop cs + 1) cs cs'"
    by (intro exI conjI) (unfold u, rule s, rule f, rule b4)
qed

lemma reads_blocks:
  "block_clean b \<Longrightarrow> block_good (cenv E) b \<Longrightarrow> reads_block E b (selected (cenv E) b)"
  "tail_clean t \<Longrightarrow> tail_good (cenv E) False t \<Longrightarrow> reads_tail E t (tail_selected (cenv E) t)"
proof (induction b and t)
  case Done
  show ?case by (auto simp: reads_block_def back_at_def active_def)
next
  case (Plain l b)
  have l: "text_line l" using Plain.prems(1) by simp
  show ?case unfolding reads_block_def
  proof (intro allI impI, elim conjE)
    fix rest n cs r
    assume cs: "active cs" and d: "int (block_depth (Plain l b)) \<le> condTop cs"
    have k: "reads_block E b (selected (cenv E) b)" using Plain by simp
    obtain n' cs' where "file_lines E (at_state (unlines (block_lines b) @ rest) (n + 1) cs r)
        = prepend (selected (cenv E) b) (file_lines E (at_state rest n' cs' r))" and "back_at (condTop cs) cs cs'"
      by (rule reads_blockD [OF k cs d [unfolded block_depth.simps]])
    then show "\<exists>n' cs'. file_lines E (at_state (unlines (block_lines (Plain l b)) @ rest) n cs r)
        = prepend (selected (cenv E) (Plain l b)) (file_lines E (at_state rest n' cs' r)) \<and> back_at (condTop cs) cs cs'"
      using file_lines_text [OF l, of E "unlines (block_lines b) @ rest" n cs r] by (intro exI [of _ n'] exI [of _ cs']) simp
  qed
next
  case (Cond c b t k)
  then show ?case
    using reads_cond [of c E t b "if holds (cenv E) c then selected (cenv E) b else tail_selected (cenv E) t" k "selected (cenv E) k"]
    by (cases "holds (cenv E) c") simp_all
next
  case Endif
  show ?case unfolding reads_tail_def
  proof (intro allI impI, elim conjE)
    fix rest n cs r
    assume cs: "in_cond False cs"
    show "\<exists>r1 n' cs'. skip_section E (at_state (unlines (tail_lines Endif) @ rest) n cs r) = Some (True, r1)
      \<and> file_lines E r1 = prepend (tail_selected (cenv E) Endif) (file_lines E (at_state rest n' cs' r)) \<and> back_at (condTop cs + 1) cs cs'"
      using skip_endif [OF cs, of E rest n r] endif_back_at [OF cs]
      by (intro exI conjI) (simp, simp, assumption)
  qed
next
  case (Else b)
  then show ?case using reads_else by simp
next
  case (Elif c b t)
  then show ?case
    using reads_elif [of c E t b "if holds (cenv E) c then selected (cenv E) b else tail_selected (cenv E) t"]
    by (cases "holds (cenv E) c") simp_all
qed

section \<open>Conditionals select lines\<close>

lemma file_lines_end:
  assumes "include_stack r = []"
  shows "file_lines E (at_state [] n cs r) = Some ([], at_state [] n (Cond_End cs) r)"
proof -
  have "ParseReadLine E (at_state [] n cs r) = Some (None, at_state [] n cs r)"
    by (subst ParseReadLine.simps) (simp add: read_chars_def)
  moreover have "include_stack (at_state [] n cs r) = []" using assms by (simp add: at_state_def)
  ultimately show ?thesis by (subst file_lines.simps) (simp add: ParseEOF_def)
qed


definition demo_read :: read_env where
  "demo_read = \<lparr>cenv = demo_env, Var_Subst = id, For_Subst = (\<lambda>v w b. concat (map (\<lambda>c. if [c] = v then w else [c]) b))\<rparr>"

definition fresh_reader :: "string \<Rightarrow> reader" where
  "fresh_reader s = \<lparr>fname = ''Makefile'', lineno = 0, cur = s, include_stack = [], conds = cond_init, forLevel = 0,
     forVar = None, forBuf = None, forLst = None\<rparr>"

definition demo_block :: blocks where
  "demo_block = Plain ''a: b'' (Cond (ifs ! 4, Disj (Conj (Neg (Atom (Defined ''Y''))) (Atom (Same ''$(S)'' True ''abc''))) (Atom (Symbol ''Z'')),
       ''! defined(Y) && '' @ ''$(S) == '' @ [CHR 0x22] @ ''abc'' @ [CHR 0x22] @ ''|| Z'')
     (Plain ''yes = 1'' Done) (Else (Plain ''no = 1'' Done)) (Plain ''c: d'' Done))"


section \<open>Loops\<close>

lemma takeWhile_line:
  assumes "list_all clean_char l"
  shows "takeWhile (\<lambda>c. c \<noteq> newline) (l @ newline # rest) = l" "dropWhile (\<lambda>c. c \<noteq> newline) (l @ newline # rest) = newline # rest"
  using assms by (induction l) (auto simp: clean_char_def)

lemma ParseSkipLine_line:
  assumes "list_all clean_char l"
  shows "ParseSkipLine False (at_state (l @ newline # rest) n cs r) = (Some l, at_state rest (n + 1) cs r)"
  by (simp add: ParseSkipLine_def takeWhile_line [OF assms])

text \<open>The lines of a body are collected up to the end of the loop.\<close>

lemma collect_lines:
  assumes "list_all text_line body" and "forLevel r = 1"
  shows "collect_body E (at_state (unlines body @ ''.endfor'' @ newline # rest) n cs (r\<lparr>forBuf := Some buf\<rparr>))
    = Some (True, at_state rest (n + length body + 1) cs (r\<lparr>forBuf := Some (buf @ unlines body), forLevel := 0\<rparr>))"
  using assms(1)
proof (induction body arbitrary: n buf)
  case Nil
  have "list_all clean_char ''.endfor''" by code_simp
  note l = ParseSkipLine_line [OF this]
  show ?case
    by (subst collect_body.simps, simp only: unlines_simps append.left_neutral l)
      (simp add: For_Eval_def at_state_def assms(2) isspace_def)
next
  case (Cons l body)
  then have l: "list_all clean_char l" "take 1 l \<noteq> ''.''" by (cases l; simp add: text_line_def clean_line_def)+
  let ?R = "r\<lparr>forBuf := Some buf\<rparr>" and ?S = "unlines body @ ''.endfor'' @ newline # rest"
  have e: "For_Eval E l (at_state ?S (n + 1) cs ?R) = (True, at_state ?S (n + 1) cs (r\<lparr>forBuf := Some (buf @ l @ [newline])\<rparr>))"
    using l(2) assms(2) by (simp add: For_Eval_def at_state_def Let_def)
  have "collect_body E (at_state (unlines (l # body) @ ''.endfor'' @ newline # rest) n cs ?R)
    = collect_body E (at_state ?S (n + 1) cs (r\<lparr>forBuf := Some (buf @ l @ [newline])\<rparr>))"
    using ParseSkipLine_line [OF l(1), of ?S n cs ?R] e by (subst collect_body.simps) simp
  then show ?case using Cons.IH [of "n + 1" "buf @ l @ [newline]"] Cons.prems by simp
qed

lemma for_words_word: "list_all (\<lambda>c. \<not> isspace c) w \<Longrightarrow> for_words a (w @ s) = for_words (a @ w) s"
  by (induction w arbitrary: a) auto

lemma dropWhile_space_word: "list_all (\<lambda>c. \<not> isspace c) w \<Longrightarrow> w \<noteq> [] \<Longrightarrow> dropWhile isspace (w @ s) = w @ s"
  by (cases w) auto

definition is_word :: "string \<Rightarrow> bool" where
  "is_word w \<longleftrightarrow> w \<noteq> [] \<and> list_all (\<lambda>c. \<not> isspace c) w"

fun join_words :: "string list \<Rightarrow> string" where
  "join_words [] = []"
| "join_words [w] = w"
| "join_words (w # ws) = w @ '' '' @ join_words ws"

lemma join_words_start: "list_all is_word ws \<Longrightarrow> dropWhile isspace (join_words ws) = join_words ws"
  by (induction ws rule: join_words.induct) (auto simp: is_word_def dropWhile_space_word dest: dropWhile_space_word [where s = "[]"])

lemma for_words_join: "list_all is_word ws \<Longrightarrow> for_words [] (join_words ws) = ws"
proof (induction ws rule: join_words.induct)
  case (2 w)
  then show ?case using for_words_word [of w "[]" "[]"] by (simp add: is_word_def)
next
  case (3 w v ws)
  have "is_word w" and w: "list_all is_word (v # ws)" using "3.prems" by simp_all
  then have w: "list_all (\<lambda>c. \<not> isspace c) w" "list_all is_word (v # ws)" by (simp_all only: is_word_def)
  have "isspace CHR '' ''" by (simp add: isspace_def)
  then show ?case
    using for_words_word [OF w(1), of "[]" "'' '' @ join_words (v # ws)"] join_words_start [OF w(2)] "3.IH" [OF w(2)] by simp
qed simp

text \<open>The head of a loop.\<close>

definition for_line :: "string \<Rightarrow> string \<Rightarrow> string" where
  "for_line v t = ''.for '' @ v @ '' in '' @ t"

lemma takeWhile_word: "list_all (\<lambda>c. \<not> isspace c) v \<Longrightarrow> isspace x \<Longrightarrow>
   takeWhile (\<lambda>c. \<not> isspace c) (v @ x # s) = v \<and> dropWhile (\<lambda>c. \<not> isspace c) (v @ x # s) = x # s"
  by (induction v) auto

lemma For_Eval_line:
  assumes "is_word v" and "forLevel r = 0" and "Var_Subst E (dropWhile isspace t) = join_words ws" and "list_all is_word ws"
  shows "For_Eval E (for_line v t) r = (True, r\<lparr>forVar := Some v, forLst := Some ws, forBuf := Some [], forLevel := 1\<rparr>)"
proof -
  have s: "isspace CHR '' ''" "\<not> isspace CHR ''f''" "\<not> isspace CHR ''i''" by (simp_all add: isspace_def)
  have v: "v \<noteq> []" "list_all (\<lambda>c. \<not> isspace c) v" using assms(1) by (simp_all add: is_word_def)
  have "dropWhile isspace (v @ '' in '' @ t) = v @ '' in '' @ t" by (rule dropWhile_space_word [OF v(2,1)])
  then show ?thesis using s v takeWhile_word [OF v(2) s(1), of "''in '' @ t"] assms(2-4) join_words_start [OF assms(4)] for_words_join [OF assms(4)]
    by (simp add: For_Eval_def for_line_def)
qed

lemma Cond_Eval_for: "Cond_Eval E (for_line v t) cs = Some (COND_INVALID, cs)"
  by (simp add: Cond_Eval_def for_line_def find_if_def ifs_def is_blank_def)

text \<open>The inputs pushed for the words are read one after the other, the last one first.\<close>

lemma file_lines_texts:
  "list_all text_line ls \<Longrightarrow> file_lines E (at_state (unlines ls @ rest) n cs r) = prepend ls (file_lines E (at_state rest (n + length ls) cs r))"
  by (induction ls arbitrary: n) (simp_all add: file_lines_text)

lemma file_lines_pop:
  assumes "include_stack r = \<lparr>if_fname = fname r, if_lineno = m, if_text = s\<rparr> # fs"
  shows "file_lines E (at_state [] n cs r) = file_lines E (at_state s m cs (r\<lparr>include_stack := fs\<rparr>))"
proof -
  have "ParseReadLine E (at_state [] n cs r) = Some (None, at_state [] n cs r)"
    by (subst ParseReadLine.simps) (simp add: read_chars_def)
  moreover have "ParseEOF (at_state [] n cs r) = (True, at_state s m cs (r\<lparr>include_stack := fs\<rparr>))"
    using assms by (cases r) (simp add: ParseEOF_def at_state_def)
  ultimately show ?thesis by (subst file_lines.simps) simp
qed

lemma read_pushed:
  assumes "\<And>w. w \<in> set ws \<Longrightarrow> For_Subst E v w buf = unlines (g w) \<and> list_all text_line (g w)"
  shows "file_lines E (fold (ForExec E v buf) ws (at_state s n cs r)) = prepend (concat (map g (rev ws))) (file_lines E (at_state s n cs r))"
  using assms
proof (induction ws rule: rev_induct)
  case (snoc w ws)
  let ?r = "fold (ForExec E v buf) ws (at_state s n cs r)"
  have c: "conds ?r = cs" by (induction ws rule: rev_induct) (simp_all add: ForExec_def Parse_FromString_def)
  have "ForExec E v buf w ?r = at_state (unlines (g w) @ []) 0 cs (Parse_FromString [] ?r)"
    using snoc.prems [of w] c by (simp add: ForExec_def Parse_FromString_def at_state_def)
  moreover have "file_lines E (at_state [] m cs (Parse_FromString [] ?r)) = file_lines E ?r" for m
  proof -
    have "at_state (cur ?r) (lineno ?r) cs ((Parse_FromString [] ?r)\<lparr>include_stack := include_stack ?r\<rparr>) = ?r"
      using c by (cases ?r) (simp add: at_state_def Parse_FromString_def)
    then show ?thesis
      using file_lines_pop [of "Parse_FromString [] ?r" "lineno ?r" "cur ?r" "include_stack ?r" E m cs] by (simp add: Parse_FromString_def)
  qed
  ultimately show ?case using snoc.IH snoc.prems file_lines_texts [of "g w" E "[]" 0 cs] by simp
qed simp

text \<open>
  the body of a loop is read once for every word of its list, but in the reverse of their order, then
  the lines behind the loop follow.
\<close>

theorem for_loop_reversed:
  assumes "is_word v" and "list_all clean_char (for_line v t)" and "Var_Subst E (dropWhile isspace t) = join_words ws" and "list_all is_word ws"
    and "list_all text_line body" and "\<And>w. w \<in> set ws \<Longrightarrow> For_Subst E v w (unlines body) = unlines (g w) \<and> list_all text_line (g w)"
    and "cur r = unlines (for_line v t # body @ [''.endfor'']) @ rest"
    and "forLevel r = 0" and "forVar r = None" and "forLst r = None" and "forBuf r = None"
  shows "file_lines E r = map_option (\<lambda>(ls, r'). (concat (map g (rev ws)) @ ls, r'))
    (file_lines E (r\<lparr>cur := rest, lineno := lineno r + length body + 2\<rparr>))"
proof -
  let ?B = "unlines body @ ''.endfor'' @ newline # rest" and ?n = "lineno r" and ?cs = "conds r"
  have r: "r = at_state (for_line v t @ newline # ?B) ?n ?cs r" using assms(7) by (cases r) (simp add: at_state_def)
  obtain l where l: "for_line v t = CHR ''.'' # l" "list_all clean_char l" using assms(2) by (simp add: for_line_def)
  let ?R = "r\<lparr>forVar := Some v, forLst := Some ws, forLevel := 1\<rparr>"
  have fe: "For_Eval E (for_line v t) (at_state ?B (?n + 1) ?cs r) = (True, at_state ?B (?n + 1) ?cs (?R\<lparr>forBuf := Some []\<rparr>))"
    using For_Eval_line [OF assms(1) _ assms(3,4), of "at_state ?B (?n + 1) ?cs r"] assms(8) by (simp add: at_state_def)
  have co: "collect_body E (at_state ?B (?n + 1) ?cs (?R\<lparr>forBuf := Some []\<rparr>))
    = Some (True, at_state rest (?n + 1 + length body + 1) ?cs (?R\<lparr>forBuf := Some (unlines body), forLevel := 0\<rparr>))"
    using collect_lines [OF assms(5), of ?R E rest "?n + 1" ?cs "[]"] by simp
  have fr: "For_Run E (at_state rest m ?cs (?R\<lparr>forBuf := Some (unlines body), forLevel := 0\<rparr>)) = fold (ForExec E v (unlines body)) ws (at_state rest m ?cs r)" for m
    using assms(8-11) by (cases r) (simp add: For_Run_def at_state_def)
  have "ParseReadLine E (at_state (for_line v t @ newline # ?B) ?n ?cs r)
    = ParseReadLine E (fold (ForExec E v (unlines body)) ws (at_state rest (?n + 1 + length body + 1) ?cs r))"
    using ParseReadLine_dot [OF l(2), of E ?B "at_state (for_line v t @ newline # ?B) ?n ?cs r"] fe [unfolded l(1)] co fr Cond_Eval_for [of "cenv E" v t ?cs, unfolded l(1)]
    by (simp add: l(1) cond_line_def)
  then have "file_lines E r = file_lines E (fold (ForExec E v (unlines body)) ws (at_state rest (?n + 1 + length body + 1) ?cs r))"
    by (subst r) (rule file_lines_cong)
  also have "\<dots> = prepend (concat (map g (rev ws))) (file_lines E (at_state rest (?n + 1 + length body + 1) ?cs r))"
    by (rule read_pushed [OF assms(6)])
  finally show ?thesis by (simp add: prepend_def at_state_def)
qed

theorem for_loop_reversed_witness:
  "map_option fst (file_lines demo_read (fresh_reader (unlines [''.for X in a b c'', ''t: X'', ''.endfor'', ''end'']))) = Some [''t: c'', ''t: b'', ''t: a'', ''end'']"
proof -
  let ?r = "fresh_reader (unlines [''.for X in a b c'', ''t: X'', ''.endfor'', ''end''])"
  have p: "is_word ''X''" "list_all clean_char (for_line ''X'' ''a b c'')" "Var_Subst demo_read (dropWhile isspace ''a b c'') = join_words [''a'', ''b'', ''c'']"
    "list_all is_word [''a'', ''b'', ''c'']" "list_all text_line [''t: X'']" "text_line ''end''"
    by code_simp+
  have g: "For_Subst demo_read ''X'' w (unlines [''t: X'']) = unlines [''t: '' @ w] \<and> list_all text_line [''t: '' @ w]" if "w \<in> set [''a'', ''b'', ''c'']" for w
    using that by (elim set_ConsD [elim_format] disjE) (auto simp: demo_read_def newline_def text_line_def clean_line_def clean_char_def backslash_def NUL_def)
  have e: "file_lines demo_read (?r\<lparr>cur := unlines [''end''], lineno := 3\<rparr>) = prepend [''end''] (file_lines demo_read (at_state [] 4 cond_init ?r))"
    using file_lines_texts [of "[''end'']" demo_read "[]" 3 cond_init ?r] p(6) by (simp add: fresh_reader_def at_state_def)
  show ?thesis
    using for_loop_reversed [OF p(1-5) g, of ?r "unlines [''end'']"] e file_lines_end [of ?r demo_read 4 cond_init]
    by (simp add: fresh_reader_def for_line_def prepend_def eval_nat_numeral)
qed

end
