(* ===== verification/Glish_List.thy ===== *)
theory Glish_List
  imports Glish_Interfaces
begin

text \<open>
  The growing pointer arrays every other class of Glish is built on (\<open>sos/list.cc\<close>,
  \<open>sos/include/sos/list.h\<close>). An entry is a pointer, \<open>None\<close> being the null pointer; a cell of the
  allocated array holds an entry or, as fresh memory does, nothing. The result \<open>None\<close> of an operation
  is an access outside the array.
\<close>

type_synonym 'a ent = "'a option"

record 'a BaseList =
  entry :: "'a ent option list"
  chunk_size :: nat
  max_entries :: nat
  num_entries :: nat

definition DEFAULT_CHUNK_SIZE :: nat where
  "DEFAULT_CHUNK_SIZE = 10"

section \<open>Construction and access\<close>

definition BaseList_new :: "int \<Rightarrow> 'a BaseList" where
  "BaseList_new sz =
     (let chunk = (if sz \<le> 0 then DEFAULT_CHUNK_SIZE else nat sz) in
      if sz < 0 then \<lparr>entry = [], chunk_size = chunk, max_entries = 0, num_entries = 0\<rparr>
      else \<lparr>entry = replicate chunk None, chunk_size = chunk, max_entries = chunk, num_entries = 0\<rparr>)"

definition bl_length :: "'a BaseList \<Rightarrow> nat" where
  "bl_length l = num_entries l"

text \<open>Reading and writing one cell of the array.\<close>

definition cell :: "'a BaseList \<Rightarrow> nat \<Rightarrow> 'a ent option option" where
  "cell l i = (if i < length (entry l) then Some (entry l ! i) else None)"

definition set_cell :: "nat \<Rightarrow> 'a ent option \<Rightarrow> 'a BaseList \<Rightarrow> 'a BaseList option" where
  "set_cell i c l = (if i < length (entry l) then Some (l\<lparr>entry := (entry l)[i := c]\<rparr>) else None)"

text \<open>A cell whose value the code uses has to have been written.\<close>

definition get_ent :: "'a BaseList \<Rightarrow> nat \<Rightarrow> 'a ent option" where
  "get_ent l i = (case cell l i of None \<Rightarrow> None | Some c \<Rightarrow> c)"

definition bl_nth :: "'a BaseList \<Rightarrow> int \<Rightarrow> 'a ent option" where
  "bl_nth l i = (if i < 0 \<or> i \<ge> int (num_entries l) then Some None else get_ent l (nat i))"

text \<open>The copy loop shared by the copy constructor and the assignment.\<close>

fun copy_cells :: "nat \<Rightarrow> 'a BaseList \<Rightarrow> 'a BaseList \<Rightarrow> 'a BaseList option" where
  "copy_cells 0 b l = Some l"
| "copy_cells (Suc n) b l = do {
     l \<leftarrow> copy_cells n b l;
     c \<leftarrow> cell b n;
     set_cell n c l }"

definition BaseList_copy :: "'a BaseList \<Rightarrow> 'a BaseList option" where
  "BaseList_copy b =
     copy_cells (num_entries b) b
       \<lparr>entry = replicate (max_entries b) None, chunk_size = chunk_size b,
        max_entries = max_entries b, num_entries = num_entries b\<rparr>"

definition assign :: "'a BaseList \<Rightarrow> 'a BaseList \<Rightarrow> 'a BaseList option" where
  "assign l b =
     copy_cells (num_entries b) b
       (l\<lparr>entry := replicate (max_entries b) None, chunk_size := chunk_size b,
         max_entries := max_entries b, num_entries := num_entries b\<rparr>)"

definition bl_equal :: "'a BaseList \<Rightarrow> 'a BaseList \<Rightarrow> bool option" where
  "bl_equal l b =
     (if num_entries l \<noteq> num_entries b then Some False
      else if length (entry l) < num_entries l \<or> length (entry b) < num_entries l then None
      else Some (take (num_entries l) (entry l) = take (num_entries l) (entry b)))"

section \<open>Growing\<close>

text \<open>The loop that raises \<open>max_entries\<close>; it does not end for a chunk size of zero.\<close>

partial_function (option) grow_loop :: "nat \<Rightarrow> nat \<Rightarrow> nat \<Rightarrow> nat option" where
  "grow_loop needed chunk mx = (if needed > mx then grow_loop needed chunk (mx + chunk) else Some mx)"

definition resize :: "nat \<Rightarrow> 'a BaseList \<Rightarrow> 'a BaseList option" where
  "resize needed l = do {
     mx \<leftarrow> grow_loop (num_entries l + needed) (chunk_size l) (max_entries l);
     Some (l\<lparr>max_entries := mx, chunk_size := chunk_size l * 2,
            entry := take mx (entry l) @ replicate (mx - length (entry l)) None\<rparr>) }"

definition room_for_one :: "'a BaseList \<Rightarrow> 'a BaseList option" where
  "room_for_one l = (if num_entries l = max_entries l then resize 1 l else Some l)"

section \<open>Adding and removing\<close>

definition bl_append :: "'a ent \<Rightarrow> 'a BaseList \<Rightarrow> 'a BaseList option" where
  "bl_append a l = do {
     l \<leftarrow> room_for_one l;
     l \<leftarrow> set_cell (num_entries l) (Some a) l;
     Some (l\<lparr>num_entries := num_entries l + 1\<rparr>) }"

text \<open>The loop that moves the entries above \<open>off\<close> up by one, from \<open>i\<close> down.\<close>

fun shift_up :: "nat \<Rightarrow> nat \<Rightarrow> 'a BaseList \<Rightarrow> 'a BaseList option" where
  "shift_up off 0 l = Some l"
| "shift_up off (Suc i) l =
     (if Suc i > off then do {
        c \<leftarrow> cell l i;
        l \<leftarrow> set_cell (Suc i) c l;
        shift_up off i l }
      else Some l)"

definition bl_insert :: "'a ent \<Rightarrow> 'a BaseList \<Rightarrow> 'a BaseList option" where
  "bl_insert a l = do {
     l \<leftarrow> room_for_one l;
     l \<leftarrow> shift_up 0 (num_entries l) l;
     let l = l\<lparr>num_entries := num_entries l + 1\<rparr>;
     set_cell 0 (Some a) l }"

definition insert_nth :: "int \<Rightarrow> 'a ent \<Rightarrow> 'a BaseList \<Rightarrow> 'a BaseList option" where
  "insert_nth off a l = do {
     l \<leftarrow> room_for_one l;
     let off = (if off > int (num_entries l) then num_entries l + 1 else nat off);
     l \<leftarrow> shift_up off (num_entries l) l;
     let l = l\<lparr>num_entries := num_entries l + 1\<rparr>;
     set_cell off (Some a) l }"

text \<open>The loop that moves entries down by one; \<open>k\<close> of them are left to move.\<close>

fun shift_down :: "nat \<Rightarrow> nat \<Rightarrow> 'a BaseList \<Rightarrow> 'a BaseList option" where
  "shift_down 0 n l = Some l"
| "shift_down (Suc k) n l = do {
     c \<leftarrow> cell l (Suc n);
     l \<leftarrow> set_cell n c l;
     shift_down k (Suc n) l }"

definition remove_nth :: "int \<Rightarrow> 'a BaseList \<Rightarrow> ('a ent \<times> 'a BaseList) option" where
  "remove_nth n l =
     (if n < 0 \<or> n \<ge> int (num_entries l) then Some (None, l)
      else do {
        old_ent \<leftarrow> get_ent l (nat n);
        let l = l\<lparr>num_entries := num_entries l - 1\<rparr>;
        l \<leftarrow> shift_down (num_entries l - nat n) (nat n) l;
        l \<leftarrow> set_cell (num_entries l) (Some None) l;
        Some (old_ent, l) })"

text \<open>The first of \<open>k\<close> positions from \<open>i\<close> on that holds the entry, or the position behind them.\<close>

fun find_ent :: "'a ent \<Rightarrow> nat \<Rightarrow> nat \<Rightarrow> 'a BaseList \<Rightarrow> nat option" where
  "find_ent a 0 i l = Some i"
| "find_ent a (Suc k) i l = do {
     e \<leftarrow> get_ent l i;
     if a \<noteq> e then find_ent a k (Suc i) l else Some i }"

definition bl_remove :: "'a ent \<Rightarrow> 'a BaseList \<Rightarrow> ('a ent \<times> 'a BaseList) option" where
  "bl_remove a l = do {
     i \<leftarrow> find_ent a (num_entries l) 0 l;
     remove_nth (int i) l }"

definition is_member :: "'a ent \<Rightarrow> 'a BaseList \<Rightarrow> 'a ent option" where
  "is_member e l = do {
     i \<leftarrow> find_ent e (num_entries l) 0 l;
     Some (if i = num_entries l then None else e) }"

text \<open>\<open>default_error_handler\<close> prints its message and ends the process.\<close>

datatype list_exit = GetFromEmpty

definition bl_get :: "'a BaseList \<Rightarrow> (list_exit + 'a ent \<times> 'a BaseList) option" where
  "bl_get l =
     (if num_entries l = 0 then Some (Inl GetFromEmpty)
      else do {
        let l = l\<lparr>num_entries := num_entries l - 1\<rparr>;
        e \<leftarrow> get_ent l (num_entries l);
        Some (Inr (e, l)) })"

text \<open>The entries handed to the finalize handler, in order.\<close>

fun finalized :: "nat \<Rightarrow> 'a BaseList \<Rightarrow> 'a ent list option" where
  "finalized 0 l = Some []"
| "finalized (Suc n) l = do {
     es \<leftarrow> finalized n l;
     e \<leftarrow> get_ent l n;
     Some (es @ [e]) }"

definition bl_clear :: "bool \<Rightarrow> 'a BaseList \<Rightarrow> ('a ent list \<times> 'a BaseList) option" where
  "bl_clear has_handler l = do {
     es \<leftarrow> (if has_handler then finalized (num_entries l) l else Some []);
     Some (es, l\<lparr>num_entries := 0\<rparr>) }"

definition bl_replace :: "int \<Rightarrow> 'a ent \<Rightarrow> 'a BaseList \<Rightarrow> ('a ent \<times> 'a BaseList) option" where
  "bl_replace ent_index new_ent l =
     (if ent_index < 0 \<or> ent_index > int (num_entries l) - 1 then Some (None, l)
      else do {
        old_ent \<leftarrow> get_ent l (nat ent_index);
        l \<leftarrow> set_cell (nat ent_index) (Some new_ent) l;
        Some (old_ent, l) })"

text \<open>The iterator: a position in the list.\<close>

definition iter_next :: "'a BaseList \<Rightarrow> nat \<Rightarrow> ('a ent \<times> nat) option" where
  "iter_next l pos =
     (if pos < num_entries l then do { e \<leftarrow> get_ent l pos; Some (e, pos + 1) } else Some (None, pos))"


section \<open>The list an array represents\<close>

definition list_rep :: "'a BaseList \<Rightarrow> 'a ent list \<Rightarrow> bool" where
  "list_rep l xs \<longleftrightarrow> length (entry l) = max_entries l \<and> num_entries l = length xs \<and> length xs \<le> max_entries l
     \<and> take (length xs) (entry l) = map Some xs \<and> 0 < chunk_size l"

lemma list_rep_split:
  "list_rep l xs \<longleftrightarrow> (\<exists>rest. entry l = map Some xs @ rest \<and> max_entries l = length xs + length rest
     \<and> num_entries l = length xs \<and> 0 < chunk_size l)"
proof
  assume "list_rep l xs"
  then show "\<exists>rest. entry l = map Some xs @ rest \<and> max_entries l = length xs + length rest
     \<and> num_entries l = length xs \<and> 0 < chunk_size l"
    by (intro exI [of _ "drop (length xs) (entry l)"])
      (simp add: list_rep_def, metis append_take_drop_id)
qed (auto simp: list_rep_def)

lemma list_repE:
  assumes "list_rep l xs"
  obtains rest where "entry l = map Some xs @ rest" "max_entries l = length xs + length rest"
    "num_entries l = length xs" "0 < chunk_size l"
  using assms unfolding list_rep_split by blast

lemma BaseList_new_rep: "list_rep (BaseList_new sz) []"
  by (simp add: list_rep_def BaseList_new_def Let_def DEFAULT_CHUNK_SIZE_def)

lemma grow_loop_ends: "0 < chunk \<Longrightarrow> \<exists>mx'. grow_loop needed chunk mx = Some mx' \<and> mx \<le> mx' \<and> needed \<le> mx'"
proof (induction "needed - mx" arbitrary: mx rule: less_induct)
  case less
  show ?case
  proof (cases "needed > mx")
    case True
    with less(2) have "needed - (mx + chunk) < needed - mx" by simp
    with less(1) [of "mx + chunk"] less(2) obtain mx' where
      "grow_loop needed chunk (mx + chunk) = Some mx'" "mx + chunk \<le> mx'" "needed \<le> mx'" by blast
    with True show ?thesis by (simp add: grow_loop.simps [of needed chunk mx])
  next
    case False
    then show ?thesis by (simp add: grow_loop.simps [of needed chunk mx])
  qed
qed

lemma room_for_one_rep:
  assumes "list_rep l xs"
  shows "\<exists>l' x rest. room_for_one l = Some l' \<and> entry l' = map Some xs @ x # rest
    \<and> max_entries l' = length xs + 1 + length rest \<and> num_entries l' = length xs \<and> 0 < chunk_size l'"
proof -
  obtain rest where r: "entry l = map Some xs @ rest" "max_entries l = length xs + length rest"
    "num_entries l = length xs" "0 < chunk_size l" using assms by (rule list_repE)
  show ?thesis
  proof (cases rest)
    case (Cons x rest')
    with r show ?thesis by (simp add: room_for_one_def)
  next
    case Nil
    obtain mx where mx: "grow_loop (length xs + 1) (chunk_size l) (length xs) = Some mx" "length xs + 1 \<le> mx"
      using grow_loop_ends [OF r(4)] by blast
    let ?l = "l\<lparr>max_entries := mx, chunk_size := chunk_size l * 2,
      entry := map Some xs @ replicate (mx - length xs) None\<rparr>"
    have "room_for_one l = Some ?l" using r Nil mx by (simp add: room_for_one_def resize_def)
    moreover obtain k where k: "mx - length xs = Suc k" using mx(2) by (cases "mx - length xs") auto
    ultimately show ?thesis using r mx(2)
      by (intro exI [of _ ?l] exI [of _ None] exI [of _ "replicate k None"]) auto
  qed
qed

lemma get_ent_rep: "list_rep l xs \<Longrightarrow> i < length xs \<Longrightarrow> get_ent l i = Some (xs ! i)"
  by (erule list_repE) (simp add: get_ent_def cell_def nth_append)

lemma nth_rep: "list_rep l xs \<Longrightarrow> bl_nth l i = Some (if 0 \<le> i \<and> i < int (length xs) then xs ! nat i else None)"
  using get_ent_rep [of l xs "nat i"] by (auto simp: list_rep_def bl_nth_def)

lemma append_rep:
  assumes "list_rep l xs"
  shows "\<exists>l'. bl_append a l = Some l' \<and> list_rep l' (xs @ [a])"
proof -
  obtain l' x rest where "room_for_one l = Some l'" "entry l' = map Some xs @ x # rest"
    "max_entries l' = length xs + 1 + length rest" "num_entries l' = length xs" "0 < chunk_size l'"
    using room_for_one_rep [OF assms] by blast
  then show ?thesis
    by (auto simp: bl_append_def set_cell_def list_rep_split list_update_append)
qed

text \<open>Moving a block of cells up and down by one.\<close>

lemma shift_up_cells:
  "entry l = pre @ mid @ x # post \<Longrightarrow> length pre = off \<Longrightarrow>
   \<exists>y. shift_up off (length (pre @ mid)) l = Some (l\<lparr>entry := pre @ y # mid @ post\<rparr>)"
proof (induction mid arbitrary: l x post rule: rev_induct)
  case Nil
  then have "l\<lparr>entry := pre @ x # post\<rparr> = l" by (simp flip: Nil(1))
  with Nil(2) have "shift_up off (length pre) l = Some (l\<lparr>entry := pre @ x # post\<rparr>)"
    by (cases "length pre") auto
  then show ?case by auto
next
  case (snoc m mid)
  let ?l = "l\<lparr>entry := pre @ mid @ m # m # post\<rparr>"
  have len: "length (pre @ mid @ [m]) = Suc (length (pre @ mid))" by simp
  have c: "cell l (length (pre @ mid)) = Some m"
    using snoc.prems(1) by (simp add: cell_def nth_append)
  have s: "set_cell (Suc (length (pre @ mid))) m l = Some ?l"
    using snoc.prems(1) by (simp add: set_cell_def list_update_append)
  obtain y where "shift_up off (length (pre @ mid)) ?l = Some (?l\<lparr>entry := pre @ y # mid @ m # post\<rparr>)"
    using snoc.IH [of ?l m "m # post"] snoc.prems(2) by auto
  with c s snoc.prems(2) show ?case unfolding len by auto
qed

lemma insert_at_rep:
  assumes "entry l = map Some (xs @ ys) @ x # rest" and "max_entries l = length (xs @ ys) + 1 + length rest"
    and "num_entries l = length (xs @ ys)" and "0 < chunk_size l"
  shows "\<exists>l' l''. shift_up (length xs) (num_entries l) l = Some l'
    \<and> set_cell (length xs) (Some a) (l'\<lparr>num_entries := num_entries l' + 1\<rparr>) = Some l'' \<and> list_rep l'' (xs @ a # ys)"
proof -
  obtain y where y: "shift_up (length xs) (length (map Some xs @ map Some ys)) l
      = Some (l\<lparr>entry := map Some xs @ y # map Some ys @ rest\<rparr>)"
    using shift_up_cells [of l "map Some xs" "map Some ys" x rest "length xs"] assms(1) by auto
  then show ?thesis
    using assms(2-4) by (auto simp: set_cell_def list_rep_split list_update_append)
qed

lemma insert_rep:
  assumes "list_rep l xs"
  shows "\<exists>l'. bl_insert a l = Some l' \<and> list_rep l' (a # xs)"
proof -
  obtain l1 x rest where l1: "room_for_one l = Some l1" "entry l1 = map Some xs @ x # rest"
    "max_entries l1 = length xs + 1 + length rest" "num_entries l1 = length xs" "0 < chunk_size l1"
    using room_for_one_rep [OF assms] by blast
  from insert_at_rep [of l1 "[]" xs x rest a] l1 show ?thesis by (auto simp: bl_insert_def)
qed

lemma insert_nth_rep:
  assumes "list_rep l xs" and "off \<le> int (length xs)"
  shows "\<exists>l'. insert_nth off a l = Some l' \<and> list_rep l' (take (nat off) xs @ a # drop (nat off) xs)"
proof -
  obtain l1 x rest where l1: "room_for_one l = Some l1" "entry l1 = map Some xs @ x # rest"
    "max_entries l1 = length xs + 1 + length rest" "num_entries l1 = length xs" "0 < chunk_size l1"
    using room_for_one_rep [OF assms(1)] by blast
  have off: "nat off \<le> length xs" "length (take (nat off) xs) = nat off" "\<not> int (length xs) < off"
    using assms(2) by auto
  from insert_at_rep [of l1 "take (nat off) xs" "drop (nat off) xs" x rest a] l1 off
  show ?thesis by (auto simp: insert_nth_def)
qed

lemma shift_down_cells:
  "entry l = pre @ x # mid @ post \<Longrightarrow> mid \<noteq> [] \<longrightarrow> length pre = n \<Longrightarrow>
   shift_down (length mid) n l = Some (l\<lparr>entry := (if mid = [] then entry l else pre @ mid @ last mid # post)\<rparr>)"
proof (induction mid arbitrary: l pre x n)
  case (Cons m mid)
  let ?l = "l\<lparr>entry := pre @ m # m # mid @ post\<rparr>"
  have c: "cell l (Suc n) = Some m" using Cons.prems by (auto simp: cell_def nth_append)
  have s: "set_cell n m l = Some ?l" using Cons.prems by (auto simp: set_cell_def list_update_append)
  have "shift_down (length mid) (Suc n) ?l
      = Some (?l\<lparr>entry := (if mid = [] then entry ?l else (pre @ [m]) @ mid @ last mid # post)\<rparr>)"
    using Cons.IH [of ?l "pre @ [m]" m "Suc n"] Cons.prems(2) by simp
  with c s show ?case by auto
qed simp

lemma remove_nth_rep:
  assumes "list_rep l xs" and "i < length xs"
  shows "\<exists>l'. remove_nth (int i) l = Some (xs ! i, l') \<and> list_rep l' (take i xs @ drop (Suc i) xs)"
proof -
  obtain rest where r: "entry l = map Some xs @ rest" "max_entries l = length xs + length rest"
    "num_entries l = length xs" "0 < chunk_size l" using assms(1) by (rule list_repE)
  define pre mid where "pre = map Some (take i xs)" and "mid = map Some (drop (Suc i) xs)"
  have e: "entry l = pre @ Some (xs ! i) # mid @ rest"
    using r(1) id_take_nth_drop [OF assms(2)] by (simp add: pre_def mid_def flip: map_append list.map(2))
  let ?l = "l\<lparr>num_entries := num_entries l - 1\<rparr>"
  have len: "length mid = num_entries ?l - i" "length pre = i" using r(3) assms(2) by (simp_all add: mid_def pre_def)
  obtain y where sd: "shift_down (num_entries ?l - i) i ?l = Some (?l\<lparr>entry := pre @ mid @ y # rest\<rparr>)"
  proof (cases "mid = []")
    case True
    then have "?l\<lparr>entry := pre @ mid @ Some (xs ! i) # rest\<rparr> = ?l" using e by simp
    moreover have "shift_down (num_entries ?l - i) i ?l = Some ?l" using len(1) True by simp
    ultimately show ?thesis using that by metis
  next
    case False
    with that shift_down_cells [of ?l pre "Some (xs ! i)" mid rest i] e len show ?thesis by auto
  qed
  have n: "num_entries ?l = length (pre @ mid)" using len assms(2) r(3) by (simp add: mid_def pre_def)
  let ?l' = "?l\<lparr>entry := pre @ mid @ Some None # rest\<rparr>"
  have "set_cell (num_entries ?l) (Some None) (?l\<lparr>entry := pre @ mid @ y # rest\<rparr>) = Some ?l'"
    using n by (simp add: set_cell_def list_update_append)
  then have "remove_nth (int i) l = Some (xs ! i, ?l')"
    using assms(2) get_ent_rep [OF assms] sd r(3) by (simp add: remove_nth_def)
  moreover have "list_rep ?l' (take i xs @ drop (Suc i) xs)"
    unfolding list_rep_split using r assms(2) by (intro exI [of _ "Some None # rest"]) (simp add: pre_def mid_def)
  ultimately show ?thesis by blast
qed

fun position :: "'a \<Rightarrow> 'a list \<Rightarrow> nat" where
  "position a [] = 0"
| "position a (x # xs) = (if a \<noteq> x then Suc (position a xs) else 0)"

lemma position_less: "position a xs < length xs \<longleftrightarrow> a \<in> set xs"
  by (induction xs) auto

lemma position_le: "position a xs \<le> length xs"
  by (induction xs) auto

lemma position_remove1: "a \<in> set xs \<Longrightarrow> xs ! position a xs = a \<and> take (position a xs) xs @ drop (Suc (position a xs)) xs = remove1 a xs"
  by (induction xs) auto

lemma find_ent_rep:
  assumes "list_rep l xs" and "k + i = length xs"
  shows "find_ent a k i l = Some (i + position a (drop i xs))"
  using assms(2)
proof (induction k arbitrary: i)
  case (Suc k)
  then have "drop i xs = xs ! i # drop (Suc i) xs" "get_ent l i = Some (xs ! i)"
    using get_ent_rep [OF assms(1)] by (simp_all add: Cons_nth_drop_Suc)
  with Suc.IH [of "Suc i"] Suc.prems show ?case by simp
qed simp

lemma remove_rep:
  assumes "list_rep l xs"
  shows "\<exists>l'. bl_remove a l = Some (if a \<in> set xs then a else None, l') \<and> list_rep l' (remove1 a xs)"
proof -
  have n: "num_entries l = length xs" using assms by (simp add: list_rep_def)
  have f: "find_ent a (num_entries l) 0 l = Some (position a xs)"
    using find_ent_rep [OF assms, of "length xs" 0 a] n by simp
  show ?thesis
  proof (cases "a \<in> set xs")
    case True
    from remove_nth_rep [OF assms, of "position a xs"] True f position_remove1 [OF True] position_less [of a xs]
    show ?thesis by (auto simp: bl_remove_def)
  next
    case False
    then have "position a xs = length xs" using position_less [of a xs] position_le [of a xs] by simp
    with False f n assms show ?thesis by (simp add: bl_remove_def remove_nth_def remove1_idem)
  qed
qed

lemma is_member_rep: "list_rep l xs \<Longrightarrow> is_member e l = Some (if e \<in> set xs then e else None)"
  using find_ent_rep [of l xs "length xs" 0 e] position_less [of e xs] position_le [of e xs]
  by (auto simp: is_member_def list_rep_def)

lemma get_rep:
  assumes "list_rep l (xs @ [x])"
  shows "\<exists>l'. bl_get l = Some (Inr (x, l')) \<and> list_rep l' xs"
proof -
  obtain rest where r: "entry l = map Some (xs @ [x]) @ rest" "max_entries l = length (xs @ [x]) + length rest"
    "num_entries l = length (xs @ [x])" "0 < chunk_size l" using assms by (rule list_repE)
  then show ?thesis
    by (auto simp: bl_get_def get_ent_def cell_def nth_append list_rep_split)
qed

lemma replace_rep:
  assumes "list_rep l xs" and "i < length xs"
  shows "\<exists>l'. bl_replace (int i) e l = Some (xs ! i, l') \<and> list_rep l' (xs[i := e])"
proof -
  obtain rest where r: "entry l = map Some xs @ rest" "max_entries l = length xs + length rest"
    "num_entries l = length xs" "0 < chunk_size l" using assms(1) by (rule list_repE)
  have "set_cell i (Some e) l = Some (l\<lparr>entry := map Some (xs[i := e]) @ rest\<rparr>)"
    using r(1) assms(2) by (simp add: set_cell_def list_update_append map_update)
  then show ?thesis
    using r assms get_ent_rep [OF assms] by (auto simp: bl_replace_def list_rep_split)
qed

lemma finalized_rep: "list_rep l xs \<Longrightarrow> n \<le> length xs \<Longrightarrow> finalized n l = Some (take n xs)"
  by (induction n) (simp_all add: get_ent_rep take_Suc_conv_app_nth)

lemma clear_rep:
  assumes "list_rep l xs"
  shows "\<exists>l'. bl_clear h l = Some (if h then xs else [], l') \<and> list_rep l' []"
proof -
  have "num_entries l = length xs" "list_rep (l\<lparr>num_entries := 0\<rparr>) []"
    using assms by (simp_all add: list_rep_def)
  with finalized_rep [OF assms, of "length xs"] show ?thesis by (simp add: bl_clear_def)
qed

lemma copy_cells_rep:
  "list_rep b xs \<Longrightarrow> n \<le> length xs \<Longrightarrow> entry l = replicate (max_entries b) None \<Longrightarrow>
   copy_cells n b l = Some (l\<lparr>entry := map Some (take n xs) @ replicate (max_entries b - n) None\<rparr>)"
proof (induction n)
  case 0
  then have "l\<lparr>entry := replicate (max_entries b) None\<rparr> = l" by (simp flip: 0(3))
  then show ?case by simp
next
  case (Suc n)
  obtain rest where r: "entry b = map Some xs @ rest" "max_entries b = length xs + length rest"
    using Suc.prems(1) by (rule list_repE)
  let ?l = "l\<lparr>entry := map Some (take n xs) @ replicate (max_entries b - n) None\<rparr>"
  have c: "cell b n = Some (Some (xs ! n))" using r Suc.prems(2) by (simp add: cell_def nth_append)
  obtain k where k: "max_entries b - n = Suc k" "max_entries b - Suc n = k"
    using r(2) Suc.prems(2) by (cases "max_entries b - n") auto
  have "set_cell n (Some (xs ! n)) ?l
      = Some (l\<lparr>entry := map Some (take (Suc n) xs) @ replicate (max_entries b - Suc n) None\<rparr>)"
    using Suc.prems(2) k by (simp add: set_cell_def list_update_append take_Suc_conv_app_nth)
  with Suc c show ?case by simp
qed

lemma BaseList_copy_rep:
  assumes "list_rep b xs"
  shows "\<exists>l. BaseList_copy b = Some l \<and> list_rep l xs"
  using copy_cells_rep [OF assms order.refl] assms by (auto simp: BaseList_copy_def list_rep_def)

lemma assign_rep:
  assumes "list_rep b xs"
  shows "\<exists>l'. assign l b = Some l' \<and> list_rep l' xs"
  using copy_cells_rep [OF assms order.refl] assms by (auto simp: assign_def list_rep_def)

lemma equal_rep: "list_rep l xs \<Longrightarrow> list_rep b ys \<Longrightarrow> bl_equal l b = Some (xs = ys)"
  by (cases "length xs = length ys") (auto simp: bl_equal_def list_rep_def inj_map_eq_map)

section \<open>Operations in sequence\<close>

text \<open>An operation, what it does to the array, and what it does to the list; both with the entries it returns.\<close>

datatype 'a list_op =
    Append "'a ent" | Insert "'a ent" | InsertNth int "'a ent" | Remove "'a ent" | RemoveNth int
  | Replace int "'a ent" | Get | Clear

fun run_list_op :: "'a list_op \<Rightarrow> 'a BaseList \<Rightarrow> ('a ent list \<times> 'a BaseList) option" where
  "run_list_op (Append a) l = map_option (Pair []) (bl_append a l)"
| "run_list_op (Insert a) l = map_option (Pair []) (bl_insert a l)"
| "run_list_op (InsertNth i a) l = map_option (Pair []) (insert_nth i a l)"
| "run_list_op (Remove a) l = map_option (\<lambda>(e, l). ([e], l)) (bl_remove a l)"
| "run_list_op (RemoveNth i) l = map_option (\<lambda>(e, l). ([e], l)) (remove_nth i l)"
| "run_list_op (Replace i a) l = map_option (\<lambda>(e, l). ([e], l)) (bl_replace i a l)"
| "run_list_op Get l = (case bl_get l of Some (Inr (e, l)) \<Rightarrow> Some ([e], l) | _ \<Rightarrow> None)"
| "run_list_op Clear l = bl_clear True l"

fun spec_list_op :: "'a list_op \<Rightarrow> 'a ent list \<Rightarrow> 'a ent list \<times> 'a ent list" where
  "spec_list_op (Append a) xs = ([], xs @ [a])"
| "spec_list_op (Insert a) xs = ([], a # xs)"
| "spec_list_op (InsertNth i a) xs = ([], take (nat i) xs @ a # drop (nat i) xs)"
| "spec_list_op (Remove a) xs = ([if a \<in> set xs then a else None], remove1 a xs)"
| "spec_list_op (RemoveNth i) xs =
     (if 0 \<le> i \<and> i < int (length xs) then ([xs ! nat i], take (nat i) xs @ drop (Suc (nat i)) xs) else ([None], xs))"
| "spec_list_op (Replace i a) xs =
     (if 0 \<le> i \<and> i < int (length xs) then ([xs ! nat i], xs[nat i := a]) else ([None], xs))"
| "spec_list_op Get xs = ([last xs], butlast xs)"
| "spec_list_op Clear xs = (xs, [])"

text \<open>Taking from an empty list ends the process; inserting past the end is the subject of a property below.\<close>

fun list_op_ok :: "'a list_op \<Rightarrow> 'a ent list \<Rightarrow> bool" where
  "list_op_ok (InsertNth i a) xs \<longleftrightarrow> i \<le> int (length xs)"
| "list_op_ok Get xs \<longleftrightarrow> xs \<noteq> []"
| "list_op_ok _ xs \<longleftrightarrow> True"

fun run_list_ops :: "'a list_op list \<Rightarrow> 'a BaseList \<Rightarrow> ('a ent list \<times> 'a BaseList) option" where
  "run_list_ops [] l = Some ([], l)"
| "run_list_ops (x # xs) l = do { (r, l) \<leftarrow> run_list_op x l; (rs, l) \<leftarrow> run_list_ops xs l; Some (r @ rs, l) }"

fun spec_list_ops :: "'a list_op list \<Rightarrow> 'a ent list \<Rightarrow> 'a ent list \<times> 'a ent list" where
  "spec_list_ops [] l = ([], l)"
| "spec_list_ops (x # xs) l = (let (r, l) = spec_list_op x l; (rs, l) = spec_list_ops xs l in (r @ rs, l))"

fun list_ops_ok :: "'a list_op list \<Rightarrow> 'a ent list \<Rightarrow> bool" where
  "list_ops_ok [] l \<longleftrightarrow> True"
| "list_ops_ok (x # xs) l \<longleftrightarrow> list_op_ok x l \<and> list_ops_ok xs (snd (spec_list_op x l))"

lemma run_list_op_rep:
  assumes "list_rep l xs" and "list_op_ok x xs"
  shows "\<exists>l'. run_list_op x l = Some (fst (spec_list_op x xs), l') \<and> list_rep l' (snd (spec_list_op x xs))"
proof (cases x)
  case (RemoveNth i)
  with remove_nth_rep [OF assms(1), of "nat i"] assms(1) show ?thesis
    by (cases "0 \<le> i \<and> i < int (length xs)") (auto simp: remove_nth_def [of i] list_rep_def)
next
  case (Replace i e)
  with replace_rep [OF assms(1), of "nat i" e] assms(1) show ?thesis
    by (cases "0 \<le> i \<and> i < int (length xs)") (auto simp: bl_replace_def [of i] list_rep_def)
next
  case Get
  with assms have "xs = butlast xs @ [last xs]" by simp
  with get_rep [of l "butlast xs" "last xs"] assms(1) Get show ?thesis by auto
next
  case (Append a)
  with append_rep [OF assms(1), of a] show ?thesis by auto
next
  case (Insert a)
  with insert_rep [OF assms(1), of a] show ?thesis by auto
next
  case (InsertNth i a)
  with insert_nth_rep [OF assms(1), of i a] assms(2) show ?thesis by auto
next
  case (Remove a)
  with remove_rep [OF assms(1), of a] show ?thesis by auto
next
  case Clear
  with clear_rep [OF assms(1), of True] show ?thesis by auto
qed

lemma run_list_ops_rep:
  "list_rep l xs \<Longrightarrow> list_ops_ok ops xs \<Longrightarrow>
   \<exists>l'. run_list_ops ops l = Some (fst (spec_list_ops ops xs), l') \<and> list_rep l' (snd (spec_list_ops ops xs))"
proof (induction ops arbitrary: l xs)
  case (Cons x ops)
  from run_list_op_rep [of l xs x] Cons.prems obtain l1 where
    "run_list_op x l = Some (fst (spec_list_op x xs), l1)" "list_rep l1 (snd (spec_list_op x xs))" by auto
  with Cons.IH [of l1 "snd (spec_list_op x xs)"] Cons.prems(2) show ?case
    by (auto simp: Let_def split: prod.splits)
qed simp

interpretation array_queue: fifo "\<lambda>l xs. list_rep l (map Some xs)" "\<lambda>x. bl_append (Some x)" "remove_nth 0"
proof
  fix l :: "'a BaseList" and xs x
  assume "list_rep l (map Some xs)"
  from append_rep [OF this, of "Some x"] show "\<exists>l'. bl_append (Some x) l = Some l' \<and> list_rep l' (map Some (xs @ [x]))" by simp
next
  fix l :: "'a BaseList" and x xs
  assume "list_rep l (map Some (x # xs))"
  from remove_nth_rep [OF this, of 0] show "\<exists>l'. remove_nth 0 l = Some (Some x, l') \<and> list_rep l' (map Some xs)" by simp
next
  fix l :: "'a BaseList"
  assume "list_rep l (map Some [])"
  then show "\<exists>l'. remove_nth 0 l = Some (None, l') \<and> list_rep l' (map Some [])"
    by (simp add: remove_nth_def list_rep_def)
qed

section \<open>Properties\<close>



text \<open>
  \<open>insert_nth\<close> with an offset behind the end does not append: the entry is stored one cell too
  far, so the length grows by one but the new last element is whatever the array held there; and when
  one cell was left, the store is behind the array.
\<close>

theorem insert_nth_past_end:
  "(case insert_nth 1 (Some x) (BaseList_new 0) of Some l \<Rightarrow> bl_length l = 1 \<and> entry l ! 0 = None | None \<Rightarrow> False)
   \<and> insert_nth 1 (Some x) (BaseList_new 1) = None"
  by (simp add: insert_nth_def BaseList_new_def room_for_one_def set_cell_def bl_length_def DEFAULT_CHUNK_SIZE_def)

end
