(* ===== verification/Glish_Dict.thy ===== *)
theory Glish_Dict
  imports Glish_Interfaces "HOL-Library.Multiset"
begin

text \<open>
  The string dictionaries of the interpreter (\<open>glish/Dict.cc\<close>, \<open>glish/include/Glish/Dict.h\<close>),
  which hold the scopes and the fields of every record. The entries live in a store of objects
  addressed by numbers; the chains and the order list hold addresses. A \<open>PList\<close> is used through the
  list it represents, which theory \<open>Glish_List\<close> justifies. The result \<open>None\<close> of an operation is the
  use of a deleted entry or an index outside the table; a value is \<open>None\<close> where the code has a null
  pointer.
\<close>

section \<open>Hashing and sizes\<close>

definition TOO_CROWDED :: nat where
  "TOO_CROWDED = 4"

definition DEFAULT_DICT_SIZE :: nat where
  "DEFAULT_DICT_SIZE = 5"

definition char_hash :: "u16 list" where
  "char_hash = [
     55927, 27986, 22456, 45590, 1689, 59121, 18631, 63603, 40390, 56613, 62650, 8113, 2737, 11977, 61089, 58842,
     2410, 61547, 41563, 2425, 20424, 37079, 57177, 43580, 2818, 31807, 3450, 55588, 25693, 34820, 36374, 45670,
     24319, 4387, 60183, 64226, 32995, 22335, 38465, 56125, 55526, 15942, 6802, 62109, 5118, 16579, 49603, 39680,
     29578, 64704, 53231, 55609, 38595, 25942, 38731, 4745, 10578, 17107, 50707, 16854, 43260, 19334, 28806, 1674,
     38008, 48937, 30983, 34571, 30050, 3819, 6245, 49362, 22343, 48154, 26676, 32810, 24032, 14186, 61786, 55688,
     19548, 10980, 24742, 40577, 61398, 14446, 41882, 59500, 32486, 55027, 53065, 29332, 8275, 38959, 21339, 7706,
     60134, 49432, 6958, 39270, 53338, 48876, 24343, 50503, 1391, 41684, 1990, 4527, 39197, 28210, 42439, 44036,
     3302, 39308, 7973, 63780, 57413, 57364, 21801, 29944, 8514, 63955, 9280, 45491, 13351, 36466, 16378, 53416,
     9293, 19109, 36143, 28358, 61455, 41524, 48188, 40625, 25056, 26791, 1387, 10877, 10361, 2702, 2417, 63241,
     42, 53610, 63504, 758, 57170, 15420, 16093, 6979, 14314, 5799, 8732, 65415, 32827, 39108, 49607, 20425,
     21680, 31107, 11438, 15871, 42182, 32184, 17336, 40226, 32031, 44490, 20295, 34794, 8374, 64499, 18618, 31019,
     17198, 50484, 64011, 20428, 22083, 14041, 13721, 22623, 64609, 17060, 34817, 5730, 53843, 27545, 58917, 10002,
     57876, 21861, 63822, 14310, 12482, 41068, 52078, 43695, 63920, 15470, 46462, 8522, 18586, 64469, 37382, 51966,
     50419, 53661, 21947, 60793, 41051, 50144, 20546, 50018, 47661, 15613, 30483, 27290, 10804, 1380, 15481, 15381,
     33917, 53249, 38069, 34638, 18503, 58179, 60226, 19308, 3095, 2248, 59956, 10223, 6376, 36263, 5562, 24342,
     18048, 48473, 24002, 25553, 2782, 57668, 59323, 3422, 52944, 28390, 29302, 10883, 47521, 44699, 54822, 52838]"

text \<open>The macro \<open>HASH\<close> is applied sixteen times and does nothing at the end of the string.\<close>

fun hash_chars :: "nat \<Rightarrow> string \<Rightarrow> u32 \<Rightarrow> u32" where
  "hash_chars 0 str hashval = hashval"
| "hash_chars (Suc n) [] hashval = hashval"
| "hash_chars (Suc n) (c # str) hashval =
     hash_chars n str (push_bit 2 hashval + ucast (char_hash ! of_char c))"

definition Hash :: "string \<Rightarrow> nat \<Rightarrow> nat" where
  "Hash str hash_size = unat (hash_chars 16 str 1) mod hash_size"

function prime_loop :: "nat \<Rightarrow> nat \<Rightarrow> bool" where
  "prime_loop j n = (if j * j \<le> n then if n mod j = 0 then False else prime_loop (j + 1) n else True)"
  by pat_completeness auto
termination
proof (relation "measure (\<lambda>(j, n). Suc n - j)", goal_cases)
  case (2 j n)
  then have "j \<le> n" by (metis le_square order.trans)
  then show ?case by simp
qed simp

declare prime_loop.simps [simp del]

definition IsPrime :: "nat \<Rightarrow> bool" where
  "IsPrime n = (if n mod 2 = 0 then False else prime_loop 3 n)"

lemma all_from: "(\<forall>i \<ge> j. P i) \<longleftrightarrow> P j \<and> (\<forall>i \<ge> j + 1. P i)" for j :: nat
  by (metis Suc_eq_plus1 Suc_leD le_refl not_less_eq_eq order_antisym)

lemma prime_loop_iff: "prime_loop j n \<longleftrightarrow> (\<forall>i \<ge> j. i * i \<le> n \<longrightarrow> \<not> i dvd n)"
proof (induction j n rule: prime_loop.induct)
  case (1 j n)
  have step: "prime_loop j n \<longleftrightarrow> (j * j \<le> n \<longrightarrow> \<not> j dvd n \<and> prime_loop (j + 1) n)"
    by (subst prime_loop.simps) (simp add: dvd_eq_mod_eq_0)
  show ?case
  proof (cases "j * j \<le> n \<and> \<not> j dvd n")
    case True
    then have "prime_loop (j + 1) n \<longleftrightarrow> (\<forall>i \<ge> j + 1. i * i \<le> n \<longrightarrow> \<not> i dvd n)"
      using 1 by (simp add: dvd_eq_mod_eq_0)
    with True show ?thesis by (subst all_from) (simp add: step)
  next
    case False
    show ?thesis
    proof (cases "j * j \<le> n")
      case True
      with False show ?thesis by (auto simp: step)
    next
      case False
      then have "\<not> i * i \<le> n" if "j \<le> i" for i using mult_le_mono [OF that that] by simp
      with False show ?thesis by (simp add: step)
    qed
  qed
qed

text \<open>There are arbitrarily large numbers the test accepts, so the search for the next one ends.\<close>

lemma IsPrime_above: "\<exists>p \<ge> n. IsPrime p"
proof -
  define m where "m = \<Prod>{1..n + 2} + 1"
  have "m \<noteq> 1" by (simp add: m_def)
  then have "m > 1" by (simp add: m_def)
  define q where "q = (LEAST d. 1 < d \<and> d dvd m)"
  have q: "1 < q" "q dvd m" and least: "\<And>d. 1 < d \<Longrightarrow> d dvd m \<Longrightarrow> q \<le> d"
    using LeastI [of "\<lambda>d. 1 < d \<and> d dvd m" m] Least_le [of "\<lambda>d. 1 < d \<and> d dvd m"] \<open>m > 1\<close>
    by (auto simp: q_def)
  have small: "\<not> d dvd m" if "1 < d" "d \<le> n + 2" for d
  proof
    assume "d dvd m"
    moreover have "d dvd \<Prod>{1..n + 2}" using that by (intro dvd_prod_eqI [of _ d]) auto
    ultimately have "d dvd 1" unfolding m_def by (metis dvd_add_right_iff)
    with that show False by simp
  qed
  have "n \<le> q" using small [of q] q by (metis nat_le_linear le_add1 order.trans)
  moreover have "odd q" using small [of 2] q(2) by (auto dest: dvd_trans)
  moreover have "\<not> i dvd q" if "3 \<le> i" "i * i \<le> q" for i
  proof
    assume "i dvd q"
    with q(2) that(1) least [of i] have "q \<le> i" by (auto dest: dvd_trans)
    with that(2) have "i * i \<le> i" by (rule order.trans)
    moreover have "3 * i \<le> i * i" using that(1) by (rule mult_le_mono1)
    ultimately show False using that(1) by linarith
  qed
  ultimately show ?thesis by (intro exI [of _ q]) (auto simp: IsPrime_def prime_loop_iff even_iff_mod_2_eq_zero)
qed

function NextPrime :: "nat \<Rightarrow> nat" where
  "NextPrime n = (if IsPrime n then n else NextPrime (n + 1))"
  by pat_completeness auto
termination
proof (relation "measure (\<lambda>n. (LEAST p. n \<le> p \<and> IsPrime p) - n)", goal_cases)
  case (2 n)
  define p where "p = (LEAST p. n \<le> p \<and> IsPrime p)"
  have p: "n \<le> p" "IsPrime p" using IsPrime_above [of n] LeastI_ex [of "\<lambda>p. n \<le> p \<and> IsPrime p"] by (auto simp: p_def)
  with 2 have "n + 1 \<le> p" by (metis Suc_eq_plus1 Suc_leI order.order_iff_strict)
  moreover have "(LEAST q. n + 1 \<le> q \<and> IsPrime q) \<le> p" using p \<open>n + 1 \<le> p\<close> by (intro Least_le) simp
  ultimately show ?case by (simp flip: p_def)
qed simp

declare NextPrime.simps [simp del]

lemma NextPrime_prime: "IsPrime (NextPrime n) \<and> n \<le> NextPrime n"
  by (induction n rule: NextPrime.induct) (subst (1 2) NextPrime.simps, auto)

lemma NextPrime_pos: "0 < NextPrime n"
  using NextPrime_prime [of n] by (cases "NextPrime n") (auto simp: IsPrime_def)

section \<open>Dictionaries\<close>

record 'v DictEntry =
  key :: string
  val :: "'v option"

datatype dict_order = ORDERED | UNORDERED

record 'v Dictionary =
  tbl :: "nat list option list"
  order :: "nat list option"
  num_buckets :: nat
  num_entries :: nat
  heap :: "nat \<Rightarrow> 'v DictEntry option"
  fresh :: nat

definition Dict_Init :: "nat \<Rightarrow> 'v Dictionary \<Rightarrow> 'v Dictionary" where
  "Dict_Init sz d =
     (let n = NextPrime sz in d\<lparr>num_buckets := n, tbl := replicate n None, num_entries := 0\<rparr>)"

definition Dictionary_new :: "dict_order \<Rightarrow> nat \<Rightarrow> 'v Dictionary" where
  "Dictionary_new o_type initial_size =
     (Dict_Init initial_size \<lparr>tbl = [], order = None, num_buckets = 0, num_entries = 0, heap = Map.empty, fresh = 0\<rparr>)
       \<lparr>order := (if o_type = ORDERED then Some [] else None)\<rparr>"

text \<open>The loop over a chain: the first entry with the key.\<close>

fun find_key :: "(nat \<Rightarrow> 'v DictEntry option) \<Rightarrow> string \<Rightarrow> nat list \<Rightarrow> nat option option" where
  "find_key E k [] = Some None"
| "find_key E k (a # chain) = do {
     e \<leftarrow> E a;
     if key e = k then Some (Some a) else find_key E k chain }"

definition bucket_at :: "'v Dictionary \<Rightarrow> nat \<Rightarrow> nat list option option" where
  "bucket_at d h = (if h < length (tbl d) then Some (tbl d ! h) else None)"

text \<open>The private \<open>Insert( DictEntry* )\<close>: the old value and the changed dictionary.\<close>

definition Insert_entry :: "nat \<Rightarrow> 'v Dictionary \<Rightarrow> ('v option \<times> 'v Dictionary) option" where
  "Insert_entry a d = do {
     new_entry \<leftarrow> heap d a;
     let h = Hash (key new_entry) (num_buckets d);
     chain \<leftarrow> bucket_at d h;
     found \<leftarrow> (case chain of None \<Rightarrow> Some None | Some c \<Rightarrow> find_key (heap d) (key new_entry) c);
     case found of
       Some b \<Rightarrow> do {
         e \<leftarrow> heap d b;
         Some (val e, d\<lparr>heap := (heap d)(b \<mapsto> e\<lparr>val := val new_entry\<rparr>)\<rparr>) }
     | None \<Rightarrow>
         let c = (case chain of None \<Rightarrow> [] | Some c \<Rightarrow> c)
         in Some (None, d\<lparr>tbl := (tbl d)[h := Some (c @ [a])], num_entries := num_entries d + 1\<rparr>) }"

fun Insert_all :: "nat list \<Rightarrow> 'v Dictionary \<Rightarrow> 'v Dictionary option" where
  "Insert_all [] d = Some d"
| "Insert_all (a # as) d = do { (old, d) \<leftarrow> Insert_entry a d; Insert_all as d }"

definition chain_lists :: "nat list option list \<Rightarrow> nat list list" where
  "chain_lists t = map (\<lambda>c. case c of None \<Rightarrow> [] | Some c \<Rightarrow> c) t"

definition ChangeSize :: "nat \<Rightarrow> 'v Dictionary \<Rightarrow> 'v Dictionary option" where
  "ChangeSize new_size d =
     (let current = (case order d of Some os \<Rightarrow> os | None \<Rightarrow> concat (chain_lists (tbl d)))
      in Insert_all current (Dict_Init new_size d))"

definition Dict_Insert :: "string \<Rightarrow> 'v option \<Rightarrow> 'v Dictionary \<Rightarrow> ('v option \<times> 'v Dictionary) option" where
  "Dict_Insert k v d = do {
     let a = fresh d;
     let d = d\<lparr>heap := (heap d)(a \<mapsto> \<lparr>key = k, val = v\<rparr>), fresh := a + 1\<rparr>;
     (old_val, d) \<leftarrow> Insert_entry a d;
     let d = (if old_val \<noteq> None then d\<lparr>heap := (heap d)(a := None)\<rparr>
              else d\<lparr>order := map_option (\<lambda>os. os @ [a]) (order d)\<rparr>);
     d \<leftarrow> (if num_entries d div num_buckets d \<ge> TOO_CROWDED then ChangeSize (num_buckets d * 2) d else Some d);
     Some (old_val, d) }"

definition Lookup :: "'v Dictionary \<Rightarrow> string \<Rightarrow> 'v option option" where
  "Lookup d k = do {
     chain \<leftarrow> bucket_at d (Hash k (num_buckets d));
     found \<leftarrow> (case chain of None \<Rightarrow> Some None | Some c \<Rightarrow> find_key (heap d) k c);
     case found of
       None \<Rightarrow> Some None
     | Some a \<Rightarrow> do { e \<leftarrow> heap d a; Some (val e) } }"

definition Dict_Remove :: "string \<Rightarrow> 'v Dictionary \<Rightarrow> (string option \<times> 'v Dictionary) option" where
  "Dict_Remove k d = do {
     let h = Hash k (num_buckets d);
     chain \<leftarrow> bucket_at d h;
     found \<leftarrow> (case chain of None \<Rightarrow> Some None | Some c \<Rightarrow> find_key (heap d) k c);
     case found of
       None \<Rightarrow> Some (None, d)
     | Some a \<Rightarrow> do {
         e \<leftarrow> heap d a;
         let d = d\<lparr>tbl := (tbl d)[h := map_option (remove1 a) chain]\<rparr>;
         let d = d\<lparr>order := map_option (remove1 a) (order d)\<rparr>;
         Some (Some (key e), d\<lparr>heap := (heap d)(a := None), num_entries := num_entries d - 1\<rparr>) } }"

definition NthEntry :: "'v Dictionary \<Rightarrow> int \<Rightarrow> (string \<times> 'v option) option option" where
  "NthEntry d n = (case order d of
     None \<Rightarrow> Some None
   | Some os \<Rightarrow>
       if n < 0 \<or> n \<ge> int (num_entries d) then Some None
       else if nat n < length os then do { e \<leftarrow> heap d (os ! nat n); Some (Some (key e, val e)) }
       else None)"

text \<open>\<open>delete tbl[i]->remove_nth( tbl[i]->length() - 1 )\<close> until the chain is empty, for every chain.\<close>

fun delete_all :: "nat list \<Rightarrow> (nat \<Rightarrow> 'v DictEntry option) \<Rightarrow> (nat \<Rightarrow> 'v DictEntry option) option" where
  "delete_all [] E = Some E"
| "delete_all (a # as) E = (if E a = None then None else delete_all as (E(a := None)))"

definition Dict_Clear :: "'v Dictionary \<Rightarrow> 'v Dictionary option" where
  "Dict_Clear d = do {
     E \<leftarrow> delete_all (concat (map rev (chain_lists (tbl d)))) (heap d);
     Some (d\<lparr>heap := E, tbl := map (\<lambda>_. None) (tbl d), order := map_option (\<lambda>_. []) (order d), num_entries := 0\<rparr>) }"

text \<open>Iteration: the bucket and the offset in it at which to look for the next entry.\<close>

type_synonym IterCookie = "nat \<times> nat"

definition InitForIteration :: IterCookie where
  "InitForIteration = (0, 0)"

text \<open>The loop over empty buckets: the next one with an entry, or the number of buckets.\<close>

fun skip_empty :: "nat \<Rightarrow> nat list list \<Rightarrow> nat" where
  "skip_empty b [] = b"
| "skip_empty b (c # cs) = (if c = [] then skip_empty (b + 1) cs else b)"

definition NextEntry :: "'v Dictionary \<Rightarrow> IterCookie \<Rightarrow> ((string \<times> 'v option) option \<times> IterCookie) option" where
  "NextEntry d cookie = (case cookie of (b, n) \<Rightarrow> do {
     chain \<leftarrow> bucket_at d b;
     let c = (case chain of None \<Rightarrow> [] | Some c \<Rightarrow> c);
     if n < length c then do { e \<leftarrow> heap d (c ! n); Some (Some (key e, val e), (b, n + 1)) }
     else
       let b = skip_empty (b + 1) (drop (b + 1) (chain_lists (tbl d))) in
       if b \<ge> num_buckets d then Some (None, cookie)
       else do { e \<leftarrow> heap d (chain_lists (tbl d) ! b ! 0); Some (Some (key e, val e), (b, 1)) } })"


section \<open>The invariant\<close>

definition ekey :: "(nat \<Rightarrow> 'v DictEntry option) \<Rightarrow> nat \<Rightarrow> string" where
  "ekey E a = key (the (E a))"

definition flat :: "nat list list \<Rightarrow> nat list" where
  "flat ch = concat ch"

text \<open>Every entry is in the bucket its key hashes to, and no key occurs twice.\<close>

definition placed :: "(nat \<Rightarrow> 'v DictEntry option) \<Rightarrow> nat \<Rightarrow> nat list list \<Rightarrow> bool" where
  "placed E nb ch \<longleftrightarrow> length ch = nb \<and> 0 < nb
     \<and> (\<forall>h < nb. \<forall>a \<in> set (ch ! h). E a \<noteq> None \<and> Hash (ekey E a) nb = h)
     \<and> distinct (map (ekey E) (flat ch))"

definition dict_ok :: "'v Dictionary \<Rightarrow> bool" where
  "dict_ok d \<longleftrightarrow> placed (heap d) (num_buckets d) (chain_lists (tbl d))
     \<and> num_entries d = length (flat (chain_lists (tbl d)))
     \<and> dom (heap d) = set (flat (chain_lists (tbl d)))
     \<and> (\<forall>a e. heap d a = Some e \<longrightarrow> a < fresh d \<and> val e \<noteq> None)
     \<and> (\<forall>os. order d = Some os \<longrightarrow> mset os = mset (flat (chain_lists (tbl d))))"

lemma Hash_less: "0 < n \<Longrightarrow> Hash k n < n"
  by (simp add: Hash_def)

lemma length_chains [simp]: "length (chain_lists t) = length t"
  by (simp add: chain_lists_def)

lemma chain_lists_update: "chain_lists (t[h := Some c]) = (chain_lists t)[h := c]"
  by (simp add: chain_lists_def map_update)

lemma chain_lists_nth: "h < length t \<Longrightarrow> chain_lists t ! h = (case t ! h of None \<Rightarrow> [] | Some c \<Rightarrow> c)"
  by (simp add: chain_lists_def)

lemma mset_flat_update:
  "h < length ch \<Longrightarrow> mset (flat (ch[h := c])) + mset (ch ! h) = mset (flat ch) + mset c"
  unfolding flat_def by (rule mset_concat_update)

lemma distinct_keys_mset: "mset xs = mset ys \<Longrightarrow> distinct (map f xs) \<longleftrightarrow> distinct (map f ys)"
  by (metis mset_eq_imp_distinct_iff mset_map)

lemma in_flat: "a \<in> set (flat ch) \<longleftrightarrow> (\<exists>h < length ch. a \<in> set (ch ! h))"
  by (simp add: flat_def) (metis in_set_conv_nth)

lemma placed_bucket:
  assumes "placed E nb ch" and "a \<in> set (flat ch)"
  shows "a \<in> set (ch ! Hash (ekey E a) nb)"
proof -
  obtain h where "h < length ch" "a \<in> set (ch ! h)" using assms(2) by (auto simp: in_flat)
  with assms(1) show ?thesis by (auto simp: placed_def)
qed

lemma find_key_hit:
  "a \<in> set c \<Longrightarrow> \<forall>b \<in> set c. E b \<noteq> None \<Longrightarrow> distinct (map (ekey E) c) \<Longrightarrow> find_key E (ekey E a) c = Some (Some a)"
  by (induction c) (auto simp: ekey_def)

lemma find_key_miss: "\<forall>b \<in> set c. E b \<noteq> None \<and> ekey E b \<noteq> k \<Longrightarrow> find_key E k c = Some None"
  by (induction c) (auto simp: ekey_def)

lemma distinct_flat_nth: "distinct (map f (flat ch)) \<Longrightarrow> h < length ch \<Longrightarrow> distinct (map f (ch ! h))"
  unfolding flat_def
proof (induction ch arbitrary: h)
  case (Cons c ch)
  then show ?case by (cases h) auto
qed simp

lemma placed_chain_distinct: "placed E nb ch \<Longrightarrow> h < nb \<Longrightarrow> distinct (map (ekey E) (ch ! h))"
  by (simp add: placed_def distinct_flat_nth)

lemma placed_hit:
  assumes "placed E nb ch" and "a \<in> set (flat ch)"
  shows "find_key E (ekey E a) (ch ! Hash (ekey E a) nb) = Some (Some a)"
proof -
  have h: "Hash (ekey E a) nb < nb" using assms(1) Hash_less by (simp add: placed_def)
  with assms show ?thesis
    by (intro find_key_hit placed_bucket placed_chain_distinct) (auto simp: placed_def)
qed

lemma placed_miss:
  assumes "placed E nb ch" and "k \<notin> ekey E ` set (flat ch)"
  shows "find_key E k (ch ! Hash k nb) = Some None"
proof -
  have h: "Hash k nb < nb" using assms(1) Hash_less by (simp add: placed_def)
  then have "set (ch ! Hash k nb) \<subseteq> set (flat ch)" using assms(1) by (auto simp: placed_def in_flat)
  with assms h show ?thesis by (intro find_key_miss) (auto simp: placed_def)
qed

lemma found_chain:
  assumes "placed E nb (chain_lists t)"
  shows "Hash k nb < length t"
    and "(case t ! Hash k nb of None \<Rightarrow> Some None | Some c \<Rightarrow> find_key E k c) = find_key E k (chain_lists t ! Hash k nb)"
proof -
  show h: "Hash k nb < length t" using assms Hash_less [of nb k] by (simp add: placed_def)
  show "(case t ! Hash k nb of None \<Rightarrow> Some None | Some c \<Rightarrow> find_key E k c) = find_key E k (chain_lists t ! Hash k nb)"
    by (simp add: chain_lists_nth [OF h] split: option.splits)
qed

section \<open>Looking up\<close>

lemma dict_inj:
  assumes "dict_ok d" and "heap d a = Some e" and "heap d b = Some e'" and "key e = key e'"
  shows "a = b"
proof -
  have "inj_on (ekey (heap d)) (set (flat (chain_lists (tbl d))))" "a \<in> set (flat (chain_lists (tbl d)))" "b \<in> set (flat (chain_lists (tbl d)))"
    using assms(1-3) by (auto simp: dict_ok_def placed_def distinct_map)
  moreover have "ekey (heap d) a = ekey (heap d) b" using assms(2-4) by (simp add: ekey_def)
  ultimately show ?thesis by (meson inj_onD)
qed

lemma Lookup_hit:
  assumes "dict_ok d" and "heap d a = Some e"
  shows "Lookup d (key e) = Some (val e)"
proof -
  have p: "placed (heap d) (num_buckets d) (chain_lists (tbl d))" and a: "a \<in> set (flat (chain_lists (tbl d)))"
    using assms by (auto simp: dict_ok_def)
  have "ekey (heap d) a = key e" using assms(2) by (simp add: ekey_def)
  with placed_hit [OF p a] found_chain [OF p, of "key e"] assms(2) show ?thesis
    by (simp add: Lookup_def bucket_at_def)
qed

lemma Lookup_miss:
  assumes "dict_ok d" and "\<And>a e. heap d a = Some e \<Longrightarrow> key e \<noteq> k"
  shows "Lookup d k = Some None"
proof -
  have p: "placed (heap d) (num_buckets d) (chain_lists (tbl d))"
    using assms by (auto simp: dict_ok_def)
  have "k \<notin> ekey (heap d) ` set (flat (chain_lists (tbl d)))"
  proof
    assume "k \<in> ekey (heap d) ` set (flat (chain_lists (tbl d)))"
    then obtain a where "a \<in> dom (heap d)" "k = ekey (heap d) a" using assms(1) by (auto simp: dict_ok_def)
    then obtain e where "heap d a = Some e" "key e = k" by (auto simp: ekey_def)
    with assms(2) show False by blast
  qed
  with placed_miss [OF p] found_chain [OF p, of k] show ?thesis
    by (simp add: Lookup_def bucket_at_def)
qed

text \<open>The finite map a dictionary stands for.\<close>

definition dict_get :: "'v Dictionary \<Rightarrow> string \<Rightarrow> 'v option" where
  "dict_get d k = (case Lookup d k of None \<Rightarrow> None | Some v \<Rightarrow> v)"

lemma Lookup_get: "dict_ok d \<Longrightarrow> Lookup d k = Some (dict_get d k)"
proof (cases "\<exists>a e. heap d a = Some e \<and> key e = k")
  case True
  moreover assume "dict_ok d"
  ultimately show ?thesis using Lookup_hit by (fastforce simp: dict_get_def)
next
  case False
  moreover assume "dict_ok d"
  ultimately show ?thesis using Lookup_miss [of d k] by (auto simp: dict_get_def)
qed

lemma get_iff:
  assumes "dict_ok d"
  shows "dict_get d k = Some v \<longleftrightarrow> (\<exists>a e. heap d a = Some e \<and> key e = k \<and> val e = Some v)"
proof (cases "\<exists>a e. heap d a = Some e \<and> key e = k")
  case True
  then obtain a e where a: "heap d a = Some e" "key e = k" by blast
  have g: "dict_get d k = val e" using Lookup_hit [OF assms a(1)] a(2) by (simp add: dict_get_def)
  show ?thesis
  proof
    assume "dict_get d k = Some v"
    with g a show "\<exists>a e. heap d a = Some e \<and> key e = k \<and> val e = Some v" by auto
  next
    assume "\<exists>a e. heap d a = Some e \<and> key e = k \<and> val e = Some v"
    then obtain b e' where b: "heap d b = Some e'" "key e' = k" "val e' = Some v" by blast
    have "b = a" using dict_inj [OF assms b(1) a(1)] a(2) b(2) by simp
    with a(1) b(1,3) g show "dict_get d k = Some v" by simp
  qed
next
  case False
  with Lookup_miss [OF assms, of k] show ?thesis by (auto simp: dict_get_def)
qed

lemma get_eqI:
  assumes "dict_ok d" and "\<And>k v. m k = Some v \<longleftrightarrow> (\<exists>a e. heap d a = Some e \<and> key e = k \<and> val e = Some v)"
  shows "dict_get d = m"
proof
  fix k
  have "dict_get d k = Some v \<longleftrightarrow> m k = Some v" for v
    unfolding get_iff [OF assms(1)] assms(2) ..
  then have eq: "\<forall>v. dict_get d k = Some v \<longleftrightarrow> m k = Some v" ..
  show "dict_get d k = m k"
  proof (cases "m k")
    case None
    with eq show ?thesis by simp
  next
    case (Some v)
    with eq show ?thesis by simp
  qed
qed

lemma get_None:
  assumes "dict_ok d"
  shows "dict_get d k = None \<longleftrightarrow> k \<notin> ekey (heap d) ` dom (heap d)"
proof -
  have "dict_get d k \<noteq> None \<longleftrightarrow> (\<exists>a e. heap d a = Some e \<and> key e = k)"
  proof
    assume "\<exists>a e. heap d a = Some e \<and> key e = k"
    then obtain a e where a: "heap d a = Some e" "key e = k" by blast
    then have "val e \<noteq> None" using assms by (auto simp: dict_ok_def)
    then obtain v where "val e = Some v" by blast
    with a get_iff [OF assms, of k v] show "dict_get d k \<noteq> None" by auto
  next
    assume "dict_get d k \<noteq> None"
    then obtain v where "dict_get d k = Some v" by blast
    with get_iff [OF assms, of k v] show "\<exists>a e. heap d a = Some e \<and> key e = k" by blast
  qed
  moreover have "(\<exists>a e. heap d a = Some e \<and> key e = k) \<longleftrightarrow> k \<in> ekey (heap d) ` dom (heap d)"
    by (force simp: ekey_def)
  ultimately show ?thesis by blast
qed

section \<open>Adding entries\<close>

lemma placed_add:
  assumes "placed E nb ch" and "E a \<noteq> None" and "ekey E a \<notin> ekey E ` set (flat ch)"
  defines "h \<equiv> Hash (ekey E a) nb"
  shows "placed E nb (ch[h := ch ! h @ [a]])"
    and "mset (flat (ch[h := ch ! h @ [a]])) = add_mset a (mset (flat ch))"
proof -
  have h: "h < length ch" "length ch = nb" using assms(1) Hash_less by (simp_all add: placed_def h_def)
  show m: "mset (flat (ch[h := ch ! h @ [a]])) = add_mset a (mset (flat ch))"
    using mset_flat_update [OF h(1), of "ch ! h @ [a]"] by simp
  have "distinct (map (ekey E) (a # flat ch))" using assms(1,3) by (simp add: placed_def)
  with distinct_keys_mset [of "flat (ch[h := ch ! h @ [a]])" "a # flat ch" "ekey E"] m
  have "distinct (map (ekey E) (flat (ch[h := ch ! h @ [a]])))" by simp
  then show "placed E nb (ch[h := ch ! h @ [a]])"
    using assms(1,2) h by (auto simp: placed_def nth_list_update h_def)
qed

lemma Insert_entry_new:
  assumes "placed (heap d) (num_buckets d) (chain_lists (tbl d))" and "heap d a = Some ne"
    and "key ne \<notin> ekey (heap d) ` set (flat (chain_lists (tbl d)))"
  shows "\<exists>t. Insert_entry a d = Some (None, d\<lparr>tbl := t, num_entries := num_entries d + 1\<rparr>)
    \<and> placed (heap d) (num_buckets d) (chain_lists t) \<and> mset (flat (chain_lists t)) = add_mset a (mset (flat (chain_lists (tbl d))))"
proof -
  let ?h = "Hash (key ne) (num_buckets d)"
  let ?t = "(tbl d)[?h := Some (chain_lists (tbl d) ! ?h @ [a])]"
  have k: "ekey (heap d) a = key ne" using assms(2) by (simp add: ekey_def)
  note f = found_chain [OF assms(1), of "key ne"]
  have "Insert_entry a d = Some (None, d\<lparr>tbl := ?t, num_entries := num_entries d + 1\<rparr>)"
    using assms(2) placed_miss [OF assms(1,3)] f
    by (simp add: Insert_entry_def bucket_at_def chain_lists_nth [OF f(1)]) (simp add: Let_def)
  with placed_add [OF assms(1), of a] assms(2,3) k show ?thesis
    by (intro exI [of _ ?t]) (simp add: chain_lists_update)
qed

lemma Insert_entry_old:
  assumes "placed (heap d) (num_buckets d) (chain_lists (tbl d))" and "heap d a = Some ne"
    and "b \<in> set (flat (chain_lists (tbl d)))" and "heap d b = Some e" and "key e = key ne"
  shows "Insert_entry a d = Some (val e, d\<lparr>heap := (heap d)(b \<mapsto> e\<lparr>val := val ne\<rparr>)\<rparr>)"
proof -
  have k: "ekey (heap d) b = key ne" using assms(4,5) by (simp add: ekey_def)
  with placed_hit [OF assms(1,3)] found_chain [OF assms(1), of "key ne"] assms(2,4) show ?thesis
    by (simp add: Insert_entry_def bucket_at_def)
qed

lemma Insert_all_rep:
  assumes "placed (heap d) (num_buckets d) (chain_lists (tbl d))" and "\<forall>a \<in> set as. heap d a \<noteq> None"
    and "distinct (map (ekey (heap d)) (flat (chain_lists (tbl d)) @ as))"
  shows "\<exists>t. Insert_all as d = Some (d\<lparr>tbl := t, num_entries := num_entries d + length as\<rparr>)
    \<and> placed (heap d) (num_buckets d) (chain_lists t) \<and> mset (flat (chain_lists t)) = mset (flat (chain_lists (tbl d))) + mset as"
  using assms
proof (induction as arbitrary: d)
  case (Cons a as)
  obtain ne where ne: "heap d a = Some ne" using Cons.prems(2) by auto
  have "key ne \<notin> ekey (heap d) ` set (flat (chain_lists (tbl d)))"
    using Cons.prems(3) ne by (auto simp: ekey_def [of _ a])
  then obtain t1 where t1: "Insert_entry a d = Some (None, d\<lparr>tbl := t1, num_entries := num_entries d + 1\<rparr>)"
    "placed (heap d) (num_buckets d) (chain_lists t1)" "mset (flat (chain_lists t1)) = add_mset a (mset (flat (chain_lists (tbl d))))"
    using Insert_entry_new [OF Cons.prems(1) ne] by blast
  let ?d = "d\<lparr>tbl := t1, num_entries := num_entries d + 1\<rparr>"
  have "mset (flat (chain_lists t1) @ as) = mset (flat (chain_lists (tbl d)) @ a # as)" using t1(3) by simp
  from distinct_keys_mset [OF this, of "ekey (heap d)"] Cons.prems(3)
  have "distinct (map (ekey (heap ?d)) (flat (chain_lists (tbl ?d)) @ as))" by simp
  from Cons.IH [of ?d, OF _ _ this] t1(2) Cons.prems(2) obtain t where
    "Insert_all as ?d = Some (?d\<lparr>tbl := t, num_entries := num_entries ?d + length as\<rparr>)"
    "placed (heap d) (num_buckets d) (chain_lists t)" "mset (flat (chain_lists t)) = mset (flat (chain_lists t1)) + mset as" by auto
  with t1(1,3) show ?case by (intro exI [of _ t]) simp
next
  case Nil
  then show ?case by (intro exI [of _ "tbl d"]) simp
qed

lemma Dict_Init_simps [simp]:
  "flat (chain_lists (tbl (Dict_Init n d))) = []" "heap (Dict_Init n d) = heap d" "num_entries (Dict_Init n d) = 0"
  "order (Dict_Init n d) = order d" "fresh (Dict_Init n d) = fresh d"
  by (simp_all add: Dict_Init_def Let_def chain_lists_def flat_def)

lemma Dict_Init_placed: "placed E (num_buckets (Dict_Init n d)) (chain_lists (tbl (Dict_Init n d)))"
  using NextPrime_pos [of n] by (simp add: placed_def) (simp add: Dict_Init_def Let_def chain_lists_def)

lemma ChangeSize_ok:
  assumes "dict_ok d"
  shows "\<exists>d'. ChangeSize n d = Some d' \<and> dict_ok d' \<and> heap d' = heap d \<and> order d' = order d"
proof -
  let ?d = "Dict_Init n d"
  define cur where "cur = (case order d of Some os \<Rightarrow> os | None \<Rightarrow> flat (chain_lists (tbl d)))"
  have cur: "cur = (case order d of Some os \<Rightarrow> os | None \<Rightarrow> concat (chain_lists (tbl d)))" by (simp only: cur_def flat_def)
  have m: "mset cur = mset (flat (chain_lists (tbl d)))"
    using assms by (auto simp: cur_def dict_ok_def split: option.splits)
  then have s: "set cur = dom (heap d)" and l: "length cur = num_entries d"
    using assms mset_eq_setD [OF m] mset_eq_length [OF m] by (simp_all add: dict_ok_def)
  have "distinct (map (ekey (heap d)) cur)"
    using distinct_keys_mset [OF m, of "ekey (heap d)"] assms by (simp add: dict_ok_def placed_def)
  then obtain t where t: "Insert_all cur ?d = Some (?d\<lparr>tbl := t, num_entries := length cur\<rparr>)"
    "placed (heap d) (num_buckets ?d) (chain_lists t)" "mset (flat (chain_lists t)) = mset cur"
    using Insert_all_rep [of ?d cur] Dict_Init_placed [of "heap d" n d] s by (auto simp: dom_def)
  let ?d' = "?d\<lparr>tbl := t, num_entries := length cur\<rparr>"
  have "set (flat (chain_lists t)) = dom (heap d)" "length (flat (chain_lists t)) = length cur"
    using t(3) s by (metis mset_eq_setD, metis mset_eq_length)
  then have "dict_ok ?d'"
    using t(2,3) m assms unfolding dict_ok_def by simp
  moreover have "ChangeSize n d = Some ?d'" using t(1) by (simp add: ChangeSize_def Let_def flip: cur)
  ultimately show ?thesis by (intro exI [of _ ?d']) simp
qed

text \<open>The keys of an ordered dictionary, in its order.\<close>

definition okeys :: "'v Dictionary \<Rightarrow> string list option" where
  "okeys d = map_option (map (ekey (heap d))) (order d)"

lemma Dictionary_new_ok: "dict_ok (Dictionary_new o_type n)" "dict_get (Dictionary_new o_type n) = Map.empty"
  "okeys (Dictionary_new o_type n) = (if o_type = ORDERED then Some [] else None)"
proof -
  show ok: "dict_ok (Dictionary_new o_type n)"
    using Dict_Init_placed by (simp add: dict_ok_def Dictionary_new_def flat_def [symmetric])
  show "dict_get (Dictionary_new o_type n) = Map.empty"
    by (rule get_eqI [OF ok]) (simp add: Dictionary_new_def)
  show "okeys (Dictionary_new o_type n) = (if o_type = ORDERED then Some [] else None)"
    by (simp add: okeys_def Dictionary_new_def)
qed

text \<open>Keeping the table from crowding does not change what it holds.\<close>

lemma uncrowd_ok:
  assumes "dict_ok d"
  shows "\<exists>d'. (if num_entries d div num_buckets d \<ge> TOO_CROWDED then ChangeSize (num_buckets d * 2) d else Some d) = Some d'
    \<and> dict_ok d' \<and> dict_get d' = dict_get d \<and> okeys d' = okeys d"
proof (cases "num_entries d div num_buckets d \<ge> TOO_CROWDED")
  case True
  obtain d' where d': "ChangeSize (num_buckets d * 2) d = Some d'" "dict_ok d'" "heap d' = heap d" "order d' = order d"
    using ChangeSize_ok [OF assms] by blast
  have "dict_get d' = dict_get d" by (rule get_eqI [OF d'(2)]) (simp add: get_iff [OF assms] d'(3))
  with True d' show ?thesis by (simp add: okeys_def)
next
  case False
  with assms show ?thesis by simp
qed

lemma placed_cong:
  assumes "placed E nb ch" and "\<And>a. a \<in> set (flat ch) \<Longrightarrow> E' a = E a"
  shows "placed E' nb ch"
proof -
  have ek: "a \<in> set (flat ch) \<Longrightarrow> ekey E' a = ekey E a" for a using assms(2) by (simp add: ekey_def)
  then have "map (ekey E') (flat ch) = map (ekey E) (flat ch)" by simp
  then have "distinct (map (ekey E') (flat ch))" using assms(1) by (simp only: placed_def)
  moreover have "E' a \<noteq> None \<and> Hash (ekey E' a) nb = h" if "h < nb" "a \<in> set (ch ! h)" for h a
  proof -
    have "a \<in> set (flat ch)" using that assms(1) by (auto simp: in_flat placed_def)
    with that assms ek [of a] show ?thesis by (simp add: placed_def)
  qed
  ultimately show ?thesis using assms(1) by (simp add: placed_def)
qed

text \<open>The part of \<open>Insert\<close> before that.\<close>

lemma add_new_ok:
  fixes d :: "'v Dictionary" and v :: 'v
  assumes "dict_ok d" and "dict_get d k = None"
  defines "d0 \<equiv> d\<lparr>heap := (heap d)(fresh d \<mapsto> \<lparr>key = k, val = Some v\<rparr>), fresh := fresh d + 1\<rparr>"
  shows "\<exists>d1. Insert_entry (fresh d) d0 = Some (None, d1)
    \<and> dict_ok (d1\<lparr>order := map_option (\<lambda>os. os @ [fresh d]) (order d1)\<rparr>)
    \<and> dict_get (d1\<lparr>order := map_option (\<lambda>os. os @ [fresh d]) (order d1)\<rparr>) = (dict_get d)(k \<mapsto> v)
    \<and> okeys (d1\<lparr>order := map_option (\<lambda>os. os @ [fresh d]) (order d1)\<rparr>) = map_option (\<lambda>ks. ks @ [k]) (okeys d)"
proof -
  let ?a = "fresh d" and ?ch = "chain_lists (tbl d)"
  have ok: "placed (heap d) (num_buckets d) ?ch" "num_entries d = length (flat ?ch)" "dom (heap d) = set (flat ?ch)"
    "\<And>a e. heap d a = Some e \<Longrightarrow> a < ?a \<and> val e \<noteq> None" "\<And>os. order d = Some os \<Longrightarrow> mset os = mset (flat ?ch)"
    using assms(1) by (auto simp: dict_ok_def)
  have fr: "?a \<notin> dom (heap d)" using ok(4) [of ?a] by auto
  have ek: "ekey (heap d0) a = ekey (heap d) a" if "a \<in> set (flat ?ch)" for a
    using that fr ok(3) by (auto simp: ekey_def d0_def)
  have "placed (heap d0) (num_buckets d) ?ch"
    using ok(1) by (rule placed_cong) (use fr ok(3) in \<open>auto simp: d0_def\<close>)
  then have p0: "placed (heap d0) (num_buckets d0) (chain_lists (tbl d0))" by (simp add: d0_def)
  have "k \<notin> ekey (heap d) ` set (flat ?ch)" using assms(2) get_None [OF assms(1), of k] ok(3) by simp
  then have "k \<notin> ekey (heap d0) ` set (flat ?ch)" using ek by auto
  then have "k \<notin> ekey (heap d0) ` set (flat (chain_lists (tbl d0)))" by (simp add: d0_def)
  moreover have "heap d0 ?a = Some \<lparr>key = k, val = Some v\<rparr>" by (simp add: d0_def)
  ultimately obtain t where t: "Insert_entry ?a d0 = Some (None, d0\<lparr>tbl := t, num_entries := num_entries d0 + 1\<rparr>)"
    "placed (heap d0) (num_buckets d0) (chain_lists t)" "mset (flat (chain_lists t)) = add_mset ?a (mset (flat (chain_lists (tbl d0))))"
    using Insert_entry_new [OF p0, of ?a] by auto
  have tb: "tbl d0 = tbl d" "num_buckets d0 = num_buckets d" "num_entries d0 = num_entries d" "order d0 = order d" "fresh d0 = ?a + 1"
    by (simp_all add: d0_def)
  let ?d1 = "d0\<lparr>tbl := t, num_entries := num_entries d0 + 1\<rparr>"
  let ?d2 = "?d1\<lparr>order := map_option (\<lambda>os. os @ [?a]) (order ?d1)\<rparr>"
  have s: "set (flat (chain_lists t)) = insert ?a (set (flat ?ch))" "length (flat (chain_lists t)) = Suc (length (flat ?ch))"
    using t(3) tb(1) by (metis set_mset_add_mset_insert set_mset_mset, metis size_add_mset size_mset)
  have "dom (heap d0) = set (flat (chain_lists t))" using s(1) ok(3) by (simp add: d0_def)
  moreover have "b < fresh d0 \<and> val e \<noteq> None" if "heap d0 b = Some e" for b e
    using that ok(4) [of b e] tb(5) by (cases "b = ?a") (auto simp: d0_def)
  ultimately have ok2: "dict_ok ?d2"
    unfolding dict_ok_def using t(2,3) s(2) ok(2,5) tb by auto
  have "dict_get ?d2 = (dict_get d)(k \<mapsto> v)"
  proof (rule get_eqI [OF ok2])
    fix k' v'
    have "heap d0 a = Some e \<longleftrightarrow> a = ?a \<and> e = \<lparr>key = k, val = Some v\<rparr> \<or> heap d a = Some e" for a e
      using fr by (auto simp: d0_def)
    then have "(\<exists>a e. heap d0 a = Some e \<and> key e = k' \<and> val e = Some v')
        \<longleftrightarrow> k' = k \<and> v' = v \<or> (\<exists>a e. heap d a = Some e \<and> key e = k' \<and> val e = Some v')"
      by (simp add: conj_disj_distribR ex_disj_distrib) auto
    moreover have "dict_get d k \<noteq> Some v'" using assms(2) by simp
    ultimately show "((dict_get d)(k \<mapsto> v)) k' = Some v' \<longleftrightarrow> (\<exists>a e. heap ?d2 a = Some e \<and> key e = k' \<and> val e = Some v')"
      using get_iff [OF assms(1), of k' v'] by auto
  qed
  moreover have "okeys ?d2 = map_option (\<lambda>ks. ks @ [k]) (okeys d)"
  proof (cases "order d")
    case (Some os)
    have "set os = set (flat ?ch)" using ok(5) [OF Some] by (rule mset_eq_setD)
    then have "map (ekey (heap d0)) os = map (ekey (heap d)) os" using ek by simp
    with Some tb show ?thesis by (simp add: okeys_def) (simp add: ekey_def d0_def)
  qed (simp add: okeys_def tb)
  ultimately show ?thesis using t(1) ok2 by blast
qed

lemma update_old_ok:
  fixes d :: "'v Dictionary" and v :: 'v
  assumes "dict_ok d" and "dict_get d k = Some u"
  defines "d0 \<equiv> d\<lparr>heap := (heap d)(fresh d \<mapsto> \<lparr>key = k, val = Some v\<rparr>), fresh := fresh d + 1\<rparr>"
  shows "\<exists>d1. Insert_entry (fresh d) d0 = Some (Some u, d1)
    \<and> dict_ok (d1\<lparr>heap := (heap d1)(fresh d := None)\<rparr>)
    \<and> dict_get (d1\<lparr>heap := (heap d1)(fresh d := None)\<rparr>) = (dict_get d)(k \<mapsto> v)
    \<and> okeys (d1\<lparr>heap := (heap d1)(fresh d := None)\<rparr>) = okeys d"
proof -
  let ?a = "fresh d" and ?ch = "chain_lists (tbl d)"
  have ok: "placed (heap d) (num_buckets d) ?ch" "num_entries d = length (flat ?ch)" "dom (heap d) = set (flat ?ch)"
    "\<And>a e. heap d a = Some e \<Longrightarrow> a < ?a \<and> val e \<noteq> None" "\<And>os. order d = Some os \<Longrightarrow> mset os = mset (flat ?ch)"
    using assms(1) by (auto simp: dict_ok_def)
  obtain b e where b: "heap d b = Some e" "key e = k" "val e = Some u"
    using assms(2) get_iff [OF assms(1)] by blast
  have fr: "?a \<notin> dom (heap d)" "b \<noteq> ?a" using ok(4) [of ?a] ok(4) [of b e] b(1) by auto
  define E where "E = (heap d)(b \<mapsto> e\<lparr>val := Some v\<rparr>)"
  have ek: "ekey E a = ekey (heap d) a" for a using b(1) by (simp add: ekey_def E_def)
  have dE: "dom E = dom (heap d)" using b(1) by (auto simp: E_def)
  have pE: "placed E (num_buckets d) ?ch"
    using ok(1) dE by (auto simp: placed_def ek [abs_def] dom_def)
  have "placed (heap d0) (num_buckets d) ?ch"
    using ok(1) by (rule placed_cong) (use fr ok(3) in \<open>auto simp: d0_def\<close>)
  then have p0: "placed (heap d0) (num_buckets d0) (chain_lists (tbl d0))" by (simp add: d0_def)
  have bm: "b \<in> set (flat (chain_lists (tbl d0)))" using b(1) ok(3) by (auto simp: d0_def)
  have "heap d0 ?a = Some \<lparr>key = k, val = Some v\<rparr>" "heap d0 b = Some e" using b(1) fr by (simp_all add: d0_def)
  from Insert_entry_old [OF p0 this(1) bm this(2)] b have
    i: "Insert_entry ?a d0 = Some (Some u, d0\<lparr>heap := (heap d0)(b \<mapsto> e\<lparr>val := Some v\<rparr>)\<rparr>)" by simp
  let ?d1 = "d0\<lparr>heap := (heap d0)(b \<mapsto> e\<lparr>val := Some v\<rparr>)\<rparr>"
  let ?d2 = "?d1\<lparr>heap := (heap ?d1)(?a := None)\<rparr>"
  have "(heap ?d1)(?a := None) = E" using fr by (auto simp: d0_def E_def fun_eq_iff)
  then have d2: "?d2 = d\<lparr>heap := E, fresh := ?a + 1\<rparr>" by (simp add: d0_def)
  have "x < ?a + 1 \<and> val y \<noteq> None" if "E x = Some y" for x y
    using that ok(4) [of x] ok(4) [OF b(1)] by (cases "x = b") (fastforce simp: E_def)+
  then have ok2: "dict_ok ?d2" unfolding d2 dict_ok_def using pE ok dE by simp
  have "dict_get ?d2 = (dict_get d)(k \<mapsto> v)"
  proof (rule get_eqI [OF ok2])
    fix k' v'
    have "key y \<noteq> k" if "heap d x = Some y" "x \<noteq> b" for x y
      using dict_inj [OF assms(1) that(1) b(1)] that(2) b(2) by auto
    then have only: "heap d x = Some y \<Longrightarrow> key y = k \<Longrightarrow> x = b" for x y by blast
    have "(\<exists>x y. E x = Some y \<and> key y = k' \<and> val y = Some v')
        \<longleftrightarrow> (if k' = k then v' = v else \<exists>x y. heap d x = Some y \<and> key y = k' \<and> val y = Some v')"
    proof (cases "k' = k")
      case True
      have Eb: "E b = Some (e\<lparr>val := Some v\<rparr>)" by (simp add: E_def)
      have only':  "y = e\<lparr>val := Some v\<rparr>" if "E x = Some y" "key y = k" for x y
        using that only [of x y] by (cases "x = b") (auto simp: E_def)
      have "(\<exists>x y. E x = Some y \<and> key y = k \<and> val y = Some v') \<longleftrightarrow> v' = v"
      proof
        assume "\<exists>x y. E x = Some y \<and> key y = k \<and> val y = Some v'"
        then obtain x y where "E x = Some y" "key y = k" "val y = Some v'" by blast
        with only' [of x y] show "v' = v" by simp
      next
        assume "v' = v"
        then show "\<exists>x y. E x = Some y \<and> key y = k \<and> val y = Some v'"
          using Eb b(2) by (intro exI [of _ b] exI [of _ "e\<lparr>val := Some v\<rparr>"]) simp
      qed
      with True show ?thesis by simp
    next
      case False
      have "E x = Some y \<and> key y = k' \<longleftrightarrow> heap d x = Some y \<and> key y = k'" for x y
        using b False by (cases "x = b") (auto simp: E_def)
      then have "(\<exists>x y. E x = Some y \<and> key y = k' \<and> val y = Some v') \<longleftrightarrow> (\<exists>x y. heap d x = Some y \<and> key y = k' \<and> val y = Some v')"
        by metis
      with False show ?thesis by simp
    qed
    then show "((dict_get d)(k \<mapsto> v)) k' = Some v' \<longleftrightarrow> (\<exists>a e. heap ?d2 a = Some e \<and> key e = k' \<and> val e = Some v')"
      unfolding d2 using get_iff [OF assms(1), of k' v'] by auto
  qed
  moreover have "okeys ?d2 = okeys d" unfolding d2 okeys_def by (simp add: ek [abs_def])
  ultimately show ?thesis using i ok2 by blast
qed

text \<open>The whole of \<open>Insert\<close>, for a value that is not a null pointer.\<close>

lemma Dict_Insert_ok:
  assumes "dict_ok d"
  shows "\<exists>d'. Dict_Insert k (Some v) d = Some (dict_get d k, d') \<and> dict_ok d' \<and> dict_get d' = (dict_get d)(k \<mapsto> v)
    \<and> okeys d' = (if dict_get d k = None then map_option (\<lambda>ks. ks @ [k]) (okeys d) else okeys d)"
proof (cases "dict_get d k")
  case None
  obtain d1 where d1: "Insert_entry (fresh d) (d\<lparr>heap := (heap d)(fresh d \<mapsto> \<lparr>key = k, val = Some v\<rparr>), fresh := fresh d + 1\<rparr>) = Some (None, d1)"
    and ok: "dict_ok (d1\<lparr>order := map_option (\<lambda>os. os @ [fresh d]) (order d1)\<rparr>)"
      "dict_get (d1\<lparr>order := map_option (\<lambda>os. os @ [fresh d]) (order d1)\<rparr>) = (dict_get d)(k \<mapsto> v)"
      "okeys (d1\<lparr>order := map_option (\<lambda>os. os @ [fresh d]) (order d1)\<rparr>) = map_option (\<lambda>ks. ks @ [k]) (okeys d)"
    using add_new_ok [OF assms None, of v] by blast
  from uncrowd_ok [OF ok(1)] None d1 ok(2,3) show ?thesis by (auto simp: Dict_Insert_def Let_def)
next
  case (Some u)
  obtain d1 where d1: "Insert_entry (fresh d) (d\<lparr>heap := (heap d)(fresh d \<mapsto> \<lparr>key = k, val = Some v\<rparr>), fresh := fresh d + 1\<rparr>) = Some (Some u, d1)"
    and ok: "dict_ok (d1\<lparr>heap := (heap d1)(fresh d := None)\<rparr>)"
      "dict_get (d1\<lparr>heap := (heap d1)(fresh d := None)\<rparr>) = (dict_get d)(k \<mapsto> v)"
      "okeys (d1\<lparr>heap := (heap d1)(fresh d := None)\<rparr>) = okeys d"
    using update_old_ok [OF assms Some, of v] by blast
  from uncrowd_ok [OF ok(1)] Some d1 ok(2,3) show ?thesis by (auto simp: Dict_Insert_def Let_def)
qed

section \<open>Removing\<close>

lemma Dict_Remove_miss:
  assumes "dict_ok d" and "dict_get d k = None"
  shows "Dict_Remove k d = Some (None, d)"
proof -
  have p: "placed (heap d) (num_buckets d) (chain_lists (tbl d))" using assms(1) by (simp add: dict_ok_def)
  have "k \<notin> ekey (heap d) ` set (flat (chain_lists (tbl d)))"
    using assms get_None [OF assms(1), of k] by (simp add: dict_ok_def)
  with placed_miss [OF p] found_chain [OF p, of k] show ?thesis by (simp add: Dict_Remove_def bucket_at_def)
qed

lemma placed_remove:
  assumes "placed E nb ch" and "h < nb" and "a \<in> set (ch ! h)"
  shows "mset (flat (ch[h := remove1 a (ch ! h)])) = mset (remove1 a (flat ch))"
    and "placed E nb (ch[h := remove1 a (ch ! h)])"
proof -
  let ?ch = "ch[h := remove1 a (ch ! h)]"
  have len: "length ch = nb" using assms(1) by (simp add: placed_def)
  define M where "M = mset (ch ! h) - {#a#}"
  have c: "mset (ch ! h) = add_mset a M" "mset (remove1 a (ch ! h)) = M" using assms(3) by (simp_all add: M_def)
  have "mset (flat ?ch) + add_mset a M = mset (flat ch) + M"
    using mset_flat_update [of h ch "remove1 a (ch ! h)"] assms(2) len by (simp only: c)
  then have "add_mset a (mset (flat ?ch)) = mset (flat ch)" by simp
  then have "mset (flat ?ch) = mset (flat ch) - {#a#}" by (metis add_mset_remove_trivial)
  then show m: "mset (flat ?ch) = mset (remove1 a (flat ch))" by simp
  have "distinct (map (ekey E) (remove1 a (flat ch)))"
    using assms(1) by (simp add: placed_def distinct_map inj_on_diff)
  then have "distinct (map (ekey E) (flat ?ch))" by (simp only: distinct_keys_mset [OF m])
  moreover have "set (?ch ! g) \<subseteq> set (ch ! g)" if "g < nb" for g
    using that len set_remove1_subset [of a "ch ! h"] by (cases "g = h") simp_all
  ultimately show "placed E nb ?ch" using assms(1) len unfolding placed_def by (simp add: subset_iff)
qed

lemma map_remove1:
  "inj_on f (set xs) \<Longrightarrow> a \<in> set xs \<Longrightarrow> map f (remove1 a xs) = remove1 (f a) (map f xs)"
proof (induction xs)
  case (Cons x xs)
  show ?case
  proof (cases "x = a")
    case False
    with Cons.prems have "f x \<noteq> f a" "a \<in> set xs" "inj_on f (set xs)" by (auto dest: inj_onD)
    with Cons.IH False show ?thesis by simp
  qed simp
qed simp

lemma Dict_Remove_hit:
  assumes "dict_ok d" and "dict_get d k = Some v"
  shows "\<exists>d'. Dict_Remove k d = Some (Some k, d') \<and> dict_ok d' \<and> dict_get d' = (dict_get d)(k := None)
    \<and> okeys d' = map_option (remove1 k) (okeys d)"
proof -
  let ?ch = "chain_lists (tbl d)"
  have ok: "placed (heap d) (num_buckets d) ?ch" "num_entries d = length (flat ?ch)" "dom (heap d) = set (flat ?ch)"
    "\<And>a e. heap d a = Some e \<Longrightarrow> a < fresh d \<and> val e \<noteq> None" "\<And>os. order d = Some os \<Longrightarrow> mset os = mset (flat ?ch)"
    using assms(1) by (auto simp: dict_ok_def)
  obtain a e where a: "heap d a = Some e" "key e = k"
    using assms(2) get_iff [OF assms(1)] by blast
  define h where "h = Hash k (num_buckets d)"
  note f = found_chain [OF ok(1), of k]
  have am: "a \<in> set (flat ?ch)" "ekey (heap d) a = k" using a ok(3) by (auto simp: ekey_def)
  have h: "h < length ?ch" "a \<in> set (?ch ! h)" using f(1) placed_bucket [OF ok(1) am(1)] am(2) by (simp_all add: h_def)
  define t where "t = (tbl d)[h := Some (remove1 a (?ch ! h))]"
  have tch: "chain_lists t = ?ch[h := remove1 a (?ch ! h)]" by (simp add: t_def chain_lists_update)
  have dist: "distinct (flat ?ch)" using ok(1) by (simp add: placed_def distinct_map)
  define E where "E = (heap d)(a := None)"
  have hn: "h < num_buckets d" using h(1) ok(1) by (simp add: placed_def)
  have mt: "mset (flat (chain_lists t)) = mset (remove1 a (flat ?ch))"
    and pt: "placed (heap d) (num_buckets d) (chain_lists t)"
    using placed_remove [OF ok(1) hn h(2)] by (simp_all only: tch)
  have st: "set (flat (chain_lists t)) = set (flat ?ch) - {a}"
    using mset_eq_setD [OF mt] dist by (simp add: set_remove1_eq)
  have lt: "length (flat (chain_lists t)) = num_entries d - 1"
    using mset_eq_length [OF mt] ok(2) am(1) by (simp add: length_remove1)
  have pE: "placed E (num_buckets d) (chain_lists t)"
    using pt by (rule placed_cong) (use st in \<open>auto simp: E_def\<close>)
  let ?d = "d\<lparr>tbl := t, order := map_option (remove1 a) (order d), heap := E, num_entries := num_entries d - 1\<rparr>"
  have hl: "h < length (tbl d)" using h(1) by simp
  obtain c where c: "tbl d ! h = Some c"
    using h(2) chain_lists_nth [OF hl] by (cases "tbl d ! h") simp_all
  have ch: "?ch ! h = c" using chain_lists_nth [OF hl] c by simp
  have "find_key (heap d) k (?ch ! h) = Some (Some a)"
    using placed_hit [OF ok(1) am(1)] unfolding am(2) h_def .
  then have fk: "find_key (heap d) k c = Some (Some a)" unfolding ch .
  have bk: "bucket_at d h = Some (Some c)" using hl c by (simp add: bucket_at_def)
  have rem: "Dict_Remove k d = Some (Some k, ?d)"
    unfolding Dict_Remove_def Let_def h_def [symmetric] t_def E_def ch using a by (simp add: bk fk)
  have dE: "dom E = set (flat (chain_lists t))" using st ok(3) by (simp add: E_def)
  have vE: "x < fresh d \<and> val y \<noteq> None" if "E x = Some y" for x y
    using that ok(4) [of x y] by (simp add: E_def split: if_splits)
  have oE: "mset (remove1 a os) = mset (flat (chain_lists t))" if "order d = Some os" for os
    using ok(5) [OF that] mt by simp
  have ok2: "dict_ok ?d"
    unfolding dict_ok_def
  proof (intro conjI allI impI)
    fix x y
    assume "heap ?d x = Some y"
    then have "E x = Some y" by simp
    then show "x < fresh ?d" "val y \<noteq> None" using vE [of x y] by simp_all
  next
    fix os
    assume "order ?d = Some os"
    then obtain os' where "order d = Some os'" "os = remove1 a os'" by auto
    with oE show "mset os = mset (flat (chain_lists (tbl ?d)))" by simp
  qed (use pE lt dE in simp_all)
  have "dict_get ?d = (dict_get d)(k := None)"
  proof (rule get_eqI [OF ok2])
    fix k' v'
    have iff: "E x = Some y \<and> key y = k' \<longleftrightarrow> k' \<noteq> k \<and> heap d x = Some y \<and> key y = k'" for x y
    proof (cases "x = a")
      case True
      with a show ?thesis by (auto simp: E_def)
    next
      case False
      with dict_inj [OF assms(1) _ a(1), of x y] a(2) show ?thesis by (auto simp: E_def)
    qed
    have "(\<exists>x y. E x = Some y \<and> key y = k' \<and> val y = Some v')
        \<longleftrightarrow> (\<exists>x y. (E x = Some y \<and> key y = k') \<and> val y = Some v')" by simp
    also have "\<dots> \<longleftrightarrow> k' \<noteq> k \<and> (\<exists>x y. heap d x = Some y \<and> key y = k' \<and> val y = Some v')"
      unfolding iff by auto
    finally have "(\<exists>x y. E x = Some y \<and> key y = k' \<and> val y = Some v')
        \<longleftrightarrow> k' \<noteq> k \<and> (\<exists>x y. heap d x = Some y \<and> key y = k' \<and> val y = Some v')" .
    then show "((dict_get d)(k := None)) k' = Some v' \<longleftrightarrow> (\<exists>a e. heap ?d a = Some e \<and> key e = k' \<and> val e = Some v')"
      using get_iff [OF assms(1), of k' v'] by auto
  qed
  moreover have "okeys ?d = map_option (remove1 k) (okeys d)"
  proof (cases "order d")
    case (Some os)
    have os: "set os = set (flat ?ch)" "distinct (map (ekey (heap d)) os)"
      using ok(5) [OF Some] ok(1) distinct_keys_mset [of os "flat ?ch" "ekey (heap d)"] by (auto dest: mset_eq_setD simp: placed_def)
    have "a \<notin> set (remove1 a os)" using os(2) by (simp add: distinct_map)
    then have "map (ekey E) (remove1 a os) = map (ekey (heap d)) (remove1 a os)"
      by (auto simp: ekey_def E_def)
    also have "\<dots> = remove1 (ekey (heap d) a) (map (ekey (heap d)) os)"
      using os am(1) by (intro map_remove1) (simp_all add: distinct_map)
    finally show ?thesis using Some am(2) by (simp add: okeys_def)
  qed (simp add: okeys_def)
  ultimately show ?thesis using rem ok2 by blast
qed

lemma Dict_Remove_ok:
  assumes "dict_ok d"
  shows "\<exists>r d'. Dict_Remove k d = Some (r, d') \<and> dict_ok d' \<and> dict_get d' = (dict_get d)(k := None)
    \<and> okeys d' = map_option (remove1 k) (okeys d)"
proof (cases "dict_get d k")
  case None
  have "remove1 k ks = ks" if okd: "okeys d = Some ks" for ks
  proof (rule remove1_idem)
    obtain os where os: "order d = Some os" "ks = map (ekey (heap d)) os" using okd by (auto simp: okeys_def)
    then have "set os = dom (heap d)" using assms by (auto simp: dict_ok_def dest: mset_eq_setD)
    with os None get_None [OF assms, of k] show "k \<notin> set ks" by simp
  qed
  then have "map_option (remove1 k) (okeys d) = okeys d" by (cases "okeys d") auto
  with None Dict_Remove_miss [OF assms None] assms show ?thesis by (auto simp: fun_upd_idem)
next
  case (Some v)
  from Dict_Remove_hit [OF assms Some] show ?thesis by blast
qed

section \<open>Clearing and iterating\<close>

lemma delete_all_ok: "distinct as \<Longrightarrow> set as \<subseteq> dom E \<Longrightarrow> delete_all as E = Some (E |` (- set as))"
proof (induction as arbitrary: E)
  case (Cons a as)
  then have "distinct as" "set as \<subseteq> dom (E(a := None))" and Ea: "E a \<noteq> None" by auto
  then have "delete_all as (E(a := None)) = Some ((E(a := None)) |` (- set as))" by (intro Cons.IH)
  then have "delete_all (a # as) E = Some ((E(a := None)) |` (- set as))"
    using Ea by (simp only: delete_all.simps if_False)
  also have "(E(a := None)) |` (- set as) = E |` (- set (a # as))"
    by (auto simp: restrict_map_def)
  finally show ?case .
qed (simp add: restrict_map_def)

lemma Dict_Clear_ok:
  assumes "dict_ok d"
  shows "\<exists>d'. Dict_Clear d = Some d' \<and> dict_ok d' \<and> heap d' = Map.empty \<and> dict_get d' = Map.empty
    \<and> okeys d' = map_option (\<lambda>_. []) (okeys d)"
proof -
  let ?as = "concat (map rev (chain_lists (tbl d)))"
  have ok: "placed (heap d) (num_buckets d) (chain_lists (tbl d))" "dom (heap d) = set (flat (chain_lists (tbl d)))"
    using assms by (simp_all add: dict_ok_def)
  have m: "mset (concat (map rev cs)) = mset (flat cs)" for cs :: "nat list list"
    unfolding flat_def by (induction cs) simp_all
  have "distinct ?as"
    using ok(1) mset_eq_imp_distinct_iff [OF m] by (simp add: placed_def distinct_map)
  moreover have s: "set ?as = dom (heap d)" using mset_eq_setD [OF m] ok(2) by metis
  ultimately have da: "delete_all ?as (heap d) = Some Map.empty"
    using delete_all_ok [of ?as "heap d"] by (auto simp: restrict_map_def fun_eq_iff)
  let ?d = "d\<lparr>heap := Map.empty, tbl := map (\<lambda>_. None) (tbl d), order := map_option (\<lambda>_. []) (order d), num_entries := 0\<rparr>"
  have c: "flat (chain_lists (map (\<lambda>_. None) (tbl d))) = []" by (simp add: flat_def chain_lists_def)
  then have "placed Map.empty (num_buckets d) (chain_lists (map (\<lambda>_. None) (tbl d)))"
    using ok(1) by (simp add: placed_def) (simp add: chain_lists_def)
  then have "dict_ok ?d" by (auto simp: dict_ok_def c)
  moreover have "dict_get ?d = Map.empty" by (rule get_eqI [OF \<open>dict_ok ?d\<close>]) simp
  ultimately show ?thesis using da by (auto simp: Dict_Clear_def okeys_def option.map_comp o_def)
qed

text \<open>What an iteration still has to return.\<close>

definition pending :: "'v Dictionary \<Rightarrow> IterCookie \<Rightarrow> nat list" where
  "pending d c = drop (snd c) (chain_lists (tbl d) ! fst c) @ flat (drop (fst c + 1) (chain_lists (tbl d)))"

lemma skip_empty_flat:
  "flat cs = (if skip_empty b cs < b + length cs then cs ! (skip_empty b cs - b) @ flat (drop (skip_empty b cs - b + 1) cs) else [])
   \<and> b \<le> skip_empty b cs \<and> (skip_empty b cs < b + length cs \<longrightarrow> cs ! (skip_empty b cs - b) \<noteq> [])"
proof (induction cs arbitrary: b)
  case (Cons c cs)
  show ?case
  proof (cases "c = []")
    case True
    define s where "s = skip_empty (Suc b) cs"
    note ih = Cons.IH [of "Suc b", folded s_def]
    from ih have "Suc b \<le> s" by simp
    then obtain n where n: "s = Suc b + n" by (metis le_Suc_ex)
    have "skip_empty b (c # cs) = s" "flat (c # cs) = flat cs" using True by (simp_all add: s_def flat_def)
    with ih show ?thesis by (simp add: n)
  next
    case False
    then show ?thesis by (simp add: flat_def)
  qed
qed (simp add: flat_def)

definition kv :: "'v Dictionary \<Rightarrow> nat \<Rightarrow> string \<times> 'v option" where
  "kv d a = (key (the (heap d a)), val (the (heap d a)))"

lemma NextEntry_ok:
  assumes "dict_ok d" and "fst c < num_buckets d"
  shows "pending d c = [] \<Longrightarrow> NextEntry d c = Some (None, c)"
    and "pending d c = a # as \<Longrightarrow> \<exists>c'. NextEntry d c = Some (Some (kv d a), c') \<and> fst c' < num_buckets d \<and> pending d c' = as"
proof -
  let ?ch = "chain_lists (tbl d)"
  obtain b n where c: "c = (b, n)" by fastforce
  have len: "length (tbl d) = num_buckets d" and live: "\<And>x. x \<in> set (flat ?ch) \<Longrightarrow> heap d x \<noteq> None"
    using assms(1) by (auto simp: dict_ok_def placed_def)
  have b: "b < length (tbl d)" using assms(2) c len by simp
  have bk: "bucket_at d b = Some (tbl d ! b)" "(case tbl d ! b of None \<Rightarrow> [] | Some x \<Rightarrow> x) = ?ch ! b"
    using b by (simp_all add: bucket_at_def chain_lists_nth)
  define s where "s = skip_empty (Suc b) (drop (Suc b) ?ch)"
  note sk = skip_empty_flat [of "drop (Suc b) ?ch" "Suc b", folded s_def]
  have tail: "flat (drop (Suc b) ?ch) = (if s < num_buckets d then ?ch ! s @ flat (drop (s + 1) ?ch) else [])"
    and s1: "s < num_buckets d \<Longrightarrow> ?ch ! s \<noteq> []" and bs: "b + 1 \<le> s"
    using sk b len by (auto split: if_splits)
  have alive: "x \<in> set (?ch ! h) \<Longrightarrow> h < num_buckets d \<Longrightarrow> \<exists>e. heap d x = Some e" for x h
    using live [of x] len by (auto simp: in_flat)
  show "NextEntry d c = Some (None, c)" if "pending d c = []"
  proof -
    have "\<not> n < length (?ch ! b)" "\<not> s < num_buckets d"
      using that tail s1 by (auto simp: pending_def c split: if_splits)
    then show ?thesis using bk by (simp add: NextEntry_def c Let_def flip: s_def)
  qed
  show "\<exists>c'. NextEntry d c = Some (Some (kv d a), c') \<and> fst c' < num_buckets d \<and> pending d c' = as" if p: "pending d c = a # as"
  proof (cases "n < length (?ch ! b)")
    case True
    then have dr: "drop n (?ch ! b) = ?ch ! b ! n # drop (Suc n) (?ch ! b)" by (simp add: Cons_nth_drop_Suc)
    then have a: "a = ?ch ! b ! n" "as = pending d (b, n + 1)" using p by (simp_all add: pending_def c)
    obtain e where "heap d a = Some e" using alive [of a b] a(1) True b len by auto
    with True bk a assms(2) show ?thesis by (simp add: NextEntry_def c kv_def)
  next
    case False
    then have s: "s < num_buckets d" "a # as = ?ch ! s @ flat (drop (s + 1) ?ch)"
      using p tail by (auto simp: pending_def c split: if_splits)
    obtain xs where xs: "?ch ! s = a # xs" using s s1 by (cases "?ch ! s") auto
    then have as: "as = pending d (s, 1)" using s(2) by (simp add: pending_def)
    obtain e where "heap d a = Some e" using alive [of a s] xs s(1) by auto
    with False bk s(1) xs as show ?thesis by (simp add: NextEntry_def c kv_def Let_def flip: s_def)
  qed
qed

fun iterate :: "nat \<Rightarrow> 'v Dictionary \<Rightarrow> IterCookie \<Rightarrow> (string \<times> 'v option) option list option" where
  "iterate 0 d c = Some []"
| "iterate (Suc n) d c = do { (r, c) \<leftarrow> NextEntry d c; rs \<leftarrow> iterate n d c; Some (r # rs) }"

lemma iterate_pending:
  "dict_ok d \<Longrightarrow> fst c < num_buckets d \<Longrightarrow> iterate (Suc (length (pending d c))) d c = Some (map (Some \<circ> kv d) (pending d c) @ [None])"
proof (induction "pending d c" arbitrary: c)
  case Nil
  with NextEntry_ok(1) [OF Nil(2,3)] show ?case by simp
next
  case (Cons a as)
  obtain c' where c': "NextEntry d c = Some (Some (kv d a), c')" "fst c' < num_buckets d" "pending d c' = as"
    using NextEntry_ok(2) [OF Cons.prems Cons.hyps(2) [symmetric]] by blast
  have "iterate (Suc (length as)) d c' = Some (map (Some \<circ> kv d) as @ [None])"
    using Cons.hyps(1) [of c'] Cons.prems(1) c' by simp
  with c'(1) show ?case
    unfolding Cons.hyps(2) [symmetric] by (simp add: iterate.simps(2) [of "Suc (length as)"] del: iterate.simps)
qed

section \<open>A table of strings\<close>

definition dict_store :: "string \<Rightarrow> 'v \<Rightarrow> 'v Dictionary \<Rightarrow> 'v Dictionary option" where
  "dict_store k v d = map_option snd (Dict_Insert k (Some v) d)"

definition dict_erase :: "string \<Rightarrow> 'v Dictionary \<Rightarrow> 'v Dictionary option" where
  "dict_erase k d = map_option snd (Dict_Remove k d)"

interpretation glish_dict: string_table dict_ok dict_get dict_store dict_erase
proof
  fix d :: "'a Dictionary" and k v
  assume "dict_ok d"
  from Dict_Insert_ok [OF this, of k v]
  show "\<exists>d'. dict_store k v d = Some d' \<and> dict_ok d' \<and> dict_get d' = (dict_get d)(k \<mapsto> v)"
    by (auto simp: dict_store_def)
next
  fix d :: "'a Dictionary" and k
  assume "dict_ok d"
  from Dict_Remove_ok [OF this, of k]
  show "\<exists>d'. dict_erase k d = Some d' \<and> dict_ok d' \<and> dict_get d' = (dict_get d)(k := None)"
    by (auto simp: dict_erase_def)
qed

lemma store_all_order:
  "dict_ok d \<Longrightarrow> distinct (map fst kvs) \<Longrightarrow> (\<forall>k \<in> set (map fst kvs). dict_get d k = None) \<Longrightarrow>
   \<exists>d'. glish_dict.store_all kvs d = Some d' \<and> dict_ok d'
     \<and> okeys d' = map_option (\<lambda>ks. ks @ map fst kvs) (okeys d)"
proof (induction kvs arbitrary: d)
  case Nil
  then show ?case by (simp add: option.map_ident)
next
  case (Cons kv kvs)
  obtain k v where kv: "kv = (k, v)" by fastforce
  from Dict_Insert_ok [OF Cons.prems(1), of k v] Cons.prems(3) kv obtain d1 where
    d1: "Dict_Insert k (Some v) d = Some (None, d1)" "dict_ok d1" "dict_get d1 = (dict_get d)(k \<mapsto> v)"
      "okeys d1 = map_option (\<lambda>ks. ks @ [k]) (okeys d)" by auto
  have "\<forall>k \<in> set (map fst kvs). dict_get d1 k = None" using Cons.prems(2,3) d1(3) kv by auto
  with Cons.IH [OF d1(2)] Cons.prems(2) obtain d' where
    "glish_dict.store_all kvs d1 = Some d'" "dict_ok d'" "okeys d' = map_option (\<lambda>ks. ks @ map fst kvs) (okeys d1)" by auto
  moreover have "dict_store k v d = Some d1" using d1(1) by (simp add: dict_store_def)
  ultimately show ?case using d1(4) kv by (simp add: option.map_comp o_def)
qed

lemma NthEntry_order:
  assumes "dict_ok d" and "order d = Some os"
  shows "NthEntry d n = Some (if 0 \<le> n \<and> n < int (length os) then Some (kv d (os ! nat n)) else None)"
proof -
  have len: "length os = num_entries d" "set os = dom (heap d)"
    using assms by (auto simp: dict_ok_def dest: mset_eq_length mset_eq_setD)
  show ?thesis
  proof (cases "0 \<le> n \<and> n < int (length os)")
    case True
    then have "os ! nat n \<in> dom (heap d)" using len(2) nth_mem by (metis nat_less_iff)
    with True assms(2) len(1) show ?thesis by (auto simp: NthEntry_def kv_def)
  next
    case False
    with assms(2) len(1) show ?thesis by (auto simp: NthEntry_def)
  qed
qed

section \<open>Properties\<close>

text \<open>
  C12: from an empty dictionary of any initial size, storing values under distinct keys and removing
  one of them (growing as it goes) never follows a dangling pointer, and leaves exactly the other
  keys with their values.
\<close>

theorem dict_is_map:
  assumes "distinct (map fst kvs)"
  shows "\<exists>d1 d2. glish_dict.store_all kvs (Dictionary_new o_type n) = Some d1 \<and> dict_erase k d1 = Some d2
    \<and> dict_ok d2 \<and> Lookup d2 x = Some (((map_of kvs)(k := None)) x)"
proof -
  obtain d1 d2 where "glish_dict.store_all kvs (Dictionary_new o_type n) = Some d1" "dict_erase k d1 = Some d2"
    "dict_ok d2" "dict_get d2 = (map_of kvs)(k := None)"
    using glish_dict.store_all_erase [OF Dictionary_new_ok(1) _ assms] Dictionary_new_ok(2) by blast
  with Lookup_get show ?thesis by metis
qed

theorem dict_is_map_witness:
  "\<exists>d1 d2. glish_dict.store_all [(''a'', 1 :: nat), (''b'', 2)] (Dictionary_new ORDERED 5) = Some d1 \<and> dict_erase ''a'' d1 = Some d2
    \<and> dict_ok d2 \<and> Lookup d2 ''b'' = Some (Some 2)"
  using dict_is_map [of "[(''a'', 1 :: nat), (''b'', 2)]" ORDERED 5 "''a''" "''b''"] by simp

text \<open>
  an ordered dictionary gives its entries by number in the order in which their keys were first
  stored, however often the table has grown since.
\<close>

theorem dict_insertion_order:
  assumes "distinct (map fst kvs)" and "i < length kvs"
  shows "\<exists>d e. glish_dict.store_all kvs (Dictionary_new ORDERED n) = Some d
    \<and> NthEntry d (int i) = Some (Some e) \<and> fst e = fst (kvs ! i) \<and> NthEntry d (int (length kvs)) = Some None"
proof -
  obtain d where d: "glish_dict.store_all kvs (Dictionary_new ORDERED n) = Some d" "dict_ok d" "okeys d = Some (map fst kvs)"
    using store_all_order [OF Dictionary_new_ok(1) assms(1), of ORDERED n]
    by (auto simp: Dictionary_new_ok(2,3))
  then obtain os where os: "order d = Some os" "map (ekey (heap d)) os = map fst kvs" by (auto simp: okeys_def)
  then have len: "length os = length kvs" by (metis length_map)
  have "fst (kv d (os ! i)) = map (ekey (heap d)) os ! i" using len assms(2) by (simp add: kv_def ekey_def)
  with os(2) assms(2) have "fst (kv d (os ! i)) = fst (kvs ! i)" by simp
  with d(1) NthEntry_order [OF d(2) os(1)] len assms(2) show ?thesis
    by (intro exI [of _ d] exI [of _ "kv d (os ! i)"]) simp
qed

theorem dict_insertion_order_witness:
  "\<exists>d e. glish_dict.store_all [(''x'', True), (''y'', False)] (Dictionary_new ORDERED 1) = Some d
    \<and> NthEntry d 1 = Some (Some e) \<and> fst e = ''y'' \<and> NthEntry d 2 = Some None"
  using dict_insertion_order [of "[(''x'', True), (''y'', False)]" 1 1] by simp

text \<open>
  iterating over a dictionary with the cookie from \<open>InitForIteration\<close> returns every entry
  exactly once, and then null.
\<close>

theorem dict_iteration_complete:
  assumes "dict_ok d"
  shows "\<exists>as. iterate (num_entries d + 1) d InitForIteration = Some (map (Some \<circ> kv d) as @ [None])
    \<and> set as = dom (heap d) \<and> distinct (map (fst \<circ> kv d) as)"
proof -
  let ?as = "pending d InitForIteration"
  have ok: "placed (heap d) (num_buckets d) (chain_lists (tbl d))" using assms by (simp add: dict_ok_def)
  then have "0 < num_buckets d" "length (chain_lists (tbl d)) = num_buckets d" by (simp_all add: placed_def)
  then have as: "?as = flat (chain_lists (tbl d))"
    by (cases "chain_lists (tbl d)") (simp_all add: pending_def InitForIteration_def flat_def)
  then have "length ?as = num_entries d" "set ?as = dom (heap d)" "distinct (map (fst \<circ> kv d) ?as)"
    using assms ok by (simp_all add: dict_ok_def placed_def kv_def ekey_def [abs_def] o_def)
  with iterate_pending [OF assms, of InitForIteration] \<open>0 < num_buckets d\<close> show ?thesis
    by (intro exI [of _ ?as]) (simp add: InitForIteration_def)
qed

theorem dict_iteration_complete_witness:
  "\<exists>as. iterate 1 (Dictionary_new UNORDERED 5 :: nat Dictionary) InitForIteration = Some (map (Some \<circ> kv (Dictionary_new UNORDERED 5)) as @ [None])
    \<and> set as = {} \<and> distinct (map (fst \<circ> kv (Dictionary_new UNORDERED 5 :: nat Dictionary)) as)"
  using dict_iteration_complete [OF Dictionary_new_ok(1), of UNORDERED 5, where ?'a = nat]
  by (simp add: Dictionary_new_def)

text \<open>
  storing a null pointer under a key of an ordered dictionary and then a value under the same key
  enters the key into the order a second time, because \<open>Insert\<close> takes the null old value for a key
  that was not there; the dictionary still counts one entry.
\<close>

theorem dict_null_duplicates:
  "case do { (_, d) \<leftarrow> Dict_Insert ''k'' None (Dictionary_new ORDERED 5); Dict_Insert ''k'' (Some v) d } of
     Some (_, d) \<Rightarrow> okeys d = Some [''k'', ''k''] \<and> num_entries d = 1
   | None \<Rightarrow> False"
  by (simp add: Dict_Insert_def Insert_entry_def Dictionary_new_def Dict_Init_def bucket_at_def okeys_def ekey_def NextPrime.simps IsPrime_def prime_loop.simps TOO_CROWDED_def Let_def Hash_def)

end
