(* ===== verification/Glish_Queue.thy ===== *)
theory Glish_Queue
  imports Glish_Interfaces
begin

text \<open>
  The queues of the interpreter (\<open>glish/Queue.cc\<close>, \<open>glish/include/Glish/Queue.h\<close>), in which the
  notifications of events wait: a singly linked list with a pointer to its last element and an
  iteration pointer. \<open>None\<close> as a result is the use of a deleted element.
\<close>

section \<open>The queue\<close>

record 'a QueueElement =
  nxt :: "nat option"
  elem :: 'a

record 'a BaseQueue =
  qentries :: nat
  qhead :: "nat option"
  qtail :: "nat option"
  qcur :: "nat option"
  elems :: "nat \<Rightarrow> 'a QueueElement option"
  qfresh :: nat

definition BaseQueue_new :: "'a BaseQueue" where
  "BaseQueue_new = \<lparr>qentries = 0, qhead = None, qtail = None, qcur = None, elems = Map.empty, qfresh = 0\<rparr>"

definition EnQueue :: "'a \<Rightarrow> 'a BaseQueue \<Rightarrow> 'a BaseQueue option" where
  "EnQueue x q = do {
     let qe = qfresh q;
     let q = q\<lparr>elems := (elems q)(qe \<mapsto> \<lparr>nxt = None, elem = x\<rparr>), qfresh := qe + 1\<rparr>;
     q \<leftarrow> (case qhead q of
         None \<Rightarrow> Some (q\<lparr>qhead := Some qe, qtail := Some qe\<rparr>)
       | Some _ \<Rightarrow> do {
           t \<leftarrow> qtail q;
           e \<leftarrow> elems q t;
           Some (q\<lparr>elems := (elems q)(t \<mapsto> e\<lparr>nxt := Some qe\<rparr>), qtail := Some qe\<rparr>) });
     Some (q\<lparr>qentries := qentries q + 1\<rparr>) }"

text \<open>\<open>None\<close> in the first component is the null pointer.\<close>

definition DeQueue :: "'a BaseQueue \<Rightarrow> ('a option \<times> 'a BaseQueue) option" where
  "DeQueue q = (case qhead q of
     None \<Rightarrow> Some (None, q)
   | Some qe \<Rightarrow> do {
       e \<leftarrow> elems q qe;
       let q = q\<lparr>qhead := nxt e\<rparr>;
       let q = (if Some qe = qtail q then q\<lparr>qtail := None\<rparr> else q);
       let q = q\<lparr>elems := (elems q)(qe := None)\<rparr>;
       Some (Some (elem e), q\<lparr>qentries := qentries q - 1\<rparr>) })"

definition queue_length :: "'a BaseQueue \<Rightarrow> nat" where
  "queue_length q = qentries q"

definition Queue_InitForIteration :: "'a BaseQueue \<Rightarrow> 'a BaseQueue" where
  "Queue_InitForIteration q = q\<lparr>qcur := qhead q\<rparr>"

definition Queue_Next :: "'a BaseQueue \<Rightarrow> ('a option \<times> 'a BaseQueue) option" where
  "Queue_Next q = (case qcur q of
     None \<Rightarrow> Some (None, q)
   | Some el \<Rightarrow> do {
       e \<leftarrow> elems q el;
       Some (Some (elem e), q\<lparr>qcur := nxt e\<rparr>) })"

section \<open>The sequence a queue holds\<close>

fun qchain :: "(nat \<Rightarrow> 'a QueueElement option) \<Rightarrow> nat option \<Rightarrow> nat list \<Rightarrow> bool" where
  "qchain E p [] \<longleftrightarrow> p = None"
| "qchain E p (a # as) \<longleftrightarrow> p = Some a \<and> (\<exists>e. E a = Some e \<and> qchain E (nxt e) as)"

definition qdata :: "(nat \<Rightarrow> 'a QueueElement option) \<Rightarrow> nat list \<Rightarrow> 'a list" where
  "qdata E as = map (\<lambda>a. elem (the (E a))) as"

definition queue_rep :: "'a BaseQueue \<Rightarrow> 'a list \<Rightarrow> bool" where
  "queue_rep q xs \<longleftrightarrow> (\<exists>as. qchain (elems q) (qhead q) as \<and> distinct as \<and> qdata (elems q) as = xs
     \<and> qtail q = (if as = [] then None else Some (last as)) \<and> qentries q = length as
     \<and> dom (elems q) = set as \<and> (\<forall>a \<in> set as. a < qfresh q))"

lemma qchain_cong: "(\<And>a. a \<in> set as \<Longrightarrow> E' a = E a) \<Longrightarrow> qchain E' p as = qchain E p as"
  by (induction as arbitrary: p) auto

lemma qchain_live: "qchain E p as \<Longrightarrow> a \<in> set as \<Longrightarrow> \<exists>e. E a = Some e"
  by (induction as arbitrary: p) auto

lemma qdata_cong: "(\<And>a. a \<in> set as \<Longrightarrow> E' a = E a) \<Longrightarrow> qdata E' as = qdata E as"
  by (simp add: qdata_def)

text \<open>Linking a new last element behind the old one.\<close>

lemma qchain_snoc:
  assumes "qchain E p (as @ [t])" and "distinct (as @ [t])" and "E t = Some e" and "n \<notin> set (as @ [t])"
  shows "qchain (E(n \<mapsto> \<lparr>nxt = None, elem = x\<rparr>, t \<mapsto> e\<lparr>nxt := Some n\<rparr>)) p (as @ [t, n])"
  using assms
proof (induction as arbitrary: p)
  case (Cons a as)
  then obtain f where f: "p = Some a" "E a = Some f" "qchain E (nxt f) (as @ [t])" by auto
  with Cons show ?case by auto
qed auto

lemma EnQueue_rep:
  assumes "queue_rep q xs"
  shows "\<exists>q'. EnQueue x q = Some q' \<and> queue_rep q' (xs @ [x])"
proof -
  obtain as where c: "qchain (elems q) (qhead q) as" "distinct as" "qdata (elems q) as = xs"
    "qtail q = (if as = [] then None else Some (last as))" "qentries q = length as"
    "dom (elems q) = set as" "\<forall>a \<in> set as. a < qfresh q" using assms by (auto simp: queue_rep_def)
  let ?n = "qfresh q"
  have n: "?n \<notin> set as" using c(7) by auto
  show ?thesis
  proof (cases as rule: rev_cases)
    case Nil
    with c have "qhead q = None" "xs = []" by (simp_all add: qdata_def)
    let ?q = "q\<lparr>elems := (elems q)(?n \<mapsto> \<lparr>nxt = None, elem = x\<rparr>), qfresh := ?n + 1, qhead := Some ?n, qtail := Some ?n,
      qentries := qentries q + 1\<rparr>"
    have "EnQueue x q = Some ?q" using \<open>qhead q = None\<close> by (simp add: EnQueue_def Let_def)
    moreover have "queue_rep ?q [x]"
      unfolding queue_rep_def using c(5,6) Nil by (intro exI [of _ "[?n]"]) (simp add: qdata_def)
    ultimately show ?thesis using \<open>xs = []\<close> by simp
  next
    case (snoc bs t)
    then obtain e where e: "elems q t = Some e" using qchain_live [OF c(1), of t] by auto
    have h: "qhead q \<noteq> None" "qtail q = Some t" using c(1,4) snoc by (cases bs; auto)+
    let ?E = "(elems q)(?n \<mapsto> \<lparr>nxt = None, elem = x\<rparr>, t \<mapsto> e\<lparr>nxt := Some ?n\<rparr>)"
    let ?q = "q\<lparr>elems := ?E, qfresh := ?n + 1, qtail := Some ?n, qentries := qentries q + 1\<rparr>"
    have tn: "t \<noteq> ?n" using n snoc by auto
    then have enq: "EnQueue x q = Some ?q" using h e by (auto simp: EnQueue_def Let_def)
    have "qchain ?E (qhead q) (bs @ [t, ?n])" using qchain_snoc [of "elems q" "qhead q" bs t e ?n x] c(1,2) snoc e n by simp
    moreover have "qdata ?E (bs @ [t, ?n]) = xs @ [x]"
      using c(2,3) snoc e tn n by (auto simp: qdata_def)
    moreover have "distinct (bs @ [t, ?n])" "\<forall>a \<in> set (bs @ [t, ?n]). a < ?n + 1"
      using c(2,7) n snoc by (auto simp: less_Suc_eq)
    moreover have "dom ?E = set (bs @ [t, ?n])" using c(6) snoc by auto
    ultimately have "queue_rep ?q (xs @ [x])"
      unfolding queue_rep_def using c(5) snoc by (intro exI [of _ "bs @ [t, ?n]"]) simp
    with enq show ?thesis by blast
  qed
qed

lemma DeQueue_rep:
  assumes "queue_rep q (x # xs)"
  shows "\<exists>q'. DeQueue q = Some (Some x, q') \<and> queue_rep q' xs"
proof -
  obtain bs where b: "qchain (elems q) (qhead q) bs" "distinct bs" "qdata (elems q) bs = x # xs"
    "qtail q = (if bs = [] then None else Some (last bs))" "qentries q = length bs"
    "dom (elems q) = set bs" "\<forall>b \<in> set bs. b < qfresh q"
    using assms unfolding queue_rep_def by blast
  obtain a as where "bs = a # as" using b(3) by (cases bs) (simp_all add: qdata_def)
  with b have c: "qchain (elems q) (qhead q) (a # as)" "distinct (a # as)" "qdata (elems q) (a # as) = x # xs"
    "qtail q = Some (last (a # as))" "qentries q = length (a # as)"
    "dom (elems q) = set (a # as)" "\<forall>b \<in> set (a # as). b < qfresh q" by simp_all
  obtain e where e: "elems q a = Some e" "qhead q = Some a" "qchain (elems q) (nxt e) as" using c(1) by auto
  have x: "elem e = x" "qdata (elems q) as = xs" using c(3) e(1) by (simp_all add: qdata_def)
  let ?E = "(elems q)(a := None)"
  have "qchain ?E (nxt e) as = qchain (elems q) (nxt e) as" using c(2) by (intro qchain_cong) auto
  then have ce: "qchain ?E (nxt e) as" using e(3) by simp
  have "qdata ?E as = qdata (elems q) as" using c(2) by (intro qdata_cong) auto
  then have de: "qdata ?E as = xs" using x(2) by simp
  let ?q = "q\<lparr>qhead := nxt e, qtail := (if as = [] then None else Some (last as)), elems := ?E, qentries := qentries q - 1\<rparr>"
  have last: "last (a # as) = a \<longleftrightarrow> as = []" using c(2) by (cases as rule: rev_cases) auto
  have "DeQueue q = Some (Some x, ?q)"
    using e c(4) x(1) last by (auto simp: DeQueue_def Let_def)
  moreover have "queue_rep ?q xs"
    unfolding queue_rep_def using ce de c(2,5,6,7) by (intro exI [of _ as]) auto
  ultimately show ?thesis by blast
qed

lemma DeQueue_empty:
  assumes "queue_rep q []"
  shows "DeQueue q = Some (None, q)"
proof -
  obtain as where "qchain (elems q) (qhead q) as" "qdata (elems q) as = []" using assms unfolding queue_rep_def by blast
  then have "qhead q = None" by (simp add: qdata_def)
  then show ?thesis by (simp add: DeQueue_def)
qed

interpretation glish_queue: fifo queue_rep EnQueue DeQueue
proof
  fix q :: "'a BaseQueue"
  assume "queue_rep q []"
  with DeQueue_empty show "\<exists>q'. DeQueue q = Some (None, q') \<and> queue_rep q' []" by auto
qed (fact EnQueue_rep, fact DeQueue_rep)

lemma BaseQueue_new_rep: "queue_rep BaseQueue_new []"
  by (simp add: queue_rep_def BaseQueue_new_def qdata_def)

section \<open>Properties\<close>

text \<open>
  what is queued on a new queue comes out in the same order, and null after it, without any use
  of a deleted element.
\<close>

theorem queue_in_order:
  "\<exists>q1 q2 q3. glish_queue.enq_all xs BaseQueue_new = Some q1 \<and> queue_length q1 = length xs
    \<and> glish_queue.deq_all (length xs) q1 = Some (map Some xs, q2) \<and> DeQueue q2 = Some (None, q3)"
proof -
  obtain q1 where q1: "glish_queue.enq_all xs BaseQueue_new = Some q1" "queue_rep q1 ([] @ xs)"
    using glish_queue.enq_all_rep [OF BaseQueue_new_rep] by blast
  then have "queue_length q1 = length xs" by (auto simp: queue_length_def queue_rep_def qdata_def)
  moreover obtain p q2 q3 where "glish_queue.enq_all xs BaseQueue_new = Some p"
    "glish_queue.deq_all (length xs) p = Some (map Some xs, q2)" "DeQueue q2 = Some (None, q3)"
    using glish_queue.in_order [OF BaseQueue_new_rep] by blast
  ultimately show ?thesis using q1(1) by auto
qed

text \<open>
  a queue that is emptied of its first element while an iteration stands on it leaves the
  iteration pointer on a deleted element, which the next call of \<open>Next\<close> uses.
\<close>

theorem queue_iteration_dangles:
  "do { q \<leftarrow> EnQueue x BaseQueue_new; (_, q) \<leftarrow> DeQueue (Queue_InitForIteration q); Queue_Next q } = None"
  by (simp add: EnQueue_def BaseQueue_new_def Queue_InitForIteration_def DeQueue_def Queue_Next_def Let_def)

end
