(* ===== verification/Glish_Scope.thy ===== *)
theory Glish_Scope
  imports Glish_Prelude "HOL-Library.AList"
begin

text \<open>
  Names and frames of the interpreter (\<open>glish/Sequencer.cc\<close>, \<open>glish/Frame.cc\<close>). While a script is
  parsed, the sequencer keeps a stack of scopes and resolves an identifier to a variable: a scope
  tag, an offset of a scope and an offset in a frame. While it runs, a stack of frames holds the
  values, and \<open>FrameElement\<close> and \<open>SetFrameElement\<close> find a variable by these offsets only. A scope
  is an ordered dictionary (theory \<open>Glish_Dict\<close>), used here as the association list it represents;
  offsets are unbounded integers. \<open>None\<close> as the result of a parse-time operation is the use of a
  null pointer or a call of \<open>glish_fatal\<close>.
\<close>

section \<open>Scopes and variables\<close>

datatype scope_type = LOCAL_SCOPE | FUNC_SCOPE | GLOBAL_SCOPE | ANY_SCOPE

text \<open>
  What a \<open>VarExpr\<close> knows of its variable. The change notice of a variable and the special class of
  the variable \<open>script\<close> are not modelled.
\<close>

record VarExpr =
  vscope :: scope_type
  soffset :: int
  foffset :: int
  init_to_bool :: bool

record Scope =
  sctype :: scope_type
  svars :: "(string \<times> VarExpr) list"
  global_refs :: "string list"

definition scope_get :: "Scope \<Rightarrow> string \<Rightarrow> VarExpr option" where
  "scope_get s x = map_of (svars s) x"

definition scope_length :: "Scope \<Rightarrow> nat" where
  "scope_length s = length (svars s)"

definition scope_insert :: "string \<Rightarrow> VarExpr \<Rightarrow> Scope \<Rightarrow> Scope" where
  "scope_insert x v s = s\<lparr>svars := AList.update x v (svars s)\<rparr>"

definition WasGlobalRef :: "Scope \<Rightarrow> string \<Rightarrow> bool" where
  "WasGlobalRef s x \<longleftrightarrow> x \<in> set (global_refs s)"

definition MarkGlobalRef :: "string \<Rightarrow> Scope \<Rightarrow> Scope" where
  "MarkGlobalRef x s = (if WasGlobalRef s x then s else s\<lparr>global_refs := global_refs s @ [x]\<rparr>)"

definition ClearGlobalRef :: "string \<Rightarrow> Scope \<Rightarrow> Scope" where
  "ClearGlobalRef x s = s\<lparr>global_refs := remove1 x (global_refs s)\<rparr>"

section \<open>Frames\<close>

text \<open>
  A frame is an object with an address; its values are the cells of its array, \<open>None\<close> being the null
  pointer. \<open>frames_\<close> of a
  stack holds a null pointer for a block that has no variable of its own.
\<close>

record 'v Frame =
  faddr :: nat
  fscope :: scope_type
  fvalues :: "'v option list"

record 'v stack_type =
  sframes :: "'v Frame option list"
  soffsets :: "nat list"

text \<open>
  The part of the sequencer this theory is about. \<open>cur_stack\<close> is the stack \<open>frames()\<close> and
  \<open>global_frames()\<close> refer to; \<open>warned\<close> holds the names \<open>glish_warn\<close> has reported.
\<close>

record 'v Sequencer =
  scopes :: "Scope list"
  global_scopes :: "nat list"
  back_refs :: "VarExpr list list"
  stashed_scope :: "Scope option"
  global_frame :: "'v option list"
  cur_stack :: "'v stack_type"
  warned :: "string list"

text \<open>\<open>operator[]\<close> of a list of offsets at its last index, which is zero on the empty list.\<close>

definition last_offset :: "nat list \<Rightarrow> nat" where
  "last_offset xs = (if xs = [] then 0 else last xs)"

definition scope_at :: "'v Sequencer \<Rightarrow> nat \<Rightarrow> Scope option" where
  "scope_at q k = (if k < length (scopes q) then Some (scopes q ! k) else None)"

text \<open>The index of the innermost scope.\<close>

definition top_scope :: "Scope list \<Rightarrow> nat" where
  "top_scope ss = length ss - 1"

definition set_scope :: "nat \<Rightarrow> Scope \<Rightarrow> 'v Sequencer \<Rightarrow> 'v Sequencer" where
  "set_scope k s q = q\<lparr>scopes := (scopes q)[k := s]\<rparr>"

section \<open>The scope stack\<close>

definition PushScope :: "scope_type \<Rightarrow> 'v Sequencer \<Rightarrow> 'v Sequencer" where
  "PushScope s q =
    (let q = q\<lparr>scopes := scopes q @ [\<lparr>sctype = s, svars = [], global_refs = []\<rparr>]\<rparr>;
         q = (if s \<noteq> LOCAL_SCOPE then q\<lparr>global_scopes := global_scopes q @ [length (scopes q) - 1]\<rparr> else q)
     in if s = FUNC_SCOPE then q\<lparr>back_refs := back_refs q @ [[]]\<rparr> else q)"

text \<open>The offsets of the wider variables a function used, as \<open>back_offsets_type\<close> holds them.\<close>

definition back_offsets :: "VarExpr list \<Rightarrow> (int \<times> int \<times> scope_type) list" where
  "back_offsets vs = map (\<lambda>v. (foffset v, soffset v, vscope v)) vs"

definition PopScope :: "'v Sequencer \<Rightarrow> (nat \<times> (int \<times> int \<times> scope_type) list \<times> 'v Sequencer) option" where
  "PopScope q = (if scopes q = [] then None else
    (let pos = length (scopes q) - 1; top = last (scopes q); n = scope_length top;
         q = q\<lparr>scopes := butlast (scopes q)\<rparr>;
         q = (if sctype top \<noteq> LOCAL_SCOPE then q\<lparr>global_scopes := remove1 pos (global_scopes q)\<rparr> else q)
     in if sctype top = FUNC_SCOPE
        then (if back_refs q = [] then None
              else Some (n, back_offsets (last (back_refs q)), q\<lparr>back_refs := butlast (back_refs q)\<rparr>))
        else Some (n, [], q)))"

definition StashScope :: "'v Sequencer \<Rightarrow> 'v Sequencer option" where
  "StashScope q = (if stashed_scope q \<noteq> None \<or> scopes q = [] then None else
    (let pos = length (scopes q) - 1; top = last (scopes q);
         q = q\<lparr>stashed_scope := Some top, scopes := butlast (scopes q)\<rparr>
     in Some (if sctype top \<noteq> LOCAL_SCOPE then q\<lparr>global_scopes := remove1 pos (global_scopes q)\<rparr> else q)))"

definition RestoreScope :: "'v Sequencer \<Rightarrow> 'v Sequencer option" where
  "RestoreScope q = (case stashed_scope q of
     None \<Rightarrow> None
   | Some s \<Rightarrow>
      (let q = q\<lparr>scopes := scopes q @ [s]\<rparr>;
           q = (if sctype s \<noteq> LOCAL_SCOPE then q\<lparr>global_scopes := global_scopes q @ [length (scopes q) - 1]\<rparr> else q)
       in Some (q\<lparr>stashed_scope := None\<rparr>)))"

definition GetScopeType :: "'v Sequencer \<Rightarrow> scope_type" where
  "GetScopeType q = (if length (scopes q) = 1 then GLOBAL_SCOPE
     else if global_scopes q \<noteq> [] \<and> int (last (global_scopes q)) = int (length (scopes q)) - 1 then FUNC_SCOPE
     else LOCAL_SCOPE)"

section \<open>Installing and looking up identifiers\<close>

text \<open>
  The constructor of a variable registers it as a back reference of the function being parsed when
  its scope offset is negative. A variable is registered at most once, since the object is new.
\<close>

definition RegisterBackRef :: "VarExpr \<Rightarrow> 'v Sequencer \<Rightarrow> 'v Sequencer" where
  "RegisterBackRef v q =
    (if back_refs q \<noteq> [] then q\<lparr>back_refs := butlast (back_refs q) @ [last (back_refs q) @ [v]]\<rparr> else q)"

definition CreateVarExpr :: "scope_type \<Rightarrow> int \<Rightarrow> int \<Rightarrow> bool \<Rightarrow> 'v Sequencer \<Rightarrow> VarExpr \<times> 'v Sequencer" where
  "CreateVarExpr sc so fo b q =
    (let v = \<lparr>vscope = sc, soffset = so, foffset = fo, init_to_bool = b\<rparr>
     in (v, if so < 0 then RegisterBackRef v q else q))"

text \<open>Where a scope tag leads: the index of the scope and the scope offset of a new variable there.\<close>

definition install_index :: "scope_type \<Rightarrow> bool \<Rightarrow> 'v Sequencer \<Rightarrow> (nat \<times> int) option" where
  "install_index sc gref q = (case (if gref then LOCAL_SCOPE else sc) of
     LOCAL_SCOPE \<Rightarrow>
       (let i = length (scopes q) - 1 in
        if gref then Some (i, - int i)
        else do {
          let goff = last_offset (global_scopes q);
          g \<leftarrow> scope_at q goff;
          Some (i, if sctype g \<noteq> GLOBAL_SCOPE then int i - int goff else int i - 1) })
   | FUNC_SCOPE \<Rightarrow> Some (last_offset (global_scopes q), 0)
   | GLOBAL_SCOPE \<Rightarrow> Some (0, 0)
   | ANY_SCOPE \<Rightarrow> None)"

text \<open>
  The body of \<open>InstallID\<close> up to its call of itself. It says in addition whether the scope installed
  into is the global one.
\<close>

definition install_once ::
  "string \<Rightarrow> scope_type \<Rightarrow> bool \<Rightarrow> bool \<Rightarrow> bool \<Rightarrow> int \<Rightarrow> 'v Sequencer \<Rightarrow> (VarExpr \<times> bool \<times> 'v Sequencer) option" where
  "install_once x sc warn b gref fo q = do {
     (i, so) \<leftarrow> install_index sc gref q;
     cur \<leftarrow> scope_at q i;
     let fo = (if gref then fo else int (scope_length cur));
     let (v, q) = CreateVarExpr (if gref then GLOBAL_SCOPE else sctype cur) so fo b q;
     let q = (if WasGlobalRef cur x \<and> warn then q\<lparr>warned := warned q @ [x]\<rparr> else q);
     let cur = (if WasGlobalRef cur x then ClearGlobalRef x cur else cur);
     let q = set_scope i (scope_insert x v cur) q;
     Some (if sctype cur = GLOBAL_SCOPE
           then (v, True, q\<lparr>global_frame := global_frame q @ [None]\<rparr>) else (v, False, q)) }"

definition InstallID ::
  "string \<Rightarrow> scope_type \<Rightarrow> bool \<Rightarrow> bool \<Rightarrow> bool \<Rightarrow> int \<Rightarrow> 'v Sequencer \<Rightarrow> (VarExpr \<times> 'v Sequencer) option" where
  "InstallID x sc warn b gref fo q = do {
     (v, glob, q) \<leftarrow> install_once x sc warn b gref fo q;
     if glob \<and> GetScopeType q \<noteq> GLOBAL_SCOPE \<and> \<not> gref
     then do { (_, _, q) \<leftarrow> install_once x LOCAL_SCOPE warn b True (foffset v) q; Some (v, q) }
     else Some (v, q) }"

text \<open>The two searches from the narrowest scope outwards; \<open>n\<close> counts the scopes still to look at.\<close>

fun search_all :: "string \<Rightarrow> Scope list \<Rightarrow> nat \<Rightarrow> (nat \<times> VarExpr) option" where
  "search_all x ss 0 = None"
| "search_all x ss (Suc k) = (case scope_get (ss ! k) x of Some v \<Rightarrow> Some (k, v) | None \<Rightarrow> search_all x ss k)"

fun search_local :: "string \<Rightarrow> Scope list \<Rightarrow> nat \<Rightarrow> (nat \<times> VarExpr) option" where
  "search_local x ss 0 = None"
| "search_local x ss (Suc k) = (case scope_get (ss ! k) x of
     Some v \<Rightarrow> Some (k, v)
   | None \<Rightarrow> if sctype (ss ! k) \<noteq> LOCAL_SCOPE then None else search_local x ss k)"

text \<open>
  The reference to a variable of a wider scope \<open>k\<close> that a use in the innermost scope gets. It is
  the same expression in \<open>LookupID\<close> and \<open>LookupVar\<close>, which differ in the tag.
\<close>

definition wider_soffset :: "nat \<Rightarrow> VarExpr \<Rightarrow> 'v Sequencer \<Rightarrow> int" where
  "wider_soffset k ve q = int k - int (last_offset (global_scopes q)) + soffset ve"

definition LookupID ::
  "string \<Rightarrow> scope_type \<Rightarrow> bool \<Rightarrow> bool \<Rightarrow> bool \<Rightarrow> bool \<Rightarrow> 'v Sequencer \<Rightarrow> (VarExpr option \<times> 'v Sequencer) option" where
  "LookupID x sc do_install warn search b q = (case sc of
     ANY_SCOPE \<Rightarrow> do {
       let off = top_scope (scopes q);
       let found = search_all x (scopes q) (length (scopes q));
       let k = (case found of Some (k, _) \<Rightarrow> k | None \<Rightarrow> 0);
       top \<leftarrow> scope_at q off;
       let q = (if off \<noteq> k then set_scope off (MarkGlobalRef x top) q else q);
       case found of
         Some (k, ve) \<Rightarrow>
           if off \<noteq> k \<and> sctype (scopes q ! k) \<noteq> GLOBAL_SCOPE
           then (let (v, q) = CreateVarExpr (if vscope ve = GLOBAL_SCOPE then GLOBAL_SCOPE else LOCAL_SCOPE)
                                (wider_soffset k ve q) (foffset ve) False q
                 in Some (Some v, set_scope off (scope_insert x v (scopes q ! off)) q))
           else Some (Some ve, q)
       | None \<Rightarrow>
           if do_install then map_option (\<lambda>(v, q). (Some v, q)) (InstallID x GLOBAL_SCOPE warn b False 0 q)
           else Some (None, q) }
   | LOCAL_SCOPE \<Rightarrow>
       if search then
         (case search_local x (scopes q) (length (scopes q)) of
            Some (_, v) \<Rightarrow> Some (Some v, q)
          | None \<Rightarrow>
              if do_install then map_option (\<lambda>(v, q). (Some v, q)) (InstallID x FUNC_SCOPE warn b False 0 q)
              else Some (None, q))
       else do {
         top \<leftarrow> scope_at q (length (scopes q) - 1);
         case scope_get top x of
           Some v \<Rightarrow> Some (Some v, q)
         | None \<Rightarrow>
             if do_install then map_option (\<lambda>(v, q). (Some v, q)) (InstallID x LOCAL_SCOPE warn b False 0 q)
             else Some (None, q) }
   | FUNC_SCOPE \<Rightarrow> do {
       s \<leftarrow> scope_at q (last_offset (global_scopes q));
       case scope_get s x of
         Some v \<Rightarrow> Some (Some v, q)
       | None \<Rightarrow>
           if do_install then map_option (\<lambda>(v, q). (Some v, q)) (InstallID x FUNC_SCOPE warn b False 0 q)
           else Some (None, q) }
   | GLOBAL_SCOPE \<Rightarrow> do {
       s \<leftarrow> scope_at q 0;
       case scope_get s x of
         Some v \<Rightarrow>
           if GetScopeType q \<noteq> GLOBAL_SCOPE
           then map_option (\<lambda>(v, q). (Some v, q)) (InstallID x LOCAL_SCOPE warn b True (foffset v) q)
           else Some (Some v, q)
       | None \<Rightarrow>
           if do_install then map_option (\<lambda>(v, q). (Some v, q)) (InstallID x GLOBAL_SCOPE warn b False 0 q)
           else Some (None, q) })"

text \<open>
  \<open>InstallVar\<close> and \<open>LookupVar\<close> resolve a variable of an expression that was read before its scope was
  known. \<open>InstallVar\<close> sets the offsets of the given variable; \<open>b\<close> is the initial value flag it keeps.
\<close>

definition InstallVar :: "string \<Rightarrow> scope_type \<Rightarrow> bool \<Rightarrow> 'v Sequencer \<Rightarrow> (VarExpr \<times> 'v Sequencer) option" where
  "InstallVar x sc b q = do {
     (i, so) \<leftarrow> install_index sc False q;
     cur \<leftarrow> scope_at q i;
     let (v, q) = CreateVarExpr (sctype cur) so (int (scope_length cur)) b q;
     let q = (if WasGlobalRef cur x then q\<lparr>warned := warned q @ [x]\<rparr> else q);
     let cur = (if WasGlobalRef cur x then ClearGlobalRef x cur else cur);
     let q = set_scope i (scope_insert x v cur) q;
     Some (v, if sctype cur = GLOBAL_SCOPE then q\<lparr>global_frame := global_frame q @ [None]\<rparr> else q) }"

definition LookupVar :: "string \<Rightarrow> scope_type \<Rightarrow> bool \<Rightarrow> 'v Sequencer \<Rightarrow> (VarExpr \<times> 'v Sequencer) option" where
  "LookupVar x sc b q = (case sc of
     ANY_SCOPE \<Rightarrow> do {
       let off = top_scope (scopes q);
       let found = search_all x (scopes q) (length (scopes q));
       let k = (case found of Some (k, _) \<Rightarrow> k | None \<Rightarrow> 0);
       top \<leftarrow> scope_at q off;
       let q = (if off \<noteq> k then set_scope off (MarkGlobalRef x top) q else q);
       case found of
         Some (k, ve) \<Rightarrow>
           Some (if off \<noteq> k \<and> sctype (scopes q ! k) \<noteq> GLOBAL_SCOPE
             then CreateVarExpr (if soffset ve < 0 \<and> vscope ve = GLOBAL_SCOPE then GLOBAL_SCOPE else LOCAL_SCOPE)
                    (wider_soffset k ve q) (foffset ve) False q
             else (ve, q))
       | None \<Rightarrow> InstallVar x GLOBAL_SCOPE b q }
   | LOCAL_SCOPE \<Rightarrow>
       (case search_local x (scopes q) (length (scopes q)) of
          Some (_, v) \<Rightarrow> Some (v, q)
        | None \<Rightarrow> InstallVar x FUNC_SCOPE b q)
   | FUNC_SCOPE \<Rightarrow> do {
       s \<leftarrow> scope_at q (last_offset (global_scopes q));
       case scope_get s x of Some v \<Rightarrow> Some (v, q) | None \<Rightarrow> InstallVar x FUNC_SCOPE b q }
   | GLOBAL_SCOPE \<Rightarrow> do {
       s \<leftarrow> scope_at q 0;
       case scope_get s x of Some v \<Rightarrow> Some (v, q) | None \<Rightarrow> InstallVar x GLOBAL_SCOPE b q })"

section \<open>The frame stack\<close>

datatype fault = Fatal string | NullFrame | UninitialisedRead

definition Frame_new :: "nat \<Rightarrow> nat \<Rightarrow> scope_type \<Rightarrow> 'v Frame" where
  "Frame_new a n s = \<lparr>faddr = a, fscope = s, fvalues = replicate n None\<rparr>"

definition Frame_FrameElement :: "'v Frame \<Rightarrow> int \<Rightarrow> fault + 'v option" where
  "Frame_FrameElement f i = (if i < 0 \<or> i \<ge> int (length (fvalues f))
     then Inl (Fatal ''bad offset in Frame::FrameElement'') else Inr (fvalues f ! nat i))"

definition PushFrame :: "'v Frame option \<Rightarrow> 'v stack_type \<Rightarrow> 'v stack_type" where
  "PushFrame f st =
    (let st = st\<lparr>sframes := sframes st @ [f]\<rparr>
     in case f of
          None \<Rightarrow> st
        | Some fr \<Rightarrow> if fscope fr \<noteq> LOCAL_SCOPE then st\<lparr>soffsets := soffsets st @ [length (sframes st) - 1]\<rparr> else st)"

definition PopFrame :: "'v stack_type \<Rightarrow> fault + 'v Frame option \<times> 'v stack_type" where
  "PopFrame st = (if sframes st = [] then Inl (Fatal ''local frame stack underflow in Sequencer::PopFrame'') else
    (let i = length (sframes st) - 1; top = last (sframes st);
         st = st\<lparr>sframes := butlast (sframes st)\<rparr>
     in Inr (top, case top of
          None \<Rightarrow> st
        | Some fr \<Rightarrow> if fscope fr \<noteq> LOCAL_SCOPE then st\<lparr>soffsets := remove1 i (soffsets st)\<rparr> else st)))"

definition CurrentFrame :: "'v stack_type \<Rightarrow> 'v Frame option" where
  "CurrentFrame st = (if sframes st = [] then None else last (sframes st))"

fun func_frame_loop :: "'v Frame option list \<Rightarrow> nat \<Rightarrow> 'v Frame option" where
  "func_frame_loop fs 0 = None"
| "func_frame_loop fs (Suc i) = (case fs ! i of
     Some f \<Rightarrow> if fscope f = FUNC_SCOPE then Some f else func_frame_loop fs i
   | None \<Rightarrow> func_frame_loop fs i)"

definition FuncFrame :: "'v stack_type \<Rightarrow> 'v Frame option" where
  "FuncFrame st = func_frame_loop (sframes st) (length (sframes st))"

text \<open>The frame index a scope tag and a scope offset lead to, with the checks before its use.\<close>

definition frame_offset :: "string \<Rightarrow> scope_type \<Rightarrow> int \<Rightarrow> 'v stack_type \<Rightarrow> fault + nat" where
  "frame_offset who sc so st =
    (let offset = (if sc = LOCAL_SCOPE then so + int (last_offset (soffsets st)) else int (last_offset (soffsets st)))
     in if offset < 0 \<or> offset \<ge> int (length (sframes st))
        then Inl (Fatal (''local frame error in Sequencer::'' @ who)) else Inr (nat offset))"

definition FrameElement :: "scope_type \<Rightarrow> int \<Rightarrow> int \<Rightarrow> 'v Sequencer \<Rightarrow> fault + 'v option" where
  "FrameElement sc so fo q = (case sc of
     LOCAL_SCOPE \<Rightarrow>
       (case frame_offset ''FrameElement'' sc so (cur_stack q) of
          Inl e \<Rightarrow> Inl e
        | Inr i \<Rightarrow> (case sframes (cur_stack q) ! i of
            None \<Rightarrow> Inl (Fatal ''local frame error in Sequencer::FrameElement'')
          | Some f \<Rightarrow> Frame_FrameElement f fo))
   | FUNC_SCOPE \<Rightarrow>
       (case frame_offset ''FrameElement'' sc so (cur_stack q) of
          Inl e \<Rightarrow> Inl e
        | Inr i \<Rightarrow> (case sframes (cur_stack q) ! i of
            None \<Rightarrow> Inl NullFrame
          | Some f \<Rightarrow> Frame_FrameElement f fo))
   | GLOBAL_SCOPE \<Rightarrow>
       if fo < 0 \<or> fo \<ge> int (length (global_frame q))
       then Inl (Fatal ''bad global frame offset in Sequencer::FrameElement'')
       else Inr (global_frame q ! nat fo)
   | ANY_SCOPE \<Rightarrow> Inl (Fatal ''bad scope tag in Sequencer::FrameElement()''))"

text \<open>
  \<open>SetFrameElement\<close> refuses to overwrite a constant, whose flag \<open>is_const\<close> reads off a value. In a
  local or function frame it then reads the pointer \<open>prev_value\<close>, which nothing has set.
\<close>

definition const_error :: string where
  "const_error = CHR 0x27 # ''const'' @ CHR 0x27 # '' values cannot be modified.''"

definition set_frame_value ::
  "('v \<Rightarrow> bool) \<Rightarrow> nat \<Rightarrow> int \<Rightarrow> 'v \<Rightarrow> 'v Sequencer \<Rightarrow> fault + string option \<times> 'v Sequencer" where
  "set_frame_value is_const i fo v q = (case sframes (cur_stack q) ! i of
     None \<Rightarrow> Inl NullFrame
   | Some f \<Rightarrow> (case Frame_FrameElement f fo of
       Inl e \<Rightarrow> Inl e
     | Inr prev \<Rightarrow>
         if (case prev of Some p \<Rightarrow> is_const p | None \<Rightarrow> False) then Inl UninitialisedRead
         else Inr (None, q\<lparr>cur_stack := (cur_stack q)\<lparr>sframes :=
                (sframes (cur_stack q))[i := Some (f\<lparr>fvalues := (fvalues f)[nat fo := Some v]\<rparr>)]\<rparr>\<rparr>)))"

definition SetFrameElement ::
  "('v \<Rightarrow> bool) \<Rightarrow> scope_type \<Rightarrow> int \<Rightarrow> int \<Rightarrow> 'v \<Rightarrow> 'v Sequencer \<Rightarrow> fault + string option \<times> 'v Sequencer" where
  "SetFrameElement is_const sc so fo v q = (case sc of
     LOCAL_SCOPE \<Rightarrow>
       (case frame_offset ''SetFrameElement'' sc so (cur_stack q) of
          Inl e \<Rightarrow> Inl e
        | Inr i \<Rightarrow> set_frame_value is_const i fo v q)
   | FUNC_SCOPE \<Rightarrow>
       (case frame_offset ''SetFrameElement'' sc so (cur_stack q) of
          Inl e \<Rightarrow> Inl e
        | Inr i \<Rightarrow> set_frame_value is_const i fo v q)
   | GLOBAL_SCOPE \<Rightarrow>
       if fo < 0 \<or> fo \<ge> int (length (global_frame q))
       then Inl (Fatal ''bad global frame offset in Sequencer::FrameElement'')
       else (case global_frame q ! nat fo of
           Some p \<Rightarrow> if is_const p then Inr (Some const_error, q)
                     else Inr (None, q\<lparr>global_frame := (global_frame q)[nat fo := Some v]\<rparr>)
         | None \<Rightarrow> Inr (None, q\<lparr>global_frame := (global_frame q)[nat fo := Some v]\<rparr>))
   | ANY_SCOPE \<Rightarrow> Inl (Fatal ''bad scope tag in Sequencer::SetFrameElement()''))"

section \<open>What a variable designates\<close>

text \<open>
  The reference meaning of a variable. \<open>owner ss k\<close> is the innermost scope around \<open>k\<close> that is not a
  block; the frames of the scopes behind the global one are stacked in the order of the scopes, so
  the frame of scope \<open>j\<close> is the one at \<open>j - 1\<close>, and a scope offset counts from \<open>scope_base\<close>.
\<close>

datatype slot = GSlot int | Slot int int

fun owner :: "Scope list \<Rightarrow> nat \<Rightarrow> nat" where
  "owner ss 0 = 0"
| "owner ss (Suc k) = (if sctype (ss ! Suc k) \<noteq> LOCAL_SCOPE then Suc k else owner ss k)"

definition scope_base :: "Scope list \<Rightarrow> nat \<Rightarrow> nat" where
  "scope_base ss k = (if owner ss k = 0 then 1 else owner ss k)"

definition designates :: "Scope list \<Rightarrow> nat \<Rightarrow> VarExpr \<Rightarrow> slot" where
  "designates ss k v = (case vscope v of
     LOCAL_SCOPE \<Rightarrow> Slot (int (scope_base ss k) + soffset v) (foffset v)
   | FUNC_SCOPE \<Rightarrow> Slot (int (owner ss k)) (foffset v)
   | _ \<Rightarrow> GSlot (foffset v))"

text \<open>A slot that a variable of scope \<open>k\<close> may designate: it is there, and not inside a narrower scope.\<close>

fun slot_ok :: "Scope list \<Rightarrow> nat \<Rightarrow> slot \<Rightarrow> bool" where
  "slot_ok ss k (GSlot n) \<longleftrightarrow> 0 \<le> n \<and> n < int (scope_length (ss ! 0))"
| "slot_ok ss k (Slot j n) \<longleftrightarrow> 1 \<le> j \<and> j \<le> int k \<and> 0 \<le> n \<and> n < int (scope_length (ss ! nat j))"

definition var_ok :: "Scope list \<Rightarrow> nat \<Rightarrow> VarExpr \<Rightarrow> bool" where
  "var_ok ss k v \<longleftrightarrow> vscope v \<noteq> ANY_SCOPE \<and> slot_ok ss k (designates ss k v)
    \<and> (vscope v = FUNC_SCOPE \<longrightarrow> soffset v = 0 \<and> sctype (ss ! k) = FUNC_SCOPE)"

definition types_ok :: "Scope list \<Rightarrow> bool" where
  "types_ok ss \<longleftrightarrow> ss \<noteq> [] \<and> sctype (ss ! 0) = GLOBAL_SCOPE
    \<and> (\<forall>k. 0 < k \<and> k < length ss \<longrightarrow> sctype (ss ! k) = LOCAL_SCOPE \<or> sctype (ss ! k) = FUNC_SCOPE)"

text \<open>No slot belongs to two names.\<close>

definition names_ok :: "Scope list \<Rightarrow> bool" where
  "names_ok ss \<longleftrightarrow> (\<forall>k x v l y w. k < length ss \<and> l < length ss \<and> (x, v) \<in> set (svars (ss ! k))
     \<and> (y, w) \<in> set (svars (ss ! l)) \<and> designates ss k v = designates ss l w \<longrightarrow> x = y)"

definition wf_scopes :: "Scope list \<Rightarrow> bool" where
  "wf_scopes ss \<longleftrightarrow> types_ok ss \<and> names_ok ss
    \<and> (\<forall>k < length ss. distinct (map fst (svars (ss ! k))) \<and> (\<forall>(x, v) \<in> set (svars (ss ! k)). var_ok ss k v))"

definition func_scopes :: "Scope list \<Rightarrow> nat" where
  "func_scopes ss = length (filter (\<lambda>s. sctype s = FUNC_SCOPE) ss)"

definition outer_scopes :: "Scope list \<Rightarrow> nat list" where
  "outer_scopes ss = filter (\<lambda>i. sctype (ss ! i) \<noteq> LOCAL_SCOPE) [0..<length ss]"

definition scopes_ok :: "'v Sequencer \<Rightarrow> bool" where
  "scopes_ok q \<longleftrightarrow> wf_scopes (scopes q) \<and> global_scopes q = outer_scopes (scopes q)
    \<and> length (global_frame q) = scope_length (scopes q ! 0) \<and> length (back_refs q) = func_scopes (scopes q)"

lemma owner_le: "owner ss k \<le> k"
  by (induction k) (auto simp: le_Suc_eq)

lemma owner_cong: "(\<And>i. i \<le> k \<Longrightarrow> sctype (ss' ! i) = sctype (ss ! i)) \<Longrightarrow> owner ss' k = owner ss k"
  by (induction k) auto

lemma designates_cong:
  assumes "\<And>i. i \<le> k \<Longrightarrow> sctype (ss' ! i) = sctype (ss ! i)"
  shows "designates ss' k v = designates ss k v"
  unfolding designates_def scope_base_def using owner_cong [of k ss' ss] assms by (auto split: scope_type.split)

text \<open>Scopes only grow while they are open: what was designated stays where it is.\<close>

definition grows :: "Scope list \<Rightarrow> Scope list \<Rightarrow> bool" where
  "grows ss ss' \<longleftrightarrow> length ss' = length ss \<and> (\<forall>k < length ss. sctype (ss' ! k) = sctype (ss ! k)
     \<and> scope_length (ss ! k) \<le> scope_length (ss' ! k))"

lemma designates_grows:
  assumes "grows ss ss'" "k < length ss"
  shows "designates ss' k v = designates ss k v"
  by (rule designates_cong) (use assms in \<open>auto simp: grows_def\<close>)

lemma slot_ok_grows:
  assumes "grows ss ss'" "k < length ss" "slot_ok ss k s"
  shows "slot_ok ss' k s"
proof (cases s)
  case (GSlot n)
  then show ?thesis using assms by (force simp: grows_def)
next
  case (Slot j n)
  then have "nat j < length ss" using assms by auto
  then have "scope_length (ss ! nat j) \<le> scope_length (ss' ! nat j)" using assms by (auto simp: grows_def)
  then show ?thesis using Slot assms by auto
qed

lemma var_ok_grows: "grows ss ss' \<Longrightarrow> k < length ss \<Longrightarrow> var_ok ss k v \<Longrightarrow> var_ok ss' k v"
  unfolding var_ok_def by (simp add: designates_grows slot_ok_grows) (simp add: grows_def)

lemma update_set: "p \<in> set (AList.update x v xs) \<Longrightarrow> p = (x, v) \<or> p \<in> set xs"
  by (induction xs) (auto split: if_splits)

lemma update_new: "map_of xs x = None \<Longrightarrow> AList.update x v xs = xs @ [(x, v)]"
  by (induction xs) (auto split: if_splits)

lemma update_length: "length xs \<le> length (AList.update x v xs)"
  by (induction xs) auto

lemma outer_scopes_append:
  "outer_scopes (ss @ [s]) = outer_scopes ss @ (if sctype s \<noteq> LOCAL_SCOPE then [length ss] else [])"
proof -
  have "filter (\<lambda>i. sctype ((ss @ [s]) ! i) \<noteq> LOCAL_SCOPE) [0..<length ss]
      = filter (\<lambda>i. sctype (ss ! i) \<noteq> LOCAL_SCOPE) [0..<length ss]"
    by (rule filter_cong) (auto simp: nth_append)
  then show ?thesis by (simp add: outer_scopes_def)
qed

lemma outer_scopes_grows: "grows ss ss' \<Longrightarrow> outer_scopes ss' = outer_scopes ss"
  unfolding outer_scopes_def by (auto simp: grows_def intro: filter_cong)

lemma func_scopes_grows:
  assumes "grows ss ss'"
  shows "func_scopes ss' = func_scopes ss"
proof -
  have "map sctype ss' = map sctype ss" using assms by (auto simp: grows_def intro: nth_equalityI)
  moreover have "func_scopes xs = length (filter (\<lambda>t. t = FUNC_SCOPE) (map sctype xs))" for xs
    by (simp add: func_scopes_def filter_map o_def)
  ultimately show ?thesis by metis
qed

lemma types_ok_grows: "grows ss ss' \<Longrightarrow> types_ok ss \<Longrightarrow> types_ok ss'"
  by (auto simp: types_ok_def grows_def)

lemma last_outer:
  assumes "types_ok ss"
  shows "last_offset (outer_scopes ss) = owner ss (length ss - 1)"
  using assms
proof (induction ss rule: rev_induct)
  case Nil
  then show ?case by (simp add: types_ok_def)
next
  case (snoc s ss)
  show ?case
  proof (cases "ss = []")
    case True
    then show ?thesis using snoc.prems by (simp add: outer_scopes_append outer_scopes_def last_offset_def)
  next
    case False
    then have t: "types_ok ss" using snoc.prems by (auto simp: types_ok_def nth_append)
    obtain n where n: "length ss = Suc n" using False by (cases ss) auto
    have "0 \<in> set (outer_scopes ss)" using t by (simp add: outer_scopes_def types_ok_def)
    then have ne: "outer_scopes ss \<noteq> []" by auto
    have "owner (ss @ [s]) n = owner ss n" by (rule owner_cong) (simp add: nth_append n)
    then have "owner (ss @ [s]) (length ss) = (if sctype s \<noteq> LOCAL_SCOPE then length ss else owner ss n)"
      using n by (simp add: nth_append)
    moreover have "last_offset (outer_scopes ss) = owner ss n" using snoc.IH [OF t] n by simp
    ultimately show ?thesis using ne n by (simp add: outer_scopes_append last_offset_def)
  qed
qed

lemma outer_less: "types_ok ss \<Longrightarrow> last_offset (outer_scopes ss) < length ss"
  using last_outer [of ss] owner_le [of ss "length ss - 1"] by (cases ss) (auto simp: types_ok_def)

section \<open>The invariant of the scope stack\<close>

lemma set_scope_grows:
  assumes "sctype s = sctype (ss ! i)" "scope_length (ss ! i) \<le> scope_length s"
  shows "grows ss (ss[i := s])"
proof -
  have "sctype (ss[i := s] ! k) = sctype (ss ! k) \<and> scope_length (ss ! k) \<le> scope_length (ss[i := s] ! k)"
    if "k < length ss" for k
    using assms that by (cases "k = i") simp_all
  then show ?thesis by (simp add: grows_def)
qed

lemma wf_scopesI:
  assumes "types_ok ss" "names_ok ss" "\<And>k. k < length ss \<Longrightarrow> distinct (map fst (svars (ss ! k)))"
    "\<And>k x v. k < length ss \<Longrightarrow> (x, v) \<in> set (svars (ss ! k)) \<Longrightarrow> var_ok ss k v"
  shows "wf_scopes ss"
  using assms by (auto simp: wf_scopes_def)

lemma wf_scopesD:
  assumes "wf_scopes ss"
  shows "types_ok ss" "names_ok ss" "k < length ss \<Longrightarrow> distinct (map fst (svars (ss ! k)))"
    "k < length ss \<Longrightarrow> (x, v) \<in> set (svars (ss ! k)) \<Longrightarrow> var_ok ss k v"
  using assms by (auto simp: wf_scopes_def)

lemma names_okD:
  "names_ok ss \<Longrightarrow> k < length ss \<Longrightarrow> l < length ss \<Longrightarrow> (x, v) \<in> set (svars (ss ! k)) \<Longrightarrow>
    (y, w) \<in> set (svars (ss ! l)) \<Longrightarrow> designates ss k v = designates ss l w \<Longrightarrow> x = y"
  unfolding names_ok_def by blast

text \<open>
  Binding a name in a scope keeps the scopes well formed when the variable is good and everything
  that designates its slot already has this name.
\<close>

lemma wf_insert:
  assumes wf: "wf_scopes ss" and i: "i < length ss"
    and s: "sctype s = sctype (ss ! i)" "svars s = AList.update x v (svars (ss ! i))"
    and v: "var_ok (ss[i := s]) i v"
    and same: "\<And>k y w. k < length ss \<Longrightarrow> (y, w) \<in> set (svars (ss ! k)) \<Longrightarrow>
      designates ss k w = designates ss i v \<Longrightarrow> y = x"
  shows "wf_scopes (ss[i := s])"
proof -
  let ?ss = "ss[i := s]"
  have g: "grows ss ?ss"
    by (rule set_scope_grows) (simp_all add: s update_length scope_length_def)
  have des: "designates ?ss k w = designates ss k w" if "k < length ss" for k w
    using designates_grows [OF g that] .
  have mem: "(y, w) \<in> set (svars (ss ! k)) \<or> k = i \<and> y = x \<and> w = v"
    if "k < length ss" "(y, w) \<in> set (svars (?ss ! k))" for k y w
    using that update_set [of "(y, w)" x v "svars (ss ! i)"] s(2) by (cases "k = i") auto
  have "names_ok ?ss"
    unfolding names_ok_def
  proof (intro allI impI, elim conjE)
    fix k y w l z u
    assume a: "k < length ?ss" "l < length ?ss" "(y, w) \<in> set (svars (?ss ! k))"
      "(z, u) \<in> set (svars (?ss ! l))" "designates ?ss k w = designates ?ss l u"
    have k: "k < length ss" and l: "l < length ss" using a by simp_all
    have d: "designates ss k w = designates ss l u" using a(5) des [OF k] des [OF l] by simp
    consider "(y, w) \<in> set (svars (ss ! k))" "(z, u) \<in> set (svars (ss ! l))"
      | "(y, w) \<in> set (svars (ss ! k))" "l = i" "z = x" "u = v"
      | "k = i" "y = x" "w = v" "(z, u) \<in> set (svars (ss ! l))"
      | "y = x" "z = x"
      using mem [OF k a(3)] mem [OF l a(4)] by blast
    then show "y = z"
    proof cases
      case 1
      then show ?thesis using wf k l d unfolding wf_scopes_def names_ok_def by blast
    next
      case 2
      then show ?thesis using same [OF k 2(1)] d by simp
    next
      case 3
      then show ?thesis using same [OF l 3(4)] d by simp
    qed simp
  qed
  moreover have "distinct (map fst (svars (?ss ! k)))" if "k < length ss" for k
    using wf that s(2) by (cases "k = i") (auto simp: wf_scopes_def AList.distinct_update)
  moreover have "var_ok ?ss k w" if k: "k < length ss" and w: "(y, w) \<in> set (svars (?ss ! k))" for k y w
    using mem [OF k w]
  proof
    assume "(y, w) \<in> set (svars (ss ! k))"
    then have "var_ok ss k w" using wf k by (auto simp: wf_scopes_def)
    then show ?thesis by (rule var_ok_grows [OF g k])
  next
    assume "k = i \<and> y = x \<and> w = v"
    then show ?thesis using v by simp
  qed
  moreover have "types_ok ?ss" using wf types_ok_grows [OF g] by (simp add: wf_scopes_def)
  ultimately show ?thesis by (intro wf_scopesI) simp_all
qed

lemma wf_same_vars:
  assumes wf: "wf_scopes ss" and s: "sctype s = sctype (ss ! i)" "svars s = svars (ss ! i)"
  shows "wf_scopes (ss[i := s])"
proof -
  let ?ss = "ss[i := s]"
  have g: "grows ss ?ss" by (rule set_scope_grows) (simp_all add: s scope_length_def)
  have vars: "svars (?ss ! k) = svars (ss ! k)" if "k < length ss" for k
    using that s by (cases "k = i") auto
  have "names_ok ?ss"
    using wf designates_grows [OF g] vars unfolding names_ok_def wf_scopes_def by (metis length_list_update)
  then show ?thesis
    using types_ok_grows [OF g] var_ok_grows [OF g] vars wf_scopesD [OF wf]
    by (intro wf_scopesI) simp_all
qed

text \<open>Opening and closing scopes.\<close>

lemma wf_push:
  assumes "wf_scopes ss" and "t = LOCAL_SCOPE \<or> t = FUNC_SCOPE"
  shows "wf_scopes (ss @ [\<lparr>sctype = t, svars = [], global_refs = []\<rparr>])"
proof -
  let ?s = "\<lparr>sctype = t, svars = [], global_refs = []\<rparr>"
  have vars: "svars ((ss @ [?s]) ! k) = (if k < length ss then svars (ss ! k) else [])" if "k \<le> length ss" for k
    using that by (auto simp: nth_append)
  have des: "designates (ss @ [?s]) k w = designates ss k w" if "k < length ss" for k w
    by (rule designates_cong) (use that in \<open>simp add: nth_append\<close>)
  have slots: "slot_ok (ss @ [?s]) k d" if "k < length ss" "slot_ok ss k d" for k d
    using that by (cases d) (auto simp: nth_append)
  show ?thesis
  proof (rule wf_scopesI)
    show "types_ok (ss @ [?s])" using assms by (auto simp: types_ok_def wf_scopes_def nth_append)
    show "names_ok (ss @ [?s])"
      unfolding names_ok_def
    proof (intro allI impI, elim conjE)
      fix k y w l z u
      assume a: "k < length (ss @ [?s])" "l < length (ss @ [?s])" "(y, w) \<in> set (svars ((ss @ [?s]) ! k))"
        "(z, u) \<in> set (svars ((ss @ [?s]) ! l))" "designates (ss @ [?s]) k w = designates (ss @ [?s]) l u"
      have k: "k < length ss" using a(1,3) vars [of k] by (cases "k < length ss") simp_all
      have l: "l < length ss" using a(2,4) vars [of l] by (cases "l < length ss") simp_all
      show "y = z"
        using names_okD [OF wf_scopesD(2) [OF assms(1)] k l] a des [OF k] des [OF l] vars [of k] vars [of l] k l
        by simp
    qed
    fix k
    assume k: "k < length (ss @ [?s])"
    show "distinct (map fst (svars ((ss @ [?s]) ! k)))"
      using wf_scopesD(3) [OF assms(1)] k by (cases "k < length ss") (simp_all add: nth_append less_Suc_eq)
    fix x v
    assume v: "(x, v) \<in> set (svars ((ss @ [?s]) ! k))"
    have k': "k < length ss" using k v vars [of k] by (cases "k < length ss") simp_all
    have "var_ok ss k v" using wf_scopesD(4) [OF assms(1) k'] v vars [of k] k' by simp
    then show "var_ok (ss @ [?s]) k v" using des [OF k'] slots [OF k'] k' by (simp add: var_ok_def nth_append)
  qed
qed

lemma wf_pop:
  assumes wf: "wf_scopes (ss @ [s])" and "ss \<noteq> []"
  shows "wf_scopes ss"
proof -
  have nth: "(ss @ [s]) ! k = ss ! k" if "k < length ss" for k using that by (simp add: nth_append)
  have des: "designates (ss @ [s]) k w = designates ss k w" if "k < length ss" for k w
    by (rule designates_cong) (use that in \<open>simp add: nth_append\<close>)
  have slots: "slot_ok ss k d" if "k < length ss" "slot_ok (ss @ [s]) k d" for k d
    using that by (cases d) (auto simp: nth_append split: if_splits)
  show ?thesis
  proof (rule wf_scopesI)
    show "types_ok ss" using wf assms(2) by (auto simp: types_ok_def wf_scopes_def nth_append)
    show "names_ok ss"
      unfolding names_ok_def
    proof (intro allI impI, elim conjE)
      fix k y w l z u
      assume a: "k < length ss" "l < length ss" "(y, w) \<in> set (svars (ss ! k))"
        "(z, u) \<in> set (svars (ss ! l))" "designates ss k w = designates ss l u"
      then show "y = z"
        using names_okD [OF wf_scopesD(2) [OF wf], of k l] des [OF a(1)] des [OF a(2)] nth [OF a(1)] nth [OF a(2)]
        by simp
    qed
    fix k
    assume k: "k < length ss"
    show "distinct (map fst (svars (ss ! k)))" using wf_scopesD(3) [OF wf, of k] nth [OF k] k by simp
    fix x v
    assume v: "(x, v) \<in> set (svars (ss ! k))"
    have "var_ok (ss @ [s]) k v" using wf_scopesD(4) [OF wf, of k] v nth [OF k] k by simp
    then show "var_ok ss k v" using des [OF k] slots [OF k] k by (simp add: var_ok_def nth_append)
  qed
qed

text \<open>Creating a variable changes nothing but the back references, of which there stay as many lists.\<close>

lemma RegisterBackRef_simps [simp]:
  "scopes (RegisterBackRef v q) = scopes q" "global_scopes (RegisterBackRef v q) = global_scopes q"
  "global_frame (RegisterBackRef v q) = global_frame q" "cur_stack (RegisterBackRef v q) = cur_stack q"
  "length (back_refs (RegisterBackRef v q)) = length (back_refs q)"
  by (auto simp: RegisterBackRef_def)

lemma CreateVarExpr_simps [simp]:
  "fst (CreateVarExpr sc so fo b q) = \<lparr>vscope = sc, soffset = so, foffset = fo, init_to_bool = b\<rparr>"
  "scopes (snd (CreateVarExpr sc so fo b q)) = scopes q"
  "global_scopes (snd (CreateVarExpr sc so fo b q)) = global_scopes q"
  "global_frame (snd (CreateVarExpr sc so fo b q)) = global_frame q"
  "cur_stack (snd (CreateVarExpr sc so fo b q)) = cur_stack q"
  "length (back_refs (snd (CreateVarExpr sc so fo b q))) = length (back_refs q)"
  by (simp_all add: CreateVarExpr_def Let_def)

lemma set_scope_simps [simp]:
  "scopes (set_scope i s q) = (scopes q)[i := s]" "global_scopes (set_scope i s q) = global_scopes q"
  "global_frame (set_scope i s q) = global_frame q" "cur_stack (set_scope i s q) = cur_stack q"
  "back_refs (set_scope i s q) = back_refs q"
  by (simp_all add: set_scope_def)

lemma ClearGlobalRef_simps [simp]:
  "sctype (ClearGlobalRef x s) = sctype s" "svars (ClearGlobalRef x s) = svars s"
  by (simp_all add: ClearGlobalRef_def)

lemma MarkGlobalRef_simps [simp]:
  "sctype (MarkGlobalRef x s) = sctype s" "svars (MarkGlobalRef x s) = svars s"
  by (simp_all add: MarkGlobalRef_def)

lemma scope_insert_simps [simp]:
  "sctype (scope_insert x v s) = sctype s" "svars (scope_insert x v s) = AList.update x v (svars s)"
  by (simp_all add: scope_insert_def)

lemma scope_get_mem: "scope_get s x = Some v \<Longrightarrow> (x, v) \<in> set (svars s)"
  by (simp add: scope_get_def map_of_SomeD)

lemma scopes_okD:
  assumes "scopes_ok q"
  shows "wf_scopes (scopes q)" "types_ok (scopes q)" "scopes q \<noteq> []" "global_scopes q = outer_scopes (scopes q)"
    "length (global_frame q) = scope_length (scopes q ! 0)" "length (back_refs q) = func_scopes (scopes q)"
    "last_offset (global_scopes q) = owner (scopes q) (length (scopes q) - 1)"
  using assms last_outer [of "scopes q"] by (auto simp: scopes_ok_def wf_scopes_def types_ok_def)

lemma sctype_outer:
  assumes "types_ok ss" "k < length ss"
  shows "sctype (ss ! owner ss k) \<noteq> LOCAL_SCOPE" "sctype (ss ! owner ss k) = GLOBAL_SCOPE \<longleftrightarrow> owner ss k = 0"
proof -
  show a: "sctype (ss ! owner ss k) \<noteq> LOCAL_SCOPE" using assms by (induction k) (auto simp: types_ok_def)
  have "owner ss k < length ss" using owner_le [of ss k] assms(2) by simp
  then show "sctype (ss ! owner ss k) = GLOBAL_SCOPE \<longleftrightarrow> owner ss k = 0"
    using assms(1) by (cases "owner ss k = 0") (auto simp: types_ok_def)
qed

lemma owner_self: "types_ok ss \<Longrightarrow> k < length ss \<Longrightarrow> sctype (ss ! k) \<noteq> LOCAL_SCOPE \<Longrightarrow> owner ss k = k"
  by (cases k) auto

text \<open>The slot of a variable that is installed: the next one of the scope it is installed in.\<close>

lemma install_target:
  assumes ok: "scopes_ok q" and i: "install_index sc False q = Some (i, so)"
  shows "i < length (scopes q)"
    and "designates (scopes q) i \<lparr>vscope = sctype (scopes q ! i), soffset = so, foffset = n, init_to_bool = b\<rparr>
      = (if i = 0 then GSlot n else Slot (int i) n)"
    and "sctype (scopes q ! i) = FUNC_SCOPE \<Longrightarrow> so = 0"
    and "sctype (scopes q ! i) \<noteq> ANY_SCOPE" and "sctype (scopes q ! i) = GLOBAL_SCOPE \<longleftrightarrow> i = 0"
proof -
  let ?ss = "scopes q"
  define t where "t = length ?ss - 1"
  note okq = scopes_okD [OF ok]
  have lt: "length ?ss = Suc t" using okq(3) by (cases ?ss) (simp_all add: t_def)
  then have tl: "t < length ?ss" by simp
  have g: "last_offset (global_scopes q) = owner ?ss t" using okq(7) by (simp add: t_def)
  have ol: "owner ?ss t < length ?ss" using owner_le [of ?ss t] tl by simp
  have loc: "install_index LOCAL_SCOPE False q
      = Some (t, if owner ?ss t = 0 then int t - 1 else int t - int (owner ?ss t))"
    using ol sctype_outer(2) [OF okq(2) tl] g by (simp add: install_index_def scope_at_def Let_def lt)
  have "i = t \<and> so = (if owner ?ss t = 0 then int t - 1 else int t - int (owner ?ss t))
      \<or> i = owner ?ss t \<and> so = 0 \<or> i = 0 \<and> so = 0"
    using i
  proof (cases sc)
    case LOCAL_SCOPE
    then show ?thesis using i loc by auto
  next
    case FUNC_SCOPE
    then show ?thesis using i g by (simp add: install_index_def)
  qed (simp_all add: install_index_def)
  then consider "i = t" "so = (if owner ?ss t = 0 then int t - 1 else int t - int (owner ?ss t))"
    | "i = owner ?ss t" "so = 0" | "i = 0" "so = 0" by blast
  note cases = this
  show il: "i < length ?ss"
    by (rule cases) (use tl owner_le [of ?ss t] okq(3) in auto)
  show tg: "sctype (?ss ! i) = GLOBAL_SCOPE \<longleftrightarrow> i = 0" and "sctype (?ss ! i) \<noteq> ANY_SCOPE"
    using okq(2) il by (cases "i = 0"; fastforce simp: types_ok_def)+
  have self: "owner ?ss i = i" if "sctype (?ss ! i) \<noteq> LOCAL_SCOPE" using owner_self [OF okq(2) il that] .
  show "so = 0" if "sctype (?ss ! i) = FUNC_SCOPE"
    by (rule cases) (use self that tg in \<open>simp_all split: if_splits\<close>)
  show "designates ?ss i \<lparr>vscope = sctype (?ss ! i), soffset = so, foffset = n, init_to_bool = b\<rparr>
      = (if i = 0 then GSlot n else Slot (int i) n)"
  proof (cases "sctype (?ss ! i)")
    case LOCAL_SCOPE
    have ne: "i \<noteq> 0" using LOCAL_SCOPE tg by auto
    have "i = t \<and> so = (if owner ?ss t = 0 then int t - 1 else int t - int (owner ?ss t))"
      by (rule cases) (use ne LOCAL_SCOPE sctype_outer(1) [OF okq(2) tl] in auto)
    then show ?thesis using LOCAL_SCOPE ne by (auto simp: designates_def scope_base_def)
  next
    case FUNC_SCOPE
    then show ?thesis using self tg by (auto simp: designates_def)
  next
    case GLOBAL_SCOPE
    then show ?thesis using tg by (simp add: designates_def)
  next
    case ANY_SCOPE
    then show ?thesis using \<open>sctype (?ss ! i) \<noteq> ANY_SCOPE\<close> by simp
  qed
qed

text \<open>The state of the sequencer as far as the invariant sees it.\<close>

lemma scopes_okI:
  assumes ok: "scopes_ok q" and wf: "wf_scopes (scopes q')" and g: "grows (scopes q) (scopes q')"
    and "global_scopes q' = global_scopes q" "length (back_refs q') = length (back_refs q)"
    and "length (global_frame q') = scope_length (scopes q' ! 0)"
  shows "scopes_ok q'"
  using assms outer_scopes_grows [OF g] func_scopes_grows [OF g] scopes_okD(4,6) [OF ok]
  by (simp add: scopes_ok_def)

lemma var_ok_new:
  assumes ok: "scopes_ok q" and i: "install_index sc False q = Some (i, so)"
    and s: "sctype s = sctype (scopes q ! i)" "n < scope_length s"
  shows "var_ok ((scopes q)[i := s]) i
    \<lparr>vscope = sctype (scopes q ! i), soffset = so, foffset = int n, init_to_bool = b\<rparr>"
proof -
  let ?v = "\<lparr>vscope = sctype (scopes q ! i), soffset = so, foffset = int n, init_to_bool = b\<rparr>"
  note tgt = install_target [OF ok i]
  have "sctype ((scopes q)[i := s] ! k) = sctype (scopes q ! k)" for k
    using tgt(1) s(1) by (cases "k = i") simp_all
  then have "designates ((scopes q)[i := s]) i ?v = designates (scopes q) i ?v"
    by (intro designates_cong) simp
  then show ?thesis using tgt s by (auto simp: var_ok_def)
qed

lemma slot_fresh:
  assumes wf: "wf_scopes ss" and k: "k < length ss" and w: "(y, w) \<in> set (svars (ss ! k))"
  shows "designates ss k w \<noteq> (if i = 0 then GSlot (int (scope_length (ss ! i))) else Slot (int i) (int (scope_length (ss ! i))))"
  using wf_scopesD(4) [OF wf k w] by (auto simp: var_ok_def split: if_splits)

lemma install_fresh:
  assumes ok: "scopes_ok q" and i: "install_index sc False q = Some (i, so)" and x: "scope_get (scopes q ! i) x = None"
  shows "\<exists>v q'. install_once x sc warn b False fo q = Some (v, i = 0, q') \<and> scopes_ok q'
    \<and> grows (scopes q) (scopes q') \<and> scope_get (scopes q' ! i) x = Some v
    \<and> length (scopes q') = length (scopes q)
    \<and> designates (scopes q') i v
        = (if i = 0 then GSlot (int (scope_length (scopes q ! i))) else Slot (int i) (int (scope_length (scopes q ! i))))
    \<and> cur_stack q' = cur_stack q"
proof -
  let ?ss = "scopes q" and ?n = "scope_length (scopes q ! i)"
  let ?cur = "if WasGlobalRef (?ss ! i) x then ClearGlobalRef x (?ss ! i) else ?ss ! i"
  let ?v = "\<lparr>vscope = sctype (?ss ! i), soffset = so, foffset = int ?n, init_to_bool = b\<rparr>"
  let ?s = "scope_insert x ?v ?cur"
  let ?q1 = "snd (CreateVarExpr (sctype (?ss ! i)) so (int ?n) b q)"
  let ?q2 = "if WasGlobalRef (?ss ! i) x \<and> warn then ?q1\<lparr>warned := warned ?q1 @ [x]\<rparr> else ?q1"
  let ?q3 = "set_scope i ?s ?q2"
  let ?q' = "if i = 0 then ?q3\<lparr>global_frame := global_frame ?q3 @ [None]\<rparr> else ?q3"
  note tgt = install_target [OF ok i] and okq = scopes_okD [OF ok]
  have cur: "sctype ?cur = sctype (?ss ! i)" "svars ?cur = svars (?ss ! i)" by simp_all
  have x': "map_of (svars (?ss ! i)) x = None" using x by (simp add: scope_get_def)
  have run: "install_once x sc warn b False fo q = Some (?v, i = 0, ?q')"
    using tgt(1,5) by (simp add: install_once_def i scope_at_def Let_def case_prod_unfold cur(1))
  have ss: "scopes ?q' = ?ss[i := ?s]" by simp
  have g: "grows ?ss (scopes ?q')"
    unfolding ss by (rule set_scope_grows) (simp_all add: update_new [OF x'] scope_length_def)
  have "wf_scopes (?ss[i := ?s])"
  proof (rule wf_insert [OF okq(1) tgt(1)])
    show "var_ok (?ss[i := ?s]) i ?v"
      by (rule var_ok_new [OF ok i]) (simp_all add: update_new [OF x'] scope_length_def)
    show "y = x" if "k < length ?ss" "(y, w) \<in> set (svars (?ss ! k))" "designates ?ss k w = designates ?ss i ?v" for k y w
      using slot_fresh [OF okq(1) that(1,2), of i] that(3) tgt(2) by simp
  qed simp_all
  then have wf: "wf_scopes (scopes ?q')" by (simp only: ss)
  have "length (global_frame ?q') = scope_length (scopes ?q' ! 0)"
    using okq(5) tgt(1) x' by (cases "i = 0") (simp_all add: update_new scope_length_def)
  then have okq': "scopes_ok ?q'" using scopes_okI [OF ok wf g] by simp
  have des: "designates (scopes ?q') i ?v = designates ?ss i ?v" by (rule designates_grows [OF g tgt(1)])
  have get: "scope_get (scopes ?q' ! i) x = Some ?v"
    using x tgt(1) by (simp add: ss scope_get_def AList.update_conv' del: set_scope_simps)
  show ?thesis
    by (rule exI [of _ ?v], rule exI [of _ ?q'], intro conjI)
      (fact run, fact okq', fact g, fact get, simp, simp only: des tgt(2), simp)
qed

lemma install_gref:
  assumes ok: "scopes_ok q" and more: "length (scopes q) > 1"
    and u: "(x, u) \<in> set (svars (scopes q ! 0))"
  shows "\<exists>v q'. install_once x LOCAL_SCOPE warn b True (foffset u) q = Some (v, False, q') \<and> scopes_ok q'
    \<and> grows (scopes q) (scopes q') \<and> scope_get (scopes q' ! (length (scopes q) - 1)) x = Some v
    \<and> vscope v = GLOBAL_SCOPE \<and> foffset v = foffset u \<and> cur_stack q' = cur_stack q"
proof -
  define i where "i = length (scopes q) - 1"
  have i: "0 < i" "i < length (scopes q)" "length (scopes q) = Suc i" using more by (auto simp: i_def)
  let ?ss = "scopes q"
  let ?cur = "if WasGlobalRef (?ss ! i) x then ClearGlobalRef x (?ss ! i) else ?ss ! i"
  let ?v = "\<lparr>vscope = GLOBAL_SCOPE, soffset = - int i, foffset = foffset u, init_to_bool = b\<rparr>"
  let ?s = "scope_insert x ?v ?cur"
  let ?q1 = "snd (CreateVarExpr GLOBAL_SCOPE (- int i) (foffset u) b q)"
  let ?q2 = "if WasGlobalRef (?ss ! i) x \<and> warn then ?q1\<lparr>warned := warned ?q1 @ [x]\<rparr> else ?q1"
  let ?q' = "set_scope i ?s ?q2"
  note okq = scopes_okD [OF ok]
  have ng: "sctype (?ss ! i) \<noteq> GLOBAL_SCOPE" using okq(2) i by (fastforce simp: types_ok_def)
  have run: "install_once x LOCAL_SCOPE warn b True (foffset u) q = Some (?v, False, ?q')"
    using i ng by (simp add: install_once_def install_index_def scope_at_def Let_def case_prod_unfold)
  have ss: "scopes ?q' = ?ss[i := ?s]" by simp
  have g: "grows ?ss (scopes ?q')"
    unfolding ss by (rule set_scope_grows) (simp_all add: scope_length_def update_length)
  have u_ok: "var_ok ?ss 0 u" using wf_scopesD(4) [OF okq(1) _ u] i by simp
  then have glob: "vscope u = GLOBAL_SCOPE" by (cases "vscope u") (auto simp: var_ok_def designates_def scope_base_def)
  have "slot_ok (?ss[i := ?s]) i (GSlot (foffset u))" using u_ok glob i by (simp add: var_ok_def designates_def)
  then have v_ok: "var_ok (?ss[i := ?s]) i ?v" by (simp add: var_ok_def designates_def)
  have "wf_scopes (?ss[i := ?s])"
  proof (rule wf_insert [OF okq(1) i(2) _ _ v_ok])
    fix k y w
    assume w: "k < length ?ss" "(y, w) \<in> set (svars (?ss ! k))" "designates ?ss k w = designates ?ss i ?v"
    then have "designates ?ss k w = designates ?ss 0 u" using glob by (simp add: designates_def)
    moreover have "0 < length ?ss" using i by simp
    ultimately show "y = x" using names_okD [OF wf_scopesD(2) [OF okq(1)] w(1) _ w(2) u] by simp
  qed simp_all
  then have wf: "wf_scopes (scopes ?q')" by (simp only: ss)
  have okq': "scopes_ok ?q'" by (rule scopes_okI [OF ok wf g]) (use okq(5) i in simp_all)
  have get: "scope_get (scopes ?q' ! i) x = Some ?v"
    using i by (simp add: ss scope_get_def AList.update_conv' del: set_scope_simps)
  show ?thesis
    unfolding i_def [symmetric]
    by (rule exI [of _ ?v], rule exI [of _ ?q'], intro conjI) (fact run, fact okq', fact g, fact get, simp_all)
qed

lemma install_index_some:
  assumes ok: "scopes_ok q" and "sc \<noteq> ANY_SCOPE"
  obtains i so where "install_index sc False q = Some (i, so)"
    and "sc = LOCAL_SCOPE \<Longrightarrow> i = length (scopes q) - 1" and "sc = FUNC_SCOPE \<Longrightarrow> i = last_offset (global_scopes q)"
    and "sc = GLOBAL_SCOPE \<Longrightarrow> i = 0"
proof -
  have "last_offset (global_scopes q) < length (scopes q)"
    using scopes_okD(2,4) [OF ok] outer_less by metis
  then show thesis using assms(2) that by (cases sc) (auto simp: install_index_def scope_at_def Let_def)
qed

lemma GetScopeType_global: "GetScopeType q = GLOBAL_SCOPE \<longleftrightarrow> length (scopes q) = 1"
  by (simp add: GetScopeType_def)

lemma grows_trans: "grows a b \<Longrightarrow> grows b c \<Longrightarrow> grows a c"
  unfolding grows_def by (metis order_trans)

lemma grows_refl [simp]: "grows a a"
  by (simp add: grows_def)

lemma InstallID_ok:
  assumes ok: "scopes_ok q" and i: "install_index sc False q = Some (i, so)" and x: "scope_get (scopes q ! i) x = None"
  shows "\<exists>v q'. InstallID x sc warn b False fo q = Some (v, q') \<and> scopes_ok q' \<and> grows (scopes q) (scopes q')
    \<and> (\<exists>w. (x, w) \<in> set (svars (scopes q' ! i)) \<and> designates (scopes q') i w = designates (scopes q') i v
        \<and> vscope v = vscope w \<and> (i = 0 \<longrightarrow> vscope v = GLOBAL_SCOPE)) \<and> cur_stack q' = cur_stack q"
proof -
  have il: "i < length (scopes q)" using install_target(1) [OF ok i] .
  obtain v q1 where r1: "install_once x sc warn b False fo q = Some (v, i = 0, q1)" "scopes_ok q1"
    "grows (scopes q) (scopes q1)" "scope_get (scopes q1 ! i) x = Some v" "length (scopes q1) = length (scopes q)"
    "cur_stack q1 = cur_stack q"
    using install_fresh [OF ok i x, of warn b fo] by blast
  have mem: "(x, v) \<in> set (svars (scopes q1 ! i))" using scope_get_mem [OF r1(4)] .
  have "var_ok (scopes q1) i v" using wf_scopesD(4) [OF scopes_okD(1) [OF r1(2)] _ mem] il r1(5) by simp
  then have vs: "i = 0 \<longrightarrow> vscope v = GLOBAL_SCOPE"
    by (cases "vscope v") (auto simp: var_ok_def designates_def scope_base_def)
  show ?thesis
  proof (cases "i = 0 \<and> GetScopeType q1 \<noteq> GLOBAL_SCOPE")
    case False
    then have "InstallID x sc warn b False fo q = Some (v, q1)" using r1(1) by (auto simp: InstallID_def)
    then show ?thesis using r1 mem vs by blast
  next
    case True
    then have more: "length (scopes q1) > 1"
      using scopes_okD(3) [OF r1(2)] by (cases "length (scopes q1)") (auto simp: GetScopeType_global)
    have mem0: "(x, v) \<in> set (svars (scopes q1 ! 0))" using mem True by simp
    obtain u q2 where r2: "install_once x LOCAL_SCOPE warn b True (foffset v) q1 = Some (u, False, q2)" "scopes_ok q2"
      "grows (scopes q1) (scopes q2)" "cur_stack q2 = cur_stack q1"
      "scopes q2 ! 0 = scopes q1 ! 0"
    proof -
      from install_gref [OF r1(2) more mem0, of warn b] obtain u q2 where
        a: "install_once x LOCAL_SCOPE warn b True (foffset v) q1 = Some (u, False, q2)" "scopes_ok q2"
        "grows (scopes q1) (scopes q2)" "cur_stack q2 = cur_stack q1" by blast
      moreover have "scopes q2 ! 0 = scopes q1 ! 0"
        using a(1) more
        by (auto simp: install_once_def install_index_def scope_at_def Let_def case_prod_unfold split: if_splits)
      ultimately show thesis using that by blast
    qed
    have "InstallID x sc warn b False fo q = Some (v, q2)" using r1(1) r2(1) True by (simp add: InstallID_def)
    moreover have "(x, v) \<in> set (svars (scopes q2 ! i))" using mem0 r2(5) True by simp
    ultimately show ?thesis using r1 r2 vs grows_trans [OF r1(3) r2(3)] by (metis (no_types))
  qed
qed

text \<open>
  A variable resolves a name in the innermost scope when its slot, as seen from there, is the slot of
  an entry for this name.
\<close>

definition resolves :: "Scope list \<Rightarrow> string \<Rightarrow> VarExpr \<Rightarrow> bool" where
  "resolves ss x v \<longleftrightarrow> vscope v \<noteq> ANY_SCOPE \<and> (\<exists>k w. k < length ss \<and> (x, w) \<in> set (svars (ss ! k))
     \<and> designates ss (top_scope ss) v = designates ss k w)"

lemma designates_owner:
  "owner ss k = owner ss l \<or> vscope v = GLOBAL_SCOPE \<Longrightarrow> designates ss k v = designates ss l v"
  by (auto simp: designates_def scope_base_def split: scope_type.split)

lemma entry_resolves:
  assumes "wf_scopes ss" "k < length ss" "(x, v) \<in> set (svars (ss ! k))"
    and "owner ss k = owner ss (top_scope ss) \<or> vscope v = GLOBAL_SCOPE"
  shows "resolves ss x v"
  using wf_scopesD(4) [OF assms(1-3)] designates_owner [OF assms(4)] assms(2,3)
  unfolding resolves_def var_ok_def by (intro conjI exI [of _ k] exI [of _ v]) simp_all

lemma search_local_some:
  "search_local x ss (Suc n) = Some (k, v) \<Longrightarrow> k \<le> n \<and> scope_get (ss ! k) x = Some v \<and> owner ss k = owner ss n"
proof (induction n)
  case 0
  then show ?case by (auto split: option.splits if_splits)
next
  case (Suc n)
  then show ?case by (cases "scope_get (ss ! Suc n) x") (auto split: if_splits)
qed

lemma search_local_none: "search_local x ss (Suc n) = None \<Longrightarrow> scope_get (ss ! owner ss n) x = None"
proof (induction n)
  case 0
  then show ?case by (auto split: option.splits)
next
  case (Suc n)
  then show ?case by (cases "scope_get (ss ! Suc n) x") (auto split: if_splits)
qed

lemma search_all_some: "search_all x ss n = Some (k, v) \<Longrightarrow> k < n \<and> scope_get (ss ! k) x = Some v"
  by (induction n) (auto split: option.splits)

lemma search_all_none: "search_all x ss n = None \<Longrightarrow> k < n \<Longrightarrow> scope_get (ss ! k) x = None"
  by (induction n) (auto split: option.splits simp: less_Suc_eq)

text \<open>
  The reference created for a variable of a wider scope \<open>k\<close> designates that variable exactly when the
  innermost scope is inside a function and the offsets of scope \<open>k\<close> count from \<open>k\<close> itself.
\<close>

lemma wider_designates:
  assumes ok: "scopes_ok q" and k: "0 < k" "k < length (scopes q)"
    and ve: "(x, ve) \<in> set (svars (scopes q ! k))" "vscope ve \<noteq> GLOBAL_SCOPE"
    and off: "off = top_scope (scopes q)" "k < off"
  shows "designates (scopes q) off \<lparr>vscope = LOCAL_SCOPE, soffset = wider_soffset k ve q, foffset = foffset ve, init_to_bool = b\<rparr>
      = designates (scopes q) k ve \<longleftrightarrow> owner (scopes q) off \<noteq> 0 \<and> scope_base (scopes q) k = k"
proof -
  let ?ss = "scopes q"
  note okq = scopes_okD [OF ok]
  have g: "last_offset (global_scopes q) = owner ?ss off" using okq(7) off(1) by (simp add: top_scope_def)
  have v: "var_ok ?ss k ve" using wf_scopesD(4) [OF okq(1) k(2) ve(1)] .
  have zero: "owner ?ss k = 0" if "owner ?ss off = 0"
    using that off(2)
  proof (induction off)
    case (Suc n)
    then show ?case by (cases "k = n") (auto split: if_splits)
  qed simp
  show ?thesis
  proof (cases "vscope ve")
    case LOCAL_SCOPE
    show ?thesis
      using g LOCAL_SCOPE zero k(1) by (auto simp: designates_def wider_soffset_def scope_base_def)
  next
    case FUNC_SCOPE
    then have "soffset ve = 0" "sctype (?ss ! k) = FUNC_SCOPE" using v by (auto simp: var_ok_def)
    moreover then have "owner ?ss k = k" using owner_self [OF okq(2) k(2)] by simp
    ultimately show ?thesis
      using g FUNC_SCOPE zero k(1) by (auto simp: designates_def wider_soffset_def scope_base_def)
  next
    case GLOBAL_SCOPE
    then show ?thesis using ve(2) by simp
  next
    case ANY_SCOPE
    then show ?thesis using v by (simp add: var_ok_def)
  qed
qed


section \<open>Every parse-time operation keeps the invariant\<close>

text \<open>When a wider variable is found, the use of it that the code gets right.\<close>

definition wider_ok :: "Scope list \<Rightarrow> nat \<Rightarrow> VarExpr \<Rightarrow> bool" where
  "wider_ok ss k ve \<longleftrightarrow> k = top_scope ss \<or> k = 0 \<or> vscope ve = GLOBAL_SCOPE
    \<or> owner ss (top_scope ss) \<noteq> 0 \<and> scope_base ss k = k"

definition outcome :: "string \<Rightarrow> 'v Sequencer \<Rightarrow> VarExpr option \<Rightarrow> 'v Sequencer \<Rightarrow> bool" where
  "outcome x q r q' \<longleftrightarrow> scopes_ok q' \<and> grows (scopes q) (scopes q') \<and> cur_stack q' = cur_stack q
    \<and> (case r of Some v \<Rightarrow> resolves (scopes q') x v | None \<Rightarrow> True)"

lemma top_less: "scopes_ok q \<Longrightarrow> top_scope (scopes q) < length (scopes q)"
  using scopes_okD(3) [of q] by (simp add: top_scope_def)

lemma top_grows: "grows ss ss' \<Longrightarrow> top_scope ss' = top_scope ss"
  by (simp add: grows_def top_scope_def)

lemma owner_grows: "grows ss ss' \<Longrightarrow> k < length ss \<Longrightarrow> owner ss' k = owner ss k"
  by (rule owner_cong) (simp add: grows_def)

lemma installed:
  assumes ok: "scopes_ok q" and sc: "sc \<noteq> ANY_SCOPE"
    and new: "\<And>i so. install_index sc False q = Some (i, so) \<Longrightarrow> scope_get (scopes q ! i) x = None"
  shows "\<exists>v q'. InstallID x sc warn b False fo q = Some (v, q') \<and> outcome x q (Some v) q'"
proof -
  obtain i so where i: "install_index sc False q = Some (i, so)" "sc = LOCAL_SCOPE \<Longrightarrow> i = length (scopes q) - 1"
    "sc = FUNC_SCOPE \<Longrightarrow> i = last_offset (global_scopes q)" "sc = GLOBAL_SCOPE \<Longrightarrow> i = 0"
    using install_index_some [OF ok sc] by blast
  note okq = scopes_okD [OF ok]
  have il: "i < length (scopes q)" using install_target(1) [OF ok i(1)] .
  have own: "owner (scopes q) i = owner (scopes q) (top_scope (scopes q)) \<or> i = 0"
  proof (cases sc)
    case FUNC_SCOPE
    then have "i = owner (scopes q) (top_scope (scopes q))" using i(3) okq(7) by (simp add: top_scope_def)
    then show ?thesis
      using owner_self [OF okq(2) il] sctype_outer(1) [OF okq(2) top_less [OF ok]] by simp
  qed (use i sc in \<open>simp_all add: top_scope_def\<close>)
  obtain v q' w where r: "InstallID x sc warn b False fo q = Some (v, q')" "scopes_ok q'"
    "grows (scopes q) (scopes q')" "(x, w) \<in> set (svars (scopes q' ! i))"
    "designates (scopes q') i w = designates (scopes q') i v" "vscope v = vscope w" "i = 0 \<longrightarrow> vscope v = GLOBAL_SCOPE"
    "cur_stack q' = cur_stack q"
    using InstallID_ok [OF ok i(1) new [OF i(1)], of warn b fo] by blast
  have il': "i < length (scopes q')" using il r(3) by (simp add: grows_def)
  have "vscope v \<noteq> ANY_SCOPE"
    using wf_scopesD(4) [OF scopes_okD(1) [OF r(2)] il' r(4)] r(6) by (simp add: var_ok_def)
  moreover have "owner (scopes q') i = owner (scopes q') (top_scope (scopes q')) \<or> vscope v = GLOBAL_SCOPE"
    using own r(7) owner_grows [OF r(3)] il top_less [OF ok] top_grows [OF r(3)] by auto
  then have "designates (scopes q') (top_scope (scopes q')) v = designates (scopes q') i w"
    using designates_owner [of "scopes q'" i "top_scope (scopes q')" v] r(5) by simp
  ultimately have "resolves (scopes q') x v" using il' r(4) unfolding resolves_def by blast
  then show ?thesis using r by (auto simp: outcome_def)
qed

lemma found_entry:
  assumes "scopes_ok q" "scope_get (scopes q ! k) x = Some v" "k < length (scopes q)"
    and "owner (scopes q) k = owner (scopes q) (top_scope (scopes q)) \<or> k = 0"
  shows "outcome x q (Some v) q"
proof -
  note mem = scope_get_mem [OF assms(2)]
  have "var_ok (scopes q) k v" using wf_scopesD(4) [OF scopes_okD(1) [OF assms(1)] assms(3) mem] .
  then have "k = 0 \<Longrightarrow> vscope v = GLOBAL_SCOPE"
    by (cases "vscope v") (auto simp: var_ok_def designates_def scope_base_def)
  then have "resolves (scopes q) x v"
    using assms(4) by (intro entry_resolves [OF scopes_okD(1) [OF assms(1)] assms(3) mem]) auto
  then show ?thesis using assms(1) by (simp add: outcome_def)
qed

lemma marked:
  assumes ok: "scopes_ok q" and off: "off = top_scope (scopes q)"
  shows "scopes_ok (set_scope off (MarkGlobalRef x (scopes q ! off)) q)"
    and "grows (scopes q) (scopes (set_scope off (MarkGlobalRef x (scopes q ! off)) q))"
proof -
  let ?s = "MarkGlobalRef x (scopes q ! off)"
  have g: "grows (scopes q) (scopes (set_scope off ?s q))"
    unfolding set_scope_simps by (rule set_scope_grows) (simp_all add: scope_length_def)
  then show "grows (scopes q) (scopes (set_scope off ?s q))" .
  have "scope_length ((scopes q)[off := ?s] ! 0) = scope_length (scopes q ! 0)"
    using top_less [OF ok] off by (cases "off = 0") (simp_all add: scope_length_def)
  then show "scopes_ok (set_scope off ?s q)"
    using wf_same_vars [OF scopes_okD(1) [OF ok], of ?s off] scopes_okD(5) [OF ok] g
    by (intro scopes_okI [OF ok]) simp_all
qed

text \<open>The innermost scope gets the reference to the wider variable, and the scopes stay well formed.\<close>

lemma wider_insert:
  assumes ok: "scopes_ok q" and k: "k < length (scopes q)" "k \<noteq> top_scope (scopes q)"
    and ve: "(x, ve) \<in> set (svars (scopes q ! k))"
    and v: "vscope v = LOCAL_SCOPE \<or> vscope v = GLOBAL_SCOPE"
    and d: "designates (scopes q) (top_scope (scopes q)) v = designates (scopes q) k ve"
  shows "resolves (scopes q) x v"
    and "scopes_ok (set_scope (top_scope (scopes q)) (scope_insert x v (scopes q ! top_scope (scopes q))) q)"
    and "grows (scopes q) ((scopes q)[top_scope (scopes q) := scope_insert x v (scopes q ! top_scope (scopes q))])"
proof -
  let ?ss = "scopes q" and ?off = "top_scope (scopes q)"
  let ?s = "scope_insert x v (?ss ! ?off)"
  note okq = scopes_okD [OF ok] and tl = top_less [OF ok]
  show "resolves ?ss x v" unfolding resolves_def using v k(1) ve d by force
  have kl: "k < ?off" using k by (simp add: top_scope_def)
  show g: "grows ?ss (?ss[?off := ?s])"
    by (rule set_scope_grows) (simp_all add: scope_length_def update_length)
  have "var_ok ?ss k ve" using wf_scopesD(4) [OF okq(1) k(1) ve] .
  then have "slot_ok ?ss k (designates ?ss k ve)" by (simp add: var_ok_def)
  then have "slot_ok ?ss ?off (designates ?ss ?off v)" using d kl by (cases "designates ?ss k ve") auto
  then have v_ok: "var_ok (?ss[?off := ?s]) ?off v"
    using slot_ok_grows [OF g tl] designates_grows [OF g tl] v by (auto simp: var_ok_def)
  have wf: "wf_scopes (?ss[?off := ?s])"
  proof (rule wf_insert [OF okq(1) tl _ _ v_ok])
    fix l y w
    assume w: "l < length ?ss" "(y, w) \<in> set (svars (?ss ! l))" "designates ?ss l w = designates ?ss ?off v"
    then show "y = x" using names_okD [OF wf_scopesD(2) [OF okq(1)] w(1) k(1) w(2) ve] d by simp
  qed simp_all
  have "scope_length (?ss[?off := ?s] ! 0) = scope_length (?ss ! 0)" using kl by simp
  then show "scopes_ok (set_scope ?off ?s q)"
    using okq(5) wf g by (intro scopes_okI [OF ok]) simp_all
qed

definition find_ok :: "(nat \<Rightarrow> VarExpr \<Rightarrow> bool) \<Rightarrow> string \<Rightarrow> scope_type \<Rightarrow> 'v Sequencer \<Rightarrow> bool" where
  "find_ok good x sc q \<longleftrightarrow> (sc = ANY_SCOPE \<longrightarrow>
     (case search_all x (scopes q) (length (scopes q)) of Some (k, ve) \<Rightarrow> good k ve | None \<Rightarrow> True))"

lemma outcome_trans:
  assumes "outcome x q1 r q2" "grows (scopes q) (scopes q1)" "cur_stack q1 = cur_stack q"
  shows "outcome x q r q2"
  using assms grows_trans [OF assms(2)] by (simp add: outcome_def)

text \<open>What both lookups do with a name of an unknown scope.\<close>

lemma any_scope:
  assumes ok: "scopes_ok q" and f: "search_all x (scopes q) (length (scopes q)) = found"
    and q1: "q1 = (if top_scope (scopes q) \<noteq> (case found of Some (k, _) \<Rightarrow> k | None \<Rightarrow> 0)
      then set_scope (top_scope (scopes q)) (MarkGlobalRef x (scopes q ! top_scope (scopes q))) q else q)"
  shows "scopes_ok q1" "grows (scopes q) (scopes q1)" "cur_stack q1 = cur_stack q"
    and "svars (scopes q1 ! k) = svars (scopes q ! k)" and "sctype (scopes q1 ! k) = sctype (scopes q ! k)"
    and "length (scopes q1) = length (scopes q)"
    and "global_scopes q1 = global_scopes q"
  using marked [OF ok refl, of x] ok top_less [OF ok] unfolding q1
  by (auto simp: nth_list_update)

lemma wider_created:
  assumes ok: "scopes_ok q" and f: "search_all x (scopes q) (length (scopes q)) = Some (k, ve)"
    and k: "k \<noteq> top_scope (scopes q)" "sctype (scopes q ! k) \<noteq> GLOBAL_SCOPE" and good: "wider_ok (scopes q) k ve"
    and t: "t = (if vscope ve = GLOBAL_SCOPE then GLOBAL_SCOPE else LOCAL_SCOPE)"
    and r: "CreateVarExpr t (wider_soffset k ve q) (foffset ve) b q = (v, q')"
  shows "outcome x q (Some v) q'"
    and "outcome x q (Some v) (set_scope (top_scope (scopes q')) (scope_insert x v (scopes q' ! top_scope (scopes q'))) q')"
proof -
  have kl: "k < length (scopes q)" "(x, ve) \<in> set (svars (scopes q ! k))"
    using search_all_some [OF f] scope_get_mem by auto
  have k0: "0 < k" using k(2) scopes_okD(2) [OF ok] by (cases k) (auto simp: types_ok_def)
  have ko: "k < top_scope (scopes q)" using k(1) kl(1) by (simp add: top_scope_def)
  have v: "v = \<lparr>vscope = t, soffset = wider_soffset k ve q, foffset = foffset ve, init_to_bool = b\<rparr>"
    and ss: "scopes q' = scopes q" and g: "global_scopes q' = global_scopes q" "global_frame q' = global_frame q"
      "length (back_refs q') = length (back_refs q)" "cur_stack q' = cur_stack q"
    using arg_cong [OF r, of fst] arg_cong [OF r, of snd] by (auto simp del: CreateVarExpr_simps(1) simp add: CreateVarExpr_simps)
  have ok': "scopes_ok q'" using ok ss g by (simp add: scopes_ok_def)
  have d: "designates (scopes q) (top_scope (scopes q)) v = designates (scopes q) k ve"
  proof (cases "vscope ve = GLOBAL_SCOPE")
    case True
    then show ?thesis using v t by (simp add: designates_def)
  next
    case False
    then have "owner (scopes q) (top_scope (scopes q)) \<noteq> 0 \<and> scope_base (scopes q) k = k"
      using good k0 ko by (auto simp: wider_ok_def)
    then show ?thesis using wider_designates [OF ok k0 kl False refl ko] v t False by simp
  qed
  have "vscope v = LOCAL_SCOPE \<or> vscope v = GLOBAL_SCOPE" using v t by simp
  note ins = wider_insert [OF ok', unfolded ss, OF kl(1) k(1) kl(2) this d]
  show "outcome x q (Some v) q'" using ins(1) ok' ss g by (simp add: outcome_def)
  let ?q = "set_scope (top_scope (scopes q')) (scope_insert x v (scopes q' ! top_scope (scopes q'))) q'"
  have gr: "grows (scopes q) (scopes ?q)" using ins(3) ss by simp
  have "resolves (scopes ?q) x v"
  proof -
    let ?o = "top_scope (scopes q)"
    have ol: "?o < length (scopes ?q)" using top_less [OF ok] ss by simp
    have m: "(x, v) \<in> set (svars (scopes ?q ! ?o))"
      using top_less [OF ok] ss scope_get_mem [of "scopes ?q ! ?o" x v]
      by (simp add: scope_get_def AList.update_conv')
    show ?thesis
      by (rule entry_resolves [OF scopes_okD(1) ol m]) (use ins(2) ss top_grows [OF gr] in simp_all)
  qed
  then show "outcome x q (Some v) ?q" using ins(2) ss g gr by (simp add: outcome_def)
qed


definition lookup_good :: "string \<Rightarrow> 'v Sequencer \<Rightarrow> bool \<Rightarrow> (VarExpr option \<times> 'v Sequencer) option \<Rightarrow> bool" where
  "lookup_good x q do_install res \<longleftrightarrow>
    (\<exists>r q'. res = Some (r, q') \<and> outcome x q r q' \<and> (do_install \<longrightarrow> r \<noteq> None))"

lemma lookup_found: "outcome x q (Some v) q' \<Longrightarrow> lookup_good x q do_install (Some (Some v, q'))"
  by (auto simp: lookup_good_def)

lemma lookup_install:
  assumes ok: "scopes_ok q" and s: "s \<noteq> ANY_SCOPE"
    and new: "\<And>i so. install_index s False q = Some (i, so) \<Longrightarrow> scope_get (scopes q ! i) x = None"
  shows "lookup_good x q do_install
    (if do_install then map_option (\<lambda>(v, q). (Some v, q)) (InstallID x s warn b False 0 q) else Some (None, q))"
  using installed [OF ok s new, where warn = warn and b = b and fo = 0] ok
  by (cases do_install) (fastforce simp: lookup_good_def outcome_def)+

lemma install_index_eqs:
  "install_index FUNC_SCOPE False q = Some (i, so) \<Longrightarrow> i = last_offset (global_scopes q)"
  "install_index GLOBAL_SCOPE False q = Some (i, so) \<Longrightarrow> i = 0"
  "install_index LOCAL_SCOPE False q = Some (i, so) \<Longrightarrow> i = length (scopes q) - 1"
  by (auto simp: install_index_def Let_def split: Option.bind_splits)

lemma search_local_good:
  assumes ok: "scopes_ok q"
  shows "search_local x (scopes q) (length (scopes q)) = Some (k, v) \<Longrightarrow> outcome x q (Some v) q"
    and "search_local x (scopes q) (length (scopes q)) = None \<Longrightarrow> install_index FUNC_SCOPE False q = Some (i, so) \<Longrightarrow>
      scope_get (scopes q ! i) x = None"
proof -
  obtain n where n: "length (scopes q) = Suc n" "top_scope (scopes q) = n"
    using scopes_okD(3) [OF ok] by (cases "scopes q") (auto simp: top_scope_def)
  show "outcome x q (Some v) q" if "search_local x (scopes q) (length (scopes q)) = Some (k, v)"
    using found_entry [OF ok, of k x v] search_local_some [of x "scopes q" n k v] that n by simp
  show "scope_get (scopes q ! i) x = None"
    if "search_local x (scopes q) (length (scopes q)) = None" "install_index FUNC_SCOPE False q = Some (i, so)"
    using search_local_none [of x "scopes q" n] that(1) n install_index_eqs(1) [OF that(2)] scopes_okD(7) [OF ok]
    by simp
qed

lemma LookupID_local:
  assumes ok: "scopes_ok q"
  shows "lookup_good x q do_install (LookupID x LOCAL_SCOPE do_install warn search b q)"
proof (cases search)
  case True
  show ?thesis
  proof (cases "search_local x (scopes q) (length (scopes q))")
    case None
    then show ?thesis
      using lookup_install [OF ok, of FUNC_SCOPE] search_local_good(2) [OF ok None] True by (simp add: LookupID_def)
  next
    case (Some kv)
    then show ?thesis using search_local_good(1) [OF ok] lookup_found True
      by (cases kv) (fastforce simp: LookupID_def)
  qed
next
  case False
  have tl: "length (scopes q) - 1 < length (scopes q)" using top_less [OF ok] by (simp add: top_scope_def)
  show ?thesis
  proof (cases "scope_get (scopes q ! (length (scopes q) - 1)) x")
    case None
    then have "lookup_good x q do_install
      (if do_install then map_option (\<lambda>(v, q). (Some v, q)) (InstallID x LOCAL_SCOPE warn b False 0 q) else Some (None, q))"
      by (intro lookup_install [OF ok]) (auto dest: install_index_eqs(3))
    then show ?thesis using None False tl by (simp add: LookupID_def scope_at_def)
  next
    case (Some v)
    have "outcome x q (Some v) q" using found_entry [OF ok Some tl] by (simp add: top_scope_def)
    then show ?thesis using Some False tl lookup_found by (simp add: LookupID_def scope_at_def)
  qed
qed

lemma func_entry:
  assumes ok: "scopes_ok q" and v: "scope_get (scopes q ! last_offset (global_scopes q)) x = Some v"
  shows "outcome x q (Some v) q"
proof -
  note okq = scopes_okD [OF ok] and tl = top_less [OF ok]
  let ?o = "last_offset (global_scopes q)"
  have ol: "?o < length (scopes q)" using okq(2,4) outer_less by metis
  have o: "?o = owner (scopes q) (top_scope (scopes q))" using okq(7) by (simp add: top_scope_def)
  then have "owner (scopes q) ?o = ?o"
    using owner_self [OF okq(2) ol] sctype_outer(1) [OF okq(2) tl] by simp
  then show ?thesis using found_entry [OF ok v ol] o by simp
qed

lemma LookupID_func:
  assumes ok: "scopes_ok q"
  shows "lookup_good x q do_install (LookupID x FUNC_SCOPE do_install warn search b q)"
proof -
  have ol: "last_offset (global_scopes q) < length (scopes q)" using scopes_okD(2,4) [OF ok] outer_less by metis
  show ?thesis
  proof (cases "scope_get (scopes q ! last_offset (global_scopes q)) x")
    case None
    then have "lookup_good x q do_install
      (if do_install then map_option (\<lambda>(v, q). (Some v, q)) (InstallID x FUNC_SCOPE warn b False 0 q) else Some (None, q))"
      by (intro lookup_install [OF ok]) (auto dest: install_index_eqs(1))
    then show ?thesis using None ol by (simp add: LookupID_def scope_at_def)
  next
    case (Some v)
    then show ?thesis using func_entry [OF ok Some] ol lookup_found by (simp add: LookupID_def scope_at_def)
  qed
qed

lemma global_reference:
  assumes ok: "scopes_ok q" and u: "scope_get (scopes q ! 0) x = Some u" and t: "GetScopeType q \<noteq> GLOBAL_SCOPE"
  shows "\<exists>v q'. InstallID x LOCAL_SCOPE warn b True (foffset u) q = Some (v, q') \<and> outcome x q (Some v) q'"
proof -
  have more: "length (scopes q) > 1"
    using t scopes_okD(3) [OF ok] by (cases "length (scopes q)") (auto simp: GetScopeType_global)
  obtain v q' where r: "install_once x LOCAL_SCOPE warn b True (foffset u) q = Some (v, False, q')" "scopes_ok q'"
    "grows (scopes q) (scopes q')" "scope_get (scopes q' ! (length (scopes q) - 1)) x = Some v"
    "cur_stack q' = cur_stack q"
    using install_gref [OF ok more scope_get_mem [OF u], of warn b] by blast
  have lq: "length (scopes q') = length (scopes q)" using r(3) by (simp add: grows_def)
  have "outcome x q' (Some v) q'"
    by (rule found_entry [OF r(2) r(4)]) (use more lq in \<open>simp_all add: top_scope_def\<close>)
  then have "outcome x q (Some v) q'" using outcome_trans r(3,5) by blast
  then show ?thesis using r(1) by (simp add: InstallID_def)
qed

lemma LookupID_global:
  assumes ok: "scopes_ok q"
  shows "lookup_good x q do_install (LookupID x GLOBAL_SCOPE do_install warn search b q)"
proof -
  have zl: "0 < length (scopes q)" using scopes_okD(3) [OF ok] by simp
  show ?thesis
  proof (cases "scope_get (scopes q ! 0) x")
    case None
    then have "lookup_good x q do_install
      (if do_install then map_option (\<lambda>(v, q). (Some v, q)) (InstallID x GLOBAL_SCOPE warn b False 0 q) else Some (None, q))"
      by (intro lookup_install [OF ok]) (auto dest: install_index_eqs(2))
    then show ?thesis using None zl by (simp add: LookupID_def scope_at_def)
  next
    case (Some u)
    show ?thesis
    proof (cases "GetScopeType q = GLOBAL_SCOPE")
      case True
      have "outcome x q (Some u) q" using found_entry [OF ok Some zl] by simp
      then show ?thesis using Some zl True lookup_found by (simp add: LookupID_def scope_at_def)
    next
      case False
      then obtain v q' where "InstallID x LOCAL_SCOPE warn b True (foffset u) q = Some (v, q')" "outcome x q (Some v) q'"
        using global_reference [OF ok Some False] by blast
      then show ?thesis using Some zl False lookup_found by (simp add: LookupID_def scope_at_def)
    qed
  qed
qed

lemma lookup_good_trans:
  assumes "lookup_good x q1 do_install r" "grows (scopes q) (scopes q1)" "cur_stack q1 = cur_stack q"
  shows "lookup_good x q do_install r"
  using assms outcome_trans unfolding lookup_good_def by blast

lemma search_all_cong: "(\<And>k. k < n \<Longrightarrow> svars (ss ! k) = svars (ss' ! k)) \<Longrightarrow> search_all x ss n = search_all x ss' n"
  by (induction n) (auto simp: scope_get_def split: option.split)

lemma wider_ok_grows:
  assumes "grows ss ss'" "k < length ss" "wider_ok ss k ve"
  shows "wider_ok ss' k ve"
proof -
  have "top_scope ss < length ss" using assms(2) by (simp add: top_scope_def)
  then show ?thesis
    using assms owner_grows [OF assms(1)] top_grows [OF assms(1)] by (auto simp: wider_ok_def scope_base_def)
qed

text \<open>The state after the search, in which both lookups go on.\<close>

definition searched :: "string \<Rightarrow> 'v Sequencer \<Rightarrow> 'v Sequencer" where
  "searched x q = (if top_scope (scopes q)
       \<noteq> (case search_all x (scopes q) (length (scopes q)) of Some (k, _) \<Rightarrow> k | None \<Rightarrow> 0)
     then set_scope (top_scope (scopes q)) (MarkGlobalRef x (scopes q ! top_scope (scopes q))) q else q)"

lemma searched_facts:
  assumes ok: "scopes_ok q"
  shows "scopes_ok (searched x q)" "grows (scopes q) (scopes (searched x q))" "cur_stack (searched x q) = cur_stack q"
    and "svars (scopes (searched x q) ! k) = svars (scopes q ! k)"
    and "length (scopes (searched x q)) = length (scopes q)"
    and "search_all y (scopes (searched x q)) n = search_all y (scopes q) n"
proof -
  note facts = any_scope [OF ok refl searched_def]
  show "scopes_ok (searched x q)" "grows (scopes q) (scopes (searched x q))" "cur_stack (searched x q) = cur_stack q"
    "svars (scopes (searched x q) ! k) = svars (scopes q ! k)" "length (scopes (searched x q)) = length (scopes q)"
    using facts by simp_all
  show "search_all y (scopes (searched x q)) n = search_all y (scopes q) n"
    by (rule search_all_cong) (use facts in simp)
qed

lemma any_found:
  assumes ok: "scopes_ok q" and f: "search_all x (scopes q) (length (scopes q)) = Some (k, ve)"
    and no: "\<not> (top_scope (scopes q) \<noteq> k \<and> sctype (scopes (searched x q) ! k) \<noteq> GLOBAL_SCOPE)"
  shows "outcome x q (Some ve) (searched x q)"
proof -
  note facts = searched_facts [OF ok, of x]
  let ?q = "searched x q"
  have k: "k < length (scopes ?q)" "scope_get (scopes ?q ! k) x = Some ve"
    using search_all_some [OF f] facts(4,5) by (simp_all add: scope_get_def)
  have "k = top_scope (scopes ?q) \<or> k = 0"
    using no k(1) scopes_okD(2) [OF facts(1)] top_grows [OF facts(2)] by (fastforce simp: types_ok_def)
  then have "outcome x ?q (Some ve) ?q" using found_entry [OF facts(1) k(2,1)] by auto
  then show ?thesis by (rule outcome_trans [OF _ facts(2,3)])
qed

lemma LookupID_any_eq:
  assumes "scopes_ok q"
  shows "LookupID x ANY_SCOPE do_install warn search b q =
    (case search_all x (scopes q) (length (scopes q)) of
       Some (k, ve) \<Rightarrow>
         if top_scope (scopes q) \<noteq> k \<and> sctype (scopes (searched x q) ! k) \<noteq> GLOBAL_SCOPE
         then (let (v, q') = CreateVarExpr (if vscope ve = GLOBAL_SCOPE then GLOBAL_SCOPE else LOCAL_SCOPE)
                     (wider_soffset k ve (searched x q)) (foffset ve) False (searched x q)
               in Some (Some v, set_scope (top_scope (scopes q)) (scope_insert x v (scopes q' ! top_scope (scopes q))) q'))
         else Some (Some ve, searched x q)
     | None \<Rightarrow>
         if do_install then map_option (\<lambda>(v, q). (Some v, q)) (InstallID x GLOBAL_SCOPE warn b False 0 (searched x q))
         else Some (None, searched x q))"
proof -
  have "scope_at q (top_scope (scopes q)) = Some (scopes q ! top_scope (scopes q))"
    using top_less [OF assms] by (simp add: scope_at_def)
  then show ?thesis
    unfolding LookupID_def searched_def Let_def by (simp only: scope_type.case bind.simps)
qed

lemma LookupID_any:
  assumes ok: "scopes_ok q" and good: "find_ok (wider_ok (scopes q)) x ANY_SCOPE q"
  shows "lookup_good x q do_install (LookupID x ANY_SCOPE do_install warn search b q)"
proof -
  note facts = searched_facts [OF ok, of x]
  let ?q = "searched x q"
  show ?thesis
  proof (cases "search_all x (scopes q) (length (scopes q))")
    case None
    have "scope_get (scopes ?q ! 0) x = None"
      using search_all_none [OF None, of 0] scopes_okD(3) [OF ok] facts(4) [of 0] by (simp add: scope_get_def)
    then have "lookup_good x ?q do_install
      (if do_install then map_option (\<lambda>(v, q). (Some v, q)) (InstallID x GLOBAL_SCOPE warn b False 0 ?q) else Some (None, ?q))"
      by (intro lookup_install [OF facts(1)]) (auto dest: install_index_eqs(2))
    then show ?thesis
      using lookup_good_trans [OF _ facts(2,3)] None LookupID_any_eq [OF ok] by simp
  next
    case (Some kv)
    obtain k ve where kv: "kv = (k, ve)" by (cases kv)
    show ?thesis
    proof (cases "top_scope (scopes q) \<noteq> k \<and> sctype (scopes ?q ! k) \<noteq> GLOBAL_SCOPE")
      case False
      then have eq: "LookupID x ANY_SCOPE do_install warn search b q = Some (Some ve, ?q)"
        unfolding LookupID_any_eq [OF ok] Some kv by auto
      show ?thesis unfolding eq using lookup_found any_found [OF ok _ False] Some kv by simp
    next
      case True
      obtain v q' where r: "CreateVarExpr (if vscope ve = GLOBAL_SCOPE then GLOBAL_SCOPE else LOCAL_SCOPE)
          (wider_soffset k ve ?q) (foffset ve) False ?q = (v, q')" by fastforce
      have f: "search_all x (scopes ?q) (length (scopes ?q)) = Some (k, ve)" using Some kv facts(5,6) by simp
      have kl: "k < length (scopes q)" using search_all_some [of x "scopes q" _ k ve] Some kv by simp
      have "wider_ok (scopes q) k ve" using good Some kv by (simp add: find_ok_def)
      then have w: "wider_ok (scopes ?q) k ve" by (rule wider_ok_grows [OF facts(2) kl])
      have t: "top_scope (scopes ?q) = top_scope (scopes q)" using top_grows [OF facts(2)] .
      have "scopes q' = scopes ?q" using arg_cong [OF r, of "\<lambda>p. scopes (snd p)"] by simp
      then have o: "outcome x ?q (Some v) (set_scope (top_scope (scopes q)) (scope_insert x v (scopes q' ! top_scope (scopes q))) q')"
        using wider_created(2) [OF facts(1) f _ _ w refl r] True t by auto
      have eq: "LookupID x ANY_SCOPE do_install warn search b q
          = Some (Some v, set_scope (top_scope (scopes q)) (scope_insert x v (scopes q' ! top_scope (scopes q))) q')"
        unfolding LookupID_any_eq [OF ok] Some kv using True r by simp
      show ?thesis unfolding eq by (rule lookup_found [OF outcome_trans [OF o facts(2,3)]])
    qed
  qed
qed

lemma LookupID_ok:
  assumes "scopes_ok q" and "find_ok (wider_ok (scopes q)) x sc q"
  shows "lookup_good x q do_install (LookupID x sc do_install warn search b q)"
proof (cases sc)
  case LOCAL_SCOPE
  then show ?thesis using LookupID_local [OF assms(1)] by simp
next
  case FUNC_SCOPE
  then show ?thesis using LookupID_func [OF assms(1)] by simp
next
  case GLOBAL_SCOPE
  then show ?thesis using LookupID_global [OF assms(1)] by simp
next
  case ANY_SCOPE
  then show ?thesis using LookupID_any [OF assms(1)] assms(2) by simp
qed

text \<open>\<open>InstallVar\<close> is \<open>InstallID\<close> without the reference in the innermost scope.\<close>

lemma InstallVar_eq: "InstallVar x sc b q = map_option (\<lambda>(v, g, q). (v, q)) (install_once x sc True b False 0 q)"
  unfolding InstallVar_def install_once_def
  by (cases "install_index sc False q") (auto simp: Let_def case_prod_unfold split: Option.bind_split)

definition resolve_good :: "string \<Rightarrow> 'v Sequencer \<Rightarrow> (VarExpr \<times> 'v Sequencer) option \<Rightarrow> bool" where
  "resolve_good x q res \<longleftrightarrow> (\<exists>v q'. res = Some (v, q') \<and> outcome x q (Some v) q')"

lemma InstallVar_ok:
  assumes ok: "scopes_ok q" and sc: "sc = FUNC_SCOPE \<or> sc = GLOBAL_SCOPE"
    and new: "\<And>i so. install_index sc False q = Some (i, so) \<Longrightarrow> scope_get (scopes q ! i) x = None"
  shows "resolve_good x q (InstallVar x sc b q)"
proof -
  obtain i so where i: "install_index sc False q = Some (i, so)" "sc = FUNC_SCOPE \<Longrightarrow> i = last_offset (global_scopes q)"
    "sc = GLOBAL_SCOPE \<Longrightarrow> i = 0"
    using install_index_some [OF ok, of sc] sc by blast
  obtain v q' where r: "install_once x sc True b False 0 q = Some (v, i = 0, q')" "scopes_ok q'"
    "grows (scopes q) (scopes q')" "scope_get (scopes q' ! i) x = Some v" "length (scopes q') = length (scopes q)"
    "cur_stack q' = cur_stack q"
    using install_fresh [OF ok i(1) new [OF i(1)], of True b 0] by blast
  have il: "i < length (scopes q')" using install_target(1) [OF ok i(1)] r(5) by simp
  have "outcome x q' (Some v) q'"
  proof (cases "i = 0")
    case True
    then show ?thesis using found_entry [OF r(2) r(4) il] by simp
  next
    case False
    have "i = last_offset (global_scopes q')"
      using i(2,3) sc False scopes_okD(4) [OF ok] scopes_okD(4) [OF r(2)] outer_scopes_grows [OF r(3)] by auto
    then show ?thesis using func_entry [OF r(2)] r(4) by simp
  qed
  then have "outcome x q (Some v) q'" by (rule outcome_trans [OF _ r(3,6)])
  then show ?thesis using r(1) by (simp add: resolve_good_def InstallVar_eq)
qed

definition resolve_ok :: "Scope list \<Rightarrow> nat \<Rightarrow> VarExpr \<Rightarrow> bool" where
  "resolve_ok ss k ve \<longleftrightarrow> wider_ok ss k ve \<and> (vscope ve = GLOBAL_SCOPE \<and> k \<noteq> 0 \<longrightarrow> soffset ve < 0)"

lemma LookupVar_any_eq:
  assumes "scopes_ok q"
  shows "LookupVar x ANY_SCOPE b q =
    (case search_all x (scopes q) (length (scopes q)) of
       Some (k, ve) \<Rightarrow>
         Some (if top_scope (scopes q) \<noteq> k \<and> sctype (scopes (searched x q) ! k) \<noteq> GLOBAL_SCOPE
           then CreateVarExpr (if soffset ve < 0 \<and> vscope ve = GLOBAL_SCOPE then GLOBAL_SCOPE else LOCAL_SCOPE)
                  (wider_soffset k ve (searched x q)) (foffset ve) False (searched x q)
           else (ve, searched x q))
     | None \<Rightarrow> InstallVar x GLOBAL_SCOPE b (searched x q))"
proof -
  have "scope_at q (top_scope (scopes q)) = Some (scopes q ! top_scope (scopes q))"
    using top_less [OF assms] by (simp add: scope_at_def)
  then show ?thesis
    unfolding LookupVar_def searched_def Let_def by (simp only: scope_type.case bind.simps)
qed

lemma LookupVar_any:
  assumes ok: "scopes_ok q" and good: "find_ok (resolve_ok (scopes q)) x ANY_SCOPE q"
  shows "resolve_good x q (LookupVar x ANY_SCOPE b q)"
proof -
  note facts = searched_facts [OF ok, of x]
  let ?q = "searched x q"
  show ?thesis
  proof (cases "search_all x (scopes q) (length (scopes q))")
    case None
    have "scope_get (scopes ?q ! 0) x = None"
      using search_all_none [OF None, of 0] scopes_okD(3) [OF ok] facts(4) [of 0] by (simp add: scope_get_def)
    then have "resolve_good x ?q (InstallVar x GLOBAL_SCOPE b ?q)"
      by (intro InstallVar_ok [OF facts(1)]) (auto dest: install_index_eqs(2))
    then show ?thesis
      using outcome_trans [OF _ facts(2,3)] None LookupVar_any_eq [OF ok] by (auto simp: resolve_good_def)
  next
    case (Some kv)
    obtain k ve where kv: "kv = (k, ve)" by (cases kv)
    show ?thesis
    proof (cases "top_scope (scopes q) \<noteq> k \<and> sctype (scopes ?q ! k) \<noteq> GLOBAL_SCOPE")
      case False
      then have eq: "LookupVar x ANY_SCOPE b q = Some (ve, ?q)"
        unfolding LookupVar_any_eq [OF ok] Some kv by auto
      show ?thesis using any_found [OF ok _ False] Some kv eq by (simp add: resolve_good_def)
    next
      case True
      obtain v q' where r: "CreateVarExpr (if vscope ve = GLOBAL_SCOPE then GLOBAL_SCOPE else LOCAL_SCOPE)
          (wider_soffset k ve ?q) (foffset ve) False ?q = (v, q')" by fastforce
      have f: "search_all x (scopes ?q) (length (scopes ?q)) = Some (k, ve)" using Some kv facts(5,6) by simp
      have kl: "k < length (scopes q)" using search_all_some [of x "scopes q" _ k ve] Some kv by simp
      have k0: "k \<noteq> 0" using True scopes_okD(2) [OF facts(1)] by (cases "k = 0") (auto simp: types_ok_def)
      have res: "resolve_ok (scopes q) k ve" using good Some kv by (simp add: find_ok_def)
      have w: "wider_ok (scopes ?q) k ve"
        by (rule wider_ok_grows [OF facts(2) kl]) (use res in \<open>simp add: resolve_ok_def\<close>)
      have tag: "(soffset ve < 0 \<and> vscope ve = GLOBAL_SCOPE) = (vscope ve = GLOBAL_SCOPE)"
        using res k0 by (auto simp: resolve_ok_def)
      have t: "k \<noteq> top_scope (scopes ?q)" using top_grows [OF facts(2)] True by simp
      have o: "outcome x ?q (Some v) q'" by (rule wider_created(1) [OF facts(1) f t _ w refl r]) (use True in simp)
      have eq: "LookupVar x ANY_SCOPE b q = Some (v, q')"
        unfolding LookupVar_any_eq [OF ok] Some kv using True r by (simp add: tag)
      show ?thesis unfolding eq resolve_good_def using outcome_trans [OF o facts(2,3)] by blast
    qed
  qed
qed

lemma LookupVar_ok:
  assumes ok: "scopes_ok q" and good: "find_ok (resolve_ok (scopes q)) x sc q"
  shows "resolve_good x q (LookupVar x sc b q)"
proof (cases sc)
  case LOCAL_SCOPE
  show ?thesis
  proof (cases "search_local x (scopes q) (length (scopes q))")
    case None
    then have "resolve_good x q (InstallVar x FUNC_SCOPE b q)"
      by (intro InstallVar_ok [OF ok]) (auto dest: search_local_good(2) [OF ok])
    then show ?thesis using None LOCAL_SCOPE by (simp add: LookupVar_def)
  next
    case (Some kv)
    then show ?thesis using search_local_good(1) [OF ok] LOCAL_SCOPE
      by (cases kv) (auto simp: LookupVar_def resolve_good_def)
  qed
next
  case FUNC_SCOPE
  have ol: "last_offset (global_scopes q) < length (scopes q)" using scopes_okD(2,4) [OF ok] outer_less by metis
  show ?thesis
  proof (cases "scope_get (scopes q ! last_offset (global_scopes q)) x")
    case None
    then have "resolve_good x q (InstallVar x FUNC_SCOPE b q)"
      by (intro InstallVar_ok [OF ok]) (auto dest: install_index_eqs(1))
    then show ?thesis using None FUNC_SCOPE ol by (simp add: LookupVar_def scope_at_def)
  next
    case (Some v)
    then show ?thesis using func_entry [OF ok Some] FUNC_SCOPE ol by (simp add: LookupVar_def scope_at_def resolve_good_def)
  qed
next
  case GLOBAL_SCOPE
  have zl: "0 < length (scopes q)" using scopes_okD(3) [OF ok] by simp
  show ?thesis
  proof (cases "scope_get (scopes q ! 0) x")
    case None
    then have "resolve_good x q (InstallVar x GLOBAL_SCOPE b q)"
      by (intro InstallVar_ok [OF ok]) (auto dest: install_index_eqs(2))
    then show ?thesis using None GLOBAL_SCOPE zl by (simp add: LookupVar_def scope_at_def)
  next
    case (Some v)
    then show ?thesis using found_entry [OF ok Some zl] GLOBAL_SCOPE zl by (simp add: LookupVar_def scope_at_def resolve_good_def)
  qed
next
  case ANY_SCOPE
  then show ?thesis using LookupVar_any [OF ok] good by simp
qed

text \<open>Opening and closing a scope.\<close>

lemma func_scopes_append: "func_scopes (ss @ [s]) = func_scopes ss + (if sctype s = FUNC_SCOPE then 1 else 0)"
  by (simp add: func_scopes_def)

lemma PushScope_ok:
  assumes ok: "scopes_ok q" and t: "t = LOCAL_SCOPE \<or> t = FUNC_SCOPE"
  shows "scopes_ok (PushScope t q)"
proof -
  note okq = scopes_okD [OF ok]
  let ?s = "\<lparr>sctype = t, svars = [], global_refs = []\<rparr>"
  have ss: "scopes (PushScope t q) = scopes q @ [?s]" by (auto simp: PushScope_def Let_def)
  have "(scopes q @ [?s]) ! 0 = scopes q ! 0" using okq(3) by (simp add: nth_append)
  moreover have "global_frame (PushScope t q) = global_frame q" by (auto simp: PushScope_def Let_def)
  moreover have "global_scopes (PushScope t q) = outer_scopes (scopes q @ [?s])"
    using okq(4) by (auto simp: PushScope_def Let_def outer_scopes_append)
  moreover have "length (back_refs (PushScope t q)) = func_scopes (scopes q @ [?s])"
    using okq(6) t by (auto simp: PushScope_def Let_def func_scopes_append)
  ultimately show ?thesis using wf_push [OF okq(1) t] okq(5) ss by (simp add: scopes_ok_def)
qed

lemma PopScope_ok:
  assumes ok: "scopes_ok q" and more: "length (scopes q) > 1"
  shows "\<exists>n bs q'. PopScope q = Some (n, bs, q') \<and> scopes_ok q' \<and> n = scope_length (last (scopes q))
    \<and> scopes q' = butlast (scopes q) \<and> cur_stack q' = cur_stack q \<and> global_frame q' = global_frame q"
proof -
  note okq = scopes_okD [OF ok]
  obtain ss s where ss: "scopes q = ss @ [s]" using okq(3) by (cases "scopes q" rule: rev_cases) auto
  have ne: "ss \<noteq> []" using more ss by auto
  have notin: "length ss \<notin> set (outer_scopes ss)" by (auto simp: outer_scopes_def)
  have outer: "(if sctype s \<noteq> LOCAL_SCOPE then remove1 (length ss) (global_scopes q) else global_scopes q) = outer_scopes ss"
    using okq(4) notin by (simp add: ss outer_scopes_append remove1_append)
  have br: "sctype s = FUNC_SCOPE \<Longrightarrow> back_refs q \<noteq> []" using okq(6) by (auto simp: ss func_scopes_append)
  have "scope_length (ss ! 0) = length (global_frame q)" using okq(5) ne by (simp add: ss nth_append)
  then show ?thesis
    using outer br okq(6) wf_pop [of ss s] okq(1) ne
    by (auto simp: PopScope_def Let_def ss scopes_ok_def func_scopes_append)
qed

text \<open>Setting the scope of a function aside, as its attributes are read, and taking it back.\<close>

lemma stash_restore:
  assumes "scopes_ok q" "stashed_scope q = None"
  shows "StashScope q \<bind> RestoreScope = Some q"
proof -
  obtain ss s where ss: "scopes q = ss @ [s]"
    using scopes_okD(3) [OF assms(1)] by (cases "scopes q" rule: rev_cases) auto
  have "length ss \<notin> set (outer_scopes ss)" by (auto simp: outer_scopes_def)
  then have "sctype s \<noteq> LOCAL_SCOPE \<Longrightarrow> remove1 (length ss) (global_scopes q) @ [length ss] = global_scopes q"
    using scopes_okD(4) [OF assms(1)] by (simp add: ss outer_scopes_append remove1_append)
  then show ?thesis using assms(2) by (simp add: StashScope_def RestoreScope_def Let_def ss)
qed

end
