(* ===== verification/Glish_Frame.thy ===== *)
theory Glish_Frame
  imports Glish_Scope
begin

text \<open>
  Running with the scopes of theory \<open>Glish_Scope\<close>: the frame stack that belongs to a stack of scopes,
  access to a variable by its offsets as access by name, and the properties of names and frames.
\<close>

section \<open>Running with the frames of the scopes\<close>

text \<open>
  The frame stack a piece of code runs with: one entry for every scope around it but the global one,
  a null pointer where a block has no variable, with room for the variables of the scope.
\<close>

fun frame_fits :: "Scope \<Rightarrow> 'v Frame option \<Rightarrow> bool" where
  "frame_fits s None \<longleftrightarrow> sctype s = LOCAL_SCOPE \<and> svars s = []"
| "frame_fits s (Some f) \<longleftrightarrow> fscope f = sctype s \<and> scope_length s \<le> length (fvalues f)"

definition outer_frame :: "'v Frame option \<Rightarrow> bool" where
  "outer_frame f \<longleftrightarrow> (case f of Some fr \<Rightarrow> fscope fr \<noteq> LOCAL_SCOPE | None \<Rightarrow> False)"

definition outer_frames :: "'v Frame option list \<Rightarrow> nat list" where
  "outer_frames fs = filter (\<lambda>i. outer_frame (fs ! i)) [0..<length fs]"

definition running :: "Scope list \<Rightarrow> 'v Sequencer \<Rightarrow> bool" where
  "running ss q \<longleftrightarrow> length ss = Suc (length (sframes (cur_stack q)))
    \<and> soffsets (cur_stack q) = outer_frames (sframes (cur_stack q))
    \<and> (\<forall>i < length (sframes (cur_stack q)). frame_fits (ss ! Suc i) (sframes (cur_stack q) ! i))
    \<and> scope_length (ss ! 0) \<le> length (global_frame q)"

lemma frame_fits_outer: "frame_fits s f \<Longrightarrow> outer_frame f \<longleftrightarrow> sctype s \<noteq> LOCAL_SCOPE"
  by (cases f) (auto simp: outer_frame_def)

lemma outer_scopes_frames:
  assumes "types_ok ss" "running ss q"
  shows "outer_scopes ss = 0 # map Suc (soffsets (cur_stack q))"
proof -
  let ?fs = "sframes (cur_stack q)"
  have len: "length ss = Suc (length ?fs)" using assms(2) by (simp add: running_def)
  have "filter (\<lambda>i. sctype (ss ! Suc i) \<noteq> LOCAL_SCOPE) [0..<length ?fs] = filter (\<lambda>i. outer_frame (?fs ! i)) [0..<length ?fs]"
    by (rule filter_cong) (use assms(2) frame_fits_outer in \<open>auto simp: running_def\<close>)
  then have eq: "filter (\<lambda>i. sctype (ss ! Suc i) \<noteq> LOCAL_SCOPE) [0..<length ?fs] = soffsets (cur_stack q)"
    using assms(2) by (simp add: running_def outer_frames_def)
  have up: "[0..<length ss] = 0 # map Suc [0..<length ?fs]"
    by (simp add: len upt_conv_Cons map_Suc_upt del: upt_Suc)
  have "sctype (ss ! 0) \<noteq> LOCAL_SCOPE" using assms(1) by (simp add: types_ok_def)
  then have "outer_scopes ss = 0 # map Suc (filter (\<lambda>i. sctype (ss ! Suc i) \<noteq> LOCAL_SCOPE) [0..<length ?fs])"
    unfolding outer_scopes_def up by (simp add: filter_map o_def)
  then show ?thesis unfolding eq .
qed

lemma run_base:
  assumes "types_ok ss" "running ss q"
  shows "scope_base ss (top_scope ss) = Suc (last_offset (soffsets (cur_stack q)))"
    and "owner ss (top_scope ss) \<noteq> 0 \<Longrightarrow> owner ss (top_scope ss) = Suc (last_offset (soffsets (cur_stack q)))"
proof -
  have "owner ss (top_scope ss) = last_offset (outer_scopes ss)" using last_outer [OF assms(1)] by (simp add: top_scope_def)
  then have "owner ss (top_scope ss) = (if soffsets (cur_stack q) = [] then 0 else Suc (last (soffsets (cur_stack q))))"
    using outer_scopes_frames [OF assms] by (simp add: last_offset_def last_map)
  then show "scope_base ss (top_scope ss) = Suc (last_offset (soffsets (cur_stack q)))"
    and "owner ss (top_scope ss) \<noteq> 0 \<Longrightarrow> owner ss (top_scope ss) = Suc (last_offset (soffsets (cur_stack q)))"
    by (simp_all add: scope_base_def last_offset_def split: if_splits)
qed

text \<open>The contents of a slot, and storing into it.\<close>

fun slot_value :: "'v Sequencer \<Rightarrow> slot \<Rightarrow> 'v option" where
  "slot_value q (GSlot n) = global_frame q ! nat n"
| "slot_value q (Slot j n) = (case sframes (cur_stack q) ! nat (j - 1) of Some f \<Rightarrow> fvalues f ! nat n | None \<Rightarrow> None)"

fun slot_store :: "slot \<Rightarrow> 'v \<Rightarrow> 'v Sequencer \<Rightarrow> 'v Sequencer" where
  "slot_store (GSlot n) v q = q\<lparr>global_frame := (global_frame q)[nat n := Some v]\<rparr>"
| "slot_store (Slot j n) v q = q\<lparr>cur_stack := (cur_stack q)\<lparr>sframes := (sframes (cur_stack q))[nat (j - 1) :=
     map_option (\<lambda>f. f\<lparr>fvalues := (fvalues f)[nat n := Some v]\<rparr>) (sframes (cur_stack q) ! nat (j - 1))]\<rparr>\<rparr>"

lemma slot_frame:
  assumes "running ss q" "slot_ok ss (top_scope ss) (Slot j n)"
  obtains f where "sframes (cur_stack q) ! nat (j - 1) = Some f" "nat (j - 1) < length (sframes (cur_stack q))"
    "0 \<le> n" "n < int (length (fvalues f))" "1 \<le> j"
proof -
  let ?fs = "sframes (cur_stack q)"
  have j: "1 \<le> j" "j \<le> int (length ?fs)" "0 \<le> n" "n < int (scope_length (ss ! nat j))"
    using assms by (auto simp: running_def top_scope_def)
  have l: "nat (j - 1) < length ?fs" using j by simp
  have "nat j = Suc (nat (j - 1))" using j by simp
  then have "frame_fits (ss ! nat j) (?fs ! nat (j - 1))" using assms(1) l by (simp add: running_def)
  then show thesis
    using j l that by (cases "?fs ! nat (j - 1)") (auto simp: scope_length_def)
qed

lemma frame_offset_slot:
  assumes "types_ok ss" "running ss q" "slot_ok ss (top_scope ss) (Slot j n)"
    and "designates ss (top_scope ss) v = Slot j n"
  shows "frame_offset who (vscope v) (soffset v) (cur_stack q) = Inr (nat (j - 1))"
proof -
  have j: "1 \<le> j" "j \<le> int (length (sframes (cur_stack q)))"
    using assms(2,3) by (auto simp: running_def top_scope_def)
  have "j - 1 = (if vscope v = LOCAL_SCOPE then soffset v + int (last_offset (soffsets (cur_stack q)))
      else int (last_offset (soffsets (cur_stack q))))"
    using run_base [OF assms(1,2)] assms(4) j(1)
    by (auto simp: designates_def split: scope_type.splits)
  then show ?thesis using j by (auto simp: frame_offset_def Let_def)
qed

lemma read_slot:
  assumes t: "types_ok ss" and r: "running ss q" and v: "vscope v \<noteq> ANY_SCOPE"
    and s: "slot_ok ss (top_scope ss) (designates ss (top_scope ss) v)"
  shows "FrameElement (vscope v) (soffset v) (foffset v) q = Inr (slot_value q (designates ss (top_scope ss) v))"
proof (cases "designates ss (top_scope ss) v")
  case (GSlot n)
  then have "vscope v = GLOBAL_SCOPE \<and> n = foffset v" using v by (auto simp: designates_def split: scope_type.splits)
  moreover have "0 \<le> n" "n < int (length (global_frame q))" using s GSlot r by (auto simp: running_def)
  ultimately show ?thesis using GSlot by (simp add: FrameElement_def)
next
  case (Slot j n)
  then have sc: "vscope v = LOCAL_SCOPE \<or> vscope v = FUNC_SCOPE" and n: "n = foffset v"
    by (auto simp: designates_def split: scope_type.splits)
  obtain f where f: "sframes (cur_stack q) ! nat (j - 1) = Some f" "0 \<le> n" "n < int (length (fvalues f))"
    using slot_frame [OF r] s Slot by metis
  have "frame_offset ''FrameElement'' (vscope v) (soffset v) (cur_stack q) = Inr (nat (j - 1))"
    by (rule frame_offset_slot [OF t r _ Slot]) (use s Slot in simp)
  then show ?thesis using sc f n Slot by (auto simp: FrameElement_def Frame_FrameElement_def)
qed

definition writable :: "('v \<Rightarrow> bool) \<Rightarrow> 'v option \<Rightarrow> bool" where
  "writable is_const p \<longleftrightarrow> (case p of Some x \<Rightarrow> \<not> is_const x | None \<Rightarrow> True)"

lemma write_slot:
  assumes t: "types_ok ss" and r: "running ss q" and v: "vscope v \<noteq> ANY_SCOPE"
    and s: "slot_ok ss (top_scope ss) (designates ss (top_scope ss) v)"
    and w: "writable is_const (slot_value q (designates ss (top_scope ss) v))"
  shows "SetFrameElement is_const (vscope v) (soffset v) (foffset v) x q
    = Inr (None, slot_store (designates ss (top_scope ss) v) x q)"
proof (cases "designates ss (top_scope ss) v")
  case (GSlot n)
  then have "vscope v = GLOBAL_SCOPE \<and> n = foffset v" using v by (auto simp: designates_def split: scope_type.splits)
  moreover have "0 \<le> n" "n < int (length (global_frame q))" using s GSlot r by (auto simp: running_def)
  ultimately show ?thesis using GSlot w by (auto simp: SetFrameElement_def writable_def split: option.splits)
next
  case (Slot j n)
  then have sc: "vscope v = LOCAL_SCOPE \<or> vscope v = FUNC_SCOPE" and n: "n = foffset v"
    by (auto simp: designates_def split: scope_type.splits)
  obtain f where f: "sframes (cur_stack q) ! nat (j - 1) = Some f" "0 \<le> n" "n < int (length (fvalues f))"
    using slot_frame [OF r] s Slot by metis
  have "frame_offset ''SetFrameElement'' (vscope v) (soffset v) (cur_stack q) = Inr (nat (j - 1))"
    by (rule frame_offset_slot [OF t r _ Slot]) (use s Slot in simp)
  moreover have "\<not> (case fvalues f ! nat n of Some p \<Rightarrow> is_const p | None \<Rightarrow> False)"
    using w Slot f(1) by (auto simp: writable_def split: option.splits)
  ultimately show ?thesis using sc f n Slot
    by (auto simp: SetFrameElement_def set_frame_value_def Frame_FrameElement_def)
qed

lemma slot_store_value:
  assumes r: "running ss q" and s: "slot_ok ss (top_scope ss) s" and t: "slot_ok ss (top_scope ss) t"
  shows "slot_value (slot_store s x q) t = (if s = t then Some x else slot_value q t)"
proof (cases s)
  case (GSlot n)
  have n: "0 \<le> n" "n < int (length (global_frame q))" using s GSlot r by (auto simp: running_def)
  show ?thesis
  proof (cases t)
    case (GSlot m)
    then have "0 \<le> m" using t by simp
    then show ?thesis using \<open>s = GSlot n\<close> GSlot n by (auto simp: nth_list_update)
  qed (simp add: GSlot)
next
  case (Slot j n)
  obtain f where f: "sframes (cur_stack q) ! nat (j - 1) = Some f" "nat (j - 1) < length (sframes (cur_stack q))"
    "0 \<le> n" "n < int (length (fvalues f))" "1 \<le> j"
    using slot_frame [OF r] s Slot by metis
  show ?thesis
  proof (cases t)
    case (GSlot m)
    then show ?thesis using Slot by simp
  next
    case Slot': (Slot k m)
    have k: "1 \<le> k" "0 \<le> m" using t Slot' by auto
    show ?thesis
    proof (cases "k = j")
      case True
      then show ?thesis using Slot Slot' f k by (auto simp: nth_list_update)
    next
      case False
      then have "nat (k - 1) \<noteq> nat (j - 1)" using k f(5) by simp
      then show ?thesis using Slot Slot' False by simp
    qed
  qed
qed

lemma slot_store_running:
  assumes r: "running ss q" and s: "slot_ok ss (top_scope ss) s"
  shows "running ss (slot_store s x q)"
proof (cases s)
  case (GSlot n)
  then show ?thesis using r by (simp add: running_def)
next
  case (Slot j n)
  obtain f where f: "sframes (cur_stack q) ! nat (j - 1) = Some f" "nat (j - 1) < length (sframes (cur_stack q))"
    using slot_frame [OF r] s Slot by metis
  let ?fs = "sframes (cur_stack q)" and ?f = "f\<lparr>fvalues := (fvalues f)[nat n := Some x]\<rparr>"
  have "outer_frame (?fs[nat (j - 1) := Some ?f] ! i) = outer_frame (?fs ! i)" for i
    using f by (cases "i = nat (j - 1)") (simp_all add: outer_frame_def)
  moreover have "frame_fits (ss ! Suc i) (?fs[nat (j - 1) := Some ?f] ! i)" if "i < length ?fs" for i
    using r f that by (cases "i = nat (j - 1)") (auto simp: running_def)
  ultimately show ?thesis using r f Slot by (simp add: running_def outer_frames_def)
qed

lemma resolves_slot:
  assumes "wf_scopes ss" "resolves ss x v"
  shows "slot_ok ss (top_scope ss) (designates ss (top_scope ss) v)"
proof -
  obtain k w where k: "k < length ss" "(x, w) \<in> set (svars (ss ! k))" "designates ss (top_scope ss) v = designates ss k w"
    using assms(2) by (auto simp: resolves_def)
  have "slot_ok ss k (designates ss k w)" using wf_scopesD(4) [OF assms(1) k(1,2)] by (simp add: var_ok_def)
  moreover have "k \<le> top_scope ss" using k(1) by (simp add: top_scope_def)
  ultimately show ?thesis unfolding k(3) by (cases "designates ss k w") auto
qed

lemma resolves_distinct:
  assumes "wf_scopes ss" "resolves ss x v" "resolves ss y w" "x \<noteq> y"
  shows "designates ss (top_scope ss) v \<noteq> designates ss (top_scope ss) w"
  using assms unfolding resolves_def wf_scopes_def names_ok_def by metis


text \<open>Entering and leaving a scope at run time.\<close>

lemma outer_frames_append:
  "outer_frames (fs @ [f]) = outer_frames fs @ (if outer_frame f then [length fs] else [])"
proof -
  have "filter (\<lambda>i. outer_frame ((fs @ [f]) ! i)) [0..<length fs] = filter (\<lambda>i. outer_frame (fs ! i)) [0..<length fs]"
    by (rule filter_cong) (auto simp: nth_append)
  then show ?thesis by (simp add: outer_frames_def)
qed

lemma PushFrame_simps:
  "sframes (PushFrame f st) = sframes st @ [f]"
  "soffsets (PushFrame f st) = soffsets st @ (if outer_frame f then [length (sframes st)] else [])"
  by (auto simp: PushFrame_def outer_frame_def Let_def split: option.splits)

lemma push_running:
  assumes "running ss q" "frame_fits s f"
  shows "running (ss @ [s]) (q\<lparr>cur_stack := PushFrame f (cur_stack q)\<rparr>)"
  using assms by (auto simp: running_def PushFrame_simps outer_frames_append nth_append less_Suc_eq)

lemma pop_push:
  assumes "soffsets st = outer_frames (sframes st)"
  shows "PopFrame (PushFrame f st) = Inr (f, st)"
proof -
  have "length (sframes st) \<notin> set (soffsets st)" unfolding assms by (auto simp: outer_frames_def)
  then have "remove1 (length (sframes st)) (soffsets st @ [length (sframes st)]) = soffsets st"
    by (simp add: remove1_append)
  then show ?thesis
    by (auto simp: PopFrame_def PushFrame_def Let_def split: option.split)
qed

section \<open>Sequences of parse-time operations\<close>

text \<open>The sequencer as its constructor leaves it, with the global scope open and an empty frame stack.\<close>

definition Sequencer_init :: "'v Sequencer" where
  "Sequencer_init = PushScope GLOBAL_SCOPE \<lparr>scopes = [], global_scopes = [], back_refs = [], stashed_scope = None,
     global_frame = [], cur_stack = \<lparr>sframes = [], soffsets = []\<rparr>, warned = []\<rparr>"

datatype scope_op =
  Open_block | Open_function | Close
  | Find string scope_type bool bool bool bool
  | Resolve string scope_type bool

fun run_scope_op :: "scope_op \<Rightarrow> 'v Sequencer \<Rightarrow> 'v Sequencer option" where
  "run_scope_op Open_block q = Some (PushScope LOCAL_SCOPE q)"
| "run_scope_op Open_function q = Some (PushScope FUNC_SCOPE q)"
| "run_scope_op Close q = map_option (\<lambda>(_, _, q). q) (PopScope q)"
| "run_scope_op (Find x sc inst wrn srch b) q = map_option snd (LookupID x sc inst wrn srch b q)"
| "run_scope_op (Resolve x sc b) q = map_option snd (LookupVar x sc b q)"

text \<open>
  The global scope is not closed, and a name of an unknown scope that is found in a wider scope is one
  the code gets right.
\<close>

fun scope_op_ok :: "scope_op \<Rightarrow> 'v Sequencer \<Rightarrow> bool" where
  "scope_op_ok Close q \<longleftrightarrow> length (scopes q) > 1"
| "scope_op_ok (Find x sc inst wrn srch b) q \<longleftrightarrow> find_ok (wider_ok (scopes q)) x sc q"
| "scope_op_ok (Resolve x sc b) q \<longleftrightarrow> find_ok (resolve_ok (scopes q)) x sc q"
| "scope_op_ok _ q \<longleftrightarrow> True"

fun run_scope_ops :: "scope_op list \<Rightarrow> 'v Sequencer \<Rightarrow> 'v Sequencer option" where
  "run_scope_ops [] q = Some q"
| "run_scope_ops (a # as) q = do { q \<leftarrow> run_scope_op a q; run_scope_ops as q }"

fun scope_ops_ok :: "scope_op list \<Rightarrow> 'v Sequencer \<Rightarrow> bool" where
  "scope_ops_ok [] q \<longleftrightarrow> True"
| "scope_ops_ok (a # as) q \<longleftrightarrow> scope_op_ok a q
     \<and> (case run_scope_op a q of Some q' \<Rightarrow> scope_ops_ok as q' | None \<Rightarrow> True)"

lemma Sequencer_init_ok: "scopes_ok Sequencer_init"
  by (auto simp: Sequencer_init_def PushScope_def scopes_ok_def wf_scopes_def types_ok_def names_ok_def
      outer_scopes_def func_scopes_def scope_length_def)

lemma run_scope_op_ok:
  assumes ok: "scopes_ok q" and good: "scope_op_ok a q"
  shows "\<exists>q'. run_scope_op a q = Some q' \<and> scopes_ok q'"
proof (cases a)
  case Open_block
  then show ?thesis using PushScope_ok [OF ok] by simp
next
  case Open_function
  then show ?thesis using PushScope_ok [OF ok] by simp
next
  case Close
  then show ?thesis using PopScope_ok [OF ok] good by fastforce
next
  case (Find x sc inst wrn srch b)
  then show ?thesis
    using LookupID_ok [OF ok, of x sc inst wrn srch b] good by (auto simp: lookup_good_def outcome_def)
next
  case (Resolve x sc b)
  then show ?thesis
    using LookupVar_ok [OF ok, of x sc b] good by (auto simp: resolve_good_def outcome_def)
qed

lemma run_scope_ops_ok:
  "scopes_ok q \<Longrightarrow> scope_ops_ok as q \<Longrightarrow> \<exists>q'. run_scope_ops as q = Some q' \<and> scopes_ok q'"
proof (induction as arbitrary: q)
  case Nil
  then show ?case by simp
next
  case (Cons a as)
  obtain q1 where "run_scope_op a q = Some q1" "scopes_ok q1"
    using run_scope_op_ok [of q a] Cons.prems by auto
  then show ?case using Cons.IH [of q1] Cons.prems by simp
qed

section \<open>Properties\<close>







text \<open>
  C35: A name that a lookup in any scope finds in a wider scope, as \<open>wider\<close> declarations and the bodies
  of functions use it, gets a new variable. It designates the slot of the variable found exactly when
  the use is inside a function and the offsets of the scope found count from that scope, that is, the
  scope is a function or an outermost block of the script. A variable of a block inside a function,
  and any variable of a block when the use is outside of functions, is missed.
\<close>
theorem wider_reference:
  assumes "scopes_ok q" and "search_all x (scopes q) (length (scopes q)) = Some (k, ve)"
    and "0 < k" "k < top_scope (scopes q)" and "vscope ve \<noteq> GLOBAL_SCOPE"
  shows "\<exists>v q'. LookupID x ANY_SCOPE do_install warn search b q = Some (Some v, q')
    \<and> (designates (scopes q) (top_scope (scopes q)) v = designates (scopes q) k ve
      \<longleftrightarrow> owner (scopes q) (top_scope (scopes q)) \<noteq> 0 \<and> scope_base (scopes q) k = k)"
proof -
  note facts = searched_facts [OF assms(1), of x]
  have k: "k < length (scopes q)" "(x, ve) \<in> set (svars (scopes q ! k))"
    using search_all_some [OF assms(2)] scope_get_mem by auto
  have "sctype (scopes (searched x q) ! k) \<noteq> GLOBAL_SCOPE"
    using scopes_okD(2) [OF facts(1)] assms(3) k(1) facts(5) by (fastforce simp: types_ok_def)
  moreover have "wider_soffset k ve (searched x q) = wider_soffset k ve q"
    by (simp add: wider_soffset_def searched_def)
  ultimately have "\<exists>v q'. LookupID x ANY_SCOPE do_install warn search b q = Some (Some v, q')
      \<and> v = \<lparr>vscope = LOCAL_SCOPE, soffset = wider_soffset k ve q, foffset = foffset ve, init_to_bool = False\<rparr>"
    unfolding LookupID_any_eq [OF assms(1)] using assms(2-5) by (auto simp: Let_def case_prod_unfold)
  then show ?thesis using wider_designates [OF assms(1,3) k assms(5) refl assms(4)] by blast
qed

theorem wider_reference_witness:
  "\<exists>v q'. LookupID ''x'' ANY_SCOPE False False True False
      (\<lparr>scopes = [\<lparr>sctype = GLOBAL_SCOPE, svars = [], global_refs = []\<rparr>,
          \<lparr>sctype = LOCAL_SCOPE, svars = [(''x'', \<lparr>vscope = LOCAL_SCOPE, soffset = 0, foffset = 0, init_to_bool = True\<rparr>)], global_refs = []\<rparr>,
          \<lparr>sctype = LOCAL_SCOPE, svars = [], global_refs = []\<rparr>],
        global_scopes = [0], back_refs = [], stashed_scope = None, global_frame = [],
        cur_stack = \<lparr>sframes = [], soffsets = []\<rparr>, warned = []\<rparr> :: nat Sequencer) = Some (Some v, q')"
proof -
  let ?u = "\<lparr>vscope = LOCAL_SCOPE, soffset = 0, foffset = 0, init_to_bool = True\<rparr>"
  let ?ss = "[\<lparr>sctype = GLOBAL_SCOPE, svars = [], global_refs = []\<rparr>,
      \<lparr>sctype = LOCAL_SCOPE, svars = [(''x'', ?u)], global_refs = []\<rparr>, \<lparr>sctype = LOCAL_SCOPE, svars = [], global_refs = []\<rparr>]"
  let ?q = "\<lparr>scopes = ?ss, global_scopes = [0], back_refs = [], stashed_scope = None, global_frame = [],
        cur_stack = \<lparr>sframes = [], soffsets = []\<rparr>, warned = []\<rparr> :: nat Sequencer"
  let ?ops = "[Open_block, Find ''x'' LOCAL_SCOPE True False False True, Open_block]"
  have run: "run_scope_ops ?ops (Sequencer_init :: nat Sequencer) = Some ?q" by code_simp
  have "scope_ops_ok ?ops (Sequencer_init :: nat Sequencer)" by code_simp
  then obtain p where "run_scope_ops ?ops (Sequencer_init :: nat Sequencer) = Some p" "scopes_ok p"
    using run_scope_ops_ok [OF Sequencer_init_ok] by blast
  then have "scopes_ok ?q" unfolding run by simp
  moreover have "search_all ''x'' (scopes ?q) (length (scopes ?q)) = Some (1, ?u)" by code_simp
  ultimately show ?thesis
    using wider_reference [of ?q "''x''" 1 ?u False False True False] by (auto simp: top_scope_def)
qed

text \<open>
  What goes wrong then. In the script \<open>{ local a, b := 1; { wider b := 2 } }\<close> the variable that the
  inner \<open>wider\<close> finds for \<open>b\<close> leads into the frame of the inner block, which has a single slot, so
  that assigning to it ends the interpreter with the message of \<open>Frame::FrameElement\<close>; with \<open>b\<close> as the
  only variable of the outer block the assignment goes to the inner frame and the outer \<open>b\<close> keeps its
  value.
\<close>
theorem wider_block_variable:
  "(do { p \<leftarrow> run_scope_ops [Open_block, Find ''a'' LOCAL_SCOPE True False False True, Find ''b'' LOCAL_SCOPE True False False False,
             Open_block] (Sequencer_init :: nat Sequencer);
         (r, p) \<leftarrow> LookupID ''b'' ANY_SCOPE False False True False p;
         v \<leftarrow> r;
         Some (map_sum id fst (SetFrameElement (\<lambda>_. False) (vscope v) (soffset v) (foffset v) 2
           (p\<lparr>cur_stack := \<lparr>sframes = [Some \<lparr>faddr = 0, fscope = LOCAL_SCOPE, fvalues = [None, Some 1]\<rparr>, Some (Frame_new 1 1 LOCAL_SCOPE)],
                           soffsets = []\<rparr>\<rparr>))) })
     = Some (Inl (Fatal ''bad offset in Frame::FrameElement''))
   \<and> (do { p \<leftarrow> run_scope_ops [Open_block, Find ''b'' LOCAL_SCOPE True False False False, Open_block] (Sequencer_init :: nat Sequencer);
         (r, p) \<leftarrow> LookupID ''b'' ANY_SCOPE False False True False p;
         v \<leftarrow> r;
         Some (map_sum id (\<lambda>(_, q). sframes (cur_stack q)) (SetFrameElement (\<lambda>_. False) (vscope v) (soffset v) (foffset v) 2
           (p\<lparr>cur_stack := \<lparr>sframes = [Some \<lparr>faddr = 0, fscope = LOCAL_SCOPE, fvalues = [Some 1]\<rparr>, Some (Frame_new 1 1 LOCAL_SCOPE)],
                           soffsets = []\<rparr>\<rparr>))) })
     = Some (Inr [Some \<lparr>faddr = 0, fscope = LOCAL_SCOPE, fvalues = [Some 1]\<rparr>, Some \<lparr>faddr = 1, fscope = LOCAL_SCOPE, fvalues = [Some 2]\<rparr>])"
  by (rule conjI) code_simp+

text \<open>
  An assignment to a constant is refused with a message when the variable is global. In a local or
  function frame the code reads an uninitialised pointer instead.
\<close>
theorem assign_constant:
  assumes "scopes_ok p" and "running (scopes p) q" and "resolves (scopes p) x v"
    and "slot_value q (designates (scopes p) (top_scope (scopes p)) v) = Some c" and "is_const c"
  shows "SetFrameElement is_const (vscope v) (soffset v) (foffset v) a q
    = (if vscope v = GLOBAL_SCOPE then Inr (Some const_error, q) else Inl UninitialisedRead)"
proof -
  let ?ss = "scopes p"
  note wf = scopes_okD(1) [OF assms(1)] and t = scopes_okD(2) [OF assms(1)]
  have s: "slot_ok ?ss (top_scope ?ss) (designates ?ss (top_scope ?ss) v)" using resolves_slot [OF wf assms(3)] .
  have v: "vscope v \<noteq> ANY_SCOPE" using assms(3) by (simp add: resolves_def)
  show ?thesis
  proof (cases "designates ?ss (top_scope ?ss) v")
    case (GSlot n)
    then have "vscope v = GLOBAL_SCOPE \<and> n = foffset v" using v by (auto simp: designates_def split: scope_type.splits)
    moreover have "0 \<le> n" "n < int (length (global_frame q))" using s GSlot assms(2) by (auto simp: running_def)
    ultimately show ?thesis using GSlot assms(4,5) by (simp add: SetFrameElement_def)
  next
    case (Slot j n)
    then have sc: "vscope v = LOCAL_SCOPE \<or> vscope v = FUNC_SCOPE" and n: "n = foffset v"
      by (auto simp: designates_def split: scope_type.splits)
    obtain f where f: "sframes (cur_stack q) ! nat (j - 1) = Some f" "0 \<le> n" "n < int (length (fvalues f))"
      using slot_frame [OF assms(2)] s Slot by metis
    have "frame_offset ''SetFrameElement'' (vscope v) (soffset v) (cur_stack q) = Inr (nat (j - 1))"
      by (rule frame_offset_slot [OF t assms(2) _ Slot]) (use s Slot in simp)
    then show ?thesis using sc f n Slot assms(4,5)
      by (auto simp: SetFrameElement_def set_frame_value_def Frame_FrameElement_def)
  qed
qed

theorem assign_constant_witness:
  "SetFrameElement (\<lambda>c. c = 3) GLOBAL_SCOPE 0 0 (5 :: nat)
    (\<lparr>scopes = [\<lparr>sctype = GLOBAL_SCOPE, svars = [(''pi'', \<lparr>vscope = GLOBAL_SCOPE, soffset = 0, foffset = 0, init_to_bool = False\<rparr>)],
                 global_refs = []\<rparr>],
      global_scopes = [0], back_refs = [], stashed_scope = None, global_frame = [Some 3],
      cur_stack = \<lparr>sframes = [], soffsets = []\<rparr>, warned = []\<rparr>)
   = Inr (Some const_error,
    \<lparr>scopes = [\<lparr>sctype = GLOBAL_SCOPE, svars = [(''pi'', \<lparr>vscope = GLOBAL_SCOPE, soffset = 0, foffset = 0, init_to_bool = False\<rparr>)],
                 global_refs = []\<rparr>],
      global_scopes = [0], back_refs = [], stashed_scope = None, global_frame = [Some 3],
      cur_stack = \<lparr>sframes = [], soffsets = []\<rparr>, warned = []\<rparr>)"
proof -
  let ?v = "\<lparr>vscope = GLOBAL_SCOPE, soffset = 0, foffset = 0, init_to_bool = False\<rparr>"
  let ?q = "\<lparr>scopes = [\<lparr>sctype = GLOBAL_SCOPE, svars = [(''pi'', ?v)], global_refs = []\<rparr>],
      global_scopes = [0], back_refs = [], stashed_scope = None, global_frame = [Some 3],
      cur_stack = \<lparr>sframes = [], soffsets = []\<rparr>, warned = []\<rparr> :: nat Sequencer"
  have s: "designates (scopes ?q) 0 ?v = GSlot 0" by (simp add: designates_def)
  have "scopes_ok ?q"
    by (auto simp: scopes_ok_def wf_scopes_def types_ok_def names_ok_def outer_scopes_def func_scopes_def scope_length_def
        var_ok_def designates_def)
  moreover have "running (scopes ?q) ?q" by (simp add: running_def outer_frames_def scope_length_def)
  moreover have "resolves (scopes ?q) ''pi'' ?v" by (auto simp: resolves_def top_scope_def)
  moreover have "slot_value ?q (designates (scopes ?q) (top_scope (scopes ?q)) ?v) = Some 3"
    by (simp add: designates_def top_scope_def)
  ultimately have "SetFrameElement (\<lambda>c. c = 3) (vscope ?v) (soffset ?v) (foffset ?v) 5 ?q
      = (if vscope ?v = GLOBAL_SCOPE then Inr (Some const_error, ?q) else Inl UninitialisedRead)"
    by (rule assign_constant) simp
  then show ?thesis by simp
qed

text \<open>
  Entering a scope at run time keeps the frames in step with the scopes, and leaving it gives back
  the frame that was pushed and the stack as it was.
\<close>
theorem enter_leave_scope:
  assumes "running ss q" and "n = scope_length s" and "sctype s = FUNC_SCOPE \<or> sctype s = LOCAL_SCOPE"
    and "f = (if sctype s = LOCAL_SCOPE \<and> n = 0 then None else Some (Frame_new a n (sctype s)))"
  shows "running (ss @ [s]) (q\<lparr>cur_stack := PushFrame f (cur_stack q)\<rparr>)
    \<and> PopFrame (PushFrame f (cur_stack q)) = Inr (f, cur_stack q)"
proof -
  have "frame_fits s f" using assms(2-4) by (auto simp: Frame_new_def scope_length_def)
  then show ?thesis using push_running [OF assms(1)] pop_push [of "cur_stack q" f] assms(1) by (simp add: running_def)
qed

theorem enter_leave_scope_witness:
  "PopFrame (PushFrame (Some (Frame_new 1 2 FUNC_SCOPE)) (cur_stack (Sequencer_init :: nat Sequencer)))
    = Inr (Some (Frame_new 1 2 FUNC_SCOPE), cur_stack (Sequencer_init :: nat Sequencer))"
proof -
  let ?v = "\<lparr>vscope = FUNC_SCOPE, soffset = 0, foffset = 0, init_to_bool = False\<rparr>"
  let ?s = "\<lparr>sctype = FUNC_SCOPE, svars = [(''a'', ?v), (''b'', ?v\<lparr>foffset := 1\<rparr>)], global_refs = []\<rparr>"
  have "running (scopes (Sequencer_init :: nat Sequencer)) (Sequencer_init :: nat Sequencer)"
    by (simp add: running_def Sequencer_init_def PushScope_def outer_frames_def scope_length_def)
  then show ?thesis
    using enter_leave_scope [of "scopes (Sequencer_init :: nat Sequencer)" "Sequencer_init :: nat Sequencer" 2 ?s "Some (Frame_new 1 2 FUNC_SCOPE)"]
    by (simp add: scope_length_def numeral_2_eq_2)
qed

end
