(* ===== verification/Glish_Stmt.thy ===== *)
theory Glish_Stmt
  imports Glish_Frame
begin

text \<open>
  Executing statements (\<open>glish/Stmt.cc\<close>, class \<open>evalOpt\<close> of \<open>glish/Expr.h\<close>). A statement gets the
  evaluation flags by reference and reports by them how control goes on: to the next statement, to
  the next iteration, out of the loop or out of the function. Expressions, values and the statements
  that only talk to agents are parameters: a record of their methods, each of which may change the
  flags and the state, end the process or not return.
\<close>

section \<open>Evaluation flags\<close>

datatype exprType = COPY | READ_ONLY | SIDE_EFFECTS | READ_ONLY_PRESERVE | COPY_PRESERVE
datatype flowType = NEXT | LOOP | BREAK | RETURN
datatype returnType = VALUE_NEEDED | RESULT_PERISHABLE | RHS_RESULT | PRESERVE_FIELDNAMES | BOOL_INITIAL

fun expr_no :: "exprType \<Rightarrow> nat" where
  "expr_no COPY = 0" | "expr_no READ_ONLY = 1" | "expr_no SIDE_EFFECTS = 2"
| "expr_no READ_ONLY_PRESERVE = 3" | "expr_no COPY_PRESERVE = 4"

fun flow_no :: "flowType \<Rightarrow> nat" where
  "flow_no NEXT = 5" | "flow_no LOOP = 6" | "flow_no BREAK = 7" | "flow_no RETURN = 8"

fun return_no :: "returnType \<Rightarrow> nat" where
  "return_no VALUE_NEEDED = 9" | "return_no RESULT_PERISHABLE = 10" | "return_no RHS_RESULT = 11"
| "return_no PRESERVE_FIELDNAMES = 12" | "return_no BOOL_INITIAL = 13"

text \<open>The mask is an unsigned short, into which the results of the shifts are truncated.\<close>

record evalOpt =
  opt_mask :: u16
  fcount :: u32

definition evalOpt_new :: evalOpt where
  "evalOpt_new = \<lparr>opt_mask = 0, fcount = 0\<rparr>"

definition set_flow :: "flowType \<Rightarrow> evalOpt \<Rightarrow> evalOpt" where
  "set_flow t fl = fl\<lparr>opt_mask := opt_mask fl AND NOT 0x1e0 OR push_bit (flow_no t) 1\<rparr>"

definition set_expr :: "exprType \<Rightarrow> evalOpt \<Rightarrow> evalOpt" where
  "set_expr t fl = fl\<lparr>opt_mask := opt_mask fl AND NOT 0x1f OR push_bit (expr_no t) 1\<rparr>"

text \<open>\<open>~1<<t\<close> is the complement of one, shifted.\<close>

definition clear_ret :: "returnType \<Rightarrow> evalOpt \<Rightarrow> evalOpt" where
  "clear_ret t fl = fl\<lparr>opt_mask := opt_mask fl AND push_bit (return_no t) (NOT 1)\<rparr>"

definition set_ret :: "returnType \<Rightarrow> evalOpt \<Rightarrow> evalOpt" where
  "set_ret t fl = fl\<lparr>opt_mask := opt_mask fl OR push_bit (return_no t) 1\<rparr>"

text \<open>The assignment operator: the flow flags stay those of the left-hand side.\<close>

definition assign_opt :: "evalOpt \<Rightarrow> evalOpt \<Rightarrow> evalOpt" where
  "assign_opt fl l = fl\<lparr>opt_mask := opt_mask l AND NOT 0x1e0 OR opt_mask fl AND 0x1e0, fcount := fcount l\<rparr>"

definition flow_is :: "flowType \<Rightarrow> evalOpt \<Rightarrow> bool" where
  "flow_is t fl \<longleftrightarrow> opt_mask fl AND push_bit (flow_no t) 1 \<noteq> 0"

definition value_needed :: "evalOpt \<Rightarrow> bool" where
  "value_needed fl \<longleftrightarrow> opt_mask fl AND push_bit (return_no VALUE_NEEDED) 1 \<noteq> 0"

section \<open>Computations\<close>

datatype halt = Exited int | Faulted fault | NullValue | FrameInconsistency

datatype 'a comp = Done 'a | Halt halt | Timeout

fun andthen :: "'a comp \<Rightarrow> ('a \<Rightarrow> 'b comp) \<Rightarrow> 'b comp" where
  "andthen (Done x) f = f x"
| "andthen (Halt h) f = Halt h"
| "andthen Timeout f = Timeout"

text \<open>
  The state: the sequencer with its frames, the address of the next frame, the line number for
  messages, the registered \<open>whenever\<close> statements by index with their activity, the statement of the
  notification being handled (\<open>Some None\<close> when it is not a \<open>whenever\<close>), the last failure, and the rest.
\<close>

record ('v, 's) state =
  seqr :: "'v Sequencer"
  next_addr :: nat
  line_num :: nat
  registered_stmts :: "(int \<times> bool) list"
  last_note :: "int option option"
  last_fail :: "'v option"
  world :: 's

type_synonym ('v, 's) exec_result = "('v option \<times> evalOpt \<times> ('v, 's) state) comp"

text \<open>
  The methods of expressions and values that statements call. A null pointer result is \<open>None\<close>.
  \<open>bool_val\<close> is \<open>BoolVal(1,err)\<close> with the error text; \<open>fail_value\<close> builds a failure from a message.
\<close>

record ('e, 'p, 'v, 's) interp =
  eval :: "'e \<Rightarrow> evalOpt \<Rightarrow> ('v, 's) state \<Rightarrow> ('v, 's) exec_result"
  side_effects_eval :: "'e \<Rightarrow> evalOpt \<Rightarrow> ('v, 's) state \<Rightarrow> ('v, 's) exec_result"
  assign_to :: "'e \<Rightarrow> 'v \<Rightarrow> evalOpt \<Rightarrow> ('v, 's) state \<Rightarrow> ('v, 's) exec_result"
  invisible :: "'e \<Rightarrow> bool"
  prim_exec :: "'p \<Rightarrow> evalOpt \<Rightarrow> ('v, 's) state \<Rightarrow> ('v, 's) exec_result"
  fail_value :: "string \<Rightarrow> ('v, 's) state \<Rightarrow> 'v \<times> ('v, 's) state"
  set_fail_message :: "'v \<Rightarrow> 'v option \<Rightarrow> 'v"
  bool_val :: "'v \<Rightarrow> bool \<times> string option"
  int_val :: "'v \<Rightarrow> int"
  is_numeric :: "'v \<Rightarrow> bool"
  is_string :: "'v \<Rightarrow> bool"
  is_record :: "'v \<Rightarrow> bool"
  int_ptr :: "'v \<Rightarrow> int list"
  vlength :: "'v \<Rightarrow> nat"
  nth_field :: "'v \<Rightarrow> nat \<Rightarrow> 'v"
  element :: "'v \<Rightarrow> nat \<Rightarrow> 'v"

definition CopyEval :: "('e, 'p, 'v, 's) interp \<Rightarrow> 'e \<Rightarrow> evalOpt \<Rightarrow> ('v, 's) state \<Rightarrow> ('v, 's) exec_result" where
  "CopyEval I e fl s = eval I e (set_expr COPY fl) s"

definition ReadOnlyEval :: "('e, 'p, 'v, 's) interp \<Rightarrow> 'e \<Rightarrow> evalOpt \<Rightarrow> ('v, 's) state \<Rightarrow> ('v, 's) exec_result" where
  "ReadOnlyEval I e fl s = eval I e (set_expr READ_ONLY fl) s"

definition fail_with :: "('e, 'p, 'v, 's) interp \<Rightarrow> string \<Rightarrow> evalOpt \<Rightarrow> ('v, 's) state \<Rightarrow> ('v, 's) exec_result" where
  "fail_with I msg fl s = (let (v, s) = fail_value I msg s in Done (Some v, fl, s))"

section \<open>Statements\<close>

text \<open>
  Every statement carries its line. \<open>PrimStmt\<close> stands for \<open>print\<close>, \<open>include\<close>, \<open>link\<close>, \<open>await\<close> and
  \<open>whenever\<close>, whose execution is left to the pager, the agents and the event loop.
\<close>

datatype ('e, 'p) Stmt =
  SeqStmt (Line: nat) "('e, 'p) Stmt" "('e, 'p) Stmt"
| ActivateStmt (Line: nat) bool "'e option"
| IfStmt (Line: nat) 'e "('e, 'p) Stmt option" "('e, 'p) Stmt option"
| ForStmt (Line: nat) 'e 'e "('e, 'p) Stmt"
| WhileStmt (Line: nat) 'e "('e, 'p) Stmt"
| FailStmt (Line: nat) "'e option"
| ExprStmt (Line: nat) 'e
| ExitStmt (Line: nat) "'e option"
| LoopStmt (Line: nat)
| BreakStmt (Line: nat)
| ReturnStmt (Line: nat) "'e option"
| StmtBlock (Line: nat) nat "('e, 'p) Stmt"
| NullStmt (Line: nat)
| PrimStmt (Line: nat) 'p

text \<open>\<open>Stmt::Exec\<close> around a given \<open>DoExec\<close>; tracing is left out.\<close>

definition Exec :: "nat \<Rightarrow> (evalOpt \<Rightarrow> ('v, 's) state \<Rightarrow> ('v, 's) exec_result) \<Rightarrow> evalOpt \<Rightarrow> ('v, 's) state \<Rightarrow> ('v, 's) exec_result" where
  "Exec l do_exec fl s =
    (let prev = line_num s
     in andthen (do_exec (set_flow NEXT fl) (s\<lparr>line_num := l\<rparr>)) (\<lambda>(r, fl, s). Done (r, fl, s\<lparr>line_num := prev\<rparr>)))"

text \<open>Switching \<open>whenever\<close> statements on or off by index.\<close>

fun LookupStmt :: "int \<Rightarrow> (int \<times> bool) list \<Rightarrow> nat \<Rightarrow> nat option" where
  "LookupStmt i [] n = None"
| "LookupStmt i ((j, a) # rs) n = (if j = i then Some n else if i < j then None else LookupStmt i rs (Suc n))"

definition SetActivity :: "bool \<Rightarrow> nat \<Rightarrow> ('v, 's) state \<Rightarrow> ('v, 's) state" where
  "SetActivity act n s = s\<lparr>registered_stmts := (registered_stmts s)[n := (fst (registered_stmts s ! n), act)]\<rparr>"

fun activate_all :: "bool \<Rightarrow> int list \<Rightarrow> ('v, 's) state \<Rightarrow> ('v, 's) state" where
  "activate_all act [] s = s"
| "activate_all act (i # js) s = (case LookupStmt i (registered_stmts s) 0 of
     None \<Rightarrow> s
   | Some n \<Rightarrow> activate_all act js (SetActivity act n s))"

definition do_activate :: "('e, 'p, 'v, 's) interp \<Rightarrow> bool \<Rightarrow> 'e option \<Rightarrow> evalOpt \<Rightarrow> ('v, 's) state \<Rightarrow> ('v, 's) exec_result" where
  "do_activate I act e fl s = (case e of
     Some e \<Rightarrow> andthen (CopyEval I e fl s) (\<lambda>(r, fl, s). case r of
         None \<Rightarrow> Halt NullValue
       | Some v \<Rightarrow>
           if \<not> is_numeric I v then fail_with I ''non-numeric index, '' fl s
           else Done (None, fl, activate_all act (take (vlength I v) (int_ptr I v)) s))
   | None \<Rightarrow> (case last_note s of
         None \<Rightarrow> fail_with I ''activate/deactivate executed without previous whenever'' fl s
       | Some None \<Rightarrow> Done (None, fl, s)
       | Some (Some i) \<Rightarrow> Done (None, fl, activate_all act [i] s)))"

text \<open>
  The loop of \<open>ForStmt\<close> over the indices still to do. The result of the assignment to the loop
  variable is dropped.
\<close>

fun for_loop ::
  "('e, 'p, 'v, 's) interp \<Rightarrow> 'e \<Rightarrow> 'v \<Rightarrow> (evalOpt \<Rightarrow> ('v, 's) state \<Rightarrow> ('v, 's) exec_result) \<Rightarrow> nat list
    \<Rightarrow> 'v option \<Rightarrow> evalOpt \<Rightarrow> ('v, 's) state \<Rightarrow> ('v, 's) exec_result" where
  "for_loop I index rng body [] r fl s = Done (r, fl, s)"
| "for_loop I index rng body (i # js) r fl s =
    andthen (assign_to I index (if is_record I rng then nth_field I rng i else element I rng i) fl s) (\<lambda>(_, fl, s).
      let vn = value_needed fl in
      andthen (body (clear_ret VALUE_NEEDED fl) s) (\<lambda>(r, fl, s).
        let fl = (if vn then set_ret VALUE_NEEDED fl else fl) in
        if flow_is BREAK fl \<or> flow_is RETURN fl then Done (r, fl, s)
        else for_loop I index rng body js r fl s))"

definition loop_done :: "('v option \<times> evalOpt \<times> ('v, 's) state) \<Rightarrow> ('v, 's) exec_result" where
  "loop_done = (\<lambda>(r, fl, s). Done (r, if \<not> flow_is RETURN fl then set_flow NEXT fl else fl, s))"

definition do_for ::
  "('e, 'p, 'v, 's) interp \<Rightarrow> 'e \<Rightarrow> 'e \<Rightarrow> (evalOpt \<Rightarrow> ('v, 's) state \<Rightarrow> ('v, 's) exec_result)
    \<Rightarrow> evalOpt \<Rightarrow> ('v, 's) state \<Rightarrow> ('v, 's) exec_result" where
  "do_for I index rng body fl s = andthen (CopyEval I rng fl s) (\<lambda>(r, fl, s). case r of
     None \<Rightarrow> Done (None, fl, s)
   | Some v \<Rightarrow>
       andthen (if \<not> is_numeric I v \<and> \<not> is_string I v \<and> \<not> is_record I v
                then fail_with I ''range in for loop is not numeric or record or string'' fl s
                else for_loop I index v body [1..<Suc (vlength I v)] None fl s) loop_done)"

text \<open>The loop of \<open>WhileStmt\<close>; the first argument bounds the iterations.\<close>

fun while_loop ::
  "nat \<Rightarrow> ('e, 'p, 'v, 's) interp \<Rightarrow> 'e \<Rightarrow> (evalOpt \<Rightarrow> ('v, 's) state \<Rightarrow> ('v, 's) exec_result)
    \<Rightarrow> 'v option \<Rightarrow> evalOpt \<Rightarrow> ('v, 's) state \<Rightarrow> ('v, 's) exec_result" where
  "while_loop 0 I test body r fl s = Timeout"
| "while_loop (Suc n) I test body r fl s = andthen (ReadOnlyEval I test fl s) (\<lambda>(t, fl, s). case t of
     None \<Rightarrow> Halt NullValue
   | Some v \<Rightarrow> (case bool_val I v of
       (_, Some err) \<Rightarrow> fail_with I err fl s
     | (False, None) \<Rightarrow> Done (r, fl, s)
     | (True, None) \<Rightarrow>
         let vn = value_needed fl in
         andthen (body (clear_ret VALUE_NEEDED fl) s) (\<lambda>(r, fl, s).
           let fl = (if vn then set_ret VALUE_NEEDED fl else fl) in
           if flow_is BREAK fl \<or> flow_is RETURN fl then Done (r, fl, s)
           else while_loop n I test body r fl s)))"

definition do_fail :: "('e, 'p, 'v, 's) interp \<Rightarrow> 'e option \<Rightarrow> evalOpt \<Rightarrow> ('v, 's) state \<Rightarrow> ('v, 's) exec_result" where
  "do_fail I e fl s = (let fl = set_flow RETURN fl in case e of
     None \<Rightarrow> fail_with I [] fl s
   | Some e \<Rightarrow> andthen (fail_with I [] fl (s\<lparr>last_fail := None\<rparr>)) (\<lambda>(r, fl, s).
       andthen (CopyEval I e fl s) (\<lambda>(m, fl, s). Done (map_option (\<lambda>v. set_fail_message I v m) r, fl, s))))"

text \<open>A block with variables pushes a frame and checks that it gets the same one back.\<close>

definition do_block ::
  "nat \<Rightarrow> (evalOpt \<Rightarrow> ('v, 's) state \<Rightarrow> ('v, 's) exec_result) \<Rightarrow> evalOpt \<Rightarrow> ('v, 's) state \<Rightarrow> ('v, 's) exec_result" where
  "do_block n body fl s =
    (let a = next_addr s;
         f = (if n \<noteq> 0 then Some (Frame_new a n LOCAL_SCOPE) else None);
         s = (if n \<noteq> 0 then s\<lparr>next_addr := Suc a\<rparr> else s);
         s = s\<lparr>seqr := (seqr s)\<lparr>cur_stack := PushFrame f (cur_stack (seqr s))\<rparr>\<rparr>
     in andthen (body fl s) (\<lambda>(r, fl, s). case PopFrame (cur_stack (seqr s)) of
          Inl e \<Rightarrow> Halt (Faulted e)
        | Inr (fr, st) \<Rightarrow>
            if n \<noteq> 0 \<and> map_option faddr fr \<noteq> Some a then Halt FrameInconsistency
            else Done (r, fl, s\<lparr>seqr := (seqr s)\<lparr>cur_stack := st\<rparr>\<rparr>)))"

text \<open>\<open>DoExec\<close> of the remaining statements, over the executions of their parts.\<close>

definition do_seq ::
  "(evalOpt \<Rightarrow> ('v, 's) state \<Rightarrow> ('v, 's) exec_result) \<Rightarrow> (evalOpt \<Rightarrow> ('v, 's) state \<Rightarrow> ('v, 's) exec_result)
    \<Rightarrow> evalOpt \<Rightarrow> ('v, 's) state \<Rightarrow> ('v, 's) exec_result" where
  "do_seq lhs rhs = (\<lambda>flow s.
     andthen (lhs (clear_ret VALUE_NEEDED flow) s) (\<lambda>(r, fl, s).
       let fl = assign_opt fl flow in if flow_is NEXT fl then rhs fl s else Done (r, fl, s)))"

definition do_if ::
  "('e, 'p, 'v, 's) interp \<Rightarrow> 'e \<Rightarrow> (evalOpt \<Rightarrow> ('v, 's) state \<Rightarrow> ('v, 's) exec_result) option
    \<Rightarrow> (evalOpt \<Rightarrow> ('v, 's) state \<Rightarrow> ('v, 's) exec_result) option \<Rightarrow> evalOpt \<Rightarrow> ('v, 's) state \<Rightarrow> ('v, 's) exec_result" where
  "do_if I e true_branch false_branch = (\<lambda>fl s.
     andthen (ReadOnlyEval I e fl s) (\<lambda>(r, fl, s). case r of
       None \<Rightarrow> Halt NullValue
     | Some v \<Rightarrow> (case bool_val I v of
         (_, Some err) \<Rightarrow> fail_with I err fl s
       | (True, None) \<Rightarrow> (case true_branch of Some body \<Rightarrow> body fl s | None \<Rightarrow> Done (None, fl, s))
       | (False, None) \<Rightarrow> (case false_branch of Some body \<Rightarrow> body fl s | None \<Rightarrow> Done (None, fl, s)))))"

definition do_while ::
  "nat \<Rightarrow> ('e, 'p, 'v, 's) interp \<Rightarrow> 'e \<Rightarrow> (evalOpt \<Rightarrow> ('v, 's) state \<Rightarrow> ('v, 's) exec_result)
    \<Rightarrow> evalOpt \<Rightarrow> ('v, 's) state \<Rightarrow> ('v, 's) exec_result" where
  "do_while n I test body = (\<lambda>fl s. andthen (while_loop n I test body None fl s) loop_done)"

definition do_expr :: "('e, 'p, 'v, 's) interp \<Rightarrow> 'e \<Rightarrow> evalOpt \<Rightarrow> ('v, 's) state \<Rightarrow> ('v, 's) exec_result" where
  "do_expr I e = (\<lambda>fl s.
     if value_needed fl \<and> \<not> invisible I e then CopyEval I e fl s else side_effects_eval I e fl s)"

definition do_exit :: "('e, 'p, 'v, 's) interp \<Rightarrow> 'e option \<Rightarrow> evalOpt \<Rightarrow> ('v, 's) state \<Rightarrow> ('v, 's) exec_result" where
  "do_exit I status = (\<lambda>fl s. case status of
     None \<Rightarrow> Halt (Exited 0)
   | Some e \<Rightarrow> andthen (CopyEval I e fl s) (\<lambda>(r, fl, s). case r of
       None \<Rightarrow> Halt NullValue | Some v \<Rightarrow> Halt (Exited (int_val I v))))"

definition do_next :: "evalOpt \<Rightarrow> ('v, 's) state \<Rightarrow> ('v, 's) exec_result" where
  "do_next = (\<lambda>fl s. Done (None, set_flow LOOP fl, s))"

definition do_break :: "evalOpt \<Rightarrow> ('v, 's) state \<Rightarrow> ('v, 's) exec_result" where
  "do_break = (\<lambda>fl s. Done (None, set_flow BREAK fl, s))"

definition do_return :: "('e, 'p, 'v, 's) interp \<Rightarrow> 'e option \<Rightarrow> evalOpt \<Rightarrow> ('v, 's) state \<Rightarrow> ('v, 's) exec_result" where
  "do_return I retval = (\<lambda>fl s.
     let fl = set_flow RETURN fl in case retval of Some e \<Rightarrow> CopyEval I e fl s | None \<Rightarrow> Done (None, fl, s))"

definition do_null :: "evalOpt \<Rightarrow> ('v, 's) state \<Rightarrow> ('v, 's) exec_result" where
  "do_null = (\<lambda>fl s. Done (None, fl, s))"

text \<open>A statement is executed by \<open>Exec\<close> around its \<open>DoExec\<close>.\<close>

primrec exec :: "('e, 'p, 'v, 's) interp \<Rightarrow> nat \<Rightarrow> ('e, 'p) Stmt \<Rightarrow> evalOpt \<Rightarrow> ('v, 's) state \<Rightarrow> ('v, 's) exec_result" where
  "exec I n (SeqStmt l a b) = Exec l (do_seq (exec I n a) (exec I n b))"
| "exec I n (ActivateStmt l act e) = Exec l (do_activate I act e)"
| "exec I n (IfStmt l e t f) = Exec l (do_if I e (map_option (exec I n) t) (map_option (exec I n) f))"
| "exec I n (ForStmt l index rng body) = Exec l (do_for I index rng (exec I n body))"
| "exec I n (WhileStmt l test body) = Exec l (do_while n I test (exec I n body))"
| "exec I n (FailStmt l e) = Exec l (do_fail I e)"
| "exec I n (ExprStmt l e) = Exec l (do_expr I e)"
| "exec I n (ExitStmt l e) = Exec l (do_exit I e)"
| "exec I n (LoopStmt l) = Exec l do_next"
| "exec I n (BreakStmt l) = Exec l do_break"
| "exec I n (ReturnStmt l e) = Exec l (do_return I e)"
| "exec I n (StmtBlock l k body) = Exec l (do_block k (exec I n body))"
| "exec I n (NullStmt l) = Exec l do_null"
| "exec I n (PrimStmt l p) = Exec l (prim_exec I p)"

lemmas exec_defs = exec.simps do_seq_def do_if_def do_while_def do_expr_def do_exit_def do_next_def do_break_def
  do_return_def do_null_def

text \<open>
  Merging two statements of a list drops null statements. The null statement is one object, which
  \<open>merge_stmts\<close> recognises by its address.
\<close>

fun is_null :: "('e, 'p) Stmt \<Rightarrow> bool" where
  "is_null (NullStmt _) = True"
| "is_null _ = False"

definition merge_stmts :: "nat \<Rightarrow> ('e, 'p) Stmt \<Rightarrow> ('e, 'p) Stmt \<Rightarrow> ('e, 'p) Stmt" where
  "merge_stmts l a b = (if is_null a then b else if is_null b then a else SeqStmt l a b)"

text \<open>
  What a \<open>whenever\<close> does when one of its events arrives: it runs its body with fresh flags and says
  whether it warns that \<open>next\<close>, \<open>break\<close> and \<open>return\<close> make no sense there.
\<close>

definition Whenever_Notify :: "('e, 'p, 'v, 's) interp \<Rightarrow> nat \<Rightarrow> ('e, 'p) Stmt \<Rightarrow> ('v, 's) state \<Rightarrow> (bool \<times> ('v, 's) state) comp" where
  "Whenever_Notify I n body s = andthen (exec I n body evalOpt_new s) (\<lambda>(_, fl, s). Done (\<not> flow_is NEXT fl, s))"

text \<open>
  Whether a \<open>whenever\<close> listens to an agent. The subsequences are the ones the event comes from and the
  statement is in.
\<close>

definition IsActiveFor :: "bool \<Rightarrow> bool \<Rightarrow> bool \<Rightarrow> nat option \<Rightarrow> nat option \<Rightarrow> bool" where
  "IsActiveFor active is_subsequence reflect_events from_subsequence in_subsequence =
    (if is_subsequence then
       (if from_subsequence \<noteq> None \<and> in_subsequence \<noteq> None \<and> from_subsequence = in_subsequence \<and> \<not> reflect_events then False
        else if from_subsequence = None \<and> in_subsequence = None \<and> is_subsequence then False
        else active)
     else active)"

section \<open>The flags as words\<close>

definition flow_bits :: "evalOpt \<Rightarrow> u16" where
  "flow_bits fl = opt_mask fl AND 0x1e0"

definition value_bit :: "evalOpt \<Rightarrow> u16" where
  "value_bit fl = opt_mask fl AND 0x200"

definition flow_word :: "flowType \<Rightarrow> u16" where
  "flow_word t = push_bit (flow_no t) 1"

named_theorems flag_rules

lemma and_or_other: "a AND c = 0 \<Longrightarrow> (x AND NOT a OR y) AND c = (x OR y) AND c" for a c x y :: u16
  by (rule bit_word_eqI) (auto simp: bit_simps dest!: arg_cong [where f = "\<lambda>w. bit w _"])

lemma and_or_same: "(x AND NOT c OR y) AND c = y AND c" for c x y :: u16
  by (rule bit_word_eqI) (auto simp: bit_simps)

lemma flow_word_cases: "flow_word NEXT = 0x20" "flow_word LOOP = 0x40" "flow_word BREAK = 0x80" "flow_word RETURN = 0x100"
  by (simp_all add: flow_word_def push_bit_eq_mult)

lemma flow_word_inject [simp]: "flow_word t = flow_word u \<longleftrightarrow> t = u"
  by (cases t; cases u) (simp_all add: flow_word_cases)

lemma flow_word_and [simp]: "flow_word t AND 0x1e0 = flow_word t" "flow_word t AND 0x200 = 0"
  by (cases t; simp add: flow_word_cases)+

lemma disjoint_or: "y AND c = 0 \<Longrightarrow> (x OR y) AND c = x AND c" for c x y :: u16
  by (simp add: word_ao_dist)

definition expr_word :: "exprType \<Rightarrow> u16" where
  "expr_word t = push_bit (expr_no t) 1"

lemma expr_word_and: "expr_word t AND 0x1e0 = 0" "expr_word t AND 0x200 = 0"
  by (cases t; simp add: expr_word_def push_bit_eq_mult)+

lemma high_bits: "(- 1024 :: u16) = 0xfc00"
  by code_simp

lemma masks:
  "opt_mask (set_flow t fl) = opt_mask fl AND NOT 0x1e0 OR flow_word t"
  "opt_mask (set_expr e fl) = opt_mask fl AND NOT 0x1f OR expr_word e"
  "opt_mask (clear_ret VALUE_NEEDED fl) = opt_mask fl AND 0xfc00"
  "opt_mask (set_ret VALUE_NEEDED fl) = opt_mask fl OR 0x200"
  "opt_mask (assign_opt fl l) = opt_mask l AND NOT 0x1e0 OR opt_mask fl AND 0x1e0"
  by (simp_all add: set_flow_def flow_word_def set_expr_def expr_word_def clear_ret_def set_ret_def assign_opt_def
      push_bit_eq_mult high_bits)

lemma disjoint_masks: "(0x1e0 :: u16) AND 0x200 = 0" "(0x1f :: u16) AND 0x1e0 = 0" "(0x1f :: u16) AND 0x200 = 0"
  "(0xfc00 :: u16) AND 0x200 = 0" "(0x200 :: u16) AND 0x1e0 = 0" "(0x200 :: u16) AND 0x200 = 0x200"
  by simp_all

lemma flags_set_flow [flag_rules]:
  "flow_bits (set_flow t fl) = flow_word t" "value_bit (set_flow t fl) = value_bit fl"
  by (simp_all only: flow_bits_def value_bit_def masks and_or_same and_or_other [OF disjoint_masks(1)]
      disjoint_or flow_word_and)

lemma flags_set_expr [flag_rules]:
  "flow_bits (set_expr t fl) = flow_bits fl" "value_bit (set_expr t fl) = value_bit fl"
  by (simp_all only: flow_bits_def value_bit_def masks and_or_other [OF disjoint_masks(2)]
      and_or_other [OF disjoint_masks(3)] disjoint_or expr_word_and)

lemma flags_clear_ret [flag_rules]: "value_bit (clear_ret VALUE_NEEDED fl) = 0"
  by (simp only: value_bit_def masks word_bw_assocs disjoint_masks and_zero_eq)

lemma flags_set_ret [flag_rules]:
  "flow_bits (set_ret VALUE_NEEDED fl) = flow_bits fl" "value_bit (set_ret VALUE_NEEDED fl) = 0x200"
  by (simp_all only: flow_bits_def value_bit_def masks disjoint_or [OF disjoint_masks(5)]) (simp add: word_bw_comms word_ao_absorbs)

lemma flags_assign_opt [flag_rules]:
  "flow_bits (assign_opt fl l) = flow_bits fl" "value_bit (assign_opt fl l) = value_bit l"
  by (simp_all only: flow_bits_def value_bit_def masks and_or_same and_or_other [OF disjoint_masks(1)] word_bw_assocs
      and.idem disjoint_or disjoint_masks and_zero_eq)

lemma flow_is_bits: "flow_bits fl = flow_word t \<Longrightarrow> flow_is u fl \<longleftrightarrow> t = u"
proof -
  assume a: "flow_bits fl = flow_word t"
  have "flow_word u = 0x1e0 AND flow_word u" by (cases u) (simp_all add: flow_word_cases)
  then have "opt_mask fl AND flow_word u = flow_bits fl AND flow_word u"
    by (simp add: flow_bits_def word_bw_assocs)
  then show "flow_is u fl \<longleftrightarrow> t = u"
    unfolding flow_is_def flow_word_def [symmetric] a by (cases t; cases u) (simp_all add: flow_word_cases)
qed

lemma value_needed_bit: "value_needed fl \<longleftrightarrow> value_bit fl \<noteq> 0"
  by (simp add: value_needed_def value_bit_def push_bit_eq_mult)

lemma and_one_bit: "m AND push_bit k 1 = push_bit k 1 \<or> m AND push_bit k 1 = 0" for m :: u16
proof (cases "bit m k")
  case True
  have "m AND push_bit k 1 = push_bit k 1"
    by (rule bit_word_eqI) (use True in \<open>auto simp: bit_simps\<close>)
  then show ?thesis ..
next
  case False
  have "m AND push_bit k 1 = 0"
    by (rule bit_word_eqI) (use False in \<open>auto simp: bit_simps\<close>)
  then show ?thesis ..
qed

lemma value_bit_cases: "value_bit fl = 0 \<or> value_bit fl = 0x200"
  using and_one_bit [of "opt_mask fl" 9] by (auto simp: value_bit_def push_bit_eq_mult)


section \<open>What execution keeps\<close>

text \<open>
  The part of the state that outlives a statement unchanged: which frames are on the stack (their
  contents may change), and the line number.
\<close>

definition frame_id :: "'v Frame \<Rightarrow> nat \<times> scope_type" where
  "frame_id f = (faddr f, fscope f)"

definition shape :: "('v, 's) state \<Rightarrow> (nat \<times> scope_type) option list \<times> nat list" where
  "shape s = (map (map_option frame_id) (sframes (cur_stack (seqr s))), soffsets (cur_stack (seqr s)))"

definition same_frames :: "('v, 's) state \<Rightarrow> ('v, 's) state \<Rightarrow> bool" where
  "same_frames s s' \<longleftrightarrow> shape s' = shape s \<and> line_num s' = line_num s \<and> next_addr s \<le> next_addr s'"

definition frame_fault :: "halt \<Rightarrow> bool" where
  "frame_fault h \<longleftrightarrow> h = FrameInconsistency \<or> h = Faulted (Fatal ''local frame stack underflow in Sequencer::PopFrame'')"

text \<open>Partial correctness of a computation: a postcondition of its result, and no frame fault.\<close>

fun post :: "('a \<Rightarrow> bool) \<Rightarrow> 'a comp \<Rightarrow> bool" where
  "post Q (Done x) \<longleftrightarrow> Q x"
| "post Q (Halt h) \<longleftrightarrow> \<not> frame_fault h"
| "post Q Timeout \<longleftrightarrow> True"

definition ends :: "flowType set \<Rightarrow> evalOpt \<Rightarrow> ('v, 's) state \<Rightarrow> 'v option \<times> evalOpt \<times> ('v, 's) state \<Rightarrow> bool" where
  "ends ts fl s = (\<lambda>(r, fl', s'). (\<exists>t \<in> ts. flow_bits fl' = flow_word t) \<and> value_bit fl' = value_bit fl \<and> same_frames s s')"

definition keeps :: "evalOpt \<Rightarrow> ('v, 's) state \<Rightarrow> 'v option \<times> evalOpt \<times> ('v, 's) state \<Rightarrow> bool" where
  "keeps fl s = (\<lambda>(r, fl', s'). flow_bits fl' = flow_bits fl \<and> value_bit fl' = value_bit fl \<and> same_frames s s')"

text \<open>
  What expressions and values promise: evaluation leaves the flow flags, the value-needed flag, the
  frames on the stack and the line number as they were, and a failure value is built without touching
  them. The primitive statements may end in any of the four ways.
\<close>

definition interp_ok :: "('e, 'p, 'v, 's) interp \<Rightarrow> bool" where
  "interp_ok I \<longleftrightarrow>
     (\<forall>e fl s. post (keeps fl s) (eval I e fl s)) \<and> (\<forall>e fl s. post (keeps fl s) (side_effects_eval I e fl s))
   \<and> (\<forall>e v fl s. post (keeps fl s) (assign_to I e v fl s)) \<and> (\<forall>p fl s. post (ends UNIV fl s) (prim_exec I p fl s))
   \<and> (\<forall>m s. same_frames s (snd (fail_value I m s)))"

text \<open>The ways a statement can end.\<close>

primrec exits :: "('e, 'p) Stmt \<Rightarrow> flowType set" where
  "exits (SeqStmt l a b) = (exits a - {NEXT}) \<union> (if NEXT \<in> exits a then exits b else {})"
| "exits (ActivateStmt l act e) = {NEXT}"
| "exits (IfStmt l e t f) = {NEXT}
     \<union> (case map_option exits t of Some x \<Rightarrow> x | None \<Rightarrow> {}) \<union> (case map_option exits f of Some x \<Rightarrow> x | None \<Rightarrow> {})"
| "exits (ForStmt l i r b) = {NEXT} \<union> (exits b \<inter> {RETURN})"
| "exits (WhileStmt l t b) = {NEXT} \<union> (exits b \<inter> {RETURN})"
| "exits (FailStmt l e) = {RETURN}"
| "exits (ExprStmt l e) = {NEXT}"
| "exits (ExitStmt l e) = {}"
| "exits (LoopStmt l) = {LOOP}"
| "exits (BreakStmt l) = {BREAK}"
| "exits (ReturnStmt l e) = {RETURN}"
| "exits (StmtBlock l k b) = exits b"
| "exits (NullStmt l) = {NEXT}"
| "exits (PrimStmt l p) = UNIV"

lemma post_andthen: "post Q m \<Longrightarrow> (\<And>x. Q x \<Longrightarrow> post R (f x)) \<Longrightarrow> post R (andthen m f)"
  by (cases m) auto

lemma post_mono: "post Q m \<Longrightarrow> (\<And>x. Q x \<Longrightarrow> R x) \<Longrightarrow> post R m"
  by (cases m) auto

lemma same_frames_refl [simp]: "same_frames s s"
  by (simp add: same_frames_def)

lemma same_frames_trans: "same_frames a b \<Longrightarrow> same_frames b c \<Longrightarrow> same_frames a c"
  by (auto simp: same_frames_def)

lemma same_frames_updates [simp]:
  "same_frames a (s\<lparr>last_fail := x\<rparr>) = same_frames a s" "same_frames a (s\<lparr>registered_stmts := y\<rparr>) = same_frames a s"
  by (simp_all add: same_frames_def shape_def)

lemma keeps_expr: "keeps (set_expr t fl) s = keeps fl s"
  by (auto simp: keeps_def flag_rules)

lemma interp_okD:
  assumes "interp_ok I"
  shows "post (keeps fl s) (eval I e fl s)" "post (keeps fl s) (side_effects_eval I e fl s)"
    "post (keeps fl s) (assign_to I e v fl s)" "post (ends UNIV fl s) (prim_exec I p fl s)"
    "same_frames s (snd (fail_value I m s))" "post (keeps fl s) (CopyEval I e fl s)" "post (keeps fl s) (ReadOnlyEval I e fl s)"
proof -
  show "post (keeps fl s) (eval I e fl s)" "post (keeps fl s) (side_effects_eval I e fl s)"
    "post (keeps fl s) (assign_to I e v fl s)" "post (ends UNIV fl s) (prim_exec I p fl s)"
    "same_frames s (snd (fail_value I m s))"
    using assms by (simp_all add: interp_ok_def)
  show "post (keeps fl s) (CopyEval I e fl s)" "post (keeps fl s) (ReadOnlyEval I e fl s)"
    using assms keeps_expr unfolding CopyEval_def ReadOnlyEval_def interp_ok_def by metis+
qed

lemma keeps_fail:
  assumes "interp_ok I"
  shows "post (keeps fl s) (fail_with I m fl s)"
  using interp_okD(5) [OF assms, of s m] by (simp add: fail_with_def keeps_def case_prod_unfold Let_def)

text \<open>Chaining two steps.\<close>

lemma keeps_keeps: "keeps fl s (r, fl1, s1) \<Longrightarrow> keeps fl1 s1 x \<Longrightarrow> keeps fl s x"
  by (auto simp: keeps_def intro: same_frames_trans)

lemma keeps_ends: "keeps fl s (r, fl1, s1) \<Longrightarrow> ends ts fl1 s1 x \<Longrightarrow> ends ts fl s x"
  by (auto simp: keeps_def ends_def intro: same_frames_trans)

lemma keeps_to_ends: "flow_bits fl = flow_word t \<Longrightarrow> t \<in> ts \<Longrightarrow> keeps fl s x \<Longrightarrow> ends ts fl s x"
  by (auto simp: keeps_def ends_def)

lemma ends_subset: "ends ts fl s x \<Longrightarrow> ts \<subseteq> us \<Longrightarrow> ends us fl s x"
  by (auto simp: ends_def)

lemma post_keeps_ends: "post (keeps fl s) m \<Longrightarrow> flow_bits fl = flow_word t \<Longrightarrow> t \<in> ts \<Longrightarrow> post (ends ts fl s) m"
  by (erule post_mono) (rule keeps_to_ends)

lemma post_ends_after: "keeps fl s (r, fl1, s1) \<Longrightarrow> post (ends ts fl1 s1) m \<Longrightarrow> post (ends ts fl s) m"
  by (erule post_mono) (rule keeps_ends)

definition body_ok :: "flowType set \<Rightarrow> (evalOpt \<Rightarrow> ('v, 's) state \<Rightarrow> ('v, 's) exec_result) \<Rightarrow> bool" where
  "body_ok ts body \<longleftrightarrow> (\<forall>fl s. post (ends ts fl s) (body fl s))"

lemma Exec_ok:
  fixes do_exec :: "evalOpt \<Rightarrow> ('v, 's) state \<Rightarrow> ('v, 's) exec_result"
  assumes "\<And>fl s. flow_bits fl = flow_word NEXT \<Longrightarrow> post (ends ts fl s) (do_exec fl s)"
  shows "body_ok ts (Exec l do_exec)"
  unfolding body_ok_def Exec_def Let_def
proof (intro allI)
  fix fl and s :: "('v, 's) state"
  let ?s = "s\<lparr>line_num := l\<rparr>"
  have "post (ends ts (set_flow NEXT fl) ?s) (do_exec (set_flow NEXT fl) ?s)"
    by (rule assms) (simp add: flag_rules)
  then show "post (ends ts fl s) (andthen (do_exec (set_flow NEXT fl) ?s) (\<lambda>(r, fl, s'). Done (r, fl, s'\<lparr>line_num := line_num s\<rparr>)))"
    by (rule post_andthen) (auto simp: ends_def flag_rules same_frames_def shape_def)
qed

lemma restore_value:
  assumes "value_bit fl' = 0"
  shows "value_bit (if value_needed fl then set_ret VALUE_NEEDED fl' else fl') = value_bit fl"
    "flow_bits (if value_needed fl then set_ret VALUE_NEEDED fl' else fl') = flow_bits fl'"
  using assms value_bit_cases [of fl] by (auto simp: value_needed_bit flag_rules)

text \<open>One iteration of a loop: the body runs without the value-needed flag, which is then put back.\<close>

lemma iteration_ok:
  fixes body :: "evalOpt \<Rightarrow> ('v, 's) state \<Rightarrow> ('v, 's) exec_result"
  assumes body: "body_ok ts body"
    and step: "\<And>r fl' s'. ends ts fl s (r, fl', s') \<Longrightarrow> \<not> (flow_is BREAK fl' \<or> flow_is RETURN fl') \<Longrightarrow> post (ends us fl' s') (f r fl' s')"
    and us: "ts \<subseteq> us"
  shows "post (ends us fl s) (andthen (body (clear_ret VALUE_NEEDED fl) s) (\<lambda>(r, fl', s').
    let fl' = (if value_needed fl then set_ret VALUE_NEEDED fl' else fl') in
    if flow_is BREAK fl' \<or> flow_is RETURN fl' then Done (r, fl', s') else f r fl' s'))"
proof (rule post_andthen)
  show "post (ends ts (clear_ret VALUE_NEEDED fl) s) (body (clear_ret VALUE_NEEDED fl) s)"
    using body by (simp add: body_ok_def)
  fix x :: "'v option \<times> evalOpt \<times> ('v, 's) state"
  assume x: "ends ts (clear_ret VALUE_NEEDED fl) s x"
  obtain r fl1 s1 where xe: "x = (r, fl1, s1)" by (cases x)
  let ?fl = "if value_needed fl then set_ret VALUE_NEEDED fl1 else fl1"
  have "value_bit fl1 = 0" using x xe by (simp add: ends_def flag_rules)
  note rv = restore_value [OF this, of fl]
  have e: "ends ts fl s (r, ?fl, s1)" using x unfolding xe ends_def prod.case rv by simp
  show "post (ends us fl s) (case x of (r, fl', s') \<Rightarrow>
      let fl' = (if value_needed fl then set_ret VALUE_NEEDED fl' else fl') in
      if flow_is BREAK fl' \<or> flow_is RETURN fl' then Done (r, fl', s') else f r fl' s')"
  proof (cases "flow_is BREAK ?fl \<or> flow_is RETURN ?fl")
    case True
    then show ?thesis using ends_subset [OF e us] unfolding xe prod.case Let_def by simp
  next
    case False
    have "post (ends us fl s) (f r ?fl s1)"
      by (rule post_mono [OF step [OF e False]]) (use e in \<open>auto simp: ends_def intro: same_frames_trans\<close>)
    then show ?thesis using False unfolding xe prod.case Let_def by simp
  qed
qed


lemma activate_all_frames: "same_frames s (activate_all act is s)"
proof (induction act "is" s rule: activate_all.induct)
  case (2 act i "is" s)
  have "same_frames s (SetActivity act n s)" for n by (simp add: SetActivity_def)
  then show ?case using 2 by (auto split: option.split intro: same_frames_trans)
qed simp

lemma do_activate_ok:
  assumes I: "interp_ok I"
  shows "post (keeps fl s) (do_activate I act e fl s)"
proof (cases e)
  case None
  then show ?thesis
    using keeps_fail [OF I] activate_all_frames
    by (auto simp: do_activate_def keeps_def simp del: activate_all.simps split: option.split)
next
  case (Some e)
  show ?thesis
    unfolding do_activate_def Some option.case
  proof (rule post_andthen [OF interp_okD(6) [OF I]])
    fix x :: "'c option \<times> evalOpt \<times> ('c, 'd) state"
    assume x: "keeps fl s x"
    obtain r fl1 s1 where xe: "x = (r, fl1, s1)" by (cases x)
    show "post (keeps fl s) (case x of (r, fl, s) \<Rightarrow> case r of None \<Rightarrow> Halt NullValue
        | Some v \<Rightarrow> if \<not> is_numeric I v then fail_with I ''non-numeric index, '' fl s
            else Done (None, fl, activate_all act (take (vlength I v) (int_ptr I v)) s))"
    proof (cases r)
      case None
      then show ?thesis by (simp add: xe frame_fault_def)
    next
      case (Some v)
      have "post (keeps fl s) (fail_with I ''non-numeric index, '' fl1 s1)"
        by (rule post_mono [OF keeps_fail [OF I]]) (use x xe keeps_keeps in blast)
      moreover have "keeps fl s (None, fl1, activate_all act (take (vlength I v) (int_ptr I v)) s1)"
        using x activate_all_frames same_frames_trans unfolding xe keeps_def by blast
      ultimately show ?thesis by (simp add: xe Some)
    qed
  qed
qed

lemma ends_flow: "ends ts fl s (r, fl', s') \<Longrightarrow> ts \<subseteq> us \<Longrightarrow> \<exists>t \<in> us. flow_bits fl' = flow_word t"
  by (auto simp: ends_def)

lemma for_loop_ok:
  assumes I: "interp_ok I" and body: "body_ok ts body" and us: "us = insert NEXT ts"
  shows "\<exists>t \<in> us. flow_bits fl = flow_word t \<Longrightarrow> post (ends us fl s) (for_loop I index rng body is r fl s)"
proof (induction "is" arbitrary: r fl s)
  case Nil
  then show ?case by (simp add: ends_def)
next
  case (Cons i "is")
  show ?case
    unfolding for_loop.simps Let_def
  proof (rule post_andthen [OF interp_okD(3) [OF I]])
    fix x :: "'c option \<times> evalOpt \<times> ('c, 'd) state"
    assume x: "keeps fl s x"
    obtain r1 fl1 s1 where xe: "x = (r1, fl1, s1)" by (cases x)
    have "post (ends us fl1 s1) (andthen (body (clear_ret VALUE_NEEDED fl1) s1) (\<lambda>(r, fl', s').
        let fl' = (if value_needed fl1 then set_ret VALUE_NEEDED fl' else fl') in
        if flow_is BREAK fl' \<or> flow_is RETURN fl' then Done (r, fl', s') else for_loop I index rng body is r fl' s'))"
      by (rule iteration_ok [OF body Cons.IH], rule ends_flow, assumption) (auto simp: us)
    then show "post (ends us fl s) (case x of (uu, fl, s) \<Rightarrow> andthen (body (clear_ret VALUE_NEEDED fl) s) (\<lambda>(r, fl', s').
        if flow_is BREAK (if value_needed fl then set_ret VALUE_NEEDED fl' else fl')
          \<or> flow_is RETURN (if value_needed fl then set_ret VALUE_NEEDED fl' else fl')
        then Done (r, if value_needed fl then set_ret VALUE_NEEDED fl' else fl', s')
        else for_loop I index rng body is r (if value_needed fl then set_ret VALUE_NEEDED fl' else fl') s'))"
      using post_ends_after [OF x [unfolded xe]] unfolding xe prod.case Let_def by blast
  qed
qed

lemma loop_done_ok:
  assumes "ends (insert NEXT ts) fl s x"
  shows "post (ends (insert NEXT (ts \<inter> {RETURN})) fl s) (loop_done x)"
proof -
  obtain r fl1 s1 where xe: "x = (r, fl1, s1)" by (cases x)
  obtain t where t: "t \<in> insert NEXT ts" "flow_bits fl1 = flow_word t" using assms by (auto simp: xe ends_def)
  show ?thesis
  proof (cases "t = RETURN")
    case True
    then show ?thesis using assms t flow_is_bits [OF t(2)] by (auto simp: loop_done_def xe ends_def)
  next
    case False
    then show ?thesis using assms flow_is_bits [OF t(2)] by (auto simp: loop_done_def xe ends_def flag_rules)
  qed
qed

lemma do_for_ok:
  assumes I: "interp_ok I" and body: "body_ok ts body" and fl: "flow_bits fl = flow_word NEXT"
  shows "post (ends (insert NEXT (ts \<inter> {RETURN})) fl s) (do_for I index rng body fl s)"
  unfolding do_for_def
proof (rule post_andthen [OF interp_okD(6) [OF I]])
  fix x :: "'c option \<times> evalOpt \<times> ('c, 'd) state"
  assume x: "keeps fl s x"
  obtain r fl1 s1 where xe: "x = (r, fl1, s1)" by (cases x)
  have fl1: "flow_bits fl1 = flow_word NEXT" using x fl by (simp add: xe keeps_def)
  have "post (ends (insert NEXT ts) fl1 s1) (if \<not> is_numeric I v \<and> \<not> is_string I v \<and> \<not> is_record I v
      then fail_with I ''range in for loop is not numeric or record or string'' fl1 s1
      else for_loop I index v body [1..<Suc (vlength I v)] None fl1 s1)" for v
    using post_keeps_ends [OF keeps_fail [OF I] fl1] for_loop_ok [OF I body refl] fl1 by auto
  then have "post (ends (insert NEXT (ts \<inter> {RETURN})) fl1 s1) (andthen (if \<not> is_numeric I v \<and> \<not> is_string I v \<and> \<not> is_record I v
      then fail_with I ''range in for loop is not numeric or record or string'' fl1 s1
      else for_loop I index v body [1..<Suc (vlength I v)] None fl1 s1) loop_done)" for v
    by (rule post_andthen) (rule loop_done_ok)
  note this [THEN post_ends_after [OF x [unfolded xe]]]
  moreover have "ends (insert NEXT (ts \<inter> {RETURN})) fl s (None, fl1, s1)"
    using x fl by (auto simp: xe keeps_def ends_def)
  ultimately show "post (ends (insert NEXT (ts \<inter> {RETURN})) fl s) (case x of (r, fl, s) \<Rightarrow> case r of None \<Rightarrow> Done (None, fl, s)
      | Some v \<Rightarrow> andthen (if \<not> is_numeric I v \<and> \<not> is_string I v \<and> \<not> is_record I v
          then fail_with I ''range in for loop is not numeric or record or string'' fl s
          else for_loop I index v body [1..<Suc (vlength I v)] None fl s) loop_done)"
    unfolding xe prod.case by (simp split: option.split)
qed

lemma while_loop_ok:
  assumes I: "interp_ok I" and body: "body_ok ts body" and us: "us = insert NEXT ts"
  shows "\<exists>t \<in> us. flow_bits fl = flow_word t \<Longrightarrow> post (ends us fl s) (while_loop n I test body r fl s)"
proof (induction n arbitrary: r fl s)
  case 0
  then show ?case by simp
next
  case (Suc n)
  then obtain t where t: "t \<in> us" "flow_bits fl = flow_word t" by blast
  show ?case
    unfolding while_loop.simps
  proof (rule post_andthen [OF interp_okD(7) [OF I]])
    fix x :: "'c option \<times> evalOpt \<times> ('c, 'd) state"
    assume x: "keeps fl s x"
    obtain r1 fl1 s1 where xe: "x = (r1, fl1, s1)" by (cases x)
    have fl1: "flow_bits fl1 = flow_word t" using x t by (simp add: xe keeps_def)
    have "post (ends us fl1 s1) (andthen (body (clear_ret VALUE_NEEDED fl1) s1) (\<lambda>(r, fl', s').
        let fl' = (if value_needed fl1 then set_ret VALUE_NEEDED fl' else fl') in
        if flow_is BREAK fl' \<or> flow_is RETURN fl' then Done (r, fl', s') else while_loop n I test body r fl' s'))"
      by (rule iteration_ok [OF body Suc.IH], rule ends_flow, assumption) (auto simp: us)
    moreover have "post (ends us fl1 s1) (fail_with I err fl1 s1)" for err
      by (rule post_keeps_ends [OF keeps_fail [OF I] fl1 t(1)])
    moreover have "ends us fl1 s1 (r, fl1, s1)" using fl1 t(1) by (auto simp: ends_def)
    ultimately have "post (ends us fl1 s1) (case bool_val I v of
         (_, Some err) \<Rightarrow> fail_with I err fl1 s1
       | (False, None) \<Rightarrow> Done (r, fl1, s1)
       | (True, None) \<Rightarrow>
           let vn = value_needed fl1 in
           andthen (body (clear_ret VALUE_NEEDED fl1) s1) (\<lambda>(r, fl, s).
             let fl = (if vn then set_ret VALUE_NEEDED fl else fl) in
             if flow_is BREAK fl \<or> flow_is RETURN fl then Done (r, fl, s)
             else while_loop n I test body r fl s))" for v
      by (cases "bool_val I v") (auto split: option.split bool.split)
    then show "post (ends us fl s) (case x of (t, fl, s) \<Rightarrow> case t of
         None \<Rightarrow> Halt NullValue
       | Some v \<Rightarrow> (case bool_val I v of
           (_, Some err) \<Rightarrow> fail_with I err fl s
         | (False, None) \<Rightarrow> Done (r, fl, s)
         | (True, None) \<Rightarrow>
             let vn = value_needed fl in
             andthen (body (clear_ret VALUE_NEEDED fl) s) (\<lambda>(r, fl, s).
               let fl = (if vn then set_ret VALUE_NEEDED fl else fl) in
               if flow_is BREAK fl \<or> flow_is RETURN fl then Done (r, fl, s)
               else while_loop n I test body r fl s)))"
      unfolding xe prod.case using post_ends_after [OF x [unfolded xe]]
      by (cases r1) (auto simp: frame_fault_def)
  qed
qed

lemma do_fail_ok:
  assumes I: "interp_ok I"
  shows "post (ends {RETURN} fl s) (do_fail I e fl s)"
proof -
  let ?fl = "set_flow RETURN fl"
  have bits: "flow_bits ?fl = flow_word RETURN" "value_bit ?fl = value_bit fl" by (simp_all add: flag_rules)
  have "post (ends {RETURN} ?fl s) (fail_with I m ?fl s)" for m s
    by (rule post_keeps_ends [OF keeps_fail [OF I] bits(1)]) simp
  note none = this
  have some: "post (ends {RETURN} ?fl s) (andthen (fail_with I [] ?fl (s\<lparr>last_fail := None\<rparr>)) (\<lambda>(r, fl, s).
      andthen (CopyEval I x fl s) (\<lambda>(m, fl, s). Done (map_option (\<lambda>v. set_fail_message I v m) r, fl, s))))" for x s
  proof (rule post_andthen [OF none])
    fix y :: "'c option \<times> evalOpt \<times> ('c, 'd) state"
    assume y: "ends {RETURN} ?fl (s\<lparr>last_fail := None\<rparr>) y"
    obtain r fl1 s1 where ye: "y = (r, fl1, s1)" by (cases y)
    have "post (ends {RETURN} ?fl s) (andthen (CopyEval I x fl1 s1) (\<lambda>(m, fl, s). Done (map_option (\<lambda>v. set_fail_message I v m) r, fl, s)))"
      by (rule post_andthen [OF interp_okD(6) [OF I]])
        (use y in \<open>auto simp: ye ends_def keeps_def same_frames_def shape_def\<close>)
    then show "post (ends {RETURN} ?fl s) (case y of (r, fl, s) \<Rightarrow>
        andthen (CopyEval I x fl s) (\<lambda>(m, fl, s). Done (map_option (\<lambda>v. set_fail_message I v m) r, fl, s)))"
      unfolding ye by simp
  qed
  have "ends {RETURN} ?fl s = (ends {RETURN} fl s :: 'c option \<times> evalOpt \<times> ('c, 'd) state \<Rightarrow> bool)"
    unfolding ends_def bits(2) ..
  then show ?thesis using none [of s "[]"] some [of s] unfolding do_fail_def Let_def by (cases e) simp_all
qed

text \<open>A block gives back the stack it found.\<close>

lemma PopFrame_shape:
  assumes "map (map_option frame_id) (sframes st') = map (map_option frame_id) (sframes (PushFrame f st))"
    and "soffsets st' = soffsets (PushFrame f st)" and "\<not> outer_frame f"
  shows "\<exists>g st''. PopFrame st' = Inr (g, st'') \<and> map_option frame_id g = map_option frame_id f
    \<and> map (map_option frame_id) (sframes st'') = map (map_option frame_id) (sframes st) \<and> soffsets st'' = soffsets st"
proof -
  obtain fs g where fs: "sframes st' = fs @ [g]" "map (map_option frame_id) fs = map (map_option frame_id) (sframes st)"
    "map_option frame_id g = map_option frame_id f"
    using assms(1) by (cases "sframes st'" rule: rev_cases) (auto simp: PushFrame_simps)
  have "map_option fscope g = map_option fscope f"
    using arg_cong [OF fs(3), of "map_option snd"] by (simp add: option.map_comp o_def frame_id_def)
  then have "\<not> outer_frame g" using assms(3) by (cases f; cases g) (auto simp: outer_frame_def)
  then have "PopFrame st' = Inr (g, st'\<lparr>sframes := fs\<rparr>)"
    by (auto simp: PopFrame_def fs(1) outer_frame_def Let_def split: option.splits)
  then show ?thesis using fs assms(2,3) by (simp add: PushFrame_simps)
qed

lemma do_block_ok:
  fixes body :: "evalOpt \<Rightarrow> ('v, 's) state \<Rightarrow> ('v, 's) exec_result"
  assumes body: "body_ok ts body"
  shows "post (ends ts fl s) (do_block k body fl s)"
proof -
  let ?f = "(if k \<noteq> 0 then Some (Frame_new (next_addr s) k LOCAL_SCOPE) else None) :: 'v Frame option"
  let ?s = "(if k \<noteq> 0 then s\<lparr>next_addr := Suc (next_addr s)\<rparr> else s)
    \<lparr>seqr := (seqr s)\<lparr>cur_stack := PushFrame ?f (cur_stack (seqr s))\<rparr>\<rparr>"
  have s: "seqr (if k \<noteq> 0 then s\<lparr>next_addr := Suc (next_addr s)\<rparr> else s) = seqr s" by simp
  have inner: "\<not> outer_frame ?f" by (simp add: outer_frame_def Frame_new_def)
  have "post (ends ts fl s) (andthen (body fl ?s) (\<lambda>(r, fl, s'). case PopFrame (cur_stack (seqr s')) of
      Inl e \<Rightarrow> Halt (Faulted e)
    | Inr (fr, st) \<Rightarrow> if k \<noteq> 0 \<and> map_option faddr fr \<noteq> Some (next_addr s) then Halt FrameInconsistency
        else Done (r, fl, s'\<lparr>seqr := (seqr s')\<lparr>cur_stack := st\<rparr>\<rparr>)))"
  proof (rule post_andthen)
    show "post (ends ts fl ?s) (body fl ?s)" using body by (simp add: body_ok_def)
    fix x :: "'v option \<times> evalOpt \<times> ('v, 's) state"
    assume x: "ends ts fl ?s x"
    obtain r fl1 s1 where xe: "x = (r, fl1, s1)" by (cases x)
    have sh: "shape s1 = shape ?s" "line_num s1 = line_num s" "next_addr s \<le> next_addr s1"
      using x by (auto simp: xe ends_def same_frames_def split: if_splits)
    have e: "map (map_option frame_id) (sframes (cur_stack (seqr s1))) = map (map_option frame_id) (sframes (PushFrame ?f (cur_stack (seqr s))))"
      "soffsets (cur_stack (seqr s1)) = soffsets (PushFrame ?f (cur_stack (seqr s)))"
      using sh(1) unfolding shape_def by simp_all
    obtain g st where g: "PopFrame (cur_stack (seqr s1)) = Inr (g, st)" "map_option frame_id g = map_option frame_id ?f"
      "map (map_option frame_id) (sframes st) = map (map_option frame_id) (sframes (cur_stack (seqr s)))"
      "soffsets st = soffsets (cur_stack (seqr s))"
      using PopFrame_shape [OF e inner] by blast
    have "k \<noteq> 0 \<Longrightarrow> map_option faddr g = Some (next_addr s)"
      using arg_cong [OF g(2), of "map_option fst"] by (simp add: option.map_comp o_def frame_id_def Frame_new_def)
    moreover have "same_frames s (s1\<lparr>seqr := (seqr s1)\<lparr>cur_stack := st\<rparr>\<rparr>)"
      using g sh by (simp add: same_frames_def shape_def)
    ultimately show "post (ends ts fl s) (case x of (r, fl, s') \<Rightarrow> case PopFrame (cur_stack (seqr s')) of
        Inl e \<Rightarrow> Halt (Faulted e)
      | Inr (fr, st) \<Rightarrow> if k \<noteq> 0 \<and> map_option faddr fr \<noteq> Some (next_addr s) then Halt FrameInconsistency
          else Done (r, fl, s'\<lparr>seqr := (seqr s')\<lparr>cur_stack := st\<rparr>\<rparr>))"
      using x by (auto simp: xe g(1) ends_def)
  qed
  then show ?thesis unfolding do_block_def Let_def s .
qed

lemma post_ends_weaken: "post (ends ts fl s) m \<Longrightarrow> ts \<subseteq> us \<Longrightarrow> post (ends us fl s) m"
  by (erule post_mono) (rule ends_subset)

lemma if_ok:
  assumes I: "interp_ok I" and fl: "flow_bits fl = flow_word NEXT"
    and t: "\<And>b. t = Some b \<Longrightarrow> body_ok (snd b) (fst b)" and f: "\<And>b. f = Some b \<Longrightarrow> body_ok (snd b) (fst b)"
    and us: "us = {NEXT} \<union> (case t of Some b \<Rightarrow> snd b | None \<Rightarrow> {}) \<union> (case f of Some b \<Rightarrow> snd b | None \<Rightarrow> {})"
  shows "post (ends us fl s) (andthen (ReadOnlyEval I e fl s) (\<lambda>(r, fl, s). case r of
       None \<Rightarrow> Halt NullValue
     | Some v \<Rightarrow> (case bool_val I v of
         (_, Some err) \<Rightarrow> fail_with I err fl s
       | (True, None) \<Rightarrow> (case map_option fst t of Some body \<Rightarrow> body fl s | None \<Rightarrow> Done (None, fl, s))
       | (False, None) \<Rightarrow> (case map_option fst f of Some body \<Rightarrow> body fl s | None \<Rightarrow> Done (None, fl, s)))))"
proof (rule post_andthen [OF interp_okD(7) [OF I]])
  fix x :: "'c option \<times> evalOpt \<times> ('c, 'd) state"
  assume x: "keeps fl s x"
  obtain r fl1 s1 where xe: "x = (r, fl1, s1)" by (cases x)
  have fl1: "flow_bits fl1 = flow_word NEXT" using x fl by (simp add: xe keeps_def)
  have fail: "post (ends us fl1 s1) (fail_with I err fl1 s1)" for err
    by (rule post_keeps_ends [OF keeps_fail [OF I] fl1]) (simp add: us)
  have none: "ends us fl1 s1 (None, fl1, s1)" using fl1 by (auto simp: ends_def us)
  have tb: "post (ends us fl1 s1) (case map_option fst t of Some body \<Rightarrow> body fl1 s1 | None \<Rightarrow> Done (None, fl1, s1))"
  proof (cases t)
    case (Some b)
    have "post (ends (snd b) fl1 s1) (fst b fl1 s1)" using t [OF Some] by (simp add: body_ok_def)
    then have "post (ends us fl1 s1) (fst b fl1 s1)" by (rule post_ends_weaken) (auto simp: us Some)
    then show ?thesis using Some by simp
  qed (use none in simp)
  have fb: "post (ends us fl1 s1) (case map_option fst f of Some body \<Rightarrow> body fl1 s1 | None \<Rightarrow> Done (None, fl1, s1))"
  proof (cases f)
    case (Some b)
    have "post (ends (snd b) fl1 s1) (fst b fl1 s1)" using f [OF Some] by (simp add: body_ok_def)
    then have "post (ends us fl1 s1) (fst b fl1 s1)" by (rule post_ends_weaken) (auto simp: us Some)
    then show ?thesis using Some by simp
  qed (use none in simp)
  show "post (ends us fl s) (case x of (r, fl, s) \<Rightarrow> case r of
       None \<Rightarrow> Halt NullValue
     | Some v \<Rightarrow> (case bool_val I v of
         (_, Some err) \<Rightarrow> fail_with I err fl s
       | (True, None) \<Rightarrow> (case map_option fst t of Some body \<Rightarrow> body fl s | None \<Rightarrow> Done (None, fl, s))
       | (False, None) \<Rightarrow> (case map_option fst f of Some body \<Rightarrow> body fl s | None \<Rightarrow> Done (None, fl, s))))"
  proof (cases r)
    case (Some v)
    obtain b err where bv: "bool_val I v = (b, err)" by fastforce
    show ?thesis
      using post_ends_after [OF x [unfolded xe]] fail tb fb unfolding xe prod.case Some option.case bv
      by (cases err; cases b) simp_all
  qed (simp add: xe frame_fault_def)
qed

lemma seq_ok:
  assumes a: "body_ok ts a" and b: "body_ok us b"
  shows "post (ends ((ts - {NEXT}) \<union> (if NEXT \<in> ts then us else {})) fl s)
    (andthen (a (clear_ret VALUE_NEEDED fl) s) (\<lambda>(r, fl', s').
       let fl' = assign_opt fl' fl in if flow_is NEXT fl' then b fl' s' else Done (r, fl', s')))"
    (is "post (ends ?ws fl s) _")
proof (rule post_andthen)
  show "post (ends ts (clear_ret VALUE_NEEDED fl) s) (a (clear_ret VALUE_NEEDED fl) s)" using a by (simp add: body_ok_def)
  fix x :: "'a option \<times> evalOpt \<times> ('a, 'b) state"
  assume x: "ends ts (clear_ret VALUE_NEEDED fl) s x"
  obtain r fl1 s1 where xe: "x = (r, fl1, s1)" by (cases x)
  obtain t where t: "t \<in> ts" "flow_bits fl1 = flow_word t" using x by (auto simp: xe ends_def)
  let ?fl = "assign_opt fl1 fl"
  have bits: "flow_bits ?fl = flow_word t" "value_bit ?fl = value_bit fl" using t by (simp_all add: flag_rules)
  have sf: "same_frames s s1" using x by (simp add: xe ends_def)
  have rest: "post (ends us ?fl s1) (b ?fl s1)" using b by (simp add: body_ok_def)
  show "post (ends ?ws fl s) (case x of (r, fl', s') \<Rightarrow>
      let fl' = assign_opt fl' fl in if flow_is NEXT fl' then b fl' s' else Done (r, fl', s'))"
  proof (cases "t = NEXT")
    case True
    have "post (ends ?ws fl s) (b ?fl s1)"
      by (rule post_mono [OF rest]) (use True t sf bits in \<open>auto simp: ends_def intro: same_frames_trans\<close>)
    then show ?thesis using True flow_is_bits [OF bits(1)] by (simp add: xe Let_def)
  next
    case False
    then show ?thesis using t bits sf flow_is_bits [OF bits(1)] by (auto simp: xe Let_def ends_def)
  qed
qed

lemma exit_ok:
  assumes I: "interp_ok I"
  shows "post (ends {} fl s) (case e of None \<Rightarrow> Halt (Exited 0)
    | Some e \<Rightarrow> andthen (CopyEval I e fl s) (\<lambda>(r, fl, s). case r of
        None \<Rightarrow> Halt NullValue | Some v \<Rightarrow> Halt (Exited (int_val I v))))"
proof -
  have "post (ends {} fl s) (andthen (CopyEval I x fl s) (\<lambda>(r, fl, s). case r of
      None \<Rightarrow> Halt NullValue | Some v \<Rightarrow> Halt (Exited (int_val I v))))" for x
    by (rule post_andthen [OF interp_okD(6) [OF I]]) (auto simp: frame_fault_def split: option.split)
  then show ?thesis by (cases e) (simp_all add: frame_fault_def)
qed

lemma return_ok:
  assumes I: "interp_ok I"
  shows "post (ends {RETURN} fl s)
    (case e of Some e \<Rightarrow> CopyEval I e (set_flow RETURN fl) s | None \<Rightarrow> Done (None, set_flow RETURN fl, s))"
proof -
  have b: "flow_bits (set_flow RETURN fl) = flow_word RETURN" "value_bit (set_flow RETURN fl) = value_bit fl"
    by (simp_all add: flag_rules)
  have "post (ends {RETURN} (set_flow RETURN fl) s) (CopyEval I x (set_flow RETURN fl) s)" for x
    by (rule post_keeps_ends [OF interp_okD(6) [OF I] b(1)]) simp
  then have "post (ends {RETURN} fl s) (CopyEval I x (set_flow RETURN fl) s)" for x
    unfolding ends_def b(2) .
  then show ?thesis using b by (cases e) (simp_all add: ends_def)
qed

text \<open>Every statement ends in one of its ways and keeps the rest.\<close>

lemma exec_body_ok:
  fixes I :: "('e, 'p, 'v, 's) interp"
  assumes I: "interp_ok I"
  shows "body_ok (exits st) (exec I n st)"
proof (induction st)
  case (SeqStmt l a b)
  show ?case unfolding exec_defs exits.simps by (rule Exec_ok) (rule seq_ok [OF SeqStmt.IH])
next
  case (ActivateStmt l act e)
  show ?case unfolding exec_defs exits.simps
    by (rule Exec_ok) (rule post_keeps_ends [OF do_activate_ok [OF I]], assumption, simp)
next
  case (IfStmt l e t f)
  let ?p = "map_option (\<lambda>b. (exec I n b, exits b))"
  have eq: "map_option (exec I n) x = map_option fst (?p x)" for x by (cases x) simp_all
  have ex: "exits (IfStmt l e t f) = {NEXT} \<union> (case ?p t of Some b \<Rightarrow> snd b | None \<Rightarrow> {}) \<union> (case ?p f of Some b \<Rightarrow> snd b | None \<Rightarrow> {})"
    by (cases t; cases f) simp_all
  show ?case
    unfolding exec_defs eq
    by (rule Exec_ok, rule if_ok [OF I, where t = "?p t" and f = "?p f"]) (use IfStmt.IH ex in auto)
next
  case (ForStmt l i r b)
  show ?case unfolding exec_defs exits.simps
    by (rule Exec_ok) (use do_for_ok [OF I ForStmt.IH] in simp)
next
  case (WhileStmt l t b)
  show ?case unfolding exec_defs exits.simps
  proof (rule Exec_ok)
    fix fl and s :: "('v, 's) state"
    assume "flow_bits fl = flow_word NEXT"
    then have "post (ends (insert NEXT (exits b)) fl s) (while_loop n I t (exec I n b) None fl s)"
      using while_loop_ok [OF I WhileStmt.IH refl] by simp
    then show "post (ends ({NEXT} \<union> (exits b \<inter> {RETURN})) fl s) (andthen (while_loop n I t (exec I n b) None fl s) loop_done)"
      by (rule post_andthen) (use loop_done_ok in simp)
  qed
next
  case (FailStmt l e)
  show ?case unfolding exec_defs exits.simps by (rule Exec_ok) (rule do_fail_ok [OF I])
next
  case (ExprStmt l e)
  show ?case unfolding exec_defs exits.simps
    by (rule Exec_ok, rule post_keeps_ends [of _ _ _ NEXT]) (use interp_okD(2,6) [OF I] in auto)
next
  case (ExitStmt l e)
  show ?case unfolding exec_defs exits.simps by (rule Exec_ok) (rule exit_ok [OF I])
next
  case (ReturnStmt l e)
  show ?case unfolding exec_defs exits.simps Let_def by (rule Exec_ok) (rule return_ok [OF I])
next
  case (StmtBlock l k b)
  show ?case unfolding exec_defs exits.simps by (rule Exec_ok) (rule do_block_ok [OF StmtBlock.IH])
next
  case (PrimStmt l p)
  show ?case unfolding exec_defs exits.simps by (rule Exec_ok) (rule interp_okD(4) [OF I])
next
  case (LoopStmt l)
  show ?case unfolding exec_defs exits.simps by (rule Exec_ok) (simp add: ends_def flag_rules)
next
  case (BreakStmt l)
  show ?case unfolding exec_defs exits.simps by (rule Exec_ok) (simp add: ends_def flag_rules)
next
  case (NullStmt l)
  show ?case unfolding exec_defs exits.simps by (rule Exec_ok) (simp add: ends_def flag_rules)
qed

section \<open>Fuel\<close>

text \<open>A computation that is defined further: it differs only where the first one ran out of fuel.\<close>

definition extends :: "'a comp \<Rightarrow> 'a comp \<Rightarrow> bool" where
  "extends m m' \<longleftrightarrow> m = Timeout \<or> m' = m"

lemma extends_refl [simp]: "extends m m"
  by (simp add: extends_def)

lemma extends_andthen: "extends m m' \<Longrightarrow> (\<And>x. extends (f x) (f' x)) \<Longrightarrow> extends (andthen m f) (andthen m' f')"
  unfolding extends_def by (cases m) auto

definition body_extends :: "(evalOpt \<Rightarrow> ('v, 's) state \<Rightarrow> ('v, 's) exec_result) \<Rightarrow> (evalOpt \<Rightarrow> ('v, 's) state \<Rightarrow> ('v, 's) exec_result) \<Rightarrow> bool" where
  "body_extends b b' \<longleftrightarrow> (\<forall>fl s. extends (b fl s) (b' fl s))"

lemma Exec_extends: "body_extends b b' \<Longrightarrow> body_extends (Exec l b) (Exec l b')"
  unfolding body_extends_def Exec_def Let_def by (auto intro: extends_andthen)

lemma for_loop_extends:
  "body_extends b b' \<Longrightarrow> extends (for_loop I index rng b is r fl s) (for_loop I index rng b' is r fl s)"
proof (induction "is" arbitrary: r fl s)
  case (Cons i "is")
  then show ?case
    unfolding for_loop.simps Let_def
    by (intro extends_andthen) (auto simp: body_extends_def intro!: extends_andthen)
qed simp

lemma while_loop_extends:
  "body_extends b b' \<Longrightarrow> n \<le> m \<Longrightarrow> extends (while_loop n I test b r fl s) (while_loop m I test b' r fl s)"
proof (induction n arbitrary: m r fl s)
  case 0
  then show ?case by (simp add: extends_def)
next
  case (Suc n)
  then obtain k where k: "m = Suc k" "n \<le> k" by (cases m) auto
  show ?case
    unfolding k(1) while_loop.simps Let_def
    by (intro extends_andthen)
      (use Suc k(2) in \<open>auto simp: body_extends_def split: prod.split option.split bool.split intro!: extends_andthen\<close>)
qed

lemma exec_extends: "n \<le> m \<Longrightarrow> body_extends (exec I n st) (exec I m st)"
proof (induction st)
  case (SeqStmt l a b)
  then show ?case
    unfolding exec_defs Let_def
    by (intro Exec_extends) (auto simp: body_extends_def intro!: extends_andthen)
next
  case (IfStmt l e t f)
  have "extends (case map_option (exec I n) x of Some body \<Rightarrow> body fl s | None \<Rightarrow> Done (None, fl, s))
      (case map_option (exec I m) x of Some body \<Rightarrow> body fl s | None \<Rightarrow> Done (None, fl, s))"
    if "\<And>b. x = Some b \<Longrightarrow> body_extends (exec I n b) (exec I m b)" for x fl s
    using that by (cases x) (auto simp: body_extends_def)
  then show ?case
    unfolding exec_defs
    by (intro Exec_extends)
      (use IfStmt in \<open>auto simp: body_extends_def split: prod.split option.split bool.split intro!: extends_andthen\<close>)
next
  case (ForStmt l i r b)
  then have "extends (for_loop I i v (exec I n b) is x fl s) (for_loop I i v (exec I m b) is x fl s)" for v "is" x fl s
    by (intro for_loop_extends) simp
  then show ?case
    unfolding exec_defs do_for_def
    by (intro Exec_extends) (auto simp: body_extends_def simp del: upt_Suc split: option.split intro!: extends_andthen)
next
  case (WhileStmt l t b)
  then have "extends (while_loop n I t (exec I n b) x fl s) (while_loop m I t (exec I m b) x fl s)" for x fl s
    by (intro while_loop_extends) simp_all
  then show ?case
    unfolding exec_defs by (intro Exec_extends) (auto simp: body_extends_def intro!: extends_andthen)
next
  case (StmtBlock l k b)
  then show ?case
    unfolding exec_defs do_block_def Let_def
    by (intro Exec_extends) (auto simp: body_extends_def intro!: extends_andthen)
qed (simp_all add: body_extends_def)

text \<open>Statements without \<open>while\<close>, and interpreters whose methods return.\<close>

primrec while_free :: "('e, 'p) Stmt \<Rightarrow> bool" where
  "while_free (SeqStmt l a b) \<longleftrightarrow> while_free a \<and> while_free b"
| "while_free (ActivateStmt l act e) \<longleftrightarrow> True"
| "while_free (IfStmt l e t f) \<longleftrightarrow> (case map_option while_free t of Some x \<Rightarrow> x | None \<Rightarrow> True)
     \<and> (case map_option while_free f of Some x \<Rightarrow> x | None \<Rightarrow> True)"
| "while_free (ForStmt l i r b) \<longleftrightarrow> while_free b"
| "while_free (WhileStmt l t b) \<longleftrightarrow> False"
| "while_free (FailStmt l e) \<longleftrightarrow> True"
| "while_free (ExprStmt l e) \<longleftrightarrow> True"
| "while_free (ExitStmt l e) \<longleftrightarrow> True"
| "while_free (LoopStmt l) \<longleftrightarrow> True"
| "while_free (BreakStmt l) \<longleftrightarrow> True"
| "while_free (ReturnStmt l e) \<longleftrightarrow> True"
| "while_free (StmtBlock l k b) \<longleftrightarrow> while_free b"
| "while_free (NullStmt l) \<longleftrightarrow> True"
| "while_free (PrimStmt l p) \<longleftrightarrow> True"

definition returns :: "'a comp \<Rightarrow> bool" where
  "returns m \<longleftrightarrow> m \<noteq> Timeout"

definition interp_returns :: "('e, 'p, 'v, 's) interp \<Rightarrow> bool" where
  "interp_returns I \<longleftrightarrow> (\<forall>e fl s. returns (eval I e fl s) \<and> returns (side_effects_eval I e fl s))
     \<and> (\<forall>e v fl s. returns (assign_to I e v fl s)) \<and> (\<forall>p fl s. returns (prim_exec I p fl s))"

lemma returns_simps [simp]: "returns (Done x)" "returns (Halt h)" "\<not> returns Timeout"
  by (simp_all add: returns_def)

lemma andthen_returns: "returns m \<Longrightarrow> (\<And>x. returns (f x)) \<Longrightarrow> returns (andthen m f)"
  by (cases m) auto

definition body_returns :: "(evalOpt \<Rightarrow> ('v, 's) state \<Rightarrow> ('v, 's) exec_result) \<Rightarrow> bool" where
  "body_returns b \<longleftrightarrow> (\<forall>fl s. returns (b fl s))"

lemma Exec_returns: "body_returns b \<Longrightarrow> body_returns (Exec l b)"
  unfolding body_returns_def Exec_def Let_def by (auto intro!: andthen_returns)

lemma fail_returns [simp]: "returns (fail_with I m fl s)"
  by (simp add: fail_with_def case_prod_unfold Let_def)

lemma eval_returns:
  "interp_returns I \<Longrightarrow> returns (CopyEval I e fl s)" "interp_returns I \<Longrightarrow> returns (ReadOnlyEval I e fl s)"
  by (simp_all add: interp_returns_def CopyEval_def ReadOnlyEval_def)

lemma for_loop_returns:
  "interp_returns I \<Longrightarrow> body_returns b \<Longrightarrow> returns (for_loop I index rng b is r fl s)"
proof (induction "is" arbitrary: r fl s)
  case (Cons i "is")
  then show ?case
    unfolding for_loop.simps Let_def
    by (intro andthen_returns) (auto simp: interp_returns_def body_returns_def intro!: andthen_returns)
qed simp

lemma exec_returns: "interp_returns I \<Longrightarrow> while_free st \<Longrightarrow> body_returns (exec I n st)"
proof (induction st)
  case (SeqStmt l a b)
  then show ?case
    unfolding exec_defs Let_def
    by (intro Exec_returns) (auto simp: body_returns_def intro!: andthen_returns)
next
  case (ActivateStmt l act e)
  then show ?case
    unfolding exec_defs
    by (intro Exec_returns)
      (auto simp: body_returns_def do_activate_def eval_returns split: option.split intro!: andthen_returns)
next
  case (IfStmt l e t f)
  have "returns (case map_option (exec I n) x of Some body \<Rightarrow> body fl s | None \<Rightarrow> Done (None, fl, s))"
    if "\<And>b. x = Some b \<Longrightarrow> body_returns (exec I n b)" for x fl s
    using that by (cases x) (auto simp: body_returns_def)
  moreover have "t = Some b \<Longrightarrow> while_free b" "f = Some b \<Longrightarrow> while_free b" for b using IfStmt.prems(2) by auto
  ultimately show ?case
    unfolding exec_defs using IfStmt
    by (intro Exec_returns)
      (auto simp: body_returns_def eval_returns split: prod.split option.split bool.split intro!: andthen_returns)
next
  case (ForStmt l i r b)
  then have "returns (for_loop I i v (exec I n b) is x fl s)" for v "is" x fl s
    by (intro for_loop_returns) simp_all
  then show ?case
    unfolding exec_defs do_for_def using ForStmt.prems(1)
    by (intro Exec_returns)
      (auto simp: body_returns_def eval_returns loop_done_def simp del: upt_Suc split: option.split intro!: andthen_returns)
next
  case (FailStmt l e)
  then show ?case
    unfolding exec_defs
    by (intro Exec_returns)
      (auto simp: body_returns_def do_fail_def eval_returns Let_def split: option.split intro!: andthen_returns)
next
  case (ExitStmt l e)
  then show ?case
    unfolding exec_defs
    by (intro Exec_returns) (auto simp: body_returns_def eval_returns split: option.split intro!: andthen_returns)
next
  case (StmtBlock l k b)
  then show ?case
    unfolding exec_defs do_block_def Let_def
    by (intro Exec_returns) (auto simp: body_returns_def split: sum.split prod.split intro!: andthen_returns)
next
  case (ExprStmt l e)
  then show ?case
    unfolding exec_defs
    by (intro Exec_returns) (auto simp: body_returns_def interp_returns_def eval_returns)
next
  case (ReturnStmt l e)
  then show ?case
    unfolding exec_defs
    by (intro Exec_returns) (auto simp: body_returns_def eval_returns Let_def split: option.split)
next
  case (PrimStmt l p)
  then show ?case
    unfolding exec_defs
    by (intro Exec_returns) (auto simp: body_returns_def interp_returns_def)
next
  case (LoopStmt l)
  then show ?case unfolding exec_defs by (intro Exec_returns) (simp add: body_returns_def)
next
  case (BreakStmt l)
  then show ?case unfolding exec_defs by (intro Exec_returns) (simp add: body_returns_def)
next
  case (NullStmt l)
  then show ?case unfolding exec_defs by (intro Exec_returns) (simp add: body_returns_def)
qed simp


text \<open>A loop whose iterations decrease a measure of the state returns, given enough fuel.\<close>

lemma while_loop_returns:
  assumes I: "interp_returns I" and body: "body_returns b"
    and less: "\<And>fl s v fl1 s1 r2 fl2 s2. ReadOnlyEval I t fl s = Done (Some v, fl1, s1) \<Longrightarrow> bool_val I v = (True, None) \<Longrightarrow>
      b (clear_ret VALUE_NEEDED fl1) s1 = Done (r2, fl2, s2) \<Longrightarrow> (m s2 :: nat) < m s"
  shows "m s < n \<Longrightarrow> returns (while_loop n I t b r fl s)"
proof (induction n arbitrary: r fl s)
  case (Suc n)
  show ?case
  proof (cases "ReadOnlyEval I t fl s")
    case (Done x)
    obtain o1 fl1 s1 where x: "x = (o1, fl1, s1)" by (cases x)
    have "returns (andthen (b (clear_ret VALUE_NEEDED fl1) s1) (\<lambda>(r, fl, s).
        let fl = (if value_needed fl1 then set_ret VALUE_NEEDED fl else fl) in
        if flow_is BREAK fl \<or> flow_is RETURN fl then Done (r, fl, s) else while_loop n I t b r fl s))"
      if v: "o1 = Some v" "bool_val I v = (True, None)" for v
    proof (cases "b (clear_ret VALUE_NEEDED fl1) s1")
      case d: (Done y)
      obtain r2 fl2 s2 where y: "y = (r2, fl2, s2)" by (cases y)
      have "m s2 < n" using less [of fl s v fl1 s1 r2 fl2 s2] Done x v d y Suc.prems by simp
      then show ?thesis using Suc.IH [of s2 r2] by (simp add: d y Let_def)
    qed (use body in \<open>auto simp: body_returns_def returns_def\<close>)
    then show ?thesis
      unfolding while_loop.simps Done x andthen.simps prod.case Let_def
      by (cases o1) (auto split: prod.split option.split bool.split)
  qed (use eval_returns(2) [OF I] in \<open>auto simp: returns_def\<close>)
qed simp

text \<open>
  An interpreter to run examples with: an expression is a number and evaluates to itself, zero to a
  counter in the state; evaluating for side effects decreases the counter and assigning sets it.
\<close>

definition number_interp :: "(int, unit, int, nat) interp" where
  "number_interp = \<lparr>eval = \<lambda>e fl s. Done (Some (if e = 0 then int (world s) else e), fl, s),
     side_effects_eval = \<lambda>e fl s. Done (None, fl, s\<lparr>world := world s - 1\<rparr>),
     assign_to = \<lambda>e v fl s. Done (None, fl, s\<lparr>world := nat v\<rparr>),
     invisible = \<lambda>e. False, prim_exec = \<lambda>p fl s. Done (None, set_flow NEXT fl, s),
     fail_value = \<lambda>m s. (-1, s), set_fail_message = \<lambda>v m. v, bool_val = \<lambda>v. (v \<noteq> 0, None), int_val = \<lambda>v. v,
     is_numeric = \<lambda>v. True, is_string = \<lambda>v. False, is_record = \<lambda>v. False, int_ptr = \<lambda>v. [v],
     vlength = \<lambda>v. nat v, nth_field = \<lambda>v i. v, element = \<lambda>v i. int i\<rparr>"

lemma number_interp_ok: "interp_ok number_interp"
  by (auto simp: interp_ok_def number_interp_def keeps_def ends_def same_frames_def shape_def flag_rules)

lemma number_interp_returns: "interp_returns number_interp"
  by (simp add: interp_returns_def number_interp_def)

definition start :: "nat \<Rightarrow> (int, nat) state" where
  "start c = \<lparr>seqr = Sequencer_init, next_addr = 0, line_num = 0, registered_stmts = [], last_note = None,
     last_fail = None, world = c\<rparr>"

text \<open>The flags a sequence hands to its second part after a first part that does nothing.\<close>

lemma exec_Exec: "\<exists>D. exec I n b = Exec (Line b) D"
  by (cases b) auto

lemma set_flow_idem: "set_flow t (set_flow t fl) = set_flow t fl"
proof -
  have "(m AND NOT c OR w) AND NOT c OR w = m AND NOT c OR w" for m c w :: u16
    by (rule bit_word_eqI) (auto simp: bit_simps)
  then have "opt_mask (set_flow t (set_flow t fl)) = opt_mask (set_flow t fl)" by (simp only: masks)
  then show ?thesis by (simp add: set_flow_def)
qed

lemma seq_flags: "assign_opt (set_flow NEXT (clear_ret VALUE_NEEDED (set_flow NEXT fl))) (set_flow NEXT fl) = set_flow NEXT fl"
    (is "assign_opt ?b ?a = ?a")
proof -
  have "m AND NOT c OR m AND c = m" for m c :: u16 by (rule bit_word_eqI) (auto simp: bit_simps)
  then have "opt_mask ?a AND NOT 0x1e0 OR flow_bits ?a = opt_mask ?a" unfolding flow_bits_def .
  moreover have "flow_bits ?b = flow_bits ?a" by (simp only: flags_set_flow)
  ultimately have "opt_mask (assign_opt ?b ?a) = opt_mask ?a" unfolding masks(5) flow_bits_def by simp
  then show ?thesis by (simp add: assign_opt_def set_flow_def clear_ret_def)
qed

lemma andthen_assoc: "andthen (andthen m f) g = andthen m (\<lambda>x. andthen (f x) g)"
  by (cases m) simp_all

section \<open>Properties\<close>







text \<open>
  C17: A \<open>while\<close> loop returns if its test and its body do and every iteration decreases a measure of the
  state; and the result of an execution that returns does not depend on the fuel.
\<close>
theorem while_terminates:
  assumes I: "interp_returns I" and body: "body_returns (exec I k b)"
    and less: "\<forall>fl s v fl1 s1 r2 fl2 s2. ReadOnlyEval I t fl s = Done (Some v, fl1, s1) \<and> bool_val I v = (True, None)
      \<and> exec I k b (clear_ret VALUE_NEEDED fl1) s1 = Done (r2, fl2, s2) \<longrightarrow> (m s2 :: nat) < m s"
  shows "\<exists>n res. res \<noteq> Timeout \<and> (\<forall>n' \<ge> n. exec I n' (WhileStmt l t b) fl s = res)"
proof -
  let ?s = "s\<lparr>line_num := l\<rparr>" and ?fl = "set_flow NEXT fl"
  define n where "n = max k (Suc (m ?s))"
  have "returns (while_loop (Suc (m ?s)) I t (exec I k b) None ?fl ?s)"
    by (rule while_loop_returns [OF I body, of t m]) (use less in blast, simp)
  moreover have "extends (while_loop (Suc (m ?s)) I t (exec I k b) None ?fl ?s) (while_loop n I t (exec I n b) None ?fl ?s)"
    by (rule while_loop_extends) (auto simp: n_def intro: exec_extends)
  ultimately have "returns (while_loop n I t (exec I n b) None ?fl ?s)" by (auto simp: extends_def returns_def)
  then have ret: "exec I n (WhileStmt l t b) fl s \<noteq> Timeout"
    unfolding exec_defs Exec_def Let_def returns_def [symmetric]
    by (intro andthen_returns) (auto simp: loop_done_def)
  have "exec I n' (WhileStmt l t b) fl s = exec I n (WhileStmt l t b) fl s" if "n \<le> n'" for n'
    using exec_extends [OF that, of I "WhileStmt l t b"] ret by (auto simp: body_extends_def extends_def)
  then show ?thesis using ret by blast
qed

theorem while_terminates_witness:
  "\<exists>n res. res \<noteq> Timeout \<and> exec number_interp n (WhileStmt 1 0 (ExprStmt 2 1)) evalOpt_new (start 3) = res"
proof -
  have body: "body_returns (exec number_interp 0 (ExprStmt 2 1))"
    by (rule exec_returns [OF number_interp_returns]) simp
  have "\<forall>fl s v fl1 s1 r2 fl2 s2. ReadOnlyEval number_interp 0 fl s = Done (Some v, fl1, s1) \<and> bool_val number_interp v = (True, None)
      \<and> exec number_interp 0 (ExprStmt 2 1) (clear_ret VALUE_NEEDED fl1) s1 = Done (r2, fl2, s2) \<longrightarrow> world s2 < world s"
  proof (intro allI impI, elim conjE)
    fix fl v fl1 r2 fl2 and s s1 s2 :: "(int, nat) state"
    assume a: "ReadOnlyEval number_interp 0 fl s = Done (Some v, fl1, s1)" "bool_val number_interp v = (True, None)"
      "exec number_interp 0 (ExprStmt 2 1) (clear_ret VALUE_NEEDED fl1) s1 = Done (r2, fl2, s2)"
    have s1: "s1 = s" "0 < world s" using a(1,2) by (auto simp: ReadOnlyEval_def number_interp_def)
    have "value_bit (set_flow NEXT (clear_ret VALUE_NEEDED fl1)) = 0" by (simp add: flag_rules)
    then have "world s2 = world s1 - 1"
      using a(3) by (auto simp: Exec_def do_expr_def value_needed_bit number_interp_def)
    then show "world s2 < world s" using s1 by simp
  qed
  from while_terminates [OF number_interp_returns body this] show ?thesis by blast
qed

text \<open>
  A null statement in front of a statement changes nothing, so that \<open>merge_stmts\<close> may drop it: the
  merged statement and the sequence give the same result, flags and state.
\<close>
theorem merge_null_first:
  "exec I n (merge_stmts l (NullStmt l') b) fl s = exec I n (SeqStmt l (NullStmt l') b) fl s"
proof -
  obtain D where D: "exec I n b = Exec (Line b) D" using exec_Exec by blast
  have f: "flow_is NEXT (set_flow NEXT fl)" using flow_is_bits [of "set_flow NEXT fl" NEXT] by (simp add: flag_rules)
  have "exec I n (SeqStmt l (NullStmt l') b) fl s = Exec (Line b) D fl s"
    by (simp add: do_seq_def do_null_def D Exec_def f seq_flags set_flow_idem andthen_assoc case_prod_unfold Let_def)
  then show ?thesis by (simp add: merge_stmts_def D)
qed

text \<open>
  Clearing the value-needed flag clears every flag below it as well: \<open>~1<<t\<close> is not the complement
  of \<open>1<<t\<close>. After it no flow flag is set and no evaluation mode is left; the flags above it stay.
\<close>
theorem clear_clears_all:
  "opt_mask (clear_ret VALUE_NEEDED fl) = opt_mask fl AND 0xfc00 \<and> \<not> flow_is t (clear_ret VALUE_NEEDED fl)
    \<and> opt_mask (clear_ret VALUE_NEEDED fl) AND expr_word e = 0"
proof -
  have f: "0xfc00 AND flow_word t = 0" by (cases t) (simp_all add: flow_word_cases)
  have "0xfc00 AND expr_word e = 0" by (cases e) (simp_all add: expr_word_def push_bit_eq_mult)
  moreover have "\<not> flow_is t (clear_ret VALUE_NEEDED fl)"
    unfolding flow_is_def flow_word_def [symmetric] masks word_bw_assocs f by simp
  ultimately show ?thesis by (simp add: masks word_bw_assocs)
qed

end
