(* ===== verification/Glish_Call.thy ===== *)
theory Glish_Call
  imports Glish_Stmt
begin

text \<open>
  Calling a function written in Glish (\<open>glish/Func.cc\<close>, the frames of \<open>VarExpr\<close> in \<open>glish/Expr.cc\<close>): the
  actual parameters are matched with the formal ones by position and by name, values are computed for
  the formals in a frame that is not yet on the stack, and the body runs with that frame on top. While
  parameters are evaluated, the variable of each formal refers to the frame under construction, so that
  a default value can use the parameters before it. Functions that captured a stack of frames and
  subsequences are left out, as is the bookkeeping for the collection of cycles.
\<close>

section \<open>Parameters\<close>

datatype value_reftype = VAL_CONST | VAL_REF | VAL_VAL

text \<open>
  The argument of an actual parameter is an expression, none for an empty one; that of a formal
  parameter is the variable it binds.
\<close>

record ('e, 'x) Parameter =
  pname :: "string option"
  parm_type :: value_reftype
  parg :: 'x
  is_ellipsis :: bool
  default_value :: "'e option"
  is_empty :: bool

text \<open>A variable object has an identity, as it keeps a stack of frames of its own.\<close>

record formal_var =
  v_id :: nat
  v_var :: VarExpr

type_synonym 'e formal = "('e, formal_var) Parameter"
type_synonym 'e actual = "('e, 'e option) Parameter"

definition FormalParameter :: "string \<Rightarrow> value_reftype \<Rightarrow> formal_var \<Rightarrow> 'e option \<Rightarrow> 'e formal" where
  "FormalParameter x t v d = \<lparr>pname = Some x, parm_type = t, parg = v, is_ellipsis = False, default_value = d, is_empty = False\<rparr>"

definition FormalEllipsis :: "formal_var \<Rightarrow> 'e option \<Rightarrow> 'e formal" where
  "FormalEllipsis v d = \<lparr>pname = None, parm_type = VAL_CONST, parg = v, is_ellipsis = True, default_value = d, is_empty = False\<rparr>"

definition ActualParameter :: "string option \<Rightarrow> 'e \<Rightarrow> 'e actual" where
  "ActualParameter x e = \<lparr>pname = x, parm_type = VAL_VAL, parg = Some e, is_ellipsis = False,
     default_value = (if x = None then None else Some e), is_empty = False\<rparr>"

definition ActualEllipsis :: "'e \<Rightarrow> 'e actual" where
  "ActualEllipsis e = \<lparr>pname = None, parm_type = VAL_VAL, parg = Some e, is_ellipsis = True, default_value = None, is_empty = False\<rparr>"

definition ActualMissing :: "'e actual" where
  "ActualMissing = \<lparr>pname = None, parm_type = VAL_VAL, parg = None, is_ellipsis = False, default_value = None, is_empty = True\<rparr>"

section \<open>State\<close>

text \<open>
  The part of the world that calls use: for every variable object the frames it refers to while
  parameters are evaluated (the last one counts, unless they are on hold), the frames under construction
  by address, what is known of the missing parameters of a frame, and the stack of failures.
\<close>

record ('v, 'w) call_world =
  vframes :: "nat \<Rightarrow> nat list"
  vhold :: "nat \<Rightarrow> bool"
  cframes :: "nat \<Rightarrow> 'v option list"
  missing_info :: "nat \<Rightarrow> bool list"
  fail_stack :: "'v list list"
  call_rest :: 'w

type_synonym ('v, 'w) cstate = "('v, ('v, 'w) call_world) state"
type_synonym ('v, 'w) call_result = "('v option \<times> evalOpt \<times> ('v, 'w) cstate) comp"

text \<open>The methods of expressions and values that calls use beside those of statements.\<close>

record ('e, 'v, 'w) call_ops =
  ref_eval :: "'e \<Rightarrow> value_reftype \<Rightarrow> evalOpt \<Rightarrow> ('v, 'w) cstate \<Rightarrow> ('v, 'w) call_result"
  is_fail :: "'v \<Rightarrow> bool"
  fail_marked :: "'v \<Rightarrow> bool"
  is_const :: "'v \<Rightarrow> bool"
  make_const :: "'v \<Rightarrow> 'v"
  const_ref :: "'v \<Rightarrow> 'v"
  copy_value :: "'v \<Rightarrow> 'v"
  irecord :: "(string \<times> 'v) list \<Rightarrow> 'v"
  record_ptr :: "'v \<Rightarrow> (string \<times> 'v) list"
  absent_field :: 'v
  FrameOffset :: "'e \<Rightarrow> int"
  stack_limit :: int
  stack_len :: nat
  suppress_auto_fail :: bool

abbreviation set_world :: "(('v, 'w) call_world \<Rightarrow> ('v, 'w) call_world) \<Rightarrow> ('v, 'w) cstate \<Rightarrow> ('v, 'w) cstate" where
  "set_world f s \<equiv> s\<lparr>world := f (world s)\<rparr>"

section \<open>Variables and frames under construction\<close>

definition VarExpr_PushFrame :: "formal_var \<Rightarrow> nat \<Rightarrow> ('v, 'w) cstate \<Rightarrow> ('v, 'w) cstate" where
  "VarExpr_PushFrame x a = set_world (\<lambda>w. w\<lparr>vframes := (vframes w)(v_id x := vframes w (v_id x) @ [a]), vhold := (vhold w)(v_id x := False)\<rparr>)"

definition VarExpr_PopFrame :: "formal_var \<Rightarrow> ('v, 'w) cstate \<Rightarrow> ('v, 'w) cstate" where
  "VarExpr_PopFrame x = set_world (\<lambda>w. w\<lparr>vframes := (vframes w)(v_id x := butlast (vframes w (v_id x))), vhold := (vhold w)(v_id x := True)\<rparr>)"

definition ReleaseFrames :: "formal_var \<Rightarrow> ('v, 'w) cstate \<Rightarrow> ('v, 'w) cstate" where
  "ReleaseFrames x = set_world (\<lambda>w. w\<lparr>vhold := (vhold w)(v_id x := False)\<rparr>)"

definition in_frame :: "formal_var \<Rightarrow> ('v, 'w) cstate \<Rightarrow> nat option" where
  "in_frame x s = (let fs = vframes (world s) (v_id x) in if fs \<noteq> [] \<and> \<not> vhold (world s) (v_id x) then Some (last fs) else None)"

definition frame_index :: "formal_var \<Rightarrow> nat \<Rightarrow> ('v, 'w) cstate \<Rightarrow> fault + nat" where
  "frame_index x a s = (let i = foffset (v_var x) in if i < 0 \<or> i \<ge> int (length (cframes (world s) a))
     then Inl (Fatal ''bad offset in Frame::FrameElement'') else Inr (nat i))"

text \<open>Where the variable finds its value: \<open>None\<close> is the null pointer.\<close>

definition VarExpr_Find :: "formal_var \<Rightarrow> ('v, 'w) cstate \<Rightarrow> fault + 'v option" where
  "VarExpr_Find x s = (case in_frame x s of
     Some a \<Rightarrow> (case frame_index x a s of Inl e \<Rightarrow> Inl e | Inr i \<Rightarrow> Inr (cframes (world s) a ! i))
   | None \<Rightarrow> FrameElement (vscope (v_var x)) (soffset (v_var x)) (foffset (v_var x)) (seqr s))"

definition VarExpr_Assign :: "('e, 'v, 'w) call_ops \<Rightarrow> formal_var \<Rightarrow> 'v \<Rightarrow> ('v, 'w) cstate \<Rightarrow> ('v, 'w) cstate comp" where
  "VarExpr_Assign C x v s = (case in_frame x s of
     Some a \<Rightarrow> (case frame_index x a s of
         Inl e \<Rightarrow> Halt (Faulted e)
       | Inr i \<Rightarrow> Done (set_world (\<lambda>w. w\<lparr>cframes := (cframes w)(a := (cframes w a)[i := Some v])\<rparr>) s))
   | None \<Rightarrow> (case SetFrameElement (is_const C) (vscope (v_var x)) (soffset (v_var x)) (foffset (v_var x)) v (seqr s) of
         Inl e \<Rightarrow> Halt (Faulted e)
       | Inr (err, q) \<Rightarrow> Done (s\<lparr>seqr := q\<rparr>)))"

text \<open>The assignment that first makes the variable refer to the frame.\<close>

definition Assign_in :: "('e, 'v, 'w) call_ops \<Rightarrow> nat \<Rightarrow> formal_var \<Rightarrow> 'v \<Rightarrow> ('v, 'w) cstate \<Rightarrow> ('v, 'w) cstate comp" where
  "Assign_in C a x v s = VarExpr_Assign C x v (VarExpr_PushFrame x a s)"

section \<open>Functions\<close>

record ('e, 'p) UserFuncKernel =
  formals :: "'e formal list"
  func_body :: "('e, 'p) Stmt"
  frame_size :: nat
  valid :: bool
  ellipsis_position :: "nat option"

text \<open>The position of the ellipsis, which stays uninitialised without one; a second one makes the function invalid.\<close>

fun find_ellipsis :: "'e formal list \<Rightarrow> nat \<Rightarrow> nat option \<Rightarrow> bool \<times> nat option" where
  "find_ellipsis [] i pos = (True, pos)"
| "find_ellipsis (f # fs) i pos =
    (if is_ellipsis f then if pos \<noteq> None then (False, pos) else find_ellipsis fs (Suc i) (Some i)
     else find_ellipsis fs (Suc i) pos)"

definition UserFuncKernel_new :: "'e formal list \<Rightarrow> ('e, 'p) Stmt \<Rightarrow> nat \<Rightarrow> ('e, 'p) UserFuncKernel" where
  "UserFuncKernel_new fs b n = (let (ok, pos) = find_ellipsis fs 0 None
     in \<lparr>formals = fs, func_body = b, frame_size = n, valid = ok, ellipsis_position = pos\<rparr>)"

text \<open>\<open>operator[]\<close> of the list of formals: the null pointer outside of it.\<close>

definition formal_at :: "'e formal list \<Rightarrow> nat \<Rightarrow> 'e formal option" where
  "formal_at fs i = (if i < length fs then Some (fs ! i) else None)"

section \<open>Evaluating parameters\<close>

text \<open>The value of a parameter, or the failure that evaluating it gave.\<close>

definition checked :: "('e, 'v, 'w) call_ops \<Rightarrow> ('v \<Rightarrow> 'v) \<Rightarrow> ('v, 'w) call_result \<Rightarrow> (('v + 'v) \<times> evalOpt \<times> ('v, 'w) cstate) comp" where
  "checked C f m = andthen m (\<lambda>(r, fl, s). case r of
     None \<Rightarrow> Halt NullValue
   | Some v \<Rightarrow> Done (if is_fail C v then Inl v else Inr (f v), fl, s))"

definition EvalParam ::
  "('e, 'p, 'v, ('v, 'w) call_world) interp \<Rightarrow> ('e, 'v, 'w) call_ops \<Rightarrow> 'e formal \<Rightarrow> 'e \<Rightarrow> evalOpt \<Rightarrow> ('v, 'w) cstate
    \<Rightarrow> (('v + 'v) \<times> evalOpt \<times> ('v, 'w) cstate) comp" where
  "EvalParam I C p actual fl s = (case parm_type p of
     VAL_CONST \<Rightarrow> checked C (make_const C) (CopyEval I actual fl s)
   | VAL_VAL \<Rightarrow> checked C id (CopyEval I actual fl s)
   | VAL_REF \<Rightarrow> checked C id (ref_eval C actual VAL_REF fl s))"

text \<open>The record of further arguments has the fields \<open>*1\<close>, \<open>*2\<close> and so on.\<close>

definition field_name :: "nat \<Rightarrow> string" where
  "field_name n = CHR ''*'' # dec n"

definition add_field :: "'v \<Rightarrow> (string \<times> 'v) list \<Rightarrow> (string \<times> 'v) list" where
  "add_field v r = r @ [(field_name (length r + 1), v)]"

definition ellipsis_record ::
  "string \<Rightarrow> ('e, 'p, 'v, ('v, 'w) call_world) interp \<Rightarrow> ('e, 'v, 'w) call_ops \<Rightarrow> 'e actual \<Rightarrow> evalOpt \<Rightarrow> ('v, 'w) cstate
    \<Rightarrow> ((string \<times> 'v) list \<times> evalOpt \<times> ('v, 'w) cstate) comp" where
  "ellipsis_record who I C p fl s =
    (if \<not> is_ellipsis p then Halt (Faulted (Fatal (''Parameter::'' @ who @ '' called but not ellipsis'')))
     else case parg p of
       None \<Rightarrow> Halt NullValue
     | Some e \<Rightarrow> andthen (ReadOnlyEval I e fl s) (\<lambda>(r, fl, s). case r of
         None \<Rightarrow> Halt NullValue
       | Some v \<Rightarrow> Done (record_ptr C v, fl, s)))"

definition NumEllipsisVals ::
  "('e, 'p, 'v, ('v, 'w) call_world) interp \<Rightarrow> ('e, 'v, 'w) call_ops \<Rightarrow> 'e actual \<Rightarrow> evalOpt \<Rightarrow> ('v, 'w) cstate
    \<Rightarrow> (nat \<times> evalOpt \<times> ('v, 'w) cstate) comp" where
  "NumEllipsisVals I C p fl s = andthen (ellipsis_record ''NumEllipsisVals'' I C p fl s) (\<lambda>(r, fl, s). Done (length r, fl, s))"

definition NthEllipsisVal ::
  "('e, 'p, 'v, ('v, 'w) call_world) interp \<Rightarrow> ('e, 'v, 'w) call_ops \<Rightarrow> 'e actual \<Rightarrow> nat \<Rightarrow> evalOpt \<Rightarrow> ('v, 'w) cstate
    \<Rightarrow> ('v \<times> evalOpt \<times> ('v, 'w) cstate) comp" where
  "NthEllipsisVal I C p n fl s = andthen (ellipsis_record ''NthEllipsisVal'' I C p fl s) (\<lambda>(r, fl, s).
     if n \<ge> length r then Halt (Faulted (Fatal ''bad value of n in Parameter::NthEllipsisVal''))
     else Done (case map_of r (field_name (n + 1)) of Some v \<Rightarrow> v | None \<Rightarrow> absent_field C, fl, s))"

section \<open>Matching parameters\<close>

text \<open>
  The local variables of the matching: \<open>arg_cnt\<close>, \<open>num_args\<close>, the list of missing flags and the record of
  the further arguments (\<open>None\<close> when the function has no ellipsis).
\<close>

record 'v matching =
  arg_cnt :: nat
  num_args :: nat
  missing :: "bool list"
  ellipsis_value :: "(string \<times> 'v) list option"

type_synonym ('v, 'w) match_result = "('v option \<times> 'v matching \<times> evalOpt \<times> ('v, 'w) cstate) comp"

definition match_fail ::
  "('e, 'p, 'v, ('v, 'w) call_world) interp \<Rightarrow> string \<Rightarrow> 'v matching \<Rightarrow> evalOpt \<Rightarrow> ('v, 'w) cstate \<Rightarrow> ('v, 'w) match_result" where
  "match_fail I msg m fl s = (let (v, s) = fail_value I msg s in Done (Some v, m, fl, s))"

definition add_missing :: "bool \<Rightarrow> 'v matching \<Rightarrow> 'v matching" where
  "add_missing b m = m\<lparr>missing := missing m @ [b]\<rparr>"

definition AddEllipsisValue :: "('e, 'v, 'w) call_ops \<Rightarrow> 'e option \<Rightarrow> 'v matching \<Rightarrow> evalOpt \<Rightarrow> ('v, 'w) cstate \<Rightarrow> ('v, 'w) match_result" where
  "AddEllipsisValue C arg m fl s = (case arg of
     None \<Rightarrow> Halt NullValue
   | Some e \<Rightarrow> andthen (ref_eval C e VAL_CONST fl s) (\<lambda>(r, fl, s). case r of
       None \<Rightarrow> Halt NullValue
     | Some v \<Rightarrow> Done (None, m\<lparr>ellipsis_value := map_option (add_field v) (ellipsis_value m)\<rparr>, fl, s)))"

definition ArgOverFlow ::
  "('e, 'p, 'v, ('v, 'w) call_world) interp \<Rightarrow> ('e, 'v, 'w) call_ops \<Rightarrow> 'e option \<Rightarrow> nat \<Rightarrow> 'v matching \<Rightarrow> evalOpt \<Rightarrow> ('v, 'w) cstate
    \<Rightarrow> ('v, 'w) match_result" where
  "ArgOverFlow I C arg num_formals m fl s =
    (if ellipsis_value m \<noteq> None then AddEllipsisValue C arg m fl s
     else if num_args m = num_formals then match_fail I (''too many arguments (> '' @ dec num_formals @ '') supplied in call to'') m fl s
     else Done (None, m, fl, s))"

text \<open>The values of an actual ellipsis, by their numbers, are spread over the formals and then the formal ellipsis.\<close>

fun AddEllipsisArgs ::
  "('e, 'p, 'v, ('v, 'w) call_world) interp \<Rightarrow> ('e, 'v, 'w) call_ops \<Rightarrow> 'e formal list \<Rightarrow> nat \<Rightarrow> nat \<Rightarrow> 'e actual \<Rightarrow> nat list
    \<Rightarrow> 'v matching \<Rightarrow> evalOpt \<Rightarrow> ('v, 'w) cstate \<Rightarrow> ('v, 'w) match_result" where
  "AddEllipsisArgs I C fs nf a p [] m fl s = Done (None, m, fl, s)"
| "AddEllipsisArgs I C fs nf a p (i # is) m fl s =
    (if num_args m \<ge> nf then
       if ellipsis_value m = None then match_fail I (''too many arguments (> '' @ dec nf @ '') supplied in call to'') m fl s
       else andthen (NthEllipsisVal I C p i fl s) (\<lambda>(v, fl, s).
         AddEllipsisArgs I C fs nf a p is (m\<lparr>ellipsis_value := map_option (add_field (const_ref C v)) (ellipsis_value m)\<rparr>) fl s)
     else case formal_at fs (num_args m) of
       None \<Rightarrow> Halt NullValue
     | Some f \<Rightarrow>
         if parm_type f = VAL_REF then match_fail I ''... is a const reference, formal is ref'' m fl s
         else andthen (NthEllipsisVal I C p i fl s) (\<lambda>(v, fl, s).
           andthen (Assign_in C a (parg f) (if parm_type f = VAL_VAL then copy_value C v else const_ref C v) s) (\<lambda>s.
             AddEllipsisArgs I C fs nf a p is (m\<lparr>arg_cnt := arg_cnt m + 1, num_args := num_args m + 1\<rparr>) fl s)))"

text \<open>
  The loop that notes the values of the ellipsis as present asks for their number again and again; the
  first argument bounds it.
\<close>

fun note_ellipsis ::
  "nat \<Rightarrow> ('e, 'p, 'v, ('v, 'w) call_world) interp \<Rightarrow> ('e, 'v, 'w) call_ops \<Rightarrow> 'e actual \<Rightarrow> nat
    \<Rightarrow> 'v matching \<Rightarrow> evalOpt \<Rightarrow> ('v, 'w) cstate \<Rightarrow> ('v matching \<times> evalOpt \<times> ('v, 'w) cstate) comp" where
  "note_ellipsis 0 I C p j m fl s = Timeout"
| "note_ellipsis (Suc n) I C p j m fl s = andthen (NumEllipsisVals I C p fl s) (\<lambda>(k, fl, s).
     if j < k then note_ellipsis n I C p (j + 1) (add_missing False m) fl s else Done (m, fl, s))"

text \<open>
  A value for the next formal: it is computed for the formal at \<open>num_args\<close>, but stored in the variable
  of the formal at the index of the argument.
\<close>

definition bind_positional ::
  "('e, 'p, 'v, ('v, 'w) call_world) interp \<Rightarrow> ('e, 'v, 'w) call_ops \<Rightarrow> 'e formal list \<Rightarrow> nat \<Rightarrow> nat \<Rightarrow> 'e formal \<Rightarrow> 'e \<Rightarrow> bool
    \<Rightarrow> 'v matching \<Rightarrow> evalOpt \<Rightarrow> ('v, 'w) cstate \<Rightarrow> ('v, 'w) match_result" where
  "bind_positional I C fs a i f e miss m fl s = andthen (EvalParam I C f e fl s) (\<lambda>(r, fl, s). case r of
     Inl v \<Rightarrow> Done (Some v, m, fl, s)
   | Inr v \<Rightarrow> (case formal_at fs i of
       None \<Rightarrow> Halt NullValue
     | Some g \<Rightarrow> andthen (Assign_in C a (parg g) v s) (\<lambda>s.
         Done (None, add_missing miss (m\<lparr>arg_cnt := arg_cnt m + 1, num_args := num_args m + 1\<rparr>), fl, s))))"

definition match_one ::
  "nat \<Rightarrow> ('e, 'p, 'v, ('v, 'w) call_world) interp \<Rightarrow> ('e, 'v, 'w) call_ops \<Rightarrow> ('e, 'p) UserFuncKernel \<Rightarrow> nat \<Rightarrow> nat \<Rightarrow> nat \<Rightarrow> 'e actual
    \<Rightarrow> 'v matching \<Rightarrow> evalOpt \<Rightarrow> ('v, 'w) cstate \<Rightarrow> ('v, 'w) match_result" where
  "match_one n I C k nf a i p m fl s =
    (if is_ellipsis p then
       andthen (NumEllipsisVals I C p fl s) (\<lambda>(cnt, fl, s).
         andthen (AddEllipsisArgs I C (formals k) nf a p [0..<cnt] m fl s) (\<lambda>(r, m, fl, s).
           andthen (note_ellipsis n I C p 0 m fl s) (\<lambda>(m, fl, s). Done (r, m, fl, s))))
     else if num_args m \<ge> nf then
       if is_empty p then
         (case ellipsis_position k of
            None \<Rightarrow> Halt (Faulted UninitialisedRead)
          | Some ep \<Rightarrow> (case Option.bind (formal_at (formals k) ep) default_value of
              Some d \<Rightarrow> andthen (ArgOverFlow I C (Some d) nf m fl s) (\<lambda>(r, m, fl, s). Done (r, add_missing True m, fl, s))
            | None \<Rightarrow> match_fail I (''Missing parameter '' @ dec (i + 1) @ '', no default available'') m fl s))
       else andthen (ArgOverFlow I C (parg p) nf m fl s) (\<lambda>(r, m, fl, s). Done (r, add_missing False m, fl, s))
     else case formal_at (formals k) (num_args m) of
       None \<Rightarrow> Halt NullValue
     | Some f \<Rightarrow>
         if is_empty p then
           (case default_value f of
              Some d \<Rightarrow> bind_positional I C (formals k) a i f d True m fl s
            | None \<Rightarrow> match_fail I (''Missing parameter '' @ dec (i + 1) @ '', no default available.'') m fl s)
         else (case parg p of
              None \<Rightarrow> Halt NullValue
            | Some e \<Rightarrow> bind_positional I C (formals k) a i f e False m fl s))"

text \<open>The arguments up to the first named one; the index of that one is returned.\<close>

fun match_positional ::
  "nat \<Rightarrow> ('e, 'p, 'v, ('v, 'w) call_world) interp \<Rightarrow> ('e, 'v, 'w) call_ops \<Rightarrow> ('e, 'p) UserFuncKernel \<Rightarrow> nat \<Rightarrow> nat \<Rightarrow> nat \<Rightarrow> 'e actual list
    \<Rightarrow> 'v matching \<Rightarrow> evalOpt \<Rightarrow> ('v, 'w) cstate \<Rightarrow> ('v option \<times> nat \<times> 'v matching \<times> evalOpt \<times> ('v, 'w) cstate) comp" where
  "match_positional n I C k nf a i [] m fl s = Done (None, i, m, fl, s)"
| "match_positional n I C k nf a i (p # ps) m fl s =
    (if pname p \<noteq> None then Done (None, i, m, fl, s)
     else andthen (match_one n I C k nf a i p m fl s) (\<lambda>(r, m, fl, s).
       if r \<noteq> None then Done (r, i, m, fl, s) else match_positional n I C k nf a (Suc i) ps m fl s))"

text \<open>The index of the formal of a name, behind the last one if there is none.\<close>

fun formal_index :: "string \<Rightarrow> 'e formal list \<Rightarrow> nat" where
  "formal_index x [] = 0"
| "formal_index x (f # fs) = (if pname f = Some x then 0 else Suc (formal_index x fs))"

text \<open>
  The check of the named arguments. Those of unknown names go into the ellipsis as long as no formal has
  been named.
\<close>

fun check_named ::
  "('e, 'p, 'v, ('v, 'w) call_world) interp \<Rightarrow> ('e, 'v, 'w) call_ops \<Rightarrow> 'e formal list \<Rightarrow> nat \<Rightarrow> nat \<Rightarrow> nat \<Rightarrow> 'e actual list
    \<Rightarrow> 'v matching \<Rightarrow> evalOpt \<Rightarrow> ('v, 'w) cstate \<Rightarrow> ('v, 'w) match_result" where
  "check_named I C fs nf ec i [] m fl s = Done (None, m, fl, s)"
| "check_named I C fs nf ec i (p # ps) m fl s = (case pname p of
     None \<Rightarrow> match_fail I (''unnamed arg (position '' @ dec i @ '') given after named arg in call to'') m fl s
   | Some x \<Rightarrow>
       let j = formal_index x fs in
       if j \<ge> length fs then
         if ec = i \<and> num_args m = nf \<and> (case formal_at fs nf of Some f \<Rightarrow> is_ellipsis f | None \<Rightarrow> False) \<and> \<not> is_empty p
         then andthen (ArgOverFlow I C (parg p) nf m fl s) (\<lambda>(r, m, fl, s).
           let m = add_missing False m in
           if r \<noteq> None then Done (r, m, fl, s) else check_named I C fs nf (ec + 1) (i + 1) ps m fl s)
         else match_fail I (''named arg '' @ x @ '' does not match any formal in call to'') m fl s
       else if j < arg_cnt m
       then match_fail I (''formal '' @ x @ '' matched by both positional and named arg in call to'') m fl s
       else check_named I C fs nf ec (i + 1) ps m fl s)"

text \<open>The first named argument with the name of a formal; comparing a null pointer is an error.\<close>

fun find_named :: "string option \<Rightarrow> 'e actual list \<Rightarrow> 'e actual option comp" where
  "find_named x [] = Done None"
| "find_named x (p # ps) = (case (x, pname p) of
     (Some y, Some z) \<Rightarrow> if y = z then Done (Some p) else find_named x ps
   | _ \<Rightarrow> Halt NullValue)"

text \<open>Whether a parameter counts as missing when its default value is taken: a variable counts as the parameter before it.\<close>

definition default_missing :: "('e, 'v, 'w) call_ops \<Rightarrow> 'e formal \<Rightarrow> 'e \<Rightarrow> bool list \<Rightarrow> bool" where
  "default_missing C f d ms =
    (let doff = FrameOffset C d; foff = foffset (v_var (parg f))
     in if doff \<ge> 0 \<and> foff \<ge> 0 \<and> doff < foff \<and> doff < int (length ms) then ms ! nat doff else True)"

definition bind_rest ::
  "('e, 'p, 'v, ('v, 'w) call_world) interp \<Rightarrow> ('e, 'v, 'w) call_ops \<Rightarrow> nat \<Rightarrow> 'e formal \<Rightarrow> 'e actual list
    \<Rightarrow> 'v matching \<Rightarrow> evalOpt \<Rightarrow> ('v, 'w) cstate \<Rightarrow> ('v, 'w) match_result" where
  "bind_rest I C a f named m fl s =
    (let bind = (\<lambda>e miss. andthen (EvalParam I C f e fl s) (\<lambda>(r, fl, s). case r of
           Inl v \<Rightarrow> Done (Some v, m, fl, s)
         | Inr v \<Rightarrow> andthen (Assign_in C a (parg f) v s) (\<lambda>s.
             Done (None, add_missing (miss (missing m)) (m\<lparr>arg_cnt := arg_cnt m + 1\<rparr>), fl, s))))
     in if is_ellipsis f then
          (case ellipsis_value m of
             None \<Rightarrow> Halt NullValue
           | Some r \<Rightarrow> andthen (Assign_in C a (parg f) (irecord C r) s) (\<lambda>s. Done (None, m\<lparr>arg_cnt := arg_cnt m + 1\<rparr>, fl, s)))
        else andthen (find_named (pname f) named) (\<lambda>p. case p of
          Some p \<Rightarrow> (case parg p of None \<Rightarrow> Halt NullValue | Some e \<Rightarrow> bind e (\<lambda>_. False))
        | None \<Rightarrow> (case default_value f of
            None \<Rightarrow> match_fail I (''parameter '' @ (case pname f of Some x \<Rightarrow> x | None \<Rightarrow> []) @ '' missing in call to'') m fl s
          | Some d \<Rightarrow> bind d (default_missing C f d))))"

text \<open>The formals from \<open>num_args\<close> on.\<close>

fun fill_formals ::
  "('e, 'p, 'v, ('v, 'w) call_world) interp \<Rightarrow> ('e, 'v, 'w) call_ops \<Rightarrow> nat \<Rightarrow> 'e formal list \<Rightarrow> 'e actual list
    \<Rightarrow> 'v matching \<Rightarrow> evalOpt \<Rightarrow> ('v, 'w) cstate \<Rightarrow> ('v, 'w) match_result" where
  "fill_formals I C a [] named m fl s = Done (None, m, fl, s)"
| "fill_formals I C a (f # fs) named m fl s =
    andthen (bind_rest I C a f named m fl s) (\<lambda>(r, m, fl, s).
      if r \<noteq> None then Done (r, m, fl, s) else fill_formals I C a fs named (m\<lparr>num_args := num_args m + 1\<rparr>) fl s)"

definition positional_count :: "('e, 'p) UserFuncKernel \<Rightarrow> nat" where
  "positional_count k = (case ellipsis_position k of Some p \<Rightarrow> p | None \<Rightarrow> length (formals k))"

definition match_start :: "('e, 'p) UserFuncKernel \<Rightarrow> 'v matching" where
  "match_start k = \<lparr>arg_cnt = 0, num_args = 0, missing = [], ellipsis_value = map_option (\<lambda>_. []) (ellipsis_position k)\<rparr>"

definition match_args ::
  "nat \<Rightarrow> ('e, 'p, 'v, ('v, 'w) call_world) interp \<Rightarrow> ('e, 'v, 'w) call_ops \<Rightarrow> ('e, 'p) UserFuncKernel \<Rightarrow> nat \<Rightarrow> 'e actual list
    \<Rightarrow> evalOpt \<Rightarrow> ('v, 'w) cstate \<Rightarrow> ('v, 'w) match_result" where
  "match_args n I C k a args fl s =
    (let nf = positional_count k
     in andthen (match_positional n I C k nf a 0 args (match_start k) fl s) (\<lambda>(r, i, m, fl, s).
          if r \<noteq> None then Done (r, m, fl, s)
          else andthen (check_named I C (formals k) nf i i (drop i args) m fl s) (\<lambda>(r, m, fl, s).
            if r \<noteq> None then Done (r, m, fl, s)
            else fill_formals I C a (drop (num_args m) (formals k)) (drop i args) m fl s)))"

section \<open>Calls\<close>

definition side_effects :: "evalOpt \<Rightarrow> bool" where
  "side_effects fl \<longleftrightarrow> opt_mask fl AND push_bit (expr_no SIDE_EFFECTS) 1 \<noteq> 0"

definition PushFailStack :: "('v, 'w) cstate \<Rightarrow> ('v, 'w) cstate" where
  "PushFailStack = set_world (\<lambda>w. w\<lparr>fail_stack := fail_stack w @ [[]]\<rparr>)"

definition FailCreated :: "'v \<Rightarrow> ('v, 'w) cstate \<Rightarrow> ('v, 'w) cstate" where
  "FailCreated v = set_world (\<lambda>w. if fail_stack w = [] then w
     else w\<lparr>fail_stack := butlast (fail_stack w) @ [last (fail_stack w) @ [v]]\<rparr>)"

text \<open>The first failure on top of the stack that nobody has looked at.\<close>

definition PopFailStack :: "('e, 'v, 'w) call_ops \<Rightarrow> ('v, 'w) cstate \<Rightarrow> 'v option \<times> ('v, 'w) cstate" where
  "PopFailStack C s = (let fs = fail_stack (world s) in if fs = [] then (None, s)
     else (find (\<lambda>v. \<not> fail_marked C v) (last fs), set_world (\<lambda>w. w\<lparr>fail_stack := butlast fs\<rparr>) s))"

definition DoCall ::
  "nat \<Rightarrow> ('e, 'p, 'v, ('v, 'w) call_world) interp \<Rightarrow> ('e, 'v, 'w) call_ops \<Rightarrow> ('e, 'p) UserFuncKernel \<Rightarrow> evalOpt \<Rightarrow> ('v, 'w) cstate
    \<Rightarrow> ('v, 'w) call_result" where
  "DoCall n I C k opt s =
    (let opt = opt\<lparr>fcount := fcount opt + 1\<rparr>;
         flow = (if \<not> side_effects opt then set_ret VALUE_NEEDED opt else opt)
     in andthen (exec I n (func_body k) flow (PushFailStack s)) (\<lambda>(result, flow, s).
       let (unhandled, s) = PopFailStack C s;
           opt = opt\<lparr>fcount := fcount opt - 1\<rparr>;
           result = (if \<not> suppress_auto_fail C \<and> unhandled \<noteq> None \<and> (case result of None \<Rightarrow> True | Some v \<Rightarrow> \<not> is_fail C v)
                     then unhandled else result)
       in Done (result, opt, case result of Some v \<Rightarrow> if is_fail C v then FailCreated v s else s | None \<Rightarrow> s)))"

definition FrameLen :: "('v, 'w) cstate \<Rightarrow> nat" where
  "FrameLen s = length (sframes (cur_stack (seqr s)))"

definition too_deep :: "('e, 'v, 'w) call_ops \<Rightarrow> ('v, 'w) cstate \<Rightarrow> bool" where
  "too_deep C s \<longleftrightarrow> stack_limit C \<ge> 0 \<and> (int (stack_len C) + 1 > stack_limit C \<or> int (FrameLen s) + 1 > stack_limit C)"

text \<open>The new frame, and the frame it becomes on the stack of the sequencer.\<close>

definition new_call_frame :: "('e, 'p) UserFuncKernel \<Rightarrow> ('v, 'w) cstate \<Rightarrow> nat \<times> ('v, 'w) cstate" where
  "new_call_frame k s = (let a = next_addr s
     in (a, set_world (\<lambda>w. w\<lparr>cframes := (cframes w)(a := replicate (frame_size k) None), missing_info := (missing_info w)(a := [])\<rparr>)
              (s\<lparr>next_addr := Suc a\<rparr>)))"

definition push_call_frame :: "nat \<Rightarrow> ('v, 'w) cstate \<Rightarrow> ('v, 'w) cstate" where
  "push_call_frame a s = s\<lparr>seqr := (seqr s)\<lparr>cur_stack :=
     PushFrame (Some \<lparr>faddr = a, fscope = FUNC_SCOPE, fvalues = cframes (world s) a\<rparr>) (cur_stack (seqr s))\<rparr>\<rparr>"

definition invoke ::
  "nat \<Rightarrow> ('e, 'p, 'v, ('v, 'w) call_world) interp \<Rightarrow> ('e, 'v, 'w) call_ops \<Rightarrow> ('e, 'p) UserFuncKernel \<Rightarrow> nat \<Rightarrow> bool list \<Rightarrow> evalOpt
    \<Rightarrow> ('v, 'w) cstate \<Rightarrow> ('v, 'w) call_result" where
  "invoke n I C k a ms fl s =
    (let s = (if ms \<noteq> [] then set_world (\<lambda>w. w\<lparr>missing_info := (missing_info w)(a := ms)\<rparr>) s else s)
     in andthen (DoCall n I C k fl (push_call_frame a s)) (\<lambda>(result, fl, s).
          let s = fold (\<lambda>f. ReleaseFrames (parg f)) (formals k) s
          in case PopFrame (cur_stack (seqr s)) of
               Inl e \<Rightarrow> Halt (Faulted e)
             | Inr (fr, st) \<Rightarrow>
                 if map_option faddr fr \<noteq> Some a then Halt FrameInconsistency
                 else Done (result, fl, s\<lparr>seqr := (seqr s)\<lparr>cur_stack := st\<rparr>\<rparr>)))"

definition Kernel_Call ::
  "nat \<Rightarrow> ('e, 'p, 'v, ('v, 'w) call_world) interp \<Rightarrow> ('e, 'v, 'w) call_ops \<Rightarrow> ('e, 'p) UserFuncKernel \<Rightarrow> 'e actual list \<Rightarrow> evalOpt
    \<Rightarrow> ('v, 'w) cstate \<Rightarrow> ('v, 'w) call_result" where
  "Kernel_Call n I C k args fl s =
    (if \<not> valid k then fail_with I ''function not valid'' fl s
     else if too_deep C s then fail_with I ''infinite recursion detected'' fl s
     else
       let (a, s) = new_call_frame k s
       in andthen (match_args n I C k a args fl s) (\<lambda>(r, m, fl, s).
            let s = fold (\<lambda>f. VarExpr_PopFrame (parg f)) (formals k) s
            in if r = None then invoke n I C k a (missing m) fl s else Done (r, fl, s)))"

text \<open>The call keeps the last failure of the caller unless it fails itself.\<close>

definition UserFunc_Call ::
  "nat \<Rightarrow> ('e, 'p, 'v, ('v, 'w) call_world) interp \<Rightarrow> ('e, 'v, 'w) call_ops \<Rightarrow> ('e, 'p) UserFuncKernel option \<Rightarrow> 'e actual list \<Rightarrow> evalOpt
    \<Rightarrow> ('v, 'w) cstate \<Rightarrow> ('v, 'w) call_result" where
  "UserFunc_Call n I C kern args fl s =
    (let last = last_fail s; s = s\<lparr>last_fail := None\<rparr>
     in andthen (case kern of Some k \<Rightarrow> Kernel_Call n I C k args fl s | None \<Rightarrow> Done (None, fl, s)) (\<lambda>(ret, fl, s).
          Done (ret, fl, case ret of Some v \<Rightarrow> if is_fail C v then s else s\<lparr>last_fail := last\<rparr> | None \<Rightarrow> s)))"

section \<open>Well-formed functions and calls\<close>

definition off :: "'e formal \<Rightarrow> int" where
  "off f = foffset (v_var (parg f))"

text \<open>
  What the parser ensures of the formals: different variables with different cells of the frame, and only
  the ellipsis has no name.
\<close>

definition formals_ok :: "'e formal list \<Rightarrow> nat \<Rightarrow> bool" where
  "formals_ok fs n \<longleftrightarrow> distinct (map (\<lambda>f. v_id (parg f)) fs) \<and> distinct (map off fs)
     \<and> list_all (\<lambda>f. 0 \<le> off f \<and> off f < int n \<and> (is_ellipsis f \<longleftrightarrow> pname f = None)) fs"

definition kernel_ok :: "('e, 'p) UserFuncKernel \<Rightarrow> bool" where
  "kernel_ok k \<longleftrightarrow> formals_ok (formals k) (frame_size k)
     \<and> (\<forall>i < length (formals k). is_ellipsis (formals k ! i) \<longleftrightarrow> ellipsis_position k = Some i)
     \<and> (\<forall>p. ellipsis_position k = Some p \<longrightarrow> p < length (formals k))"

lemma find_ellipsis_none: "find_ellipsis fs i (Some q) = (True, r) \<Longrightarrow> r = Some q \<and> list_all (\<lambda>f. \<not> is_ellipsis f) fs"
  by (induction fs arbitrary: i) (auto split: if_splits)

lemma find_ellipsis_correct:
  assumes "find_ellipsis fs i None = (True, r)"
  shows "(\<forall>j < length fs. is_ellipsis (fs ! j) \<longleftrightarrow> r = Some (i + j)) \<and> (\<forall>p. r = Some p \<longrightarrow> i \<le> p \<and> p < i + length fs)"
  using assms
proof (induction fs arbitrary: i)
  case (Cons f fs)
  show ?case
  proof (cases "is_ellipsis f")
    case True
    then have r: "r = Some i" "list_all (\<lambda>f. \<not> is_ellipsis f) fs" using Cons.prems find_ellipsis_none [of fs "Suc i" i r] by auto
    then show ?thesis using True by (auto simp: nth_Cons list_all_length split: nat.split)
  next
    case False
    then have r: "find_ellipsis fs (Suc i) None = (True, r)" using Cons.prems by simp
    note ih = Cons.IH [OF r]
    have "is_ellipsis ((f # fs) ! j) \<longleftrightarrow> r = Some (i + j)" if "j < length (f # fs)" for j
    proof (cases j)
      case 0
      then show ?thesis using False ih by auto
    next
      case (Suc j')
      then show ?thesis using ih that by auto
    qed
    then show ?thesis using ih by fastforce
  qed
qed simp

lemma kernel_ok_new:
  assumes "formals_ok fs n" and "valid (UserFuncKernel_new fs b n)"
  shows "kernel_ok (UserFuncKernel_new fs b n)"
  using assms find_ellipsis_correct [of fs 0] by (cases "find_ellipsis fs 0 None") (auto simp: kernel_ok_def UserFuncKernel_new_def)

text \<open>The expression whose value a formal gets: its actual parameter, or its default value.\<close>

definition source :: "('e, 'p) UserFuncKernel \<Rightarrow> 'e actual list \<Rightarrow> 'e actual list \<Rightarrow> nat \<Rightarrow> 'e option" where
  "source k ps ns j =
    (let f = formals k ! j
     in if j < min (length ps) (positional_count k) then (if is_empty (ps ! j) then default_value f else parg (ps ! j))
        else case find (\<lambda>p. pname p = pname f) ns of Some p \<Rightarrow> parg p | None \<Rightarrow> default_value f)"

text \<open>The expressions that go into the ellipsis.\<close>

definition further :: "('e, 'p) UserFuncKernel \<Rightarrow> 'e actual list \<Rightarrow> 'e option list" where
  "further k ps = map (\<lambda>p. if is_empty p then Option.bind (ellipsis_position k) (\<lambda>i. default_value (formals k ! i)) else parg p)
     (drop (positional_count k) ps)"

text \<open>Positional arguments, then named ones of formals that have no positional one; every formal has a value.\<close>

definition call_ok :: "('e, 'p) UserFuncKernel \<Rightarrow> 'e actual list \<Rightarrow> 'e actual list \<Rightarrow> bool" where
  "call_ok k ps ns \<longleftrightarrow> list_all (\<lambda>p. pname p = None \<and> \<not> is_ellipsis p) ps
     \<and> list_all (\<lambda>p. case pname p of None \<Rightarrow> False
         | Some x \<Rightarrow> formal_index x (formals k) < length (formals k) \<and> min (length ps) (positional_count k) \<le> formal_index x (formals k)) ns
     \<and> (ellipsis_position k = None \<longrightarrow> length ps \<le> length (formals k))
     \<and> list_all (\<lambda>e. e \<noteq> None) (further k ps)
     \<and> (\<forall>j < length (formals k). \<not> is_ellipsis (formals k ! j) \<longrightarrow> source k ps ns j \<noteq> None)"

text \<open>
  Evaluation of parameters returns values and leaves the frame under construction and the variables that
  refer to it alone.
\<close>

definition frame_kept :: "nat \<Rightarrow> ('v, 'w) cstate \<Rightarrow> ('v, 'w) cstate \<Rightarrow> bool" where
  "frame_kept a s t \<longleftrightarrow> cframes (world t) a = cframes (world s) a \<and> (\<forall>x. in_frame x s = Some a \<longrightarrow> in_frame x t = Some a)"

definition eval_good :: "('e, 'p, 'v, ('v, 'w) call_world) interp \<Rightarrow> ('e, 'v, 'w) call_ops \<Rightarrow> nat \<Rightarrow> bool" where
  "eval_good I C a \<longleftrightarrow>
     (\<forall>e fl s. \<exists>v fl' s'. CopyEval I e fl s = Done (Some v, fl', s') \<and> \<not> is_fail C v \<and> frame_kept a s s')
   \<and> (\<forall>e t fl s. \<exists>v fl' s'. ref_eval C e t fl s = Done (Some v, fl', s') \<and> \<not> is_fail C v \<and> frame_kept a s s')"

text \<open>The first formals have been given values in the frame, and their variables find them there.\<close>

definition bound :: "('e, 'p) UserFuncKernel \<Rightarrow> nat \<Rightarrow> 'v list \<Rightarrow> ('v, 'w) cstate \<Rightarrow> bool" where
  "bound k a vs s \<longleftrightarrow> length vs \<le> length (formals k) \<and> length (cframes (world s) a) = frame_size k
     \<and> (\<forall>i < length vs. in_frame (parg (formals k ! i)) s = Some a \<and> cframes (world s) a ! nat (off (formals k ! i)) = Some (vs ! i))"

lemma bound_find:
  assumes "bound k a vs s" and "formals_ok (formals k) (frame_size k)" and "i < length vs"
  shows "VarExpr_Find (parg (formals k ! i)) s = Inr (Some (vs ! i))"
proof -
  have "formals k ! i \<in> set (formals k)" using assms(1,3) by (simp add: bound_def)
  then have "0 \<le> off (formals k ! i)" "off (formals k ! i) < int (frame_size k)" using assms(2) by (auto simp: formals_ok_def list_all_iff)
  then show ?thesis using assms(1,3) by (simp add: bound_def VarExpr_Find_def frame_index_def off_def)
qed

lemma bound_kept: "bound k a vs s \<Longrightarrow> frame_kept a s t \<Longrightarrow> bound k a vs t"
  by (simp add: bound_def frame_kept_def)

text \<open>The step that binds the next formal.\<close>

lemma Assign_in_bound:
  assumes "kernel_ok k" and "bound k a vs s" and "length vs < length (formals k)"
  shows "\<exists>s'. Assign_in C a (parg (formals k ! length vs)) v s = Done s' \<and> bound k a (vs @ [v]) s'"
proof -
  let ?fs = "formals k" and ?f = "formals k ! length vs"
  let ?t = "VarExpr_PushFrame (parg ?f) a s"
  have ok: "formals_ok ?fs (frame_size k)" using assms(1) by (simp add: kernel_ok_def)
  have r: "0 \<le> off ?f" "off ?f < int (frame_size k)" using ok assms(3) by (auto simp: formals_ok_def list_all_length)
  have d: "v_id (parg (?fs ! i)) \<noteq> v_id (parg ?f)" "nat (off (?fs ! i)) \<noteq> nat (off ?f)" if "i < length vs" for i
  proof -
    have i: "i < length ?fs" "i \<noteq> length vs" using that assms(3) by simp_all
    then have "map (\<lambda>f. v_id (parg f)) ?fs ! i \<noteq> map (\<lambda>f. v_id (parg f)) ?fs ! length vs" "map off ?fs ! i \<noteq> map off ?fs ! length vs"
      using ok assms(3) by (simp_all only: formals_ok_def nth_eq_iff_index_eq length_map not_False_eq_True)
    moreover have "0 \<le> off (?fs ! i)" using ok i(1) by (simp add: formals_ok_def list_all_length)
    ultimately show "v_id (parg (?fs ! i)) \<noteq> v_id (parg ?f)" "nat (off (?fs ! i)) \<noteq> nat (off ?f)" using r i(1) assms(3) by simp_all
  qed
  have fr: "in_frame (parg ?f) ?t = Some a" "cframes (world ?t) = cframes (world s)" by (simp_all add: in_frame_def VarExpr_PushFrame_def)
  have len: "length (cframes (world s) a) = frame_size k" using assms(2) by (simp add: bound_def)
  define s' where "s' = set_world (\<lambda>w. w\<lparr>cframes := (cframes w)(a := (cframes w a)[nat (off ?f) := Some v])\<rparr>) ?t"
  have "Assign_in C a (parg ?f) v s = Done s'"
    using r len fr by (simp add: Assign_in_def VarExpr_Assign_def frame_index_def off_def s'_def)
  moreover have "in_frame (parg (?fs ! i)) s' = Some a \<and> cframes (world s') a ! nat (off (?fs ! i)) = Some ((vs @ [v]) ! i)"
    if i: "i < length (vs @ [v])" for i
  proof (cases "i = length vs")
    case True
    then show ?thesis using r len by (simp add: s'_def in_frame_def VarExpr_PushFrame_def)
  next
    case False
    then have lt: "i < length vs" using i by simp
    then have "in_frame (parg (?fs ! i)) s = Some a" "cframes (world s) a ! nat (off (?fs ! i)) = Some (vs ! i)"
      using assms(2) by (simp_all add: bound_def)
    then show ?thesis using d [OF lt] lt by (simp add: s'_def in_frame_def VarExpr_PushFrame_def nth_append)
  qed
  then have "bound k a (vs @ [v]) s'"
    using assms(3) len unfolding bound_def by (simp add: s'_def VarExpr_PushFrame_def)
  ultimately show ?thesis by blast
qed

lemma EvalParam_good:
  assumes "eval_good I C a"
  shows "\<exists>v fl' s'. EvalParam I C f e fl s = Done (Inr v, fl', s') \<and> frame_kept a s s'"
proof -
  obtain v fl' s' where "CopyEval I e fl s = Done (Some v, fl', s')" "\<not> is_fail C v" "frame_kept a s s'"
    using assms unfolding eval_good_def by blast
  moreover obtain u fl2 s2 where "ref_eval C e VAL_REF fl s = Done (Some u, fl2, s2)" "\<not> is_fail C u" "frame_kept a s s2"
    using assms unfolding eval_good_def by blast
  ultimately show ?thesis by (cases "parm_type f") (auto simp: EvalParam_def checked_def)
qed

text \<open>Evaluating an expression for the next formal and storing its value.\<close>

definition evaluated ::
  "('e, 'p, 'v, ('v, 'w) call_world) interp \<Rightarrow> ('e, 'v, 'w) call_ops \<Rightarrow> ('e, 'p) UserFuncKernel \<Rightarrow> nat \<Rightarrow> 'v list \<Rightarrow> 'e \<Rightarrow> 'v \<Rightarrow> bool" where
  "evaluated I C k a vs e v \<longleftrightarrow> (\<exists>fl t fl' t'. EvalParam I C (formals k ! length vs) e fl t = Done (Inr v, fl', t') \<and> bound k a vs t)"

lemma bind_next:
  assumes "kernel_ok k" and "bound k a vs s" and "length vs < length (formals k)" and "eval_good I C a"
  obtains v fl' t' s' where "EvalParam I C (formals k ! length vs) e fl s = Done (Inr v, fl', t')"
    and "Assign_in C a (parg (formals k ! length vs)) v t' = Done s'" and "bound k a (vs @ [v]) s'" and "evaluated I C k a vs e v"
proof -
  obtain v fl' t' where e: "EvalParam I C (formals k ! length vs) e fl s = Done (Inr v, fl', t')" and "frame_kept a s t'"
    using EvalParam_good [OF assms(4)] by blast
  then have "bound k a vs t'" using assms(2) bound_kept by blast
  then obtain s' where s': "Assign_in C a (parg (formals k ! length vs)) v t' = Done s'" "bound k a (vs @ [v]) s'"
    using Assign_in_bound [OF assms(1) _ assms(3)] by blast
  have "evaluated I C k a vs e v" unfolding evaluated_def using e assms(2) by blast
  then show ?thesis by (rule that [OF e s'])
qed

section \<open>Matching binds every formal\<close>

definition fields :: "'v list \<Rightarrow> (string \<times> 'v) list" where
  "fields us = zip (map field_name [1..<length us + 1]) us"

lemma fields_snoc: "add_field u (fields us) = fields (us @ [u])"
proof -
  have "[1..<length (us @ [u]) + 1] = [1..<length us + 1] @ [length us + 1]" by simp
  then show ?thesis by (simp add: add_field_def fields_def del: upt_Suc)
qed

lemma fields_Nil [simp]: "fields [] = []"
  by (simp add: fields_def)

text \<open>The values of the further arguments.\<close>

definition further_values :: "('e, 'v, 'w) call_ops \<Rightarrow> 'e option list \<Rightarrow> 'v list \<Rightarrow> bool" where
  "further_values C es us \<longleftrightarrow> list_all2 (\<lambda>e u. \<exists>x fl t fl' t'. e = Some x \<and> ref_eval C x VAL_CONST fl t = Done (Some u, fl', t')) es us"

text \<open>Each of the first values is what its formal is to get.\<close>

definition values_ok ::
  "('e, 'p, 'v, ('v, 'w) call_world) interp \<Rightarrow> ('e, 'v, 'w) call_ops \<Rightarrow> ('e, 'p) UserFuncKernel \<Rightarrow> nat \<Rightarrow> (nat \<Rightarrow> 'e option) \<Rightarrow> 'v list \<Rightarrow> 'v list \<Rightarrow> bool" where
  "values_ok I C k a src us vs \<longleftrightarrow> (\<forall>i < length vs.
     if is_ellipsis (formals k ! i) then vs ! i = irecord C (fields us)
     else \<exists>e. src i = Some e \<and> evaluated I C k a (take i vs) e (vs ! i))"

lemma values_ok_snoc:
  assumes "values_ok I C k a src us vs"
    and "if is_ellipsis (formals k ! length vs) then v = irecord C (fields us) else \<exists>e. src (length vs) = Some e \<and> evaluated I C k a vs e v"
  shows "values_ok I C k a src us (vs @ [v])"
  using assms by (auto simp: values_ok_def nth_append less_Suc_eq)

lemma values_ok_us:
  assumes "values_ok I C k a src us vs" and "\<forall>i < length vs. \<not> is_ellipsis (formals k ! i)"
  shows "values_ok I C k a src us' vs"
  using assms by (simp add: values_ok_def)

text \<open>What holds after \<open>i\<close> positional arguments.\<close>

definition matched ::
  "('e, 'p, 'v, ('v, 'w) call_world) interp \<Rightarrow> ('e, 'v, 'w) call_ops \<Rightarrow> ('e, 'p) UserFuncKernel \<Rightarrow> nat \<Rightarrow> (nat \<Rightarrow> 'e option) \<Rightarrow> 'e option list
    \<Rightarrow> 'v list \<Rightarrow> 'v list \<Rightarrow> 'v matching \<Rightarrow> ('v, 'w) cstate \<Rightarrow> bool" where
  "matched I C k a src es us vs m s \<longleftrightarrow> bound k a vs s \<and> values_ok I C k a src us vs \<and> further_values C es us
     \<and> num_args m = length vs \<and> arg_cnt m = length vs \<and> ellipsis_value m = map_option (\<lambda>_. fields us) (ellipsis_position k)"

lemma positional_formals:
  assumes "kernel_ok k" and "i < positional_count k"
  shows "i < length (formals k)" and "\<not> is_ellipsis (formals k ! i)"
  using assms by (auto simp: kernel_ok_def positional_count_def split: option.splits)

lemma match_bind:
  assumes "kernel_ok k" and "eval_good I C a" and m: "matched I C k a src es us vs m s" and "length vs < positional_count k"
    and "src (length vs) = Some e"
  shows "\<exists>v m' fl' s'. bind_positional I C (formals k) a (length vs) (formals k ! length vs) e b m fl s = Done (None, m', fl', s')
     \<and> matched I C k a src es us (vs @ [v]) m' s' \<and> missing m' = missing m @ [b]"
proof -
  note f = positional_formals [OF assms(1,4)]
  have bd: "bound k a vs s" using m by (simp add: matched_def)
  obtain v fl' t' s' where e: "EvalParam I C (formals k ! length vs) e fl s = Done (Inr v, fl', t')"
    and as: "Assign_in C a (parg (formals k ! length vs)) v t' = Done s'" and b': "bound k a (vs @ [v]) s'" and ev: "evaluated I C k a vs e v"
    by (rule bind_next [OF assms(1) bd f(1) assms(2)])
  have "values_ok I C k a src us (vs @ [v])" using m f(2) assms(5) ev by (intro values_ok_snoc) (simp_all add: matched_def)
  then have "matched I C k a src es us (vs @ [v]) (add_missing b (m\<lparr>arg_cnt := arg_cnt m + 1, num_args := num_args m + 1\<rparr>)) s'"
    using m b' by (simp add: matched_def add_missing_def)
  moreover have "bind_positional I C (formals k) a (length vs) (formals k ! length vs) e b m fl s
    = Done (None, add_missing b (m\<lparr>arg_cnt := arg_cnt m + 1, num_args := num_args m + 1\<rparr>), fl', s')"
    by (simp add: bind_positional_def e as formal_at_def f(1))
  ultimately show ?thesis by (auto simp: add_missing_def)
qed

lemma match_further:
  assumes "kernel_ok k" and "eval_good I C a" and m: "matched I C k a src es us vs m s" and "length vs = positional_count k"
    and "ellipsis_position k \<noteq> None"
  shows "\<exists>u m' fl' s'. ArgOverFlow I C (Some e) nf m fl s = Done (None, m', fl', s')
     \<and> matched I C k a src (es @ [Some e]) (us @ [u]) vs m' s' \<and> missing m' = missing m"
proof -
  obtain u fl' s' where e: "ref_eval C e VAL_CONST fl s = Done (Some u, fl', s')" and kp: "frame_kept a s s'"
    using assms(2) unfolding eval_good_def by blast
  have "\<forall>i < length vs. \<not> is_ellipsis (formals k ! i)" using positional_formals(2) [OF assms(1)] assms(4) by simp
  moreover have "further_values C (es @ [Some e]) (us @ [u])" using m e unfolding matched_def further_values_def
    by (intro list_all2_appendI) (auto simp: list_all2_Cons1)
  ultimately have "matched I C k a src (es @ [Some e]) (us @ [u]) vs (m\<lparr>ellipsis_value := map_option (add_field u) (ellipsis_value m)\<rparr>) s'"
    using m kp by (auto simp: matched_def fields_snoc option.map_comp comp_def intro: bound_kept values_ok_us)
  then show ?thesis using m e assms(5) by (auto simp: ArgOverFlow_def AddEllipsisValue_def matched_def)
qed

text \<open>One positional argument.\<close>

lemma match_one_ok:
  assumes k: "kernel_ok k" "eval_good I C a" and m: "matched I C k a src es us vs m s" and p: "pname p = None" "\<not> is_ellipsis p"
    and i: "length vs = min i (positional_count k)"
    and src: "i < positional_count k \<Longrightarrow> src i = (if is_empty p then default_value (formals k ! i) else parg p) \<and> src i \<noteq> None"
    and ov: "positional_count k \<le> i \<Longrightarrow> ellipsis_position k \<noteq> None \<and> x \<noteq> None
      \<and> x = (if is_empty p then Option.bind (ellipsis_position k) (\<lambda>i. default_value (formals k ! i)) else parg p)"
  shows "\<exists>us' vs' m' fl' s'. match_one n I C k (positional_count k) a i p m fl s = Done (None, m', fl', s')
     \<and> matched I C k a src (if i < positional_count k then es else es @ [x]) us' vs' m' s' \<and> length vs' = min (Suc i) (positional_count k)
     \<and> missing m' = missing m @ [is_empty p]"
proof (cases "i < positional_count k")
  case True
  then have l: "length vs = i" "num_args m = i" using i m by (simp_all add: matched_def)
  obtain e where e: "src (length vs) = Some e" using src [OF True] l(1) by blast
  note f = positional_formals [OF k(1) True]
  obtain v m' fl' s' where b: "bind_positional I C (formals k) a (length vs) (formals k ! length vs) e (is_empty p) m fl s = Done (None, m', fl', s')"
    "matched I C k a src es us (vs @ [v]) m' s'" "missing m' = missing m @ [is_empty p]"
    using match_bind [OF k m _ e, of "is_empty p" fl] True l(1) by auto
  then have "match_one n I C k (positional_count k) a i p m fl s = Done (None, m', fl', s')"
    using True l e src f p by (auto simp: match_one_def formal_at_def)
  then show ?thesis using b(2,3) True l by (intro exI [of _ us] exI [of _ "vs @ [v]"]) auto
next
  case False
  then have l: "length vs = positional_count k" "num_args m = positional_count k" using i m by (simp_all add: matched_def)
  obtain e where e: "x = Some e" "ellipsis_position k \<noteq> None" using ov False by auto
  obtain ep where ep: "ellipsis_position k = Some ep" "ep < length (formals k)" using e(2) k(1) by (auto simp: kernel_ok_def)
  obtain u m' fl' s' where b: "ArgOverFlow I C (Some e) (positional_count k) m fl s = Done (None, m', fl', s')"
    "matched I C k a src (es @ [Some e]) (us @ [u]) vs m' s'" "missing m' = missing m"
    using match_further [OF k m l(1) e(2), of e "positional_count k" fl] by blast
  have "match_one n I C k (positional_count k) a i p m fl s = Done (None, add_missing (is_empty p) m', fl', s')"
    using False l e(1) ep ov p b(1) by (auto simp: match_one_def formal_at_def)
  moreover have "matched I C k a src (es @ [Some e]) (us @ [u]) vs (add_missing (is_empty p) m') s'"
    using b(2) by (simp add: matched_def add_missing_def)
  ultimately show ?thesis using False l e(1) b(3) by (intro exI [of _ "us @ [u]"] exI [of _ vs]) (auto simp: add_missing_def)
qed

definition further_source :: "('e, 'p) UserFuncKernel \<Rightarrow> 'e actual \<Rightarrow> 'e option" where
  "further_source k p = (if is_empty p then Option.bind (ellipsis_position k) (\<lambda>i. default_value (formals k ! i)) else parg p)"

lemma match_positional_ok:
  assumes k: "kernel_ok k" "eval_good I C a"
  shows "list_all (\<lambda>p. pname p = None \<and> \<not> is_ellipsis p) qs \<Longrightarrow>
    (\<And>j. j < length qs \<Longrightarrow> i + j < positional_count k \<Longrightarrow>
      src (i + j) = (if is_empty (qs ! j) then default_value (formals k ! (i + j)) else parg (qs ! j)) \<and> src (i + j) \<noteq> None) \<Longrightarrow>
    list_all (\<lambda>e. e \<noteq> None) (map (further_source k) (drop (positional_count k - i) qs)) \<Longrightarrow>
    (drop (positional_count k - i) qs \<noteq> [] \<Longrightarrow> ellipsis_position k \<noteq> None) \<Longrightarrow>
    matched I C k a src es us vs m s \<Longrightarrow> length vs = min i (positional_count k) \<Longrightarrow>
    \<exists>us' vs' m' fl' s'. match_positional n I C k (positional_count k) a i (qs @ ns) m fl s = match_positional n I C k (positional_count k) a (i + length qs) ns m' fl' s'
      \<and> matched I C k a src (es @ map (further_source k) (drop (positional_count k - i) qs)) us' vs' m' s'
      \<and> length vs' = min (i + length qs) (positional_count k) \<and> missing m' = missing m @ map is_empty qs"
proof (induction qs arbitrary: i es us vs m fl s)
  case Nil
  then show ?case by (intro exI [of _ us] exI [of _ vs] exI [of _ m] exI [of _ fl] exI [of _ s]) simp
next
  case (Cons p qs)
  let ?nf = "positional_count k"
  have p: "pname p = None" "\<not> is_ellipsis p" using Cons.prems(1) by simp_all
  have src: "src i = (if is_empty p then default_value (formals k ! i) else parg p) \<and> src i \<noteq> None" if "i < ?nf"
    using Cons.prems(2) [of 0, unfolded add_0_right nth_Cons_0, OF _ that] by fastforce
  have ov: "ellipsis_position k \<noteq> None \<and> further_source k p \<noteq> None
      \<and> further_source k p = (if is_empty p then Option.bind (ellipsis_position k) (\<lambda>i. default_value (formals k ! i)) else parg p)" if "?nf \<le> i"
    using Cons.prems(3,4) that by (simp add: further_source_def)
  let ?es = "if i < ?nf then es else es @ [further_source k p]"
  obtain us1 vs1 m1 fl1 s1 where 1: "match_one n I C k ?nf a i p m fl s = Done (None, m1, fl1, s1)"
    "matched I C k a src ?es us1 vs1 m1 s1" "length vs1 = min (Suc i) ?nf" "missing m1 = missing m @ [is_empty p]"
    using match_one_ok [OF k Cons.prems(5) p Cons.prems(6) src ov, of n fl] by blast
  have d: "drop (?nf - i) (p # qs) = (if i < ?nf then drop (?nf - Suc i) qs else p # drop (?nf - Suc i) qs)"
  proof (cases "i < ?nf")
    case True
    then have "?nf - i = Suc (?nf - Suc i)" by simp
    then show ?thesis using True by simp
  qed simp
  have src1: "src (Suc i + j) = (if is_empty (qs ! j) then default_value (formals k ! (Suc i + j)) else parg (qs ! j)) \<and> src (Suc i + j) \<noteq> None"
    if "j < length qs" "Suc i + j < ?nf" for j
    using Cons.prems(2) [of "Suc j", unfolded add_Suc_right add_Suc [symmetric] nth_Cons_Suc] that by fastforce
  have pr: "list_all (\<lambda>p. pname p = None \<and> \<not> is_ellipsis p) qs" "list_all (\<lambda>e. e \<noteq> None) (map (further_source k) (drop (?nf - Suc i) qs))"
    "drop (?nf - Suc i) qs \<noteq> [] \<Longrightarrow> ellipsis_position k \<noteq> None"
    using Cons.prems(1,3,4) d by (auto split: if_splits)
  obtain us' vs' m' fl' s' where 2: "match_positional n I C k ?nf a (Suc i) (qs @ ns) m1 fl1 s1 = match_positional n I C k ?nf a (Suc i + length qs) ns m' fl' s'"
    "matched I C k a src (?es @ map (further_source k) (drop (?nf - Suc i) qs)) us' vs' m' s'" "length vs' = min (Suc i + length qs) ?nf"
    "missing m' = missing m1 @ map is_empty qs"
    using Cons.IH [OF pr(1) src1 pr(2,3) 1(2,3), of fl1] by blast
  have "match_positional n I C k ?nf a i ((p # qs) @ ns) m fl s = match_positional n I C k ?nf a (i + length (p # qs)) ns m' fl' s'"
    using p 1(1) 2(1) by simp
  moreover have "?es @ map (further_source k) (drop (?nf - Suc i) qs) = es @ map (further_source k) (drop (?nf - i) (p # qs))" using d by simp
  ultimately show ?case using 1(4) 2(2-4) by (intro exI [of _ us'] exI [of _ vs'] exI [of _ m'] exI [of _ fl'] exI [of _ s']) simp
qed

lemma check_named_ok:
  "list_all (\<lambda>p. case pname p of None \<Rightarrow> False | Some x \<Rightarrow> formal_index x fs < length fs \<and> arg_cnt m \<le> formal_index x fs) ns \<Longrightarrow>
    check_named I C fs nf ec i ns m fl s = Done (None, m, fl, s)"
  by (induction ns arbitrary: i) (auto simp: Let_def split: option.splits)

lemma find_named_ok:
  "list_all (\<lambda>p. pname p \<noteq> None) ns \<Longrightarrow> x \<noteq> None \<Longrightarrow> find_named x ns = Done (find (\<lambda>p. pname p = x) ns)"
  by (induction ns) (auto split: option.splits)

text \<open>One of the remaining formals.\<close>

lemma bind_rest_ok:
  assumes k: "kernel_ok k" "eval_good I C a" and m: "matched I C k a src es us vs m s" and l: "length vs < length (formals k)"
    and ns: "list_all (\<lambda>p. pname p \<noteq> None) ns"
    and src: "\<not> is_ellipsis (formals k ! length vs) \<Longrightarrow> src (length vs) \<noteq> None \<and>
      src (length vs) = (case find (\<lambda>p. pname p = pname (formals k ! length vs)) ns of Some p \<Rightarrow> parg p | None \<Rightarrow> default_value (formals k ! length vs))"
  shows "\<exists>v m' fl' s'. bind_rest I C a (formals k ! length vs) ns m fl s = Done (None, m', fl', s')
    \<and> matched I C k a src es us (vs @ [v]) (m'\<lparr>num_args := num_args m' + 1\<rparr>) s' \<and> take (length (missing m)) (missing m') = missing m"
proof (cases "is_ellipsis (formals k ! length vs)")
  case True
  let ?v = "irecord C (fields us)"
  have "bound k a vs s" using m by (simp add: matched_def)
  then obtain s' where a: "Assign_in C a (parg (formals k ! length vs)) ?v s = Done s'" "bound k a (vs @ [?v]) s'"
    using Assign_in_bound [OF k(1) _ l] by blast
  have "ellipsis_value m = Some (fields us)" using m k(1) True l by (auto simp: matched_def kernel_ok_def)
  then have "bind_rest I C a (formals k ! length vs) ns m fl s = Done (None, m\<lparr>arg_cnt := arg_cnt m + 1\<rparr>, fl, s')"
    using True a(1) by (simp add: bind_rest_def)
  moreover have "values_ok I C k a src us (vs @ [?v])" using m True by (intro values_ok_snoc) (simp_all add: matched_def)
  then have "matched I C k a src es us (vs @ [?v]) (m\<lparr>arg_cnt := arg_cnt m + 1, num_args := num_args m + 1\<rparr>) s'"
    using m a(2) by (simp add: matched_def)
  ultimately show ?thesis by (intro exI [of _ ?v] exI [of _ "m\<lparr>arg_cnt := arg_cnt m + 1\<rparr>"] exI [of _ fl] exI [of _ s']) simp
next
  case False
  let ?f = "formals k ! length vs"
  have "?f \<in> set (formals k)" using l by simp
  then have x: "pname ?f \<noteq> None" using k(1) False by (auto simp: kernel_ok_def formals_ok_def list_all_iff)
  obtain e where e: "src (length vs) = Some e" using src [OF False] by blast
  have bd: "bound k a vs s" using m by (simp add: matched_def)
  obtain v fl' t' s' where ev: "EvalParam I C ?f e fl s = Done (Inr v, fl', t')" "Assign_in C a (parg ?f) v t' = Done s'"
    "bound k a (vs @ [v]) s'" "evaluated I C k a vs e v"
    by (rule bind_next [OF k(1) bd l k(2)])
  have "values_ok I C k a src us (vs @ [v])" using m False e ev(4) by (intro values_ok_snoc) (simp_all add: matched_def)
  then have mt: "matched I C k a src es us (vs @ [v]) ((add_missing b (m\<lparr>arg_cnt := arg_cnt m + 1\<rparr>))\<lparr>num_args := num_args m + 1\<rparr>) s'" for b
    using m ev(3) by (simp add: matched_def add_missing_def)
  obtain b where "bind_rest I C a ?f ns m fl s = Done (None, add_missing b (m\<lparr>arg_cnt := arg_cnt m + 1\<rparr>), fl', s')"
  proof (cases "find (\<lambda>p. pname p = pname ?f) ns")
    case None
    then have "default_value ?f = Some e" using src [OF False] e by simp
    then show ?thesis using that [of "default_missing C ?f e (missing m)"] None ev(1,2) False find_named_ok [OF ns x]
      by (simp add: bind_rest_def)
  next
    case (Some p)
    then have "parg p = Some e" using src [OF False] e by simp
    then show ?thesis using that [of False] Some ev(1,2) False find_named_ok [OF ns x] by (simp add: bind_rest_def)
  qed
  then show ?thesis using mt [of b] by (intro exI [of _ v] exI [of _ "add_missing b (m\<lparr>arg_cnt := arg_cnt m + 1\<rparr>)"] exI [of _ fl'] exI [of _ s'])
      (simp add: add_missing_def)
qed

lemma fill_formals_ok:
  assumes k: "kernel_ok k" "eval_good I C a" and ns: "list_all (\<lambda>p. pname p \<noteq> None) ns"
  shows "fs = drop (length vs) (formals k) \<Longrightarrow> matched I C k a src es us vs m s \<Longrightarrow>
    (\<And>j. length vs \<le> j \<Longrightarrow> j < length (formals k) \<Longrightarrow> \<not> is_ellipsis (formals k ! j) \<Longrightarrow> src j \<noteq> None \<and>
      src j = (case find (\<lambda>p. pname p = pname (formals k ! j)) ns of Some p \<Rightarrow> parg p | None \<Rightarrow> default_value (formals k ! j))) \<Longrightarrow>
    \<exists>vs' m' fl' s'. fill_formals I C a fs ns m fl s = Done (None, m', fl', s') \<and> matched I C k a src es us vs' m' s'
      \<and> length vs' = length (formals k) \<and> take (length (missing m)) (missing m') = missing m"
proof (induction fs arbitrary: vs m fl s)
  case Nil
  then have "length vs = length (formals k)" by (simp add: matched_def bound_def)
  then show ?case using Nil.prems(2) by auto
next
  case (Cons f fs)
  have l: "length vs < length (formals k)" using Cons.prems(1) by (metis drop_eq_Nil2 list.distinct(1) not_less)
  then have f: "f = formals k ! length vs" "fs = drop (Suc (length vs)) (formals k)"
    using Cons.prems(1) Cons_nth_drop_Suc [OF l] by (metis list.inject)+
  obtain v m1 fl1 s1 where 1: "bind_rest I C a (formals k ! length vs) ns m fl s = Done (None, m1, fl1, s1)"
    "matched I C k a src es us (vs @ [v]) (m1\<lparr>num_args := num_args m1 + 1\<rparr>) s1" "take (length (missing m)) (missing m1) = missing m"
    using bind_rest_ok [OF k Cons.prems(2) l ns Cons.prems(3) [OF order_refl l], of fl] by blast
  have fs': "fs = drop (length (vs @ [v])) (formals k)" using f(2) by simp
  obtain vs' m' fl' s' where 2: "fill_formals I C a fs ns (m1\<lparr>num_args := num_args m1 + 1\<rparr>) fl1 s1 = Done (None, m', fl', s')"
    "matched I C k a src es us vs' m' s'" "length vs' = length (formals k)" "take (length (missing m1)) (missing m') = missing m1"
    using Cons.IH [OF fs' 1(2) Cons.prems(3), of fl1] by (auto simp: Suc_le_eq)
  have "take (length (missing m)) (missing m') = missing m"
  proof -
    have "length (missing m) \<le> length (missing m1)" using arg_cong [OF 1(3), of length] by simp
    then show ?thesis using 1(3) 2(4) by (metis take_take min.absorb1)
  qed
  then show ?case using 1(1) 2 f(1) by (intro exI [of _ vs'] exI [of _ m'] exI [of _ fl'] exI [of _ s']) simp
qed


section \<open>Calls keep the frames\<close>

text \<open>The flags and frames that evaluation keeps.\<close>

definition kept :: "evalOpt \<Rightarrow> ('v, 'w) cstate \<Rightarrow> evalOpt \<Rightarrow> ('v, 'w) cstate \<Rightarrow> bool" where
  "kept fl s fl' s' \<longleftrightarrow> flow_bits fl' = flow_bits fl \<and> value_bit fl' = value_bit fl \<and> same_frames s s'"

lemma keeps_kept: "keeps fl s (r, fl', s') \<longleftrightarrow> kept fl s fl' s'"
  by (simp add: keeps_def kept_def)

lemma kept_refl [simp]: "kept fl s fl s"
  by (simp add: kept_def)

lemma kept_trans [trans]: "kept fl s fl1 s1 \<Longrightarrow> kept fl1 s1 fl2 s2 \<Longrightarrow> kept fl s fl2 s2"
  by (auto simp: kept_def intro: same_frames_trans)

lemma kept_world [simp]: "kept fl s fl' (s'\<lparr>world := w\<rparr>) \<longleftrightarrow> kept fl s fl' s'"
  by (simp add: kept_def same_frames_def shape_def)

definition calls_ok :: "('e, 'p, 'v, ('v, 'w) call_world) interp \<Rightarrow> ('e, 'v, 'w) call_ops \<Rightarrow> bool" where
  "calls_ok I C \<longleftrightarrow> interp_ok I \<and> (\<forall>e t fl s. post (keeps fl s) (ref_eval C e t fl s))"

lemma post_step:
  assumes "post (\<lambda>(x, fl', s'). kept fl s fl' s') m" and "\<And>x fl' s'. kept fl s fl' s' \<Longrightarrow> post R (f (x, fl', s'))"
  shows "post R (andthen m f)"
  using assms by (cases m) auto

lemma post_match_step:
  assumes "post (\<lambda>(x, m, fl', s'). kept fl s fl' s') c" and "\<And>x m fl' s'. kept fl s fl' s' \<Longrightarrow> post R (f (x, m, fl', s'))"
  shows "post R (andthen c f)"
  using assms by (cases c) auto

text \<open>From a later state to an earlier one.\<close>

lemma post_from: "kept fl s fl1 s1 \<Longrightarrow> post (\<lambda>(x, fl', s'). kept fl1 s1 fl' s') m \<Longrightarrow> post (\<lambda>(x, fl', s'). kept fl s fl' s') m"
  by (erule post_mono) (auto intro: kept_trans)

lemma post_match_from: "kept fl s fl1 s1 \<Longrightarrow> post (\<lambda>(x, m, fl', s'). kept fl1 s1 fl' s') c \<Longrightarrow> post (\<lambda>(x, m, fl', s'). kept fl s fl' s') c"
  by (erule post_mono) (auto intro: kept_trans)

lemma eval_kept:
  assumes "calls_ok I C"
  shows "post (\<lambda>(x, fl', s'). kept fl s fl' s') (CopyEval I e fl s)" "post (\<lambda>(x, fl', s'). kept fl s fl' s') (ReadOnlyEval I e fl s)"
    "post (\<lambda>(x, fl', s'). kept fl s fl' s') (ref_eval C e t fl s)"
proof -
  have "post (keeps fl s) (ref_eval C e t fl s)" using assms unfolding calls_ok_def by blast
  moreover have "keeps fl s = (\<lambda>(x, fl', s'). kept fl s fl' s')" by (auto simp: keeps_kept)
  ultimately show "post (\<lambda>(x, fl', s'). kept fl s fl' s') (CopyEval I e fl s)" "post (\<lambda>(x, fl', s'). kept fl s fl' s') (ReadOnlyEval I e fl s)"
    "post (\<lambda>(x, fl', s'). kept fl s fl' s') (ref_eval C e t fl s)"
    using assms interp_okD(6,7) [of I fl s e] by (simp_all add: calls_ok_def)
qed

lemma match_fail_kept:
  assumes "calls_ok I C"
  shows "post (\<lambda>(x, m, fl', s'). kept fl s fl' s') (match_fail I msg m fl s)"
  using assms interp_okD(5) [of I s msg] by (simp add: match_fail_def calls_ok_def kept_def case_prod_unfold Let_def)

lemma EvalParam_kept:
  assumes "calls_ok I C"
  shows "post (\<lambda>(x, fl', s'). kept fl s fl' s') (EvalParam I C f e fl s)"
  unfolding EvalParam_def checked_def
  by (cases "parm_type f")
    (auto intro!: post_step [OF eval_kept(1) [OF assms]] post_step [OF eval_kept(3) [OF assms]] split: option.split simp: frame_fault_def)

lemma Assign_in_kept:
  "post (\<lambda>s'. seqr s' = seqr s \<and> line_num s' = line_num s \<and> next_addr s' = next_addr s) (Assign_in C a x v s)"
  by (simp add: Assign_in_def VarExpr_Assign_def VarExpr_PushFrame_def in_frame_def frame_index_def Let_def frame_fault_def)

lemma post_assign_step:
  assumes "kept fl s fl1 s1" and "\<And>s'. kept fl s fl1 s' \<Longrightarrow> post R (f s')"
  shows "post R (andthen (Assign_in C a x v s1) f)"
  by (rule post_andthen [OF Assign_in_kept]) (use assms in \<open>auto simp: kept_def same_frames_def shape_def\<close>)

lemma ellipsis_record_kept:
  assumes "calls_ok I C"
  shows "post (\<lambda>(x, fl', s'). kept fl s fl' s') (ellipsis_record who I C p fl s)"
  unfolding ellipsis_record_def
  by (auto intro!: post_step [OF eval_kept(2) [OF assms]] split: option.split simp: frame_fault_def)

lemma ellipsis_vals_kept:
  assumes "calls_ok I C"
  shows "post (\<lambda>(x, fl', s'). kept fl s fl' s') (NumEllipsisVals I C p fl s)" "post (\<lambda>(x, fl', s'). kept fl s fl' s') (NthEllipsisVal I C p i fl s)"
  unfolding NumEllipsisVals_def NthEllipsisVal_def
  by (auto intro!: post_step [OF ellipsis_record_kept [OF assms]] simp: frame_fault_def)

lemma AddEllipsisArgs_kept:
  assumes "calls_ok I C"
  shows "kept fl0 s0 fl s \<Longrightarrow> post (\<lambda>(x, m, fl', s'). kept fl0 s0 fl' s') (AddEllipsisArgs I C fs nf a p is m fl s)"
proof (induction "is" arbitrary: m fl s)
  case (Cons i "is")
  note ih = Cons.IH [OF kept_trans [OF Cons.prems]]
  have f: "post (\<lambda>(x, m, fl', s'). kept fl0 s0 fl' s') (match_fail I msg m fl s)" for msg
    using match_fail_kept [OF assms] post_match_from [OF Cons.prems] by blast
  show ?case
    by (auto intro!: f post_step [OF ellipsis_vals_kept(2) [OF assms]] ih post_assign_step split: option.split simp: frame_fault_def)
qed simp

lemma note_ellipsis_kept:
  assumes "calls_ok I C"
  shows "kept fl0 s0 fl s \<Longrightarrow> post (\<lambda>(m, fl', s'). kept fl0 s0 fl' s') (note_ellipsis n I C p j m fl s)"
proof (induction n arbitrary: j m fl s)
  case (Suc n)
  show ?case by (auto intro!: post_step [OF ellipsis_vals_kept(1) [OF assms]] Suc.IH intro: kept_trans [OF Suc.prems])
qed simp

lemma bind_positional_kept:
  assumes "calls_ok I C"
  shows "post (\<lambda>(x, m, fl', s'). kept fl s fl' s') (bind_positional I C fs a i f e b m fl s)"
  unfolding bind_positional_def
  by (auto intro!: post_step [OF EvalParam_kept [OF assms]] post_assign_step split: sum.split option.split simp: frame_fault_def)

lemma ArgOverFlow_kept:
  assumes "calls_ok I C"
  shows "post (\<lambda>(x, m, fl', s'). kept fl s fl' s') (ArgOverFlow I C e nf m fl s)"
  unfolding ArgOverFlow_def AddEllipsisValue_def
  by (auto intro!: match_fail_kept [OF assms] post_step [OF eval_kept(3) [OF assms]] split: option.split simp: frame_fault_def)

lemma match_one_kept:
  assumes "calls_ok I C"
  shows "post (\<lambda>(x, m, fl', s'). kept fl s fl' s') (match_one n I C k nf a i p m fl s)"
proof -
  have e: "post (\<lambda>(x, m, fl', s'). kept fl s fl' s') (andthen (note_ellipsis n I C p 0 m1 fl1 s1) (\<lambda>(m, fl, s). Done (r, m, fl, s)))"
    if "kept fl s fl1 s1" for m1 fl1 s1 r
    by (rule post_andthen [OF note_ellipsis_kept [OF assms that]]) auto
  have "post (\<lambda>(x, m, fl', s'). kept fl s fl' s') (andthen (NumEllipsisVals I C p fl s) (\<lambda>(cnt, fl, s).
         andthen (AddEllipsisArgs I C (formals k) nf a p [0..<cnt] m fl s) (\<lambda>(r, m, fl, s).
           andthen (note_ellipsis n I C p 0 m fl s) (\<lambda>(m, fl, s). Done (r, m, fl, s)))))"
    by (auto intro!: post_step [OF ellipsis_vals_kept(1) [OF assms]] post_match_step [OF AddEllipsisArgs_kept [OF assms]] e)
  then show ?thesis
    unfolding match_one_def
    by (auto intro!: match_fail_kept [OF assms] bind_positional_kept [OF assms] post_match_step [OF ArgOverFlow_kept [OF assms]]
        split: option.split simp: frame_fault_def)
qed

lemma match_positional_kept:
  assumes "calls_ok I C"
  shows "kept fl0 s0 fl s \<Longrightarrow> post (\<lambda>(x, i, m, fl', s'). kept fl0 s0 fl' s') (match_positional n I C k nf a i ps m fl s)"
proof (induction ps arbitrary: i m fl s)
  case (Cons p ps)
  show ?case
    using Cons.prems by (auto intro!: post_match_step [OF match_one_kept [OF assms]] Cons.IH intro: kept_trans [OF Cons.prems])
qed simp

lemma check_named_kept:
  assumes "calls_ok I C"
  shows "kept fl0 s0 fl s \<Longrightarrow> post (\<lambda>(x, m, fl', s'). kept fl0 s0 fl' s') (check_named I C fs nf ec i ps m fl s)"
proof (induction ps arbitrary: ec i m fl s)
  case (Cons p ps)
  have f: "post (\<lambda>(x, m, fl', s'). kept fl0 s0 fl' s') (match_fail I msg m fl s)" for msg
    using match_fail_kept [OF assms] post_match_from [OF Cons.prems] by blast
  have "post (\<lambda>(x, m, fl', s'). kept fl0 s0 fl' s') (andthen (ArgOverFlow I C (parg p) nf m fl s) (\<lambda>(r, m, fl, s).
      if r \<noteq> None then Done (r, add_missing False m, fl, s) else check_named I C fs nf (ec + 1) (i + 1) ps (add_missing False m) fl s))"
  proof (rule post_match_step [OF ArgOverFlow_kept [OF assms]])
    fix r and m :: "'c matching" and fl' s'
    assume "kept fl s fl' s'"
    then have k: "kept fl0 s0 fl' s'" by (rule kept_trans [OF Cons.prems])
    show "post (\<lambda>(x, m, fl', s'). kept fl0 s0 fl' s') (case (r, m, fl', s') of (r, m, fl, s) \<Rightarrow>
      if r \<noteq> None then Done (r, add_missing False m, fl, s) else check_named I C fs nf (ec + 1) (i + 1) ps (add_missing False m) fl s)"
      using k Cons.IH [OF k] by simp
  qed
  then show ?case using f Cons.IH [OF Cons.prems] by (simp add: Let_def split: option.split)
qed simp

lemma find_named_halts: "post (\<lambda>_. True) (find_named x ns)"
  by (induction ns) (auto split: option.split simp: frame_fault_def)

lemma bind_rest_kept:
  assumes "calls_ok I C"
  shows "post (\<lambda>(x, m, fl', s'). kept fl s fl' s') (bind_rest I C a f ns m fl s)"
  unfolding bind_rest_def Let_def
  by (auto intro!: match_fail_kept [OF assms] post_step [OF EvalParam_kept [OF assms]] post_andthen [OF find_named_halts] post_assign_step [where fl = fl and s = s]
      split: sum.split option.split simp: frame_fault_def)

lemma fill_formals_kept:
  assumes "calls_ok I C"
  shows "kept fl0 s0 fl s \<Longrightarrow> post (\<lambda>(x, m, fl', s'). kept fl0 s0 fl' s') (fill_formals I C a fs ns m fl s)"
proof (induction fs arbitrary: m fl s)
  case (Cons f fs)
  show ?case
    by (auto intro!: post_match_step [OF bind_rest_kept [OF assms]] Cons.IH intro: kept_trans [OF Cons.prems])
qed simp

lemma match_args_kept:
  assumes "calls_ok I C"
  shows "post (\<lambda>(x, m, fl', s'). kept fl s fl' s') (match_args n I C k a args fl s)"
  unfolding match_args_def Let_def
proof (rule post_andthen [OF match_positional_kept [OF assms kept_refl]], clarify)
  fix r i m fl1 s1
  assume k: "kept fl s fl1 s1"
  show "post (\<lambda>(x, m, fl', s'). kept fl s fl' s') (if r \<noteq> None then Done (r, m, fl1, s1)
     else andthen (check_named I C (formals k) (positional_count k) i i (drop i args) m fl1 s1) (\<lambda>(r, m, fl, s).
            if r \<noteq> None then Done (r, m, fl, s) else fill_formals I C a (drop (num_args m) (formals k)) (drop i args) m fl s))"
    using k by (auto intro!: post_match_step [OF check_named_kept [OF assms k]] fill_formals_kept [OF assms])
qed

text \<open>The offsets on the stack of frames are those of frames below the top.\<close>

definition offsets_below :: "('v, 'w) cstate \<Rightarrow> bool" where
  "offsets_below s \<longleftrightarrow> (\<forall>i \<in> set (soffsets (cur_stack (seqr s))). i < length (sframes (cur_stack (seqr s))))"

lemma offsets_below_kept:
  assumes "offsets_below s" and "kept fl s fl' s'"
  shows "offsets_below s'"
proof -
  have sh: "shape s' = shape s" using assms(2) by (simp add: kept_def same_frames_def)
  have "length (sframes (cur_stack (seqr s'))) = length (sframes (cur_stack (seqr s)))"
    using arg_cong [OF sh, of "length \<circ> fst"] by (simp add: shape_def)
  then show ?thesis using assms(1) sh by (simp add: offsets_below_def shape_def)
qed

lemma DoCall_kept:
  assumes "calls_ok I C"
  shows "post (\<lambda>(x, fl', s'). kept fl s fl' s') (DoCall n I C k fl s)"
proof -
  have I: "interp_ok I" using assms by (simp add: calls_ok_def)
  let ?fl = "fl\<lparr>fcount := fcount fl + 1\<rparr>"
  let ?flow = "if \<not> side_effects ?fl then set_ret VALUE_NEEDED ?fl else ?fl"
  have "post (ends (exits (func_body k)) ?flow (PushFailStack s)) (exec I n (func_body k) ?flow (PushFailStack s))"
    using exec_body_ok [OF I] by (simp add: body_ok_def)
  then show ?thesis unfolding DoCall_def Let_def
  proof (rule post_andthen, clarify)
    fix r fl1 s1
    assume e: "ends (exits (func_body k)) ?flow (PushFailStack s) (r, fl1, s1)"
    then have "same_frames s s1" by (simp add: ends_def PushFailStack_def same_frames_def shape_def)
    then have k: "kept fl s (?fl\<lparr>fcount := fcount ?fl - 1\<rparr>) s1" by (simp add: kept_def flow_bits_def value_bit_def)
    show "post (\<lambda>(x, fl', s'). kept fl s fl' s') (case PopFailStack C s1 of (unhandled, s) \<Rightarrow>
       Done (if \<not> suppress_auto_fail C \<and> unhandled \<noteq> None \<and> (case r of None \<Rightarrow> True | Some v \<Rightarrow> \<not> is_fail C v) then unhandled else r,
         ?fl\<lparr>fcount := fcount ?fl - 1\<rparr>,
         case if \<not> suppress_auto_fail C \<and> unhandled \<noteq> None \<and> (case r of None \<Rightarrow> True | Some v \<Rightarrow> \<not> is_fail C v) then unhandled else r of
           None \<Rightarrow> s | Some v \<Rightarrow> if is_fail C v then FailCreated v s else s))"
      using k by (auto simp: PopFailStack_def FailCreated_def Let_def split: option.split)
  qed
qed

text \<open>A function frame is popped as it was pushed.\<close>

lemma PopFrame_call:
  assumes "map (map_option frame_id) (sframes st') = map (map_option frame_id) (sframes (PushFrame (Some f) st))"
    and "soffsets st' = soffsets (PushFrame (Some f) st)" and "fscope f = FUNC_SCOPE" and "\<forall>i \<in> set (soffsets st). i < length (sframes st)"
  shows "\<exists>g st''. PopFrame st' = Inr (Some g, st'') \<and> faddr g = faddr f
    \<and> map (map_option frame_id) (sframes st'') = map (map_option frame_id) (sframes st) \<and> soffsets st'' = soffsets st"
proof -
  have p: "sframes (PushFrame (Some f) st) = sframes st @ [Some f]" "soffsets (PushFrame (Some f) st) = soffsets st @ [length (sframes st)]"
    using assms(3) by (simp_all add: PushFrame_def)
  obtain fs g where fs: "sframes st' = fs @ [Some g]" "map (map_option frame_id) fs = map (map_option frame_id) (sframes st)" "frame_id g = frame_id f"
    using assms(1) p(1) by (cases "sframes st'" rule: rev_cases) auto
  have l: "length fs = length (sframes st)" using arg_cong [OF fs(2), of length] by simp
  have g: "fscope g \<noteq> LOCAL_SCOPE" "faddr g = faddr f" using fs(3) assms(3) by (simp_all add: frame_id_def)
  have "length (sframes st) \<notin> set (soffsets st)" using assms(4) by auto
  then have "remove1 (length fs) (soffsets st') = soffsets st" using assms(2) p(2) l by (simp add: remove1_append)
  then have "PopFrame st' = Inr (Some g, st'\<lparr>sframes := fs, soffsets := soffsets st\<rparr>)"
    using g(1) by (simp add: PopFrame_def fs(1) Let_def)
  then show ?thesis using fs(2) g(2) by simp
qed

lemma fold_release: "seqr (fold (\<lambda>f. ReleaseFrames (parg f)) fs s) = seqr s \<and> line_num (fold (\<lambda>f. ReleaseFrames (parg f)) fs s) = line_num s
    \<and> next_addr (fold (\<lambda>f. ReleaseFrames (parg f)) fs s) = next_addr s"
  by (induction fs arbitrary: s) (simp_all add: ReleaseFrames_def)

lemma fold_pop: "seqr (fold (\<lambda>f. VarExpr_PopFrame (parg f)) fs s) = seqr s \<and> line_num (fold (\<lambda>f. VarExpr_PopFrame (parg f)) fs s) = line_num s
    \<and> next_addr (fold (\<lambda>f. VarExpr_PopFrame (parg f)) fs s) = next_addr s"
  by (induction fs arbitrary: s) (simp_all add: VarExpr_PopFrame_def)

lemma invoke_kept:
  assumes "calls_ok I C" and "offsets_below s"
  shows "post (\<lambda>(x, fl', s'). kept fl s fl' s') (invoke n I C k a ms fl s)"
proof -
  define s0 where "s0 = (if ms \<noteq> [] then set_world (\<lambda>w. w\<lparr>missing_info := (missing_info w)(a := ms)\<rparr>) s else s)"
  let ?f = "\<lparr>faddr = a, fscope = FUNC_SCOPE, fvalues = cframes (world s0) a\<rparr>"
  let ?p = "push_call_frame a s0"
  have sq: "seqr s0 = seqr s" "line_num s0 = line_num s" "next_addr s0 = next_addr s" by (simp_all add: s0_def)
  show ?thesis unfolding invoke_def Let_def s0_def [symmetric]
  proof (rule post_step [OF DoCall_kept [OF assms(1)]])
    fix r fl1 s1
    assume k: "kept fl ?p fl1 s1"
    then have sh: "shape s1 = shape ?p" "line_num s1 = line_num s" "next_addr s \<le> next_addr s1"
      using sq by (simp_all add: kept_def same_frames_def push_call_frame_def)
    let ?t = "fold (\<lambda>f. ReleaseFrames (parg f)) (formals k) s1"
    have t: "seqr ?t = seqr s1" "line_num ?t = line_num s1" "next_addr ?t = next_addr s1" using fold_release by blast+
    have e: "map (map_option frame_id) (sframes (cur_stack (seqr s1))) = map (map_option frame_id) (sframes (PushFrame (Some ?f) (cur_stack (seqr s))))"
      "soffsets (cur_stack (seqr s1)) = soffsets (PushFrame (Some ?f) (cur_stack (seqr s)))"
      using sh(1) unfolding shape_def push_call_frame_def sq by simp_all
    obtain g st where g: "PopFrame (cur_stack (seqr s1)) = Inr (Some g, st)" "faddr g = a"
      "map (map_option frame_id) (sframes st) = map (map_option frame_id) (sframes (cur_stack (seqr s)))" "soffsets st = soffsets (cur_stack (seqr s))"
      using PopFrame_call [OF e] assms(2) by (auto simp: offsets_below_def)
    have "kept fl s fl1 (?t\<lparr>seqr := (seqr ?t)\<lparr>cur_stack := st\<rparr>\<rparr>)"
      using k g(3,4) sh(2,3) t by (simp add: kept_def same_frames_def shape_def)
    then show "post (\<lambda>(x, fl', s'). kept fl s fl' s') (case (r, fl1, s1) of (result, fl, s) \<Rightarrow>
        case PopFrame (cur_stack (seqr (fold (\<lambda>f. ReleaseFrames (parg f)) (formals k) s))) of
          Inl e \<Rightarrow> Halt (Faulted e)
        | Inr (fr, st) \<Rightarrow> if map_option faddr fr \<noteq> Some a then Halt FrameInconsistency
            else Done (result, fl, (fold (\<lambda>f. ReleaseFrames (parg f)) (formals k) s)
              \<lparr>seqr := (seqr (fold (\<lambda>f. ReleaseFrames (parg f)) (formals k) s))\<lparr>cur_stack := st\<rparr>\<rparr>))"
      using g(1,2) t(1) by simp
  qed
qed


section \<open>Calls that go wrong\<close>

lemma Assign_in_cell:
  assumes "kernel_ok k" and "j < length (formals k)" and "length (cframes (world s) a) = frame_size k"
  shows "\<exists>s'. Assign_in C a (parg (formals k ! j)) v s = Done s' \<and> cframes (world s') a = (cframes (world s) a)[nat (off (formals k ! j)) := Some v]"
proof -
  have "0 \<le> off (formals k ! j)" "off (formals k ! j) < int (frame_size k)"
    using assms(1,2) by (auto simp: kernel_ok_def formals_ok_def list_all_length)
  then show ?thesis using assms(3)
    by (simp add: Assign_in_def VarExpr_Assign_def VarExpr_PushFrame_def in_frame_def frame_index_def off_def)
qed

lemma field_name_inject: "field_name i = field_name j \<longleftrightarrow> i = j"
  using digits_val_dec by (metis field_name_def list.inject)

lemma fields_nth:
  assumes "i < length us"
  shows "map_of (fields us) (field_name (i + 1)) = Some (us ! i)"
proof -
  let ?xs = "map field_name [1..<length us + 1]"
  have "distinct ?xs" by (simp add: distinct_map inj_on_def field_name_inject del: upt_Suc)
  then have "map_of (zip ?xs us) (?xs ! i) = Some (us ! i)" using assms by (intro map_of_zip_nth) simp_all
  moreover have "?xs ! i = field_name (i + 1)" using assms by (simp del: upt_Suc)
  ultimately show ?thesis by (simp only: fields_def)
qed

lemma fields_length [simp]: "length (fields us) = length us"
  by (simp add: fields_def del: upt_Suc)

lemma spread_ellipsis:
  assumes k: "kernel_ok k" "\<forall>f \<in> set (formals k). parm_type f = VAL_VAL"
    and e: "\<And>fl t. \<exists>fl'. ReadOnlyEval I e fl t = Done (Some v, fl', t)" "record_ptr C v = fields us"
    and len: "length us \<le> length (formals k)"
  shows "i \<le> length us \<Longrightarrow> num_args m = i \<Longrightarrow> length (cframes (world s) a) = frame_size k \<Longrightarrow>
    \<exists>m' fl' s'. AddEllipsisArgs I C (formals k) (length (formals k)) a (ActualEllipsis e) [i..<length us] m fl s = Done (None, m', fl', s')
      \<and> num_args m' = length us \<and> missing m' = missing m \<and> ellipsis_value m' = ellipsis_value m
      \<and> cframes (world s') a = fold (\<lambda>j c. c[nat (off (formals k ! j)) := Some (copy_value C (us ! j))]) [i..<length us] (cframes (world s) a)"
proof (induction "length us - i" arbitrary: i m fl s)
  case 0
  then show ?case by simp
next
  case (Suc d)
  then have i: "i < length us" "i < length (formals k)" "[i..<length us] = i # [Suc i..<length us]" using len by (simp_all add: upt_conv_Cons)
  obtain fl1 where "ReadOnlyEval I e fl s = Done (Some v, fl1, s)" using e(1) by blast
  then have nth: "NthEllipsisVal I C (ActualEllipsis e) i fl s = Done (us ! i, fl1, s)"
    using i(1) fields_nth [OF i(1)] by (simp add: NthEllipsisVal_def ellipsis_record_def ActualEllipsis_def e(2) fields_def)
  obtain s1 where s1: "Assign_in C a (parg (formals k ! i)) (copy_value C (us ! i)) s = Done s1"
    "cframes (world s1) a = (cframes (world s) a)[nat (off (formals k ! i)) := Some (copy_value C (us ! i))]"
    using Assign_in_cell [OF k(1) i(2) Suc.prems(3)] by blast
  have "parm_type (formals k ! i) = VAL_VAL" using k(2) i(2) by simp
  then have "AddEllipsisArgs I C (formals k) (length (formals k)) a (ActualEllipsis e) [i..<length us] m fl s
    = AddEllipsisArgs I C (formals k) (length (formals k)) a (ActualEllipsis e) [Suc i..<length us] (m\<lparr>arg_cnt := arg_cnt m + 1, num_args := num_args m + 1\<rparr>) fl1 s1"
    using i(2) Suc.prems(2) nth s1(1) unfolding i(3) by (simp add: formal_at_def)
  then show ?case
    using Suc.hyps(1) [of "Suc i" "m\<lparr>arg_cnt := arg_cnt m + 1, num_args := num_args m + 1\<rparr>" s1 fl1] Suc.hyps(2) Suc.prems i(1) s1(2) unfolding i(3) by auto
qed

lemma note_ellipsis_values:
  assumes e: "\<And>fl t. \<exists>fl'. ReadOnlyEval I e fl t = Done (Some v, fl', t)" "record_ptr C v = fields us"
  shows "length us - j < n \<Longrightarrow> \<exists>m' fl'. note_ellipsis n I C (ActualEllipsis e) j m fl s = Done (m', fl', s) \<and> num_args m' = num_args m
    \<and> ellipsis_value m' = ellipsis_value m"
proof (induction n arbitrary: j m fl)
  case (Suc n)
  obtain fl1 where "ReadOnlyEval I e fl s = Done (Some v, fl1, s)" using e(1) by blast
  then have num: "NumEllipsisVals I C (ActualEllipsis e) fl s = Done (length us, fl1, s)"
    by (simp add: NumEllipsisVals_def ellipsis_record_def ActualEllipsis_def e(2))
  show ?case
  proof (cases "j < length us")
    case True
    then have "length us - (j + 1) < n" using Suc.prems by simp
    then obtain m' fl' where "note_ellipsis n I C (ActualEllipsis e) (j + 1) (add_missing False m) fl1 s = Done (m', fl', s)"
      "num_args m' = num_args (add_missing False m)" "ellipsis_value m' = ellipsis_value (add_missing False m)"
      using Suc.IH by blast
    then show ?thesis using num True by (auto simp: add_missing_def)
  next
    case False
    then show ?thesis using num by auto
  qed
qed simp

lemma fold_cells:
  assumes "distinct (map f js)" and "\<forall>j \<in> set js. f j < length c"
  shows "j \<in> set js \<Longrightarrow> fold (\<lambda>j c. c[f j := Some (g j)]) js c ! f j = Some (g j)"
    and "i \<notin> f ` set js \<Longrightarrow> fold (\<lambda>j c. c[f j := Some (g j)]) js c ! i = c ! i"
    and "length (fold (\<lambda>j c. c[f j := Some (g j)]) js c) = length c"
proof -
  have l: "length (fold (\<lambda>j c. c[f j := Some (g j)]) xs c) = length c" for xs and c :: "'b option list"
    by (induction xs arbitrary: c) simp_all
  have o: "i \<notin> f ` set xs \<Longrightarrow> fold (\<lambda>j c. c[f j := Some (g j)]) xs c ! i = c ! i" for xs i and c :: "'b option list"
    by (induction xs arbitrary: c) auto
  show "length (fold (\<lambda>j c. c[f j := Some (g j)]) js c) = length c" by (rule l)
  show "i \<notin> f ` set js \<Longrightarrow> fold (\<lambda>j c. c[f j := Some (g j)]) js c ! i = c ! i" by (rule o)
  show "j \<in> set js \<Longrightarrow> fold (\<lambda>j c. c[f j := Some (g j)]) js c ! f j = Some (g j)"
    using assms
  proof (induction js arbitrary: c)
    case (Cons x js)
    then show ?case using o [of "f x" js] by (cases "j = x") auto
  qed simp
qed

text \<open>
  C36: an argument behind an actual ellipsis of two or more values is stored in the wrong formal: the value
  computed for the last formal overwrites the one the ellipsis gave to the second, and the last formal gets
  none, without an error.
\<close>


theorem ellipsis_misplaces_argument:
  assumes k: "kernel_ok k" "ellipsis_position k = None" "\<forall>f \<in> set (formals k). parm_type f = VAL_VAL" "length (formals k) = Suc (length us)"
    and us: "2 \<le> length us" and e: "\<And>fl t. \<exists>fl'. ReadOnlyEval I e fl t = Done (Some v, fl', t)" "record_ptr C v = fields us"
    and x: "\<And>fl t. \<exists>fl'. CopyEval I x fl t = Done (Some w, fl', t)" "\<not> is_fail C w"
    and s: "cframes (world s) a = replicate (frame_size k) None" and n: "length us < n"
  shows "\<exists>m fl' s'. match_args n I C k a [ActualEllipsis e, ActualParameter None x] fl s = Done (None, m, fl', s')
    \<and> cframes (world s') a ! nat (off (formals k ! 1)) = Some w
    \<and> cframes (world s') a ! nat (off (formals k ! length us)) = None"
proof -
  let ?fs = "formals k" and ?r = "length us" and ?f = "\<lambda>j. nat (off (formals k ! j))"
  have ok: "formals_ok ?fs (frame_size k)" using k(1) by (simp add: kernel_ok_def)
  have rg: "0 \<le> off (?fs ! j) \<and> off (?fs ! j) < int (frame_size k)" if "j < Suc ?r" for j
    using ok k(4) that by (simp add: formals_ok_def list_all_length)
  have inj: "?f i = ?f j \<longleftrightarrow> i = j" if "i < Suc ?r" "j < Suc ?r" for i j
  proof -
    have "off (?fs ! i) = off (?fs ! j) \<longleftrightarrow> i = j" using ok k(4) that by (auto simp: formals_ok_def distinct_conv_nth)
    then show ?thesis using rg [OF that(1)] rg [OF that(2)] by (auto simp: nat_eq_iff)
  qed
  have nf: "positional_count k = Suc ?r" by (simp add: positional_count_def k(2,4))
  obtain fl0 where e0: "ReadOnlyEval I e fl s = Done (Some v, fl0, s)" using e(1) by blast
  have le: "length us \<le> length ?fs" using k(4) by simp
  obtain m1 fl1 s1 where 1: "AddEllipsisArgs I C ?fs (Suc ?r) a (ActualEllipsis e) [0..<?r] (match_start k) fl0 s = Done (None, m1, fl1, s1)"
    "num_args m1 = ?r" "ellipsis_value m1 = None"
    "cframes (world s1) a = fold (\<lambda>j c. c[?f j := Some (copy_value C (us ! j))]) [0..<?r] (replicate (frame_size k) None)"
    using spread_ellipsis [OF k(1,3) e le, of 0 "match_start k" s a fl0] s k(2,4) by (auto simp: match_start_def)
  have n': "length us - 0 < n" using n by simp
  obtain m2 fl2 where 2: "note_ellipsis n I C (ActualEllipsis e) 0 m1 fl1 s1 = Done (m2, fl2, s1)" "num_args m2 = ?r" "ellipsis_value m2 = None"
    using note_ellipsis_values [OF e n', of m1 fl1 s1] 1(2,3) by auto
  have one: "match_one n I C k (Suc ?r) a 0 (ActualEllipsis e) (match_start k) fl s = Done (None, m2, fl2, s1)"
    using e0 1(1) 2(1) by (simp add: match_one_def NumEllipsisVals_def ellipsis_record_def ActualEllipsis_def e(2))
  have d: "distinct (map ?f [0..<?r])" "\<forall>j \<in> set [0..<?r]. ?f j < length (replicate (frame_size k) None :: 'c option list)"
    using inj rg by (auto simp: distinct_map inj_on_def) (metis less_SucI nat_less_iff)
  have last: "?f ?r \<notin> ?f ` set [0..<?r]" using inj by auto
  have lt: "?f ?r < frame_size k" using rg [of ?r] by auto
  have c1: "length (cframes (world s1) a) = frame_size k" "cframes (world s1) a ! ?f ?r = None"
    using fold_cells(3) [OF d, of "\<lambda>j. copy_value C (us ! j)"] fold_cells(2) [OF d last, of "\<lambda>j. copy_value C (us ! j)"] lt
    by (simp_all add: 1(4))
  obtain fl3 where e3: "CopyEval I x fl2 s1 = Done (Some w, fl3, s1)" using x(1) by blast
  have l1: "1 < length ?fs" using k(4) us by linarith
  obtain s3 where s3: "Assign_in C a (parg (?fs ! 1)) w s1 = Done s3" "cframes (world s3) a = (cframes (world s1) a)[?f 1 := Some w]"
    using Assign_in_cell [OF k(1) l1 c1(1)] by blast
  let ?m = "add_missing False (m2\<lparr>arg_cnt := arg_cnt m2 + 1, num_args := num_args m2 + 1\<rparr>)"
  have "parm_type (?fs ! ?r) = VAL_VAL" using k(3,4) by simp
  then have two: "match_one n I C k (Suc ?r) a 1 (ActualParameter None x) m2 fl2 s1 = Done (None, ?m, fl3, s3)"
    using e3 x(2) s3(1) l1 k(4) 2(2)
    by (simp add: match_one_def ActualParameter_def formal_at_def bind_positional_def EvalParam_def checked_def)
  have "match_args n I C k a [ActualEllipsis e, ActualParameter None x] fl s = Done (None, ?m, fl3, s3)"
    using one two 2(2) k(4) by (simp add: match_args_def nf ActualEllipsis_def ActualParameter_def add_missing_def)
  moreover have b: "1 < Suc ?r" "?r \<noteq> 1" using us by linarith+
  then have "?f ?r \<noteq> ?f 1" using inj [of ?r 1] by blast
  moreover have "?f 1 < length (cframes (world s1) a)" using rg [OF b(1)] c1(1) by auto
  ultimately show ?thesis using s3(2) c1(2) by auto
qed

text \<open>
  one empty argument too many for a function without ellipsis makes the call read the position of the
  ellipsis, which nothing has initialised.
\<close>

theorem missing_overflow_uninitialised:
  assumes "kernel_ok k" and "eval_good I C a" and "call_ok k ps []" and "length ps = length (formals k)" and "ellipsis_position k = None"
    and "length (cframes (world s) a) = frame_size k"
  shows "match_args n I C k a (ps @ [ActualMissing]) fl s = Halt (Faulted UninitialisedRead)"
proof -
  let ?src = "source k ps []"
  have nf: "positional_count k = length ps" by (simp add: positional_count_def assms(4,5))
  have ok: "list_all (\<lambda>p. pname p = None \<and> \<not> is_ellipsis p) ps" "\<forall>j < length (formals k). \<not> is_ellipsis (formals k ! j) \<longrightarrow> ?src j \<noteq> None"
    using assms(3) by (simp_all add: call_ok_def)
  have src: "?src (0 + j) = (if is_empty (ps ! j) then default_value (formals k ! (0 + j)) else parg (ps ! j)) \<and> ?src (0 + j) \<noteq> None"
    if j: "j < length ps" "0 + j < positional_count k" for j
  proof -
    have "?src j \<noteq> None" using ok(2) positional_formals [OF assms(1), of j] j by simp
    then show ?thesis using j by (simp add: source_def)
  qed
  have m0: "matched I C k a ?src [] [] [] (match_start k) s"
    using assms(6) by (simp add: matched_def bound_def values_ok_def further_values_def match_start_def)
  obtain us vs m1 fl1 s1 where 1: "match_positional n I C k (positional_count k) a 0 (ps @ [ActualMissing]) (match_start k) fl s
      = match_positional n I C k (positional_count k) a (length ps) [ActualMissing] m1 fl1 s1"
    "matched I C k a ?src [] us vs m1 s1" "length vs = length ps"
    using match_positional_ok [OF assms(1,2) ok(1) src _ _ m0, of n "[ActualMissing]" fl] by (auto simp: nf)
  have "num_args m1 = length ps" using 1(2,3) by (simp add: matched_def)
  then have "match_one n I C k (positional_count k) a (length ps) ActualMissing m1 fl1 s1 = Halt (Faulted UninitialisedRead)"
    by (simp add: match_one_def ActualMissing_def assms(5) nf)
  then show ?thesis by (simp add: match_args_def 1(1)) (simp add: ActualMissing_def)
qed

text \<open>Unwinding the frames of the formals.\<close>

lemma fold_pop_frames:
  assumes "distinct (map (\<lambda>f. v_id (parg f)) fs)" and "g \<in> set fs"
  shows "vframes (world (fold (\<lambda>f. VarExpr_PopFrame (parg f)) fs s)) (v_id (parg g)) = butlast (vframes (world s) (v_id (parg g)))"
    and "vhold (world (fold (\<lambda>f. VarExpr_PopFrame (parg f)) fs s)) (v_id (parg g))"
proof -
  have o: "vframes (world (fold (\<lambda>f. VarExpr_PopFrame (parg f)) fs s)) i = vframes (world s) i
      \<and> vhold (world (fold (\<lambda>f. VarExpr_PopFrame (parg f)) fs s)) i = vhold (world s) i" if "i \<notin> (\<lambda>f. v_id (parg f)) ` set fs" for fs s i
    using that by (induction fs arbitrary: s) (simp_all add: VarExpr_PopFrame_def)
  have "vframes (world (fold (\<lambda>f. VarExpr_PopFrame (parg f)) fs s)) (v_id (parg g)) = butlast (vframes (world s) (v_id (parg g)))
    \<and> vhold (world (fold (\<lambda>f. VarExpr_PopFrame (parg f)) fs s)) (v_id (parg g))"
    using assms
  proof (induction fs arbitrary: s)
    case (Cons f fs)
    show ?case
    proof (cases "g = f")
      case True
      then have "v_id (parg g) \<notin> (\<lambda>f. v_id (parg f)) ` set fs" using Cons.prems(1) by auto
      then show ?thesis using o [of "v_id (parg g)" fs "VarExpr_PopFrame (parg f) s"] True by (simp add: VarExpr_PopFrame_def)
    next
      case False
      then have "g \<in> set fs" "v_id (parg g) \<noteq> v_id (parg f)" using Cons.prems by (auto simp: image_iff)
      then show ?thesis using Cons.IH [of "VarExpr_PopFrame (parg f) s"] Cons.prems(1) by (simp add: VarExpr_PopFrame_def)
    qed
  qed simp
  then show "vframes (world (fold (\<lambda>f. VarExpr_PopFrame (parg f)) fs s)) (v_id (parg g)) = butlast (vframes (world s) (v_id (parg g)))"
    "vhold (world (fold (\<lambda>f. VarExpr_PopFrame (parg f)) fs s)) (v_id (parg g))" by blast+
qed

text \<open>
  C37: a call that fails because its first parameter is missing takes a frame from the variable of every
  formal, though it has pushed none. If it happens while the arguments of another call of the same
  function are evaluated, the formals that call had bound are looked up in the frames of the caller from
  then on.
\<close>

theorem failed_call_unbinds:
  assumes "valid k" and "kernel_ok k" and "\<not> too_deep C s" and "formals k = f # fs" and "\<not> is_ellipsis f" and "default_value f = None"
    and "\<And>msg t. vframes (world (snd (fail_value I msg t))) = vframes (world t)" and "g \<in> set (formals k)"
  shows "\<exists>v s'. Kernel_Call n I C k [] fl s = Done (Some v, fl, s')
    \<and> vframes (world s') (v_id (parg g)) = butlast (vframes (world s) (v_id (parg g)))
    \<and> VarExpr_Find (parg g) s' = FrameElement (vscope (v_var (parg g))) (soffset (v_var (parg g))) (foffset (v_var (parg g))) (seqr s')"
proof -
  obtain a s1 where a: "new_call_frame k s = (a, s1)" by (cases "new_call_frame k s")
  have v1: "vframes (world s1) = vframes (world s)" using a by (auto simp: new_call_frame_def Let_def)
  define msg where "msg = ''parameter '' @ (case pname f of Some x \<Rightarrow> x | None \<Rightarrow> []) @ '' missing in call to''"
  obtain v s2 where v: "fail_value I msg s1 = (v, s2)" by (cases "fail_value I msg s1")
  have v2: "vframes (world s2) = vframes (world s1)" using assms(7) [of msg s1] v by simp
  have "match_args n I C k a [] fl s1 = Done (Some v, match_start k, fl, s2)"
    using assms(4,5,6) v by (simp add: match_args_def match_start_def bind_rest_def match_fail_def msg_def)
  then have run: "Kernel_Call n I C k [] fl s = Done (Some v, fl, fold (\<lambda>f. VarExpr_PopFrame (parg f)) (formals k) s2)"
    using assms(1,3) a by (simp add: Kernel_Call_def)
  have d: "distinct (map (\<lambda>f. v_id (parg f)) (formals k))" using assms(2) by (simp add: kernel_ok_def formals_ok_def)
  show ?thesis using run fold_pop_frames [OF d assms(8), of s2] v1 v2
    by (intro exI [of _ v] exI [of _ "fold (\<lambda>f. VarExpr_PopFrame (parg f)) (formals k) s2"]) (simp add: VarExpr_Find_def in_frame_def)
qed

section \<open>Examples\<close>

text \<open>
  An interpreter to run examples with: literals, parameters (zero as long as they have no value) and records
  of numbers.
\<close>

datatype example_value = Num int | Rec "(string \<times> int) list" | Failure
datatype example_expr = Lit int | Var formal_var | Pack "int list"

definition example_eval ::
  "example_expr \<Rightarrow> evalOpt \<Rightarrow> (example_value, unit) cstate \<Rightarrow> (example_value, unit) call_result" where
  "example_eval e fl s = Done (Some (case e of
     Lit i \<Rightarrow> Num i
   | Var x \<Rightarrow> (case VarExpr_Find x s of Inr (Some v) \<Rightarrow> if v = Failure then Num 0 else v | _ \<Rightarrow> Num 0)
   | Pack is \<Rightarrow> Rec (fields is)), fl, s)"

definition example_interp :: "(example_expr, unit, example_value, (example_value, unit) call_world) interp" where
  "example_interp = \<lparr>eval = example_eval, side_effects_eval = example_eval, assign_to = \<lambda>e v fl s. Done (None, fl, s),
     invisible = \<lambda>e. False, prim_exec = \<lambda>p fl s. Done (None, set_flow NEXT fl, s),
     fail_value = \<lambda>m s. (Failure, s), set_fail_message = \<lambda>v m. v, bool_val = \<lambda>v. (v \<noteq> Num 0, None),
     int_val = \<lambda>v. case v of Num i \<Rightarrow> i | _ \<Rightarrow> 0, is_numeric = \<lambda>v. case v of Num _ \<Rightarrow> True | _ \<Rightarrow> False,
     is_string = \<lambda>v. False, is_record = \<lambda>v. case v of Rec _ \<Rightarrow> True | _ \<Rightarrow> False, int_ptr = \<lambda>v. case v of Num i \<Rightarrow> [i] | _ \<Rightarrow> [],
     vlength = \<lambda>v. 1, nth_field = \<lambda>v i. v, element = \<lambda>v i. v\<rparr>"

definition example_ops :: "(example_expr, example_value, unit) call_ops" where
  "example_ops = \<lparr>ref_eval = \<lambda>e t. example_eval e, is_fail = \<lambda>v. v = Failure, fail_marked = \<lambda>v. False, is_const = \<lambda>v. False,
     make_const = id, const_ref = id, copy_value = id,
     irecord = \<lambda>r. Rec (map (\<lambda>(x, v). (x, case v of Num i \<Rightarrow> i | _ \<Rightarrow> 0)) r),
     record_ptr = \<lambda>v. case v of Rec r \<Rightarrow> map (\<lambda>(x, i). (x, Num i)) r | _ \<Rightarrow> [],
     absent_field = Failure, FrameOffset = \<lambda>e. case e of Var x \<Rightarrow> foffset (v_var x) | _ \<Rightarrow> -1,
     stack_limit = 100, stack_len = 1, suppress_auto_fail = False\<rparr>"

definition example_var :: "nat \<Rightarrow> formal_var" where
  "example_var i = \<lparr>v_id = i, v_var = \<lparr>vscope = LOCAL_SCOPE, soffset = 0, foffset = int i, init_to_bool = False\<rparr>\<rparr>"

text \<open>\<open>func (a, b = a, ..., c = 7) b\<close>, and \<open>func (a, b, c) b\<close>.\<close>

definition example_formals :: "example_expr formal list" where
  "example_formals = [FormalParameter ''a'' VAL_VAL (example_var 0) None, FormalParameter ''b'' VAL_CONST (example_var 1) (Some (Var (example_var 0))),
     FormalEllipsis (example_var 2) None, FormalParameter ''c'' VAL_VAL (example_var 3) (Some (Lit 7))]"

definition example_func :: "(example_expr, unit) UserFuncKernel" where
  "example_func = UserFuncKernel_new example_formals (ReturnStmt 1 (Some (Var (example_var 1)))) 4"

definition plain_func :: "(example_expr, unit) UserFuncKernel" where
  "plain_func = UserFuncKernel_new (map (\<lambda>i. FormalParameter [char_of (97 + i)] VAL_VAL (example_var i) None) [0, 1, 2])
     (ReturnStmt 1 (Some (Var (example_var 1)))) 3"

definition example_state :: "nat \<Rightarrow> (example_value, unit) cstate" where
  "example_state n = \<lparr>seqr = Sequencer_init, next_addr = 1, line_num = 0, registered_stmts = [], last_note = None, last_fail = None,
     world = \<lparr>vframes = \<lambda>_. [], vhold = \<lambda>_. False, cframes = \<lambda>_. replicate n None, missing_info = \<lambda>_. [], fail_stack = [], call_rest = ()\<rparr>\<rparr>"

lemma example_func_ok: "kernel_ok example_func" "formals example_func = example_formals" "frame_size example_func = 4"
  "ellipsis_position example_func = Some 2" "valid example_func" "func_body example_func = ReturnStmt 1 (Some (Var (example_var 1)))"
proof -
  have v: "find_ellipsis example_formals 0 None = (True, Some 2)"
    by (simp add: example_formals_def FormalParameter_def FormalEllipsis_def)
  show "formals example_func = example_formals" "frame_size example_func = 4" "ellipsis_position example_func = Some 2" and e: "valid example_func"
    and "func_body example_func = ReturnStmt 1 (Some (Var (example_var 1)))"
    by (simp_all add: example_func_def UserFuncKernel_new_def v)
  have "formals_ok example_formals 4"
    by (simp add: formals_ok_def example_formals_def FormalParameter_def FormalEllipsis_def example_var_def off_def)
  then show "kernel_ok example_func" using kernel_ok_new e unfolding example_func_def by blast
qed

lemma plain_func_ok: "kernel_ok plain_func" "frame_size plain_func = 3" "ellipsis_position plain_func = None" "valid plain_func"
  "formals plain_func = map (\<lambda>i. FormalParameter [char_of (97 + i)] VAL_VAL (example_var i) None) [0, 1, 2]"
proof -
  let ?fs = "map (\<lambda>i. FormalParameter [char_of (97 + i)] VAL_VAL (example_var i) (None :: example_expr option)) [0, 1, 2]"
  have v: "find_ellipsis ?fs 0 None = (True, None)" by (simp add: FormalParameter_def)
  show "frame_size plain_func = 3" "ellipsis_position plain_func = None" "formals plain_func = ?fs" and e: "valid plain_func"
    unfolding plain_func_def UserFuncKernel_new_def v by simp_all
  have "formals_ok ?fs 3"
    by (simp add: formals_ok_def FormalParameter_def example_var_def off_def)
  then show "kernel_ok plain_func" using kernel_ok_new e unfolding plain_func_def by blast
qed

lemma example_eval_good: "eval_good example_interp example_ops a"
  by (auto simp: eval_good_def CopyEval_def example_interp_def example_eval_def example_ops_def frame_kept_def split: example_expr.split sum.split option.split)

lemma example_calls_ok: "calls_ok example_interp example_ops"
  by (auto simp: calls_ok_def interp_ok_def example_interp_def example_ops_def example_eval_def keeps_def ends_def flag_rules)



theorem ellipsis_misplaces_argument_witness:
  "\<exists>m fl' s'. match_args 5 example_interp example_ops plain_func 0 [ActualEllipsis (Pack [11, 12]), ActualParameter None (Lit 13)] evalOpt_new (example_state 3)
      = Done (None, m, fl', s') \<and> cframes (world s') 0 ! 1 = Some (Num 13) \<and> cframes (world s') 0 ! 2 = None"
proof -
  have e: "\<exists>fl'. ReadOnlyEval example_interp (Pack [11, 12]) fl t = Done (Some (Rec (fields [11, 12])), fl', t)"
    "\<exists>fl'. CopyEval example_interp (Lit 13) fl t = Done (Some (Num 13), fl', t)" for fl t
    by (simp_all add: ReadOnlyEval_def CopyEval_def example_interp_def example_eval_def)
  have r: "record_ptr example_ops (Rec (fields [11, 12])) = fields [Num 11, Num 12]" by (simp add: example_ops_def fields_def numeral_eq_Suc)
  have k: "\<forall>f \<in> set (formals plain_func). parm_type f = VAL_VAL" "length (formals plain_func) = Suc (length [Num 11, Num 12])"
    "nat (off (formals plain_func ! 1)) = 1" "nat (off (formals plain_func ! length [Num 11, Num 12])) = 2"
    by (simp_all add: plain_func_ok FormalParameter_def off_def example_var_def numeral_eq_Suc)
  have "cframes (world (example_state 3)) 0 = replicate (frame_size plain_func) None" by (simp add: example_state_def plain_func_ok)
  from ellipsis_misplaces_argument [OF plain_func_ok(1,3) k(1,2) _ e(1) r e(2) _ this, of 5 evalOpt_new, unfolded k(3,4)]
  show ?thesis by (simp add: example_ops_def)
qed

theorem missing_overflow_uninitialised_witness:
  "match_args 5 example_interp example_ops plain_func 0 (map (\<lambda>i. ActualParameter None (Lit i)) [1, 2, 3] @ [ActualMissing]) evalOpt_new (example_state 3)
     = Halt (Faulted UninitialisedRead)"
proof (rule missing_overflow_uninitialised [OF plain_func_ok(1) example_eval_good _ _ plain_func_ok(3)])
  let ?ps = "map (\<lambda>i. ActualParameter None (Lit i)) [1, 2, 3]"
  have p: "positional_count plain_func = 3" by (simp add: positional_count_def plain_func_ok)
  show "length ?ps = length (formals plain_func)" by (simp add: plain_func_ok)
  have "further plain_func ?ps = []" by (simp add: further_def p)
  then show "call_ok plain_func ?ps []"
    unfolding call_ok_def by (simp add: plain_func_ok p source_def ActualParameter_def FormalParameter_def less_Suc_eq numeral_eq_Suc)
  show "length (cframes (world (example_state 3)) 0) = frame_size plain_func" by (simp add: example_state_def plain_func_ok)
qed

theorem failed_call_unbinds_witness:
  "\<exists>v s'. Kernel_Call 5 example_interp example_ops plain_func [] evalOpt_new (VarExpr_PushFrame (example_var 0) 0 (example_state 3)) = Done (Some v, evalOpt_new, s')
     \<and> in_frame (example_var 0) (VarExpr_PushFrame (example_var 0) 0 (example_state 3)) = Some 0 \<and> vframes (world s') 0 = []"
proof -
  let ?s = "VarExpr_PushFrame (example_var 0) 0 (example_state 3)" and ?f = "\<lambda>i. FormalParameter [char_of (97 + i)] VAL_VAL (example_var i) (None :: example_expr option)"
  have f: "formals plain_func = ?f 0 # [?f 1, ?f 2]" using plain_func_ok(5) by simp
  have d: "\<not> too_deep example_ops ?s"
    by (simp add: too_deep_def example_ops_def FrameLen_def VarExpr_PushFrame_def example_state_def Sequencer_init_def PushScope_def)
  have fv: "vframes (world (snd (fail_value example_interp msg t))) = vframes (world t)" for msg t by (simp add: example_interp_def)
  have "?f 0 \<in> set (formals plain_func)" by (simp add: f)
  moreover have "\<not> is_ellipsis (?f 0)" "default_value (?f 0) = None" "v_id (parg (?f 0)) = 0" by (simp_all add: FormalParameter_def example_var_def)
  moreover have "in_frame (example_var 0) ?s = Some 0" "vframes (world ?s) 0 = [0]"
    by (simp_all add: in_frame_def VarExpr_PushFrame_def example_state_def example_var_def)
  ultimately show ?thesis
    using failed_call_unbinds [OF plain_func_ok(4,1) d f _ _ fv, of "?f 0" 5 evalOpt_new] by auto
qed

end
