(* ===== verification/C_Float.thy ===== *)
theory C_Float
  imports C_Double
begin

text \<open>
  The floating point arithmetic of C as IEEE 754 defines it: \<open>float\<close> and \<open>double\<close> are two formats of the
  same numbers, every operation is the exact one rounded to the nearest number of the format (to even on
  a tie, gradual underflow), with infinities, signed zeros and NaN. Every NaN is the same value here.
\<close>

record fp_format =
  precision :: nat
  least_exp :: int
  limit_exp :: int

definition float_format :: fp_format where
  "float_format = \<lparr>precision = 24, least_exp = - 149, limit_exp = 128\<rparr>"

definition double_format :: fp_format where
  "double_format = \<lparr>precision = 53, least_exp = - 1074, limit_exp = 1024\<rparr>"

datatype fp = NaN | Infinite bool | Zero bool | Number rat

definition round_to :: "fp_format \<Rightarrow> rat \<Rightarrow> fp" where
  "round_to F x = (let e = max (exponent \<bar>x\<bar> - (int (precision F) - 1)) (least_exp F);
                       r = of_int (round_even (\<bar>x\<bar> / two_pow e)) * two_pow e
     in if two_pow (limit_exp F) \<le> r then Infinite (x < 0)
        else if r = 0 then Zero (x < 0) else Number (if x < 0 then - r else r))"

fun is_infinite :: "fp \<Rightarrow> bool" where
  "is_infinite (Infinite _) = True"
| "is_infinite _ = False"

fun is_zero :: "fp \<Rightarrow> bool" where
  "is_zero (Zero _) = True"
| "is_zero _ = False"

fun fp_sign :: "fp \<Rightarrow> bool" where
  "fp_sign (Infinite s) = s"
| "fp_sign (Zero s) = s"
| "fp_sign (Number x) = (x < 0)"
| "fp_sign NaN = False"

fun fp_rat :: "fp \<Rightarrow> rat" where
  "fp_rat (Number x) = x"
| "fp_rat _ = 0"

fun fp_neg :: "fp \<Rightarrow> fp" where
  "fp_neg (Infinite s) = Infinite (\<not> s)"
| "fp_neg (Zero s) = Zero (\<not> s)"
| "fp_neg (Number x) = Number (- x)"
| "fp_neg NaN = NaN"

definition fp_add :: "fp_format \<Rightarrow> fp \<Rightarrow> fp \<Rightarrow> fp" where
  "fp_add F a b =
    (if a = NaN \<or> b = NaN then NaN
     else if is_infinite a then if is_infinite b \<and> fp_sign a \<noteq> fp_sign b then NaN else a
     else if is_infinite b then b
     else let x = fp_rat a + fp_rat b in if x = 0 then Zero (fp_sign a \<and> fp_sign b) else round_to F x)"

definition fp_sub :: "fp_format \<Rightarrow> fp \<Rightarrow> fp \<Rightarrow> fp" where
  "fp_sub F a b = fp_add F a (fp_neg b)"

definition fp_mul :: "fp_format \<Rightarrow> fp \<Rightarrow> fp \<Rightarrow> fp" where
  "fp_mul F a b = (let s = (fp_sign a \<noteq> fp_sign b) in
     if a = NaN \<or> b = NaN then NaN
     else if is_infinite a \<or> is_infinite b then if is_zero a \<or> is_zero b then NaN else Infinite s
     else if is_zero a \<or> is_zero b then Zero s else round_to F (fp_rat a * fp_rat b))"

definition fp_div :: "fp_format \<Rightarrow> fp \<Rightarrow> fp \<Rightarrow> fp" where
  "fp_div F a b = (let s = (fp_sign a \<noteq> fp_sign b) in
     if a = NaN \<or> b = NaN then NaN
     else if is_infinite a then if is_infinite b then NaN else Infinite s
     else if is_infinite b then Zero s
     else if is_zero b then if is_zero a then NaN else Infinite s
     else if is_zero a then Zero s else round_to F (fp_rat a / fp_rat b))"

definition fp_less :: "fp \<Rightarrow> fp \<Rightarrow> bool" where
  "fp_less a b =
    (if a = NaN \<or> b = NaN then False
     else if is_infinite a then fp_sign a \<and> b \<noteq> a
     else if is_infinite b then \<not> fp_sign b
     else fp_rat a < fp_rat b)"

definition fp_equal :: "fp \<Rightarrow> fp \<Rightarrow> bool" where
  "fp_equal a b =
    (if a = NaN \<or> b = NaN then False
     else if is_infinite a \<or> is_infinite b then a = b
     else fp_rat a = fp_rat b)"

definition fp_abs :: "fp \<Rightarrow> fp" where
  "fp_abs a = (if fp_sign a then fp_neg a else a)"

text \<open>The casts: between the formats, from integers, and to integers by truncation.\<close>

fun fp_cast :: "fp_format \<Rightarrow> fp \<Rightarrow> fp" where
  "fp_cast F (Number x) = round_to F x"
| "fp_cast F a = a"

definition fp_of_int :: "fp_format \<Rightarrow> int \<Rightarrow> fp" where
  "fp_of_int F n = (if n = 0 then Zero False else round_to F (of_int n))"

fun fp_trunc :: "fp \<Rightarrow> int option" where
  "fp_trunc (Number x) = Some (if x < 0 then \<lceil>x\<rceil> else \<lfloor>x\<rfloor>)"
| "fp_trunc (Zero _) = Some 0"
| "fp_trunc _ = None"

section \<open>Numbers of a format\<close>

definition representable :: "fp_format \<Rightarrow> rat \<Rightarrow> bool" where
  "representable F x \<longleftrightarrow> (\<exists>m e. x = of_int m * two_pow e \<and> \<bar>m\<bar> < 2 ^ precision F \<and> least_exp F \<le> e \<and> \<bar>x\<bar> < two_pow (limit_exp F))"

fun fp_ok :: "fp_format \<Rightarrow> fp \<Rightarrow> bool" where
  "fp_ok F (Number x) = (x \<noteq> 0 \<and> representable F x)"
| "fp_ok F _ = True"

definition format_ok :: "fp_format \<Rightarrow> bool" where
  "format_ok F \<longleftrightarrow> 1 \<le> precision F \<and> int (precision F) \<le> limit_exp F \<and> least_exp F \<le> 0"

lemma formats_ok [simp]: "format_ok float_format" "format_ok double_format"
  by (simp_all add: format_ok_def float_format_def double_format_def)

lemma two_pow_add: "two_pow (a + b) = two_pow a * two_pow b"
  by (cases "a \<ge> 0"; cases "b \<ge> 0"; cases "a + b \<ge> 0")
    (auto simp: two_pow_def nat_add_distrib power_add field_simps simp flip: power_add nat_add_distrib)

lemma two_pow_Suc: "two_pow (e + 1) = 2 * two_pow e"
  by (simp add: two_pow_add) (simp add: two_pow_def)

lemma two_pow_diff: "two_pow (a - b) = two_pow a / two_pow b"
  using two_pow_add [of "a - b" b] by simp

lemma two_pow_mono: "two_pow a \<le> two_pow b \<longleftrightarrow> a \<le> b"
proof -
  have "1 \<le> two_pow d" if "0 \<le> d" for d using that by (simp add: two_pow_def)
  moreover have "two_pow d < 1" if "d < 0" for d
    using that by (simp add: two_pow_def power_less_one_iff)
  ultimately have "1 \<le> two_pow (b - a) \<longleftrightarrow> a \<le> b" by (metis diff_ge_0_iff_ge linorder_not_le)
  then show ?thesis by (simp add: two_pow_diff divide_simps)
qed

lemma two_pow_less: "two_pow a < two_pow b \<longleftrightarrow> a < b"
  using two_pow_mono [of b a] by auto

lemma bitlen_two_pow:
  assumes "0 < n"
  shows "two_pow (bitlen n - 1) \<le> of_int n" "of_int n < two_pow (bitlen n)"
proof -
  have b: "2 ^ nat (bitlen n - 1) \<le> n" "n < 2 ^ nat (bitlen n)" "0 < bitlen n"
    using assms bitlen_bounds [OF assms] by (auto simp: bitlen_eq_zero_iff bitlen_nonneg order.strict_iff_order)
  have "of_int (2 ^ nat (bitlen n - 1)) \<le> (of_int n :: rat)" "(of_int n :: rat) < of_int (2 ^ nat (bitlen n))"
    using b by (simp_all only: of_int_le_iff of_int_less_iff)
  then show "two_pow (bitlen n - 1) \<le> of_int n" "of_int n < two_pow (bitlen n)"
    using b(3) by (simp_all add: two_pow_def)
qed

lemma exponent_bounds:
  assumes "0 < x"
  shows "two_pow (exponent x) \<le> x" "x < two_pow (exponent x + 1)"
proof -
  obtain p q where pq: "quotient_of x = (p, q)" by (cases "quotient_of x")
  have q: "0 < q" and x: "x = of_int p / of_int q" using quotient_of_denom_pos [OF pq] quotient_of_div [OF pq] by simp_all
  then have p: "0 < p" using assms by (simp add: zero_less_divide_iff)
  define k where "k = bitlen p - bitlen q"
  have e: "exponent x = (if x < two_pow k then k - 1 else k)" by (simp add: exponent_def pq k_def Let_def)
  note P = bitlen_two_pow [OF p] and Q = bitlen_two_pow [OF q]
  have q0: "(0 :: rat) < of_int q" "(0 :: rat) < of_int p" using q p by simp_all
  have "two_pow (k - 1) = two_pow (bitlen p - 1) / two_pow (bitlen q)" by (simp add: k_def flip: two_pow_diff) (simp add: algebra_simps)
  also have "\<dots> \<le> x" unfolding x using P(1) Q(2) q0 by (intro frac_le) simp_all
  finally have lo: "two_pow (k - 1) \<le> x" .
  have "x < two_pow (bitlen p) / two_pow (bitlen q - 1)" unfolding x using P(2) Q(1) q0 by (intro frac_less) simp_all
  also have "\<dots> = two_pow (k + 1)" by (simp add: k_def flip: two_pow_diff) (simp add: algebra_simps)
  finally have hi: "x < two_pow (k + 1)" .
  show "two_pow (exponent x) \<le> x" "x < two_pow (exponent x + 1)" using lo hi by (auto simp: e)
qed

lemma round_even_mono_bound:
  assumes "0 \<le> y" and "y \<le> of_int n"
  shows "0 \<le> round_even y" "round_even y \<le> n"
proof -
  have f: "0 \<le> \<lfloor>y\<rfloor>" "\<lfloor>y\<rfloor> \<le> n" using assms by (simp_all add: floor_le_iff)
  show "0 \<le> round_even y" using f by (simp add: round_even_def Let_def)
  have "\<lfloor>y\<rfloor> = n \<longrightarrow> y = of_int n" using assms(2) of_int_floor_le [of y] by (auto intro: antisym)
  then show "round_even y \<le> n" using f by (auto simp: round_even_def Let_def)
qed

lemma representableI:
  "x = of_int m * two_pow e \<Longrightarrow> \<bar>m\<bar> < 2 ^ precision F \<Longrightarrow> least_exp F \<le> e \<Longrightarrow> \<bar>x\<bar> < two_pow (limit_exp F) \<Longrightarrow> representable F x"
  unfolding representable_def by blast

lemma round_to_eq:
  assumes "e = max (exponent \<bar>x\<bar> - (int (precision F) - 1)) (least_exp F)" and "r = of_int (round_even (\<bar>x\<bar> / two_pow e)) * two_pow e"
  shows "round_to F x = (if two_pow (limit_exp F) \<le> r then Infinite (x < 0)
     else if r = 0 then Zero (x < 0) else Number (if x < 0 then - r else r))"
  by (simp only: round_to_def Let_def assms)

lemma round_to_ok:
  assumes "format_ok F"
  shows "fp_ok F (round_to F x)"
proof (cases "x = 0")
  case True
  have "round_even 0 = 0" using round_even_of_int [of 0] by (simp del: round_even_of_int)
  then show ?thesis using True two_pow_pos [of "limit_exp F"] by (simp add: round_to_def Let_def)
next
  case False
  define p where "p = int (precision F)"
  define e where "e = max (exponent \<bar>x\<bar> - (p - 1)) (least_exp F)"
  define m where "m = round_even (\<bar>x\<bar> / two_pow e)"
  define r where "r = of_int m * two_pow e"
  have le: "least_exp F \<le> e" by (simp add: e_def)
  have p1: "1 \<le> precision F" using assms by (simp add: format_ok_def)
  have "\<bar>x\<bar> < two_pow (exponent \<bar>x\<bar> + 1)" using exponent_bounds(2) [of "\<bar>x\<bar>"] False by simp
  also have "\<dots> \<le> two_pow (e + p)" unfolding two_pow_mono by (simp add: e_def)
  finally have "\<bar>x\<bar> / two_pow e < two_pow p" by (simp add: two_pow_add field_simps)
  also have "two_pow p = of_int (2 ^ precision F)" by (simp add: p_def two_pow_def)
  finally have y: "\<bar>x\<bar> / two_pow e < of_int (2 ^ precision F)" .
  moreover have "0 \<le> \<bar>x\<bar> / two_pow e" by (simp add: less_imp_le)
  ultimately have m: "0 \<le> m" "m \<le> 2 ^ precision F"
    using round_even_mono_bound [of "\<bar>x\<bar> / two_pow e" "2 ^ precision F"] unfolding m_def by simp_all
  have rep: "representable F r" if "r < two_pow (limit_exp F)"
  proof (cases "m < 2 ^ precision F")
    case True
    moreover have "\<bar>r\<bar> = r" using m(1) by (simp add: r_def abs_mult less_imp_le)
    ultimately show ?thesis using that m(1) by (intro representableI [OF r_def]) (simp_all add: le)
  next
    case m': False
    then have meq: "m = 2 ^ precision F" using m(2) by simp
    obtain j where j: "precision F = Suc j" using p1 by (cases "precision F") simp_all
    have "r = of_int (2 ^ j) * two_pow (e + 1)" by (simp add: r_def meq j two_pow_Suc)
    moreover have "\<bar>r\<bar> = r" using m(1) by (simp add: r_def abs_mult less_imp_le)
    ultimately show ?thesis using that by (intro representableI [of r "2 ^ j" "e + 1"]) (use le in \<open>simp_all add: j\<close>)
  qed
  have "representable F (- r)" if "r < two_pow (limit_exp F)"
    using rep [OF that] unfolding representable_def
    by (metis abs_minus_cancel mult_minus_left of_int_minus)
  with rep show ?thesis
    unfolding round_to_eq [OF e_def [unfolded p_def] r_def [unfolded m_def]] by simp
qed
lemma fp_neg_ok [simp]: "fp_ok F (fp_neg a) = fp_ok F a"
proof -
  have "representable F (- x)" if "representable F x" for x
    using that unfolding representable_def by (metis abs_minus_cancel mult_minus_left of_int_minus)
  from this [of "- x" for x] this show ?thesis by (cases a) auto
qed

lemma fp_add_ok: "format_ok F \<Longrightarrow> fp_ok F a \<Longrightarrow> fp_ok F b \<Longrightarrow> fp_ok F (fp_add F a b)"
  by (simp add: fp_add_def Let_def round_to_ok)

lemma fp_sub_ok: "format_ok F \<Longrightarrow> fp_ok F a \<Longrightarrow> fp_ok F b \<Longrightarrow> fp_ok F (fp_sub F a b)"
  by (simp add: fp_sub_def fp_add_ok)

lemma fp_mul_ok: "format_ok F \<Longrightarrow> fp_ok F (fp_mul F a b)"
  by (simp add: fp_mul_def Let_def round_to_ok)

lemma fp_div_ok: "format_ok F \<Longrightarrow> fp_ok F (fp_div F a b)"
  by (simp add: fp_div_def Let_def round_to_ok)

lemma fp_cast_ok: "format_ok F \<Longrightarrow> fp_ok F (fp_cast F a)"
  by (cases a) (simp_all add: round_to_ok)

lemma fp_of_int_ok: "format_ok F \<Longrightarrow> fp_ok F (fp_of_int F n)"
  by (simp add: fp_of_int_def round_to_ok)

lemmas fp_arith_ok = fp_add_ok fp_sub_ok fp_mul_ok fp_div_ok fp_cast_ok fp_of_int_ok

text \<open>Rounding changes no number of the format: small integers are exact, and a float is a double.\<close>

lemma exponent_eqI:
  assumes "two_pow k \<le> x" and "x < two_pow (k + 1)"
  shows "exponent x = k"
proof -
  have x: "0 < x" using assms(1) two_pow_pos [of k] by linarith
  have "two_pow k < two_pow (exponent x + 1)" "two_pow (exponent x) < two_pow (k + 1)"
    using assms exponent_bounds [OF x] by linarith+
  then show ?thesis by (simp add: two_pow_less)
qed

lemma round_to_representable:
  assumes "x \<noteq> 0" and "representable F x"
  shows "round_to F x = Number x"
proof -
  obtain m e where x: "x = of_int m * two_pow e" and m: "\<bar>m\<bar> < 2 ^ precision F" and e: "least_exp F \<le> e" and lim: "\<bar>x\<bar> < two_pow (limit_exp F)"
    using assms(2) unfolding representable_def by blast
  define d where "d = max (exponent \<bar>x\<bar> - (int (precision F) - 1)) (least_exp F)"
  have m0: "0 < \<bar>m\<bar>" using assms(1) x by auto
  have ax: "\<bar>x\<bar> = of_int \<bar>m\<bar> * two_pow e" by (simp add: x abs_mult less_imp_le)
  have "exponent \<bar>x\<bar> = bitlen \<bar>m\<bar> - 1 + e"
    unfolding ax using mult_right_mono [OF bitlen_two_pow(1) [OF m0], of "two_pow e"] mult_strict_right_mono [OF bitlen_two_pow(2) [OF m0], of "two_pow e"]
    by (intro exponent_eqI) (simp_all add: less_imp_le flip: two_pow_add)
  moreover have "bitlen \<bar>m\<bar> \<le> int (precision F)" using m bitlen_le_iff_power [of "\<bar>m\<bar>" "precision F"] by simp
  ultimately have de: "d \<le> e" using e by (simp add: d_def)
  define k where "k = nat (e - d)"
  have "two_pow e = 2 ^ k * two_pow d" using two_pow_add [of "e - d" d] de by (simp add: k_def two_pow_def [of "e - d"])
  then have q: "\<bar>x\<bar> / two_pow d = of_int (\<bar>m\<bar> * 2 ^ k)" by (simp add: ax)
  have "of_int (round_even (\<bar>x\<bar> / two_pow d)) * two_pow d = \<bar>x\<bar>" unfolding q round_even_of_int unfolding q [symmetric] by simp
  from round_to_eq [OF d_def this [symmetric]] show ?thesis using lim assms(1) by simp
qed

lemma representable_int:
  assumes "\<bar>n\<bar> < 2 ^ precision F" and "format_ok F"
  shows "representable F (of_int n)"
proof -
  have "\<bar>of_int n :: rat\<bar> < of_int (2 ^ precision F)" using assms(1) by (simp only: of_int_less_iff flip: of_int_abs)
  also have "\<dots> = two_pow (int (precision F))" by (simp add: two_pow_def)
  also have "\<dots> \<le> two_pow (limit_exp F)" using assms(2) by (simp add: two_pow_mono format_ok_def)
  finally show ?thesis using assms by (intro representableI [of _ n 0]) (simp_all add: two_pow_def [of 0] format_ok_def)
qed

lemma fp_of_int_exact:
  assumes "\<bar>n\<bar> < 2 ^ precision F" and "format_ok F"
  shows "fp_of_int F n = (if n = 0 then Zero False else Number (of_int n))"
  using representable_int [OF assms] by (simp add: fp_of_int_def round_to_representable)

lemma float_representable_double: "representable float_format x \<Longrightarrow> representable double_format x"
proof -
  assume "representable float_format x"
  then obtain m e where "x = of_int m * two_pow e" "\<bar>m\<bar> < 2 ^ 24" "- 149 \<le> e" "\<bar>x\<bar> < two_pow 128"
    by (auto simp: representable_def float_format_def)
  moreover have "two_pow 128 < two_pow 1024" by (simp only: two_pow_less)
  ultimately show ?thesis by (intro representableI [of _ m e]) (simp_all add: double_format_def)
qed

lemma float_is_double: "fp_ok float_format a \<Longrightarrow> fp_cast double_format a = a"
  by (cases a) (auto intro: round_to_representable float_representable_double)

lemma fp_ok_float_double: "fp_ok float_format a \<Longrightarrow> fp_ok double_format a"
  by (cases a) (auto intro: float_representable_double)

section \<open>Order\<close>

lemma fp_less_int:
  assumes "\<bar>m\<bar> < 2 ^ precision F" and "\<bar>n\<bar> < 2 ^ precision F" and "format_ok F"
  shows "fp_less (fp_of_int F m) (fp_of_int F n) \<longleftrightarrow> m < n" "fp_equal (fp_of_int F m) (fp_of_int F n) \<longleftrightarrow> m = n"
  using assms by (simp_all add: fp_of_int_exact fp_less_def fp_equal_def)

lemma fp_less_irrefl [simp]: "\<not> fp_less a a"
  by (cases a) (simp_all add: fp_less_def)

lemma fp_trichotomy:
  assumes "a \<noteq> NaN" and "b \<noteq> NaN"
  shows "fp_less a b \<or> fp_equal a b \<or> fp_less b a"
  using assms by (cases a; cases b) (auto simp: fp_less_def fp_equal_def)

lemma fp_less_not_equal: "fp_less a b \<Longrightarrow> \<not> fp_equal a b \<and> \<not> fp_less b a"
  by (cases a; cases b) (auto simp: fp_less_def fp_equal_def split: if_splits)

lemma fp_add_commute: "fp_add F a b = fp_add F b a"
  by (cases a; cases b) (auto simp: fp_add_def Let_def add.commute)

lemma fp_mul_commute: "fp_mul F a b = fp_mul F b a"
  by (cases a; cases b) (auto simp: fp_mul_def Let_def mult.commute)

end
