(* ===== verification/Glish_Value.thy ===== *)
theory Glish_Value
  imports C_Float "HOL-Library.Word" "HOL-Library.Signed_Division"
begin

text \<open>
  The values of Glish (\<open>glish/Value.cc\<close>, \<open>glish/IValue.cc\<close>, \<open>glish/VecRef.cc\<close>) as far as operators use them:
  vectors of the numeric types and of strings, references to parts of a vector, and the values operators
  only compare; the coercion of a vector to another numeric type, copies, and the two unary operators.
  Values are those that remain after references have been followed; attributes are a parameter type.
\<close>

section \<open>Types and values\<close>

datatype glish_type =
    TYPE_ERROR | TYPE_REF | TYPE_SUBVEC_REF | TYPE_BOOL | TYPE_BYTE | TYPE_SHORT | TYPE_INT | TYPE_FLOAT | TYPE_DOUBLE
  | TYPE_STRING | TYPE_AGENT | TYPE_FUNC | TYPE_RECORD | TYPE_COMPLEX | TYPE_DCOMPLEX | TYPE_FAIL | TYPE_REGEX | TYPE_FILE

type_synonym cpx = "fp \<times> fp"

datatype vec =
    BoolVec "bool list" | ByteVec "8 word list" | ShortVec "16 word list" | IntVec "32 word list"
  | FloatVec "fp list" | DoubleVec "fp list" | ComplexVec "cpx list" | DcomplexVec "cpx list" | StringVec "string list"

text \<open>
  A sub-vector reference holds the vector it refers to and the indices into it, counted from one. Of
  agents, functions, regular expressions, files, records and failures only the number of entries matters.
\<close>

datatype kernel =
    Array vec | SubVec vec "int list" | Agents nat | Funcs nat | Regexs nat | Files nat | Records nat | Failures nat

record 'a ivalue =
  kern :: kernel
  attributes :: "'a option"

fun vec_type :: "vec \<Rightarrow> glish_type" where
  "vec_type (BoolVec _) = TYPE_BOOL"
| "vec_type (ByteVec _) = TYPE_BYTE"
| "vec_type (ShortVec _) = TYPE_SHORT"
| "vec_type (IntVec _) = TYPE_INT"
| "vec_type (FloatVec _) = TYPE_FLOAT"
| "vec_type (DoubleVec _) = TYPE_DOUBLE"
| "vec_type (ComplexVec _) = TYPE_COMPLEX"
| "vec_type (DcomplexVec _) = TYPE_DCOMPLEX"
| "vec_type (StringVec _) = TYPE_STRING"

fun vec_length :: "vec \<Rightarrow> nat" where
  "vec_length (BoolVec xs) = length xs"
| "vec_length (ByteVec xs) = length xs"
| "vec_length (ShortVec xs) = length xs"
| "vec_length (IntVec xs) = length xs"
| "vec_length (FloatVec xs) = length xs"
| "vec_length (DoubleVec xs) = length xs"
| "vec_length (ComplexVec xs) = length xs"
| "vec_length (DcomplexVec xs) = length xs"
| "vec_length (StringVec xs) = length xs"

fun kern_type :: "kernel \<Rightarrow> glish_type" where
  "kern_type (Array a) = vec_type a"
| "kern_type (SubVec _ _) = TYPE_SUBVEC_REF"
| "kern_type (Agents _) = TYPE_AGENT"
| "kern_type (Funcs _) = TYPE_FUNC"
| "kern_type (Regexs _) = TYPE_REGEX"
| "kern_type (Files _) = TYPE_FILE"
| "kern_type (Records _) = TYPE_RECORD"
| "kern_type (Failures _) = TYPE_FAIL"

fun kern_length :: "kernel \<Rightarrow> nat" where
  "kern_length (Array a) = vec_length a"
| "kern_length (SubVec _ ix) = length ix"
| "kern_length (Agents n) = n"
| "kern_length (Funcs n) = n"
| "kern_length (Regexs n) = n"
| "kern_length (Files n) = n"
| "kern_length (Records n) = n"
| "kern_length (Failures n) = n"

abbreviation Type :: "'a ivalue \<Rightarrow> glish_type" where "Type v \<equiv> kern_type (kern v)"
abbreviation Length :: "'a ivalue \<Rightarrow> nat" where "Length v \<equiv> kern_length (kern v)"

text \<open>The type of the vector, also through a sub-vector reference.\<close>

fun VecRefDeref_type :: "kernel \<Rightarrow> glish_type" where
  "VecRefDeref_type (SubVec a _) = vec_type a"
| "VecRefDeref_type k = kern_type k"

definition numeric_type :: "glish_type \<Rightarrow> bool" where
  "numeric_type t \<longleftrightarrow> t \<in> {TYPE_BOOL, TYPE_BYTE, TYPE_SHORT, TYPE_INT, TYPE_FLOAT, TYPE_DOUBLE, TYPE_COMPLEX, TYPE_DCOMPLEX}"

definition IsNumeric :: "'a ivalue \<Rightarrow> bool" where
  "IsNumeric v = (case kern v of SubVec a _ \<Rightarrow> numeric_type (vec_type a) | _ \<Rightarrow> numeric_type (Type v))"

section \<open>Runs that may stop\<close>

text \<open>
  A fatal report ends the interpreter; the other ends are a read outside of an array, of a null pointer or
  of memory that was never written, and an integer division that traps.
\<close>

datatype stop = GlishFatal string | OutOfBounds | NullPointer | Uninitialised | SigFpe

datatype 'x run = Return 'x | Stop stop

fun then_do :: "'x run \<Rightarrow> ('x \<Rightarrow> 'y run) \<Rightarrow> 'y run" where
  "then_do (Return x) f = f x"
| "then_do (Stop e) f = Stop e"

text \<open>
  What the machine decides: the functions of the mathematical library and its constant \<open>HUGE\<close>, casts of numbers that do not fit
  the integer type, and whether the handler of the division trap goes on behind the instruction.
\<close>

record platform =
  c_pow :: "fp \<Rightarrow> fp \<Rightarrow> fp"
  c_exp :: "fp \<Rightarrow> fp"
  c_log :: "fp \<Rightarrow> fp"
  c_sin :: "fp \<Rightarrow> fp"
  c_cos :: "fp \<Rightarrow> fp"
  c_hypot :: "fp \<Rightarrow> fp \<Rightarrow> fp"
  c_atan2 :: "fp \<Rightarrow> fp \<Rightarrow> fp"
  c_huge :: fp
  cast_undefined :: "glish_type \<Rightarrow> fp \<Rightarrow> int"
  trap_resumes :: bool

section \<open>Elements\<close>

datatype elem =
    BoolE bool | ByteE "8 word" | ShortE "16 word" | IntE "32 word" | FloatE fp | DoubleE fp | ComplexE cpx | DcomplexE cpx

text \<open>The element of a numeric vector behind \<open>n\<close> others.\<close>

fun vec_elem :: "vec \<Rightarrow> nat \<Rightarrow> elem option" where
  "vec_elem (BoolVec xs) n = (if n < length xs then Some (BoolE (xs ! n)) else None)"
| "vec_elem (ByteVec xs) n = (if n < length xs then Some (ByteE (xs ! n)) else None)"
| "vec_elem (ShortVec xs) n = (if n < length xs then Some (ShortE (xs ! n)) else None)"
| "vec_elem (IntVec xs) n = (if n < length xs then Some (IntE (xs ! n)) else None)"
| "vec_elem (FloatVec xs) n = (if n < length xs then Some (FloatE (xs ! n)) else None)"
| "vec_elem (DoubleVec xs) n = (if n < length xs then Some (DoubleE (xs ! n)) else None)"
| "vec_elem (ComplexVec xs) n = (if n < length xs then Some (ComplexE (xs ! n)) else None)"
| "vec_elem (DcomplexVec xs) n = (if n < length xs then Some (DcomplexE (xs ! n)) else None)"
| "vec_elem (StringVec xs) n = None"

text \<open>A number is true when it is not zero; NaN is not zero.\<close>

definition fp_true :: "fp \<Rightarrow> bool" where
  "fp_true x \<longleftrightarrow> \<not> is_zero x"

fun to_bool :: "elem \<Rightarrow> bool" where
  "to_bool (BoolE b) = b"
| "to_bool (ByteE x) = (x \<noteq> 0)"
| "to_bool (ShortE x) = (x \<noteq> 0)"
| "to_bool (IntE x) = (x \<noteq> 0)"
| "to_bool (FloatE x) = fp_true x"
| "to_bool (DoubleE x) = fp_true x"
| "to_bool (ComplexE z) = (fp_true (fst z) \<or> fp_true (snd z))"
| "to_bool (DcomplexE z) = (fp_true (fst z) \<or> fp_true (snd z))"

text \<open>A cast to an integer type truncates; what it gives for a number that does not fit is undefined.\<close>

definition fp_to_int :: "platform \<Rightarrow> glish_type \<Rightarrow> int \<Rightarrow> int \<Rightarrow> fp \<Rightarrow> int" where
  "fp_to_int P t lo hi x = (case fp_trunc x of
     Some n \<Rightarrow> if lo \<le> n \<and> n \<le> hi then n else cast_undefined P t x
   | None \<Rightarrow> cast_undefined P t x)"

fun elem_to_int :: "platform \<Rightarrow> glish_type \<Rightarrow> int \<Rightarrow> int \<Rightarrow> elem \<Rightarrow> int" where
  "elem_to_int P t lo hi (BoolE b) = of_bool b"
| "elem_to_int P t lo hi (ByteE x) = uint x"
| "elem_to_int P t lo hi (ShortE x) = sint x"
| "elem_to_int P t lo hi (IntE x) = sint x"
| "elem_to_int P t lo hi (FloatE x) = fp_to_int P t lo hi x"
| "elem_to_int P t lo hi (DoubleE x) = fp_to_int P t lo hi x"
| "elem_to_int P t lo hi (ComplexE z) = fp_to_int P t lo hi (fst z)"
| "elem_to_int P t lo hi (DcomplexE z) = fp_to_int P t lo hi (fst z)"

definition to_byte :: "platform \<Rightarrow> elem \<Rightarrow> 8 word" where
  "to_byte P e = word_of_int (elem_to_int P TYPE_BYTE 0 (2 ^ 8 - 1) e)"

definition to_short :: "platform \<Rightarrow> elem \<Rightarrow> 16 word" where
  "to_short P e = word_of_int (elem_to_int P TYPE_SHORT (- (2 ^ 15)) (2 ^ 15 - 1) e)"

definition to_int :: "platform \<Rightarrow> elem \<Rightarrow> 32 word" where
  "to_int P e = word_of_int (elem_to_int P TYPE_INT (- (2 ^ 31)) (2 ^ 31 - 1) e)"

fun to_fp :: "fp_format \<Rightarrow> elem \<Rightarrow> fp" where
  "to_fp F (BoolE b) = fp_of_int F (of_bool b)"
| "to_fp F (ByteE x) = fp_of_int F (uint x)"
| "to_fp F (ShortE x) = fp_of_int F (sint x)"
| "to_fp F (IntE x) = fp_of_int F (sint x)"
| "to_fp F (FloatE x) = fp_cast F x"
| "to_fp F (DoubleE x) = fp_cast F x"
| "to_fp F (ComplexE z) = fp_cast F (fst z)"
| "to_fp F (DcomplexE z) = fp_cast F (fst z)"

fun to_cpx :: "fp_format \<Rightarrow> elem \<Rightarrow> cpx" where
  "to_cpx F (ComplexE z) = (fp_cast F (fst z), fp_cast F (snd z))"
| "to_cpx F (DcomplexE z) = (fp_cast F (fst z), fp_cast F (snd z))"
| "to_cpx F e = (to_fp F e, fp_of_int F 0)"

section \<open>Sub-vector references\<close>

text \<open>Where a reference leads, or that the index is behind the end of the vector.\<close>

definition TranslateIndex :: "vec \<Rightarrow> int list \<Rightarrow> nat \<Rightarrow> (int option) run" where
  "TranslateIndex a ix j = (if j < length ix then Return (if ix ! j > int (vec_length a) then None else Some (ix ! j - 1)) else Stop OutOfBounds)"

text \<open>\<open>DupVec\<close>: the copy a reference is flattened to stops at the first index that is not valid, and leaves the rest as allocated.\<close>

fun DupVec :: "vec \<Rightarrow> int list \<Rightarrow> 'x list \<Rightarrow> nat \<Rightarrow> nat \<Rightarrow> ('x list) run" where
  "DupVec a ix xs 0 i = Return []"
| "DupVec a ix xs (Suc n) i = then_do (TranslateIndex a ix i) (\<lambda>off. case off of
     None \<Rightarrow> Stop Uninitialised
   | Some k \<Rightarrow> if k < 0 \<or> nat k \<ge> length xs then Stop OutOfBounds
       else then_do (DupVec a ix xs n (Suc i)) (\<lambda>ys. Return (xs ! nat k # ys)))"

definition flatten :: "vec \<Rightarrow> int list \<Rightarrow> vec run" where
  "flatten a ix = (case a of
     BoolVec xs \<Rightarrow> then_do (DupVec a ix xs (length ix) 0) (\<lambda>ys. Return (BoolVec ys))
   | ByteVec xs \<Rightarrow> then_do (DupVec a ix xs (length ix) 0) (\<lambda>ys. Return (ByteVec ys))
   | ShortVec xs \<Rightarrow> then_do (DupVec a ix xs (length ix) 0) (\<lambda>ys. Return (ShortVec ys))
   | IntVec xs \<Rightarrow> then_do (DupVec a ix xs (length ix) 0) (\<lambda>ys. Return (IntVec ys))
   | FloatVec xs \<Rightarrow> then_do (DupVec a ix xs (length ix) 0) (\<lambda>ys. Return (FloatVec ys))
   | DoubleVec xs \<Rightarrow> then_do (DupVec a ix xs (length ix) 0) (\<lambda>ys. Return (DoubleVec ys))
   | ComplexVec xs \<Rightarrow> then_do (DupVec a ix xs (length ix) 0) (\<lambda>ys. Return (ComplexVec ys))
   | DcomplexVec xs \<Rightarrow> then_do (DupVec a ix xs (length ix) 0) (\<lambda>ys. Return (DcomplexVec ys))
   | StringVec xs \<Rightarrow> then_do (DupVec a ix xs (length ix) 0) (\<lambda>ys. Return (StringVec ys)))"

text \<open>\<open>copy_value\<close> flattens references and shares or copies everything else.\<close>

definition copy_ivalue :: "'a ivalue \<Rightarrow> 'a ivalue run" where
  "copy_ivalue v = (case kern v of
     SubVec a ix \<Rightarrow> then_do (flatten a ix) (\<lambda>b. Return (v\<lparr>kern := Array b\<rparr>))
   | _ \<Rightarrow> Return v)"

section \<open>Coercion\<close>

text \<open>The loop that fills an array of \<open>n\<close> elements, the offset into the source advancing by \<open>incr\<close>; a null pointer for an invalid index.\<close>

fun coerce_loop :: "(nat \<Rightarrow> (elem option) run) \<Rightarrow> (elem \<Rightarrow> 'x) \<Rightarrow> nat \<Rightarrow> nat \<Rightarrow> nat \<Rightarrow> (('x list) option) run" where
  "coerce_loop get conv 0 j incr = Return (Some [])"
| "coerce_loop get conv (Suc n) j incr = then_do (get j) (\<lambda>e. case e of
     None \<Rightarrow> Return None
   | Some x \<Rightarrow> then_do (coerce_loop get conv n (j + incr) incr) (\<lambda>ys. Return (map_option ((#) (conv x)) ys)))"

definition array_get :: "vec \<Rightarrow> nat \<Rightarrow> (elem option) run" where
  "array_get a j = (case vec_elem a j of Some e \<Rightarrow> Return (Some e) | None \<Rightarrow> Stop OutOfBounds)"

definition subvec_get :: "vec \<Rightarrow> int list \<Rightarrow> nat \<Rightarrow> (elem option) run" where
  "subvec_get a ix j = then_do (TranslateIndex a ix j) (\<lambda>off. case off of
     None \<Rightarrow> Return None
   | Some k \<Rightarrow> if k < 0 then Stop OutOfBounds else array_get a (nat k))"

text \<open>
  What the functions CoerceToXArray have in common: whether the result is a copy, and the array or a null
  pointer. \<open>same\<close> are the elements when the vector has the type already.
\<close>

definition coerce_array :: "(vec \<Rightarrow> 'x list option) \<Rightarrow> (elem \<Rightarrow> 'x) \<Rightarrow> glish_type set \<Rightarrow> 'a ivalue \<Rightarrow> nat \<Rightarrow> (bool \<times> 'x list option) run" where
  "coerce_array same conv sub_types v sz = (let n = Length v; incr = (if n = 1 then 0 else 1) in
     if \<not> IsNumeric v then Stop (GlishFatal ''non-numeric type in coercion'')
     else case kern v of
       Array a \<Rightarrow> (case same a of
           Some xs \<Rightarrow> if n = sz then Return (False, Some xs)
                      else then_do (coerce_loop (array_get a) conv sz 0 incr) (\<lambda>r. Return (True, r))
         | None \<Rightarrow> then_do (coerce_loop (array_get a) conv sz 0 incr) (\<lambda>r. Return (True, r)))
     | SubVec a ix \<Rightarrow> if vec_type a \<notin> sub_types then Return (True, None)
         else then_do (coerce_loop (subvec_get a ix) conv sz 0 incr) (\<lambda>r. Return (True, r))
     | _ \<Rightarrow> Return (True, None))"

abbreviation numeric_types :: "glish_type set" where
  "numeric_types \<equiv> {TYPE_BOOL, TYPE_BYTE, TYPE_SHORT, TYPE_INT, TYPE_FLOAT, TYPE_DOUBLE, TYPE_COMPLEX, TYPE_DCOMPLEX}"

definition CoerceToBoolArray :: "'a ivalue \<Rightarrow> nat \<Rightarrow> (bool \<times> bool list option) run" where
  "CoerceToBoolArray = coerce_array (\<lambda>a. case a of BoolVec xs \<Rightarrow> Some xs | _ \<Rightarrow> None) to_bool
     {TYPE_BOOL, TYPE_INT, TYPE_FLOAT, TYPE_DOUBLE, TYPE_COMPLEX, TYPE_DCOMPLEX}"

definition CoerceToByteArray :: "platform \<Rightarrow> 'a ivalue \<Rightarrow> nat \<Rightarrow> (bool \<times> 8 word list option) run" where
  "CoerceToByteArray P = coerce_array (\<lambda>a. case a of ByteVec xs \<Rightarrow> Some xs | _ \<Rightarrow> None) (to_byte P) numeric_types"

definition CoerceToShortArray :: "platform \<Rightarrow> 'a ivalue \<Rightarrow> nat \<Rightarrow> (bool \<times> 16 word list option) run" where
  "CoerceToShortArray P = coerce_array (\<lambda>a. case a of ShortVec xs \<Rightarrow> Some xs | _ \<Rightarrow> None) (to_short P) numeric_types"

definition CoerceToIntArray :: "platform \<Rightarrow> 'a ivalue \<Rightarrow> nat \<Rightarrow> (bool \<times> 32 word list option) run" where
  "CoerceToIntArray P = coerce_array (\<lambda>a. case a of IntVec xs \<Rightarrow> Some xs | _ \<Rightarrow> None) (to_int P) numeric_types"

definition CoerceToFloatArray :: "'a ivalue \<Rightarrow> nat \<Rightarrow> (bool \<times> fp list option) run" where
  "CoerceToFloatArray = coerce_array (\<lambda>a. case a of FloatVec xs \<Rightarrow> Some xs | _ \<Rightarrow> None) (to_fp float_format) numeric_types"

definition CoerceToDoubleArray :: "'a ivalue \<Rightarrow> nat \<Rightarrow> (bool \<times> fp list option) run" where
  "CoerceToDoubleArray = coerce_array (\<lambda>a. case a of DoubleVec xs \<Rightarrow> Some xs | _ \<Rightarrow> None) (to_fp double_format) numeric_types"

definition CoerceToComplexArray :: "'a ivalue \<Rightarrow> nat \<Rightarrow> (bool \<times> cpx list option) run" where
  "CoerceToComplexArray = coerce_array (\<lambda>a. case a of ComplexVec xs \<Rightarrow> Some xs | _ \<Rightarrow> None) (to_cpx float_format) numeric_types"

definition CoerceToDcomplexArray :: "'a ivalue \<Rightarrow> nat \<Rightarrow> (bool \<times> cpx list option) run" where
  "CoerceToDcomplexArray = coerce_array (\<lambda>a. case a of DcomplexVec xs \<Rightarrow> Some xs | _ \<Rightarrow> None) (to_cpx double_format) numeric_types"

text \<open>The coercion to strings turns every other value into empty strings.\<close>

fun copy_strings_loop :: "(nat \<Rightarrow> (string option) run) \<Rightarrow> nat \<Rightarrow> nat \<Rightarrow> nat \<Rightarrow> ((string list) option) run" where
  "copy_strings_loop get 0 j incr = Return (Some [])"
| "copy_strings_loop get (Suc n) j incr = then_do (get j) (\<lambda>e. case e of
     None \<Rightarrow> Return None
   | Some s \<Rightarrow> then_do (copy_strings_loop get n (j + incr) incr) (\<lambda>ys. Return (map_option ((#) s) ys)))"

definition string_get :: "string list \<Rightarrow> nat \<Rightarrow> (string option) run" where
  "string_get xs j = (if j < length xs then Return (Some (xs ! j)) else Stop OutOfBounds)"

definition substring_get :: "vec \<Rightarrow> int list \<Rightarrow> string list \<Rightarrow> nat \<Rightarrow> (string option) run" where
  "substring_get a ix xs j = then_do (TranslateIndex a ix j) (\<lambda>off. case off of
     None \<Rightarrow> Return None
   | Some k \<Rightarrow> if k < 0 then Stop OutOfBounds else string_get xs (nat k))"

definition CoerceToStringArray :: "'a ivalue \<Rightarrow> nat \<Rightarrow> (bool \<times> string list option) run" where
  "CoerceToStringArray v sz = (let incr = (if Length v = 1 then 0 else 1) in
     case kern v of
       Array (StringVec xs) \<Rightarrow> if Length v = sz then Return (False, Some xs)
         else then_do (copy_strings_loop (string_get xs) sz 0 incr) (\<lambda>r. Return (True, r))
     | SubVec (StringVec xs) ix \<Rightarrow> then_do (copy_strings_loop (substring_get (StringVec xs) ix xs) sz 0 incr) (\<lambda>r. Return (True, r))
     | _ \<Rightarrow> Return (True, Some (replicate sz [])))"
section \<open>Unary operators\<close>

text \<open>Both leave a value unchanged, but for a message, when they do not apply to it.\<close>

definition Negate :: "'a ivalue \<Rightarrow> 'a ivalue run" where
  "Negate v = (if \<not> IsNumeric v then Return v else case kern v of
     Array (BoolVec xs) \<Rightarrow> Return (v\<lparr>kern := Array (IntVec (map (\<lambda>b. - of_bool b) xs))\<rparr>)
   | Array (IntVec xs) \<Rightarrow> Return (v\<lparr>kern := Array (IntVec (map uminus xs))\<rparr>)
   | Array (ByteVec xs) \<Rightarrow> Return (v\<lparr>kern := Array (ByteVec (map uminus xs))\<rparr>)
   | Array (ShortVec xs) \<Rightarrow> Return (v\<lparr>kern := Array (ShortVec (map uminus xs))\<rparr>)
   | Array (FloatVec xs) \<Rightarrow> Return (v\<lparr>kern := Array (FloatVec (map fp_neg xs))\<rparr>)
   | Array (DoubleVec xs) \<Rightarrow> Return (v\<lparr>kern := Array (DoubleVec (map fp_neg xs))\<rparr>)
   | Array (ComplexVec xs) \<Rightarrow> Return (v\<lparr>kern := Array (ComplexVec (map (map_prod fp_neg fp_neg) xs))\<rparr>)
   | Array (DcomplexVec xs) \<Rightarrow> Return (v\<lparr>kern := Array (DcomplexVec (map (map_prod fp_neg fp_neg) xs))\<rparr>)
   | _ \<Rightarrow> Stop (GlishFatal ''bad type in Value::Negate()''))"

definition Not_value :: "'a ivalue \<Rightarrow> 'a ivalue run" where
  "Not_value v = (if Type v = TYPE_FAIL then Return (v\<lparr>kern := Array (BoolVec [True])\<rparr>)
     else if \<not> IsNumeric v then Return v
     else case kern v of
       Array (BoolVec xs) \<Rightarrow> Return (v\<lparr>kern := Array (BoolVec (map Not xs))\<rparr>)
     | Array a \<Rightarrow> then_do (coerce_loop (array_get a) (\<lambda>e. \<not> to_bool e) (Length v) 0 1)
         (\<lambda>r. Return (case r of Some xs \<Rightarrow> v\<lparr>kern := Array (BoolVec xs)\<rparr> | None \<Rightarrow> v))
     | SubVec a ix \<Rightarrow> if vec_type a \<in> {TYPE_BOOL, TYPE_BYTE, TYPE_SHORT} then Return v
         else then_do (coerce_loop (subvec_get a ix) (\<lambda>e. \<not> to_bool e) (Length v) 0 1)
           (\<lambda>r. Return (case r of Some xs \<Rightarrow> v\<lparr>kern := Array (BoolVec xs)\<rparr> | None \<Rightarrow> v))
     | _ \<Rightarrow> Return v)"

definition NegExpr_Eval :: "'a ivalue \<Rightarrow> 'a ivalue run" where
  "NegExpr_Eval v = then_do (copy_ivalue v) Negate"

definition NotExpr_Eval :: "'a ivalue \<Rightarrow> 'a ivalue run" where
  "NotExpr_Eval v = then_do (copy_ivalue v) Not_value"

section \<open>Well-formed values\<close>

fun vec_ok :: "vec \<Rightarrow> bool" where
  "vec_ok (FloatVec xs) = (\<forall>x \<in> set xs. fp_ok float_format x)"
| "vec_ok (DoubleVec xs) = (\<forall>x \<in> set xs. fp_ok double_format x)"
| "vec_ok (ComplexVec xs) = (\<forall>z \<in> set xs. fp_ok float_format (fst z) \<and> fp_ok float_format (snd z))"
| "vec_ok (DcomplexVec xs) = (\<forall>z \<in> set xs. fp_ok double_format (fst z) \<and> fp_ok double_format (snd z))"
| "vec_ok _ = True"

text \<open>A reference whose indices lead into the vector, as it has when it is made.\<close>

definition indices_ok :: "vec \<Rightarrow> int list \<Rightarrow> bool" where
  "indices_ok a ix \<longleftrightarrow> (\<forall>i \<in> set ix. 1 \<le> i \<and> i \<le> int (vec_length a))"

fun kern_ok :: "kernel \<Rightarrow> bool" where
  "kern_ok (Array a) = vec_ok a"
| "kern_ok (SubVec a ix) = (vec_ok a \<and> indices_ok a ix)"
| "kern_ok _ = True"

text \<open>The element of a numeric value that an operator combines at position \<open>k\<close>: a scalar is used at every position.\<close>

definition elem_at :: "kernel \<Rightarrow> nat \<Rightarrow> elem" where
  "elem_at v k = (let k = (if kern_length v = 1 then 0 else k) in
     case v of Array a \<Rightarrow> the (vec_elem a k) | SubVec a ix \<Rightarrow> the (vec_elem a (nat (ix ! k - 1))))"

definition spread :: "kernel \<Rightarrow> nat \<Rightarrow> elem list" where
  "spread v n = map (elem_at v) [0..<n]"

lemma length_spread [simp]: "length (spread v n) = n"
  by (simp add: spread_def)

lemma nth_spread [simp]: "k < n \<Longrightarrow> spread v n ! k = elem_at v k"
  by (simp add: spread_def)

lemma vec_elem_some:
  assumes "numeric_type (vec_type a)"
  shows "(\<exists>e. vec_elem a k = Some e) \<longleftrightarrow> k < vec_length a"
  using assms by (cases a) (simp_all add: numeric_type_def)

lemma vec_elem_the:
  assumes "numeric_type (vec_type a)" and "k < vec_length a"
  shows "vec_elem a k = Some (the (vec_elem a k))"
  using vec_elem_some [of a k] assms by auto

text \<open>A loop over an array whose reads all succeed.\<close>

lemma coerce_loop_reads:
  assumes "\<And>i. i < n \<Longrightarrow> get (j + i * incr) = Return (Some (e i))"
  shows "coerce_loop get conv n j incr = Return (Some (map (\<lambda>i. conv (e i)) [0..<n]))"
  using assms
proof (induction n arbitrary: j e)
  case (Suc n)
  have "get (j + incr + i * incr) = Return (Some (e (Suc i)))" if "i < n" for i
    using Suc.prems [of "Suc i"] that by (simp add: algebra_simps)
  from Suc.IH [of "j + incr" "\<lambda>i. e (Suc i)", OF this] Suc.prems [of 0] show ?case
    by (simp add: upt_conv_Cons map_Suc_upt [symmetric] comp_def del: upt_Suc map_Suc_upt)
qed simp

lemma array_get_ok: "numeric_type (vec_type a) \<Longrightarrow> k < vec_length a \<Longrightarrow> array_get a k = Return (Some (the (vec_elem a k)))"
  using vec_elem_the [of a k] by (auto simp: array_get_def split: option.split)

lemma subvec_get_ok:
  assumes "numeric_type (vec_type a)" and "indices_ok a ix" and "k < length ix"
  shows "subvec_get a ix k = Return (Some (the (vec_elem a (nat (ix ! k - 1)))))"
proof -
  have i: "1 \<le> ix ! k" "ix ! k \<le> int (vec_length a)" using assms(2,3) by (auto simp: indices_ok_def)
  then have "nat (ix ! k - 1) < vec_length a" by simp
  then show ?thesis using i assms(1,3) by (simp add: subvec_get_def TranslateIndex_def array_get_ok)
qed

text \<open>Which elements a coercion copies.\<close>

definition conv_ok :: "(vec \<Rightarrow> 'x list option) \<Rightarrow> (elem \<Rightarrow> 'x) \<Rightarrow> bool" where
  "conv_ok same conv \<longleftrightarrow> (\<forall>a xs. same a = Some xs \<and> vec_ok a \<longrightarrow> xs = map (\<lambda>k. conv (the (vec_elem a k))) [0..<vec_length a])"

lemma coerce_array_ok:
  assumes "IsNumeric v" and "kern_ok (kern v)" and "Length v = 1 \<or> Length v = n" and "conv_ok same conv"
    and "\<And>a ix. kern v = SubVec a ix \<Longrightarrow> vec_type a \<in> T"
  shows "\<exists>c. coerce_array same conv T v n = Return (c, Some (map conv (spread (kern v) n)))"
proof (cases "kern v")
  case (Array a)
  have num: "numeric_type (vec_type a)" using assms(1) Array by (simp add: IsNumeric_def)
  have len: "vec_length a = 1 \<or> vec_length a = n" using assms(3) Array by simp
  let ?i = "if vec_length a = 1 then 0 else 1"
  have "array_get a (0 + i * ?i) = Return (Some (elem_at (Array a) i))" if "i < n" for i
    using that len array_get_ok [OF num, of "i * ?i"] by (auto simp: elem_at_def)
  from coerce_loop_reads [of n "array_get a" 0 ?i "elem_at (Array a)" conv, OF this] have loop: "coerce_loop (array_get a) conv n 0 ?i = Return (Some (map conv (spread (Array a) n)))"
    by (simp add: spread_def comp_def)
  have s: "xs = map conv (spread (Array a) n)" if "same a = Some xs" "vec_length a = n" for xs
    using that assms(2,4) Array unfolding conv_ok_def by (fastforce simp: spread_def elem_at_def)
  show ?thesis using assms(1) Array loop s by (auto simp: coerce_array_def Let_def split: option.split)
next
  case (SubVec a ix)
  have num: "numeric_type (vec_type a)" using assms(1) SubVec by (simp add: IsNumeric_def)
  have len: "length ix = 1 \<or> length ix = n" and ok: "indices_ok a ix" using assms(2,3) SubVec by simp_all
  let ?i = "if length ix = 1 then 0 else 1"
  have "subvec_get a ix (0 + i * ?i) = Return (Some (elem_at (SubVec a ix) i))" if "i < n" for i
    using that len subvec_get_ok [OF num ok, of "i * ?i"] by (auto simp: elem_at_def)
  from coerce_loop_reads [of n "subvec_get a ix" 0 ?i "elem_at (SubVec a ix)" conv, OF this] have "coerce_loop (subvec_get a ix) conv n 0 ?i = Return (Some (map conv (spread (SubVec a ix) n)))"
    by (simp add: spread_def comp_def)
  then show ?thesis using assms(1,5) SubVec by (auto simp: coerce_array_def Let_def)
qed (use assms(1) in \<open>simp_all add: IsNumeric_def numeric_type_def\<close>)
lemma conv_ok_same:
  "conv_ok (\<lambda>a. case a of BoolVec xs \<Rightarrow> Some xs | _ \<Rightarrow> None) to_bool"
  "conv_ok (\<lambda>a. case a of ByteVec xs \<Rightarrow> Some xs | _ \<Rightarrow> None) (to_byte P)"
  "conv_ok (\<lambda>a. case a of ShortVec xs \<Rightarrow> Some xs | _ \<Rightarrow> None) (to_short P)"
  "conv_ok (\<lambda>a. case a of IntVec xs \<Rightarrow> Some xs | _ \<Rightarrow> None) (to_int P)"
  "conv_ok (\<lambda>a. case a of FloatVec xs \<Rightarrow> Some xs | _ \<Rightarrow> None) (to_fp float_format)"
  "conv_ok (\<lambda>a. case a of DoubleVec xs \<Rightarrow> Some xs | _ \<Rightarrow> None) (to_fp double_format)"
  "conv_ok (\<lambda>a. case a of ComplexVec xs \<Rightarrow> Some xs | _ \<Rightarrow> None) (to_cpx float_format)"
  "conv_ok (\<lambda>a. case a of DcomplexVec xs \<Rightarrow> Some xs | _ \<Rightarrow> None) (to_cpx double_format)"
proof -
  have c: "fp_cast F x = x" if "fp_ok F x" for F x using that by (cases x) (auto simp: round_to_representable)
  have w: "to_byte P (ByteE b) = b" "to_short P (ShortE s) = s" "to_int P (IntE i) = i" for b s i
    by (simp_all add: to_byte_def to_short_def to_int_def)
  note d = conv_ok_def
  show "conv_ok (\<lambda>a. case a of BoolVec xs \<Rightarrow> Some xs | _ \<Rightarrow> None) to_bool" by (auto simp: d intro: nth_equalityI split: vec.splits)
  show "conv_ok (\<lambda>a. case a of ByteVec xs \<Rightarrow> Some xs | _ \<Rightarrow> None) (to_byte P)" by (auto simp: d w intro: nth_equalityI split: vec.splits)
  show "conv_ok (\<lambda>a. case a of ShortVec xs \<Rightarrow> Some xs | _ \<Rightarrow> None) (to_short P)" by (auto simp: d w intro: nth_equalityI split: vec.splits)
  show "conv_ok (\<lambda>a. case a of IntVec xs \<Rightarrow> Some xs | _ \<Rightarrow> None) (to_int P)" by (auto simp: d w intro: nth_equalityI split: vec.splits)
  show "conv_ok (\<lambda>a. case a of FloatVec xs \<Rightarrow> Some xs | _ \<Rightarrow> None) (to_fp float_format)" by (auto simp: d c intro!: nth_equalityI split: vec.splits)
  show "conv_ok (\<lambda>a. case a of DoubleVec xs \<Rightarrow> Some xs | _ \<Rightarrow> None) (to_fp double_format)" by (auto simp: d c intro!: nth_equalityI split: vec.splits)
  show "conv_ok (\<lambda>a. case a of ComplexVec xs \<Rightarrow> Some xs | _ \<Rightarrow> None) (to_cpx float_format)" by (auto simp: d c intro!: nth_equalityI split: vec.splits)
  show "conv_ok (\<lambda>a. case a of DcomplexVec xs \<Rightarrow> Some xs | _ \<Rightarrow> None) (to_cpx double_format)" by (auto simp: d c intro!: nth_equalityI split: vec.splits)
qed

text \<open>
  The coercions of a numeric value that has the size asked for or is a scalar; the value of a reference to
  a vector of bytes, shorts or integers as truth values is the one case that is missing.
\<close>

lemma coercions_ok:
  assumes "IsNumeric v" and "kern_ok (kern v)" and "Length v = 1 \<or> Length v = n"
  shows "\<exists>c. CoerceToByteArray P v n = Return (c, Some (map (to_byte P) (spread (kern v) n)))"
    and "\<exists>c. CoerceToShortArray P v n = Return (c, Some (map (to_short P) (spread (kern v) n)))"
    and "\<exists>c. CoerceToIntArray P v n = Return (c, Some (map (to_int P) (spread (kern v) n)))"
    and "\<exists>c. CoerceToFloatArray v n = Return (c, Some (map (to_fp float_format) (spread (kern v) n)))"
    and "\<exists>c. CoerceToDoubleArray v n = Return (c, Some (map (to_fp double_format) (spread (kern v) n)))"
    and "\<exists>c. CoerceToComplexArray v n = Return (c, Some (map (to_cpx float_format) (spread (kern v) n)))"
    and "\<exists>c. CoerceToDcomplexArray v n = Return (c, Some (map (to_cpx double_format) (spread (kern v) n)))"
    and "\<exists>c. Type v = TYPE_BOOL \<longrightarrow> CoerceToBoolArray v n = Return (c, Some (map to_bool (spread (kern v) n)))"
proof -
  have t: "vec_type a \<in> numeric_types" if "kern v = SubVec a ix" for a ix
    using assms(1) that by (simp add: IsNumeric_def numeric_type_def)
  note ok = coerce_array_ok [OF assms _ t]
  show "\<exists>c. CoerceToByteArray P v n = Return (c, Some (map (to_byte P) (spread (kern v) n)))"
    unfolding CoerceToByteArray_def by (rule ok [OF conv_ok_same(2)])
  show "\<exists>c. CoerceToShortArray P v n = Return (c, Some (map (to_short P) (spread (kern v) n)))"
    unfolding CoerceToShortArray_def by (rule ok [OF conv_ok_same(3)])
  show "\<exists>c. CoerceToIntArray P v n = Return (c, Some (map (to_int P) (spread (kern v) n)))"
    unfolding CoerceToIntArray_def by (rule ok [OF conv_ok_same(4)])
  show "\<exists>c. CoerceToFloatArray v n = Return (c, Some (map (to_fp float_format) (spread (kern v) n)))"
    unfolding CoerceToFloatArray_def by (rule ok [OF conv_ok_same(5)])
  show "\<exists>c. CoerceToDoubleArray v n = Return (c, Some (map (to_fp double_format) (spread (kern v) n)))"
    unfolding CoerceToDoubleArray_def by (rule ok [OF conv_ok_same(6)])
  show "\<exists>c. CoerceToComplexArray v n = Return (c, Some (map (to_cpx float_format) (spread (kern v) n)))"
    unfolding CoerceToComplexArray_def by (rule ok [OF conv_ok_same(7)])
  show "\<exists>c. CoerceToDcomplexArray v n = Return (c, Some (map (to_cpx double_format) (spread (kern v) n)))"
    unfolding CoerceToDcomplexArray_def by (rule ok [OF conv_ok_same(8)])
  show "\<exists>c. Type v = TYPE_BOOL \<longrightarrow> CoerceToBoolArray v n = Return (c, Some (map to_bool (spread (kern v) n)))"
  proof (cases "Type v = TYPE_BOOL")
    case True
    then have "\<exists>c. CoerceToBoolArray v n = Return (c, Some (map to_bool (spread (kern v) n)))"
      unfolding CoerceToBoolArray_def by (intro coerce_array_ok [OF assms conv_ok_same(1)]) simp
    then show ?thesis by blast
  qed simp
qed

section \<open>Copies\<close>

lemma DupVec_ok:
  assumes "indices_ok a ix" and "length xs = vec_length a"
  shows "i + n \<le> length ix \<Longrightarrow> DupVec a ix xs n i = Return (map (\<lambda>k. xs ! nat (ix ! k - 1)) [i..<i + n])"
proof (induction n arbitrary: i)
  case (Suc n)
  have "1 \<le> ix ! i" "ix ! i \<le> int (vec_length a)" using assms(1) Suc.prems by (auto simp: indices_ok_def)
  with Suc show ?case by (simp add: TranslateIndex_def assms(2) upt_conv_Cons del: upt_Suc)
qed simp

lemma nat_index: "indices_ok a ix \<Longrightarrow> k < length ix \<Longrightarrow> nat (ix ! k - 1) < vec_length a"
  using nth_mem [of k ix] unfolding indices_ok_def by fastforce

lemma flatten_ok:
  assumes "indices_ok a ix"
  shows "\<exists>b. flatten a ix = Return b \<and> vec_type b = vec_type a \<and> vec_length b = length ix \<and> (vec_ok a \<longrightarrow> vec_ok b)
    \<and> (\<forall>k < length ix. vec_elem b k = vec_elem a (nat (ix ! k - 1)))"
  using assms nat_index [OF assms]
  by (cases a) (auto simp: flatten_def DupVec_ok [where i = 0 and n = "length ix" and ix = ix, simplified])

text \<open>A copy has the elements of the value, and never is a reference to a part of another.\<close>

lemma copy_ivalue_ok:
  assumes "kern_ok (kern v)"
  shows "\<exists>k. copy_ivalue v = Return (v\<lparr>kern := k\<rparr>) \<and> kern_ok k \<and> kern_type k = VecRefDeref_type (kern v) \<and> kern_length k = Length v
    \<and> kern_type k \<noteq> TYPE_SUBVEC_REF \<and> (\<forall>n. Length v = 1 \<or> Length v = n \<longrightarrow> spread k n = spread (kern v) n)"
proof (cases "kern v")
  case (SubVec a ix)
  then obtain b where b: "flatten a ix = Return b" "vec_type b = vec_type a" "vec_length b = length ix" "vec_ok b"
    and e: "\<And>k. k < length ix \<Longrightarrow> vec_elem b k = vec_elem a (nat (ix ! k - 1))"
    using flatten_ok [of a ix] assms by auto
  have "elem_at (Array b) k = elem_at (SubVec a ix) k" if "length ix = 1 \<or> k < length ix" for k
    using that e [of "if length ix = 1 then 0 else k"] by (auto simp: elem_at_def b(3))
  then show ?thesis using SubVec b by (cases b) (auto simp: copy_ivalue_def spread_def)
next
  case (Array a)
  have "v\<lparr>kern := Array a\<rparr> = v" using Array by simp
  then show ?thesis using Array assms by (cases a) (auto simp: copy_ivalue_def intro!: exI [of _ "Array a"])
qed (use assms in \<open>auto simp: copy_ivalue_def intro!: exI [of _ "kern v"]\<close>)
text \<open>
  The unary operators return on every well-formed value: the negation of a numeric vector has its type and
  length (truth values become integers), the logical negation is a vector of truth values of its length, and
  that of a failure is true.
\<close>

theorem unary_type_sound:
  assumes "kern_ok (kern v)"
  shows "\<exists>w u. NegExpr_Eval v = Return w \<and> Length w = Length v \<and> Type w = (if VecRefDeref_type (kern v) = TYPE_BOOL then TYPE_INT else VecRefDeref_type (kern v))
    \<and> kern_ok (kern w) \<and> NotExpr_Eval v = Return u \<and> (IsNumeric v \<longrightarrow> Type u = TYPE_BOOL \<and> Length u = Length v)
    \<and> (Type v = TYPE_FAIL \<longrightarrow> kern u = Array (BoolVec [True]))"
proof -
  obtain k where c: "copy_ivalue v = Return (v\<lparr>kern := k\<rparr>)" "kern_ok k" "kern_type k = VecRefDeref_type (kern v)" "kern_length k = Length v"
    "kern_type k \<noteq> TYPE_SUBVEC_REF" using copy_ivalue_ok [OF assms] by blast
  have n: "IsNumeric v \<longleftrightarrow> IsNumeric (v\<lparr>kern := k\<rparr>)" using c(3,5) by (cases "kern v"; cases k) (auto simp: IsNumeric_def)
  have f: "Type v = TYPE_FAIL \<Longrightarrow> kern_type k = TYPE_FAIL" using c(3) by (cases "kern v") auto
  have neg: "\<exists>w. Negate (v\<lparr>kern := k\<rparr>) = Return w \<and> Length w = kern_length k \<and> Type w = (if kern_type k = TYPE_BOOL then TYPE_INT else kern_type k) \<and> kern_ok (kern w)"
  proof (cases k)
    case (Array a)
    then show ?thesis using c(2) by (cases a) (auto simp: Negate_def IsNumeric_def numeric_type_def)
  qed (use c(5) in \<open>auto simp: Negate_def IsNumeric_def numeric_type_def\<close>)
  have loop: "coerce_loop (array_get a) conv (vec_length a) 0 1 = Return (Some (map (\<lambda>i. conv (the (vec_elem a i))) [0..<vec_length a]))"
    if "numeric_type (vec_type a)" for a and conv :: "elem \<Rightarrow> bool"
    by (rule coerce_loop_reads) (simp add: array_get_ok [OF that])
  have no: "\<exists>u. Not_value (v\<lparr>kern := k\<rparr>) = Return u \<and> (IsNumeric (v\<lparr>kern := k\<rparr>) \<longrightarrow> Type u = TYPE_BOOL \<and> Length u = kern_length k)
    \<and> (kern_type k = TYPE_FAIL \<longrightarrow> kern u = Array (BoolVec [True]))"
  proof (cases k)
    case (Array a)
    then show ?thesis using loop [of a "\<lambda>e. \<not> to_bool e"] by (cases a) (auto simp: Not_value_def IsNumeric_def numeric_type_def)
  qed (use c(5) in \<open>auto simp: Not_value_def IsNumeric_def numeric_type_def\<close>)
  from neg obtain w where w: "Negate (v\<lparr>kern := k\<rparr>) = Return w" "Length w = kern_length k" "Type w = (if kern_type k = TYPE_BOOL then TYPE_INT else kern_type k)" "kern_ok (kern w)" by blast
  from no obtain u where u: "Not_value (v\<lparr>kern := k\<rparr>) = Return u" "IsNumeric (v\<lparr>kern := k\<rparr>) \<longrightarrow> Type u = TYPE_BOOL \<and> Length u = kern_length k"
    "kern_type k = TYPE_FAIL \<longrightarrow> kern u = Array (BoolVec [True])" by blast
  show ?thesis using w u c(1,3,4) n f by (auto simp: NegExpr_Eval_def NotExpr_Eval_def intro!: exI [of _ w] exI [of _ u])
qed

theorem unary_type_sound_witness:
  "\<exists>w u. NegExpr_Eval \<lparr>kern = SubVec (BoolVec [True, False]) [2, 1, 1], attributes = None :: unit option\<rparr> = Return w \<and> Type w = TYPE_INT \<and> Length w = 3
    \<and> NotExpr_Eval \<lparr>kern = SubVec (BoolVec [True, False]) [2, 1, 1], attributes = None :: unit option\<rparr> = Return u \<and> Type u = TYPE_BOOL \<and> Length u = 3"
  using unary_type_sound [of "\<lparr>kern = SubVec (BoolVec [True, False]) [2, 1, 1], attributes = None :: unit option\<rparr>"]
  by (auto simp: indices_ok_def IsNumeric_def numeric_type_def numeral_3_eq_3)

end
