(* ===== verification/Glish_Arith.thy ===== *)
theory Glish_Arith
  imports Glish_Value
begin

text \<open>
  The binary operators of Glish (\<open>glish/BinOpExpr.cc\<close>, the operators of \<open>glish/IValue.cc\<close>): the types
  operands are promoted to, the check of their lengths, and the loops over the elements. An operator is
  given the values of its operands; the arithmetic ones work in place on a copy of the left one.
\<close>

section \<open>Operators\<close>

datatype binop =
    OP_ADD | OP_SUBTRACT | OP_MULTIPLY | OP_DIVIDE | OP_MODULO | OP_POWER
  | OP_AND | OP_OR | OP_EQ | OP_NE | OP_LE | OP_GE | OP_LT | OP_GT

text \<open>Why the result is a failure.\<close>

datatype reason =
    FailedOperand bool | NonNumericOperand | DifferentLengths nat nat | BadTypes | NonBooleanOperands | FpeOccurred string | CoercionFailed

datatype 'a result = Value "'a ivalue" | Failed reason

section \<open>Checks\<close>

text \<open>\<open>BinOpExpr::TypeCheck\<close>: the failure, if there is one.\<close>

definition BinOp_TypeCheck :: "'a ivalue \<Rightarrow> 'a ivalue \<Rightarrow> reason option" where
  "BinOp_TypeCheck lhs rhs =
    (if \<not> IsNumeric lhs \<or> \<not> IsNumeric rhs then
       if Type lhs = TYPE_FAIL then Some (FailedOperand True)
       else if Type rhs = TYPE_FAIL then Some (FailedOperand False)
       else Some NonNumericOperand
     else None)"

definition BinOp_OperandsType :: "glish_type \<Rightarrow> glish_type \<Rightarrow> glish_type" where
  "BinOp_OperandsType t1 t2 =
    (if t1 = TYPE_FAIL \<or> t2 = TYPE_FAIL then TYPE_FAIL
     else if t1 = TYPE_DCOMPLEX \<or> t2 = TYPE_DCOMPLEX then TYPE_DCOMPLEX
     else if t1 = TYPE_COMPLEX \<or> t2 = TYPE_COMPLEX then
       if t1 = TYPE_DOUBLE \<or> t2 = TYPE_DOUBLE then TYPE_DCOMPLEX else TYPE_COMPLEX
     else if t1 = TYPE_DOUBLE \<or> t2 = TYPE_DOUBLE then TYPE_DOUBLE
     else if t1 = TYPE_FLOAT \<or> t2 = TYPE_FLOAT then TYPE_FLOAT
     else if t1 = TYPE_INT \<or> t2 = TYPE_INT then TYPE_INT
     else if t1 = TYPE_SHORT \<or> t2 = TYPE_SHORT then TYPE_SHORT
     else if t1 = TYPE_BYTE \<or> t2 = TYPE_BYTE then TYPE_BYTE
     else if t1 = TYPE_BOOL \<or> t2 = TYPE_BOOL then TYPE_INT
     else if t1 = TYPE_STRING \<or> t2 = TYPE_STRING then TYPE_STRING
     else t1)"

text \<open>The length at which the left operand is used, or the failure.\<close>

definition BinOp_Compute :: "'a ivalue \<Rightarrow> 'a ivalue \<Rightarrow> reason + nat" where
  "BinOp_Compute lhs rhs =
    (let rhs_scalar = (Length rhs = 1);
         lhs_scalar = (if Length lhs = 1 \<and> rhs_scalar then False else Length lhs = 1);
         lhs_len = Length lhs; rhs_len = Length rhs
     in if lhs_len \<noteq> rhs_len \<and> \<not> lhs_scalar \<and> \<not> rhs_scalar then Inl (DifferentLengths lhs_len rhs_len)
        else Inr (if lhs_scalar then rhs_len else lhs_len))"

section \<open>Arithmetic on elements\<close>

text \<open>
  The integer operations on the promoted operands, before the result is reduced to its type; nothing where
  the division traps.
\<close>

fun int_op :: "binop \<Rightarrow> int \<Rightarrow> int \<Rightarrow> int option" where
  "int_op OP_ADD x y = Some (x + y)"
| "int_op OP_SUBTRACT x y = Some (x - y)"
| "int_op OP_MULTIPLY x y = Some (x * y)"
| "int_op OP_DIVIDE x y = (if y = 0 \<or> x = - (2 ^ 31) \<and> y = - 1 then None else Some (x sdiv y))"
| "int_op OP_MODULO x y = (if y = 0 \<or> x = - (2 ^ 31) \<and> y = - 1 then None else Some (x smod y))"
| "int_op _ x y = None"

definition byte_op :: "binop \<Rightarrow> 8 word \<Rightarrow> 8 word \<Rightarrow> 8 word option" where
  "byte_op op x y = map_option word_of_int (int_op op (uint x) (uint y))"

definition short_op :: "binop \<Rightarrow> 16 word \<Rightarrow> 16 word \<Rightarrow> 16 word option" where
  "short_op op x y = map_option word_of_int (int_op op (sint x) (sint y))"

definition int32_op :: "binop \<Rightarrow> 32 word \<Rightarrow> 32 word \<Rightarrow> 32 word option" where
  "int32_op op x y = map_option word_of_int (int_op op (sint x) (sint y))"

fun fp_op :: "fp_format \<Rightarrow> binop \<Rightarrow> fp \<Rightarrow> fp \<Rightarrow> fp" where
  "fp_op F OP_ADD x y = fp_add F x y"
| "fp_op F OP_SUBTRACT x y = fp_sub F x y"
| "fp_op F OP_MULTIPLY x y = fp_mul F x y"
| "fp_op F OP_DIVIDE x y = fp_div F x y"
| "fp_op F _ x y = x"

definition cpx_mul :: "fp_format \<Rightarrow> cpx \<Rightarrow> cpx \<Rightarrow> cpx" where
  "cpx_mul F x y =
    (fp_sub F (fp_mul F (fst x) (fst y)) (fp_mul F (snd x) (snd y)),
     fp_add F (fp_mul F (fst x) (snd y)) (fp_mul F (snd x) (fst y)))"

text \<open>
  Division of complex numbers: sums of products in the format of the operands, then in double, where \<open>HUGE\<close>
  is a constant of the C library.
\<close>

definition cpx_div :: "platform \<Rightarrow> fp_format \<Rightarrow> cpx \<Rightarrow> cpx \<Rightarrow> cpx" where
  "cpx_div P F x y =
    (let d = fp_cast double_format (fp_add F (fp_mul F (fst y) (fst y)) (fp_mul F (snd y) (snd y)));
         p = fp_cast double_format (fp_add F (fp_mul F (fst x) (fst y)) (fp_mul F (snd x) (snd y)));
         q = fp_cast double_format (fp_sub F (fp_mul F (snd x) (fst y)) (fp_mul F (fst x) (snd y)));
         w = fp_mul double_format (c_huge P) d
     in if fp_less d (fp_of_int double_format 1) \<and> (fp_less w (fp_abs p) \<or> fp_less w (fp_abs q) \<or> is_zero d)
        then (Infinite False, Infinite False)
        else (fp_cast F (fp_div double_format p d), fp_cast F (fp_div double_format q d)))"

fun cpx_op :: "platform \<Rightarrow> fp_format \<Rightarrow> binop \<Rightarrow> cpx \<Rightarrow> cpx \<Rightarrow> cpx" where
  "cpx_op P F OP_ADD x y = (fp_add F (fst x) (fst y), fp_add F (snd x) (snd y))"
| "cpx_op P F OP_SUBTRACT x y = (fp_sub F (fst x) (fst y), fp_sub F (snd x) (snd y))"
| "cpx_op P F OP_MULTIPLY x y = cpx_mul F x y"
| "cpx_op P F OP_DIVIDE x y = cpx_div P F x y"
| "cpx_op P F _ x y = x"

definition cpx_log :: "platform \<Rightarrow> cpx \<Rightarrow> cpx" where
  "cpx_log P v = (c_log P (c_hypot P (fst v) (snd v)), c_atan2 P (snd v) (fst v))"

definition cpx_exp :: "platform \<Rightarrow> cpx \<Rightarrow> cpx" where
  "cpx_exp P v = (let r = c_exp P (fst v) in (fp_mul double_format r (c_cos P (snd v)), fp_mul double_format r (c_sin P (snd v))))"

definition cpx_pow :: "platform \<Rightarrow> cpx \<Rightarrow> cpx \<Rightarrow> cpx" where
  "cpx_pow P x y = cpx_exp P (cpx_mul double_format (cpx_log P x) y)"

section \<open>Loops\<close>

text \<open>
  \<open>lhs[i] op= rhs[j]\<close> for \<open>n\<close> elements, and whether a division trapped. When the handler does not go on
  behind the instruction, the trap is taken again and again.
\<close>

fun compute_loop :: "bool \<Rightarrow> ('x \<Rightarrow> 'x \<Rightarrow> 'x option) \<Rightarrow> nat \<Rightarrow> 'x list \<Rightarrow> 'x list \<Rightarrow> nat \<Rightarrow> nat \<Rightarrow> nat \<Rightarrow> bool \<Rightarrow> ('x list \<times> bool) run" where
  "compute_loop resumes f 0 lhs rhs i j incr trap = Return (lhs, trap)"
| "compute_loop resumes f (Suc n) lhs rhs i j incr trap =
    (if i \<ge> length lhs \<or> j \<ge> length rhs then Stop OutOfBounds
     else case f (lhs ! i) (rhs ! j) of
         Some x \<Rightarrow> compute_loop resumes f n (lhs[i := x]) rhs (Suc i) (j + incr) incr trap
       | None \<Rightarrow> if resumes then compute_loop resumes f n lhs rhs (Suc i) (j + incr) incr True else Stop SigFpe)"

text \<open>The functions \<open>Compute\<close> of the operators, by the type of the elements.\<close>

definition Compute_byte :: "platform \<Rightarrow> binop \<Rightarrow> 8 word list \<Rightarrow> 8 word list \<Rightarrow> nat \<Rightarrow> nat \<Rightarrow> (8 word list \<times> bool) run" where
  "Compute_byte P op lhs rhs n incr =
    (if op = OP_POWER then Stop (GlishFatal ''PowerExpr::Compute() called with byte operands'')
     else compute_loop (trap_resumes P) (byte_op op) n lhs rhs 0 0 incr False)"

definition Compute_short :: "platform \<Rightarrow> binop \<Rightarrow> 16 word list \<Rightarrow> 16 word list \<Rightarrow> nat \<Rightarrow> nat \<Rightarrow> (16 word list \<times> bool) run" where
  "Compute_short P op lhs rhs n incr =
    (if op = OP_POWER then Stop (GlishFatal ''PowerExpr::Compute() called with short operands'')
     else compute_loop (trap_resumes P) (short_op op) n lhs rhs 0 0 incr False)"

definition Compute_int :: "platform \<Rightarrow> binop \<Rightarrow> 32 word list \<Rightarrow> 32 word list \<Rightarrow> nat \<Rightarrow> nat \<Rightarrow> (32 word list \<times> bool) run" where
  "Compute_int P op lhs rhs n incr =
    (if op = OP_POWER then Stop (GlishFatal ''PowerExpr::Compute() called with integer operands'')
     else compute_loop (trap_resumes P) (int32_op op) n lhs rhs 0 0 incr False)"

definition Compute_float :: "platform \<Rightarrow> binop \<Rightarrow> fp list \<Rightarrow> fp list \<Rightarrow> nat \<Rightarrow> nat \<Rightarrow> (fp list \<times> bool) run" where
  "Compute_float P op lhs rhs n incr =
    (if op = OP_POWER then Stop (GlishFatal ''PowerExpr::Compute() called with float operands'')
     else if op = OP_MODULO then Stop (GlishFatal ''ModuloExpr::Compute() called with float operands'')
     else compute_loop (trap_resumes P) (\<lambda>x y. Some (fp_op float_format op x y)) n lhs rhs 0 0 incr False)"

definition Compute_double :: "platform \<Rightarrow> binop \<Rightarrow> fp list \<Rightarrow> fp list \<Rightarrow> nat \<Rightarrow> nat \<Rightarrow> (fp list \<times> bool) run" where
  "Compute_double P op lhs rhs n incr =
    (if op = OP_MODULO then Stop (GlishFatal ''ModuloExpr::Compute() called with double operands'')
     else compute_loop (trap_resumes P) (\<lambda>x y. Some (if op = OP_POWER then c_pow P x y else fp_op double_format op x y)) n lhs rhs 0 0 incr False)"

definition Compute_complex :: "platform \<Rightarrow> binop \<Rightarrow> cpx list \<Rightarrow> cpx list \<Rightarrow> nat \<Rightarrow> nat \<Rightarrow> (cpx list \<times> bool) run" where
  "Compute_complex P op lhs rhs n incr =
    (if op = OP_POWER then Stop (GlishFatal ''PowerExpr::Compute() called with complex operands'')
     else if op = OP_MODULO then Stop (GlishFatal ''ModuloExpr::Compute() called with complex operands'')
     else compute_loop (trap_resumes P) (\<lambda>x y. Some (cpx_op P float_format op x y)) n lhs rhs 0 0 incr False)"

definition Compute_dcomplex :: "platform \<Rightarrow> binop \<Rightarrow> cpx list \<Rightarrow> cpx list \<Rightarrow> nat \<Rightarrow> nat \<Rightarrow> (cpx list \<times> bool) run" where
  "Compute_dcomplex P op lhs rhs n incr =
    (if op = OP_MODULO then Stop (GlishFatal ''ModuloExpr::Compute() called with dcomplex operands'')
     else compute_loop (trap_resumes P) (\<lambda>x y. Some (if op = OP_POWER then cpx_pow P x y else cpx_op P double_format op x y)) n lhs rhs 0 0 incr False)"

section \<open>Arithmetic operators\<close>

text \<open>
  What ByteOpCompute and its siblings have in common: both operands are coerced, the loop changes the left
  one, which takes over the attributes of the right one only if it was converted and has none.
\<close>

definition arith_op_compute ::
  "('a ivalue \<Rightarrow> nat \<Rightarrow> (bool \<times> 'x list option) run) \<Rightarrow> ('x list \<Rightarrow> vec) \<Rightarrow> ('x list \<Rightarrow> 'x list \<Rightarrow> nat \<Rightarrow> nat \<Rightarrow> ('x list \<times> bool) run)
    \<Rightarrow> 'a ivalue \<Rightarrow> 'a ivalue \<Rightarrow> nat \<Rightarrow> ('a ivalue \<times> bool) run" where
  "arith_op_compute coerce mk compute lhs rhs lhs_len =
    then_do (coerce lhs lhs_len) (\<lambda>(lhs_copy, lhs_array).
    then_do (coerce rhs (Length rhs)) (\<lambda>(rhs_copy, rhs_array).
    let rhs_incr = (if Length rhs = 1 then 0 else 1) in
    if lhs_len > 0 \<and> (lhs_array = None \<or> rhs_array = None) then Stop NullPointer
    else then_do (compute (case_option [] id lhs_array) (case_option [] id rhs_array) lhs_len rhs_incr) (\<lambda>(xs, trap).
    Return (if lhs_copy then lhs\<lparr>kern := Array (mk xs), attributes := (if attributes lhs = None then attributes rhs else attributes lhs)\<rparr>
            else lhs\<lparr>kern := Array (mk xs)\<rparr>, trap))))"

fun OperandsType :: "binop \<Rightarrow> glish_type \<Rightarrow> glish_type \<Rightarrow> glish_type" where
  "OperandsType OP_DIVIDE t1 t2 =
    (if t1 = TYPE_DCOMPLEX \<or> t2 = TYPE_DCOMPLEX then TYPE_DCOMPLEX
     else if t1 = TYPE_COMPLEX \<or> t2 = TYPE_COMPLEX then TYPE_COMPLEX else TYPE_DOUBLE)"
| "OperandsType OP_MODULO t1 t2 = TYPE_INT"
| "OperandsType OP_POWER t1 t2 =
    (if t1 = TYPE_DCOMPLEX \<or> t2 = TYPE_DCOMPLEX then TYPE_DCOMPLEX
     else if t1 = TYPE_COMPLEX \<or> t2 = TYPE_COMPLEX then TYPE_DCOMPLEX else TYPE_DOUBLE)"
| "OperandsType _ t1 t2 = BinOp_OperandsType t1 t2"

definition ArithExpr_OpCompute :: "platform \<Rightarrow> binop \<Rightarrow> 'a ivalue \<Rightarrow> 'a ivalue \<Rightarrow> nat \<Rightarrow> ('a result \<times> bool) run" where
  "ArithExpr_OpCompute P op lhs rhs lhs_len =
    (let ok = (\<lambda>m. then_do m (\<lambda>(v, trap). Return (Value v, trap))) in
     case OperandsType op (Type lhs) (Type rhs) of
       TYPE_BYTE \<Rightarrow> ok (arith_op_compute (CoerceToByteArray P) ByteVec (Compute_byte P op) lhs rhs lhs_len)
     | TYPE_SHORT \<Rightarrow> ok (arith_op_compute (CoerceToShortArray P) ShortVec (Compute_short P op) lhs rhs lhs_len)
     | TYPE_INT \<Rightarrow> ok (arith_op_compute (CoerceToIntArray P) IntVec (Compute_int P op) lhs rhs lhs_len)
     | TYPE_FLOAT \<Rightarrow> ok (arith_op_compute CoerceToFloatArray FloatVec (Compute_float P op) lhs rhs lhs_len)
     | TYPE_DOUBLE \<Rightarrow> ok (arith_op_compute CoerceToDoubleArray DoubleVec (Compute_double P op) lhs rhs lhs_len)
     | TYPE_COMPLEX \<Rightarrow> ok (arith_op_compute CoerceToComplexArray ComplexVec (Compute_complex P op) lhs rhs lhs_len)
     | TYPE_DCOMPLEX \<Rightarrow> ok (arith_op_compute CoerceToDcomplexArray DcomplexVec (Compute_dcomplex P op) lhs rhs lhs_len)
     | TYPE_FAIL \<Rightarrow> Return (Failed (FailedOperand (Type lhs = TYPE_FAIL)), False)
     | _ \<Rightarrow> Stop (GlishFatal ''bad operands type in ArithExpr::OpCompute()''))"

fun fpe_errmsg :: "binop \<Rightarrow> string" where
  "fpe_errmsg OP_ADD = ''addition FPE occurred''"
| "fpe_errmsg OP_SUBTRACT = ''subtraction FPE occurred''"
| "fpe_errmsg OP_MULTIPLY = ''multiplication FPE occurred''"
| "fpe_errmsg OP_DIVIDE = ''division FPE occurred''"
| "fpe_errmsg OP_MODULO = ''modulo FPE occurred''"
| "fpe_errmsg _ = ''power FPE occurred''"

definition ArithExpr_Eval :: "platform \<Rightarrow> binop \<Rightarrow> 'a ivalue \<Rightarrow> 'a ivalue \<Rightarrow> 'a result run" where
  "ArithExpr_Eval P op l rhs = then_do (copy_ivalue l) (\<lambda>lhs.
     case BinOp_TypeCheck lhs rhs of
       Some why \<Rightarrow> Return (Failed why)
     | None \<Rightarrow> (case BinOp_Compute lhs rhs of
         Inl why \<Rightarrow> Return (Failed why)
       | Inr lhs_len \<Rightarrow> then_do (ArithExpr_OpCompute P op lhs rhs lhs_len) (\<lambda>(r, trap).
           Return (if trap then Failed (FpeOccurred (fpe_errmsg op)) else r))))"
section \<open>Relational and logical operators\<close>

definition RelExpr_TypeCheck :: "binop \<Rightarrow> 'a ivalue \<Rightarrow> 'a ivalue \<Rightarrow> reason option \<times> bool" where
  "RelExpr_TypeCheck op lhs rhs =
    (if Type lhs = TYPE_STRING \<and> Type rhs = TYPE_STRING then (None, True)
     else if IsNumeric lhs \<or> IsNumeric rhs then (BinOp_TypeCheck lhs rhs, True)
     else if op = OP_EQ \<or> op = OP_NE then (None, \<not> (Type lhs \<noteq> TYPE_STRING \<and> Type rhs \<noteq> TYPE_STRING))
     else (Some BadTypes, True))"

definition RelExpr_OperandsType :: "binop \<Rightarrow> glish_type \<Rightarrow> glish_type \<Rightarrow> glish_type" where
  "RelExpr_OperandsType op t1 t2 =
    (if t1 = TYPE_STRING \<and> t2 = TYPE_STRING then TYPE_STRING
     else if (op = OP_AND \<or> op = OP_OR) \<and> t1 = TYPE_BOOL \<and> t2 = TYPE_BOOL then TYPE_BOOL
     else BinOp_OperandsType t1 t2)"

definition LogExpr_TypeCheck :: "'a ivalue \<Rightarrow> 'a ivalue \<Rightarrow> reason option \<times> bool" where
  "LogExpr_TypeCheck lhs rhs = (if Type lhs = TYPE_BOOL \<and> Type rhs = TYPE_BOOL then None else Some NonBooleanOperands, True)"

definition LogExpr_OperandsType :: "glish_type \<Rightarrow> glish_type \<Rightarrow> glish_type" where
  "LogExpr_OperandsType t1 t2 = TYPE_BOOL"

abbreviation logical :: "binop \<Rightarrow> bool" where "logical op \<equiv> op = OP_AND \<or> op = OP_OR"

text \<open>The operators on elements: the comparison of C on integers, on the result of \<open>strcmp\<close>, and on floating point numbers.\<close>

fun int_rel :: "binop \<Rightarrow> int \<Rightarrow> int \<Rightarrow> bool" where
  "int_rel OP_EQ x y = (x = y)"
| "int_rel OP_NE x y = (x \<noteq> y)"
| "int_rel OP_LE x y = (x \<le> y)"
| "int_rel OP_GE x y = (x \<ge> y)"
| "int_rel OP_LT x y = (x < y)"
| "int_rel OP_GT x y = (x > y)"
| "int_rel _ x y = False"

fun fp_rel :: "binop \<Rightarrow> fp \<Rightarrow> fp \<Rightarrow> bool" where
  "fp_rel OP_EQ x y = fp_equal x y"
| "fp_rel OP_NE x y = (\<not> fp_equal x y)"
| "fp_rel OP_LE x y = (fp_less x y \<or> fp_equal x y)"
| "fp_rel OP_GE x y = (fp_less y x \<or> fp_equal x y)"
| "fp_rel OP_LT x y = fp_less x y"
| "fp_rel OP_GT x y = fp_less y x"
| "fp_rel _ x y = False"

definition cpx_rel :: "binop \<Rightarrow> cpx \<Rightarrow> cpx \<Rightarrow> bool" where
  "cpx_rel op x y = (if fp_equal (fst x) (fst y) then fp_rel op (snd x) (snd y) else fp_rel op (fst x) (fst y))"

text \<open>The sign of \<open>strcmp\<close>: the first difference counts, characters as bytes.\<close>

fun strcmp :: "string \<Rightarrow> string \<Rightarrow> int" where
  "strcmp [] [] = 0"
| "strcmp [] (y # ys) = - 1"
| "strcmp (x # xs) [] = 1"
| "strcmp (x # xs) (y # ys) = (if x = y then strcmp xs ys else if (of_char x :: nat) < of_char y then - 1 else 1)"

definition bool_rel :: "binop \<Rightarrow> bool \<Rightarrow> bool \<Rightarrow> bool" where
  "bool_rel op x y = (case op of
     OP_AND \<Rightarrow> and (of_bool x) (of_bool y) \<noteq> (0 :: int)
   | OP_OR \<Rightarrow> or (of_bool x) (of_bool y) \<noteq> (0 :: int)
   | _ \<Rightarrow> int_rel op (of_bool x) (of_bool y))"

fun rel_loop :: "('x \<Rightarrow> 'x \<Rightarrow> bool) \<Rightarrow> nat \<Rightarrow> 'x list \<Rightarrow> 'x list \<Rightarrow> nat \<Rightarrow> nat \<Rightarrow> nat \<Rightarrow> (bool list) run" where
  "rel_loop f 0 lhs rhs i j incr = Return []"
| "rel_loop f (Suc n) lhs rhs i j incr =
    (if i \<ge> length lhs \<or> j \<ge> length rhs then Stop OutOfBounds
     else then_do (rel_loop f n lhs rhs (Suc i) (j + incr) incr) (\<lambda>bs. Return (f (lhs ! i) (rhs ! j) # bs)))"

text \<open>The functions \<open>Compute\<close>: the logical operators have one for truth values only.\<close>

definition rel_compute :: "bool \<Rightarrow> ('x \<Rightarrow> 'x \<Rightarrow> bool) \<Rightarrow> 'x list \<Rightarrow> 'x list \<Rightarrow> nat \<Rightarrow> nat \<Rightarrow> (bool list) run" where
  "rel_compute refused f lhs rhs n incr = (if refused then Stop (GlishFatal ''LogExpr::Compute called'') else rel_loop f n lhs rhs 0 0 incr)"

definition rel_op_compute ::
  "('a ivalue \<Rightarrow> nat \<Rightarrow> (bool \<times> 'x list option) run) \<Rightarrow> ('x list \<Rightarrow> 'x list \<Rightarrow> nat \<Rightarrow> nat \<Rightarrow> (bool list) run)
    \<Rightarrow> 'a ivalue \<Rightarrow> 'a ivalue \<Rightarrow> nat \<Rightarrow> 'a result run" where
  "rel_op_compute coerce compute lhs rhs lhs_len =
    then_do (coerce lhs lhs_len) (\<lambda>(lhs_copy, lhs_array).
    then_do (coerce rhs (Length rhs)) (\<lambda>(rhs_copy, rhs_array).
    case (lhs_array, rhs_array) of
      (Some xs, Some ys) \<Rightarrow> then_do (compute xs ys lhs_len (if Length rhs = 1 then 0 else 1)) (\<lambda>bs.
        Return (Value \<lparr>kern = Array (BoolVec bs), attributes = (if attributes lhs \<noteq> None then attributes lhs else attributes rhs)\<rparr>))
    | _ \<Rightarrow> Return (Failed CoercionFailed)))"

text \<open>\<open>same\<close> tells whether both operands are the same object, which is what equality of records, agents and functions means.\<close>

definition RelExpr_OpCompute :: "platform \<Rightarrow> binop \<Rightarrow> bool \<Rightarrow> 'a ivalue \<Rightarrow> 'a ivalue \<Rightarrow> nat \<Rightarrow> 'a result run" where
  "RelExpr_OpCompute P op same lhs rhs lhs_len =
    (case if logical op then LogExpr_OperandsType (Type lhs) (Type rhs) else RelExpr_OperandsType op (Type lhs) (Type rhs) of
       TYPE_BOOL \<Rightarrow> rel_op_compute CoerceToBoolArray (rel_compute False (bool_rel op)) lhs rhs lhs_len
     | TYPE_BYTE \<Rightarrow> rel_op_compute (CoerceToByteArray P) (rel_compute (logical op) (\<lambda>x y. int_rel op (uint x) (uint y))) lhs rhs lhs_len
     | TYPE_SHORT \<Rightarrow> rel_op_compute (CoerceToShortArray P) (rel_compute (logical op) (\<lambda>x y. int_rel op (sint x) (sint y))) lhs rhs lhs_len
     | TYPE_INT \<Rightarrow> rel_op_compute (CoerceToIntArray P) (rel_compute (logical op) (\<lambda>x y. int_rel op (sint x) (sint y))) lhs rhs lhs_len
     | TYPE_FLOAT \<Rightarrow> rel_op_compute CoerceToFloatArray (rel_compute (logical op) (fp_rel op)) lhs rhs lhs_len
     | TYPE_DOUBLE \<Rightarrow> rel_op_compute CoerceToDoubleArray (rel_compute (logical op) (fp_rel op)) lhs rhs lhs_len
     | TYPE_COMPLEX \<Rightarrow> rel_op_compute CoerceToComplexArray (rel_compute (logical op) (cpx_rel op)) lhs rhs lhs_len
     | TYPE_DCOMPLEX \<Rightarrow> rel_op_compute CoerceToDcomplexArray (rel_compute (logical op) (cpx_rel op)) lhs rhs lhs_len
     | TYPE_STRING \<Rightarrow> rel_op_compute CoerceToStringArray (rel_compute (logical op) (\<lambda>x y. int_rel op (strcmp x y) 0)) lhs rhs lhs_len
     | t \<Rightarrow> if t \<in> {TYPE_AGENT, TYPE_FUNC, TYPE_RECORD} then
               if op = OP_EQ then Return (Value \<lparr>kern = Array (BoolVec [same]), attributes = None\<rparr>)
               else if op = OP_NE then Return (Value \<lparr>kern = Array (BoolVec [\<not> same]), attributes = None\<rparr>)
               else Stop (GlishFatal ''bad operands type in RelExpr::OpCompute()'')
             else if t = TYPE_FAIL then Return (Failed (FailedOperand (Type lhs = TYPE_FAIL)))
             else Stop (GlishFatal ''bad operands type in RelExpr::OpCompute()''))"

definition RelExpr_Eval :: "platform \<Rightarrow> binop \<Rightarrow> bool \<Rightarrow> 'a ivalue \<Rightarrow> 'a ivalue \<Rightarrow> 'a result run" where
  "RelExpr_Eval P op same lhs rhs =
    (case if logical op then LogExpr_TypeCheck lhs rhs else RelExpr_TypeCheck op lhs rhs of
       (Some why, _) \<Rightarrow> Return (Failed why)
     | (None, element_by_element) \<Rightarrow>
         if \<not> element_by_element then RelExpr_OpCompute P op same lhs rhs (Length lhs)
         else case BinOp_Compute lhs rhs of
             Inl why \<Rightarrow> Return (Failed why)
           | Inr lhs_len \<Rightarrow> RelExpr_OpCompute P op same lhs rhs lhs_len)"
section \<open>What the loops compute\<close>

lemma compute_loop_ok:
  assumes "i + n \<le> length xs" and "\<And>k. k < n \<Longrightarrow> j + k * incr < length ys"
  shows "compute_loop res f n xs ys i j incr trap =
    (if (\<exists>k < n. f (xs ! (i + k)) (ys ! (j + k * incr)) = None) \<and> \<not> res then Stop SigFpe
     else Return (take i xs @ map (\<lambda>k. case f (xs ! (i + k)) (ys ! (j + k * incr)) of Some x \<Rightarrow> x | None \<Rightarrow> xs ! (i + k)) [0..<n] @ drop (i + n) xs,
       trap \<or> (\<exists>k < n. f (xs ! (i + k)) (ys ! (j + k * incr)) = None)))"
  using assms
proof (induction n arbitrary: xs i j trap)
  case (Suc n)
  have i: "i < length xs" "j < length ys" using Suc.prems(1) Suc.prems(2) [of 0] by simp_all
  have j: "j + incr + k * incr < length ys" if "k < n" for k using Suc.prems(2) [of "Suc k"] that by (simp add: algebra_simps)
  have u: "map h [0..<Suc n] = h 0 # map (\<lambda>k. h (Suc k)) [0..<n]" for h :: "nat \<Rightarrow> 'a"
    by (simp add: upt_conv_Cons map_Suc_upt [symmetric] del: upt_Suc map_Suc_upt)
  have ex: "(\<exists>k < Suc n. Q k) \<longleftrightarrow> Q 0 \<or> (\<exists>k < n. Q (Suc k))" for Q by (auto simp: less_Suc_eq_0_disj)
  show ?case
  proof (cases "f (xs ! i) (ys ! j)")
    case None
    have t: "take (Suc i) xs = take i xs @ [xs ! i]" using i by (simp add: take_Suc_conv_app_nth)
    show ?thesis using None i Suc.IH [of "Suc i" xs "j + incr" True] Suc.prems(1) j
      by (cases res) (simp_all add: u ex t algebra_simps cong: option.case_cong del: upt_Suc)
  next
    case (Some x)
    let ?ys = "xs[i := x]"
    have t: "take (Suc i) ?ys = take i xs @ [x]" using i by (simp add: take_Suc_conv_app_nth)
    have d: "drop (Suc i + n) ?ys = drop (Suc (i + n)) xs" by simp
    have e: "?ys ! (Suc i + k) = xs ! (Suc i + k)" for k by simp
    show ?thesis using Some i Suc.IH [of "Suc i" ?ys "j + incr" trap] Suc.prems(1) j
      unfolding t d e by (simp add: u ex algebra_simps cong: option.case_cong del: upt_Suc)
  qed
qed simp

lemma elem_at_scalar: "kern_length v = 1 \<Longrightarrow> elem_at v k = elem_at v 0"
  by (simp add: elem_at_def)

text \<open>The offset of the right operand: it stays at the first element of a scalar.\<close>

lemma spread_step:
  assumes "kern_length v = 1 \<or> kern_length v = n" and "k < n"
  shows "k * (if kern_length v = 1 then 0 else 1) < kern_length v"
    and "spread v (kern_length v) ! (k * (if kern_length v = 1 then 0 else 1)) = elem_at v k"
  using assms elem_at_scalar [of v k] by auto

lemma ivalue_update:
  "v\<lparr>kern := k\<rparr> = \<lparr>kern = k, attributes = attributes v\<rparr>" "v\<lparr>kern := k, attributes := A\<rparr> = \<lparr>kern = k, attributes = A\<rparr>"
  by (cases v; simp)+

lemma arith_op_ok:
  fixes conv :: "elem \<Rightarrow> 'x" and f :: "'x \<Rightarrow> 'x \<Rightarrow> 'x option"
  assumes "\<exists>c. coerce lhs n = Return (c, Some (map conv (spread (kern lhs) n)))"
    and "\<exists>c. coerce rhs (Length rhs) = Return (c, Some (map conv (spread (kern rhs) (Length rhs))))"
    and "Length rhs = 1 \<or> Length rhs = n"
  defines "g \<equiv> \<lambda>k. f (conv (elem_at (kern lhs) k)) (conv (elem_at (kern rhs) k))"
  shows "\<exists>A. arith_op_compute coerce mk (\<lambda>l r n incr. compute_loop res f n l r 0 0 incr False) lhs rhs n =
    (if (\<exists>k < n. g k = None) \<and> \<not> res then Stop SigFpe
     else Return (\<lparr>kern = Array (mk (map (\<lambda>k. case g k of Some x \<Rightarrow> x | None \<Rightarrow> conv (elem_at (kern lhs) k)) [0..<n])), attributes = A\<rparr>,
       \<exists>k < n. g k = None))"
proof -
  obtain c c' where c: "coerce lhs n = Return (c, Some (map conv (spread (kern lhs) n)))"
    "coerce rhs (Length rhs) = Return (c', Some (map conv (spread (kern rhs) (Length rhs))))" using assms(1,2) by blast
  let ?i = "if Length rhs = 1 then 0 else 1 :: nat" and ?xs = "map conv (spread (kern lhs) n)" and ?ys = "map conv (spread (kern rhs) (Length rhs))"
  have s: "k * ?i < Length rhs" "?ys ! (k * ?i) = conv (elem_at (kern rhs) k)" "?xs ! k = conv (elem_at (kern lhs) k)" if "k < n" for k
    using spread_step [OF assms(3) that] that by simp_all
  have g: "f (?xs ! k) (?ys ! (k * ?i)) = g k" if "k < n" for k using s [OF that] by (simp only: g_def)
  have "map (\<lambda>k. case f (?xs ! k) (?ys ! (k * ?i)) of Some x \<Rightarrow> x | None \<Rightarrow> ?xs ! k) [0..<n]
      = map (\<lambda>k. case g k of Some x \<Rightarrow> x | None \<Rightarrow> conv (elem_at (kern lhs) k)) [0..<n]"
    by (rule map_cong [OF refl]) (simp only: s g_def set_upt atLeastLessThan_iff)
  moreover have "(\<exists>k < n. f (?xs ! k) (?ys ! (k * ?i)) = None) \<longleftrightarrow> (\<exists>k < n. g k = None)" using g by (metis (no_types, lifting))
  ultimately have "compute_loop res f n ?xs ?ys 0 0 ?i False = (if (\<exists>k < n. g k = None) \<and> \<not> res then Stop SigFpe
     else Return (map (\<lambda>k. case g k of Some x \<Rightarrow> x | None \<Rightarrow> conv (elem_at (kern lhs) k)) [0..<n], \<exists>k < n. g k = None))"
    using compute_loop_ok [of 0 n ?xs 0 ?i ?ys res f False] s(1)
    by (simp only: add_0 length_map length_spread take_0 drop_all append_Nil append_Nil2 order_refl simp_thms)
  then show ?thesis
    by (intro exI [of _ "if c \<and> attributes lhs = None then attributes rhs else attributes lhs"])
      (simp add: arith_op_compute_def c ivalue_update del: One_nat_def)
qed
section \<open>Arithmetic, element by element\<close>

text \<open>The operator on two elements promoted to a type; nothing where the division traps.\<close>

fun arith_elem :: "platform \<Rightarrow> binop \<Rightarrow> glish_type \<Rightarrow> elem \<Rightarrow> elem \<Rightarrow> elem option" where
  "arith_elem P op TYPE_BYTE x y = map_option ByteE (byte_op op (to_byte P x) (to_byte P y))"
| "arith_elem P op TYPE_SHORT x y = map_option ShortE (short_op op (to_short P x) (to_short P y))"
| "arith_elem P op TYPE_INT x y = map_option IntE (int32_op op (to_int P x) (to_int P y))"
| "arith_elem P op TYPE_FLOAT x y = Some (FloatE (fp_op float_format op (to_fp float_format x) (to_fp float_format y)))"
| "arith_elem P op TYPE_DOUBLE x y = Some (DoubleE (let a = to_fp double_format x; b = to_fp double_format y
     in if op = OP_POWER then c_pow P a b else fp_op double_format op a b))"
| "arith_elem P op TYPE_COMPLEX x y = Some (ComplexE (cpx_op P float_format op (to_cpx float_format x) (to_cpx float_format y)))"
| "arith_elem P op TYPE_DCOMPLEX x y = Some (DcomplexE (let a = to_cpx double_format x; b = to_cpx double_format y
     in if op = OP_POWER then cpx_pow P a b else cpx_op P double_format op a b))"
| "arith_elem P op _ x y = None"

definition arithmetic :: "binop \<Rightarrow> bool" where
  "arithmetic op \<longleftrightarrow> op \<in> {OP_ADD, OP_SUBTRACT, OP_MULTIPLY, OP_DIVIDE, OP_MODULO, OP_POWER}"

text \<open>What is used of the mathematical library: its functions return numbers of the type double.\<close>

definition platform_ok :: "platform \<Rightarrow> bool" where
  "platform_ok P \<longleftrightarrow> (\<forall>x y. fp_ok double_format (c_pow P x y)) \<and> (\<forall>x. fp_ok double_format (c_log P x)) \<and> (\<forall>x y. fp_ok double_format (c_atan2 P x y))"

text \<open>The length of the result, for operands whose lengths go together.\<close>

definition lengths_fit :: "'a ivalue \<Rightarrow> 'a ivalue \<Rightarrow> bool" where
  "lengths_fit l r \<longleftrightarrow> Length l = Length r \<or> Length l = 1 \<or> Length r = 1"

definition common_length :: "'a ivalue \<Rightarrow> 'a ivalue \<Rightarrow> nat" where
  "common_length l r = (if Length l = 1 then Length r else Length l)"

lemma BinOp_Compute_eq:
  "BinOp_Compute l r = (if lengths_fit l r then Inr (common_length l r) else Inl (DifferentLengths (Length l) (Length r)))"
  by (auto simp: BinOp_Compute_def lengths_fit_def common_length_def Let_def)

lemma common_length_fits:
  "lengths_fit l r \<Longrightarrow> Length l = 1 \<or> Length l = common_length l r" "lengths_fit l r \<Longrightarrow> Length r = 1 \<or> Length r = common_length l r"
  by (auto simp: lengths_fit_def common_length_def)

lemma to_fp_ok: "format_ok F \<Longrightarrow> fp_ok F (to_fp F e)"
  by (cases e) (simp_all add: fp_arith_ok)

lemma to_cpx_ok: "format_ok F \<Longrightarrow> fp_ok F (fst (to_cpx F e)) \<and> fp_ok F (snd (to_cpx F e))"
  by (cases e) (simp_all add: fp_arith_ok)

lemma fp_op_ok: "format_ok F \<Longrightarrow> fp_ok F x \<Longrightarrow> fp_ok F y \<Longrightarrow> fp_ok F (fp_op F op x y)"
  by (cases op) (simp_all add: fp_arith_ok)

lemma cpx_op_ok:
  assumes "format_ok F" and "fp_ok F (fst x) \<and> fp_ok F (snd x)" and "fp_ok F (fst y) \<and> fp_ok F (snd y)"
  shows "fp_ok F (fst (cpx_op P F op x y)) \<and> fp_ok F (snd (cpx_op P F op x y))"
  using assms by (cases op) (simp_all add: fp_arith_ok cpx_mul_def cpx_div_def Let_def)

lemma cpx_pow_ok: "fp_ok double_format (fst (cpx_pow P x y)) \<and> fp_ok double_format (snd (cpx_pow P x y))"
  by (simp add: cpx_pow_def cpx_exp_def Let_def fp_arith_ok)

text \<open>From the elements the loop leaves to the value that holds them.\<close>

lemma arith_result:
  fixes g :: "nat \<Rightarrow> 'x option"
  assumes m: "\<exists>A. m = (if (\<exists>k < n. g k = None) \<and> \<not> res then Stop SigFpe
      else Return (\<lparr>kern = Array (mk (map (\<lambda>k. case g k of Some x \<Rightarrow> x | None \<Rightarrow> h k) [0..<n])), attributes = A\<rparr>, \<exists>k < n. g k = None))"
    and mk: "\<And>xs. vec_length (mk xs) = length xs" "\<And>xs. vec_type (mk xs) = T" "\<And>xs k. k < length xs \<Longrightarrow> vec_elem (mk xs) k = Some (E (xs ! k))"
    and ok: "\<And>xs. (\<And>x. x \<in> set xs \<Longrightarrow> ok x) \<Longrightarrow> vec_ok (mk xs)" "\<And>k x. g k = Some x \<Longrightarrow> ok x"
    and G: "\<And>k. G k = map_option E (g k)"
  shows "\<exists>v. then_do m (\<lambda>(v, trap). Return (Value v, trap)) =
      (if \<exists>k < n. G k = None then if res then Return (Value v, True) else Stop SigFpe else Return (Value v, False))
    \<and> ((\<forall>k < n. G k \<noteq> None) \<longrightarrow> Type v = T \<and> Length v = n \<and> kern_ok (kern v) \<and> (\<forall>k < n. G k = Some (elem_at (kern v) k)))"
proof -
  obtain A where m: "m = (if (\<exists>k < n. g k = None) \<and> \<not> res then Stop SigFpe
      else Return (\<lparr>kern = Array (mk (map (\<lambda>k. case g k of Some x \<Rightarrow> x | None \<Rightarrow> h k) [0..<n])), attributes = A\<rparr>, \<exists>k < n. g k = None))"
    using m by blast
  let ?xs = "map (\<lambda>k. case g k of Some x \<Rightarrow> x | None \<Rightarrow> h k) [0..<n]"
  let ?v = "\<lparr>kern = Array (mk ?xs), attributes = A\<rparr>"
  have *: "vec_ok (mk ?xs) \<and> (\<forall>k < n. G k = Some (elem_at (Array (mk ?xs)) k))" if "\<forall>k < n. G k \<noteq> None"
  proof
    have s: "g k = Some (?xs ! k)" if "k < n" for k using \<open>\<forall>k < n. G k \<noteq> None\<close> that by (auto simp: G)
    then show "vec_ok (mk ?xs)" by (intro ok(1)) (metis (no_types, lifting) ok(2) in_set_conv_nth length_map length_upt diff_zero)
    show "\<forall>k < n. G k = Some (elem_at (Array (mk ?xs)) k)"
      using s by (auto simp: G elem_at_def mk(1,3) Let_def)
  qed
  have e: "(\<exists>k < n. G k = None) \<longleftrightarrow> (\<exists>k < n. g k = None)" by (simp add: G)
  show ?thesis using * by (intro exI [of _ ?v]) (auto simp: m e mk(1,2))
qed
lemma operands_type_cases:
  assumes "arithmetic op" and "numeric_type t1" and "numeric_type t2 \<or> t2 = TYPE_SUBVEC_REF"
  shows "OperandsType op t1 t2 \<in> {TYPE_BYTE, TYPE_SHORT, TYPE_INT, TYPE_FLOAT, TYPE_DOUBLE, TYPE_COMPLEX, TYPE_DCOMPLEX}"
    and "op = OP_POWER \<Longrightarrow> OperandsType op t1 t2 \<in> {TYPE_DOUBLE, TYPE_DCOMPLEX}"
    and "op = OP_MODULO \<Longrightarrow> OperandsType op t1 t2 = TYPE_INT"
proof -
  show "OperandsType op t1 t2 \<in> {TYPE_BYTE, TYPE_SHORT, TYPE_INT, TYPE_FLOAT, TYPE_DOUBLE, TYPE_COMPLEX, TYPE_DCOMPLEX}"
    using assms by (cases op; cases t1; auto simp: arithmetic_def BinOp_OperandsType_def numeric_type_def)
  show "op = OP_POWER \<Longrightarrow> OperandsType op t1 t2 \<in> {TYPE_DOUBLE, TYPE_DCOMPLEX}" by simp
  show "op = OP_MODULO \<Longrightarrow> OperandsType op t1 t2 = TYPE_INT" by simp
qed

lemma Compute_loops:
  "op \<noteq> OP_POWER \<Longrightarrow> Compute_byte P op = (\<lambda>l r n incr. compute_loop (trap_resumes P) (byte_op op) n l r 0 0 incr False)"
  "op \<noteq> OP_POWER \<Longrightarrow> Compute_short P op = (\<lambda>l r n incr. compute_loop (trap_resumes P) (short_op op) n l r 0 0 incr False)"
  "op \<noteq> OP_POWER \<Longrightarrow> Compute_int P op = (\<lambda>l r n incr. compute_loop (trap_resumes P) (int32_op op) n l r 0 0 incr False)"
  "op \<noteq> OP_POWER \<Longrightarrow> op \<noteq> OP_MODULO \<Longrightarrow> Compute_float P op = (\<lambda>l r n incr. compute_loop (trap_resumes P) (\<lambda>x y. Some (fp_op float_format op x y)) n l r 0 0 incr False)"
  "op \<noteq> OP_MODULO \<Longrightarrow> Compute_double P op =
    (\<lambda>l r n incr. compute_loop (trap_resumes P) (\<lambda>x y. Some (if op = OP_POWER then c_pow P x y else fp_op double_format op x y)) n l r 0 0 incr False)"
  "op \<noteq> OP_POWER \<Longrightarrow> op \<noteq> OP_MODULO \<Longrightarrow> Compute_complex P op =
    (\<lambda>l r n incr. compute_loop (trap_resumes P) (\<lambda>x y. Some (cpx_op P float_format op x y)) n l r 0 0 incr False)"
  "op \<noteq> OP_MODULO \<Longrightarrow> Compute_dcomplex P op =
    (\<lambda>l r n incr. compute_loop (trap_resumes P) (\<lambda>x y. Some (if op = OP_POWER then cpx_pow P x y else cpx_op P double_format op x y)) n l r 0 0 incr False)"
  by (intro ext; simp add: Compute_byte_def Compute_short_def Compute_int_def Compute_float_def Compute_double_def Compute_complex_def Compute_dcomplex_def)+

lemma op_compute_ok:
  assumes op: "arithmetic op" "platform_ok P" and lhs: "IsNumeric lhs" "kern_ok (kern lhs)" "Type lhs \<noteq> TYPE_SUBVEC_REF"
    and rhs: "IsNumeric rhs" "kern_ok (kern rhs)" and fit: "lengths_fit lhs rhs"
  defines "n \<equiv> common_length lhs rhs" and "T \<equiv> OperandsType op (Type lhs) (Type rhs)"
  defines "G \<equiv> \<lambda>k. arith_elem P op T (elem_at (kern lhs) k) (elem_at (kern rhs) k)"
  shows "\<exists>v. ArithExpr_OpCompute P op lhs rhs n =
      (if \<exists>k < n. G k = None then if trap_resumes P then Return (Value v, True) else Stop SigFpe else Return (Value v, False))
    \<and> ((\<forall>k < n. G k \<noteq> None) \<longrightarrow> Type v = T \<and> Length v = n \<and> kern_ok (kern v) \<and> (\<forall>k < n. G k = Some (elem_at (kern v) k)))"
proof -
  have nl: "Length lhs = 1 \<or> Length lhs = n" and nr: "Length rhs = 1 \<or> Length rhs = n" using common_length_fits [OF fit] by (simp_all add: n_def)
  note cl = coercions_ok [OF lhs(1,2) nl] and cr = coercions_ok [OF rhs disjI2 [OF refl]]
  have "numeric_type (Type lhs)" "numeric_type (Type rhs) \<or> Type rhs = TYPE_SUBVEC_REF"
    using lhs(1,3) rhs(1) by (auto simp: IsNumeric_def split: kernel.splits)
  note cases = operands_type_cases [OF op(1) this, folded T_def]
  have def: "ArithExpr_OpCompute P op lhs rhs n = (case T of
       TYPE_BYTE \<Rightarrow> then_do (arith_op_compute (CoerceToByteArray P) ByteVec (Compute_byte P op) lhs rhs n) (\<lambda>(v, trap). Return (Value v, trap))
     | TYPE_SHORT \<Rightarrow> then_do (arith_op_compute (CoerceToShortArray P) ShortVec (Compute_short P op) lhs rhs n) (\<lambda>(v, trap). Return (Value v, trap))
     | TYPE_INT \<Rightarrow> then_do (arith_op_compute (CoerceToIntArray P) IntVec (Compute_int P op) lhs rhs n) (\<lambda>(v, trap). Return (Value v, trap))
     | TYPE_FLOAT \<Rightarrow> then_do (arith_op_compute CoerceToFloatArray FloatVec (Compute_float P op) lhs rhs n) (\<lambda>(v, trap). Return (Value v, trap))
     | TYPE_DOUBLE \<Rightarrow> then_do (arith_op_compute CoerceToDoubleArray DoubleVec (Compute_double P op) lhs rhs n) (\<lambda>(v, trap). Return (Value v, trap))
     | TYPE_COMPLEX \<Rightarrow> then_do (arith_op_compute CoerceToComplexArray ComplexVec (Compute_complex P op) lhs rhs n) (\<lambda>(v, trap). Return (Value v, trap))
     | _ \<Rightarrow> then_do (arith_op_compute CoerceToDcomplexArray DcomplexVec (Compute_dcomplex P op) lhs rhs n) (\<lambda>(v, trap). Return (Value v, trap)))"
    using cases(1) by (auto simp: ArithExpr_OpCompute_def T_def [symmetric] Let_def)
  have p: "fp_ok double_format (c_pow P x y)" for x y using op(2) by (simp add: platform_ok_def)
  consider "T = TYPE_BYTE" | "T = TYPE_SHORT" | "T = TYPE_INT" | "T = TYPE_FLOAT" | "T = TYPE_DOUBLE" | "T = TYPE_COMPLEX" | "T = TYPE_DCOMPLEX"
    using cases(1) by blast
  then show ?thesis
  proof cases
    case 1
    have np: "op \<noteq> OP_POWER" using cases(2) 1 by auto
    show ?thesis unfolding def 1 glish_type.case Compute_loops(1) [OF np]
      by (rule arith_result [OF arith_op_ok [OF cl(1) cr(1) nr], where E = ByteE and ok = "\<lambda>_. True"]) (auto simp: G_def 1)
  next
    case 2
    have np: "op \<noteq> OP_POWER" using cases(2) 2 by auto
    show ?thesis unfolding def 2 glish_type.case Compute_loops(2) [OF np]
      by (rule arith_result [OF arith_op_ok [OF cl(2) cr(2) nr], where E = ShortE and ok = "\<lambda>_. True"]) (auto simp: G_def 2)
  next
    case 3
    have np: "op \<noteq> OP_POWER" using cases(2) 3 by auto
    show ?thesis unfolding def 3 glish_type.case Compute_loops(3) [OF np]
      by (rule arith_result [OF arith_op_ok [OF cl(3) cr(3) nr], where E = IntE and ok = "\<lambda>_. True"]) (auto simp: G_def 3)
  next
    case 4
    have np: "op \<noteq> OP_POWER" using cases(2) 4 by auto
    have nm: "op \<noteq> OP_MODULO" using cases(3) 4 by auto
    show ?thesis unfolding def 4 glish_type.case Compute_loops(4) [OF np nm]
      by (rule arith_result [OF arith_op_ok [OF cl(4) cr(4) nr], where E = FloatE and ok = "fp_ok float_format"]) (auto simp: G_def 4 fp_op_ok to_fp_ok)
  next
    case 5
    have nm: "op \<noteq> OP_MODULO" using cases(3) 5 by auto
    show ?thesis unfolding def 5 glish_type.case Compute_loops(5) [OF nm]
      by (rule arith_result [OF arith_op_ok [OF cl(5) cr(5) nr], where E = DoubleE and ok = "fp_ok double_format"]) (auto simp: G_def 5 fp_op_ok to_fp_ok p Let_def)
  next
    case 6
    have np: "op \<noteq> OP_POWER" using cases(2) 6 by auto
    have nm: "op \<noteq> OP_MODULO" using cases(3) 6 by auto
    show ?thesis unfolding def 6 glish_type.case Compute_loops(6) [OF np nm]
      by (rule arith_result [OF arith_op_ok [OF cl(6) cr(6) nr], where E = ComplexE and ok = "\<lambda>z. fp_ok float_format (fst z) \<and> fp_ok float_format (snd z)"]) (auto simp: G_def 6 cpx_op_ok to_cpx_ok)
  next
    case 7
    have nm: "op \<noteq> OP_MODULO" using cases(3) 7 by auto
    show ?thesis unfolding def 7 glish_type.case Compute_loops(7) [OF nm]
      by (rule arith_result [OF arith_op_ok [OF cl(7) cr(7) nr], where E = DcomplexE and ok = "\<lambda>z. fp_ok double_format (fst z) \<and> fp_ok double_format (snd z)"]) (auto simp: G_def 7 cpx_op_ok to_cpx_ok cpx_pow_ok Let_def)
  qed
qed
text \<open>The whole operator, for numeric operands of fitting lengths.\<close>

lemma arith_eval:
  assumes op: "arithmetic op" "platform_ok P" and ok: "kern_ok (kern l)" "kern_ok (kern r)"
    and num: "IsNumeric l" "IsNumeric r" and fit: "lengths_fit l r"
  defines "n \<equiv> common_length l r" and "T \<equiv> OperandsType op (VecRefDeref_type (kern l)) (Type r)"
  defines "G \<equiv> \<lambda>k. arith_elem P op T (elem_at (kern l) k) (elem_at (kern r) k)"
  shows "\<exists>v. ArithExpr_Eval P op l r =
      (if \<exists>k < n. G k = None then if trap_resumes P then Return (Failed (FpeOccurred (fpe_errmsg op))) else Stop SigFpe else Return (Value v))
    \<and> ((\<forall>k < n. G k \<noteq> None) \<longrightarrow> Type v = T \<and> Length v = n \<and> kern_ok (kern v) \<and> (\<forall>k < n. G k = Some (elem_at (kern v) k)))"
proof -
  obtain k0 where c: "copy_ivalue l = Return (l\<lparr>kern := k0\<rparr>)" "kern_ok k0" "kern_type k0 = VecRefDeref_type (kern l)" "kern_length k0 = Length l"
    "kern_type k0 \<noteq> TYPE_SUBVEC_REF" "\<And>n. Length l = 1 \<or> Length l = n \<Longrightarrow> spread k0 n = spread (kern l) n" using copy_ivalue_ok [OF ok(1)] by blast
  let ?l = "l\<lparr>kern := k0\<rparr>"
  have ln: "lengths_fit ?l r" "common_length ?l r = n" using fit c(4) by (simp_all add: lengths_fit_def common_length_def n_def)
  have num': "IsNumeric ?l" using num(1) c(3,5) by (auto simp: IsNumeric_def split: kernel.splits)
  have e: "elem_at k0 k = elem_at (kern l) k" if "k < n" for k
    using c(6) [of n] common_length_fits(1) [OF fit] that nth_spread [of k n] unfolding n_def by metis
  have "Type ?l \<noteq> TYPE_SUBVEC_REF" "kern_ok (kern ?l)" using c(2,5) by simp_all
  from op_compute_ok [OF op num' this(2,1) num(2) ok(2) ln(1)]
  obtain v where v: "ArithExpr_OpCompute P op ?l r n = (if \<exists>k < n. G k = None then if trap_resumes P then Return (Value v, True) else Stop SigFpe else Return (Value v, False))"
    "(\<forall>k < n. G k \<noteq> None) \<longrightarrow> Type v = T \<and> Length v = n \<and> kern_ok (kern v) \<and> (\<forall>k < n. G k = Some (elem_at (kern v) k))"
    unfolding ln(2) by (auto simp: G_def T_def c(3) e cong: conj_cong imp_cong)
  show ?thesis using v num num' ln
    by (intro exI [of _ v]) (auto simp: ArithExpr_Eval_def c(1) BinOp_TypeCheck_def BinOp_Compute_eq)
qed

text \<open>Only the remainder can trap.\<close>

lemma arith_elem_defined:
  assumes "arithmetic op" and "op \<noteq> OP_MODULO" and "numeric_type t1" and "numeric_type t2 \<or> t2 = TYPE_SUBVEC_REF"
  shows "arith_elem P op (OperandsType op t1 t2) x y \<noteq> None"
proof -
  have d: "op = OP_DIVIDE \<Longrightarrow> OperandsType op t1 t2 \<in> {TYPE_DOUBLE, TYPE_COMPLEX, TYPE_DCOMPLEX}" by simp
  show ?thesis using operands_type_cases [OF assms(1,3,4)] d assms(1,2)
    by (cases op) (auto simp: byte_op_def short_op_def int32_op_def arithmetic_def)
qed

text \<open>
  C6: An arithmetic operator never reaches a fatal report, whatever its operands: it returns a failure exactly
  when an operand is not numeric or the lengths differ (or the remainder trapped), and otherwise a
  well-formed vector of the type the operands are promoted to, of their common length.
\<close>

theorem arith_type_sound:
  assumes "arithmetic op" and "platform_ok P" and "kern_ok (kern l)" and "kern_ok (kern r)"
  shows "case ArithExpr_Eval P op l r of
      Return (Value v) \<Rightarrow> IsNumeric l \<and> IsNumeric r \<and> lengths_fit l r \<and> kern_ok (kern v)
        \<and> Type v = OperandsType op (VecRefDeref_type (kern l)) (Type r) \<and> numeric_type (Type v) \<and> Length v = common_length l r
    | Return (Failed why) \<Rightarrow> \<not> (IsNumeric l \<and> IsNumeric r \<and> lengths_fit l r) \<or> op = OP_MODULO \<and> why = FpeOccurred ''modulo FPE occurred''
    | Stop e \<Rightarrow> op = OP_MODULO \<and> e = SigFpe \<and> \<not> trap_resumes P"
proof -
  obtain k0 where c: "copy_ivalue l = Return (l\<lparr>kern := k0\<rparr>)" "kern_type k0 = VecRefDeref_type (kern l)" "kern_length k0 = Length l"
    "kern_type k0 \<noteq> TYPE_SUBVEC_REF" using copy_ivalue_ok [OF assms(3)] by blast
  have i: "IsNumeric (l\<lparr>kern := k0\<rparr>) = IsNumeric l" using c(2,4) by (cases "kern l"; cases k0) (auto simp: IsNumeric_def)
  have f: "lengths_fit (l\<lparr>kern := k0\<rparr>) r = lengths_fit l r" by (simp add: lengths_fit_def c(3))
  consider (bad) "\<not> (IsNumeric l \<and> IsNumeric r \<and> lengths_fit l r)" | (good) "IsNumeric l" "IsNumeric r" "lengths_fit l r" by blast
  then show ?thesis
  proof cases
    case bad
    then show ?thesis by (auto simp: ArithExpr_Eval_def c(1) BinOp_TypeCheck_def BinOp_Compute_eq i f)
  next
    case good
    have t: "numeric_type (VecRefDeref_type (kern l))" "numeric_type (Type r) \<or> Type r = TYPE_SUBVEC_REF"
      using good by (auto simp: IsNumeric_def numeric_type_def split: kernel.splits)
    have n: "numeric_type (OperandsType op (VecRefDeref_type (kern l)) (Type r))"
      using operands_type_cases(1) [OF assms(1) t] unfolding numeric_type_def by auto
    let ?n = "common_length l r" and ?G = "\<lambda>k. arith_elem P op (OperandsType op (VecRefDeref_type (kern l)) (Type r)) (elem_at (kern l) k) (elem_at (kern r) k)"
    from arith_eval [OF assms good] obtain v where v: "ArithExpr_Eval P op l r = (if \<exists>k < ?n. ?G k = None
        then if trap_resumes P then Return (Failed (FpeOccurred (fpe_errmsg op))) else Stop SigFpe else Return (Value v))"
      "(\<forall>k < ?n. ?G k \<noteq> None) \<longrightarrow> Type v = OperandsType op (VecRefDeref_type (kern l)) (Type r) \<and> Length v = ?n \<and> kern_ok (kern v)"
      by metis
    show ?thesis
    proof (cases "\<exists>k < ?n. ?G k = None")
      case True
      then have "op = OP_MODULO" using arith_elem_defined [OF assms(1) _ t] by blast
      with True v(1) show ?thesis by simp
    next
      case False
      with v good n show ?thesis by simp
    qed
  qed
qed
section \<open>Comparison, element by element\<close>

lemma rel_loop_ok:
  assumes "i + n \<le> length xs" and "\<And>k. k < n \<Longrightarrow> j + k * incr < length ys"
  shows "rel_loop f n xs ys i j incr = Return (map (\<lambda>k. f (xs ! (i + k)) (ys ! (j + k * incr))) [0..<n])"
  using assms
proof (induction n arbitrary: i j)
  case (Suc n)
  have j: "j + incr + k * incr < length ys" if "k < n" for k using Suc.prems(2) [of "Suc k"] that by (simp add: algebra_simps)
  have "map h [0..<Suc n] = h 0 # map (\<lambda>k. h (Suc k)) [0..<n]" for h :: "nat \<Rightarrow> bool"
    by (simp add: upt_conv_Cons map_Suc_upt [symmetric] del: upt_Suc map_Suc_upt)
  with Suc.IH [of "Suc i" "j + incr"] Suc.prems(1) Suc.prems(2) [of 0] j show ?case by (simp add: algebra_simps del: upt_Suc)
qed simp

text \<open>The comparison of two coerced operands, whose elements at position \<open>k\<close> are \<open>x k\<close> and \<open>y k\<close>.\<close>

lemma rel_op_ok:
  assumes "\<exists>c. coerce lhs n = Return (c, Some (map x [0..<n]))" and "\<exists>c. coerce rhs (Length rhs) = Return (c, Some (map y [0..<Length rhs]))"
    and "Length rhs = 1 \<or> Length rhs = n" and "Length rhs = 1 \<Longrightarrow> \<forall>k. y k = y 0"
  shows "\<exists>A. rel_op_compute coerce (rel_compute False f) lhs rhs n = Return (Value \<lparr>kern = Array (BoolVec (map (\<lambda>k. f (x k) (y k)) [0..<n])), attributes = A\<rparr>)"
proof -
  obtain c c' where c: "coerce lhs n = Return (c, Some (map x [0..<n]))" "coerce rhs (Length rhs) = Return (c', Some (map y [0..<Length rhs]))" using assms(1,2) by blast
  let ?i = "if Length rhs = 1 then 0 else 1 :: nat"
  have s: "k * ?i < Length rhs" if "k < n" for k using assms(3) that by auto
  moreover have "y (k * ?i) = y k" if "k < n" for k using assms(4) by (cases "Length rhs = 1") (metis, simp)
  ultimately have s: "k * ?i < Length rhs" "map y [0..<Length rhs] ! (k * ?i) = y k" if "k < n" for k using that by simp_all
  have "map (\<lambda>k. f (map x [0..<n] ! (0 + k)) (map y [0..<Length rhs] ! (0 + k * ?i))) [0..<n] = map (\<lambda>k. f (x k) (y k)) [0..<n]"
    by (rule map_cong [OF refl]) (simp only: s(2) add_0 set_upt atLeastLessThan_iff nth_map_upt minus_nat.diff_0)
  with rel_loop_ok [of 0 n "map x [0..<n]" 0 ?i "map y [0..<Length rhs]" f] s(1)
  have "rel_loop f n (map x [0..<n]) (map y [0..<Length rhs]) 0 0 ?i = Return (map (\<lambda>k. f (x k) (y k)) [0..<n])"
    by (simp del: One_nat_def)
  then show ?thesis by (simp add: rel_op_compute_def c rel_compute_def del: One_nat_def)
qed

text \<open>The comparison of two elements promoted to a type.\<close>

fun rel_elem :: "platform \<Rightarrow> binop \<Rightarrow> glish_type \<Rightarrow> elem \<Rightarrow> elem \<Rightarrow> bool" where
  "rel_elem P op TYPE_BOOL x y = bool_rel op (to_bool x) (to_bool y)"
| "rel_elem P op TYPE_BYTE x y = int_rel op (uint (to_byte P x)) (uint (to_byte P y))"
| "rel_elem P op TYPE_SHORT x y = int_rel op (sint (to_short P x)) (sint (to_short P y))"
| "rel_elem P op TYPE_INT x y = int_rel op (sint (to_int P x)) (sint (to_int P y))"
| "rel_elem P op TYPE_FLOAT x y = fp_rel op (to_fp float_format x) (to_fp float_format y)"
| "rel_elem P op TYPE_DOUBLE x y = fp_rel op (to_fp double_format x) (to_fp double_format y)"
| "rel_elem P op TYPE_COMPLEX x y = cpx_rel op (to_cpx float_format x) (to_cpx float_format y)"
| "rel_elem P op TYPE_DCOMPLEX x y = cpx_rel op (to_cpx double_format x) (to_cpx double_format y)"
| "rel_elem P op _ x y = False"

definition rel_type :: "binop \<Rightarrow> glish_type \<Rightarrow> glish_type \<Rightarrow> glish_type" where
  "rel_type op t1 t2 = (if logical op then TYPE_BOOL else RelExpr_OperandsType op t1 t2)"

definition relational :: "binop \<Rightarrow> bool" where
  "relational op \<longleftrightarrow> \<not> arithmetic op"

lemma rel_op_compute_ok:
  assumes num: "IsNumeric l" "IsNumeric r" and ok: "kern_ok (kern l)" "kern_ok (kern r)" and fit: "lengths_fit l r"
    and b: "logical op \<Longrightarrow> Type l = TYPE_BOOL \<and> Type r = TYPE_BOOL" and s: "Type l \<noteq> TYPE_SUBVEC_REF \<or> Type r \<noteq> TYPE_SUBVEC_REF"
  shows "\<exists>A. RelExpr_OpCompute P op same l r (common_length l r) = Return (Value \<lparr>kern = Array (BoolVec
    (map (\<lambda>k. rel_elem P op (rel_type op (Type l) (Type r)) (elem_at (kern l) k) (elem_at (kern r) k)) [0..<common_length l r])), attributes = A\<rparr>)"
proof -
  let ?n = "common_length l r" and ?T = "rel_type op (Type l) (Type r)"
  note cl = coercions_ok [OF num(1) ok(1) common_length_fits(1) [OF fit], unfolded spread_def map_map comp_def]
    and cr = coercions_ok [OF num(2) ok(2) disjI2 [OF refl], unfolded spread_def map_map comp_def]
  note nr = common_length_fits(2) [OF fit]
  have e: "\<forall>k. elem_at (kern r) k = elem_at (kern r) 0" if "Length r = 1" using elem_at_scalar [OF that] by metis
  have t: "numeric_type (Type l) \<or> Type l = TYPE_SUBVEC_REF" "numeric_type (Type r) \<or> Type r = TYPE_SUBVEC_REF"
    using num by (auto simp: IsNumeric_def split: kernel.splits)
  have T: "?T \<in> (if logical op then {TYPE_BOOL} else {TYPE_BYTE, TYPE_SHORT, TYPE_INT, TYPE_FLOAT, TYPE_DOUBLE, TYPE_COMPLEX, TYPE_DCOMPLEX})"
    using t s by (cases "Type l"; cases "Type r") (auto simp: rel_type_def RelExpr_OperandsType_def BinOp_OperandsType_def numeric_type_def)
  have def: "RelExpr_OpCompute P op same l r ?n = (case ?T of
       TYPE_BOOL \<Rightarrow> rel_op_compute CoerceToBoolArray (rel_compute False (bool_rel op)) l r ?n
     | TYPE_BYTE \<Rightarrow> rel_op_compute (CoerceToByteArray P) (rel_compute False (\<lambda>x y. int_rel op (uint x) (uint y))) l r ?n
     | TYPE_SHORT \<Rightarrow> rel_op_compute (CoerceToShortArray P) (rel_compute False (\<lambda>x y. int_rel op (sint x) (sint y))) l r ?n
     | TYPE_INT \<Rightarrow> rel_op_compute (CoerceToIntArray P) (rel_compute False (\<lambda>x y. int_rel op (sint x) (sint y))) l r ?n
     | TYPE_FLOAT \<Rightarrow> rel_op_compute CoerceToFloatArray (rel_compute False (fp_rel op)) l r ?n
     | TYPE_DOUBLE \<Rightarrow> rel_op_compute CoerceToDoubleArray (rel_compute False (fp_rel op)) l r ?n
     | TYPE_COMPLEX \<Rightarrow> rel_op_compute CoerceToComplexArray (rel_compute False (cpx_rel op)) l r ?n
     | _ \<Rightarrow> rel_op_compute CoerceToDcomplexArray (rel_compute False (cpx_rel op)) l r ?n)"
    using T by (auto simp: RelExpr_OpCompute_def rel_type_def LogExpr_OperandsType_def split: if_splits)
  have e': "\<forall>k. h (elem_at (kern r) k) = h (elem_at (kern r) 0)" if "Length r = 1" for h :: "elem \<Rightarrow> 'h" using e [OF that] by metis
  consider "?T = TYPE_BOOL" "logical op" | "?T = TYPE_BYTE" | "?T = TYPE_SHORT" | "?T = TYPE_INT" | "?T = TYPE_FLOAT" | "?T = TYPE_DOUBLE"
    | "?T = TYPE_COMPLEX" | "?T = TYPE_DCOMPLEX" using T by (auto split: if_splits)
  then show ?thesis
  proof cases
    case 1
    have "\<exists>c. CoerceToBoolArray l ?n = Return (c, Some (map (\<lambda>k. to_bool (elem_at (kern l) k)) [0..<?n]))"
      "\<exists>c. CoerceToBoolArray r (Length r) = Return (c, Some (map (\<lambda>k. to_bool (elem_at (kern r) k)) [0..<Length r]))"
      using cl(8) cr(8) b [OF 1(2)] by blast+
    from rel_op_ok [OF this nr e', where f = "bool_rel op"] show ?thesis unfolding def 1(1) glish_type.case by (simp only: rel_elem.simps)
  next
    case 2
    show ?thesis unfolding def 2 glish_type.case rel_elem.simps
      by (rule rel_op_ok [OF cl(1) [of P] cr(1) [of P] nr e', where f = "\<lambda>x y. int_rel op (uint x) (uint y)"])
  next
    case 3
    show ?thesis unfolding def 3 glish_type.case rel_elem.simps
      by (rule rel_op_ok [OF cl(2) [of P] cr(2) [of P] nr e', where f = "\<lambda>x y. int_rel op (sint x) (sint y)"])
  next
    case 4
    show ?thesis unfolding def 4 glish_type.case rel_elem.simps
      by (rule rel_op_ok [OF cl(3) [of P] cr(3) [of P] nr e', where f = "\<lambda>x y. int_rel op (sint x) (sint y)"])
  next
    case 5
    show ?thesis unfolding def 5 glish_type.case rel_elem.simps
      by (rule rel_op_ok [OF cl(4) cr(4) nr e', where f = "fp_rel op"])
  next
    case 6
    show ?thesis unfolding def 6 glish_type.case rel_elem.simps
      by (rule rel_op_ok [OF cl(5) cr(5) nr e', where f = "fp_rel op"])
  next
    case 7
    show ?thesis unfolding def 7 glish_type.case rel_elem.simps
      by (rule rel_op_ok [OF cl(6) cr(6) nr e', where f = "cpx_rel op"])
  next
    case 8
    show ?thesis unfolding def 8 glish_type.case rel_elem.simps
      by (rule rel_op_ok [OF cl(7) cr(7) nr e', where f = "cpx_rel op"])
  qed
qed
section \<open>Comparison of other values\<close>

text \<open>The string that is compared at position \<open>k\<close>: every value that holds no strings counts as empty strings.\<close>

definition string_at :: "kernel \<Rightarrow> nat \<Rightarrow> string" where
  "string_at v k = (let k = (if kern_length v = 1 then 0 else k) in
     case v of Array (StringVec xs) \<Rightarrow> xs ! k | SubVec (StringVec xs) ix \<Rightarrow> xs ! nat (ix ! k - 1) | _ \<Rightarrow> [])"

lemma copy_strings_reads:
  assumes "\<And>i. i < n \<Longrightarrow> get (j + i * incr) = Return (Some (e i))"
  shows "copy_strings_loop get n j incr = Return (Some (map e [0..<n]))"
  using assms
proof (induction n arbitrary: j e)
  case (Suc n)
  have "get (j + incr + i * incr) = Return (Some (e (Suc i)))" if "i < n" for i
    using Suc.prems [of "Suc i"] that by (simp add: algebra_simps)
  from Suc.IH [of "j + incr" "\<lambda>i. e (Suc i)", OF this] Suc.prems [of 0] show ?case
    by (simp add: upt_conv_Cons map_Suc_upt [symmetric] comp_def del: upt_Suc map_Suc_upt)
qed simp

lemma string_coercion_ok:
  assumes "kern_ok (kern v)" and "Length v = 1 \<or> Length v = n"
  shows "\<exists>c. CoerceToStringArray v n = Return (c, Some (map (string_at (kern v)) [0..<n]))"
proof -
  let ?i = "if Length v = 1 then 0 else 1 :: nat"
  consider (arr) xs where "kern v = Array (StringVec xs)" | (sub) xs ix where "kern v = SubVec (StringVec xs) ix"
    | (other) "\<And>xs. kern v \<noteq> Array (StringVec xs)" "\<And>xs ix. kern v \<noteq> SubVec (StringVec xs) ix" by blast
  then show ?thesis
  proof cases
    case arr
    have "string_get xs (0 + i * ?i) = Return (Some (string_at (kern v) i))" if "i < n" for i
      using that assms(2) arr by (auto simp: string_get_def string_at_def)
    from copy_strings_reads [of n "string_get xs" 0 ?i "string_at (kern v)", OF this]
    have "copy_strings_loop (string_get xs) n 0 ?i = Return (Some (map (string_at (kern v)) [0..<n]))" .
    moreover have "xs = map (string_at (kern v)) [0..<n]" if "length xs = n"
      using that arr by (intro nth_equalityI) (auto simp: string_at_def)
    ultimately show ?thesis using arr by (auto simp: CoerceToStringArray_def)
  next
    case sub
    then have ok: "indices_ok (StringVec xs) ix" using assms(1) by simp
    have "substring_get (StringVec xs) ix xs (0 + i * ?i) = Return (Some (string_at (kern v) i))" if "i < n" for i
    proof -
      let ?k = "if length ix = 1 then 0 else i"
      have k: "?k < length ix" using that assms(2) sub by auto
      have "1 \<le> ix ! ?k" "ix ! ?k \<le> int (length xs)" using ok nth_mem [OF k] by (auto simp: indices_ok_def)
      then show ?thesis using k sub
        by (cases "length ix = 1") (auto simp: substring_get_def TranslateIndex_def string_get_def string_at_def)
    qed
    from copy_strings_reads [of n "substring_get (StringVec xs) ix xs" 0 ?i "string_at (kern v)", OF this]
    have "copy_strings_loop (substring_get (StringVec xs) ix xs) n 0 ?i = Return (Some (map (string_at (kern v)) [0..<n]))" .
    then show ?thesis using sub by (auto simp: CoerceToStringArray_def)
  next
    case other
    have e: "string_at (kern v) k = []" for k using other by (auto simp: string_at_def Let_def split: kernel.split vec.split)
    have "CoerceToStringArray v n = Return (True, Some (replicate n []))"
      using other by (auto simp: CoerceToStringArray_def Let_def split: kernel.split vec.split)
    moreover have "replicate n [] = map (string_at (kern v)) [0..<n]" by (intro nth_equalityI) (simp_all add: e)
    ultimately show ?thesis by (intro exI [of _ True]) simp
  qed
qed

lemma string_rel_ok:
  assumes ok: "kern_ok (kern l)" "kern_ok (kern r)" and fit: "lengths_fit l r" and t: "\<not> logical op" "RelExpr_OperandsType op (Type l) (Type r) = TYPE_STRING"
  shows "\<exists>A. RelExpr_OpCompute P op same l r (common_length l r) = Return (Value \<lparr>kern = Array (BoolVec
    (map (\<lambda>k. int_rel op (strcmp (string_at (kern l) k) (string_at (kern r) k)) 0) [0..<common_length l r])), attributes = A\<rparr>)"
proof -
  have "\<forall>k. string_at (kern r) k = string_at (kern r) 0" if "Length r = 1" using that by (simp add: string_at_def)
  from rel_op_ok [OF string_coercion_ok [OF ok(1) common_length_fits(1) [OF fit]] string_coercion_ok [OF ok(2) disjI2 [OF refl]] common_length_fits(2) [OF fit] this,
      where f = "\<lambda>x y. int_rel op (strcmp x y) 0"]
  show ?thesis using t by (simp add: RelExpr_OpCompute_def)
qed

text \<open>
  The operands on which a comparison ends the interpreter: two references to parts of numeric vectors, and
  regular expressions, files and references to parts of string vectors on the left of an equality.
\<close>

definition rel_fatal :: "binop \<Rightarrow> 'a ivalue \<Rightarrow> 'a ivalue \<Rightarrow> bool" where
  "rel_fatal op l r \<longleftrightarrow> \<not> logical op \<and>
     (if IsNumeric l \<or> IsNumeric r then IsNumeric l \<and> IsNumeric r \<and> lengths_fit l r \<and> Type l = TYPE_SUBVEC_REF \<and> Type r = TYPE_SUBVEC_REF
      else (op = OP_EQ \<or> op = OP_NE) \<and> Type l \<in> {TYPE_REGEX, TYPE_FILE, TYPE_SUBVEC_REF} \<and> Type r \<notin> {TYPE_STRING, TYPE_FAIL})"

lemma non_numeric_type:
  assumes "\<not> IsNumeric v"
  shows "Type v \<in> {TYPE_SUBVEC_REF, TYPE_STRING, TYPE_AGENT, TYPE_FUNC, TYPE_REGEX, TYPE_FILE, TYPE_RECORD, TYPE_FAIL}"
proof (cases "kern v")
  case (Array a)
  with assms show ?thesis by (cases a) (simp_all add: IsNumeric_def numeric_type_def)
qed simp_all

lemma string_operand:
  assumes "\<not> IsNumeric l" and "\<not> IsNumeric r" and "Type l = TYPE_STRING \<or> Type r = TYPE_STRING" and "\<not> logical op"
  shows "RelExpr_OperandsType op (Type l) (Type r) = (if Type l = TYPE_FAIL \<or> Type r = TYPE_FAIL then TYPE_FAIL else TYPE_STRING)"
  using non_numeric_type [OF assms(1)] non_numeric_type [OF assms(2)] assms(3,4)
  by (elim insertE emptyE) (simp_all add: RelExpr_OperandsType_def BinOp_OperandsType_def)

lemma object_operands:
  assumes "\<not> IsNumeric l" and "\<not> IsNumeric r" and "Type l \<noteq> TYPE_STRING" and "Type r \<noteq> TYPE_STRING" and "\<not> logical op"
  shows "RelExpr_OperandsType op (Type l) (Type r) = (if Type l = TYPE_FAIL \<or> Type r = TYPE_FAIL then TYPE_FAIL else Type l)"
  using non_numeric_type [OF assms(1)] non_numeric_type [OF assms(2)] assms(3-)
  by (elim insertE emptyE) (simp_all add: RelExpr_OperandsType_def BinOp_OperandsType_def)

text \<open>What a comparison may give, shown for numeric operands, for strings and for values compared as objects.\<close>

definition rel_sound :: "binop \<Rightarrow> 'a ivalue \<Rightarrow> 'a ivalue \<Rightarrow> 'a result run \<Rightarrow> bool" where
  "rel_sound op l r out \<longleftrightarrow> (case out of
      Return (Value v) \<Rightarrow> \<not> rel_fatal op l r \<and> Type v = TYPE_BOOL
        \<and> Length v = (if IsNumeric l \<or> Type l = TYPE_STRING \<or> Type r = TYPE_STRING then common_length l r else 1)
    | Return (Failed why) \<Rightarrow> \<not> rel_fatal op l r
    | Stop e \<Rightarrow> rel_fatal op l r \<and> (\<exists>m. e = GlishFatal m))"

lemma rel_sound_numeric:
  assumes num: "IsNumeric l" "IsNumeric r" and ok: "kern_ok (kern l)" "kern_ok (kern r)"
  shows "rel_sound op l r (RelExpr_Eval P op same l r)"
proof -
  have t: "numeric_type (Type l) \<or> Type l = TYPE_SUBVEC_REF" "numeric_type (Type r) \<or> Type r = TYPE_SUBVEC_REF"
    using num by (auto simp: IsNumeric_def split: kernel.splits)
  then have st: "Type l \<noteq> TYPE_STRING" "Type r \<noteq> TYPE_STRING" "Type l \<noteq> TYPE_FAIL" "Type r \<noteq> TYPE_FAIL" by (auto simp: numeric_type_def)
  note defs = RelExpr_Eval_def LogExpr_TypeCheck_def RelExpr_TypeCheck_def BinOp_TypeCheck_def BinOp_Compute_eq
  show ?thesis
  proof (cases "lengths_fit l r \<and> (logical op \<longrightarrow> Type l = TYPE_BOOL \<and> Type r = TYPE_BOOL)")
    case False
    then show ?thesis using num st by (auto simp: defs rel_fatal_def rel_sound_def)
  next
    case fit: True
    have e: "RelExpr_Eval P op same l r = RelExpr_OpCompute P op same l r (common_length l r)" using num st fit by (auto simp: defs)
    show ?thesis
    proof (cases "Type l = TYPE_SUBVEC_REF \<and> Type r = TYPE_SUBVEC_REF")
      case True
      then show ?thesis using num fit
        by (auto simp: e RelExpr_OpCompute_def RelExpr_OperandsType_def BinOp_OperandsType_def rel_fatal_def rel_sound_def)
    next
      case False
      with rel_op_compute_ok [of l r op P same] num fit ok
      obtain A bs where "RelExpr_OpCompute P op same l r (common_length l r) = Return (Value \<lparr>kern = Array (BoolVec bs), attributes = A\<rparr>)"
        "length bs = common_length l r" by (metis (no_types, lifting) length_map length_upt diff_zero)
      with False num show ?thesis by (auto simp: e rel_fatal_def rel_sound_def)
    qed
  qed
qed

lemma rel_sound_strings:
  assumes log: "\<not> logical op" and num: "\<not> IsNumeric l" "\<not> IsNumeric r" and str: "Type l = TYPE_STRING \<or> Type r = TYPE_STRING"
    and ok: "kern_ok (kern l)" "kern_ok (kern r)"
  shows "rel_sound op l r (RelExpr_Eval P op same l r)"
proof (cases "((Type l = TYPE_STRING \<and> Type r = TYPE_STRING) \<or> op = OP_EQ \<or> op = OP_NE) \<and> lengths_fit l r")
  case fit: True
  note T = string_operand [OF num str log]
  have e: "RelExpr_Eval P op same l r = RelExpr_OpCompute P op same l r (common_length l r)"
    using log num str fit by (auto simp: RelExpr_Eval_def RelExpr_TypeCheck_def BinOp_Compute_eq)
  show ?thesis
  proof (cases "Type l = TYPE_FAIL \<or> Type r = TYPE_FAIL")
    case True
    then show ?thesis using log num str T by (auto simp: e RelExpr_OpCompute_def rel_fatal_def rel_sound_def)
  next
    case False
    then show ?thesis using string_rel_ok [OF ok _ log, of P same] fit num str T by (auto simp: e rel_fatal_def rel_sound_def)
  qed
qed (use log num str in \<open>auto simp: RelExpr_Eval_def RelExpr_TypeCheck_def BinOp_Compute_eq rel_fatal_def rel_sound_def\<close>)

lemma rel_sound_objects:
  assumes log: "\<not> logical op" and num: "\<not> IsNumeric l" "\<not> IsNumeric r" and obj: "Type l \<noteq> TYPE_STRING" "Type r \<noteq> TYPE_STRING"
  shows "rel_sound op l r (RelExpr_Eval P op same l r)"
proof (cases "op = OP_EQ \<or> op = OP_NE")
  case True
  have e: "RelExpr_Eval P op same l r = RelExpr_OpCompute P op same l r (Length l)"
    using log num obj True by (auto simp: RelExpr_Eval_def RelExpr_TypeCheck_def)
  show ?thesis using non_numeric_type [OF num(1)] log num obj True unfolding e
    by (auto simp: RelExpr_OpCompute_def object_operands [OF num obj log] rel_fatal_def rel_sound_def)
qed (use log num obj in \<open>auto simp: RelExpr_Eval_def RelExpr_TypeCheck_def rel_fatal_def rel_sound_def\<close>)

text \<open>
  C19: A comparison ends the interpreter for exactly these operands. For every other it gives a failure or a
  vector of truth values, of the common length of the operands or, for operands compared as objects, of
  length one.
\<close>

theorem rel_type_sound:
  assumes "relational op" and "kern_ok (kern l)" and "kern_ok (kern r)"
  shows "case RelExpr_Eval P op same l r of
      Return (Value v) \<Rightarrow> \<not> rel_fatal op l r \<and> Type v = TYPE_BOOL
        \<and> Length v = (if IsNumeric l \<or> Type l = TYPE_STRING \<or> Type r = TYPE_STRING then common_length l r else 1)
    | Return (Failed why) \<Rightarrow> \<not> rel_fatal op l r
    | Stop e \<Rightarrow> rel_fatal op l r \<and> (\<exists>m. e = GlishFatal m)"
proof -
  have b: "IsNumeric v" if "Type v = TYPE_BOOL" for v :: "'a ivalue" using that by (auto simp: IsNumeric_def numeric_type_def split: kernel.splits)
  have s: "\<not> IsNumeric v" if "Type v = TYPE_STRING" for v :: "'a ivalue" using that by (auto simp: IsNumeric_def numeric_type_def split: kernel.splits)
  consider "IsNumeric l \<and> IsNumeric r" | "logical op" "\<not> (IsNumeric l \<and> IsNumeric r)" | "\<not> logical op" "IsNumeric l \<noteq> IsNumeric r"
    | "\<not> logical op" "\<not> IsNumeric l" "\<not> IsNumeric r" by blast
  then have "rel_sound op l r (RelExpr_Eval P op same l r)"
  proof cases
    case 1
    then show ?thesis using rel_sound_numeric assms(2,3) by blast
  next
    case 2
    then show ?thesis using b [of l] b [of r] by (auto simp: RelExpr_Eval_def LogExpr_TypeCheck_def rel_fatal_def rel_sound_def)
  next
    case 3
    then show ?thesis using s [of l] s [of r]
      by (auto simp: RelExpr_Eval_def RelExpr_TypeCheck_def BinOp_TypeCheck_def rel_fatal_def rel_sound_def)
  next
    case 4
    then show ?thesis using rel_sound_strings [OF 4] rel_sound_objects [OF 4] assms(2,3) by blast
  qed
  then show ?thesis by (simp only: rel_sound_def)
qed
section \<open>Results of the operators\<close>

text \<open>
  C20: The element of the result at every position is the operator applied to the two elements at that position,
  both promoted to the common type; a scalar operand is used at every position.
\<close>

theorem arith_elementwise:
  assumes "arithmetic op" and "platform_ok P" and "kern_ok (kern l)" and "kern_ok (kern r)" and "IsNumeric l" and "IsNumeric r" and "lengths_fit l r"
    and "\<And>k. op = OP_MODULO \<Longrightarrow> k < common_length l r \<Longrightarrow> to_int P (elem_at (kern r) k) \<notin> {0, - 1}"
  shows "\<exists>v. ArithExpr_Eval P op l r = Return (Value v) \<and> Length v = common_length l r
    \<and> (\<forall>k < common_length l r. arith_elem P op (OperandsType op (VecRefDeref_type (kern l)) (Type r)) (elem_at (kern l) k) (elem_at (kern r) k)
        = Some (elem_at (kern v) k))"
proof -
  have t: "numeric_type (VecRefDeref_type (kern l))" "numeric_type (Type r) \<or> Type r = TYPE_SUBVEC_REF"
    using assms(5,6) by (auto simp: IsNumeric_def numeric_type_def split: kernel.splits)
  have "arith_elem P op (OperandsType op (VecRefDeref_type (kern l)) (Type r)) (elem_at (kern l) k) (elem_at (kern r) k) \<noteq> None"
    if k: "k < common_length l r" for k
  proof (cases "op = OP_MODULO")
    case True
    have "sint (to_int P (elem_at (kern r) k)) \<noteq> 0" "sint (to_int P (elem_at (kern r) k)) \<noteq> - 1"
      using assms(8) [OF True k] by (simp, metis insertCI signed_eq_0_iff, metis insertCI signed_minus_1 signed_word_eqI)
    with True show ?thesis by (simp add: int32_op_def)
  qed (use arith_elem_defined [OF assms(1) _ t] in blast)
  then show ?thesis using arith_eval [OF assms(1-7)] by (metis (no_types, lifting))
qed

text \<open>
  C21: A comparison of numeric operands, one of which is no reference to a part of a vector, holds at a position
  when it holds for the two elements there, promoted to the common type.
\<close>

theorem rel_elementwise:
  assumes "relational op" and "kern_ok (kern l)" and "kern_ok (kern r)" and "IsNumeric l" and "IsNumeric r" and "lengths_fit l r"
    and "logical op \<Longrightarrow> Type l = TYPE_BOOL \<and> Type r = TYPE_BOOL" and "Type l \<noteq> TYPE_SUBVEC_REF \<or> Type r \<noteq> TYPE_SUBVEC_REF"
  shows "\<exists>bs v. RelExpr_Eval P op same l r = Return (Value v) \<and> kern v = Array (BoolVec bs) \<and> length bs = common_length l r
    \<and> (\<forall>k < common_length l r. bs ! k = rel_elem P op (rel_type op (Type l) (Type r)) (elem_at (kern l) k) (elem_at (kern r) k))"
proof -
  have st: "Type l \<noteq> TYPE_STRING" "Type r \<noteq> TYPE_STRING"
    using assms(4,5) by (auto simp: IsNumeric_def numeric_type_def split: kernel.splits)
  have "RelExpr_Eval P op same l r = RelExpr_OpCompute P op same l r (common_length l r)"
    using assms(4-7) st by (auto simp: RelExpr_Eval_def LogExpr_TypeCheck_def RelExpr_TypeCheck_def BinOp_TypeCheck_def BinOp_Compute_eq)
  with rel_op_compute_ok [OF assms(4,5,2,3,6,7,8), of op P same] show ?thesis by force
qed

text \<open>
  C38: The type of a reference to a part of a vector of doubles is not looked at when it is the right operand:
  added to integers it is truncated to integers, although the operands the other way round give doubles.
\<close>

theorem subvec_type_lost:
  assumes "platform_ok P" and "kern l = Array (IntVec xs)" and "kern r = SubVec (DoubleVec ys) ix" and "kern_ok (kern r)" and "lengths_fit l r"
  shows "\<exists>v w. ArithExpr_Eval P OP_ADD l r = Return (Value v) \<and> Type v = TYPE_INT
    \<and> ArithExpr_Eval P OP_ADD r l = Return (Value w) \<and> Type w = TYPE_DOUBLE"
proof -
  have a: "arithmetic OP_ADD" "IsNumeric l" "IsNumeric r" "kern_ok (kern l)" "lengths_fit r l"
    using assms(2,3,5) by (auto simp: arithmetic_def IsNumeric_def numeric_type_def lengths_fit_def)
  have t: "OperandsType OP_ADD (VecRefDeref_type (kern l)) (Type r) = TYPE_INT" "OperandsType OP_ADD (VecRefDeref_type (kern r)) (Type l) = TYPE_DOUBLE"
    by (simp_all add: assms(2,3) BinOp_OperandsType_def)
  have d: "arith_elem P OP_ADD TYPE_INT x y \<noteq> None" "arith_elem P OP_ADD TYPE_DOUBLE x y \<noteq> None" for x y by (simp_all add: int32_op_def)
  show ?thesis
    using arith_eval [OF a(1) assms(1) a(4) assms(4) a(2,3) assms(5), unfolded t] arith_eval [OF a(1) assms(1,4) a(4,3,2,5), unfolded t] d
    by (metis (no_types, lifting))
qed

text \<open>The remainder traps where a divisor is zero; the failure the code means to return comes only if the handler goes on behind the division.\<close>

theorem modulo_trap:
  assumes "platform_ok P" and "kern_ok (kern l)" and "kern_ok (kern r)" and "IsNumeric l" and "IsNumeric r" and "lengths_fit l r"
    and "k < common_length l r" and "to_int P (elem_at (kern r) k) = 0"
  shows "ArithExpr_Eval P OP_MODULO l r = (if trap_resumes P then Return (Failed (FpeOccurred ''modulo FPE occurred'')) else Stop SigFpe)"
proof -
  have "arithmetic OP_MODULO" by (simp add: arithmetic_def)
  moreover have "arith_elem P OP_MODULO (OperandsType OP_MODULO (VecRefDeref_type (kern l)) (Type r)) (elem_at (kern l) k) (elem_at (kern r) k) = None"
    using assms(8) by (simp add: int32_op_def)
  ultimately show ?thesis using arith_eval [OF _ assms(1-6), of OP_MODULO] assms(7) by (auto simp del: OperandsType.simps)
qed

text \<open>
  A reference with an index behind the end of its vector, which has shrunk in the meantime: the coercion
  reports it and returns a null pointer, which comparisons test for and arithmetic operators do not.
\<close>

theorem stale_subvec_null:
  assumes "kern l = Array (IntVec xs)" and "xs \<noteq> []" and "kern r = SubVec a ix" and "numeric_type (vec_type a)"
    and "length ix = length xs \<or> length xs = 1" and "0 < length ix" and "ix ! 0 > int (vec_length a)"
  shows "ArithExpr_Eval P OP_ADD l r = Stop NullPointer \<and> RelExpr_Eval P OP_EQ same l r = Return (Failed CoercionFailed)"
proof -
  have n: "IsNumeric l" "IsNumeric r" using assms(1,3,4) by (simp_all add: IsNumeric_def numeric_type_def)
  have f: "lengths_fit l r" "0 < common_length l r" "Length l = 1 \<or> Length l = common_length l r"
    using assms(1,2,3,5,6) by (auto simp: lengths_fit_def common_length_def)
  have T: "OperandsType OP_ADD (Type l) (Type r) = TYPE_INT" "RelExpr_OperandsType OP_EQ (Type l) (Type r) = TYPE_INT"
    by (simp_all add: assms(1,3) BinOp_OperandsType_def RelExpr_OperandsType_def)
  have ty: "Type l \<noteq> TYPE_STRING" by (simp add: assms(1))
  obtain m where m: "length ix = Suc m" using assms(6) by (cases "length ix") simp_all
  then have ne: "ix \<noteq> []" by auto
  have r: "CoerceToIntArray P r (Length r) = Return (True, None)"
    using n(2) assms(3,4,7) m ne by (simp add: CoerceToIntArray_def coerce_array_def Let_def subvec_get_def TranslateIndex_def numeric_type_def)
  have "kern_ok (kern l)" by (simp add: assms(1))
  then obtain c where l: "CoerceToIntArray P l (common_length l r) = Return (c, Some (map (to_int P) (spread (kern l) (common_length l r))))"
    using coercions_ok(3) [OF n(1) _ f(3), of P] by blast
  have c: "copy_ivalue l = Return l" using assms(1) by (simp add: copy_ivalue_def)
  have "ArithExpr_Eval P OP_ADD l r = Stop NullPointer"
    using n f T(1) by (simp add: ArithExpr_Eval_def c BinOp_TypeCheck_def BinOp_Compute_eq ArithExpr_OpCompute_def arith_op_compute_def l r)
  moreover have "RelExpr_Eval P OP_EQ same l r = Return (Failed CoercionFailed)"
    using n f T(2) ty by (simp add: RelExpr_Eval_def RelExpr_TypeCheck_def BinOp_TypeCheck_def BinOp_Compute_eq RelExpr_OpCompute_def rel_op_compute_def l r)
  ultimately show ?thesis ..
qed
section \<open>Examples\<close>

text \<open>A machine to run examples on: a mathematical library that knows nothing, and a handler that goes on.\<close>

definition example_platform :: platform where
  "example_platform = \<lparr>c_pow = \<lambda>x y. NaN, c_exp = \<lambda>x. NaN, c_log = \<lambda>x. NaN, c_sin = \<lambda>x. NaN, c_cos = \<lambda>x. NaN,
     c_hypot = \<lambda>x y. NaN, c_atan2 = \<lambda>x y. NaN, c_huge = Infinite False, cast_undefined = \<lambda>t x. 0, trap_resumes = True\<rparr>"

lemma example_platform_ok: "platform_ok example_platform"
  by (simp add: platform_ok_def example_platform_def)

abbreviation plain :: "kernel \<Rightarrow> unit ivalue" where
  "plain k \<equiv> \<lparr>kern = k, attributes = None\<rparr>"

lemma halves_ok: "fp_ok double_format (Number (5 / 2))" "fp_ok double_format (Number (7 / 2))"
proof -
  have t: "two_pow (- 1) = 1 / 2" "two_pow 3 \<le> two_pow 1024" "two_pow 3 = 8"
    by (simp add: two_pow_def, simp only: two_pow_mono, simp add: two_pow_def)
  show "fp_ok double_format (Number (5 / 2))" using t by (auto simp: double_format_def intro!: representableI [of _ 5 "- 1"])
  show "fp_ok double_format (Number (7 / 2))" using t by (auto simp: double_format_def intro!: representableI [of _ 7 "- 1"])
qed

definition halves :: "unit ivalue" where
  "halves = plain (SubVec (DoubleVec [Number (5 / 2), Zero False, Number (7 / 2)]) [1, 3])"

lemma halves_value: "kern_ok (kern halves)" "IsNumeric halves" "Length halves = 2" "Type halves = TYPE_SUBVEC_REF"
  using halves_ok by (simp_all add: halves_def indices_ok_def IsNumeric_def numeric_type_def)

theorem arith_type_sound_witness:
  "case ArithExpr_Eval example_platform OP_ADD halves (plain (Array (IntVec [1]))) of
     Return (Value v) \<Rightarrow> kern_ok (kern v) \<and> Type v = TYPE_DOUBLE \<and> Length v = 2
   | _ \<Rightarrow> False"
proof -
  let ?r = "plain (Array (IntVec [1]))"
  have "arithmetic OP_ADD" "IsNumeric ?r" "lengths_fit halves ?r" "common_length halves ?r = 2"
    "OperandsType OP_ADD (VecRefDeref_type (kern halves)) (Type ?r) = TYPE_DOUBLE"
    by (simp_all add: arithmetic_def IsNumeric_def numeric_type_def lengths_fit_def common_length_def halves_def BinOp_OperandsType_def)
  with arith_type_sound [of OP_ADD example_platform halves ?r] example_platform_ok halves_value show ?thesis
    by (simp del: OperandsType.simps split: run.splits result.splits)
qed

theorem rel_type_sound_witness:
  "case RelExpr_Eval example_platform OP_EQ False (plain (Regexs 1)) (plain (Regexs 1)) of
     Return (Value v) \<Rightarrow> \<not> rel_fatal OP_EQ (plain (Regexs 1)) (plain (Regexs 1))
   | Return (Failed why) \<Rightarrow> \<not> rel_fatal OP_EQ (plain (Regexs 1)) (plain (Regexs 1))
   | Stop e \<Rightarrow> rel_fatal OP_EQ (plain (Regexs 1)) (plain (Regexs 1)) \<and> (\<exists>m. e = GlishFatal m)"
  using rel_type_sound [of OP_EQ "plain (Regexs 1)" "plain (Regexs 1)" example_platform False]
  by (auto simp: relational_def arithmetic_def split: run.splits result.splits)

theorem arith_elementwise_witness:
  "\<exists>v. ArithExpr_Eval example_platform OP_MODULO (plain (Array (IntVec [7, - 7]))) (plain (Array (IntVec [3]))) = Return (Value v)
    \<and> Length v = 2 \<and> elem_at (kern v) 0 = IntE 1 \<and> elem_at (kern v) 1 = IntE (- 1)"
proof -
  let ?l = "plain (Array (IntVec [7, - 7]))" and ?r = "plain (Array (IntVec [3]))"
  have h: "arithmetic OP_MODULO" "kern_ok (kern ?l)" "kern_ok (kern ?r)" "IsNumeric ?l" "IsNumeric ?r" "lengths_fit ?l ?r"
    by (simp_all add: arithmetic_def IsNumeric_def numeric_type_def lengths_fit_def)
  have n: "common_length ?l ?r = 2" by (simp add: common_length_def)
  have t: "to_int example_platform (elem_at (kern ?r) k) \<notin> {0, - 1}" for k by (simp add: elem_at_def to_int_def)
  from arith_elementwise [OF h(1) example_platform_ok h(2-6)] t
  obtain v where v: "ArithExpr_Eval example_platform OP_MODULO ?l ?r = Return (Value v)" "Length v = 2"
    and e: "\<forall>k < 2. arith_elem example_platform OP_MODULO TYPE_INT (elem_at (kern ?l) k) (elem_at (kern ?r) k) = Some (elem_at (kern v) k)"
    unfolding n by auto
  have "elem_at (kern v) 0 = IntE 1" "elem_at (kern v) 1 = IntE (- 1)"
    using e [rule_format, of 0] e [rule_format, of 1] by (simp_all add: elem_at_def to_int_def int32_op_def signed_modulo_int_def signed_divide_int_def sgn_if)
  with v show ?thesis by blast
qed

theorem rel_elementwise_witness:
  "\<exists>bs v. RelExpr_Eval example_platform OP_LT False (plain (Array (IntVec [1, 5]))) (plain (Array (ShortVec [3]))) = Return (Value v)
    \<and> kern v = Array (BoolVec bs) \<and> bs = [True, False]"
proof -
  let ?l = "plain (Array (IntVec [1, 5]))" and ?r = "plain (Array (ShortVec [3]))"
  have h: "relational OP_LT" "kern_ok (kern ?l)" "kern_ok (kern ?r)" "IsNumeric ?l" "IsNumeric ?r" "lengths_fit ?l ?r"
    by (simp_all add: relational_def arithmetic_def IsNumeric_def numeric_type_def lengths_fit_def)
  have n: "common_length ?l ?r = 2" by (simp add: common_length_def)
  have t: "rel_type OP_LT (Type ?l) (Type ?r) = TYPE_INT" by (simp add: rel_type_def RelExpr_OperandsType_def BinOp_OperandsType_def)
  from rel_elementwise [OF h, of example_platform False]
  obtain bs v where b: "RelExpr_Eval example_platform OP_LT False ?l ?r = Return (Value v)" "kern v = Array (BoolVec bs)" "length bs = 2"
    and e: "\<forall>k < 2. bs ! k = rel_elem example_platform OP_LT TYPE_INT (elem_at (kern ?l) k) (elem_at (kern ?r) k)"
    unfolding n t by auto
  have "bs = [True, False]" using b(3) e [rule_format, of 0] e [rule_format, of 1]
    by (intro nth_equalityI) (auto simp: less_Suc_eq numeral_2_eq_2 elem_at_def to_int_def)
  with b show ?thesis by blast
qed

theorem subvec_type_lost_witness:
  "\<exists>v w. ArithExpr_Eval example_platform OP_ADD (plain (Array (IntVec [1]))) halves = Return (Value v) \<and> Type v = TYPE_INT
    \<and> ArithExpr_Eval example_platform OP_ADD halves (plain (Array (IntVec [1]))) = Return (Value w) \<and> Type w = TYPE_DOUBLE"
proof (rule subvec_type_lost [OF example_platform_ok])
  show "kern (plain (Array (IntVec [1]))) = Array (IntVec [1])" by simp
  show "kern halves = SubVec (DoubleVec [Number (5 / 2), Zero False, Number (7 / 2)]) [1, 3]" by (simp add: halves_def)
  show "kern_ok (kern halves)" by (rule halves_value)
  show "lengths_fit (plain (Array (IntVec [1]))) halves" by (simp add: lengths_fit_def)
qed

theorem modulo_trap_witness:
  "ArithExpr_Eval (example_platform\<lparr>trap_resumes := False\<rparr>) OP_MODULO (plain (Array (IntVec [1]))) (plain (Array (IntVec [0]))) = Stop SigFpe"
proof -
  have "platform_ok (example_platform\<lparr>trap_resumes := False\<rparr>)" by (simp add: platform_ok_def example_platform_def)
  from modulo_trap [OF this, of "plain (Array (IntVec [1]))" "plain (Array (IntVec [0]))" 0] show ?thesis
    by (simp add: IsNumeric_def numeric_type_def lengths_fit_def common_length_def elem_at_def to_int_def)
qed

theorem stale_subvec_null_witness:
  "ArithExpr_Eval example_platform OP_ADD (plain (Array (IntVec [1]))) (plain (SubVec (IntVec [4]) [2, 3])) = Stop NullPointer
    \<and> RelExpr_Eval example_platform OP_EQ False (plain (Array (IntVec [1]))) (plain (SubVec (IntVec [4]) [2, 3])) = Return (Failed CoercionFailed)"
  by (rule stale_subvec_null [where xs = "[1]" and a = "IntVec [4]" and ix = "[2, 3]"]) (simp_all add: numeric_type_def)

end
