(* ===== verification/Glish_Subscript.thy ===== *)
theory Glish_Subscript
  imports Glish_Arith
begin

text \<open>
  Subscripts of vectors (\<open>glish/Value.cc\<close>, \<open>glish/IValue.cc\<close>, \<open>glish/ValKern.cc\<close>): from an index value to
  the positions it selects, the elements read there, and the assignment to them, which promotes the vector
  to the type of the value and grows it as far as the greatest index asks. Subscripts of records are a
  parameter; the value assigned is a copy, so it never is a reference to a part of another.
\<close>

section \<open>Indices\<close>

text \<open>The positions, counted from one, or nothing when the index is refused with a message.\<close>

fun true_positions :: "int \<Rightarrow> bool list \<Rightarrow> int list" where
  "true_positions i [] = []"
| "true_positions i (b # bs) = (if b then (i + 1) # true_positions (i + 1) bs else true_positions (i + 1) bs)"

definition GenerateIndices :: "platform \<Rightarrow> nat \<Rightarrow> 'a ivalue \<Rightarrow> bool \<Rightarrow> (int list option) run" where
  "GenerateIndices P len index check_size =
    (if \<not> IsNumeric index then Return None
     else case kern index of
       Array (BoolVec bs) \<Rightarrow> Return (if check_size \<and> length bs \<noteq> len then None else Some (true_positions 0 bs))
     | _ \<Rightarrow> then_do (CoerceToIntArray P index (Length index)) (\<lambda>(is_copy, ixs). Return (map_option (map sint) ixs)))"

text \<open>The range of the indices: the greatest, and what the code takes for the least.\<close>

fun range_loop :: "int \<Rightarrow> int list \<Rightarrow> int \<Rightarrow> int \<Rightarrow> int + int \<times> int" where
  "range_loop ix0 [] mx mn = Inr (mx, mn)"
| "range_loop ix0 (i # is) mx mn =
    (if i < 1 then Inl i else range_loop ix0 is (if i > mx then i else mx) (if ix0 < mn then i else mn))"

definition IndexRange :: "int list \<Rightarrow> int + int \<times> int" where
  "IndexRange ixs = (case ixs of [] \<Rightarrow> Inr (0, 0) | i # _ \<Rightarrow> range_loop i ixs 0 (last ixs))"

section \<open>Reading\<close>

datatype refusal = OutOfRange int nat | NotSupported glish_type | FailedValue | InvalidIndex int | BadIndex

datatype 'a subscripted = Selected "'a ivalue" | Refused refusal

text \<open>What is used of records, and the attributes that a part of a vector keeps.\<close>

record 'a record_ops =
  RecordRef :: "'a ivalue \<Rightarrow> 'a ivalue \<Rightarrow> 'a subscripted run"
  RecordSlice :: "'a ivalue \<Rightarrow> int list \<Rightarrow> bool \<Rightarrow> 'a subscripted run"
  print_precision :: "'a \<Rightarrow> 'a option"

text \<open>The loop over the positions, given where each leads; it ends at one that is not valid.\<close>

fun select_loop :: "(int \<Rightarrow> (int option) run) \<Rightarrow> 'x list \<Rightarrow> int list \<Rightarrow> (int + 'x list) run" where
  "select_loop off xs [] = Return (Inr [])"
| "select_loop off xs (i # is) = then_do (off i) (\<lambda>k. case k of
     None \<Rightarrow> Return (Inl i)
   | Some k \<Rightarrow> if k < 0 \<or> nat k \<ge> length xs then Stop OutOfBounds
       else then_do (select_loop off xs is) (\<lambda>r. Return (map_sum id ((#) (xs ! nat k)) r)))"

definition select_vec :: "(int \<Rightarrow> (int option) run) \<Rightarrow> vec \<Rightarrow> int list \<Rightarrow> (int + vec) run" where
  "select_vec off a ixs = (case a of
     BoolVec xs \<Rightarrow> then_do (select_loop off xs ixs) (\<lambda>r. Return (map_sum id BoolVec r))
   | ByteVec xs \<Rightarrow> then_do (select_loop off xs ixs) (\<lambda>r. Return (map_sum id ByteVec r))
   | ShortVec xs \<Rightarrow> then_do (select_loop off xs ixs) (\<lambda>r. Return (map_sum id ShortVec r))
   | IntVec xs \<Rightarrow> then_do (select_loop off xs ixs) (\<lambda>r. Return (map_sum id IntVec r))
   | FloatVec xs \<Rightarrow> then_do (select_loop off xs ixs) (\<lambda>r. Return (map_sum id FloatVec r))
   | DoubleVec xs \<Rightarrow> then_do (select_loop off xs ixs) (\<lambda>r. Return (map_sum id DoubleVec r))
   | ComplexVec xs \<Rightarrow> then_do (select_loop off xs ixs) (\<lambda>r. Return (map_sum id ComplexVec r))
   | DcomplexVec xs \<Rightarrow> then_do (select_loop off xs ixs) (\<lambda>r. Return (map_sum id DcomplexVec r))
   | StringVec xs \<Rightarrow> then_do (select_loop off xs ixs) (\<lambda>r. Return (map_sum id StringVec r)))"

definition ArrayRef :: "'a record_ops \<Rightarrow> 'a ivalue \<Rightarrow> int list \<Rightarrow> bool \<Rightarrow> 'a subscripted run" where
  "ArrayRef R v ixs preserve =
    (let bad = find (\<lambda>i. i < 1 \<or> i > int (Length v)) ixs;
         made = (\<lambda>r. case r of
             Inl i \<Rightarrow> Refused (InvalidIndex i)
           | Inr a \<Rightarrow> Selected \<lparr>kern = Array a, attributes = Option.bind (attributes v) (print_precision R)\<rparr>)
     in case kern v of
       Failures n \<Rightarrow> Return (Refused FailedValue)
     | Funcs n \<Rightarrow> Return (Refused (NotSupported TYPE_FUNC))
     | Agents n \<Rightarrow> Return (Refused (NotSupported TYPE_AGENT))
     | Records n \<Rightarrow> RecordSlice R v ixs preserve
     | k \<Rightarrow> (case bad of
           Some i \<Rightarrow> Return (Refused (OutOfRange i (Length v)))
         | None \<Rightarrow> (case k of
             Array a \<Rightarrow> then_do (select_vec (\<lambda>i. Return (Some (i - 1))) a ixs) (\<lambda>r. Return (made r))
           | SubVec a js \<Rightarrow> then_do (select_vec (\<lambda>i. TranslateIndex a js (nat (i - 1))) a ixs) (\<lambda>r. Return (made r))
           | Regexs n \<Rightarrow> Return (Selected \<lparr>kern = Regexs (length ixs), attributes = Option.bind (attributes v) (print_precision R)\<rparr>)
           | Files n \<Rightarrow> Return (Selected \<lparr>kern = Files (length ixs), attributes = Option.bind (attributes v) (print_precision R)\<rparr>)
           | _ \<Rightarrow> Stop (GlishFatal ''bad type in Value::ArrayRef()''))))"

definition subscript :: "platform \<Rightarrow> 'a record_ops \<Rightarrow> 'a ivalue \<Rightarrow> 'a ivalue \<Rightarrow> bool \<Rightarrow> 'a subscripted run" where
  "subscript P R v index preserve =
    (if Type index = TYPE_STRING then RecordRef R v index
     else then_do (GenerateIndices P (Length v) index True) (\<lambda>ixs. case ixs of
       None \<Rightarrow> Return (Refused BadIndex)
     | Some ixs \<Rightarrow> ArrayRef R v ixs preserve))"

section \<open>Types of assignments\<close>

definition max_numeric_type :: "glish_type \<Rightarrow> glish_type \<Rightarrow> glish_type" where
  "max_numeric_type t1 t2 =
    (if t1 = TYPE_DCOMPLEX \<or> t2 = TYPE_DCOMPLEX then TYPE_DCOMPLEX
     else if t1 = TYPE_COMPLEX \<or> t2 = TYPE_COMPLEX then TYPE_COMPLEX
     else if t1 = TYPE_DOUBLE \<or> t2 = TYPE_DOUBLE then TYPE_DOUBLE
     else if t1 = TYPE_FLOAT \<or> t2 = TYPE_FLOAT then TYPE_FLOAT
     else if t1 = TYPE_INT \<or> t2 = TYPE_INT then TYPE_INT
     else if t1 = TYPE_SHORT \<or> t2 = TYPE_SHORT then TYPE_SHORT
     else if t1 = TYPE_BYTE \<or> t2 = TYPE_BYTE then TYPE_BYTE
     else TYPE_BOOL)"

definition compatible_types :: "glish_type \<Rightarrow> glish_type \<Rightarrow> glish_type option" where
  "compatible_types t1 t2 =
    (if numeric_type t1 then if \<not> numeric_type t2 then None else Some (max_numeric_type t1 t2)
     else if t2 \<noteq> t1 then None else Some t1)"

text \<open>
  The conversion in place of a vector to another type. The result is a vector: the conversion to a record,
  which no assignment to positions asks for since \<open>compatible_types\<close> never gives that type for a vector, is
  not distinguished from the types that are refused.
\<close>

definition polymorph_to :: "(bool \<times> 'x list option) run \<Rightarrow> ('x list \<Rightarrow> vec) \<Rightarrow> vec run" where
  "polymorph_to m mk = then_do m (\<lambda>(is_copy, xs). case xs of Some xs \<Rightarrow> Return (mk xs) | None \<Rightarrow> Stop NullPointer)"

definition Polymorph :: "platform \<Rightarrow> glish_type \<Rightarrow> vec \<Rightarrow> vec run" where
  "Polymorph P t a = (let v = \<lparr>kern = Array a, attributes = None :: unit option\<rparr>; n = vec_length a in
     if vec_type a = t then Return a
     else case t of
       TYPE_BOOL \<Rightarrow> polymorph_to (CoerceToBoolArray v n) BoolVec
     | TYPE_BYTE \<Rightarrow> polymorph_to (CoerceToByteArray P v n) ByteVec
     | TYPE_SHORT \<Rightarrow> polymorph_to (CoerceToShortArray P v n) ShortVec
     | TYPE_INT \<Rightarrow> (case a of BoolVec bs \<Rightarrow> Return (IntVec (map of_bool bs)) | _ \<Rightarrow> polymorph_to (CoerceToIntArray P v n) IntVec)
     | TYPE_FLOAT \<Rightarrow> polymorph_to (CoerceToFloatArray v n) FloatVec
     | TYPE_DOUBLE \<Rightarrow> polymorph_to (CoerceToDoubleArray v n) DoubleVec
     | TYPE_COMPLEX \<Rightarrow> polymorph_to (CoerceToComplexArray v n) ComplexVec
     | TYPE_DCOMPLEX \<Rightarrow> polymorph_to (CoerceToDcomplexArray v n) DcomplexVec
     | TYPE_STRING \<Rightarrow> polymorph_to (CoerceToStringArray v n) StringVec
     | TYPE_FUNC \<Rightarrow> Stop (GlishFatal ''non-func type in CoerceToFuncArray()'')
     | TYPE_REGEX \<Rightarrow> Stop (GlishFatal ''non regular expression type in CoerceToRegexArray()'')
     | TYPE_FILE \<Rightarrow> Stop (GlishFatal ''non file type in CoerceToFileArray()'')
     | _ \<Rightarrow> Stop (GlishFatal ''bad type in IValue::Polymorph()''))"

section \<open>Assigning\<close>

text \<open>The loop of the assignment, and the memory a vector grows into, which is filled with zero bytes.\<close>

fun store_loop :: "'x list \<Rightarrow> int list \<Rightarrow> 'x list \<Rightarrow> ('x list) run" where
  "store_loop xs [] ys = Return xs"
| "store_loop xs (i # is) [] = Stop OutOfBounds"
| "store_loop xs (i # is) (y # ys) = (if i < 1 \<or> i > int (length xs) then Stop OutOfBounds else store_loop (xs[nat (i - 1) := y]) is ys)"

definition grow_zero :: "'x \<Rightarrow> nat \<Rightarrow> 'x list \<Rightarrow> 'x list" where
  "grow_zero z n xs = xs @ replicate (n - length xs) z"

definition store_in :: "'x \<Rightarrow> ('x list \<Rightarrow> vec) \<Rightarrow> 'x list \<Rightarrow> nat \<Rightarrow> int list \<Rightarrow> (bool \<times> 'x list option) run \<Rightarrow> vec run" where
  "store_in z mk xs n ixs m = then_do m (\<lambda>(rhs_copy, ys). case ys of
     None \<Rightarrow> Stop NullPointer
   | Some ys \<Rightarrow> then_do (store_loop (grow_zero z n xs) ixs ys) (\<lambda>zs. Return (mk zs)))"

definition AssignNumbers :: "platform \<Rightarrow> vec \<Rightarrow> int list \<Rightarrow> vec \<Rightarrow> nat \<Rightarrow> nat \<Rightarrow> vec run" where
  "AssignNumbers P a ixs b rhs_len n = (let v = \<lparr>kern = Array b, attributes = None :: unit option\<rparr> in case a of
     BoolVec xs \<Rightarrow> store_in False BoolVec xs n ixs (CoerceToBoolArray v rhs_len)
   | ByteVec xs \<Rightarrow> store_in 0 ByteVec xs n ixs (CoerceToByteArray P v rhs_len)
   | ShortVec xs \<Rightarrow> store_in 0 ShortVec xs n ixs (CoerceToShortArray P v rhs_len)
   | IntVec xs \<Rightarrow> store_in 0 IntVec xs n ixs (CoerceToIntArray P v rhs_len)
   | FloatVec xs \<Rightarrow> store_in (Zero False) FloatVec xs n ixs (CoerceToFloatArray v rhs_len)
   | DoubleVec xs \<Rightarrow> store_in (Zero False) DoubleVec xs n ixs (CoerceToDoubleArray v rhs_len)
   | ComplexVec xs \<Rightarrow> store_in (Zero False, Zero False) ComplexVec xs n ixs (CoerceToComplexArray v rhs_len)
   | DcomplexVec xs \<Rightarrow> store_in (Zero False, Zero False) DcomplexVec xs n ixs (CoerceToDcomplexArray v rhs_len)
   | StringVec xs \<Rightarrow> Stop (GlishFatal ''bad type in Value::AssignArrayElements()''))"

text \<open>The strings of a vector may be null pointers after it has grow_zero.\<close>

definition AssignStrings :: "string option list \<Rightarrow> int list \<Rightarrow> string list \<Rightarrow> nat \<Rightarrow> int \<Rightarrow> (string option list) run" where
  "AssignStrings xs ixs ys n min_index =
    (let orig_len = length xs; zs = grow_zero None n xs;
         zs = (if min_index > int orig_len then take orig_len zs @ replicate (nat min_index - orig_len) (Some []) @ drop (nat min_index) zs else zs)
     in store_loop zs ixs (map Some ys))"
datatype assign_error = Incompatible | CountMismatch nat nat | IndexTooSmall int

text \<open>The vector that an assignment leaves; strings may be null pointers.\<close>

datatype stored_vec = Stored vec | StoredStrings "string option list"

definition AssignAt :: "platform \<Rightarrow> vec \<Rightarrow> int list \<Rightarrow> vec \<Rightarrow> nat \<Rightarrow> (stored_vec \<times> assign_error option) run" where
  "AssignAt P a ixs b rhs_len = (case IndexRange ixs of
     Inl i \<Rightarrow> Return (Stored a, Some (IndexTooSmall i))
   | Inr (max_index, min_index) \<Rightarrow>
       let n = max (vec_length a) (nat max_index) in
       (case a of
          StringVec xs \<Rightarrow>
            then_do (CoerceToStringArray \<lparr>kern = Array b, attributes = None :: unit option\<rparr> rhs_len) (\<lambda>(rhs_copy, ys). case ys of
              None \<Rightarrow> Stop NullPointer
            | Some ys \<Rightarrow> then_do (AssignStrings (map Some xs) ixs ys n min_index) (\<lambda>zs. Return (StoredStrings zs, None)))
        | _ \<Rightarrow> then_do (AssignNumbers P a ixs b rhs_len n) (\<lambda>c. Return (Stored c, None))))"

text \<open>
  The assignment to positions of a vector without null strings: the vector after it, and the message if it was
  refused. The vector has been converted before the counts and the indices are looked at.
\<close>

definition AssignArrayElements :: "platform \<Rightarrow> vec \<Rightarrow> int list \<Rightarrow> vec \<Rightarrow> (stored_vec \<times> assign_error option) run" where
  "AssignArrayElements P a ixs b = (case compatible_types (vec_type a) (vec_type b) of
     None \<Rightarrow> Return (Stored a, Some Incompatible)
   | Some t \<Rightarrow>
       then_do (Polymorph P t a) (\<lambda>a.
       then_do (Polymorph P t b) (\<lambda>b.
       let rhs_len = (if vec_length b = 1 then length ixs else vec_length b) in
       if rhs_len \<noteq> length ixs then Return (Stored a, Some (CountMismatch (length ixs) rhs_len))
       else AssignAt P a ixs b rhs_len)))"

section \<open>What is read\<close>

fun vec_pick :: "vec \<Rightarrow> nat list \<Rightarrow> vec" where
  "vec_pick (BoolVec xs) ks = BoolVec (map ((!) xs) ks)"
| "vec_pick (ByteVec xs) ks = ByteVec (map ((!) xs) ks)"
| "vec_pick (ShortVec xs) ks = ShortVec (map ((!) xs) ks)"
| "vec_pick (IntVec xs) ks = IntVec (map ((!) xs) ks)"
| "vec_pick (FloatVec xs) ks = FloatVec (map ((!) xs) ks)"
| "vec_pick (DoubleVec xs) ks = DoubleVec (map ((!) xs) ks)"
| "vec_pick (ComplexVec xs) ks = ComplexVec (map ((!) xs) ks)"
| "vec_pick (DcomplexVec xs) ks = DcomplexVec (map ((!) xs) ks)"
| "vec_pick (StringVec xs) ks = StringVec (map ((!) xs) ks)"

lemma select_loop_ok:
  assumes "\<And>i. i \<in> set ixs \<Longrightarrow> off i = Return (Some (int (p i))) \<and> p i < length xs"
  shows "select_loop off xs ixs = Return (Inr (map (\<lambda>i. xs ! p i) ixs))"
  using assms
proof (induction ixs)
  case (Cons i ixs)
  have "off i = Return (Some (int (p i)))" "p i < length xs" using Cons.prems [of i] by simp_all
  moreover have "select_loop off xs ixs = Return (Inr (map (\<lambda>i. xs ! p i) ixs))" using Cons by simp
  ultimately show ?case by simp
qed simp

lemma select_vec_ok:
  assumes "\<And>i. i \<in> set ixs \<Longrightarrow> off i = Return (Some (int (p i))) \<and> p i < vec_length a"
  shows "select_vec off a ixs = Return (Inr (vec_pick a (map p ixs)))"
  using assms by (cases a) (simp_all add: select_vec_def select_loop_ok [where p = p] comp_def)

text \<open>The vector and the position in it that a position of a value leads to.\<close>

fun base_vec :: "kernel \<Rightarrow> vec" where
  "base_vec (Array a) = a"
| "base_vec (SubVec a js) = a"
| "base_vec _ = BoolVec []"

fun base_pos :: "kernel \<Rightarrow> int \<Rightarrow> nat" where
  "base_pos (SubVec a js) i = nat (js ! nat (i - 1) - 1)"
| "base_pos _ i = nat (i - 1)"

text \<open>
  C23: A subscript of a vector, or of a reference to a part of one, by positions is refused with the first
  position that is not inside of it, and otherwise gives the elements at these positions in their order; it
  never reads outside of the vector.
\<close>

theorem subscript_bounds:
  assumes "kern v = Array a \<or> kern v = SubVec a js" and "kern_ok (kern v)"
  shows "ArrayRef R v ixs p = Return (case find (\<lambda>i. i < 1 \<or> i > int (Length v)) ixs of
      Some i \<Rightarrow> Refused (OutOfRange i (Length v))
    | None \<Rightarrow> Selected \<lparr>kern = Array (vec_pick a (map (base_pos (kern v)) ixs)), attributes = Option.bind (attributes v) (print_precision R)\<rparr>)"
proof (cases "find (\<lambda>i. i < 1 \<or> i > int (Length v)) ixs")
  case None
  then have r: "1 \<le> i \<and> i \<le> int (Length v)" if "i \<in> set ixs" for i using that by (fastforce simp: find_None_iff)
  show ?thesis
  proof (cases "kern v = Array a")
    case True
    have "select_vec (\<lambda>i. Return (Some (i - 1))) a ixs = Return (Inr (vec_pick a (map (base_pos (kern v)) ixs)))"
      by (rule select_vec_ok) (use r True in \<open>fastforce\<close>)
    then show ?thesis using None True by (simp add: ArrayRef_def)
  next
    case False
    then have s: "kern v = SubVec a js" using assms(1) by blast
    then have ok: "indices_ok a js" using assms(2) by simp
    have "select_vec (\<lambda>i. TranslateIndex a js (nat (i - 1))) a ixs = Return (Inr (vec_pick a (map (base_pos (kern v)) ixs)))"
    proof (rule select_vec_ok)
      fix i assume "i \<in> set ixs"
      then have k: "nat (i - 1) < length js" using r [of i] s by auto
      then have "1 \<le> js ! nat (i - 1)" "js ! nat (i - 1) \<le> int (vec_length a)" using ok nth_mem [OF k] by (auto simp: indices_ok_def)
      then show "TranslateIndex a js (nat (i - 1)) = Return (Some (int (base_pos (kern v) i))) \<and> base_pos (kern v) i < vec_length a"
        using k s by (simp add: TranslateIndex_def)
    qed
    then show ?thesis using None s by (simp add: ArrayRef_def)
  qed
qed (use assms(1) in \<open>auto simp: ArrayRef_def\<close>)

definition no_records :: "unit record_ops" where
  "no_records = \<lparr>RecordRef = \<lambda>v i. Return (Refused BadIndex), RecordSlice = \<lambda>v is p. Return (Refused BadIndex), print_precision = \<lambda>a. None\<rparr>"

theorem subscript_bounds_witness:
  "ArrayRef no_records \<lparr>kern = SubVec (IntVec [4, 5, 6]) [3, 1], attributes = None\<rparr> [2, 1, 2] False = Return (Selected \<lparr>kern = Array (IntVec [4, 6, 4]), attributes = None\<rparr>)"
  using subscript_bounds [of "\<lparr>kern = SubVec (IntVec [4, 5, 6]) [3, 1], attributes = None\<rparr>" "IntVec [4, 5, 6]" "[3, 1]" no_records "[2, 1, 2]" False]
  by (simp add: indices_ok_def numeral_2_eq_2 numeral_3_eq_3)
section \<open>What is assigned\<close>

text \<open>An element converted to a type.\<close>

fun promote :: "platform \<Rightarrow> glish_type \<Rightarrow> elem \<Rightarrow> elem" where
  "promote P TYPE_BOOL e = BoolE (to_bool e)"
| "promote P TYPE_BYTE e = ByteE (to_byte P e)"
| "promote P TYPE_SHORT e = ShortE (to_short P e)"
| "promote P TYPE_INT e = IntE (to_int P e)"
| "promote P TYPE_FLOAT e = FloatE (to_fp float_format e)"
| "promote P TYPE_DOUBLE e = DoubleE (to_fp double_format e)"
| "promote P TYPE_COMPLEX e = ComplexE (to_cpx float_format e)"
| "promote P TYPE_DCOMPLEX e = DcomplexE (to_cpx double_format e)"
| "promote P _ e = e"

lemma fp_cast_ok_id: "fp_ok F x \<Longrightarrow> fp_cast F x = x"
  by (cases x) (auto simp: round_to_representable)

lemma promote_own_type:
  assumes "vec_ok a" and "vec_elem a k = Some e"
  shows "promote P (vec_type a) e = e"
  using assms by (cases a) (auto simp: to_byte_def to_short_def to_int_def fp_cast_ok_id split: if_splits)

lemma max_numeric_type_numeric: "numeric_type (max_numeric_type t1 t2)"
  by (simp add: max_numeric_type_def numeric_type_def)

text \<open>The elements of a vector made of a list, by the type of the list.\<close>

lemma polymorph_to_ok:
  assumes "\<exists>c. m = Return (c, Some (map conv (spread (Array a) (vec_length a))))" and num: "numeric_type (vec_type a)"
    and mk: "\<And>xs. vec_length (mk xs) = length xs" "\<And>xs. vec_type (mk xs) = T" "\<And>xs k. k < length xs \<Longrightarrow> vec_elem (mk xs) k = Some (E (xs ! k))"
    and ok: "\<And>es. vec_ok (mk (map conv es))" and p: "\<And>e. promote P T e = E (conv e)"
  shows "\<exists>b. polymorph_to m mk = Return b \<and> vec_type b = T \<and> vec_length b = vec_length a \<and> vec_ok b
    \<and> (\<forall>k < vec_length a. vec_elem b k = map_option (promote P T) (vec_elem a k))"
proof -
  have "vec_elem (mk (map conv (spread (Array a) (vec_length a)))) k = map_option (promote P T) (vec_elem a k)" if "k < vec_length a" for k
  proof -
    have "elem_at (Array a) k = the (vec_elem a k)" using that by (cases "vec_length a = 1") (auto simp: elem_at_def)
    then show ?thesis using that vec_elem_the [OF num that] by (cases "vec_elem a k") (simp_all add: mk(3) p)
  qed
  then show ?thesis using assms(1) ok by (auto simp: polymorph_to_def mk(1,2))
qed

lemma Polymorph_ok:
  assumes "numeric_type (vec_type a)" and "vec_ok a" and "numeric_type t"
  shows "\<exists>b. Polymorph P t a = Return b \<and> vec_type b = t \<and> vec_length b = vec_length a \<and> vec_ok b
    \<and> (\<forall>k < vec_length a. vec_elem b k = map_option (promote P t) (vec_elem a k))"
proof (cases "vec_type a = t")
  case True
  have "vec_elem a k = map_option (promote P t) (vec_elem a k)" for k
    using promote_own_type [OF assms(2)] True by (cases "vec_elem a k") auto
  then show ?thesis using True assms(2) by (auto simp: Polymorph_def)
next
  case ne: False
  let ?v = "\<lparr>kern = Array a, attributes = None :: unit option\<rparr>"
  have v: "IsNumeric ?v" "kern_ok (kern ?v)" using assms by (simp_all add: IsNumeric_def)
  note c = coercions_ok [OF v disjI2 [OF refl], simplified]
  have cb: "\<exists>c. CoerceToBoolArray ?v (vec_length a) = Return (c, Some (map to_bool (spread (Array a) (vec_length a))))"
    using coerce_array_ok [OF v disjI2 [OF refl] conv_ok_same(1)] by (simp add: CoerceToBoolArray_def)
  have t: "t \<in> numeric_types" using assms(3) by (simp add: numeric_type_def)
  have x: "vec_ok (FloatVec (map (to_fp float_format) es))" "vec_ok (DoubleVec (map (to_fp double_format) es))"
    "vec_ok (ComplexVec (map (to_cpx float_format) es))" "vec_ok (DcomplexVec (map (to_cpx double_format) es))" for es
    by (auto simp: to_fp_ok to_cpx_ok)
  have ib: ?thesis if "t = TYPE_INT" "a = BoolVec bs" for bs
    using that by (auto simp: Polymorph_def to_int_def of_bool_def intro!: exI [of _ "IntVec (map of_bool bs)"])
  consider "t = TYPE_BOOL" | "t = TYPE_BYTE" | "t = TYPE_SHORT" | "t = TYPE_INT" | "t = TYPE_FLOAT" | "t = TYPE_DOUBLE" | "t = TYPE_COMPLEX" | "t = TYPE_DCOMPLEX"
    using t by blast
  then show ?thesis
  proof cases
    case 1
    with ne polymorph_to_ok [OF cb assms(1), where mk = BoolVec and T = TYPE_BOOL and E = BoolE and P = P] show ?thesis by (simp add: Polymorph_def)
  next
    case 2
    with ne polymorph_to_ok [OF c(1) [of P] assms(1), where mk = ByteVec and T = TYPE_BYTE and E = ByteE and P = P] show ?thesis by (simp add: Polymorph_def)
  next
    case 3
    with ne polymorph_to_ok [OF c(2) [of P] assms(1), where mk = ShortVec and T = TYPE_SHORT and E = ShortE and P = P] show ?thesis by (simp add: Polymorph_def)
  next
    case 4
    show ?thesis
    proof (cases "\<exists>bs. a = BoolVec bs")
      case True
      then show ?thesis using ib 4 by blast
    next
      case False
      then have "Polymorph P t a = polymorph_to (CoerceToIntArray P ?v (vec_length a)) IntVec" using ne 4 by (cases a) (simp_all add: Polymorph_def)
      then show ?thesis using 4 polymorph_to_ok [OF c(3) [of P] assms(1), where mk = IntVec and T = TYPE_INT and E = IntE and P = P] by simp
    qed
  next
    case 5
    with ne x polymorph_to_ok [OF c(4) assms(1), where mk = FloatVec and T = TYPE_FLOAT and E = FloatE and P = P] show ?thesis by (simp add: Polymorph_def)
  next
    case 6
    with ne x polymorph_to_ok [OF c(5) assms(1), where mk = DoubleVec and T = TYPE_DOUBLE and E = DoubleE and P = P] show ?thesis by (simp add: Polymorph_def)
  next
    case 7
    with ne x polymorph_to_ok [OF c(6) assms(1), where mk = ComplexVec and T = TYPE_COMPLEX and E = ComplexE and P = P] show ?thesis by (simp add: Polymorph_def)
  next
    case 8
    with ne x polymorph_to_ok [OF c(7) assms(1), where mk = DcomplexVec and T = TYPE_DCOMPLEX and E = DcomplexE and P = P] show ?thesis by (simp add: Polymorph_def)
  qed
qed
lemma store_loop_ok:
  assumes "length ys = length ixs" and "\<And>i. i \<in> set ixs \<Longrightarrow> 1 \<le> i \<and> i \<le> int (length xs)" and "distinct ixs"
  shows "\<exists>zs. store_loop xs ixs ys = Return zs \<and> length zs = length xs \<and> set zs \<subseteq> set xs \<union> set ys
    \<and> (\<forall>j < length ixs. zs ! nat (ixs ! j - 1) = ys ! j) \<and> (\<forall>k < length xs. int k + 1 \<notin> set ixs \<longrightarrow> zs ! k = xs ! k)"
  using assms
proof (induction ixs arbitrary: xs ys)
  case (Cons i ixs)
  obtain y ys' where y: "ys = y # ys'" using Cons.prems(1) by (cases ys) simp_all
  have i: "1 \<le> i" "i \<le> int (length xs)" using Cons.prems(2) [of i] by simp_all
  let ?xs = "xs[nat (i - 1) := y]"
  have "\<And>j. j \<in> set ixs \<Longrightarrow> 1 \<le> j \<and> j \<le> int (length ?xs)" using Cons.prems(2) by simp
  from Cons.IH [OF _ this, of ys'] obtain zs where z: "store_loop ?xs ixs ys' = Return zs" "length zs = length xs" "set zs \<subseteq> set ?xs \<union> set ys'"
    "\<And>j. j < length ixs \<Longrightarrow> zs ! nat (ixs ! j - 1) = ys' ! j" "\<And>k. k < length xs \<Longrightarrow> int k + 1 \<notin> set ixs \<Longrightarrow> zs ! k = ?xs ! k"
    using Cons.prems(1,3) y by auto
  have "zs ! nat (i - 1) = y" using z(5) [of "nat (i - 1)"] i Cons.prems(3) by simp
  then have "\<forall>j < length (i # ixs). zs ! nat ((i # ixs) ! j - 1) = ys ! j" using z(4) by (auto simp: y nth_Cons split: nat.split)
  moreover have "\<forall>k < length xs. int k + 1 \<notin> set (i # ixs) \<longrightarrow> zs ! k = xs ! k" using z(5) i by (auto simp: nth_list_update)
  moreover have "set zs \<subseteq> set xs \<union> set ys" using z(3) set_update_subset_insert [of xs "nat (i - 1)" y] by (auto simp: y)
  ultimately show ?case using z(1,2) i by (auto simp: y)
qed simp

text \<open>What an assignment to the positions \<open>ixs\<close> leaves: the new elements there, the old ones elsewhere, and zeros where the vector grew.\<close>

definition assigned :: "platform \<Rightarrow> vec \<Rightarrow> int list \<Rightarrow> (nat \<Rightarrow> elem) \<Rightarrow> nat \<Rightarrow> vec \<Rightarrow> bool" where
  "assigned P a ixs e n c \<longleftrightarrow> vec_length c = n \<and> vec_ok c
    \<and> (\<forall>j < length ixs. vec_elem c (nat (ixs ! j - 1)) = Some (promote P (vec_type c) (e j)))
    \<and> (\<forall>k < n. int k + 1 \<notin> set ixs \<longrightarrow> vec_elem c k = Some (promote P (vec_type c) (if k < vec_length a then the (vec_elem a k) else BoolE False)))"

lemma store_in_ok:
  assumes m: "\<exists>c. m = Return (c, Some (map conv (spread (Array b) (length ixs))))"
    and ixs: "distinct ixs" "\<forall>i \<in> set ixs. 1 \<le> i \<and> i \<le> int n" "vec_length a \<le> n"
    and a: "a = mk xs" "vec_ok a" and mk: "\<And>xs. vec_length (mk xs) = length xs" "\<And>xs. vec_type (mk xs) = T" "\<And>xs k. k < length xs \<Longrightarrow> vec_elem (mk xs) k = Some (E (xs ! k))"
    and ok: "\<And>zs. vec_ok (mk zs) \<longleftrightarrow> (\<forall>z \<in> set zs. good z)" "\<And>e. good (conv e)" and p: "\<And>e. promote P T e = E (conv e)" and z: "conv (BoolE False) = z"
  shows "\<exists>c. store_in z mk xs n ixs m = Return c \<and> vec_type c = T \<and> assigned P a ixs (elem_at (Array b)) n c"
proof -
  let ?ys = "map conv (spread (Array b) (length ixs))" and ?xs = "grow_zero z n xs"
  have l: "length ?xs = n" using ixs(3) by (simp add: grow_zero_def a mk(1))
  obtain zs where zs: "store_loop ?xs ixs ?ys = Return zs" "length zs = n" "set zs \<subseteq> set ?xs \<union> set ?ys"
    "\<And>j. j < length ixs \<Longrightarrow> zs ! nat (ixs ! j - 1) = ?ys ! j" "\<And>k. k < n \<Longrightarrow> int k + 1 \<notin> set ixs \<Longrightarrow> zs ! k = ?xs ! k"
    using store_loop_ok [of ?ys ixs ?xs] ixs(1,2) l by auto
  have "good x" if "x \<in> set zs" for x
    using zs(3) that a ok z ok(2) [of "BoolE False"] by (auto simp: grow_zero_def)
  moreover have "vec_elem (mk zs) (nat (ixs ! j - 1)) = Some (promote P T (elem_at (Array b) j))" if j: "j < length ixs" for j
  proof -
    have "nat (ixs ! j - 1) < n" using ixs(2) nth_mem [OF j] by auto
    then show ?thesis using zs(2) zs(4) [OF j] j by (simp add: mk(3) p)
  qed
  moreover have "vec_elem (mk zs) k = Some (promote P T (if k < vec_length a then the (vec_elem a k) else BoolE False))" if k: "k < n" "int k + 1 \<notin> set ixs" for k
  proof (cases "k < vec_length a")
    case True
    then have e: "vec_elem a k = Some (E (xs ! k))" by (simp add: a mk)
    have "promote P T (E (xs ! k)) = E (xs ! k)" using promote_own_type [OF a(2) e] by (simp add: a(1) mk(2))
    then show ?thesis using zs(5) [OF k] zs(2) k True e by (simp add: mk(3) grow_zero_def nth_append a(1) mk(1))
  next
    case False
    then show ?thesis using zs(5) [OF k] zs(2) k by (simp add: mk(3) grow_zero_def nth_append p z a(1) mk(1))
  qed
  ultimately show ?thesis using m zs(1,2) ok(1) by (auto simp: store_in_def assigned_def mk(1,2))
qed

lemma AssignNumbers_ok:
  assumes num: "numeric_type (vec_type a)" and t: "vec_type b = vec_type a" and ok: "vec_ok a" "vec_ok b"
    and ixs: "distinct ixs" "\<forall>i \<in> set ixs. 1 \<le> i \<and> i \<le> int n" "vec_length a \<le> n" and len: "vec_length b = 1 \<or> vec_length b = length ixs"
  shows "\<exists>c. AssignNumbers P a ixs b (length ixs) n = Return c \<and> vec_type c = vec_type a \<and> assigned P a ixs (elem_at (Array b)) n c"
proof -
  let ?v = "\<lparr>kern = Array b, attributes = None :: unit option\<rparr>"
  have v: "IsNumeric ?v" "kern_ok (kern ?v)" "Length ?v = 1 \<or> Length ?v = length ixs" using num t ok(2) len by (simp_all add: IsNumeric_def)
  note c = coercions_ok [OF v, simplified]
  have cb: "\<exists>c. CoerceToBoolArray ?v (length ixs) = Return (c, Some (map to_bool (spread (Array b) (length ixs))))"
    using coerce_array_ok [OF v conv_ok_same(1)] by (simp add: CoerceToBoolArray_def)
  note S = store_in_ok [OF _ ixs _ ok(1)]
  have z: "to_byte P (BoolE False) = 0" "to_short P (BoolE False) = 0" "to_int P (BoolE False) = 0" "fp_of_int F 0 = Zero False" for F
    by (simp_all add: to_byte_def to_short_def to_int_def fp_of_int_def)
  show ?thesis
  proof (cases a)
    case (BoolVec xs)
    show ?thesis using S [where mk = BoolVec and T = TYPE_BOOL and E = BoolE and good = "\<lambda>_. True" and P = P and z = "False", OF cb BoolVec] BoolVec by (simp add: AssignNumbers_def)
  next
    case (ByteVec xs)
    show ?thesis using S [where mk = ByteVec and T = TYPE_BYTE and E = ByteE and good = "\<lambda>_. True" and P = P and z = "0", OF c(1) [of P] ByteVec] ByteVec z by (simp add: AssignNumbers_def)
  next
    case (ShortVec xs)
    show ?thesis using S [where mk = ShortVec and T = TYPE_SHORT and E = ShortE and good = "\<lambda>_. True" and P = P and z = "0", OF c(2) [of P] ShortVec] ShortVec z by (simp add: AssignNumbers_def)
  next
    case (IntVec xs)
    show ?thesis using S [where mk = IntVec and T = TYPE_INT and E = IntE and good = "\<lambda>_. True" and P = P and z = "0", OF c(3) [of P] IntVec] IntVec z by (simp add: AssignNumbers_def)
  next
    case (FloatVec xs)
    show ?thesis using S [where mk = FloatVec and T = TYPE_FLOAT and E = FloatE and good = "fp_ok float_format" and P = P and z = "Zero False", OF c(4) FloatVec] FloatVec z
      by (simp add: AssignNumbers_def to_fp_ok)
  next
    case (DoubleVec xs)
    show ?thesis using S [where mk = DoubleVec and T = TYPE_DOUBLE and E = DoubleE and good = "fp_ok double_format" and P = P and z = "Zero False", OF c(5) DoubleVec] DoubleVec z
      by (simp add: AssignNumbers_def to_fp_ok)
  next
    case (ComplexVec xs)
    show ?thesis using S [where mk = ComplexVec and T = TYPE_COMPLEX and E = ComplexE and good = "\<lambda>z. fp_ok float_format (fst z) \<and> fp_ok float_format (snd z)" and P = P and z = "(Zero False, Zero False)", OF c(6) ComplexVec] ComplexVec z
      by (simp add: AssignNumbers_def to_cpx_ok)
  next
    case (DcomplexVec xs)
    show ?thesis using S [where mk = DcomplexVec and T = TYPE_DCOMPLEX and E = DcomplexE and good = "\<lambda>z. fp_ok double_format (fst z) \<and> fp_ok double_format (snd z)" and P = P and z = "(Zero False, Zero False)", OF c(7) DcomplexVec] DcomplexVec z
      by (simp add: AssignNumbers_def to_cpx_ok)
  qed (use num in \<open>simp add: numeric_type_def\<close>)
qed
lemma range_loop_max:
  assumes "\<forall>i \<in> set is. 1 \<le> i"
  shows "\<exists>mn'. range_loop ix0 is mx mn = Inr (fold max is mx, mn')"
  using assms
proof (induction "is" arbitrary: mx mn)
  case (Cons i "is")
  have "(if i > mx then i else mx) = max i mx" by auto
  then show ?case using Cons by auto
qed simp

lemma IndexRange_ok:
  assumes "\<forall>i \<in> set ixs. 1 \<le> i"
  shows "\<exists>mn. IndexRange ixs = Inr (Max (insert 0 (set ixs)), mn)"
proof (cases ixs)
  case (Cons i "is")
  have "Max (insert 0 (set ixs)) = fold max ixs 0" using Max.set_eq_fold [of 0 ixs] by simp
  then show ?thesis using range_loop_max [OF assms, of i 0 "last ixs"] by (simp add: IndexRange_def Cons)
qed (simp add: IndexRange_def)

lemma AssignAt_numbers:
  assumes "numeric_type (vec_type a)" and "IndexRange ixs = Inr (mx, mn)"
  shows "AssignAt P a ixs b m = then_do (AssignNumbers P a ixs b m (max (vec_length a) (nat mx))) (\<lambda>c. Return (Stored c, None))"
  using assms by (cases a) (simp_all add: AssignAt_def numeric_type_def Let_def)

lemma promote_twice: "vec_ok b \<Longrightarrow> vec_type b = T \<Longrightarrow> vec_elem b k = Some e \<Longrightarrow> promote P T e = e"
  using promote_own_type by blast

lemma promoted_elem_at:
  assumes "numeric_type (vec_type b)" and "vec_length b' = vec_length b" and "\<forall>k < vec_length b. vec_elem b' k = map_option (promote P T) (vec_elem b k)"
    and "vec_ok b'" and "vec_type b' = T" and "vec_length b = 1 \<or> j < vec_length b"
  shows "promote P T (elem_at (Array b') j) = promote P T (elem_at (Array b) j)"
proof -
  let ?j = "if vec_length b = 1 then 0 else j"
  have j: "?j < vec_length b" using assms(6) by auto
  then have "vec_elem b' ?j = Some (promote P T (the (vec_elem b ?j)))" using assms(3) vec_elem_the [OF assms(1) j] by (cases "vec_elem b ?j") auto
  moreover from promote_twice [OF assms(4,5) this] have "promote P T (promote P T (the (vec_elem b ?j))) = promote P T (the (vec_elem b ?j))" .
  ultimately show ?thesis by (simp add: elem_at_def assms(2))
qed

lemma base_pos_array: "base_pos (Array c) = (\<lambda>i. nat (i - 1))"
  by (rule ext) simp

lemma vec_pick_shape: "vec_type (vec_pick c ks) = vec_type c" "vec_length (vec_pick c ks) = length ks"
  by (cases c; simp)+

lemma vec_pick_elem:
  assumes "numeric_type (vec_type c)" and "j < length ks" and "ks ! j < vec_length c"
  shows "elem_at (Array (vec_pick c ks)) j = the (vec_elem c (ks ! j))"
proof -
  have z: "length ks = 1 \<Longrightarrow> j = 0" using assms(2) by simp
  show ?thesis using assms z by (cases c) (auto simp: elem_at_def numeric_type_def)
qed


section \<open>Gaps between strings\<close>

text \<open>
  C39: An assignment of two strings behind the end of a vector of strings leaves null pointers between the two
  positions, since the vector is filled with empty strings only before the first of them: a later copy of
  the vector reads through these.
\<close>

theorem string_gap_null:
  assumes "int (length xs) < i" and "i < k" and "k < j"
  shows "\<exists>zs. AssignArrayElements P (StringVec xs) [i, j] (StringVec [s, t]) = Return (StoredStrings zs, None) \<and> length zs = nat j
    \<and> zs ! nat (i - 1) = Some s \<and> zs ! nat (j - 1) = Some t \<and> zs ! nat (k - 1) = None
    \<and> (\<forall>q. int (length xs) \<le> int q \<and> int q < i - 1 \<longrightarrow> zs ! q = Some [])"
proof -
  let ?n = "length xs"
  have r: "IndexRange [i, j] = Inr (j, i)" using assms by (simp add: IndexRange_def)
  have m: "max ?n (nat j) = nat j" using assms by simp
  have c: "CoerceToStringArray \<lparr>kern = Array (StringVec [s, t]), attributes = None :: unit option\<rparr> 2 = Return (False, Some [s, t])"
    by (simp add: CoerceToStringArray_def)
  define zs where "zs = take ?n (grow_zero None (nat j) (map Some xs)) @ replicate (nat i - ?n) (Some []) @ drop (nat i) (grow_zero None (nat j) (map Some xs))"
  have zs: "zs = map Some xs @ replicate (nat i - ?n) (Some []) @ replicate (nat j - nat i) None" using assms by (simp add: zs_def grow_zero_def)
  have l: "length zs = nat j" using assms by (simp add: zs)
  have "AssignStrings (map Some xs) [i, j] [s, t] (nat j) i = store_loop zs [i, j] [Some s, Some t]" using assms by (simp add: AssignStrings_def zs_def Let_def)
  also have "\<dots> = Return (zs[nat (i - 1) := Some s, nat (j - 1) := Some t])" using assms l by simp
  finally have "AssignArrayElements P (StringVec xs) [i, j] (StringVec [s, t]) = Return (StoredStrings (zs[nat (i - 1) := Some s, nat (j - 1) := Some t]), None)"
    using m r c by (simp add: AssignArrayElements_def AssignAt_def compatible_types_def numeric_type_def Polymorph_def numeral_2_eq_2)
  moreover have "zs ! nat (k - 1) = None"
  proof -
    have "\<not> nat (k - 1) < ?n" "\<not> nat (k - 1) - ?n < nat i - ?n" "nat (k - 1) - ?n - (nat i - ?n) < nat j - nat i" using assms by arith+
    then show ?thesis unfolding zs by (simp only: nth_append nth_replicate length_replicate length_map if_False)
  qed
  moreover have "zs ! q = Some []" if "?n \<le> q" "int q < i - 1" for q
  proof -
    have "\<not> q < ?n" "q - ?n < nat i - ?n" using that by arith+
    then show ?thesis unfolding zs by (simp only: nth_append nth_replicate length_replicate length_map if_False if_True)
  qed
  ultimately show ?thesis using assms l by (auto simp: nth_list_update)
qed

theorem string_gap_null_witness:
  "\<exists>zs. AssignArrayElements example_platform (StringVec [''a'']) [3, 5] (StringVec [''b'', ''c'']) = Return (StoredStrings zs, None) \<and> zs ! 3 = None"
  using string_gap_null [of "[''a'']" 3 4 5 example_platform "''b''" "''c''"] by auto
section \<open>Boolean indices\<close>

lemma true_positions_filter:
  "true_positions (int i) bs = map (\<lambda>k. int k + 1) (filter (\<lambda>k. bs ! (k - i)) [i..<i + length bs])"
proof (induction bs arbitrary: i)
  case (Cons b bs)
  have "filter (\<lambda>k. (b # bs) ! (k - i)) [Suc i..<Suc i + length bs] = filter (\<lambda>k. bs ! (k - Suc i)) [Suc i..<Suc i + length bs]"
    by (rule filter_cong) (auto simp: nth_Cons')
  then show ?case using Cons.IH [of "Suc i"] by (cases b) (simp_all add: upt_conv_Cons add.commute del: upt_Suc)
qed simp

lemmas true_positions_all = true_positions_filter [of 0, simplified]

text \<open>
  C24: A boolean index with an element for every element of the vector selects exactly the elements at its true
  positions, in the order of the vector; one of another length is refused.
\<close>

theorem mask_subscript:
  assumes v: "kern v = Array a \<or> kern v = SubVec a js" "kern_ok (kern v)" and m: "kern index = Array (BoolVec bs)"
  shows "subscript P R v index p = Return (if length bs \<noteq> Length v then Refused BadIndex
    else Selected \<lparr>kern = Array (vec_pick a (map (\<lambda>k. base_pos (kern v) (int k + 1)) (filter ((!) bs) [0..<length bs]))), attributes = Option.bind (attributes v) (print_precision R)\<rparr>)"
proof -
  have g: "GenerateIndices P (Length v) index True = Return (if length bs \<noteq> Length v then None else Some (true_positions 0 bs))"
    using m by (simp add: GenerateIndices_def IsNumeric_def numeric_type_def)
  have s: "subscript P R v index p = then_do (GenerateIndices P (Length v) index True)
    (\<lambda>ixs. case ixs of None \<Rightarrow> Return (Refused BadIndex) | Some ixs \<Rightarrow> ArrayRef R v ixs p)"
    using m by (simp add: subscript_def)
  show ?thesis
  proof (cases "length bs = Length v")
    case True
    have "find (\<lambda>i. i < 1 \<or> i > int (Length v)) (true_positions 0 bs) = None" using True by (auto simp: find_None_iff true_positions_all)
    then show ?thesis using subscript_bounds [OF v, of R "true_positions 0 bs" p] True by (simp add: s g true_positions_all comp_def)
  qed (simp add: s g)
qed

theorem mask_subscript_witness:
  "subscript example_platform no_records (plain (SubVec (IntVec [4, 5, 6]) [3, 1, 2])) (plain (Array (BoolVec [True, False, True]))) False
    = Return (Selected \<lparr>kern = Array (IntVec [6, 5]), attributes = None\<rparr>)"
  using mask_subscript [of "plain (SubVec (IntVec [4, 5, 6]) [3, 1, 2])" "IntVec [4, 5, 6]" "[3, 1, 2]" "plain (Array (BoolVec [True, False, True]))" "[True, False, True]" example_platform no_records False]
  by (simp add: indices_ok_def upt_rec numeral_2_eq_2 numeral_3_eq_3)

end
