(* ===== verification/Glish_Builtin.thy ===== *)
theory Glish_Builtin
  imports Glish_Subscript
begin

text \<open>
  Built-in functions on vectors (\<open>glish/BuiltIn.cc\<close>) and the range operator (\<open>glish/Expr.cc\<close>): ranges of
  integers, sums, products, lengths and replication. Arrays are filled through loops that may leave them,
  which is the outcome \<open>Stop OutOfBounds\<close>; machine integers are kept at their width.
\<close>

section \<open>Results\<close>

datatype builtin_failure =
    NonNumericRange | NonScalarRange | EmptyConversion | ArgumentNotNumeric nat
  | NonNumericTimes | UnequalLengths | NegativeTimes

datatype 'a builtin_result = Gives "'a ivalue" | Fails builtin_failure

definition fresh :: "vec \<Rightarrow> 'a ivalue" where
  "fresh a = \<lparr>kern = Array a, attributes = None\<rparr>"

section \<open>Ranges\<close>

text \<open>
  The integer at a position of a numeric value, with the error flag. The case of strings is left out: every
  caller here has tested that the value is numeric.
\<close>

definition vec_IntVal :: "platform \<Rightarrow> vec \<Rightarrow> int \<Rightarrow> 32 word \<times> bool" where
  "vec_IntVal P a n = (if n < 1 \<or> n > int (vec_length a) then (0, True)
     else case vec_elem a (nat (n - 1)) of Some e \<Rightarrow> (to_int P e, False) | None \<Rightarrow> (0, True))"

definition IntVal :: "platform \<Rightarrow> 'a ivalue \<Rightarrow> int \<Rightarrow> (32 word \<times> bool) run" where
  "IntVal P v n = (if n < 1 \<or> n > int (Length v) then Return (0, True)
     else case kern v of
       Array a \<Rightarrow> Return (vec_IntVal P a n)
     | SubVec a js \<Rightarrow> then_do (TranslateIndex a js (nat (n - 1))) (\<lambda>off. case off of
           None \<Rightarrow> Return (0, True)
         | Some k \<Rightarrow> Return (fst (vec_IntVal P a (k + 1)), False))
     | Failures _ \<Rightarrow> Return (0, False)
     | _ \<Rightarrow> Return (0, True))"

text \<open>
  The two loops, given the elements that are left of the array; the counter wraps around. An array of a
  negative length has no elements.
\<close>

fun range_fill :: "bool \<Rightarrow> nat \<Rightarrow> 32 word \<Rightarrow> 32 word \<Rightarrow> (32 word list) run" where
  "range_fill down left i stop =
    (if (if down then sint i < sint stop else sint i > sint stop)
     then if left = 0 then Return [] else Stop Uninitialised
     else case left of
         0 \<Rightarrow> Stop OutOfBounds
       | Suc left' \<Rightarrow> then_do (range_fill down left' (if down then i - 1 else i + 1) stop) (\<lambda>r. Return (i # r)))"

definition RangeExpr_Eval :: "platform \<Rightarrow> 'a ivalue \<Rightarrow> 'a ivalue \<Rightarrow> 'a builtin_result run" where
  "RangeExpr_Eval P l r =
    (if \<not> IsNumeric l \<or> \<not> IsNumeric r then Return (Fails NonNumericRange)
     else if Length l > 1 \<or> Length r > 1 then Return (Fails NonScalarRange)
     else then_do (IntVal P r 1) (\<lambda>(stop, err). then_do (IntVal P l 1) (\<lambda>(start, err').
       if err \<or> err' then Return (Fails EmptyConversion)
       else let direction = (if sint start > sint stop then - 1 else 1 :: int);
                num_values = (stop - start) * word_of_int direction + 1
            in then_do (range_fill (direction < 0) (nat (sint num_values)) start stop) (\<lambda>xs. Return (Gives (fresh (IntVec xs)))))))"

section \<open>Sums and products\<close>

fun AllNumeric :: "bool \<Rightarrow> nat \<Rightarrow> glish_type \<Rightarrow> 'a ivalue list \<Rightarrow> nat + glish_type" where
  "AllNumeric strings_okay i max_type [] = Inr max_type"
| "AllNumeric strings_okay i max_type (v # vs) =
    (let t = VecRefDeref_type (kern v) in
     if numeric_type t then AllNumeric strings_okay (i + 1) (max_numeric_type max_type t) vs
     else if strings_okay \<and> t = TYPE_STRING then AllNumeric strings_okay (i + 1) max_type vs
     else Inl (i + 1))"

text \<open>The loop over the arguments, with the loop over the elements of each.\<close>

fun args_loop :: "('a ivalue \<Rightarrow> nat \<Rightarrow> (bool \<times> 'x list option) run) \<Rightarrow> ('x \<Rightarrow> 'x \<Rightarrow> 'x) \<Rightarrow> 'x \<Rightarrow> 'a ivalue list \<Rightarrow> 'x run" where
  "args_loop coerce f acc [] = Return acc"
| "args_loop coerce f acc (v # vs) = then_do (coerce v (Length v)) (\<lambda>(is_copy, xs). case xs of
     None \<Rightarrow> if Length v = 0 then args_loop coerce f acc vs else Stop NullPointer
   | Some xs \<Rightarrow> args_loop coerce f (foldl f acc xs) vs)"

text \<open>The assignment operators \<open>+=\<close> and \<open>*=\<close> of complex numbers work on each part.\<close>

definition cpx_asgnop :: "(fp \<Rightarrow> fp \<Rightarrow> fp) \<Rightarrow> cpx \<Rightarrow> cpx \<Rightarrow> cpx" where
  "cpx_asgnop f x y = (f (fst x) (fst y), f (snd x) (snd y))"

definition SumBuiltIn :: "'a ivalue list \<Rightarrow> 'a builtin_result run" where
  "SumBuiltIn vs = (case AllNumeric False 0 TYPE_STRING vs of
     Inl i \<Rightarrow> Return (Fails (ArgumentNotNumeric i))
   | Inr max_type \<Rightarrow>
       if max_type = TYPE_COMPLEX \<or> max_type = TYPE_DCOMPLEX
       then then_do (args_loop CoerceToDcomplexArray (cpx_asgnop (fp_add double_format)) (Zero False, Zero False) vs) (\<lambda>x. Return (Gives (fresh (DcomplexVec [x]))))
       else then_do (args_loop CoerceToDoubleArray (fp_add double_format) (Zero False) vs) (\<lambda>x. Return (Gives (fresh (DoubleVec [x])))))"

definition ProdBuiltIn :: "'a ivalue list \<Rightarrow> 'a builtin_result run" where
  "ProdBuiltIn vs = (case AllNumeric False 0 TYPE_STRING vs of
     Inl i \<Rightarrow> Return (Fails (ArgumentNotNumeric i))
   | Inr max_type \<Rightarrow>
       if max_type = TYPE_COMPLEX \<or> max_type = TYPE_DCOMPLEX
       then then_do (args_loop CoerceToDcomplexArray (cpx_asgnop (fp_mul double_format)) (Number 1, Zero False) vs) (\<lambda>x. Return (Gives (fresh (DcomplexVec [x]))))
       else if numeric_type max_type
       then then_do (args_loop CoerceToDoubleArray (fp_mul double_format) (Number 1) vs) (\<lambda>x. Return (Gives (fresh (DoubleVec [x]))))
       else Stop (GlishFatal ''bad type in ProdBuiltIn::DoCall()''))"

definition LengthBuiltIn :: "'a ivalue list \<Rightarrow> 'a ivalue" where
  "LengthBuiltIn vs = fresh (IntVec (map (\<lambda>v. of_nat (Length v)) vs))"

section \<open>Replication\<close>

text \<open>Writing an element several times into what is left of the array, and the loops over the elements.\<close>

fun put_times :: "nat \<Rightarrow> 'x \<Rightarrow> nat \<Rightarrow> ('x list) run" where
  "put_times 0 x left = Return []"
| "put_times (Suc t) x left = (if left = 0 then Stop OutOfBounds else then_do (put_times t x (left - 1)) (\<lambda>r. Return (x # r)))"

fun rep_each :: "'x list \<Rightarrow> int list \<Rightarrow> nat \<Rightarrow> ('x list) run" where
  "rep_each xs [] left = Return []"
| "rep_each [] (t # ts) left = Stop OutOfBounds"
| "rep_each (x # xs) (t # ts) left = then_do (put_times (nat t) x left) (\<lambda>r. then_do (rep_each xs ts (left - nat t)) (\<lambda>s. Return (r @ s)))"

fun put_all :: "'x list \<Rightarrow> nat \<Rightarrow> ('x list) run" where
  "put_all [] left = Return []"
| "put_all (x # xs) left = (if left = 0 then Stop OutOfBounds else then_do (put_all xs (left - 1)) (\<lambda>r. Return (x # r)))"

fun rep_whole :: "nat \<Rightarrow> 'x list \<Rightarrow> nat \<Rightarrow> ('x list) run" where
  "rep_whole 0 xs left = Return []"
| "rep_whole (Suc t) xs left = then_do (put_all xs left) (\<lambda>r. then_do (rep_whole t xs (left - length xs)) (\<lambda>s. Return (r @ s)))"

text \<open>
  The three cases: a number for every element, one element, and one number for several elements. Where there is no
  number the first one is read nevertheless. The sum and the product that size the array wrap around.
\<close>

definition rep_list :: "32 word list \<Rightarrow> 'x list \<Rightarrow> ('x list) run" where
  "rep_list ts xs =
    (if length ts > 1 then rep_each xs (map sint ts) (nat (sint (sum_list ts)))
     else case ts of
         [] \<Rightarrow> Stop OutOfBounds
       | t # _ \<Rightarrow>
           if length xs = 1 then put_times (nat (sint t)) (hd xs) (nat (sint t))
           else rep_whole (nat (sint t)) xs (nat (sint (of_nat (length xs) * t))))"

definition rep_vec :: "32 word list \<Rightarrow> vec \<Rightarrow> vec run" where
  "rep_vec ts a = (case a of
     BoolVec xs \<Rightarrow> then_do (rep_list ts xs) (\<lambda>r. Return (BoolVec r))
   | ByteVec xs \<Rightarrow> then_do (rep_list ts xs) (\<lambda>r. Return (ByteVec r))
   | ShortVec xs \<Rightarrow> then_do (rep_list ts xs) (\<lambda>r. Return (ShortVec r))
   | IntVec xs \<Rightarrow> then_do (rep_list ts xs) (\<lambda>r. Return (IntVec r))
   | FloatVec xs \<Rightarrow> then_do (rep_list ts xs) (\<lambda>r. Return (FloatVec r))
   | DoubleVec xs \<Rightarrow> then_do (rep_list ts xs) (\<lambda>r. Return (DoubleVec r))
   | ComplexVec xs \<Rightarrow> then_do (rep_list ts xs) (\<lambda>r. Return (ComplexVec r))
   | DcomplexVec xs \<Rightarrow> then_do (rep_list ts xs) (\<lambda>r. Return (DcomplexVec r))
   | StringVec xs \<Rightarrow> then_do (rep_list ts xs) (\<lambda>r. Return (StringVec r)))"

definition RepBuiltIn :: "platform \<Rightarrow> 'a ivalue \<Rightarrow> 'a ivalue \<Rightarrow> 'a builtin_result run" where
  "RepBuiltIn P element reps =
    (if \<not> IsNumeric reps then Return (Fails NonNumericTimes)
     else if Length reps \<noteq> 1 \<and> Length reps \<noteq> Length element then Return (Fails UnequalLengths)
     else then_do (CoerceToIntArray P reps (Length reps)) (\<lambda>(times_is_copy, ts). case ts of
         None \<Rightarrow> Stop NullPointer
       | Some ts \<Rightarrow>
           if \<exists>t \<in> set ts. sint t < 0 then Return (Fails NegativeTimes)
           else case kern element of
               Array a \<Rightarrow> then_do (rep_vec ts a) (\<lambda>c. Return (Gives (fresh c)))
             | Regexs n \<Rightarrow> then_do (rep_list ts (replicate n ())) (\<lambda>r. Return (Gives \<lparr>kern = Regexs (length r), attributes = None\<rparr>))
             | _ \<Rightarrow> if ts = [] then Stop OutOfBounds else Stop (GlishFatal ''bad type in RepBuiltIn::DoCall()'')))"
section \<open>The range operator\<close>

declare range_fill.simps [simp del]

lemma IntVal_ok:
  assumes "IsNumeric v" and "kern_ok (kern v)" and "Length v = 1"
  shows "IntVal P v 1 = Return (to_int P (elem_at (kern v) 0), False)"
proof (cases "kern v")
  case (Array a)
  then have "vec_elem a 0 = Some (elem_at (kern v) 0)" using assms vec_elem_the [of a 0] by (simp add: IsNumeric_def elem_at_def)
  then show ?thesis using Array assms(3) by (simp add: IntVal_def vec_IntVal_def)
next
  case (SubVec a js)
  then have num: "numeric_type (vec_type a)" and js: "length js = 1" "indices_ok a js" using assms by (simp_all add: IsNumeric_def)
  then obtain j where j: "js = [j]" "1 \<le> j" "j \<le> int (vec_length a)" by (auto simp: length_Suc_conv indices_ok_def)
  have "vec_elem a (nat (j - 1)) = Some (elem_at (kern v) 0)" using vec_elem_the [OF num, of "nat (j - 1)"] j SubVec by (simp add: elem_at_def)
  then show ?thesis using SubVec j by (simp add: IntVal_def vec_IntVal_def TranslateIndex_def)
qed (use assms(1) in \<open>simp_all add: IsNumeric_def numeric_type_def\<close>)

lemma sint_range: "- 2147483648 \<le> sint (w :: 32 word)" "sint (w :: 32 word) \<le> 2147483647"
  using sint_greater_eq [of w] sint_less [of w] by simp_all

lemma sint_wrap: "sint (word_of_int i :: 32 word) = i" if "- 2147483648 \<le> i" "i \<le> 2147483647"
  using that by (simp add: sint_sbintrunc' signed_take_bit_int_eq_self)

lemma sint_step:
  "sint (i :: 32 word) < 2147483647 \<Longrightarrow> sint (i + 1) = sint i + 1"
  "- 2147483648 < sint (i :: 32 word) \<Longrightarrow> sint (i - 1) = sint i - 1"
  using sint_wrap [of "sint i + 1"] sint_wrap [of "sint i - 1"] sint_range [of i] by simp_all

lemma range_count:
  "(j - i) * word_of_int (if sint i > sint j then - 1 else 1) + 1 = (word_of_int (\<bar>sint j - sint i\<bar> + 1) :: 32 word)"
  by (simp add: abs_if)

lemma sint_count:
  assumes "- 2147483648 \<le> a" "a \<le> 2147483647" "- 2147483648 \<le> b" "b \<le> 2147483647"
  shows "nat (sint (word_of_int (\<bar>b - a\<bar> + 1) :: 32 word)) = (if \<bar>b - a\<bar> < 2147483647 then nat (\<bar>b - a\<bar> + 1) else 0)"
proof (cases "\<bar>b - a\<bar> < 2147483647")
  case False
  let ?d = "\<bar>b - a\<bar> + 1"
  have d: "2147483648 \<le> ?d" "?d \<le> 4294967296" using False assms by auto
  have w: "word_of_int (d - 4294967296) = (word_of_int d :: 32 word)" for d by simp
  from d have "sint (word_of_int ?d :: 32 word) = ?d - 4294967296" using sint_wrap [of "?d - 4294967296", unfolded w] by linarith
  then show ?thesis using False d(2) by (simp del: of_int_add)
qed (simp add: sint_wrap del: of_int_add)

lemma range_fill_up:
  assumes "sint stop < 2147483647" and "sint i + int n = sint stop + 1"
  shows "range_fill False n i stop = Return (map word_of_int [sint i..sint stop])"
  using assms
proof (induction n arbitrary: i)
  case (Suc n)
  have "sint (i + 1) = sint i + 1" using sint_step(1) Suc.prems by simp
  then show ?case using Suc.IH [of "i + 1"] Suc.prems by (subst range_fill.simps) (simp add: upto_rec1)
qed (subst range_fill.simps, simp)

lemma range_fill_down:
  assumes "- 2147483648 < sint stop" and "sint i = sint stop + int n - 1"
  shows "range_fill True n i stop = Return (map word_of_int (rev [sint stop..sint i]))"
  using assms
proof (induction n arbitrary: i)
  case (Suc n)
  have i: "sint (i - 1) = sint i - 1" "sint stop \<le> sint i" using sint_step(2) Suc.prems by simp_all
  then have "range_fill True n (i - 1) stop = Return (map word_of_int (rev [sint stop..sint i - 1]))" using Suc.IH [of "i - 1"] Suc.prems by simp
  moreover have "[sint stop..sint i] = [sint stop..sint i - 1] @ [sint i]" using i(2) by (simp add: upto_rec2)
  ultimately show ?case using i(2) by (subst range_fill.simps) simp
qed (subst range_fill.simps, simp)

text \<open>A loop up to the greatest integer, or down to the least one, only ends behind the array.\<close>

lemma range_fill_overrun: "(if down then sint stop = - 2147483648 else sint stop = 2147483647) \<Longrightarrow> range_fill down n i stop = Stop OutOfBounds"
proof (induction n arbitrary: i)
  case (Suc n)
  then show ?case using sint_range [of i] by (subst range_fill.simps) (auto split: if_splits)
qed (subst range_fill.simps, use sint_range in \<open>force simp: not_less split: if_splits\<close>)

text \<open>
  C25: A range between two integers gives all integers between them, in the order of the two, if the last of
  them is not the greatest integer (or the least one, for a range that goes down) and their number fits an
  integer. Otherwise it leaves the array it fills.
\<close>

theorem range_expr_bounds:
  assumes l: "IsNumeric l" "kern_ok (kern l)" "Length l = 1" and r: "IsNumeric r" "kern_ok (kern r)" "Length r = 1"
    and a: "a = sint (to_int P (elem_at (kern l) 0))" and b: "b = sint (to_int P (elem_at (kern r) 0))"
  shows "RangeExpr_Eval P l r =
    (if (if a \<le> b then b < 2147483647 else b > - 2147483648) \<and> \<bar>b - a\<bar> < 2147483647
     then Return (Gives (fresh (IntVec (map word_of_int (if a \<le> b then [a..b] else rev [b..a])))))
     else Stop OutOfBounds)"
proof -
  let ?i = "to_int P (elem_at (kern l) 0)" and ?j = "to_int P (elem_at (kern r) 0)"
  let ?n = "nat (sint ((?j - ?i) * word_of_int (if sint ?i > sint ?j then - 1 else 1) + 1))"
  have ev: "RangeExpr_Eval P l r = then_do (range_fill (a > b) ?n ?i ?j) (\<lambda>xs. Return (Gives (fresh (IntVec xs))))"
    using l r by (simp add: RangeExpr_Eval_def IntVal_ok a b Let_def)
  have n: "?n = (if \<bar>b - a\<bar> < 2147483647 then nat (\<bar>b - a\<bar> + 1) else 0)"
    unfolding range_count using sint_count sint_range a b by metis
  consider "if a \<le> b then b = 2147483647 else b = - 2147483648"
    | "if a \<le> b then b < 2147483647 else b > - 2147483648" "\<bar>b - a\<bar> < 2147483647" | "\<not> \<bar>b - a\<bar> < 2147483647"
    using sint_range [of ?j, folded b] by (cases "a \<le> b"; cases "b = 2147483647"; cases "b = - 2147483648") auto
  then show ?thesis
  proof cases
    case 1
    then show ?thesis using range_fill_overrun [of "a > b" ?j ?n ?i] ev b by (auto split: if_splits)
  next
    case 2
    then have c: "?n = nat (\<bar>b - a\<bar> + 1)" using n by simp
    show ?thesis
    proof (cases "a \<le> b")
      case True
      then have "range_fill False ?n ?i ?j = Return (map word_of_int [a..b])" unfolding c a b using 2 a b by (intro range_fill_up) auto
      then show ?thesis using 2 ev True by simp
    next
      case False
      then have "range_fill True ?n ?i ?j = Return (map word_of_int (rev [b..a]))" unfolding c a b using 2 a b by (intro range_fill_down) auto
      then show ?thesis using 2 ev False by simp
    qed
  next
    case 3
    then have "range_fill (a > b) ?n ?i ?j = Stop OutOfBounds" unfolding n using a b by (subst range_fill.simps) auto
    then show ?thesis using 3 ev by simp
  qed
qed

theorem range_expr_bounds_witness:
  "RangeExpr_Eval example_platform (plain (Array (IntVec [3]))) (plain (SubVec (ShortVec [9, 1]) [2])) = Return (Gives (fresh (IntVec [3, 2, 1])))
    \<and> RangeExpr_Eval example_platform (plain (Array (IntVec [2147483646]))) (plain (Array (IntVec [2147483647]))) = Stop OutOfBounds"
proof
  have n: "IsNumeric (plain (Array (IntVec xs)))" "IsNumeric (plain (SubVec (ShortVec ys) js))" for xs ys js by (simp_all add: IsNumeric_def numeric_type_def)
  have e: "sint (to_int example_platform (elem_at (Array (IntVec [w])) 0)) = sint w" for w by (simp add: elem_at_def to_int_def)
  have s: "sint (to_int example_platform (elem_at (SubVec (ShortVec [9, 1]) [2]) 0)) = 1" by (simp add: elem_at_def to_int_def)
  have u: "map word_of_int (rev [1..3]) = [3, 2, 1 :: 32 word]" by (simp add: upto.simps)
  have m: "sint (2147483646 :: 32 word) = 2147483646" "sint (2147483647 :: 32 word) = 2147483647" by simp_all
  show "RangeExpr_Eval example_platform (plain (Array (IntVec [3]))) (plain (SubVec (ShortVec [9, 1]) [2])) = Return (Gives (fresh (IntVec [3, 2, 1])))"
    using range_expr_bounds [of "plain (Array (IntVec [3]))" "plain (SubVec (ShortVec [9, 1]) [2])" 3 example_platform 1, OF n(1) _ _ n(2)] e [of 3] s u
    by (simp add: indices_ok_def)
  show "RangeExpr_Eval example_platform (plain (Array (IntVec [2147483646]))) (plain (Array (IntVec [2147483647]))) = Stop OutOfBounds"
    using range_expr_bounds [of "plain (Array (IntVec [2147483646]))" "plain (Array (IntVec [2147483647]))" 2147483646 example_platform 2147483647, OF n(1) _ _ n(1)] e m
    by simp
qed
section \<open>Sums and products are folds\<close>

definition numeric_arg :: "'a ivalue \<Rightarrow> bool" where
  "numeric_arg v \<longleftrightarrow> IsNumeric v \<and> kern_ok (kern v)"

definition elements :: "'a ivalue list \<Rightarrow> elem list" where
  "elements vs = concat (map (\<lambda>v. spread (kern v) (Length v)) vs)"

definition complex_arg :: "'a ivalue \<Rightarrow> bool" where
  "complex_arg v \<longleftrightarrow> VecRefDeref_type (kern v) \<in> {TYPE_COMPLEX, TYPE_DCOMPLEX}"

lemma IsNumeric_deref: "IsNumeric v \<longleftrightarrow> numeric_type (VecRefDeref_type (kern v))"
  by (cases "kern v") (auto simp: IsNumeric_def numeric_type_def)

lemma max_numeric_type_complex:
  "max_numeric_type s t \<in> {TYPE_COMPLEX, TYPE_DCOMPLEX} \<longleftrightarrow> s \<in> {TYPE_COMPLEX, TYPE_DCOMPLEX} \<or> t \<in> {TYPE_COMPLEX, TYPE_DCOMPLEX}"
  by (auto simp: max_numeric_type_def)

lemma AllNumeric_ok:
  assumes "\<forall>v \<in> set vs. numeric_arg v"
  shows "\<exists>t. AllNumeric s i m vs = Inr t \<and> (t \<in> {TYPE_COMPLEX, TYPE_DCOMPLEX} \<longleftrightarrow> m \<in> {TYPE_COMPLEX, TYPE_DCOMPLEX} \<or> (\<exists>v \<in> set vs. complex_arg v))
    \<and> (numeric_type t \<longleftrightarrow> numeric_type m \<or> vs \<noteq> [])"
  using assms
proof (induction vs arbitrary: i m)
  case (Cons v vs)
  let ?t = "VecRefDeref_type (kern v)"
  have "numeric_type ?t" using Cons.prems by (simp add: numeric_arg_def IsNumeric_deref)
  then show ?case
    using Cons.IH [of "i + 1" "max_numeric_type m ?t"] Cons.prems max_numeric_type_complex [of m ?t] max_numeric_type_numeric [of m ?t]
    by (auto simp: Let_def complex_arg_def)
qed simp

lemma args_loop_ok:
  assumes "\<And>v. v \<in> set vs \<Longrightarrow> \<exists>c. coerce v (Length v) = Return (c, Some (map conv (spread (kern v) (Length v))))"
  shows "args_loop coerce f acc vs = Return (foldl f acc (map conv (elements vs)))"
  using assms
proof (induction vs arbitrary: acc)
  case (Cons v vs)
  obtain c where "coerce v (Length v) = Return (c, Some (map conv (spread (kern v) (Length v))))" using Cons.prems [of v] by auto
  then show ?case using Cons by (simp add: elements_def)
qed (simp add: elements_def)

lemma args_loop_numeric:
  assumes "\<forall>v \<in> set vs. numeric_arg v"
  shows "args_loop CoerceToDoubleArray f acc vs = Return (foldl f acc (map (to_fp double_format) (elements vs)))"
    and "args_loop CoerceToDcomplexArray g z vs = Return (foldl g z (map (to_cpx double_format) (elements vs)))"
  by (rule args_loop_ok, rule coercions_ok, use assms in \<open>auto simp: numeric_arg_def\<close>)+

text \<open>
  C26: The sum of numeric arguments is the sum of all their elements in order, in double precision and complex
  if one argument is; without arguments it is zero. The product is formed in the same way, each part of
  complex numbers by itself, but without arguments it ends the interpreter.
\<close>

theorem sum_prod_fold:
  assumes "\<forall>v \<in> set vs. numeric_arg v"
  shows "SumBuiltIn vs = Return (Gives (fresh
      (if \<exists>v \<in> set vs. complex_arg v
       then DcomplexVec [foldl (cpx_asgnop (fp_add double_format)) (Zero False, Zero False) (map (to_cpx double_format) (elements vs))]
       else DoubleVec [foldl (fp_add double_format) (Zero False) (map (to_fp double_format) (elements vs))])))
    \<and> ProdBuiltIn vs = (if vs = [] then Stop (GlishFatal ''bad type in ProdBuiltIn::DoCall()'') else Return (Gives (fresh
      (if \<exists>v \<in> set vs. complex_arg v
       then DcomplexVec [foldl (cpx_asgnop (fp_mul double_format)) (Number 1, Zero False) (map (to_cpx double_format) (elements vs))]
       else DoubleVec [foldl (fp_mul double_format) (Number 1) (map (to_fp double_format) (elements vs))]))))"
proof -
  obtain t where t: "AllNumeric False 0 TYPE_STRING vs = Inr t" "t = TYPE_COMPLEX \<or> t = TYPE_DCOMPLEX \<longleftrightarrow> (\<exists>v \<in> set vs. complex_arg v)" "numeric_type t \<longleftrightarrow> vs \<noteq> []"
    using AllNumeric_ok [OF assms, of False 0 TYPE_STRING] by (auto simp: numeric_type_def)
  show ?thesis using t args_loop_numeric [OF assms] by (cases "\<exists>v \<in> set vs. complex_arg v") (auto simp: SumBuiltIn_def ProdBuiltIn_def)
qed

theorem sum_prod_fold_witness:
  "SumBuiltIn [plain (Array (IntVec [])), plain (Array (DoubleVec [Infinite False, Zero True]))] = Return (Gives (fresh (DoubleVec [Infinite False])))
    \<and> ProdBuiltIn ([] :: unit ivalue list) = Stop (GlishFatal ''bad type in ProdBuiltIn::DoCall()'')"
proof
  show "SumBuiltIn [plain (Array (IntVec [])), plain (Array (DoubleVec [Infinite False, Zero True]))] = Return (Gives (fresh (DoubleVec [Infinite False])))"
    using sum_prod_fold [of "[plain (Array (IntVec [])), plain (Array (DoubleVec [Infinite False, Zero True]))]"]
    by (simp add: numeric_arg_def complex_arg_def IsNumeric_def numeric_type_def elements_def spread_def elem_at_def fp_add_def)
  show "ProdBuiltIn ([] :: unit ivalue list) = Stop (GlishFatal ''bad type in ProdBuiltIn::DoCall()'')"
    using sum_prod_fold [of "[] :: unit ivalue list"] by simp
qed
section \<open>Products of complex numbers\<close>

definition finite_fp :: "fp \<Rightarrow> bool" where
  "finite_fp x \<longleftrightarrow> x \<noteq> NaN \<and> \<not> is_infinite x"

lemma foldl_cpx_asgnop: "foldl (cpx_asgnop f) z xs = (foldl f (fst z) (map fst xs), foldl f (snd z) (map snd xs))"
  by (induction xs arbitrary: z) (simp_all add: cpx_asgnop_def)

lemma fp_mul_zero: "is_zero x \<Longrightarrow> finite_fp y \<Longrightarrow> is_zero (fp_mul F x y)"
  by (cases x; cases y) (auto simp: fp_mul_def finite_fp_def)

lemma foldl_fp_mul_zero: "is_zero x \<Longrightarrow> \<forall>y \<in> set ys. finite_fp y \<Longrightarrow> is_zero (foldl (fp_mul F) x ys)"
  by (induction ys arbitrary: x) (simp_all add: fp_mul_zero)

text \<open>
  C40: The product of arguments one of which is complex has the imaginary part zero whatever they are, as long as
  they are finite, since the parts are multiplied separately: the product of the imaginary unit with itself is zero.
\<close>

theorem prod_complex_imaginary_lost:
  assumes "\<forall>v \<in> set vs. numeric_arg v" and "\<exists>v \<in> set vs. complex_arg v" and "\<forall>e \<in> set (elements vs). finite_fp (snd (to_cpx double_format e))"
  shows "\<exists>z. ProdBuiltIn vs = Return (Gives (fresh (DcomplexVec [(foldl (fp_mul double_format) (Number 1) (map (fst \<circ> to_cpx double_format) (elements vs)), z)]))) \<and> is_zero z"
proof -
  obtain t where t: "AllNumeric False 0 TYPE_STRING vs = Inr t" "t = TYPE_COMPLEX \<or> t = TYPE_DCOMPLEX"
    using AllNumeric_ok [OF assms(1), of False 0 TYPE_STRING] assms(2) by auto
  have "is_zero (foldl (fp_mul double_format) (Zero False) (map (snd \<circ> to_cpx double_format) (elements vs)))"
    using assms(3) by (intro foldl_fp_mul_zero) auto
  then show ?thesis using t args_loop_numeric(2) [OF assms(1)] by (auto simp: ProdBuiltIn_def foldl_cpx_asgnop comp_def)
qed

theorem prod_complex_imaginary_lost_witness:
  "\<exists>z. ProdBuiltIn [plain (Array (DcomplexVec [(Zero False, Number 1), (Zero False, Number 1)]))] = Return (Gives (fresh (DcomplexVec [(Zero False, z)]))) \<and> is_zero z"
proof -
  let ?v = "plain (Array (DcomplexVec [(Zero False, Number 1), (Zero False, Number 1)]))"
  have e: "elements [?v] = [DcomplexE (Zero False, Number 1), DcomplexE (Zero False, Number 1)]" by (simp add: elements_def spread_def elem_at_def numeral_2_eq_2)
  have "representable double_format 1"
  proof -
    have t: "two_pow 0 = 1" "two_pow 1 \<le> two_pow 1024" "two_pow 1 = 2" by (simp add: two_pow_def, simp only: two_pow_mono, simp add: two_pow_def)
    then show ?thesis by (auto simp: double_format_def intro!: representableI [of _ 1 0])
  qed
  then have o: "round_to double_format 1 = Number 1" and "numeric_arg ?v" by (simp_all add: round_to_representable numeric_arg_def IsNumeric_def numeric_type_def)
  moreover have "complex_arg ?v" by (simp add: complex_arg_def)
  ultimately show ?thesis using prod_complex_imaginary_lost [of "[?v]"] e o by (simp add: finite_fp_def fp_mul_def)
qed
section \<open>Replication is concatenation\<close>

lemma put_times_ok: "t \<le> left \<Longrightarrow> put_times t x left = Return (replicate t x)"
  by (induction t arbitrary: left) auto

lemma put_all_ok: "length xs \<le> left \<Longrightarrow> put_all xs left = Return xs"
  by (induction xs arbitrary: left) auto

lemma rep_each_ok:
  assumes "length ts = length xs" and "sum_list (map nat ts) \<le> left"
  shows "rep_each xs ts left = Return (concat (map2 (\<lambda>t x. replicate (nat t) x) ts xs))"
  using assms
proof (induction ts xs arbitrary: left rule: list_induct2)
  case (Cons t ts x xs)
  then show ?case using Cons.IH [of "left - nat t"] by (simp add: put_times_ok)
qed simp

lemma rep_whole_ok: "t * length xs \<le> left \<Longrightarrow> rep_whole t xs left = Return (concat (replicate t xs))"
proof (induction t arbitrary: left)
  case (Suc t)
  then show ?case using Suc.IH [of "left - length xs"] by (simp add: put_all_ok)
qed simp

text \<open>The positions whose elements replication gives, for the numbers of times asked for.\<close>

definition rep_positions :: "int list \<Rightarrow> nat \<Rightarrow> nat list" where
  "rep_positions ts n = (if length ts = 1 then concat (replicate (nat (hd ts)) [0..<n])
     else concat (map (\<lambda>i. replicate (nat (ts ! i)) i) [0..<n]))"

text \<open>One number or one for every element, none of them negative, and a result whose length fits an integer.\<close>

definition rep_fits :: "int list \<Rightarrow> nat \<Rightarrow> bool" where
  "rep_fits ts n \<longleftrightarrow> ts \<noteq> [] \<and> (length ts = 1 \<or> length ts = n) \<and> (\<forall>t \<in> set ts. 0 \<le> t)
    \<and> (if length ts = 1 then hd ts * int n else sum_list ts) \<le> 2147483647"

lemma concat_replicate_nth: "concat (replicate t xs) = map ((!) xs) (concat (replicate t [0..<length xs]))"
  by (simp add: map_concat map_nth)

lemma map2_replicate_nth:
  assumes "length ts = length xs"
  shows "concat (map2 (\<lambda>t x. replicate (nat t) x) ts xs) = map ((!) xs) (concat (map (\<lambda>i. replicate (nat (ts ! i)) i) [0..<length xs]))"
proof -
  have "map2 (\<lambda>t x. replicate (nat t) x) ts xs = map (\<lambda>i. replicate (nat (ts ! i)) (xs ! i)) [0..<length xs]"
    using assms by (intro nth_equalityI) auto
  then show ?thesis by (simp add: map_concat comp_def map_replicate_const [symmetric] map_replicate)
qed

lemma sum_list_sint:
  assumes "\<forall>t \<in> set ts. 0 \<le> sint t" and "(\<Sum>t\<leftarrow>ts. sint t) \<le> 2147483647"
  shows "sint (sum_list (ts :: 32 word list)) = (\<Sum>t\<leftarrow>ts. sint t)"
proof -
  have "word_of_int (\<Sum>t\<leftarrow>us. sint t) = sum_list (us :: 32 word list)" for us by (induction us) simp_all
  moreover have "0 \<le> (\<Sum>t\<leftarrow>ts. sint t)" using assms(1) by (intro sum_list_nonneg) auto
  ultimately show ?thesis using sint_wrap [of "\<Sum>t\<leftarrow>ts. sint t"] assms(2) by simp
qed

lemma sum_list_nat: "\<forall>t \<in> set ts. 0 \<le> t \<Longrightarrow> sum_list (map nat ts) = nat (sum_list ts)"
  by (induction ts) (auto simp: nat_add_distrib sum_list_nonneg)

lemma rep_list_ok:
  assumes fits: "rep_fits (map sint ts) (length xs)"
  shows "rep_list ts xs = Return (map ((!) xs) (rep_positions (map sint ts) (length xs)))"
proof (cases "length ts = 1")
  case True
  then obtain t where t: "ts = [t]" by (auto simp: length_Suc_conv)
  show ?thesis
  proof (cases "length xs = 1")
    case True
    then obtain x where "xs = [x]" by (auto simp: length_Suc_conv)
    then show ?thesis by (simp add: rep_list_def t put_times_ok rep_positions_def map_concat map_replicate)
  next
    case False
    have b: "0 \<le> sint t" "sint t * int (length xs) \<le> 2147483647" using fits t by (simp_all add: rep_fits_def)
    then have "0 \<le> sint t * int (length xs)" by simp
    then have "sint (word_of_int (sint t * int (length xs)) :: 32 word) = sint t * int (length xs)" using b(2) by (intro sint_wrap) linarith+
    moreover have "of_nat (length xs) * t = word_of_int (sint t * int (length xs))" by (simp add: mult.commute)
    ultimately have "sint (of_nat (length xs) * t) = sint t * int (length xs)" by metis
    moreover have "nat (sint t) * length xs = nat (sint t * int (length xs))" using b(1) by (simp add: nat_mult_distrib)
    ultimately show ?thesis using False rep_whole_ok [of "nat (sint t)" xs] concat_replicate_nth [of "nat (sint t)" xs]
      by (simp add: rep_list_def t rep_positions_def)
  qed
next
  case False
  moreover have "0 < length ts" "length ts = length xs" using False fits by (auto simp: rep_fits_def)
  ultimately have l: "length ts = length xs" "length ts > 1" by linarith+
  have "sum_list (map nat (map sint ts)) = nat (sint (sum_list ts))" using sum_list_sint [of ts] sum_list_nat [of "map sint ts"] fits False by (simp add: rep_fits_def)
  then show ?thesis using rep_each_ok [of "map sint ts" xs] map2_replicate_nth [of "map sint ts" xs] l by (simp add: rep_list_def rep_positions_def)
qed

lemma rep_vec_ok: "rep_fits (map sint ts) (vec_length a) \<Longrightarrow> rep_vec ts a = Return (vec_pick a (rep_positions (map sint ts) (vec_length a)))"
  by (cases a) (simp_all add: rep_vec_def rep_list_ok)

text \<open>
  C27: Replication with one number gives the whole vector that many times, with a number for every element it
  gives each element that many times, in order (\<open>rep_positions\<close>).
\<close>

theorem rep_correct:
  assumes e: "kern element = Array a" and n: "numeric_arg n" and ts: "ts = map (\<lambda>e. sint (to_int P e)) (spread (kern n) (Length n))"
    and fits: "rep_fits ts (vec_length a)"
  shows "RepBuiltIn P element n = Return (Gives (fresh (vec_pick a (rep_positions ts (vec_length a)))))"
proof -
  let ?ts = "map (to_int P) (spread (kern n) (Length n))"
  obtain c where c: "CoerceToIntArray P n (Length n) = Return (c, Some ?ts)" using coercions_ok(3) [of n "Length n" P] n by (auto simp: numeric_arg_def)
  have t: "ts = map sint ?ts" "length ts = Length n" by (simp_all add: ts comp_def spread_def)
  have "rep_vec ?ts a = Return (vec_pick a (rep_positions ts (vec_length a)))" using rep_vec_ok [of ?ts a] fits t(1) by simp
  moreover have "\<not> (\<exists>t \<in> set ?ts. sint t < 0)" "Length n = 1 \<or> Length n = vec_length a" using fits t by (auto simp: rep_fits_def not_less)
  ultimately show ?thesis using c e n unfolding RepBuiltIn_def numeric_arg_def by auto
qed

theorem rep_correct_witness:
  "RepBuiltIn example_platform (plain (Array (StringVec [''a'', ''b'', ''c'']))) (plain (Array (IntVec [2, 0, 1]))) = Return (Gives (fresh (StringVec [''a'', ''a'', ''c''])))"
  using rep_correct [of "plain (Array (StringVec [''a'', ''b'', ''c'']))" "StringVec [''a'', ''b'', ''c'']" "plain (Array (IntVec [2, 0, 1]))" "[2, 0, 1]" example_platform]
  by (simp add: numeric_arg_def IsNumeric_def numeric_type_def spread_def elem_at_def to_int_def rep_fits_def rep_positions_def upt_rec numeral_2_eq_2 numeral_3_eq_3)
text \<open>Replicating a reference to a part of a vector ends the interpreter, and without numbers the first number is read behind the array.\<close>

lemma rep_part_fatal:
  assumes "numeric_arg n" and "\<forall>e \<in> set (spread (kern n) (Length n)). 0 \<le> sint (to_int P e)"
  shows "kern element = SubVec a js \<Longrightarrow> Length n = 1 \<Longrightarrow> RepBuiltIn P element n = Stop (GlishFatal ''bad type in RepBuiltIn::DoCall()'')"
    and "kern element = Array (IntVec []) \<Longrightarrow> Length n = 0 \<Longrightarrow> RepBuiltIn P element n = Stop OutOfBounds"
proof -
  obtain c where c: "CoerceToIntArray P n (Length n) = Return (c, Some (map (to_int P) (spread (kern n) (Length n))))"
    using coercions_ok(3) [of n "Length n" P] assms(1) by (auto simp: numeric_arg_def)
  have z: "\<not> (\<exists>t \<in> set (map (to_int P) (spread (kern n) (Length n))). sint t < 0)" using assms(2) by (auto simp: not_less)
  show "RepBuiltIn P element n = Stop (GlishFatal ''bad type in RepBuiltIn::DoCall()'')" if "kern element = SubVec a js" "Length n = 1"
    using c z that assms(1) unfolding RepBuiltIn_def numeric_arg_def by (auto simp: spread_def)
  show "RepBuiltIn P element n = Stop OutOfBounds" if "kern element = Array (IntVec [])" "Length n = 0"
    using c z that assms(1) unfolding RepBuiltIn_def numeric_arg_def by (auto simp: spread_def rep_vec_def rep_list_def)
qed

end
