(* ===== verification/Spec2Isabelle.thy ===== *)
theory Spec2Isabelle
  imports Npd_Protocol Make_Lst_Ops Make_Hash Make_Buf Make_Str Make_Read Glish_List Glish_Dict Glish_Queue Glish_Call Glish_Builtin
begin

text \<open>
  A verification library for the Glish distribution (\<^verbatim>\<open>src/\<close>): the interpreter of the Glish
  language and the programs built with it. The interpreter (\<^verbatim>\<open>glish/\<close>) parses scripts into
  statements and expressions, resolves names to frame slots while parsing and runs the statements over
  a stack of frames; it stores scopes, records and queues in the containers of \<^verbatim>\<open>sos/list.cc\<close>,
  \<^verbatim>\<open>glish/Dict.cc\<close> and \<^verbatim>\<open>glish/Queue.cc\<close>. Remote clients are started through a daemon that
  authenticates its peers with \<^verbatim>\<open>npd/\<close>. The make client (\<^verbatim>\<open>glish/clients/make/\<close>) is a BSD make
  whose lists, hash tables, buffers and strings are libraries of their own.

  \<^bold>\<open>Foundations.\<close>
  \<^item> \<open>Glish_Prelude\<close>: bytes, characters and 32-bit words, decimal and hexadecimal text, copies into
    blocks, multisets of chains.
  \<^item> \<open>Glish_Interfaces\<close>: the locales \<open>fifo\<close> (a queue and what comes out of it) and \<open>string_table\<close> (a
    table from strings to values), whose clients' lemmas are proved once. They are interpreted by the
    lists of lst.lib, the queue of Glish, the hash table of make and the dictionary of Glish; memory
    is an explicit heap in all of them, and following a dangling or null pointer is the value \<open>None\<close>.

  \<^bold>\<open>npd\<close> (\<^verbatim>\<open>src/npd\<close>).
  \<^item> \<open>Npd_MD5\<close> (md5c.c): the digest context with its 32-bit counters; feeding it in chunks is the
    one-shot digest.
  \<^item> \<open>Npd_Util\<close> (util.c): binary to text and back, words and files from a peer, account lookups.
  \<^item> \<open>Npd_Auth\<close> (auth.c): key files and challenges over a file system that is part of the state.
  \<^item> \<open>Npd_Protocol\<close> (npd.c, genkey.c): both sides of the handshake as functions from the text the
    peer sent to the outcome and the text written. An accepted peer is who it says it is, two honest
    sides succeed. The resolver, the accounts and the files are parts of the state.

  \<^bold>\<open>make\<close> (\<^verbatim>\<open>src/glish/clients/make\<close>).
  \<^item> \<open>Make_Lst\<close>, \<open>Make_Lst_Ops\<close> (lst.lib): doubly linked lists, linear or circular, with sequential
    access and use counts. \<open>Make_Lst\<close> holds the operations, \<open>lst_rep\<close> (what a well-formed list is) and the
    single step lemmas; \<open>Make_Lst_Ops\<close> the loops and the properties. Loops over nodes are
    \<open>partial_function (option)\<close>; that they return is part of the properties.
  \<^item> \<open>Make_Hash\<close> (hash.c), \<open>Make_Buf\<close> (buf.c), \<open>Make_Str\<close> (str.c): hash tables refine maps, buffers
    never leave their block, words are broken and patterns matched as described.
  \<^item> \<open>C_Double\<close>: doubles as rationals or infinities and the conversion of text (\<open>strtod\<close>).
  \<^item> \<open>Make_Cond\<close> (cond.c): the scanner and the parser of conditions, and the stack of open
    conditionals. The mutual recursion of CondT, CondF and CondE runs on fuel; \<open>cond_fuel\<close> is enough
    unless a token leads behind the line. \<open>writes\<close> is the grammar of conditions, \<open>cond_value\<close> their
    meaning; variables, files and targets are the fields of the parameter \<open>cond_env\<close>.
  \<^item> \<open>Make_Read\<close> (the line reader of parse.c, for.c): logical lines, skipped sections, for loops and the
    stack of inputs. \<open>blocks\<close> are makefiles with nested conditionals, \<open>selected\<close> the lines their
    conditions leave; the reader returns exactly these.

  \<^bold>\<open>glish\<close> (\<^verbatim>\<open>src/glish\<close>, \<^verbatim>\<open>src/sos/list.cc\<close>).
  \<^item> \<open>Glish_List\<close>, \<open>Glish_Dict\<close>, \<open>Glish_Queue\<close>: the containers, each with its representation
    invariant and the mathematical object it implements.
  \<^item> \<open>Glish_Scope\<close> (the scope and frame part of Sequencer.cc, Frame.cc): PushScope, PopScope, InstallID,
    LookupID, InstallVar and LookupVar, and FrameElement and SetFrameElement. \<open>scopes_ok\<close> is the
    invariant of the parser's scopes, \<open>designates\<close> the slot that a variable leads to from a scope.
  \<^item> \<open>Glish_Frame\<close>: the frames of a running script beside its scopes (\<open>running\<close>); access by offsets is
    access by name.
  \<^item> \<open>Glish_Stmt\<close> (Stmt.cc, the flags of Expr.h): every statement as a function of the flags and the
    state. Expressions and values are the fields of the parameter \<open>interp\<close>; \<open>interp_ok\<close> says that they
    leave the frames and flags as they found them, \<open>interp_returns\<close> that they return. A \<open>while\<close> loop runs
    on fuel, and running out of it is the outcome \<open>Timeout\<close>, which is told apart from every result;
    results do not depend on the fuel once it is enough.
  \<^item> \<open>Glish_Call\<close> (Func.cc, the frames of VarExpr in Expr.cc): calls of functions written in Glish. Actual
    parameters are matched with formal ones by position and by name in a frame that is not yet on the
    stack; \<open>call_ok\<close> says that every formal has an argument or a default, \<open>source\<close> which expression it
    takes, \<open>bound\<close> that the frame holds the values. The operations on values that calls use are the
    fields of the parameter \<open>call_ops\<close>. The body runs on the fuel of \<open>Glish_Stmt\<close>.
  \<^item> \<open>C_Float\<close>: IEEE 754 arithmetic in the formats float and double, computed as the rounded exact operation.
  \<^item> \<open>Glish_Value\<close> (Value.cc, IValue.cc, VecRef.cc, IValCtorKern.cc): vectors, references to parts of
    vectors, copies, coercions and unary operators. \<open>kern_ok\<close> says that numbers fit their format and that
    references lead into their vector, \<open>spread\<close> are the elements an operator combines. The library
    functions, undefined casts and the division trap are the fields of the parameter \<open>platform\<close>.
  \<^item> \<open>Glish_Arith\<close> (BinOpExpr.cc, the operators of IValue.cc, Complex.cc): the binary operators. A run
    either returns a value or failure or stops (\<open>run\<close>): fatal reports, reads outside of arrays and traps
    are told apart. \<open>arith_elem\<close> and \<open>rel_elem\<close> are the operators on elements that the loops implement.
  \<^item> \<open>Glish_Subscript\<close> (the subscripts of Value.cc and IValue.cc, growth in ValKern.cc): from an index to the
    positions it selects, reading them and assigning to them. \<open>vec_pick\<close> are the elements at positions,
    \<open>promote\<close> is an element converted to a type. Subscripts of records are the parameter \<open>record_ops\<close>.
  \<^item> \<open>Glish_Builtin\<close> (the range operator of Expr.cc; sum, prod, length and rep of BuiltIn.cc): loops that
    fill arrays sized by wrapping integers. \<open>elements\<close> are all elements of a list of arguments,
    \<open>rep_positions\<close> the positions that replication repeats.

  \<^bold>\<open>Not modelled.\<close> Statements and calls take values and expressions as parameters; of the values of Glish,
  vectors, their subscripts and operators are modelled, records, n-dimensional subscripts, reference counts and text conversion are not, nor are the
  other expressions (Expr.cc) and most built-in functions (BuiltIn.cc). The event loop, clients,
  channels and daemons are system calls throughout. The allocator, the regular expression engine and
  the line editor are copies of other projects; the Tk and PGPLOT clients are bindings. Of make, the
  parser of dependency lines, variables, suffix rules and jobs are left out, as is the binary data format of \<^verbatim>\<open>sos\<close>.
\<close>

end
